(* ===== verification/Lab_Prelude.thy ===== *)
theory Lab_Prelude
  imports Complex_Main "HOL-Library.Multiset"
begin

text \<open>
  Shared vocabulary of the development: the exceptions the Python sources raise, JSON values,
  Python's \<^verbatim>\<open>str\<close> on integers, the indexing rule of Python sequences, and the list lemmas
  several components use. Keyed collections are maps; where the source relies on the order of
  a \<^verbatim>\<open>dict\<close> or a table scan, they are lists.
\<close>

named_theorems lab_defs \<open>definitions a component unfolds in its own proofs\<close>

text \<open>Exceptions of the standard library that the modelled functions raise.\<close>

datatype py_error =
    ValueError string
  | TypeError string
  | KeyError string
  | RuntimeError string
  | IndexError
  | ZeroDivisionError

type_synonym 'a py = "py_error + 'a"

text \<open>Values of a JSON document or of a Python dictionary built for one.\<close>

datatype json =
    JNull
  | JBool bool
  | JInt int
  | JFloat rat
  | JStr string
  | JObj "(string \<times> json) list"

text \<open>Python's \<^verbatim>\<open>str\<close> of an integer, in decimal.\<close>

definition digit_char :: "nat \<Rightarrow> char" where
  "digit_char d = char_of (48 + d)"

fun py_str_nat :: "nat \<Rightarrow> string" where
  "py_str_nat n = (if n < 10 then [digit_char n] else py_str_nat (n div 10) @ [digit_char (n mod 10)])"

declare py_str_nat.simps [simp del]

definition py_str_int :: "int \<Rightarrow> string" where
  "py_str_int k = (if k < 0 then ''-'' @ py_str_nat (nat (- k)) else py_str_nat (nat k))"

text \<open>
  Python indexing \<^verbatim>\<open>xs[i]\<close>: a negative index counts from the end, anything outside raises.
\<close>

definition py_index :: "'a list \<Rightarrow> int \<Rightarrow> 'a py" where
  "py_index xs i =
     (if 0 \<le> i \<and> nat i < length xs then Inr (xs ! nat i)
      else if i < 0 \<and> nat (- i) \<le> length xs then Inr (xs ! (length xs - nat (- i)))
      else Inl IndexError)"

lemma py_index_ok [simp]: "0 \<le> i \<Longrightarrow> i < int (length xs) \<Longrightarrow> py_index xs i = Inr (xs ! nat i)"
  by (simp add: py_index_def nat_less_iff)

subsection \<open>Lists\<close>

lemma sum_list_replicate_int [simp]: "sum_list (replicate n (x::int)) = int n * x"
  by (induction n) (simp_all add: algebra_simps)

lemma sorted_dropWhile_less: "sorted xs \<Longrightarrow> \<forall>x\<in>set (dropWhile (\<lambda>x. x < (b::'a::linorder)) xs). b \<le> x"
  by (induction xs) (auto simp: not_less intro: order_trans)

lemma sorted_dropWhile: "sorted xs \<Longrightarrow> sorted (dropWhile P xs)"
  by (rule sorted_wrt_dropWhile)

lemma length_dropWhile_snoc: "length (dropWhile P (xs @ [x])) \<le> Suc (length (dropWhile P xs))"
  by (induction xs) auto

text \<open>
  The order statistic of a sorted list exceeds a bound exactly when enough elements do: the
  fact behind every "percentile above threshold" rule.
\<close>

lemma filter_length_all: "length (filter P xs) = length xs \<longleftrightarrow> (\<forall>x\<in>set xs. P x)"
  by (metis filter_True filter_id_conv length_filter_less nat_neq_iff)

lemma sorted_nth_greater_iff:
  "sorted xs \<Longrightarrow> i < length xs \<Longrightarrow>
   (t < xs ! i) = (length xs - i \<le> length (filter (\<lambda>x. (t::'a::linorder) < x) xs))"
proof (induction xs arbitrary: i)
  case (Cons a xs)
  show ?case
  proof (cases "t < a")
    case True
    then have all: "\<forall>x\<in>set (a # xs). t < x" using Cons.prems(1) by auto
    then have "length (filter (\<lambda>x. t < x) (a # xs)) = length (a # xs)" by (simp only: filter_length_all)
    moreover have "t < (a # xs) ! i" using all Cons.prems(2) nth_mem by blast
    ultimately show ?thesis by simp
  next
    case False
    show ?thesis
    proof (cases i)
      case 0
      have "length (filter (\<lambda>x. t < x) xs) \<le> length xs" by (rule length_filter_le)
      then have "\<not> Suc (length xs) \<le> length (filter (\<lambda>x. t < x) xs)" by linarith
      with 0 False show ?thesis by simp
    next
      case (Suc k)
      with False Cons show ?thesis by simp
    qed
  qed
qed simp

text \<open>Counting after one position of a list changed: how step relations keep totals.\<close>

lemma length_filter_update:
  "i < length xs \<Longrightarrow> length (filter P (xs[i := y])) + of_bool (P (xs ! i)) = length (filter P xs) + of_bool (P y)"
proof (induction xs arbitrary: i)
  case (Cons x xs)
  show ?case
  proof (cases i)
    case (Suc k)
    with Cons.IH [of k] Cons.prems show ?thesis by simp
  qed simp
qed simp

lemma sum_map_update:
  "i < length xs \<Longrightarrow> sum_list (map f (xs[i := y])) + f (xs ! i) = sum_list (map f xs) + (f y :: 'b::comm_monoid_add)"
proof (induction xs arbitrary: i)
  case (Cons x xs)
  show ?case
  proof (cases i)
    case (Suc k)
    with Cons.IH [of k] Cons.prems show ?thesis by (simp add: ac_simps)
  qed (simp add: ac_simps)
qed simp

text \<open>Counting is summing ones.\<close>

lemma sum_of_bool: "sum_list (map (\<lambda>p. of_bool (P p)) ps) = (int (length (filter P ps)))"
  by (induction ps) simp_all

end
