(* ===== verification/Craft_Pagination.thy ===== *)
theory Craft_Pagination
  imports Lab_Prelude "HOL-Library.Product_Lexorder"
begin

text \<open>
  \<^verbatim>\<open>08-craft/lab/api/app/core/pagination.py\<close>: three keyset pagination implementations and the
  harness that walks pages until the implementation returns no cursor. The locale \<open>keyset\<close>
  states what an implementation bounded by a strict comparison on a sort key does; the walk
  is proved complete in it once and interpreted for \<open>page\<close> and \<open>page_composite\<close>.
\<close>

record row =
  created_at :: int
  row_id :: int

abbreviation composite_key :: "row \<Rightarrow> int \<times> int" where
  "composite_key r \<equiv> (created_at r, row_id r)"

definition limit_error :: py_error where
  "limit_error = ValueError ''limit must be >= 1''"

definition page :: "row list \<Rightarrow> int option \<Rightarrow> int \<Rightarrow> (row list \<times> int option) py" where
  "page rows cursor limit =
     (if limit < 1 then Inl limit_error
      else let rows' = (case cursor of None \<Rightarrow> rows | Some c \<Rightarrow> filter (\<lambda>r. created_at r < c) rows);
               out = take (nat limit) rows';
               next_cursor = (if int (length out) = limit then Some (created_at (last out)) else None)
           in Inr (out, next_cursor))"

definition page_inclusive :: "row list \<Rightarrow> int option \<Rightarrow> int \<Rightarrow> (row list \<times> int option) py" where
  "page_inclusive rows cursor limit =
     (if limit < 1 then Inl limit_error
      else let rows' = (case cursor of None \<Rightarrow> rows | Some c \<Rightarrow> filter (\<lambda>r. created_at r \<le> c) rows);
               out = take (nat limit) rows';
               next_cursor = (if int (length out) = limit then Some (created_at (last out)) else None)
           in Inr (out, next_cursor))"

definition page_composite ::
    "row list \<Rightarrow> (int \<times> int) option \<Rightarrow> int \<Rightarrow> (row list \<times> (int \<times> int) option) py" where
  "page_composite rows before limit =
     (if limit < 1 then Inl limit_error
      else let rows' = (case before of None \<Rightarrow> rows
                          | Some b \<Rightarrow> filter (\<lambda>r. (created_at r, row_id r) < b) rows);
               out = take (nat limit) rows';
               next_before = (if int (length out) = limit
                              then Some (created_at (last out), row_id (last out)) else None)
           in Inr (out, next_before))"

text \<open>
  The \<^verbatim>\<open>for _ in range(max_pages)\<close> loop; the final \<^verbatim>\<open>RuntimeError\<close> carries the number of
  rows emitted and the number of input rows.
\<close>

datatype walk_error = ImplError py_error | DidNotTerminate nat nat

fun walk_loop ::
    "(row list \<Rightarrow> 'c option \<Rightarrow> int \<Rightarrow> (row list \<times> 'c option) py) \<Rightarrow> row list \<Rightarrow> int \<Rightarrow> nat \<Rightarrow>
     'c option \<Rightarrow> row list \<Rightarrow> walk_error + row list" where
  "walk_loop impl rows limit 0 cursor seen = Inl (DidNotTerminate (length seen) (length rows))"
| "walk_loop impl rows limit (Suc n) cursor seen =
     (case impl rows cursor limit of
        Inl e \<Rightarrow> Inl (ImplError e)
      | Inr (out, cursor') \<Rightarrow>
          (let seen' = seen @ out in
           case cursor' of None \<Rightarrow> Inr seen' | Some _ \<Rightarrow> walk_loop impl rows limit n cursor' seen'))"

definition walk_pages ::
    "row list \<Rightarrow> int \<Rightarrow> (row list \<Rightarrow> 'c option \<Rightarrow> int \<Rightarrow> (row list \<times> 'c option) py) \<Rightarrow> int \<Rightarrow>
     walk_error + row list" where
  "walk_pages rows limit impl max_pages = walk_loop impl rows limit (nat max_pages) None []"

text \<open>Python's sort is stable, also with \<^verbatim>\<open>reverse=True\<close>: sort by the negated key.\<close>

definition sorted_desc :: "row list \<Rightarrow> row list" where
  "sorted_desc rows = sort_key (\<lambda>r. - created_at r) rows"

definition sorted_desc_composite :: "row list \<Rightarrow> row list" where
  "sorted_desc_composite rows = sort_key (\<lambda>r. (- created_at r, - row_id r)) rows"

subsection \<open>Pages bounded by a strict comparison on a key\<close>

definition after :: "('r \<Rightarrow> 'k::linorder) \<Rightarrow> 'r list \<Rightarrow> 'k option \<Rightarrow> 'r list" where
  "after key rows c = (case c of None \<Rightarrow> rows | Some k \<Rightarrow> filter (\<lambda>r. key r < k) rows)"

abbreviation strictly_desc :: "('r \<Rightarrow> 'k::linorder) \<Rightarrow> 'r list \<Rightarrow> bool" where
  "strictly_desc key rows \<equiv> sorted_wrt (\<lambda>a b. key b < key a) rows"

lemma strictly_desc_after: "strictly_desc key rows \<Longrightarrow> strictly_desc key (after key rows c)"
  by (auto simp: after_def intro: sorted_wrt_filter split: option.split)

lemma last_of_strictly_desc: "strictly_desc key xs \<Longrightarrow> xs \<noteq> [] \<Longrightarrow> \<forall>a\<in>set xs. key (last xs) \<le> key a"
  by (induction xs) (auto intro: less_imp_le)

lemma filter_below_last:
  assumes "strictly_desc key rs" and "0 < n" and "n \<le> length rs"
  shows "filter (\<lambda>r. key r < key (last (take n rs))) rs = drop n rs"
proof -
  have rs: "rs = take n rs @ drop n rs" by simp
  let ?l = "last (take n rs)"
  have ne: "take n rs \<noteq> []" using assms by auto
  have "strictly_desc key (take n rs @ drop n rs)" using assms(1) by simp
  then have *: "\<forall>a\<in>set (take n rs). \<forall>b\<in>set (drop n rs). key b < key a"
    and tk: "strictly_desc key (take n rs)" by (auto simp only: sorted_wrt_append)
  have "\<forall>a\<in>set (take n rs). \<not> key a < key ?l"
    using last_of_strictly_desc [OF tk ne] by (simp add: not_less)
  moreover have "\<forall>b\<in>set (drop n rs). key b < key ?l" using * ne last_in_set by blast
  ultimately have "filter (\<lambda>r. key r < key ?l) (take n rs @ drop n rs) = drop n rs"
    by (simp only: filter_append) simp
  then show ?thesis by simp
qed

locale keyset =
  fixes key :: "row \<Rightarrow> 'k::linorder"
    and impl :: "row list \<Rightarrow> 'k option \<Rightarrow> int \<Rightarrow> (row list \<times> 'k option) py"
  assumes impl_page: "1 \<le> limit \<Longrightarrow> impl rows c limit =
      (let out = take (nat limit) (after key rows c)
       in Inr (out, if length out = nat limit then Some (key (last out)) else None))"
    and impl_error: "limit < 1 \<Longrightarrow> impl rows c limit = Inl limit_error"
begin

text \<open>The page after a full page starts where it stopped.\<close>

lemma next_page:
  assumes "strictly_desc key rows" and "0 < n" and "n \<le> length (after key rows c)"
  shows "after key rows (Some (key (last (take n (after key rows c))))) = drop n (after key rows c)"
proof -
  let ?rs = "after key rows c"
  let ?l = "last (take n ?rs)"
  have l: "?l \<in> set ?rs"
    using assms(2,3) by (metis in_set_takeD last_in_set length_0_conv length_take min.absorb2 not_less0)
  have sub: "\<forall>r. key r < key ?l \<longrightarrow> r \<in> set rows \<longrightarrow> r \<in> set ?rs"
    using l by (auto simp: after_def split: option.splits)
  have "filter (\<lambda>r. key r < key ?l) rows = filter (\<lambda>r. key r < key ?l) ?rs"
    using l by (auto simp: after_def intro!: filter_cong split: option.splits)
  also have "\<dots> = drop n ?rs"
    using assms by (intro filter_below_last strictly_desc_after)
  finally show ?thesis by (simp add: after_def)
qed

lemma walk_loop_complete:
  assumes "strictly_desc key rows" and "1 \<le> limit"
    and "length (after key rows c) < fuel * nat limit"
  shows "walk_loop impl rows limit fuel c seen = Inr (seen @ after key rows c)"
  using assms(3)
proof (induction fuel arbitrary: c seen)
  case (Suc fuel)
  let ?n = "nat limit" and ?rs = "after key rows c"
  have n: "0 < ?n" using assms(2) by simp
  show ?case
  proof (cases "?n \<le> length ?rs")
    case True
    note nx = next_page [OF assms(1) n True]
    have "length (drop ?n ?rs) < fuel * ?n" using Suc.prems True by simp
    then have "walk_loop impl rows limit fuel (Some (key (last (take ?n ?rs)))) (seen @ take ?n ?rs)
        = Inr ((seen @ take ?n ?rs) @ drop ?n ?rs)"
      by (subst Suc.IH) (simp_all add: nx)
    with True assms(2) show ?thesis by (simp add: impl_page Let_def)
  next
    case False
    with assms(2) show ?thesis by (simp add: impl_page Let_def)
  qed
qed simp

lemma walk_complete:
  assumes "strictly_desc key rows" and "1 \<le> limit" and "int (length rows) < max_pages * limit"
  shows "walk_pages rows limit impl max_pages = Inr rows"
proof -
  have "0 < max_pages" using assms(2,3)
    by (metis linorder_not_less mult_nonpos_nonneg of_nat_0_le_iff order_trans zero_le_one le_less_trans)
  then have "length rows < nat max_pages * nat limit"
    using assms(3) by (simp flip: nat_mult_distrib) 
  with assms(1,2) show ?thesis
    using walk_loop_complete [of rows limit None "nat max_pages" "[]"]
    by (simp add: walk_pages_def after_def)
qed

text \<open>After a cursor, only rows strictly below it are ever emitted.\<close>

lemma walk_loop_below:
  assumes "walk_loop impl rows limit fuel (Some k) seen = Inr out" and "r \<in> set out"
  shows "r \<in> set seen \<or> key r < k"
  using assms
proof (induction fuel arbitrary: k seen)
  case (Suc fuel)
  show ?case
  proof (cases "limit < 1")
    case True
    with Suc.prems show ?thesis by (simp add: impl_error)
  next
    case False
    let ?o = "take (nat limit) (after key rows (Some k))"
    have below: "\<forall>x\<in>set ?o. key x < k" by (auto simp: after_def dest: in_set_takeD)
    show ?thesis
    proof (cases "length ?o = nat limit")
      case True
      with False Suc.prems have
        "walk_loop impl rows limit fuel (Some (key (last ?o))) (seen @ ?o) = Inr out"
        by (simp add: impl_page Let_def)
      from Suc.IH [OF this Suc.prems(2)] have "r \<in> set (seen @ ?o) \<or> key r < key (last ?o)" .
      moreover have "?o \<noteq> []" using True False by auto
      then have "key (last ?o) < k" using below last_in_set by blast
      ultimately show ?thesis using below by auto
    next
      case 2: False
      then have "length (after key rows (Some k)) < nat limit" by (auto simp: min_def split: if_splits)
      with False Suc.prems below show ?thesis by (auto simp: impl_page Let_def)
    qed
  qed
qed simp

lemma walk_skips_ties:
  assumes "walk_pages rows limit impl max_pages = Inr out"
    and "1 \<le> limit" and "nat limit < length rows" and "distinct rows"
    and "key (rows ! nat limit) = key (rows ! (nat limit - 1))"
  shows "rows ! nat limit \<notin> set out"
proof
  assume r: "rows ! nat limit \<in> set out"
  let ?n = "nat limit"
  have n: "0 < ?n" using assms(2) by simp
  then have last: "last (take ?n rows) = rows ! (?n - 1)" 
    using assms(3) by (subst last_conv_nth) auto
  obtain m where m: "nat max_pages = Suc m"
    using assms(1) by (cases "nat max_pages") (auto simp: walk_pages_def)
  then have "walk_loop impl rows limit m (Some (key (rows ! (?n - 1)))) (take ?n rows) = Inr out"
    using assms(1-3) n by (simp add: walk_pages_def impl_page Let_def after_def last)
  from walk_loop_below [OF this r] assms(5) have "rows ! ?n \<in> set (take ?n rows)" by simp
  with assms(3,4) show False
    by (auto simp: in_set_conv_nth nth_eq_iff_index_eq)
qed

end

interpretation pg: keyset created_at page
  by unfold_locales (auto simp: page_def after_def Let_def split: option.split)

interpretation pgc: keyset composite_key page_composite
  by unfold_locales (auto simp: page_composite_def after_def Let_def split: option.split)

subsection \<open>Properties\<close>

lemma strictly_desc_of_sorted:
  "sorted (map (\<lambda>r. (- created_at r, - row_id r)) rs) \<Longrightarrow> distinct (map row_id rs) \<Longrightarrow>
   strictly_desc composite_key rs"
proof (induction rs)
  case (Cons a rs)
  have "composite_key b < composite_key a" if "b \<in> set rs" for b
  proof -
    have "(- created_at a, - row_id a) \<le> (- created_at b, - row_id b)" and "row_id a \<noteq> row_id b"
      using Cons.prems that by auto
    then show ?thesis by (auto simp: less_prod_def less_eq_prod_def)
  qed
  with Cons show ?case by simp
qed simp

lemma sorted_desc_composite_strict:
  "distinct (map row_id rows) \<Longrightarrow> strictly_desc composite_key (sorted_desc_composite rows)"
  by (rule strictly_desc_of_sorted) (simp_all add: sorted_desc_composite_def distinct_map)

lemma mset_sorted_desc_composite [simp]: "mset (sorted_desc_composite rows) = mset rows"
  by (simp add: sorted_desc_composite_def)

lemma length_sorted_desc_composite [simp]: "length (sorted_desc_composite rows) = length rows"
  by (simp add: sorted_desc_composite_def)

text \<open>
  C34. Walking \<^verbatim>\<open>page_composite\<close> over rows with unique ids, sorted by \<^verbatim>\<open>(created_at, id)\<close>
  descending, returns every row exactly once and in order, whatever ties the timestamps have,
  as soon as \<^verbatim>\<open>max_pages * limit\<close> exceeds the number of rows.
\<close>

theorem walk_composite_complete:
  assumes "distinct (map row_id rows)" and "1 \<le> limit"
    and "int (length rows) < max_pages * limit"
  shows "\<exists>out. walk_pages (sorted_desc_composite rows) limit page_composite max_pages = Inr out
           \<and> mset out = mset rows \<and> out = sorted_desc_composite rows"
  using pgc.walk_complete [OF sorted_desc_composite_strict [OF assms(1)] assms(2)] assms(3)
  by simp

theorem walk_composite_complete_witness:
  "\<exists>out. walk_pages (sorted_desc_composite [\<lparr>created_at = 0, row_id = 0\<rparr>, \<lparr>created_at = 0, row_id = 1\<rparr>])
           1 page_composite 1000 = Inr out
       \<and> mset out = mset [\<lparr>created_at = 0, row_id = 0\<rparr>, \<lparr>created_at = 0, row_id = 1\<rparr>]
       \<and> out = sorted_desc_composite [\<lparr>created_at = 0, row_id = 0\<rparr>, \<lparr>created_at = 0, row_id = 1\<rparr>]"
  by (rule walk_composite_complete) simp_all

text \<open>
  With the single-column cursor of \<^verbatim>\<open>page\<close>, whenever the row after the first page shares
  its timestamp with the last row of that page, a walk that returns has dropped it: it is never
  emitted on any page.
\<close>

theorem walk_page_drops_tied_row:
  assumes "walk_pages rows limit page max_pages = Inr out"
    and "1 \<le> limit" and "nat limit < length rows" and "distinct (map row_id rows)"
    and "created_at (rows ! nat limit) = created_at (rows ! (nat limit - 1))"
  shows "rows ! nat limit \<notin> set out"
  using pg.walk_skips_ties [OF assms(1-3) _ assms(5)] assms(4) by (auto simp: distinct_map)

theorem walk_page_drops_tied_row_witness:
  "walk_pages [\<lparr>created_at = 0, row_id = 0\<rparr>, \<lparr>created_at = 0, row_id = 1\<rparr>] 1 page 1000
     = Inr [\<lparr>created_at = 0, row_id = 0\<rparr>]
   \<and> \<lparr>created_at = 0, row_id = 1\<rparr> \<notin> set [\<lparr>created_at = 0, row_id = 0\<rparr>]"
proof
  show w: "walk_pages [\<lparr>created_at = 0, row_id = 0\<rparr>, \<lparr>created_at = 0, row_id = 1\<rparr>] 1 page 1000
     = Inr [\<lparr>created_at = 0, row_id = 0\<rparr>]"
    by code_simp
  show "\<lparr>created_at = 0, row_id = 1\<rparr> \<notin> set [\<lparr>created_at = 0, row_id = 0\<rparr>]"
    using walk_page_drops_tied_row [OF w] by simp
qed

text \<open>
  Where timestamps are pairwise different, \<^verbatim>\<open>page\<close> loses nothing: its walk returns the
  descending list itself.
\<close>

theorem walk_page_complete_without_ties:
  assumes "sorted_wrt (\<lambda>a b. created_at b < created_at a) rows" and "1 \<le> limit"
    and "int (length rows) < max_pages * limit"
  shows "walk_pages rows limit page max_pages = Inr rows"
  using assms by (rule pg.walk_complete)

theorem walk_page_complete_without_ties_witness:
  "walk_pages [\<lparr>created_at = 5, row_id = 0\<rparr>, \<lparr>created_at = 3, row_id = 1\<rparr>] 1 page 1000
     = Inr [\<lparr>created_at = 5, row_id = 0\<rparr>, \<lparr>created_at = 3, row_id = 1\<rparr>]"
  by (rule walk_page_complete_without_ties) simp_all

lemma walk_inclusive_loops:
  assumes "1 \<le> limit" and "nat limit \<le> length rows"
    and "\<forall>r\<in>set rows. created_at r \<le> t" and "created_at (rows ! (nat limit - 1)) = t"
    and "c = None \<or> c = Some t"
  shows "walk_loop page_inclusive rows limit fuel c seen
           = Inl (DidNotTerminate (length seen + fuel * nat limit) (length rows))"
  using assms(5)
proof (induction fuel arbitrary: c seen)
  case (Suc fuel)
  have "filter (\<lambda>r. created_at r \<le> t) rows = rows" using assms(3) by simp
  moreover have "last (take (nat limit) rows) = rows ! (nat limit - 1)"
    using assms(1,2) by (subst last_conv_nth) auto
  ultimately have "page_inclusive rows c limit = Inr (take (nat limit) rows, Some t)"
    using assms Suc.prems by (auto simp: page_inclusive_def Let_def)
  then show ?case using assms(2) by (simp add: Suc.IH)
qed simp

text \<open>
  C38. The \<^verbatim>\<open><=\<close> variant never finishes when the rows of the first page share the newest
  timestamp: for every page budget the walk raises the duplicate-forever error, having emitted
  \<^verbatim>\<open>max_pages * limit\<close> rows.
\<close>

theorem walk_inclusive_never_terminates:
  assumes "1 \<le> limit" and "nat limit \<le> length rows"
    and "\<forall>r\<in>set rows. created_at r \<le> created_at (rows ! (nat limit - 1))"
  shows "walk_pages rows limit page_inclusive max_pages
           = Inl (DidNotTerminate (nat max_pages * nat limit) (length rows))"
  using walk_inclusive_loops [OF assms refl, of None "nat max_pages" "[]"]
  by (simp add: walk_pages_def)

theorem walk_inclusive_never_terminates_witness:
  "walk_pages [\<lparr>created_at = 7, row_id = 0\<rparr>, \<lparr>created_at = 7, row_id = 1\<rparr>] 2 page_inclusive 1000
     = Inl (DidNotTerminate (nat 1000 * nat 2) (length [\<lparr>created_at = 7, row_id = 0\<rparr>, \<lparr>created_at = 7, row_id = 1\<rparr>]))"
  by (rule walk_inclusive_never_terminates) (simp_all add: numeral_2_eq_2)

end
