(* ===== verification/Craft_Money.thy ===== *)
theory Craft_Money
  imports Lab_Prelude
begin

text \<open>
  \<^verbatim>\<open>08-craft/lab/api/app/core/money.py\<close>: splitting an amount of cents into parts. Python's
  \<^verbatim>\<open>//\<close> and \<^verbatim>\<open>%\<close> by a positive divisor are \<open>div\<close> and \<open>mod\<close> on \<open>int\<close>.
\<close>

definition parts_error :: py_error where
  "parts_error = ValueError ''n must be >= 1''"

text \<open>The loop \<^verbatim>\<open>for i in range(remainder): parts[i] += 1\<close>.\<close>

definition bump_first :: "int list \<Rightarrow> nat \<Rightarrow> int list" where
  "bump_first parts remainder = fold (\<lambda>i ps. ps[i := ps ! i + 1]) [0..<remainder] parts"

definition split_evenly :: "int \<Rightarrow> int \<Rightarrow> int list py" where
  "split_evenly total_cents n =
     (if n < 1 then Inl parts_error
      else let base = total_cents div n;
               remainder = \<bar>total_cents\<bar> mod n
           in Inr (bump_first (replicate (nat n) base) (nat remainder)))"

definition split_evenly_fixed :: "int \<Rightarrow> int \<Rightarrow> int list py" where
  "split_evenly_fixed total_cents n =
     (if n < 1 then Inl parts_error
      else let sign = (if total_cents < 0 then - 1 else 1);
               base = \<bar>total_cents\<bar> div n;
               remainder = \<bar>total_cents\<bar> mod n
           in Inr (map (\<lambda>p. sign * p) (bump_first (replicate (nat n) base) (nat remainder))))"

lemma bump_first_replicate:
  "r \<le> n \<Longrightarrow> bump_first (replicate n b) r = replicate r (b + 1) @ replicate (n - r) b"
proof (induction r)
  case (Suc r)
  have "bump_first (replicate n b) (Suc r)
      = (replicate r (b + 1) @ replicate (n - r) b)
          [r := (replicate r (b + 1) @ replicate (n - r) b) ! r + 1]"
    using Suc by (simp add: bump_first_def)
  also have "\<dots> = replicate r (b + 1) @ (replicate (n - r) b)[0 := b + 1]"
    using Suc.prems by (simp add: list_update_append nth_append)
  also have "replicate (n - r) b = b # replicate (n - Suc r) b"
    using Suc.prems by (metis Suc_diff_le diff_Suc_Suc replicate_Suc)
  finally show ?case by (simp add: replicate_app_Cons_same)
qed (simp add: bump_first_def)

lemma split_evenly_parts:
  "1 \<le> n \<Longrightarrow> split_evenly t n =
     Inr (replicate (nat (\<bar>t\<bar> mod n)) (t div n + 1) @ replicate (nat n - nat (\<bar>t\<bar> mod n)) (t div n))"
  by (simp add: split_evenly_def bump_first_replicate Let_def nat_le_eq_zle less_imp_le)

lemma split_evenly_fixed_parts:
  "1 \<le> n \<Longrightarrow> split_evenly_fixed t n =
     Inr (map ((*) (if t < 0 then - 1 else 1))
       (replicate (nat (\<bar>t\<bar> mod n)) (\<bar>t\<bar> div n + 1) @ replicate (nat n - nat (\<bar>t\<bar> mod n)) (\<bar>t\<bar> div n)))"
  by (simp add: split_evenly_fixed_def bump_first_replicate Let_def nat_le_eq_zle less_imp_le)

lemma sum_two_blocks:
  "0 \<le> r \<Longrightarrow> r \<le> n \<Longrightarrow>
   sum_list (replicate (nat r) (b + 1) @ replicate (nat n - nat r) b) = n * b + (r::int)"
  by (simp add: of_nat_diff nat_le_eq_zle algebra_simps)

lemma two_blocks_spread:
  assumes "set ps \<subseteq> {b, c}" and "ps \<noteq> []" and "\<bar>b - c\<bar> \<le> (1::int)"
  shows "Max (set ps) - Min (set ps) \<le> 1"
proof -
  have "Max (set ps) \<in> set ps" "Min (set ps) \<in> set ps" using assms(2) by simp_all
  with assms(1) have "Max (set ps) \<in> {b, c}" "Min (set ps) \<in> {b, c}" by blast+
  with assms(3) show ?thesis by auto
qed

lemma two_blocks_set: "set (replicate r x @ replicate s y) \<subseteq> {x, y}"
  by (auto simp: set_replicate_conv_if)

text \<open>
  The corrected split is honest for every total, refunds included: \<open>n\<close> parts that sum to
  the total and differ by at most one cent.
\<close>

theorem split_evenly_fixed_correct:
  assumes "1 \<le> n"
  shows "\<exists>parts. split_evenly_fixed t n = Inr parts \<and> int (length parts) = n
           \<and> sum_list parts = t \<and> Max (set parts) - Min (set parts) \<le> 1"
proof -
  let ?s = "if t < 0 then - 1 else 1 :: int" and ?r = "\<bar>t\<bar> mod n" and ?b = "\<bar>t\<bar> div n"
  let ?p = "map ((*) ?s) (replicate (nat ?r) (?b + 1) @ replicate (nat n - nat ?r) ?b)"
  have r: "0 \<le> ?r" "?r \<le> n" using assms by (simp_all add: less_imp_le)
  have "sum_list ?p = ?s * sum_list (replicate (nat ?r) (?b + 1) @ replicate (nat n - nat ?r) ?b)"
    by (simp only: sum_list_const_mult map_ident)
  also have "\<dots> = ?s * (n * ?b + ?r)" using sum_two_blocks [OF r] by simp
  also have "\<dots> = t" by simp
  finally have "sum_list ?p = t" .
  moreover have "Max (set ?p) - Min (set ?p) \<le> 1"
    using assms by (intro two_blocks_spread [of _ "?s * (?b + 1)" "?s * ?b"]) (auto simp: set_replicate_conv_if)
  moreover have "int (length ?p) = n" using r assms by (simp add: of_nat_diff nat_le_eq_zle)
  ultimately show ?thesis using split_evenly_fixed_parts [OF assms, of t] by blast
qed

theorem split_evenly_fixed_correct_witness:
  "(1::int) \<le> 3 \<and> (\<exists>parts. split_evenly_fixed (- 1) 3 = Inr parts \<and> int (length parts) = 3
     \<and> sum_list parts = - 1 \<and> Max (set parts) - Min (set parts) \<le> 1)"
  using split_evenly_fixed_correct [of 3 "- 1"] by simp

text \<open>
  The shipped split keeps the total exactly when the total is not negative or twice the
  total divides by the number of parts; every other refund changes the amount.
\<close>

theorem split_evenly_sum_iff:
  assumes "1 \<le> n"
  shows "\<exists>parts. split_evenly t n = Inr parts \<and> int (length parts) = n
           \<and> (sum_list parts = t \<longleftrightarrow> 0 \<le> t \<or> n dvd 2 * t)
           \<and> Max (set parts) - Min (set parts) \<le> 1"
proof -
  let ?r = "\<bar>t\<bar> mod n" and ?b = "t div n"
  let ?p = "replicate (nat ?r) (?b + 1) @ replicate (nat n - nat ?r) ?b"
  have r: "0 \<le> ?r" "?r \<le> n" using assms by (simp_all add: less_imp_le)
  have "sum_list ?p = t - t mod n + ?r"
    using sum_two_blocks [OF r, of ?b] by (simp add: minus_mod_eq_mult_div)
  then have "sum_list ?p = t \<longleftrightarrow> t mod n = ?r" by auto
  also have "\<dots> \<longleftrightarrow> 0 \<le> t \<or> n dvd 2 * t"
  proof (cases "0 \<le> t")
    case False
    then have "t mod n = ?r \<longleftrightarrow> t mod n = (- t) mod n" by simp
    also have "\<dots> \<longleftrightarrow> n dvd t - (- t)" by (rule mod_eq_dvd_iff)
    finally show ?thesis using False by simp
  qed simp
  finally have "sum_list ?p = t \<longleftrightarrow> 0 \<le> t \<or> n dvd 2 * t" .
  moreover have "Max (set ?p) - Min (set ?p) \<le> 1"
    using assms by (intro two_blocks_spread [of _ "?b + 1" ?b]) (auto simp: set_replicate_conv_if)
  moreover have "int (length ?p) = n" using r assms by (simp add: of_nat_diff nat_le_eq_zle)
  ultimately show ?thesis using split_evenly_parts [OF assms, of t] by blast
qed

theorem split_evenly_sum_iff_witness:
  "\<exists>parts. split_evenly (- 1) 3 = Inr parts \<and> int (length parts) = 3
     \<and> (sum_list parts = - 1 \<longleftrightarrow> 0 \<le> (- 1 :: int) \<or> 3 dvd 2 * (- 1 :: int))
     \<and> Max (set parts) - Min (set parts) \<le> 1"
  by (rule split_evenly_sum_iff) simp

lemma split_agree_nonneg: "0 \<le> t \<Longrightarrow> split_evenly_fixed t n = split_evenly t n"
  by (simp add: split_evenly_def split_evenly_fixed_def Let_def cong: map_cong)

end
