(* ===== verification/PyFloat.thy ===== *)
theory PyFloat
  imports "HOL-Library.Log_Nat" Lab_Prelude
begin

text \<open>
  Python's \<^verbatim>\<open>float\<close> is the IEEE 754 binary64 format. A finite double is modelled by the
  rational number it denotes, and every arithmetic operation of the source is the exact
  rational operation followed by \<open>fl\<close>, rounding to nearest, ties to even, with 53 bits of
  significand and the subnormal range below \<open>2^(-1022)\<close>. The values of the modelled programs
  (milliseconds, token counts, percentages) stay far from the overflow threshold, so infinities
  and NaN are left out. \<open>fl\<close> is executable.

  The interface the components use is the locale \<open>rounding\<close>: rounding is monotone, and a
  representable number is its own rounding. Bounds on rounded results follow from those two
  laws alone, and the last part of the theory proves both for \<open>fl\<close>.
\<close>

subsection \<open>Round half to even\<close>

definition rhe :: "rat \<Rightarrow> int" where
  "rhe x = (let f = \<lfloor>x\<rfloor>; r = x - of_int f in
     if r < 1 / 2 then f else if 1 / 2 < r then f + 1 else if even f then f else f + 1)"

lemma rhe_cases: "rhe x = \<lfloor>x\<rfloor> \<or> rhe x = \<lfloor>x\<rfloor> + 1"
  by (simp add: rhe_def Let_def)

lemma rhe_of_int [simp]: "rhe (of_int k) = k"
  by (simp add: rhe_def)

lemma rhe_mono: "rhe x \<le> rhe y" if "x \<le> y"
proof (cases "\<lfloor>x\<rfloor> = \<lfloor>y\<rfloor>")
  case True
  with that show ?thesis by (auto simp: rhe_def Let_def)
next
  case False
  with that have "\<lfloor>x\<rfloor> + 1 \<le> \<lfloor>y\<rfloor>"
    using floor_mono [OF that] by linarith
  with rhe_cases [of x] rhe_cases [of y] show ?thesis by auto
qed

lemma rhe_le_int: "x \<le> of_int k \<Longrightarrow> rhe x \<le> k"
  using rhe_mono [of x "of_int k"] by simp

lemma rhe_ge_int: "of_int k \<le> x \<Longrightarrow> k \<le> rhe x"
  using rhe_mono [of "of_int k" x] by simp

lemma rhe_close: "\<bar>of_int (rhe x) - x\<bar> \<le> 1 / 2"
proof -
  have "of_int \<lfloor>x\<rfloor> \<le> x" and "x < of_int \<lfloor>x\<rfloor> + 1" by linarith+
  then show ?thesis by (auto simp: rhe_def Let_def abs_le_iff)
qed

lemma rhe_uminus: "rhe (- x) = - rhe x"
proof (cases "x = of_int \<lfloor>x\<rfloor>")
  case True
  then show ?thesis by (metis of_int_minus rhe_of_int)
next
  case False
  have "of_int \<lfloor>x\<rfloor> \<le> x" and "x < of_int \<lfloor>x\<rfloor> + 1" by linarith+
  with False have "of_int \<lfloor>x\<rfloor> < x" by linarith
  then have "\<lfloor>- x\<rfloor> = - \<lfloor>x\<rfloor> - 1"
    using \<open>x < of_int \<lfloor>x\<rfloor> + 1\<close> by (intro floor_unique) auto
  then show ?thesis by (auto simp: rhe_def Let_def)
qed

subsection \<open>Binary exponent and rounding to 53 bits\<close>

definition flog2 :: "rat \<Rightarrow> int" where
  "flog2 x = (let (n, d) = quotient_of x; k = bitlen n - bitlen d in
     if 2 powi k \<le> x then k else k - 1)"

definition ulp_exp :: "rat \<Rightarrow> int" where
  "ulp_exp x = max (flog2 \<bar>x\<bar> - 52) (- 1074)"

definition fl :: "rat \<Rightarrow> rat" where
  "fl x = (if x = 0 then 0 else of_int (rhe (x / 2 powi ulp_exp x)) * 2 powi ulp_exp x)"

definition is_double :: "rat \<Rightarrow> bool" where
  "is_double x \<longleftrightarrow> (\<exists>m e. \<bar>m\<bar> \<le> 2 ^ 53 \<and> - 1074 \<le> e \<and> x = of_int m * 2 powi e)"

lemma powi_pos [simp]: "0 < (2::rat) powi k"
  by (simp add: zero_less_power_int)

lemma powi_nat: "0 \<le> k \<Longrightarrow> (2::rat) powi k = of_int (2 ^ nat k)"
  by (metis int_nat_eq of_int_numeral of_int_power power_int_of_nat)

lemma powi_le_iff [simp]: "(2::rat) powi a \<le> 2 powi b \<longleftrightarrow> a \<le> b"
  by (meson linorder_not_le one_less_numeral_iff power_int_increasing power_int_strict_increasing
      semiring_norm(76) less_le_not_le)

lemma powi_less_iff [simp]: "(2::rat) powi a < 2 powi b \<longleftrightarrow> a < b"
  by (metis linorder_not_le powi_le_iff)

lemma flog2_bounds:
  assumes "0 < x"
  shows "2 powi flog2 x \<le> x \<and> x < 2 powi (flog2 x + 1)"
proof -
  obtain n d where nd: "quotient_of x = (n, d)" by fastforce
  have d: "0 < d" using quotient_of_denom_pos [OF nd] .
  have x: "x = of_int n / of_int d" using quotient_of_div [OF nd] .
  with assms d have n: "0 < n" by (simp add: zero_less_divide_iff)
  let ?a = "bitlen n" and ?b = "bitlen d"
  have ab: "0 < ?a" "0 < ?b" using n d bitlen_bounds by (simp_all add: bitlen_eq_zero_iff less_le bitlen_nonneg)
  have N: "(2::rat) powi (?a - 1) \<le> of_int n" "of_int n < (2::rat) powi ?a"
    using bitlen_bounds [OF n] ab by (simp_all only: powi_nat of_int_le_iff of_int_less_iff)
  have D: "(2::rat) powi (?b - 1) \<le> of_int d" "of_int d < (2::rat) powi ?b"
    using bitlen_bounds [OF d] ab by (simp_all only: powi_nat of_int_le_iff of_int_less_iff)
  have low: "2 powi (?a - ?b - 1) < x"
  proof -
    have "2 powi (?a - ?b - 1) * of_int d < (2::rat) powi (?a - ?b - 1) * 2 powi ?b"
      using D by simp
    also have "\<dots> = 2 powi (?a - 1)" by (simp flip: power_int_add)
    also have "\<dots> \<le> of_int n" by (rule N)
    finally show ?thesis using d by (simp add: x field_simps)
  qed
  have high: "x < 2 powi (?a - ?b + 1)"
  proof -
    have "of_int n < (2::rat) powi ?a" by (rule N)
    also have "\<dots> = 2 powi (?a - ?b + 1) * 2 powi (?b - 1)" by (simp flip: power_int_add)
    also have "\<dots> \<le> 2 powi (?a - ?b + 1) * of_int d" using D by simp
    finally show ?thesis using d by (simp add: x field_simps)
  qed
  show ?thesis using low high by (auto simp: flog2_def nd Let_def)
qed

lemma flog2_unique: "2 powi k \<le> x \<Longrightarrow> x < 2 powi (k + 1) \<Longrightarrow> flog2 x = k"
proof -
  assume k: "2 powi k \<le> x" "x < 2 powi (k + 1)"
  then have "0 < x" by (meson less_le_trans powi_pos)
  from flog2_bounds [OF this] k have "(2::rat) powi flog2 x < 2 powi (k + 1)"
    "(2::rat) powi k < 2 powi (flog2 x + 1)" by linarith+
  then show ?thesis by simp
qed

lemma flog2_mono: "0 < x \<Longrightarrow> x \<le> y \<Longrightarrow> flog2 x \<le> flog2 y"
proof -
  assume xy: "0 < x" "x \<le> y"
  then have "2 powi flog2 x < (2::rat) powi (flog2 y + 1)"
    using flog2_bounds [of x] flog2_bounds [of y] by linarith
  then show ?thesis by simp
qed

subsection \<open>Laws of rounding\<close>

lemma fl_uminus: "fl (- x) = - fl x"
  by (simp add: fl_def ulp_exp_def rhe_uminus)

lemma fl_nonneg: "0 \<le> x \<Longrightarrow> 0 \<le> fl x"
  by (auto simp: fl_def intro!: mult_nonneg_nonneg rhe_ge_int divide_nonneg_nonneg)

text \<open>A multiple of the unit in the last place that lies above or below stays there.\<close>

lemma fl_le_multiple:
  assumes "x \<noteq> 0" "x \<le> of_int k * 2 powi ulp_exp x"
  shows "fl x \<le> of_int k * 2 powi ulp_exp x"
  using assms by (simp add: fl_def rhe_le_int pos_divide_le_eq)

lemma fl_ge_multiple:
  assumes "x \<noteq> 0" "of_int k * 2 powi ulp_exp x \<le> x"
  shows "of_int k * 2 powi ulp_exp x \<le> fl x"
  using assms by (simp add: fl_def rhe_ge_int pos_le_divide_eq)

lemma powi_multiple: "a \<le> b \<Longrightarrow> (2::rat) powi b = of_int (2 ^ nat (b - a)) * 2 powi a"
  by (subst powi_nat [symmetric]) (simp_all flip: power_int_add)

lemma fl_mono_pos:
  assumes "0 < x" "x \<le> y"
  shows "fl x \<le> fl y"
proof (cases "ulp_exp x = ulp_exp y")
  case True
  with assms show ?thesis by (simp add: fl_def rhe_mono divide_right_mono)
next
  case False
  let ?p = "flog2 y"
  have lt: "flog2 x < ?p" and e: "ulp_exp y = ?p - 52"
    using False flog2_mono [OF assms] assms by (auto simp: ulp_exp_def)
  have py: "2 powi ?p \<le> y" using flog2_bounds [of y] assms by simp
  have "(2::rat) powi (flog2 x + 1) \<le> 2 powi ?p" using lt by simp
  then have xp: "x \<le> 2 powi ?p" using flog2_bounds [of x] assms by linarith
  have "ulp_exp x \<le> ?p" using lt e assms by (auto simp: ulp_exp_def)
  from powi_multiple [OF this] xp have "fl x \<le> 2 powi ?p"
    using fl_le_multiple [of x "2 ^ nat (?p - ulp_exp x)"] assms by simp
  also have "\<dots> \<le> fl y"
    using powi_multiple [of "ulp_exp y" ?p] e py assms
      fl_ge_multiple [of y "2 ^ nat (?p - ulp_exp y)"] by simp
  finally show ?thesis .
qed

lemma fl_mono: "x \<le> y \<Longrightarrow> fl x \<le> fl y"
proof (cases "0 < x")
  case False
  assume le: "x \<le> y"
  show ?thesis
  proof (cases "y < 0")
    case True
    with le fl_mono_pos [of "- y" "- x"] show ?thesis by (simp add: fl_uminus)
  next
    case 2: False
    have "0 \<le> fl (- x)" using False by (intro fl_nonneg) simp
    moreover have "0 \<le> fl y" using 2 by (intro fl_nonneg) simp
    ultimately show ?thesis by (simp add: fl_uminus)
  qed
qed (rule fl_mono_pos)

lemma fl_double:
  assumes "is_double x"
  shows "fl x = x"
proof (cases "x = 0")
  case False
  from assms obtain m e where m: "\<bar>m\<bar> \<le> 2 ^ 53" and e: "- 1074 \<le> e"
    and x: "x = of_int m * 2 powi e" by (auto simp: is_double_def)
  have "\<bar>x\<bar> \<le> 2 powi (e + 53)"
    using m by (simp add: x abs_mult power_int_add mult.commute)
  show ?thesis
  proof (cases "\<bar>x\<bar> = 2 powi (e + 53)")
    case True
    then have "flog2 \<bar>x\<bar> = e + 53" by (intro flog2_unique) auto
    then have u: "ulp_exp x = e + 1" using e by (simp add: ulp_exp_def)
    have "x = of_int (sgn m * 2 ^ 52) * 2 powi ulp_exp x"
    proof -
      have "\<bar>x\<bar> = 2 ^ 52 * 2 powi (e + 1)"
        by (subst True) (simp add: power_int_add)
      moreover have "x = of_int (sgn m) * \<bar>x\<bar>"
        by (simp add: x abs_mult flip: of_int_abs of_int_mult) (simp add: mult.assoc [symmetric] sgn_mult_abs flip: of_int_mult)
      ultimately show ?thesis unfolding u by simp
    qed
    then show ?thesis using False by (metis divide_eq_eq fl_def powi_pos less_irrefl rhe_of_int)
  next
    case neq: False
    with \<open>\<bar>x\<bar> \<le> _\<close> have "\<bar>x\<bar> < 2 powi (e + 53)" by simp
    moreover have "2 powi flog2 \<bar>x\<bar> \<le> \<bar>x\<bar>"
      using flog2_bounds [of "\<bar>x\<bar>"] False by simp
    ultimately have "2 powi flog2 \<bar>x\<bar> < (2::rat) powi (e + 53)" by linarith
    then have "ulp_exp x \<le> e" using e by (simp add: ulp_exp_def)
    from powi_multiple [OF this] have "x = of_int (m * 2 ^ nat (e - ulp_exp x)) * 2 powi ulp_exp x"
      by (simp add: x)
    then show ?thesis using False by (metis divide_eq_eq fl_def powi_pos less_irrefl rhe_of_int)
  qed
qed (simp add: fl_def)

lemma is_double_fl: "is_double (fl x)"
proof (cases "x = 0")
  case False
  let ?e = "ulp_exp x"
  have "\<bar>x\<bar> < 2 powi (flog2 \<bar>x\<bar> + 1)" using flog2_bounds [of "\<bar>x\<bar>"] False by simp
  also have "\<dots> \<le> 2 powi (53 + ?e)" by (simp add: ulp_exp_def)
  also have "\<dots> = of_int (2 ^ 53) * 2 powi ?e" by (simp add: power_int_add)
  finally have "\<bar>x / 2 powi ?e\<bar> < of_int (2 ^ 53)" by (simp add: divide_less_eq abs_divide)
  then have "x / 2 powi ?e \<le> of_int (2 ^ 53)" "of_int (- (2 ^ 53)) \<le> x / 2 powi ?e"
    unfolding abs_less_iff of_int_minus by linarith+
  from rhe_le_int [OF this(1)] rhe_ge_int [OF this(2)] have "\<bar>rhe (x / 2 powi ?e)\<bar> \<le> 2 ^ 53" by linarith
  then show ?thesis using False unfolding is_double_def fl_def
    by (intro exI [of _ "rhe (x / 2 powi ?e)"] exI [of _ ?e]) (simp add: ulp_exp_def)
qed (auto simp: fl_def is_double_def intro!: exI [of _ 0])

lemma fl_fl [simp]: "fl (fl x) = fl x"
  by (rule fl_double [OF is_double_fl])

lemma is_double_dyadic: "\<bar>m\<bar> \<le> 2 ^ 53 \<Longrightarrow> j \<le> 1074 \<Longrightarrow> is_double (of_int m / 2 ^ j)"
  unfolding is_double_def
  by (intro exI [of _ m] exI [of _ "- int j"]) (simp add: power_int_minus field_simps)

lemma is_double_int: "\<bar>m\<bar> \<le> 2 ^ 53 \<Longrightarrow> is_double (of_int m)"
  using is_double_dyadic [of m 0] by simp

lemma is_double_nat: "n \<le> 2 ^ 53 \<Longrightarrow> is_double (of_nat n)"
  using is_double_int [of "int n"] by simp

subsection \<open>The interface: monotone and exact on representable numbers\<close>

locale rounding =
  fixes rnd :: "rat \<Rightarrow> rat" and rep :: "rat \<Rightarrow> bool"
  assumes rnd_mono: "x \<le> y \<Longrightarrow> rnd x \<le> rnd y"
    and rnd_rep: "rep x \<Longrightarrow> rnd x = x"
begin

lemma rnd_le: "rep b \<Longrightarrow> x \<le> b \<Longrightarrow> rnd x \<le> b"
  using rnd_mono [of x b] by (simp add: rnd_rep)

lemma rnd_ge: "rep b \<Longrightarrow> b \<le> x \<Longrightarrow> b \<le> rnd x"
  using rnd_mono [of b x] by (simp add: rnd_rep)

lemma rnd_between: "rep a \<Longrightarrow> rep b \<Longrightarrow> a \<le> x \<Longrightarrow> x \<le> b \<Longrightarrow> a \<le> rnd x \<and> rnd x \<le> b"
  by (simp add: rnd_le rnd_ge)

end

interpretation dbl: rounding fl is_double
  by unfold_locales (simp_all add: fl_mono fl_double)

text \<open>Python's \<^verbatim>\<open>int(x)\<close> on a float truncates towards zero.\<close>

definition py_trunc :: "rat \<Rightarrow> int" where
  "py_trunc x = (if 0 \<le> x then \<lfloor>x\<rfloor> else \<lceil>x\<rceil>)"

lemma py_trunc_of_int [simp]: "py_trunc (of_int k) = k"
  by (simp add: py_trunc_def)

lemma py_trunc_mono: "x \<le> y \<Longrightarrow> py_trunc x \<le> py_trunc y"
  by (auto simp: py_trunc_def floor_mono ceiling_mono)
    (meson ceiling_le_zero le_floor_iff of_int_0 order_trans zero_le_floor nle_le)

lemma py_trunc_le: "x \<le> of_int k \<Longrightarrow> py_trunc x \<le> k"
  using py_trunc_mono [of x "of_int k"] by simp

lemma py_trunc_ge: "of_int k \<le> x \<Longrightarrow> k \<le> py_trunc x"
  using py_trunc_mono [of "of_int k" x] by simp

lemma of_int_py_trunc_le: "0 \<le> x \<Longrightarrow> of_int (py_trunc x) \<le> x"
  by (simp add: py_trunc_def)

end
