(* ===== verification/PyText.thy ===== *)
theory PyText
  imports PyFloat
begin

text \<open>
  The parts of Python's text library the sources use: \<^verbatim>\<open>str.strip\<close>, \<^verbatim>\<open>str.lower\<close>, \<^verbatim>\<open>int(s)\<close>
  and \<^verbatim>\<open>float(s)\<close> on ASCII text. \<^verbatim>\<open>int(s)\<close> accepts surrounding white space, one sign and
  single underscores between digits; \<^verbatim>\<open>float(s)\<close> accepts a decimal literal with optional
  fraction and exponent and rounds it (the spellings of infinity and NaN are not represented,
  as in \<open>PyFloat\<close>). The last lemma is the round trip of \<^verbatim>\<open>str\<close> and \<^verbatim>\<open>int\<close>.
\<close>

definition is_space :: "char \<Rightarrow> bool" where
  "is_space c = (let n = of_char c :: nat in (9 \<le> n \<and> n \<le> 13) \<or> (28 \<le> n \<and> n \<le> 32))"

definition py_strip :: "string \<Rightarrow> string" where
  "py_strip s = rev (dropWhile is_space (rev (dropWhile is_space s)))"

definition lower_char :: "char \<Rightarrow> char" where
  "lower_char c = (let n = of_char c :: nat in if 65 \<le> n \<and> n \<le> 90 then char_of (n + 32) else c)"

definition py_lower :: "string \<Rightarrow> string" where
  "py_lower s = map lower_char s"

definition is_digit :: "char \<Rightarrow> bool" where
  "is_digit c = (let n = of_char c :: nat in 48 \<le> n \<and> n \<le> 57)"

definition digit_val :: "char \<Rightarrow> nat" where
  "digit_val c = of_char c - 48"

text \<open>Digits with single underscores between them; \<open>after_digit\<close> tells whether one may follow.\<close>

fun digits_from :: "bool \<Rightarrow> nat \<Rightarrow> string \<Rightarrow> nat option" where
  "digits_from after_digit acc [] = (if after_digit then Some acc else None)"
| "digits_from after_digit acc (c # cs) =
     (if is_digit c then digits_from True (10 * acc + digit_val c) cs
      else if c = CHR ''_'' \<and> after_digit \<and> cs \<noteq> [] \<and> is_digit (hd cs) then digits_from False acc cs
      else None)"

definition parse_unsigned :: "string \<Rightarrow> nat option" where
  "parse_unsigned s = digits_from False 0 s"

definition split_sign :: "string \<Rightarrow> int \<times> string" where
  "split_sign s = (case s of
      c # cs \<Rightarrow> if c = CHR ''-'' then (- 1, cs) else if c = CHR ''+'' then (1, cs) else (1, s)
    | [] \<Rightarrow> (1, s))"

definition py_int_of :: "string \<Rightarrow> int option" where
  "py_int_of s = (let (sg, body) = split_sign (py_strip s) in
     map_option (\<lambda>n. sg * int n) (parse_unsigned body))"

text \<open>A decimal literal: digits, an optional fraction, an optional exponent.\<close>

definition split_at :: "(char \<Rightarrow> bool) \<Rightarrow> string \<Rightarrow> string \<times> string option" where
  "split_at P s = (case dropWhile (\<lambda>c. \<not> P c) s of
      [] \<Rightarrow> (s, None) | _ # rest \<Rightarrow> (takeWhile (\<lambda>c. \<not> P c) s, Some rest))"

definition parse_exponent :: "string option \<Rightarrow> int option" where
  "parse_exponent e = (case e of None \<Rightarrow> Some 0
     | Some t \<Rightarrow> (let (sg, body) = split_sign t in map_option (\<lambda>n. sg * int n) (parse_unsigned body)))"

definition parse_mantissa :: "string \<Rightarrow> rat option" where
  "parse_mantissa m = (case split_at (\<lambda>c. c = CHR ''.'') m of
      (ip, None) \<Rightarrow> map_option of_nat (parse_unsigned ip)
    | (ip, Some fp) \<Rightarrow>
        (if ip = [] \<and> fp = [] then None
         else case (if ip = [] then Some 0 else parse_unsigned ip,
                    if fp = [] then Some 0 else parse_unsigned fp) of
                (Some i, Some f) \<Rightarrow> Some (of_nat i + of_nat f / 10 ^ length (filter is_digit fp))
              | _ \<Rightarrow> None))"

definition py_float_of :: "string \<Rightarrow> rat option" where
  "py_float_of s = (let (sg, body) = split_sign (py_strip s);
                        (m, e) = split_at (\<lambda>c. c = CHR ''e'' \<or> c = CHR ''E'') body in
     case (parse_mantissa m, parse_exponent e) of
       (Some x, Some k) \<Rightarrow> Some (fl (of_int sg * x * 10 powi k))
     | _ \<Rightarrow> None)"

subsection \<open>Round trip of \<^verbatim>\<open>str\<close> and \<^verbatim>\<open>int\<close>\<close>

lemma of_char_digit [simp]: "d < 10 \<Longrightarrow> (of_char (digit_char d) :: nat) = 48 + d"
  by (simp add: digit_char_def)

lemma digit_char_facts [simp]:
  "d < 10 \<Longrightarrow> is_digit (digit_char d)"
  "d < 10 \<Longrightarrow> digit_val (digit_char d) = d"
  "d < 10 \<Longrightarrow> \<not> is_space (digit_char d)"
  by (simp_all add: is_digit_def digit_val_def is_space_def)

lemma not_digit_sign [simp]: "\<not> is_digit (CHR ''-'')" "\<not> is_digit (CHR ''+'')" "\<not> is_digit (CHR ''.'')"
    "\<not> is_digit (CHR ''e'')" "\<not> is_digit (CHR ''E'')" "\<not> is_space (CHR ''-'')"
  by (simp_all add: is_digit_def is_space_def)

lemma py_str_nat_digits: "c \<in> set (py_str_nat n) \<Longrightarrow> is_digit c \<and> \<not> is_space c"
proof (induction n rule: py_str_nat.induct)
  case (1 n)
  then show ?case by (auto simp: py_str_nat.simps [of n] split: if_splits)
qed

lemma py_str_nat_nonempty [simp]: "py_str_nat n \<noteq> []"
  by (subst py_str_nat.simps) simp

lemma digits_from_append:
  "\<forall>c\<in>set xs. is_digit c \<Longrightarrow> xs \<noteq> [] \<Longrightarrow> digits_from a acc (xs @ ys) =
     digits_from True (foldl (\<lambda>v c. 10 * v + digit_val c) acc xs) ys"
proof (induction xs arbitrary: a acc)
  case (Cons x xs)
  show ?case
  proof (cases "xs = []")
    case False
    with Cons show ?thesis by simp
  qed (use Cons.prems in simp)
qed simp

lemma foldl_digits: "foldl (\<lambda>v c. 10 * v + digit_val c) 0 (py_str_nat n) = n"
proof (induction n rule: py_str_nat.induct)
  case (1 n)
  show ?case
  proof (cases "n < 10")
    case True
    then show ?thesis by (subst py_str_nat.simps) simp
  next
    case False
    with 1 show ?thesis by (subst py_str_nat.simps) simp
  qed
qed

lemma parse_py_str_nat [simp]: "parse_unsigned (py_str_nat n) = Some n"
  using digits_from_append [of "py_str_nat n" False 0 "[]"] py_str_nat_digits
  by (simp add: parse_unsigned_def foldl_digits)

lemma dropWhile_none: "\<forall>c\<in>set s. \<not> P c \<Longrightarrow> dropWhile P s = s"
  by (cases s) simp_all

lemma takeWhile_none: "\<forall>c\<in>set s. P c \<Longrightarrow> takeWhile P s = s"
  by (induction s) simp_all

lemma py_strip_no_space: "\<forall>c\<in>set s. \<not> is_space c \<Longrightarrow> py_strip s = s"
  by (simp add: py_strip_def dropWhile_none)

lemma split_sign_digits: "\<forall>c\<in>set s. is_digit c \<Longrightarrow> split_sign s = (1, s)"
  by (auto simp: split_sign_def split: list.split)

lemma py_int_of_str_int: "py_int_of (py_str_int k) = Some k"
proof (cases "k < 0")
  case True
  have "py_strip (''-'' @ py_str_nat (nat (- k))) = ''-'' @ py_str_nat (nat (- k))"
    using py_str_nat_digits by (intro py_strip_no_space) auto
  with True show ?thesis by (simp add: py_int_of_def py_str_int_def split_sign_def)
next
  case False
  have "py_strip (py_str_nat (nat k)) = py_str_nat (nat k)"
    using py_str_nat_digits by (intro py_strip_no_space) auto
  with False show ?thesis
    using split_sign_digits [of "py_str_nat (nat k)"] py_str_nat_digits
    by (simp add: py_int_of_def py_str_int_def)
qed

lemma split_at_none: "\<forall>c\<in>set s. \<not> P c \<Longrightarrow> split_at P s = (s, None)"
proof -
  assume "\<forall>c\<in>set s. \<not> P c"
  then have "dropWhile (\<lambda>c. \<not> P c) s = []" by simp
  then show ?thesis by (simp only: split_at_def list.case)
qed

lemma py_float_of_str_nat: "py_float_of (py_str_nat n) = Some (fl (of_nat n))"
proof -
  have d: "\<forall>c\<in>set (py_str_nat n). is_digit c \<and> \<not> is_space c" using py_str_nat_digits by blast
  then have ne: "\<forall>c\<in>set (py_str_nat n). \<not> (c = CHR ''e'' \<or> c = CHR ''E'')"
    and nd: "\<forall>c\<in>set (py_str_nat n). \<not> c = CHR ''.''" by auto
  have "parse_mantissa (py_str_nat n) = Some (of_nat n)"
    by (simp add: parse_mantissa_def split_at_none [OF nd])
  then show ?thesis
    using d by (simp add: py_float_of_def py_strip_no_space split_sign_digits
        split_at_none [OF ne] parse_exponent_def)
qed

subsection \<open>Fixed-point formatting and decimal rounding\<close>

text \<open>
  \<^verbatim>\<open>round(x, n)\<close> rounds the exact value of the float to \<open>n\<close> decimals, half to even, and returns the
  nearest double. \<^verbatim>\<open>f"{x:.nf}"\<close> prints that decimal rounding with exactly \<open>n\<close> decimals.
\<close>

definition py_round :: "nat \<Rightarrow> rat \<Rightarrow> rat" where
  "py_round n x = fl (of_int (rhe (x * 10 ^ n)) / 10 ^ n)"

definition pad_left :: "nat \<Rightarrow> string \<Rightarrow> string" where
  "pad_left n s = replicate (n - length s) (CHR ''0'') @ s"

definition py_fixed :: "nat \<Rightarrow> rat \<Rightarrow> string" where
  "py_fixed n x = (let k = nat (rhe (\<bar>x\<bar> * 10 ^ n)) in
     (if x < 0 then ''-'' else []) @ py_str_nat (k div 10 ^ n)
       @ (if n = 0 then [] else ''.'' @ pad_left n (py_str_nat (k mod 10 ^ n))))"

lemma py_fixed_0: "0 \<le> x \<Longrightarrow> py_fixed 0 x = py_str_nat (nat (rhe x))"
  by (simp add: py_fixed_def)

lemma fixed_0_roundtrip:
  assumes "0 \<le> x" and "x \<le> 2 ^ 53"
  shows "py_float_of (py_fixed 0 x) = Some (of_int (rhe x))"
proof -
  have r: "0 \<le> rhe x" "rhe x \<le> 2 ^ 53" using rhe_ge_int [of 0 x] rhe_le_int [of x "2 ^ 53"] assms by simp_all
  then have "fl (of_nat (nat (rhe x))) = of_int (rhe x)" using fl_double [OF is_double_int [of "rhe x"]] by simp
  then show ?thesis by (simp add: py_fixed_0 assms py_float_of_str_nat)
qed

end
