(* ===== verification/Craft_Resilience.thy ===== *)
theory Craft_Resilience
  imports Craft_Errors
begin

text \<open>
  \<^verbatim>\<open>08-craft/lab/api/app/core/resilience.py\<close> and the middleware of \<^verbatim>\<open>app/main.py\<close>: the request
  deadline, the retry budget over a sliding window, retries with full jitter, and the circuit
  breaker that trips on latency. Clock readings (\<^verbatim>\<open>time.monotonic()\<close>) and random draws are
  arguments; times are doubles.
\<close>

subsection \<open>Deadline\<close>

text \<open>The context variable \<^verbatim>\<open>_deadline_at\<close> is an optional absolute time.\<close>

definition remaining :: "rat option \<Rightarrow> rat \<Rightarrow> rat option" where
  "remaining deadline_at now = map_option (\<lambda>dl. fl (dl - now)) deadline_at"

subsection \<open>Retry budget\<close>

record retry_budget =
  pct :: rat
  window_s :: rat
  requests :: "rat list"
  retries :: "rat list"

definition new_retry_budget :: "rat \<Rightarrow> retry_budget" where
  "new_retry_budget p = \<lparr>pct = p, window_s = 10, requests = [], retries = []\<rparr>"

definition trim :: "retry_budget \<Rightarrow> rat \<Rightarrow> retry_budget" where
  "trim b now = b\<lparr>requests := dropWhile (\<lambda>t. t < fl (now - window_s b)) (requests b),
                  retries := dropWhile (\<lambda>t. t < fl (now - window_s b)) (retries b)\<rparr>"

definition record_request :: "retry_budget \<Rightarrow> rat \<Rightarrow> retry_budget" where
  "record_request b now = (let b' = trim b now in b'\<lparr>requests := requests b' @ [now]\<rparr>)"

definition allowed :: "retry_budget \<Rightarrow> rat" where
  "allowed b = fl (of_nat (length (requests b)) * fl (pct b / 100))"

definition try_spend :: "retry_budget \<Rightarrow> rat \<Rightarrow> bool \<times> retry_budget" where
  "try_spend b now =
     (if pct b \<le> 0 then (False, b)
      else let b' = trim b now in
           if of_nat (length (retries b') + 1) > allowed b' then (False, b')
           else (True, b'\<lparr>retries := retries b' @ [now]\<rparr>))"

definition budget_stats :: "retry_budget \<Rightarrow> rat \<Rightarrow> (nat \<times> nat \<times> rat) \<times> retry_budget" where
  "budget_stats b now = (let b' = trim b now; reqs = length (requests b') in
     ((reqs, length (retries b'),
       if reqs = 0 then 0 else py_round 2 (fl (fl (100 * of_nat (length (retries b'))) / of_nat reqs))), b'))"

text \<open>\<^verbatim>\<open>random.uniform(0, b)\<close> is \<^verbatim>\<open>0 + (b - 0) * random()\<close> with a draw \<open>u\<close> in \<open>[0, 1)\<close>.\<close>

definition full_jitter :: "rat \<Rightarrow> nat \<Rightarrow> rat \<Rightarrow> rat \<Rightarrow> rat" where
  "full_jitter u attempt base_s cap_s =
     (let b = min cap_s (fl (base_s * 2 ^ attempt)) in fl (0 + fl (fl (b - 0) * u)))"

subsection \<open>Retries within budget and deadline\<close>

text \<open>What one \<^verbatim>\<open>await fn()\<close> does, and the clock and random readings that follow a failure.\<close>

datatype 'a outcome = Returns 'a | RaisesUnavailable string rat | RaisesOther string

record 'a attempt_env =
  fn_outcome :: "'a outcome"
  spend_now :: rat
  jitter_draw :: rat
  left_now :: rat

datatype retry_exn = AppExn app_error | OtherExn string | RaiseNone

text \<open>
  The loop of \<^verbatim>\<open>with_retries\<close>: \<open>n\<close> iterations are left, \<open>attempt\<close> is the loop variable, \<open>env\<close>
  what the world answers at each attempt. The result carries the budget and the delays slept.
\<close>

fun retry_loop ::
    "(nat \<Rightarrow> 'a attempt_env) \<Rightarrow> rat option \<Rightarrow> nat \<Rightarrow> nat \<Rightarrow> nat \<Rightarrow> retry_budget \<Rightarrow> rat list \<Rightarrow>
     (retry_exn + 'a) \<times> retry_budget \<times> rat list" where
  "retry_loop env dl attempts 0 attempt b slept = (Inl RaiseNone, b, slept)"
| "retry_loop env dl attempts (Suc n) attempt b slept =
     (case fn_outcome (env attempt) of
        Returns v \<Rightarrow> (Inr v, b, slept)
      | RaisesOther e \<Rightarrow> (Inl (OtherExn e), b, slept)
      | RaisesUnavailable m r \<Rightarrow>
          (if attempts \<le> attempt then (Inl (AppExn (Unavailable m r)), b, slept)
           else case try_spend b (spend_now (env attempt)) of
                  (False, b') \<Rightarrow> (Inl (AppExn (Unavailable m r)), b', slept)
                | (True, b') \<Rightarrow>
                    (let delay = full_jitter (jitter_draw (env attempt)) attempt (fl (5 / 100)) 2 in
                     case remaining dl (left_now (env attempt)) of
                       Some left \<Rightarrow>
                         (if left \<le> delay
                          then (Inl (AppExn (DeadlineExceeded ''no budget left to retry'' [])), b', slept)
                          else retry_loop env dl attempts n (Suc attempt) b' (slept @ [delay]))
                     | None \<Rightarrow> retry_loop env dl attempts n (Suc attempt) b' (slept @ [delay]))))"

text \<open>\<^verbatim>\<open>range(attempts + 1)\<close> is empty for a negative count, and then \<^verbatim>\<open>raise None\<close> is reached.\<close>

definition with_retries ::
    "(nat \<Rightarrow> 'a attempt_env) \<Rightarrow> rat option \<Rightarrow> int \<Rightarrow> retry_budget \<Rightarrow> rat \<Rightarrow>
     (retry_exn + 'a) \<times> retry_budget \<times> rat list" where
  "with_retries env dl attempts b now =
     retry_loop env dl (nat attempts) (nat (attempts + 1)) 0 (record_request b now) []"

subsection \<open>Circuit breaker on latency\<close>

record breaker =
  threshold_ms :: "int option"
  window :: nat
  min_samples :: nat
  open_for_s :: rat
  samples :: "rat list"
  opened_at :: "rat option"
  trips :: nat

definition new_breaker :: "int option \<Rightarrow> breaker" where
  "new_breaker threshold = \<lparr>threshold_ms = threshold, window = 50, min_samples = 20,
     open_for_s = 5, samples = [], opened_at = None, trips = 0\<rparr>"

definition is_open :: "breaker \<Rightarrow> rat \<Rightarrow> bool \<times> breaker" where
  "is_open k now = (case opened_at k of
      None \<Rightarrow> (False, k)
    | Some opened \<Rightarrow> (if open_for_s k \<le> fl (now - opened) then (False, k\<lparr>opened_at := None, samples := []\<rparr>)
                 else (True, k)))"

text \<open>A deque with a maximal length drops from the left.\<close>

definition push_sample :: "nat \<Rightarrow> rat list \<Rightarrow> rat \<Rightarrow> rat list" where
  "push_sample maxlen xs x = drop (length xs + 1 - maxlen) (xs @ [x])"

definition p95_index :: "nat \<Rightarrow> int" where
  "p95_index n = min (int n - 1) (py_trunc (fl (fl (95 / 100) * of_nat n)))"

definition observe :: "breaker \<Rightarrow> rat \<Rightarrow> rat \<Rightarrow> breaker py" where
  "observe k duration_s now = (case threshold_ms k of
      None \<Rightarrow> Inr k
    | Some threshold \<Rightarrow>
        (let k' = k\<lparr>samples := push_sample (window k) (samples k) (fl (duration_s * 1000))\<rparr> in
         if length (samples k') < min_samples k' \<or> opened_at k' \<noteq> None then Inr k'
         else let ordered = sort (samples k') in
           bind_py (py_index ordered (p95_index (length ordered))) (\<lambda>p95.
             Inr (if of_int threshold < p95
                  then k'\<lparr>opened_at := Some now, trips := trips k' + 1\<rparr> else k'))))"

text \<open>
  \<^verbatim>\<open>guard\<close>: refuse while open; otherwise run the body and observe its duration whatever its
  outcome (\<open>finally\<close>). The body's result, its duration and the clock readings are arguments.
\<close>

definition guard :: "breaker \<Rightarrow> rat \<Rightarrow> 'r \<Rightarrow> rat \<Rightarrow> rat \<Rightarrow> (app_error + 'r) \<times> breaker py" where
  "guard k now body duration_s observed_now =
     (let (open_now, k') = is_open k now in
      if open_now then (Inl (Unavailable ''circuit open on latency'' (open_for_s k')), Inr k')
      else (Inr body, observe k' duration_s observed_now))"

definition breaker_stats :: "breaker \<Rightarrow> bool \<times> nat \<times> nat" where
  "breaker_stats k = (opened_at k \<noteq> None, trips k, length (samples k))"

subsection \<open>The middleware\<close>

text \<open>
  What \<^verbatim>\<open>call_next\<close> produced under \<^verbatim>\<open>asyncio.timeout\<close>: a response, an exception, or the timeout
  fired (only possible when a budget is set).
\<close>

datatype 'r call_result = Responded 'r | Raised app_error | TimedOut

definition exempt_path :: "string \<Rightarrow> bool" where
  "exempt_path p = (p \<in> {''/healthz'', ''/_pool'', ''/_config''})"

text \<open>\<^verbatim>\<open>f"request exceeded its {budget_s * 1000:.0f}ms budget"\<close> with \<^verbatim>\<open>budget_s = ms / 1000\<close>.\<close>

definition deadline_message :: "int \<Rightarrow> string" where
  "deadline_message ms =
     ''request exceeded its '' @ py_str_int (rhe (fl (fl (of_int ms / 1000) * 1000))) @ ''ms budget''"

definition apply_request_budget ::
    "settings \<Rightarrow> breaker \<Rightarrow> string \<Rightarrow> rat \<Rightarrow> 'r call_result \<Rightarrow> rat \<Rightarrow> rat \<Rightarrow>
     'r call_result \<times> breaker py" where
  "apply_request_budget s k path now call duration_s observed_now =
     (if exempt_path path then (call, Inr k)
      else case guard k now call duration_s observed_now of
             (Inl e, k') \<Rightarrow> (Raised e, k')
           | (Inr TimedOut, k') \<Rightarrow>
               (case request_deadline_ms s of
                  None \<Rightarrow> (TimedOut, k')
                | Some ms \<Rightarrow> (Raised (DeadlineExceeded (deadline_message ms) []), k'))
           | (Inr r, k') \<Rightarrow> (r, k'))"

subsection \<open>The retry budget\<close>

lemma allowed_dyadic:
  assumes "pct b \<le> 100 / 2 ^ j" and "j \<le> 1000" and "length (requests b) \<le> 2 ^ 53"
  shows "allowed b \<le> of_nat (length (requests b)) / 2 ^ j"
proof -
  have "is_double (of_int 1 / 2 ^ j)" using assms(2) by (intro is_double_dyadic) simp_all
  then have "fl (pct b / 100) \<le> 1 / 2 ^ j"
    using assms(1) by (intro dbl.rnd_le) (simp_all add: field_simps)
  then have "of_nat (length (requests b)) * fl (pct b / 100) \<le> of_nat (length (requests b)) / 2 ^ j"
    by (metis mult_left_mono of_nat_0_le_iff times_divide_eq_right mult.right_neutral)
  moreover have "is_double (of_int (int (length (requests b))) / 2 ^ j)"
    using assms by (intro is_double_dyadic) (simp_all add: of_nat_le_numeral_power_cancel_iff [symmetric] del: of_nat_le_numeral_power_cancel_iff)
  ultimately show ?thesis by (simp add: allowed_def dbl.rnd_le)
qed

lemma try_spend_True:
  "try_spend b now = (True, b') \<Longrightarrow> 0 < pct b \<and> requests b' = requests (trim b now) \<and> pct b' = pct b
     \<and> retries b' = retries (trim b now) @ [now] \<and> of_nat (length (retries b')) \<le> allowed b'"
  by (auto simp: try_spend_def Let_def trim_def allowed_def split: if_splits)

text \<open>
  Whenever a retry is granted, the retries of the window (the new one included) number at
  most \<open>requests / 2^j\<close>, for every power of two with \<^verbatim>\<open>pct <= 100 / 2^j\<close>: rounding in the
  float product never grants one too many. A budget of zero grants nothing.
\<close>

theorem retry_budget_is_a_fraction:
  assumes "try_spend b now = (granted, b')" and "pct b \<le> 100 / 2 ^ j" and "j \<le> 1000"
    and "length (requests b) \<le> 2 ^ 53" and "granted"
  shows "0 < pct b \<and> length (retries b') * 2 ^ j \<le> length (requests b')"
proof -
  from assms(1,5) have sp: "try_spend b now = (True, b')" by simp
  note facts = try_spend_True [OF sp]
  have "length (requests b') \<le> length (requests b)"
    using facts by (simp add: trim_def length_dropWhile_le)
  then have "allowed b' \<le> of_nat (length (requests b')) / 2 ^ j"
    using facts assms(2-4) by (intro allowed_dyadic) auto
  with facts have "of_nat (length (retries b')) \<le> (of_nat (length (requests b')) / 2 ^ j :: rat)"
    by (meson order_trans)
  then have "of_nat (length (retries b') * 2 ^ j) \<le> (of_nat (length (requests b')) :: rat)"
    by (simp add: field_simps)
  then show ?thesis using facts by (simp only: of_nat_le_iff)
qed

theorem retry_budget_is_a_fraction_witness:
  "0 < pct \<lparr>pct = 50, window_s = 10, requests = [1, 2], retries = []\<rparr>
   \<and> length (retries \<lparr>pct = 50, window_s = 10, requests = [1, 2], retries = [3]\<rparr>) * 2 ^ 1
     \<le> length (requests \<lparr>pct = 50, window_s = 10, requests = [1, 2], retries = [3]\<rparr>)"
  by (rule retry_budget_is_a_fraction [where b = "\<lparr>pct = 50, window_s = 10, requests = [1, 2], retries = []\<rparr>"
        and now = 3 and granted = True]) (code_simp, simp_all)

text \<open>Under a clock that does not run backwards, the deques hold the window and nothing older.\<close>

definition budget_inv :: "rat \<Rightarrow> retry_budget \<Rightarrow> bool" where
  "budget_inv now b \<longleftrightarrow> sorted (requests b) \<and> sorted (retries b)
     \<and> (\<forall>t\<in>set (requests b) \<union> set (retries b). t \<le> now)"

definition within_window :: "rat \<Rightarrow> retry_budget \<Rightarrow> bool" where
  "within_window now b \<longleftrightarrow>
     (\<forall>t\<in>set (requests b) \<union> set (retries b). fl (now - window_s b) \<le> t \<and> t \<le> now)"

lemma trim_inv: "budget_inv t b \<Longrightarrow> t \<le> now \<Longrightarrow> budget_inv now (trim b now) \<and> within_window now (trim b now)"
  using sorted_dropWhile_less [of "requests b" "fl (now - window_s b)"]
    sorted_dropWhile_less [of "retries b" "fl (now - window_s b)"]
  by (auto simp: budget_inv_def within_window_def trim_def sorted_dropWhile dest: set_dropWhileD intro: order_trans)

lemma budget_ops_inv:
  assumes "budget_inv t b" and "t \<le> now"
  shows "budget_inv now (record_request b now)" "budget_inv now (snd (try_spend b now))"
    "budget_inv now (snd (budget_stats b now))"
  using trim_inv [OF assms] assms
  by (auto simp: record_request_def try_spend_def budget_stats_def budget_inv_def Let_def sorted_append intro: order_trans)

lemma within_window_now:
  assumes "budget_inv t b" and "t \<le> now" and "is_double now" and "0 \<le> window_s b"
  shows "fl (now - window_s b) \<le> now"
  using assms(3,4) by (intro dbl.rnd_le) simp_all

text \<open>
  The sliding window: with clock readings that do not decrease, recording a request or
  trying to spend keeps both deques in time order and drops exactly what is older than the
  window, so every timestamp kept lies between \<^verbatim>\<open>now - window_s\<close> and \<^verbatim>\<open>now\<close>.
\<close>

theorem budget_window_invariant:
  assumes "budget_inv t b" and "t \<le> now" and "is_double now" and "0 \<le> window_s b" and "0 < pct b"
  shows "budget_inv now (record_request b now) \<and> within_window now (record_request b now)
    \<and> budget_inv now (snd (try_spend b now)) \<and> within_window now (snd (try_spend b now))"
  using budget_ops_inv [OF assms(1,2)] trim_inv [OF assms(1,2)] within_window_now [OF assms(1-4)] assms(5)
  by (auto simp: record_request_def try_spend_def within_window_def Let_def trim_def)

theorem budget_window_invariant_witness:
  "budget_inv 20 (record_request \<lparr>pct = 50, window_s = 10, requests = [1, 15], retries = []\<rparr> 20)
    \<and> within_window 20 (record_request \<lparr>pct = 50, window_s = 10, requests = [1, 15], retries = []\<rparr> 20)
    \<and> budget_inv 20 (snd (try_spend \<lparr>pct = 50, window_s = 10, requests = [1, 15], retries = []\<rparr> 20))
    \<and> within_window 20 (snd (try_spend \<lparr>pct = 50, window_s = 10, requests = [1, 15], retries = []\<rparr> 20))"
proof (rule budget_window_invariant)
  show "is_double 20" using is_double_int [of 20] by simp
  show "budget_inv 16 \<lparr>pct = 50, window_s = 10, requests = [1, 15], retries = []\<rparr>"
    by (simp add: budget_inv_def)
qed simp_all

subsection \<open>Retries\<close>

lemma full_jitter_bounds:
  assumes "0 \<le> u" and "u \<le> 1" and "0 \<le> base_s" and "0 \<le> cap_s" and "is_double cap_s"
  shows "0 \<le> full_jitter u n base_s cap_s \<and> full_jitter u n base_s cap_s \<le> cap_s"
proof -
  let ?b = "min cap_s (fl (base_s * 2 ^ n))"
  have b: "0 \<le> ?b" "?b \<le> cap_s" using assms by (simp_all add: fl_nonneg)
  have fb: "0 \<le> fl ?b" "fl ?b \<le> cap_s" using b assms(5) by (simp_all add: fl_nonneg dbl.rnd_le)
  have "fl ?b * u \<le> cap_s" using fb assms(1,2) by (metis mult_left_le order_trans)
  then have "fl (fl ?b * u) \<le> cap_s" using assms(5) by (intro dbl.rnd_le)
  then show ?thesis using fb assms(1,5) by (simp add: full_jitter_def Let_def fl_nonneg dbl.rnd_le)
qed

lemma is_double_2 [simp]: "is_double 2"
  using is_double_int [of 2] by simp

text \<open>What the caller sees when the attempt numbered \<open>i\<close> was the last one made.\<close>

definition result_of_attempt :: "'a outcome \<Rightarrow> retry_exn + 'a \<Rightarrow> bool" where
  "result_of_attempt out res \<longleftrightarrow> (case out of
      Returns v \<Rightarrow> res = Inr v
    | RaisesOther e \<Rightarrow> res = Inl (OtherExn e)
    | RaisesUnavailable m r \<Rightarrow> res = Inl (AppExn (Unavailable m r))
        \<or> res = Inl (AppExn (DeadlineExceeded ''no budget left to retry'' [])))"

abbreviation retry_delay :: "(nat \<Rightarrow> 'a attempt_env) \<Rightarrow> nat \<Rightarrow> rat" where
  "retry_delay env i \<equiv> full_jitter (jitter_draw (env i)) i (fl (5 / 100)) 2"

lemma retry_loop_step:
  assumes "retry_loop env dl attempts (Suc n) attempt b slept = (res, b', slept')"
  obtains (stop) "slept' = slept" "result_of_attempt (fn_outcome (env attempt)) res"
  | (again) b'' m r where "fn_outcome (env attempt) = RaisesUnavailable m r" "attempt < attempts"
      "try_spend b (spend_now (env attempt)) = (True, b'')"
      "retry_loop env dl attempts n (Suc attempt) b'' (slept @ [retry_delay env attempt]) = (res, b', slept')"
proof (cases "fn_outcome (env attempt)")
  case (RaisesUnavailable m r)
  show ?thesis
  proof (cases "attempts \<le> attempt \<or> \<not> fst (try_spend b (spend_now (env attempt)))")
    case True
    with assms RaisesUnavailable stop show ?thesis
      by (auto simp: result_of_attempt_def split: prod.splits bool.splits if_splits)
  next
    case False
    then obtain b'' where sp: "try_spend b (spend_now (env attempt)) = (True, b'')"
      by (metis prod.collapse)
    show ?thesis
    proof (cases "\<exists>left. remaining dl (left_now (env attempt)) = Some left \<and> left \<le> retry_delay env attempt")
      case True
      with assms RaisesUnavailable False sp stop show ?thesis
        by (auto simp: result_of_attempt_def Let_def)
    next
      case no_deadline: False
      with assms RaisesUnavailable False sp have
        "retry_loop env dl attempts n (Suc attempt) b'' (slept @ [retry_delay env attempt]) = (res, b', slept')"
        by (auto simp: Let_def split: option.splits if_splits)
      with RaisesUnavailable False sp again show ?thesis by simp
    qed
  qed
qed (use assms stop in \<open>auto simp: result_of_attempt_def\<close>)

lemma retry_loop_run:
  assumes "retry_loop env dl attempts n attempt b slept = (res, b', slept')"
    and "n + attempt = Suc attempts" and "0 < n" and "length slept = attempt"
  shows "length slept' \<le> attempts \<and> result_of_attempt (fn_outcome (env (length slept'))) res
    \<and> slept' = slept @ map (retry_delay env) [attempt..<length slept']
    \<and> (\<forall>i\<in>{attempt..<length slept'}. \<exists>m r. fn_outcome (env i) = RaisesUnavailable m r)"
  using assms
proof (induction n arbitrary: attempt b slept)
  case (Suc n)
  from Suc.prems(1) show ?case
  proof (cases rule: retry_loop_step)
    case stop
    with Suc.prems show ?thesis by auto
  next
    case (again b'' m r)
    have IH: "length slept' \<le> attempts \<and> result_of_attempt (fn_outcome (env (length slept'))) res
      \<and> slept' = (slept @ [retry_delay env attempt]) @ map (retry_delay env) [Suc attempt..<length slept']
      \<and> (\<forall>i\<in>{Suc attempt..<length slept'}. \<exists>m r. fn_outcome (env i) = RaisesUnavailable m r)"
      using again Suc.prems(2,4) by (intro Suc.IH [of "Suc attempt" b'']) auto
    then have "length slept' = length ((slept @ [retry_delay env attempt])
        @ map (retry_delay env) [Suc attempt..<length slept'])" by argo
    then have lt: "attempt < length slept'" using Suc.prems(4) by simp
    then have "slept' = slept @ map (retry_delay env) [attempt..<length slept']"
      using IH by (simp add: upt_conv_Cons)
    moreover have "{attempt..<length slept'} = insert attempt {Suc attempt..<length slept'}"
      using lt by auto
    ultimately show ?thesis using IH again(1) by auto
  qed
qed simp

text \<open>
  Retrying is bounded and honest: with a non-negative attempt count the call is made at
  most \<^verbatim>\<open>attempts + 1\<close> times, the final \<^verbatim>\<open>raise last\<close> is unreachable, the caller gets the result
  of the last call made (or \<^verbatim>\<open>DeadlineExceeded\<close> in place of a transient failure), every earlier
  call failed as \<^verbatim>\<open>Unavailable\<close>, and every pause lies between 0 and the two-second cap.
\<close>

theorem with_retries_bounded:
  assumes "with_retries env dl attempts b now = (res, b', slept)" and "0 \<le> attempts"
    and "\<forall>i. 0 \<le> jitter_draw (env i) \<and> jitter_draw (env i) \<le> 1"
  shows "int (length slept) \<le> attempts \<and> res \<noteq> Inl RaiseNone
    \<and> result_of_attempt (fn_outcome (env (length slept))) res
    \<and> (\<forall>i<length slept. \<exists>m r. fn_outcome (env i) = RaisesUnavailable m r)
    \<and> (\<forall>d\<in>set slept. 0 \<le> d \<and> d \<le> 2)"
proof -
  have run: "length slept \<le> nat attempts \<and> result_of_attempt (fn_outcome (env (length slept))) res
    \<and> slept = [] @ map (retry_delay env) [0..<length slept]
    \<and> (\<forall>i\<in>{0..<length slept}. \<exists>m r. fn_outcome (env i) = RaisesUnavailable m r)"
    using assms(1) unfolding with_retries_def by (rule retry_loop_run) (use assms(2) in auto)
  have "0 \<le> retry_delay env i \<and> retry_delay env i \<le> 2" for i
    using assms(3) by (intro full_jitter_bounds) (simp_all add: fl_nonneg)
  then have "\<forall>d\<in>set (map (retry_delay env) [0..<length slept]). 0 \<le> d \<and> d \<le> 2" by auto
  moreover have "slept = map (retry_delay env) [0..<length slept]" using run by simp
  ultimately have "\<forall>d\<in>set slept. 0 \<le> d \<and> d \<le> 2" by metis
  moreover have "res \<noteq> Inl RaiseNone"
    using run by (auto simp: result_of_attempt_def split: outcome.splits)
  ultimately show ?thesis using run assms(2) by auto
qed

definition flaky_env :: "nat \<Rightarrow> int attempt_env" where
  "flaky_env i = \<lparr>fn_outcome = (if i = 0 then RaisesUnavailable ''db'' 1 else Returns 7),
     spend_now = 1, jitter_draw = 0, left_now = 0\<rparr>"

theorem with_retries_bounded_witness:
  "with_retries flaky_env None 3 \<lparr>pct = 100, window_s = 10, requests = [], retries = []\<rparr> 1
     = (Inr 7, \<lparr>pct = 100, window_s = 10, requests = [1], retries = [1]\<rparr>, [0])
   \<and> result_of_attempt (fn_outcome (flaky_env 1)) (Inr 7)"
proof
  show w: "with_retries flaky_env None 3 \<lparr>pct = 100, window_s = 10, requests = [], retries = []\<rparr> 1
     = (Inr 7, \<lparr>pct = 100, window_s = 10, requests = [1], retries = [1]\<rparr>, [0])"
    by code_simp
  show "result_of_attempt (fn_outcome (flaky_env 1)) (Inr 7)"
    using with_retries_bounded [OF w] by (simp add: flaky_env_def)
qed

subsection \<open>The breaker\<close>

definition breaker_inv :: "breaker \<Rightarrow> bool" where
  "breaker_inv k \<longleftrightarrow> length (samples k) \<le> window k \<and> 0 < window k \<and> 0 < min_samples k
     \<and> (opened_at k \<noteq> None \<longrightarrow> 0 < trips k)"

lemma length_push_sample: "length xs \<le> n \<Longrightarrow> length (push_sample n xs x) = min n (length xs + 1)"
  by (simp add: push_sample_def)

lemma p95_index_range: "0 < n \<Longrightarrow> 0 \<le> p95_index n \<and> p95_index n < int n"
  using py_trunc_ge [of 0 "fl (fl (95 / 100) * of_nat n)"] by (simp add: p95_index_def fl_nonneg)

lemma breaker_inv_new: "breaker_inv (new_breaker th)"
  by (simp add: breaker_inv_def new_breaker_def)

lemma is_open_inv: "breaker_inv k \<Longrightarrow> breaker_inv (snd (is_open k now))"
  by (auto simp: is_open_def breaker_inv_def split: option.split)

text \<open>
  When the breaker is closed and has enough samples, a call trips it exactly when more than
  the allowed tail of the sampled calls was slower than the threshold: at least
  \<open>n - int(0.95 * n)\<close> of the \<open>n\<close> samples. It never raises, and with too few samples or no
  threshold it never trips.
\<close>

theorem observe_trips_iff:
  assumes "breaker_inv k" and "opened_at k = None"
  shows "\<exists>k'. observe k d now = Inr k' \<and> breaker_inv k' \<and>
    (opened_at k' = Some now \<longleftrightarrow> (\<exists>th. threshold_ms k = Some th \<and> min_samples k \<le> length (samples k')
        \<and> length (samples k') - nat (p95_index (length (samples k')))
            \<le> length (filter (\<lambda>x. of_int th < x) (samples k'))))"
proof (cases "threshold_ms k")
  case None
  with assms show ?thesis by (simp add: observe_def)
next
  case (Some th)
  let ?xs = "push_sample (window k) (samples k) (fl (d * 1000))"
  let ?k = "k\<lparr>samples := ?xs\<rparr>"
  have len: "0 < length ?xs" "length ?xs \<le> window k"
    using assms(1) by (auto simp: breaker_inv_def length_push_sample)
  note idx = p95_index_range [OF len(1)]
  then have i: "nat (p95_index (length ?xs)) < length ?xs" by (subst nat_less_iff) auto
  have "(of_int th < sort ?xs ! nat (p95_index (length ?xs))) =
      (length ?xs - nat (p95_index (length ?xs)) \<le> length (filter (\<lambda>x. of_int th < x) ?xs))"
    using i by (subst sorted_nth_greater_iff) (simp_all add: filter_sort)
  then show ?thesis
    using Some assms len idx by (auto simp: observe_def Let_def bind_py_def breaker_inv_def)
qed

theorem observe_trips_iff_witness:
  "\<exists>k'. observe (new_breaker (Some 100)) 1 3 = Inr k' \<and> breaker_inv k' \<and>
    (opened_at k' = Some 3 \<longleftrightarrow> (\<exists>th. threshold_ms (new_breaker (Some 100)) = Some th
        \<and> min_samples (new_breaker (Some 100)) \<le> length (samples k')
        \<and> length (samples k') - nat (p95_index (length (samples k')))
            \<le> length (filter (\<lambda>x. of_int th < x) (samples k'))))"
  by (rule observe_trips_iff [OF breaker_inv_new]) (simp add: new_breaker_def)

text \<open>A run of guarded calls, each with its arrival time, its duration and the time it ends.\<close>

fun guard_run :: "breaker \<Rightarrow> (rat \<times> rat \<times> rat) list \<Rightarrow> bool list" where
  "guard_run k [] = []"
| "guard_run k ((now, d, fin) # calls) =
     (case guard k now () d fin of
        (Inl _, Inr k') \<Rightarrow> False # guard_run k' calls
      | (Inr _, Inr k') \<Rightarrow> True # guard_run k' calls
      | (_, Inl e) \<Rightarrow> [])"

lemma guard_closed:
  assumes "breaker_inv k" and "opened_at k = None" and "Suc (length (samples k)) < min_samples k"
  shows "\<exists>k'. guard k now r d fin = (Inr r, Inr k') \<and> breaker_inv k' \<and> opened_at k' = None
    \<and> length (samples k') \<le> Suc (length (samples k)) \<and> min_samples k' = min_samples k"
  using assms by (auto simp: guard_def is_open_def observe_def Let_def breaker_inv_def length_push_sample
      split: option.split)

lemma guard_run_closed:
  assumes "breaker_inv k" and "opened_at k = None" and "length (samples k) + length calls < min_samples k"
  shows "guard_run k calls = replicate (length calls) True"
  using assms
proof (induction calls arbitrary: k)
  case (Cons c calls)
  obtain now d fin where c: "c = (now, d, fin)" by (cases c)
  from Cons.prems have "Suc (length (samples k)) < min_samples k \<or> calls = []" by auto
  from Cons.prems(3) have lt: "Suc (length (samples k)) \<le> min_samples k - length calls" by simp
  obtain k' where k': "guard k now () d fin = (Inr (), Inr k')" "breaker_inv k'" "opened_at k' = None"
    "length (samples k') \<le> Suc (length (samples k))" "min_samples k' = min_samples k"
    using guard_closed [OF Cons.prems(1,2), of now "()" d fin] Cons.prems(3) by auto
  then have "guard_run k' calls = replicate (length calls) True"
    using Cons.prems(3) by (intro Cons.IH) auto
  with k'(1) show ?case by (simp add: c)
qed simp

lemma guard_refuses:
  "opened_at k = Some opened \<Longrightarrow> fl (now - opened) < open_for_s k \<Longrightarrow>
   guard k now r d fin = (Inl (Unavailable ''circuit open on latency'' (open_for_s k)), Inr k)"
  by (simp add: guard_def is_open_def)

text \<open>
  An open breaker refuses every call until its cool-down has passed, without sampling it;
  the first call after the cool-down closes the breaker completely, so the following
  \<^verbatim>\<open>min_samples - 1\<close> calls all pass, however slow they are.
\<close>

theorem breaker_after_cooldown:
  assumes "breaker_inv k" and "opened_at k = Some opened"
    and "open_for_s k \<le> fl (now - opened)" and "Suc (length calls) < min_samples k"
    and "fl (early - opened) < open_for_s k"
  shows "guard k early r d fin = (Inl (Unavailable ''circuit open on latency'' (open_for_s k)), Inr k)
    \<and> guard_run k ((now, d, fin) # calls) = replicate (Suc (length calls)) True"
proof -
  let ?k = "k\<lparr>opened_at := None, samples := []\<rparr>"
  have "guard k now () d fin = guard ?k now () d fin"
    using assms(2,3) by (simp add: guard_def is_open_def)
  then have "guard_run k ((now, d, fin) # calls) = guard_run ?k ((now, d, fin) # calls)" by simp
  also have "\<dots> = replicate (length ((now, d, fin) # calls)) True"
    using assms(1,4) by (intro guard_run_closed) (simp_all add: breaker_inv_def)
  finally show ?thesis using guard_refuses [OF assms(2,5)] by simp
qed

theorem breaker_after_cooldown_witness:
  "guard ((new_breaker (Some 100))\<lparr>opened_at := Some 10, trips := 1\<rparr>) 12 () 9 21
      = (Inl (Unavailable ''circuit open on latency''
          (open_for_s ((new_breaker (Some 100))\<lparr>opened_at := Some 10, trips := 1\<rparr>))),
         Inr ((new_breaker (Some 100))\<lparr>opened_at := Some 10, trips := 1\<rparr>))
   \<and> guard_run ((new_breaker (Some 100))\<lparr>opened_at := Some 10, trips := 1\<rparr>) ((15, 9, 21) # [(16, 9, 25)])
      = replicate (Suc (length [(16::rat, 9::rat, 25::rat)])) True"
proof (rule breaker_after_cooldown)
  let ?k = "(new_breaker (Some 100))\<lparr>opened_at := Some 10, trips := 1\<rparr>"
  show "open_for_s ?k \<le> fl (15 - 10)"
    using is_double_int [of 5] by (simp add: new_breaker_def fl_double)
  show "fl (12 - 10) < open_for_s ?k" by (simp add: new_breaker_def fl_double)
qed (simp_all add: breaker_inv_def new_breaker_def)

end
