(* ===== verification/Craft_Orders.thy ===== *)
theory Craft_Orders
  imports Craft_Errors "HOL-Library.Product_Lexorder"
begin

text \<open>
  The order service of \<^verbatim>\<open>08-craft/lab/api/app\<close>: the tables of \<^verbatim>\<open>models.py\<close>, the repository with
  its three error modes, the two listing shapes (\<^verbatim>\<open>deep\<close> and \<^verbatim>\<open>shallow\<close>), and the create, read
  and delete routers. A table is the list of its rows in heap order; a query without
  \<^verbatim>\<open>ORDER BY\<close> sees that order, which nothing constrains. A failing statement is an argument:
  \<open>Some e\<close> makes the \<^verbatim>\<open>execute\<close> raise \<open>e\<close>.
\<close>

subsection \<open>Tables\<close>

record order =
  oid :: int
  customer_id :: "int option"
  ostatus :: string
  total_cents :: int
  created :: int

record craft_db =
  customers :: "int list"
  orders :: "order list"
  next_order_id :: int
  charges :: "(int \<times> int) list"
  idem_keys :: "(string \<times> int) list"

datatype db_exn = OperationalError string | OtherDbError string

datatype exn = App app_error | Db db_exn

text \<open>\<^verbatim>\<open>ORDER BY created_at DESC, id DESC\<close>.\<close>

definition newest_first :: "order list \<Rightarrow> order list" where
  "newest_first = sort_key (\<lambda>ord. (- created ord, - oid ord))"

definition order_query :: "craft_db \<Rightarrow> int \<Rightarrow> order list" where
  "order_query db cid = filter (\<lambda>ord. customer_id ord = Some cid) (orders db)"

definition limit_offset :: "int \<Rightarrow> int \<Rightarrow> 'a list \<Rightarrow> 'a list" where
  "limit_offset limit offset rows = take (nat limit) (drop (nat offset) rows)"

subsection \<open>The repository\<close>

definition customer_filter :: "int \<Rightarrow> string option \<Rightarrow> int option \<Rightarrow> order \<Rightarrow> bool" where
  "customer_filter cid status before ord \<longleftrightarrow> customer_id ord = Some cid
     \<and> (case status of None \<Rightarrow> True | Some s \<Rightarrow> ostatus ord = s)
     \<and> (case before of None \<Rightarrow> True | Some t \<Rightarrow> created ord < t)"

definition orders_for_customer ::
    "string \<Rightarrow> craft_db \<Rightarrow> int \<Rightarrow> string option \<Rightarrow> int \<Rightarrow> int option \<Rightarrow> db_exn option \<Rightarrow> exn option \<Rightarrow>
     exn + order list" where
  "orders_for_customer mode db cid status limit before execute_fails materialise_fails =
     (let rows = take (nat limit) (newest_first (filter (customer_filter cid status before) (orders db))) in
      if mode = ''swallow'' then
        (if execute_fails \<noteq> None \<or> materialise_fails \<noteq> None then Inr [] else Inr rows)
      else if mode = ''none'' then
        (case execute_fails of Some e \<Rightarrow> Inl (Db e)
         | None \<Rightarrow> (case materialise_fails of Some e \<Rightarrow> Inl e | None \<Rightarrow> Inr rows))
      else
        (case execute_fails of
           Some (OperationalError m) \<Rightarrow> Inl (App (Unavailable ''orders database unreachable'' 1))
         | Some e \<Rightarrow> Inl (Db e)
         | None \<Rightarrow> (case materialise_fails of Some e \<Rightarrow> Inl e | None \<Rightarrow> Inr rows)))"

definition count_orders_for_customer ::
    "craft_db \<Rightarrow> int \<Rightarrow> string option \<Rightarrow> db_exn option \<Rightarrow> exn + int" where
  "count_orders_for_customer db cid status execute_fails = (case execute_fails of
      Some e \<Rightarrow> Inl (Db e)
    | None \<Rightarrow> Inr (int (length (filter (customer_filter cid status None) (orders db)))))"

definition recent_orders :: "craft_db \<Rightarrow> int \<Rightarrow> int \<Rightarrow> order list" where
  "recent_orders db cid limit =
     filter (\<lambda>ord. ostatus ord \<noteq> ''cancelled'') (take (nat limit) (order_query db cid))"

definition recent_orders_fixed :: "craft_db \<Rightarrow> int \<Rightarrow> int \<Rightarrow> order list" where
  "recent_orders_fixed db cid limit =
     take (nat limit) (newest_first
       (filter (\<lambda>ord. customer_id ord = Some cid \<and> ostatus ord \<noteq> ''cancelled'') (orders db)))"

subsection \<open>The deep shape\<close>

record order_view =
  v_id :: int
  v_status :: string
  v_total_cents :: int
  v_created_at :: int

record order_page =
  items :: "order_view list"
  total :: int

definition customer_not_found :: "int \<Rightarrow> app_error" where
  "customer_not_found cid =
     NotFound (''customer '' @ py_str_int cid @ '' not found'') [(''customer_id'', JInt cid)]"

definition require_customer :: "craft_db \<Rightarrow> int \<Rightarrow> app_error + unit" where
  "require_customer db cid =
     (if cid \<in> set (customers db) then Inr () else Inl (customer_not_found cid))"

definition view_of :: "order \<Rightarrow> order_view" where
  "view_of ord = \<lparr>v_id = oid ord, v_status = ostatus ord, v_total_cents = total_cents ord, v_created_at = created ord\<rparr>"

definition customer_order_page :: "craft_db \<Rightarrow> int \<Rightarrow> int \<Rightarrow> int \<Rightarrow> app_error + order_page" where
  "customer_order_page db cid limit offset =
     (case require_customer db cid of
        Inl e \<Rightarrow> Inl e
      | Inr _ \<Rightarrow>
          (let base = order_query db cid;
               rows = limit_offset limit offset (newest_first base)
           in Inr \<lparr>items = map view_of rows, total = int (length base)\<rparr>))"

subsection \<open>The shallow shape: dao, repository, service\<close>

record order_row =
  r_id :: int
  r_customer_id :: "int option"
  r_status :: string
  r_total_cents :: int
  r_created_at :: int

definition select_orders :: "craft_db \<Rightarrow> int \<Rightarrow> int \<Rightarrow> int \<Rightarrow> order_row list" where
  "select_orders db cid limit offset =
     map (\<lambda>ord. \<lparr>r_id = oid ord, r_customer_id = customer_id ord, r_status = ostatus ord,
               r_total_cents = total_cents ord, r_created_at = created ord\<rparr>)
       (limit_offset limit offset (newest_first (filter (\<lambda>ord. customer_id ord = Some cid) (orders db))))"

definition select_order_count :: "craft_db \<Rightarrow> int \<Rightarrow> int" where
  "select_order_count db cid = int (length (filter (\<lambda>ord. customer_id ord = Some cid) (orders db)))"

record order_record =
  c_id :: int
  c_customer_id :: "int option"
  c_status :: string
  c_total_cents :: int
  c_created_at :: int

definition from_row :: "order_row \<Rightarrow> order_record" where
  "from_row r = \<lparr>c_id = r_id r, c_customer_id = r_customer_id r, c_status = r_status r,
                c_total_cents = r_total_cents r, c_created_at = r_created_at r\<rparr>"

definition fetch_orders :: "craft_db \<Rightarrow> int \<Rightarrow> int \<Rightarrow> int \<Rightarrow> order_record list" where
  "fetch_orders db cid limit offset = map from_row (select_orders db cid limit offset)"

definition count_orders :: "craft_db \<Rightarrow> int \<Rightarrow> int" where
  "count_orders db cid = select_order_count db cid"

definition list_customer_orders :: "craft_db \<Rightarrow> int \<Rightarrow> int \<Rightarrow> int \<Rightarrow> app_error + order_page" where
  "list_customer_orders db cid limit offset =
     (if cid \<in> set (customers db) then
        (let records = fetch_orders db cid limit offset;
             n = count_orders db cid
         in Inr \<lparr>items = map (\<lambda>r. \<lparr>v_id = c_id r, v_status = c_status r,
                    v_total_cents = c_total_cents r, v_created_at = c_created_at r\<rparr>) records,
                 total = n\<rparr>)
      else Inl (customer_not_found cid))"

subsection \<open>Routers\<close>

text \<open>\<^verbatim>\<open>Query(50, ge=1, le=200)\<close>: the framework answers 422 before the handler runs.\<close>

datatype 'a endpoint = RequestInvalid | Answer "exn + 'a"

definition get_customer_orders_deep :: "craft_db \<Rightarrow> int \<Rightarrow> int \<Rightarrow> int \<Rightarrow> order_page endpoint" where
  "get_customer_orders_deep db cid limit offset =
     (if 1 \<le> limit \<and> limit \<le> 200 \<and> 0 \<le> offset
      then Answer (map_sum App id (customer_order_page db cid limit offset)) else RequestInvalid)"

definition get_customer_orders_shallow :: "craft_db \<Rightarrow> int \<Rightarrow> int \<Rightarrow> int \<Rightarrow> order_page endpoint" where
  "get_customer_orders_shallow db cid limit offset =
     (if 1 \<le> limit \<and> limit \<le> 200 \<and> 0 \<le> offset
      then Answer (map_sum App id (list_customer_orders db cid limit offset)) else RequestInvalid)"

record order_out =
  o_id :: int
  o_status :: string
  o_total_cents :: int

definition out_of :: "order \<Rightarrow> order_out" where
  "out_of ord = \<lparr>o_id = oid ord, o_status = ostatus ord, o_total_cents = total_cents ord\<rparr>"

definition customer_orders ::
    "string \<Rightarrow> craft_db \<Rightarrow> int \<Rightarrow> string option \<Rightarrow> int \<Rightarrow> db_exn option \<Rightarrow> exn option \<Rightarrow> db_exn option \<Rightarrow>
     (order_out list \<times> int) endpoint" where
  "customer_orders mode db cid status limit execute_fails materialise_fails count_fails =
     (if 1 \<le> limit \<and> limit \<le> 200 then
        Answer (case orders_for_customer mode db cid status limit None execute_fails materialise_fails of
            Inl e \<Rightarrow> Inl e
          | Inr os \<Rightarrow> (case count_orders_for_customer db cid status count_fails of
                Inl e \<Rightarrow> Inl e
              | Inr n \<Rightarrow> Inr (map out_of os, n)))
      else RequestInvalid)"

definition customer_recent_orders :: "craft_db \<Rightarrow> int \<Rightarrow> int \<Rightarrow> order_out list endpoint" where
  "customer_recent_orders db cid limit =
     (if 1 \<le> limit \<and> limit \<le> 100 then
        Answer (if cid \<in> set (customers db) then Inr (map out_of (recent_orders db cid limit))
                else Inl (App (NotFound (''customer '' @ py_str_int cid @ '' not found'') [])))
      else RequestInvalid)"

record order_in =
  in_customer_id :: "int option"
  in_total_cents :: int

definition insert_order :: "craft_db \<Rightarrow> int option \<Rightarrow> string \<Rightarrow> int \<Rightarrow> int \<Rightarrow> order \<times> craft_db" where
  "insert_order db cid status cents now =
     (let ord = \<lparr>oid = next_order_id db, customer_id = cid, ostatus = status, total_cents = cents, created = now\<rparr>
      in (ord, db\<lparr>orders := orders db @ [ord], next_order_id := next_order_id db + 1\<rparr>))"

definition negative_total :: exn where
  "negative_total = App (Invalid ''total_cents must be >= 0'' [])"

definition create_order :: "craft_db \<Rightarrow> order_in \<Rightarrow> int \<Rightarrow> (exn + order_out) \<times> craft_db" where
  "create_order db body now =
     (if in_total_cents body < 0 then (Inl negative_total, db)
      else let (ord, db') = insert_order db (in_customer_id body) ''pending'' (in_total_cents body) now
           in (Inr (out_of ord), db'))"

definition get_order :: "craft_db \<Rightarrow> int \<Rightarrow> exn + order_out" where
  "get_order db order_id = (case find (\<lambda>ord. oid ord = order_id) (orders db) of
      None \<Rightarrow> Inl (App (NotFound (''order '' @ py_str_int order_id @ '' not found'') [(''order_id'', JInt order_id)]))
    | Some ord \<Rightarrow> Inr (out_of ord))"

definition delete_order :: "craft_db \<Rightarrow> int \<Rightarrow> int \<times> craft_db" where
  "delete_order db order_id = (204, db\<lparr>orders := filter (\<lambda>ord. oid ord \<noteq> order_id) (orders db)\<rparr>)"

definition create_shared :: "craft_db \<Rightarrow> order_in \<Rightarrow> string \<Rightarrow> int \<Rightarrow> (exn + order_out) \<times> craft_db" where
  "create_shared db body status now =
     (if in_total_cents body < 0 then (Inl negative_total, db)
      else case in_customer_id body of
             None \<Rightarrow> (Inl (App (Invalid (''customer_id is required for a '' @ status) [])), db)
           | Some cid \<Rightarrow> (let (ord, db') = insert_order db (Some cid) status (in_total_cents body) now
                         in (Inr (out_of ord), db')))"

definition create_order_dup :: "craft_db \<Rightarrow> order_in \<Rightarrow> int \<Rightarrow> (exn + order_out) \<times> craft_db" where
  "create_order_dup db body now =
     (if in_total_cents body < 0 then (Inl negative_total, db)
      else case in_customer_id body of
             None \<Rightarrow> (Inl (App (Invalid ''customer_id is required for an order'' [])), db)
           | Some cid \<Rightarrow> (let (ord, db') = insert_order db (Some cid) ''pending'' (in_total_cents body) now
                         in (Inr (out_of ord), db')))"

definition create_draft_dup :: "craft_db \<Rightarrow> order_in \<Rightarrow> int \<Rightarrow> (exn + order_out) \<times> craft_db" where
  "create_draft_dup db body now =
     (if in_total_cents body < 0 then (Inl negative_total, db)
      else case in_customer_id body of
             None \<Rightarrow> (Inl (App (Invalid ''customer_id is required for a draft'' [])), db)
           | Some cid \<Rightarrow> (let (ord, db') = insert_order db (Some cid) ''draft'' (in_total_cents body) now
                         in (Inr (out_of ord), db')))"

definition create_order_shared :: "craft_db \<Rightarrow> order_in \<Rightarrow> int \<Rightarrow> (exn + order_out) \<times> craft_db" where
  "create_order_shared db body now = create_shared db body ''pending'' now"

definition create_draft_shared :: "craft_db \<Rightarrow> order_in \<Rightarrow> int \<Rightarrow> (exn + order_out) \<times> craft_db" where
  "create_draft_shared db body now = create_shared db body ''draft'' now"

subsection \<open>The two listing shapes\<close>

lemma customer_order_page_eq: "customer_order_page db cid limit offset = list_customer_orders db cid limit offset"
  by (simp add: customer_order_page_def list_customer_orders_def require_customer_def fetch_orders_def
      select_orders_def from_row_def view_of_def order_query_def count_orders_def select_order_count_def
      Let_def comp_def)

text \<open>
  The deep and the four-layer shape answer every request identically: same validation, same
  404, same items in the same order, same total.
\<close>

theorem shapes_are_identical:
  "get_customer_orders_deep db cid limit offset = get_customer_orders_shallow db cid limit offset"
  by (simp add: get_customer_orders_deep_def get_customer_orders_shallow_def customer_order_page_eq)

lemma concat_pages: "concat (map (\<lambda>i. take l (drop (i * l) xs)) [0..<n]) = take (n * l) xs"
proof (induction n)
  case (Suc n)
  have "take (n * l) xs @ take l (drop (n * l) xs) = take (n * l + l) xs" by (simp add: take_add)
  with Suc show ?case by (simp add: add.commute)
qed simp

definition page_items :: "craft_db \<Rightarrow> int \<Rightarrow> int \<Rightarrow> nat \<Rightarrow> order_view list" where
  "page_items db cid limit i = (case customer_order_page db cid limit (int i * limit) of
      Inl _ \<Rightarrow> [] | Inr pg \<Rightarrow> items pg)"

lemma page_items_eq:
  "cid \<in> set (customers db) \<Longrightarrow> 0 \<le> limit \<Longrightarrow>
   page_items db cid limit i = map view_of (take (nat limit) (drop (i * nat limit) (newest_first (order_query db cid))))"
  by (simp add: page_items_def customer_order_page_def require_customer_def limit_offset_def Let_def nat_mult_distrib)

text \<open>
  For a customer that exists, enough pages of any size, taken at consecutive offsets, list
  all the customer's orders newest first, each exactly once, and the total is their number; an
  unknown customer is a \<^verbatim>\<open>NotFound\<close> and never an empty page.
\<close>

theorem order_pages_tile:
  assumes "1 \<le> limit" and "int (length (order_query db cid)) \<le> int n * limit"
  shows "if cid \<in> set (customers db)
     then concat (map (page_items db cid limit) [0..<n]) = map view_of (newest_first (order_query db cid))
        \<and> mset (newest_first (order_query db cid)) = mset (order_query db cid)
        \<and> sorted_wrt (\<lambda>a b. (created b, oid b) \<le> (created a, oid a)) (newest_first (order_query db cid))
        \<and> (\<forall>offset. \<exists>pg. customer_order_page db cid limit offset = Inr pg
             \<and> total pg = int (length (order_query db cid)))
     else customer_order_page db cid limit offset = Inl (customer_not_found cid)"
proof (cases "cid \<in> set (customers db)")
  case True
  let ?xs = "newest_first (order_query db cid)"
  have "int (length ?xs) \<le> int (n * nat limit)" using assms by (simp add: newest_first_def)
  then have len: "length ?xs \<le> n * nat limit" by linarith
  have "page_items db cid limit = (\<lambda>i. map view_of (take (nat limit) (drop (i * nat limit) ?xs)))"
    using assms(1) True by (intro ext) (simp add: page_items_eq)
  then have "concat (map (page_items db cid limit) [0..<n])
      = map view_of (concat (map (\<lambda>i. take (nat limit) (drop (i * nat limit) ?xs)) [0..<n]))"
    by (simp add: map_concat comp_def)
  also have "\<dots> = map view_of ?xs" using len by (simp add: concat_pages)
  finally have *: "concat (map (page_items db cid limit) [0..<n]) = map view_of ?xs" .
  have "sorted (map (\<lambda>ord. (- created ord, - oid ord)) ?xs)" by (simp add: newest_first_def)
  then have "sorted_wrt (\<lambda>a b. (created b, oid b) \<le> (created a, oid a)) ?xs"
    unfolding sorted_map by (rule sorted_wrt_mono_rel [rotated]) (auto simp: less_eq_prod_def)
  with * True show ?thesis
    by (simp add: newest_first_def customer_order_page_def require_customer_def Let_def)
next
  case False
  then show ?thesis by (simp add: customer_order_page_def require_customer_def)
qed

definition demo_db :: craft_db where
  "demo_db = \<lparr>customers = [1], orders =
      [\<lparr>oid = 1, customer_id = Some 1, ostatus = ''cancelled'', total_cents = 5, created = 9\<rparr>,
       \<lparr>oid = 2, customer_id = Some 1, ostatus = ''paid'', total_cents = 6, created = 9\<rparr>],
     next_order_id = 3, charges = [], idem_keys = []\<rparr>"

theorem order_pages_tile_witness:
  "concat (map (page_items demo_db 1 1) [0..<2]) = map view_of (newest_first (order_query demo_db 1))"
  using order_pages_tile [of 1 demo_db 1 2 0] by (simp add: demo_db_def order_query_def)

subsection \<open>Error modes\<close>

text \<open>
  With the database unreachable for both statements, only the repository call is swallowed:
  the count that follows is outside the \<^verbatim>\<open>try\<close>, so in mode \<^verbatim>\<open>swallow\<close> the endpoint still
  fails with the driver's error, in mode \<^verbatim>\<open>none\<close> likewise, and in mode \<^verbatim>\<open>correct\<close> it is
  \<^verbatim>\<open>Unavailable\<close>, a 503. No mode ever answers the declared 404.
\<close>

theorem customer_orders_error_modes:
  assumes "1 \<le> limit" and "limit \<le> 200"
  shows "customer_orders ''swallow'' db cid st limit (Some (OperationalError m)) mat (Some (OperationalError m))
      = Answer (Inl (Db (OperationalError m)))
    \<and> customer_orders ''none'' db cid st limit (Some (OperationalError m)) mat (Some (OperationalError m))
      = Answer (Inl (Db (OperationalError m)))
    \<and> customer_orders ''correct'' db cid st limit (Some (OperationalError m)) mat (Some (OperationalError m))
      = Answer (Inl (App (Unavailable ''orders database unreachable'' 1)))
    \<and> customer_orders ''swallow'' db cid st limit (Some (OperationalError m)) mat None
      = Answer (Inr ([], int (length (filter (customer_filter cid st None) (orders db)))))
    \<and> (customer_orders mode db cid st limit ex None cnt \<noteq> Answer (Inl (App (NotFound msg det))))"
  using assms by (auto simp: customer_orders_def orders_for_customer_def count_orders_for_customer_def
      Let_def split: option.splits db_exn.splits)

theorem customer_orders_error_modes_witness:
  "customer_orders ''swallow'' demo_db 1 None 50 (Some (OperationalError ''cut'')) None (Some (OperationalError ''cut''))
     = Answer (Inl (Db (OperationalError ''cut'')))"
  using customer_orders_error_modes [of 50] by simp

subsection \<open>Recent orders\<close>

abbreviation not_cancelled :: "order \<Rightarrow> bool" where
  "not_cancelled ord \<equiv> ostatus ord \<noteq> ''cancelled''"

lemma min_count:
  "t \<le> n \<Longrightarrow> d = 0 \<or> t = n \<Longrightarrow> a \<le> t \<Longrightarrow> b \<le> d \<Longrightarrow> a = min n (a + b) \<longleftrightarrow> a = t \<or> b = (0::nat)"
  by (auto simp: min_def)

lemma length_filter_take:
  "length (filter P (take n xs)) = min n (length (filter P xs)) \<longleftrightarrow>
     (\<forall>x\<in>set (take n xs). P x) \<or> (\<forall>x\<in>set (drop n xs). \<not> P x)"
proof -
  let ?a = "length (filter P (take n xs))" and ?b = "length (filter P (drop n xs))"
  have "length (filter P xs) = ?a + ?b"
    by (metis append_take_drop_id filter_append length_append)
  moreover have "?a = min n (?a + ?b) \<longleftrightarrow> ?a = length (take n xs) \<or> ?b = 0"
    using length_filter_le [of P "take n xs"] length_filter_le [of P "drop n xs"]
    by (rule min_count [rotated 2]) auto
  ultimately show ?thesis by (simp only: filter_length_all length_0_conv filter_empty_conv)
qed

text \<open>
  \<^verbatim>\<open>recent_orders\<close> applies the limit before the filter: whatever the heap order, it delivers
  the \<open>min(limit, available)\<close> orders asked for exactly when none of the first \<open>limit\<close> heap rows of
  the customer is cancelled or every row behind them is. The repaired query always delivers
  that many, none cancelled, newest first.
\<close>

theorem recent_orders_delivery:
  "(length (recent_orders db cid limit) = min (nat limit) (length (filter not_cancelled (order_query db cid)))
      \<longleftrightarrow> (\<forall>x\<in>set (take (nat limit) (order_query db cid)). not_cancelled x)
        \<or> (\<forall>x\<in>set (drop (nat limit) (order_query db cid)). \<not> not_cancelled x))
   \<and> length (recent_orders_fixed db cid limit) = min (nat limit) (length (filter not_cancelled (order_query db cid)))
   \<and> recent_orders_fixed db cid limit = take (nat limit) (newest_first (filter not_cancelled (order_query db cid)))
   \<and> set (recent_orders_fixed db cid limit) \<subseteq> {x \<in> set (order_query db cid). not_cancelled x}"
proof -
  have "recent_orders_fixed db cid limit = take (nat limit) (newest_first (filter not_cancelled (order_query db cid)))"
    by (simp add: recent_orders_fixed_def order_query_def conj_commute)
  then show ?thesis
    using length_filter_take [of not_cancelled "nat limit" "order_query db cid"]
    by (auto simp: recent_orders_def newest_first_def dest: in_set_takeD)
qed

theorem recent_orders_delivery_witness:
  "length (recent_orders demo_db 1 1) = 0 \<and> length (recent_orders_fixed demo_db 1 1) = 1
   \<and> set (recent_orders_fixed demo_db 1 1) \<subseteq> {x \<in> set (order_query demo_db 1). not_cancelled x}"
proof (intro conjI)
  show "length (recent_orders demo_db 1 1) = 0" "length (recent_orders_fixed demo_db 1 1) = 1"
    by code_simp+
  show "set (recent_orders_fixed demo_db 1 1) \<subseteq> {x \<in> set (order_query demo_db 1). not_cancelled x}"
    by (rule recent_orders_delivery [THEN conjunct2, THEN conjunct2, THEN conjunct2])
qed

subsection \<open>Create, read, delete\<close>

definition db_wf :: "craft_db \<Rightarrow> bool" where
  "db_wf db \<longleftrightarrow> distinct (map oid (orders db)) \<and> (\<forall>ord\<in>set (orders db). oid ord < next_order_id db)"

lemma insert_order_wf: "db_wf db \<Longrightarrow> db_wf (snd (insert_order db cid st cents now))"
  by (auto simp: insert_order_def db_wf_def Let_def)

lemma delete_order_wf: "db_wf db \<Longrightarrow> db_wf (snd (delete_order db i))"
  by (auto simp: delete_order_def db_wf_def distinct_map inj_on_def)

lemma find_snoc_fresh: "(\<forall>x\<in>set xs. \<not> P x) \<Longrightarrow> P y \<Longrightarrow> find P (xs @ [y]) = Some y"
  by (induction xs) auto

lemma find_filter_none: "find P (filter (\<lambda>x. \<not> P x) xs) = None"
  by (simp add: find_None_iff)

lemma get_order_other: "i \<noteq> j \<Longrightarrow> get_order (snd (delete_order db j)) i = get_order db i"
proof -
  assume "i \<noteq> j"
  then have "find (\<lambda>ord. oid ord = i) (filter (\<lambda>ord. oid ord \<noteq> j) xs) = find (\<lambda>ord. oid ord = i) xs"
    for xs :: "order list"
    by (induction xs) auto
  then show ?thesis by (simp add: get_order_def delete_order_def)
qed

text \<open>
  The create, read, delete chain on a well-formed store: a created order has a fresh id
  and reads back as returned, a negative total creates nothing, deleting makes the read a
  \<^verbatim>\<open>NotFound\<close> and leaves every other order alone, and a second delete changes nothing and
  answers 204 again; every operation keeps the ids unique.
\<close>

theorem crud_roundtrip:
  assumes "db_wf db" and "0 \<le> in_total_cents body"
  shows "\<exists>out db'. create_order db body now = (Inr out, db') \<and> db_wf db'
    \<and> (\<forall>ord\<in>set (orders db). oid ord \<noteq> o_id out)
    \<and> get_order db' (o_id out) = Inr out \<and> o_total_cents out = in_total_cents body
    \<and> (\<exists>db''. delete_order db' (o_id out) = (204, db'') \<and> db_wf db''
         \<and> (\<exists>m d. get_order db'' (o_id out) = Inl (App (NotFound m d)))
         \<and> (\<forall>i. i \<noteq> o_id out \<longrightarrow> get_order db'' i = get_order db' i)
         \<and> delete_order db'' (o_id out) = (204, db''))"
proof -
  let ?o = "fst (insert_order db (in_customer_id body) ''pending'' (in_total_cents body) now)"
  let ?db = "snd (insert_order db (in_customer_id body) ''pending'' (in_total_cents body) now)"
  have c: "create_order db body now = (Inr (out_of ?o), ?db)"
    using assms(2) by (simp add: create_order_def case_prod_beta)
  have fresh: "\<forall>ord\<in>set (orders db). oid ord \<noteq> oid ?o"
    using assms(1) by (auto simp: db_wf_def insert_order_def Let_def)
  have get: "get_order ?db (oid ?o) = Inr (out_of ?o)"
    using fresh by (simp add: get_order_def insert_order_def Let_def find_snoc_fresh)
  let ?db2 = "snd (delete_order ?db (oid ?o))"
  have "find (\<lambda>ord. oid ord = oid ?o) (orders ?db2) = None"
    by (simp add: delete_order_def find_filter_none)
  then have gone: "\<exists>m d. get_order ?db2 (oid ?o) = Inl (App (NotFound m d))" by (simp add: get_order_def)
  have "delete_order ?db2 (oid ?o) = (204, ?db2)" by (simp add: delete_order_def)
  moreover have "delete_order ?db (oid ?o) = (204, ?db2)" by (simp add: delete_order_def)
  moreover have "total_cents ?o = in_total_cents body" by (simp add: insert_order_def Let_def)
  ultimately show ?thesis
    using c fresh get gone insert_order_wf [OF assms(1)] delete_order_wf get_order_other
    by (intro exI [of _ "out_of ?o"] exI [of _ ?db]) (auto simp: out_of_def)
qed

theorem crud_roundtrip_witness:
  "\<exists>out db'. create_order demo_db \<lparr>in_customer_id = None, in_total_cents = 7\<rparr> 10 = (Inr out, db') \<and> db_wf db'
    \<and> get_order db' (o_id out) = Inr out"
  using crud_roundtrip [of demo_db "\<lparr>in_customer_id = None, in_total_cents = 7\<rparr>" 10]
  by (fastforce simp: db_wf_def demo_db_def)

text \<open>
  The deduplicated handlers behave as the two duplicated ones: same store, same created
  order, an error in the same cases with the same status; the only difference is the wording
  of the missing-customer message.
\<close>

theorem shared_refines_duplicated:
  "create_draft_shared db body now = create_draft_dup db body now
   \<and> snd (create_order_shared db body now) = snd (create_order_dup db body now)
   \<and> (case (fst (create_order_shared db body now), fst (create_order_dup db body now)) of
        (Inr a, Inr b) \<Rightarrow> a = b
      | (Inl (App a), Inl (App b)) \<Rightarrow> status_code a = status_code b \<and> error_code a = error_code b
          \<and> (a = b \<or> in_customer_id body = None \<and> 0 \<le> in_total_cents body)
      | _ \<Rightarrow> False)"
  by (auto simp: create_order_shared_def create_draft_shared_def create_shared_def create_order_dup_def
      create_draft_dup_def negative_total_def case_prod_beta split: option.split)

end
