(* ===== verification/Craft_Idempotency.thy ===== *)
theory Craft_Idempotency
  imports Craft_Orders
begin

text \<open>
  \<^verbatim>\<open>08-craft/lab/api/app/services/idempotency.py\<close>: an order and its charge guarded by an
  idempotency key, once with the key written in a later transaction and once in the same one.
  Each transaction is one atomic step on the tables; callers interleave between transactions.
  A violated unique constraint raises and rolls the transaction back, but an id taken from the
  sequence stays taken.
\<close>

subsection \<open>Transactions\<close>

definition lookup_key :: "craft_db \<Rightarrow> string \<Rightarrow> int option" where
  "lookup_key db key = map_of (idem_keys db) key"

definition tx_charge :: "craft_db \<Rightarrow> int \<Rightarrow> int \<Rightarrow> int \<Rightarrow> int \<times> craft_db" where
  "tx_charge db cid amount now =
     (let (ord, db') = insert_order db (Some cid) ''pending'' amount now
      in (oid ord, db'\<lparr>charges := charges db' @ [(oid ord, amount)]\<rparr>))"

definition integrity_error :: exn where
  "integrity_error = Db (OtherDbError ''IntegrityError'')"

definition tx_record :: "craft_db \<Rightarrow> string \<Rightarrow> int \<Rightarrow> exn + craft_db" where
  "tx_record db key order_id =
     (if key \<in> fst ` set (idem_keys db) then Inl integrity_error
      else Inr (db\<lparr>idem_keys := idem_keys db @ [(key, order_id)]\<rparr>))"

definition tx_charge_and_record :: "craft_db \<Rightarrow> string \<Rightarrow> int \<Rightarrow> int \<Rightarrow> int \<Rightarrow> (exn + int) \<times> craft_db" where
  "tx_charge_and_record db key cid amount now =
     (let (order_id, db') = tx_charge db cid amount now in
      case tx_record db' key order_id of
        Inl e \<Rightarrow> (Inl e, db\<lparr>next_order_id := next_order_id db'\<rparr>)
      | Inr db'' \<Rightarrow> (Inr order_id, db''))"

text \<open>One caller running alone.\<close>

definition create_order_with_key :: "craft_db \<Rightarrow> string \<Rightarrow> int \<Rightarrow> int \<Rightarrow> int \<Rightarrow> (exn + int) \<times> craft_db" where
  "create_order_with_key db key cid amount now = (case lookup_key db key of
      Some order_id \<Rightarrow> (Inr order_id, db)
    | None \<Rightarrow> (let (order_id, db') = tx_charge db cid amount now in
                case tx_record db' key order_id of
                  Inl e \<Rightarrow> (Inl e, db') | Inr db'' \<Rightarrow> (Inr order_id, db'')))"

definition create_order_with_key_fixed :: "craft_db \<Rightarrow> string \<Rightarrow> int \<Rightarrow> int \<Rightarrow> int \<Rightarrow> (exn + int) \<times> craft_db" where
  "create_order_with_key_fixed db key cid amount now = (case lookup_key db key of
      Some order_id \<Rightarrow> (Inr order_id, db)
    | None \<Rightarrow> tx_charge_and_record db key cid amount now)"

definition counts :: "craft_db \<Rightarrow> nat \<times> nat" where
  "counts db = (length (charges db), length (remdups (map fst (idem_keys db))))"

subsection \<open>Interleaved callers\<close>

datatype pc = Looking | Missing | Charged int | Finished int | Failed

record system =
  sdb :: craft_db
  procs :: "pc list"

record call =
  call_key :: string
  call_customer :: int
  call_amount :: int
  call_now :: int

text \<open>
  The shipped function: look the key up; on a miss commit order and charge; then commit the key.
  \<open>calls ! i\<close> are the arguments of caller \<open>i\<close>.
\<close>

inductive shipped_step :: "call list \<Rightarrow> system \<Rightarrow> system \<Rightarrow> bool" for calls where
  hit: "i < length (procs s) \<Longrightarrow> procs s ! i = Looking \<Longrightarrow> lookup_key (sdb s) (call_key (calls ! i)) = Some r
    \<Longrightarrow> shipped_step calls s (s\<lparr>procs := (procs s)[i := Finished r]\<rparr>)"
| miss: "i < length (procs s) \<Longrightarrow> procs s ! i = Looking \<Longrightarrow> lookup_key (sdb s) (call_key (calls ! i)) = None
    \<Longrightarrow> shipped_step calls s (s\<lparr>procs := (procs s)[i := Missing]\<rparr>)"
| charge: "i < length (procs s) \<Longrightarrow> procs s ! i = Missing \<Longrightarrow>
    tx_charge (sdb s) (call_customer (calls ! i)) (call_amount (calls ! i)) (call_now (calls ! i)) = (r, db')
    \<Longrightarrow> shipped_step calls s (s\<lparr>sdb := db', procs := (procs s)[i := Charged r]\<rparr>)"
| keep_key: "i < length (procs s) \<Longrightarrow> procs s ! i = Charged r \<Longrightarrow>
    tx_record (sdb s) (call_key (calls ! i)) r = Inr db'
    \<Longrightarrow> shipped_step calls s (s\<lparr>sdb := db', procs := (procs s)[i := Finished r]\<rparr>)"
| keep_key_fails: "i < length (procs s) \<Longrightarrow> procs s ! i = Charged r \<Longrightarrow>
    tx_record (sdb s) (call_key (calls ! i)) r = Inl e
    \<Longrightarrow> shipped_step calls s (s\<lparr>procs := (procs s)[i := Failed]\<rparr>)"

text \<open>The repaired function: the same look-up, then one transaction for everything.\<close>

inductive fixed_step :: "call list \<Rightarrow> system \<Rightarrow> system \<Rightarrow> bool" for calls where
  f_hit: "i < length (procs s) \<Longrightarrow> procs s ! i = Looking \<Longrightarrow> lookup_key (sdb s) (call_key (calls ! i)) = Some r
    \<Longrightarrow> fixed_step calls s (s\<lparr>procs := (procs s)[i := Finished r]\<rparr>)"
| f_miss: "i < length (procs s) \<Longrightarrow> procs s ! i = Looking \<Longrightarrow> lookup_key (sdb s) (call_key (calls ! i)) = None
    \<Longrightarrow> fixed_step calls s (s\<lparr>procs := (procs s)[i := Missing]\<rparr>)"
| f_commit: "i < length (procs s) \<Longrightarrow> procs s ! i = Missing \<Longrightarrow>
    tx_charge_and_record (sdb s) (call_key (calls ! i)) (call_customer (calls ! i))
      (call_amount (calls ! i)) (call_now (calls ! i)) = (Inr r, db')
    \<Longrightarrow> fixed_step calls s (s\<lparr>sdb := db', procs := (procs s)[i := Finished r]\<rparr>)"
| f_rollback: "i < length (procs s) \<Longrightarrow> procs s ! i = Missing \<Longrightarrow>
    tx_charge_and_record (sdb s) (call_key (calls ! i)) (call_customer (calls ! i))
      (call_amount (calls ! i)) (call_now (calls ! i)) = (Inl e, db')
    \<Longrightarrow> fixed_step calls s (s\<lparr>sdb := db', procs := (procs s)[i := Failed]\<rparr>)"

definition start :: "call list \<Rightarrow> craft_db \<Rightarrow> system" where
  "start calls db = \<lparr>sdb = db\<lparr>charges := [], idem_keys := []\<rparr>, procs = replicate (length calls) Looking\<rparr>"

subsection \<open>Invariants\<close>

lemma tx_charge_simps:
  "tx_charge db cid amount now = (r, db') \<Longrightarrow> r = next_order_id db \<and> charges db' = charges db @ [(r, amount)]
     \<and> idem_keys db' = idem_keys db"
  by (auto simp: tx_charge_def insert_order_def Let_def)

lemma tx_record_Inr: "tx_record db key r = Inr db' \<longleftrightarrow>
    key \<notin> fst ` set (idem_keys db) \<and> db' = db\<lparr>idem_keys := idem_keys db @ [(key, r)]\<rparr>"
  by (auto simp: tx_record_def)

lemma tx_both_Inr:
  assumes "tx_charge_and_record db key cid amount now = (Inr r, db')"
  shows "key \<notin> fst ` set (idem_keys db) \<and> idem_keys db' = idem_keys db @ [(key, r)]
    \<and> charges db' = charges db @ [(r, amount)]"
  using assms by (auto simp: tx_charge_and_record_def tx_record_Inr dest!: tx_charge_simps
      split: prod.splits sum.splits)

lemma tx_both_Inl:
  assumes "tx_charge_and_record db key cid amount now = (Inl e, db')"
  shows "idem_keys db' = idem_keys db \<and> charges db' = charges db"
  using assms by (auto simp: tx_charge_and_record_def split: prod.splits sum.splits)

text \<open>A caller that has charged without (yet, or ever) recording its key.\<close>

fun unrecorded :: "pc \<Rightarrow> bool" where
  "unrecorded (Charged _) = True"
| "unrecorded Failed = True"
| "unrecorded _ = False"

definition shipped_inv :: "system \<Rightarrow> bool" where
  "shipped_inv s \<longleftrightarrow> length (charges (sdb s)) = length (idem_keys (sdb s)) + length (filter unrecorded (procs s))
     \<and> distinct (map fst (idem_keys (sdb s)))"

definition fixed_inv :: "call list \<Rightarrow> system \<Rightarrow> bool" where
  "fixed_inv calls s \<longleftrightarrow> map fst (charges (sdb s)) = map snd (idem_keys (sdb s))
     \<and> distinct (map fst (idem_keys (sdb s)))
     \<and> set (map fst (idem_keys (sdb s))) \<subseteq> call_key ` set calls
     \<and> length (procs s) = length calls
     \<and> (\<forall>i<length calls. \<forall>r. procs s ! i = Finished r \<longrightarrow> (call_key (calls ! i), r) \<in> set (idem_keys (sdb s)))"

lemma shipped_step_inv: "shipped_step calls s t \<Longrightarrow> shipped_inv s \<Longrightarrow> shipped_inv t"
proof (induction rule: shipped_step.induct)
  case (hit i s r)
  then show ?case using length_filter_update [of i "procs s" unrecorded "Finished r"] by (simp add: shipped_inv_def)
next
  case (miss i s)
  then show ?case using length_filter_update [of i "procs s" unrecorded Missing] by (simp add: shipped_inv_def)
next
  case (charge i s r db')
  then show ?case using length_filter_update [of i "procs s" unrecorded "Charged r"] tx_charge_simps [OF charge(3)]
    by (simp add: shipped_inv_def)
next
  case (keep_key i s r db')
  then show ?case using length_filter_update [of i "procs s" unrecorded "Finished r"]
    by (auto simp: shipped_inv_def tx_record_Inr)
next
  case (keep_key_fails i s r e)
  then show ?case using length_filter_update [of i "procs s" unrecorded Failed] by (simp add: shipped_inv_def)
qed

lemma fixed_step_inv: "fixed_step calls s t \<Longrightarrow> fixed_inv calls s \<Longrightarrow> fixed_inv calls t"
proof (induction rule: fixed_step.induct)
  case (f_commit i s r db')
  from tx_both_Inr [OF f_commit(3)] f_commit(1,2,4) show ?case
    by (auto simp: fixed_inv_def nth_list_update)
next
  case (f_rollback i s e db')
  from tx_both_Inl [OF f_rollback(3)] f_rollback(1,2,4) show ?case
    by (auto simp: fixed_inv_def nth_list_update)
qed (auto simp: fixed_inv_def nth_list_update lookup_key_def dest: map_of_SomeD)

lemma start_inv: "shipped_inv (start calls db)" "fixed_inv calls (start calls db)"
  by (simp_all add: shipped_inv_def fixed_inv_def start_def)

lemma fixed_reachable_inv: "(fixed_step calls)\<^sup>*\<^sup>* (start calls db) s \<Longrightarrow> fixed_inv calls s"
  by (induction rule: rtranclp_induct) (auto intro: start_inv fixed_step_inv)

lemma shipped_reachable_inv: "(shipped_step calls)\<^sup>*\<^sup>* (start calls db) s \<Longrightarrow> shipped_inv s"
  by (induction rule: rtranclp_induct) (auto intro: start_inv shipped_step_inv)

subsection \<open>Properties\<close>

text \<open>
  With the key in the charge's transaction, under every interleaving of any number of
  callers: charge rows never outnumber the distinct keys used (they equal the recorded keys,
  one charge per key), and all callers that finish with the same key return the same order.
\<close>

theorem fixed_charges_once_per_key:
  assumes "(fixed_step calls)\<^sup>*\<^sup>* (start calls db) s"
  shows "fst (counts (sdb s)) = snd (counts (sdb s))
    \<and> fst (counts (sdb s)) \<le> card (call_key ` set calls)
    \<and> (\<forall>i<length calls. \<forall>j<length calls. \<forall>r r'. call_key (calls ! i) = call_key (calls ! j)
        \<longrightarrow> procs s ! i = Finished r \<longrightarrow> procs s ! j = Finished r' \<longrightarrow> r = r')"
proof -
  let ?ks = "idem_keys (sdb s)"
  have inv: "fixed_inv calls s" using assms by (rule fixed_reachable_inv)
  then have len: "length (charges (sdb s)) = length ?ks" and d: "distinct (map fst ?ks)"
    by (auto simp: fixed_inv_def dest: map_eq_imp_length_eq)
  have "card (set (map fst ?ks)) \<le> card (call_key ` set calls)"
    using inv by (intro card_mono) (auto simp: fixed_inv_def)
  moreover have "card (set (map fst ?ks)) = length ?ks" using distinct_card [OF d] by simp
  ultimately have "fst (counts (sdb s)) = snd (counts (sdb s))"
    "fst (counts (sdb s)) \<le> card (call_key ` set calls)"
    using len d by (simp_all add: counts_def distinct_remdups_id)
  moreover have "\<forall>k r r'. (k, r) \<in> set ?ks \<longrightarrow> (k, r') \<in> set ?ks \<longrightarrow> r = r'"
    using d by (simp add: eq_key_imp_eq_value)
  ultimately show ?thesis using inv by (auto simp: fixed_inv_def) metis
qed

text \<open>Executable schedules: caller \<open>i\<close> makes its next step, or stutters when it is done.\<close>

definition shipped_next :: "call list \<Rightarrow> nat \<Rightarrow> system \<Rightarrow> system" where
  "shipped_next calls i s = (let c = calls ! i in
     if i < length (procs s) then
       (case procs s ! i of
          Looking \<Rightarrow> (case lookup_key (sdb s) (call_key c) of
              Some r \<Rightarrow> s\<lparr>procs := (procs s)[i := Finished r]\<rparr>
            | None \<Rightarrow> s\<lparr>procs := (procs s)[i := Missing]\<rparr>)
        | Missing \<Rightarrow> (let (r, db') = tx_charge (sdb s) (call_customer c) (call_amount c) (call_now c)
                     in s\<lparr>sdb := db', procs := (procs s)[i := Charged r]\<rparr>)
        | Charged r \<Rightarrow> (case tx_record (sdb s) (call_key c) r of
              Inr db' \<Rightarrow> s\<lparr>sdb := db', procs := (procs s)[i := Finished r]\<rparr>
            | Inl e \<Rightarrow> s\<lparr>procs := (procs s)[i := Failed]\<rparr>)
        | _ \<Rightarrow> s)
     else s)"

definition fixed_next :: "call list \<Rightarrow> nat \<Rightarrow> system \<Rightarrow> system" where
  "fixed_next calls i s = (let c = calls ! i in
     if i < length (procs s) then
       (case procs s ! i of
          Looking \<Rightarrow> (case lookup_key (sdb s) (call_key c) of
              Some r \<Rightarrow> s\<lparr>procs := (procs s)[i := Finished r]\<rparr>
            | None \<Rightarrow> s\<lparr>procs := (procs s)[i := Missing]\<rparr>)
        | Missing \<Rightarrow> (case tx_charge_and_record (sdb s) (call_key c) (call_customer c) (call_amount c) (call_now c) of
              (Inr r, db') \<Rightarrow> s\<lparr>sdb := db', procs := (procs s)[i := Finished r]\<rparr>
            | (Inl e, db') \<Rightarrow> s\<lparr>sdb := db', procs := (procs s)[i := Failed]\<rparr>)
        | _ \<Rightarrow> s)
     else s)"

lemma shipped_next_step: "(shipped_step calls)\<^sup>*\<^sup>* s (shipped_next calls i s)"
  by (auto simp: shipped_next_def Let_def split: pc.splits option.splits prod.splits sum.splits
      intro!: r_into_rtranclp intro: shipped_step.intros)

lemma fixed_next_step: "(fixed_step calls)\<^sup>*\<^sup>* s (fixed_next calls i s)"
  by (auto simp: fixed_next_def Let_def split: pc.splits option.splits prod.splits sum.splits
      intro!: r_into_rtranclp intro: fixed_step.intros)

lemma shipped_schedule: "(shipped_step calls)\<^sup>*\<^sup>* s (fold (shipped_next calls) sched s)"
  by (induction sched arbitrary: s) (auto intro: rtranclp_trans shipped_next_step)

lemma fixed_schedule: "(fixed_step calls)\<^sup>*\<^sup>* s (fold (fixed_next calls) sched s)"
  by (induction sched arbitrary: s) (auto intro: rtranclp_trans fixed_next_step)

definition one_call :: call where
  "one_call = \<lparr>call_key = ''k'', call_customer = 1, call_amount = 500, call_now = 0\<rparr>"

definition empty_db :: craft_db where
  "empty_db = \<lparr>customers = [1], orders = [], next_order_id = 1, charges = [], idem_keys = []\<rparr>"

definition raced_fixed :: system where
  "raced_fixed = fold (fixed_next [one_call, one_call]) [0, 1, 0, 1] (start [one_call, one_call] empty_db)"

theorem fixed_charges_once_per_key_witness:
  "procs raced_fixed = [Finished 1, Failed]
   \<and> fst (counts (sdb raced_fixed)) = snd (counts (sdb raced_fixed))
   \<and> fst (counts (sdb raced_fixed)) \<le> card (call_key ` set [one_call, one_call])"
proof (intro conjI)
  have r: "(fixed_step [one_call, one_call])\<^sup>*\<^sup>* (start [one_call, one_call] empty_db) raced_fixed"
    unfolding raced_fixed_def by (rule fixed_schedule)
  show "procs raced_fixed = [Finished 1, Failed]" by code_simp
  show "fst (counts (sdb raced_fixed)) = snd (counts (sdb raced_fixed))"
    using fixed_charges_once_per_key [OF r] by blast
  show "fst (counts (sdb raced_fixed)) \<le> card (call_key ` set [one_call, one_call])"
    using fixed_charges_once_per_key [OF r] by blast
qed

text \<open>
  With the key in a later transaction, every interleaving has exactly one surplus charge
  per caller that has charged but not recorded, and such states are reachable and permanent:
  two overlapping calls with one key end with two charges, one key and a caller that failed
  after its customer was charged.
\<close>

theorem shipped_double_charge:
  "((shipped_step calls)\<^sup>*\<^sup>* (start calls db) s \<longrightarrow>
      fst (counts (sdb s)) = snd (counts (sdb s)) + length (filter unrecorded (procs s)))
   \<and> (\<exists>t. (shipped_step [one_call, one_call])\<^sup>*\<^sup>* (start [one_call, one_call] empty_db) t
        \<and> counts (sdb t) = (2, 1) \<and> procs t = [Finished 1, Failed]
        \<and> \<not> (\<exists>u. shipped_step [one_call, one_call] t u))"
proof
  show "(shipped_step calls)\<^sup>*\<^sup>* (start calls db) s \<longrightarrow>
      fst (counts (sdb s)) = snd (counts (sdb s)) + length (filter unrecorded (procs s))"
    using shipped_reachable_inv [of calls db s]
    by (auto simp: shipped_inv_def counts_def distinct_remdups_id)
next
  let ?t = "fold (shipped_next [one_call, one_call]) [0, 1, 0, 1, 0, 1] (start [one_call, one_call] empty_db)"
  have p: "procs ?t = [Finished 1, Failed]" and c: "counts (sdb ?t) = (2, 1)" by code_simp+
  have "\<not> shipped_step [one_call, one_call] ?t u" for u
    using p by (auto elim!: shipped_step.cases simp: less_Suc_eq nth_Cons split: nat.splits)
  then show "\<exists>t. (shipped_step [one_call, one_call])\<^sup>*\<^sup>* (start [one_call, one_call] empty_db) t
        \<and> counts (sdb t) = (2, 1) \<and> procs t = [Finished 1, Failed]
        \<and> \<not> (\<exists>u. shipped_step [one_call, one_call] t u)"
    using p c shipped_schedule by blast
qed

theorem shipped_double_charge_witness:
  "fst (counts (sdb (start [one_call] empty_db)))
     = snd (counts (sdb (start [one_call] empty_db))) + length (filter unrecorded (procs (start [one_call] empty_db)))"
  using shipped_double_charge [of "[one_call]" empty_db "start [one_call] empty_db"] by simp

text \<open>
  Without overlap both variants are idempotent: a repeated call with a key that the first
  call recorded returns the same order and changes nothing.
\<close>

theorem sequential_retry_is_free:
  assumes "create_order_with_key db key cid amount now = (Inr r, db')"
  shows "create_order_with_key db' key cid' amount' now' = (Inr r, db')
    \<and> create_order_with_key_fixed db' key cid' amount' now' = (Inr r, db')
    \<and> length (charges db') \<le> Suc (length (charges db))"
proof (cases "lookup_key db key")
  case (Some q)
  with assms show ?thesis by (simp add: create_order_with_key_def create_order_with_key_fixed_def)
next
  case None
  obtain q db1 where c: "tx_charge db cid amount now = (q, db1)" by fastforce
  with assms None have rec: "tx_record db1 key r = Inr db'" and q: "q = r"
    by (auto simp: create_order_with_key_def split: sum.splits)
  have "map_of (idem_keys db1) key = None"
    using rec by (simp add: tx_record_Inr map_of_eq_None_iff)
  then have "map_of (idem_keys db') key = Some r"
    using rec by (simp add: tx_record_Inr map_add_def)
  moreover have "length (charges db') = Suc (length (charges db))"
    using rec tx_charge_simps [OF c] by (auto simp: tx_record_Inr)
  ultimately show ?thesis
    by (simp add: create_order_with_key_def create_order_with_key_fixed_def lookup_key_def)
qed

theorem sequential_retry_is_free_witness:
  "\<exists>db'. create_order_with_key empty_db ''k'' 1 500 0 = (Inr 1, db')
     \<and> create_order_with_key db' ''k'' 1 500 9 = (Inr 1, db')"
proof -
  obtain db' where w: "create_order_with_key empty_db ''k'' 1 500 0 = (Inr 1, db')"
    by (simp add: create_order_with_key_def empty_db_def lookup_key_def tx_charge_def insert_order_def
        tx_record_def Let_def)
  with sequential_retry_is_free [OF w] show ?thesis by blast
qed

end
