(* ===== verification/Lab_Config.thy ===== *)
theory Lab_Config
  imports Craft_Errors
begin

text \<open>
  \<^verbatim>\<open>05-failure/lab/app/config.py\<close>: the runtime-mutable configuration of the failure lab. Values
  arrive as environment strings or as JSON and go through the same coercions; a patch is
  applied as a whole or not at all. \<open>rp\<close> stands for Python's \<^verbatim>\<open>str\<close> on floats and nested objects,
  which no coercion of the model inspects beyond parsing it.
\<close>

datatype cval = VInt int | VOptInt "int option" | VFloat rat | VStr string | VBool bool

datatype coercion = CoInt | CoOptInt | CoFloat | CoStr | CoBool | CoChoice "string list"

fun py_str :: "(json \<Rightarrow> string) \<Rightarrow> json \<Rightarrow> string" where
  "py_str rp JNull = ''None''"
| "py_str rp (JBool b) = (if b then ''True'' else ''False'')"
| "py_str rp (JInt k) = py_str_int k"
| "py_str rp (JStr s) = s"
| "py_str rp v = rp v"

definition co_opt_int :: "(json \<Rightarrow> string) \<Rightarrow> json \<Rightarrow> cval py" where
  "co_opt_int rp v =
     (if v = JNull then Inr (VOptInt None)
      else let s = py_strip (py_str rp v) in
           if s = [] \<or> py_lower s \<in> {''none'', ''null'', ''unset''} then Inr (VOptInt None)
           else map_sum id (\<lambda>k. VOptInt (Some k)) (py_int s))"

definition co_bool :: "(json \<Rightarrow> string) \<Rightarrow> json \<Rightarrow> bool" where
  "co_bool rp v = (case v of JBool b \<Rightarrow> b
     | _ \<Rightarrow> py_lower (py_strip (py_str rp v)) \<in> {''1'', ''true'', ''yes'', ''on''})"

definition co_choice :: "(json \<Rightarrow> string) \<Rightarrow> string list \<Rightarrow> json \<Rightarrow> cval py" where
  "co_choice rp choices v =
     (let s = py_strip (py_str rp v) in if s \<in> set choices then Inr (VStr s) else Inl (ValueError s))"

fun coerce :: "(json \<Rightarrow> string) \<Rightarrow> coercion \<Rightarrow> json \<Rightarrow> cval py" where
  "coerce rp CoInt v = map_sum id VInt (py_int (py_strip (py_str rp v)))"
| "coerce rp CoOptInt v = co_opt_int rp v"
| "coerce rp CoFloat v = map_sum id VFloat (py_float (py_strip (py_str rp v)))"
| "coerce rp CoStr v = Inr (VStr (py_str rp v))"
| "coerce rp CoBool v = Inr (VBool (co_bool rp v))"
| "coerce rp (CoChoice choices) v = co_choice rp choices v"

definition contract_fields :: "(string \<times> coercion \<times> cval) list" where
  "contract_fields =
    [(''ROLE'', CoChoice [''app'', ''gateway'', ''service_b'', ''service_c'', ''backend''], VStr ''app''),
     (''SERVICE_MS'', CoInt, VInt 40),
     (''POOL_SIZE'', CoInt, VInt 5),
     (''MAX_OVERFLOW'', CoInt, VInt 10),
     (''POOL_TIMEOUT_S'', CoFloat, VFloat 30),
     (''STATEMENT_TIMEOUT_MS'', CoOptInt, VOptInt None),
     (''CLIENT_TIMEOUT_MS'', CoInt, VInt 500),
     (''DEADLINE_HEADER'', CoStr, VStr ''X-Request-Deadline''),
     (''DEADLINE_SLACK_MS'', CoInt, VInt 20),
     (''PROPAGATE_DEADLINE'', CoBool, VBool False),
     (''RETRY_ATTEMPTS'', CoInt, VInt 3),
     (''RETRY_BASE_MS'', CoInt, VInt 50),
     (''RETRY_JITTER'', CoChoice [''none'', ''full''], VStr ''none''),
     (''RETRY_BUDGET_PCT'', CoFloat, VFloat 0),
     (''SHED_MODE'', CoChoice [''none'', ''static'', ''priority'', ''adaptive''], VStr ''none''),
     (''SHED_LIMIT'', CoOptInt, VOptInt None),
     (''SHED_WAIT_MS'', CoInt, VInt 50),
     (''CACHE_TTL_S'', CoInt, VInt 300),
     (''IDEMPOTENCY_MODE'', CoChoice [''naive'', ''correct''], VStr ''correct''),
     (''UVICORN_BACKLOG'', CoInt, VInt 2048),
     (''UVICORN_LIMIT_CONCURRENCY'', CoOptInt, VOptInt None)]"

definition extra_fields :: "(string \<times> coercion \<times> cval) list" where
  "extra_fields =
    [(''DOWNSTREAM_URL'', CoStr, VStr []),
     (''BACKEND_HOST'', CoStr, VStr ''backend''),
     (''BACKEND_PORT'', CoInt, VInt 8000),
     (''LATENCY_DIST'', CoChoice [''fixed'', ''lognormal'', ''bimodal''], VStr ''fixed''),
     (''LATENCY_P50_MS'', CoInt, VInt 10),
     (''LATENCY_TAIL_RATIO'', CoFloat, VFloat 20),
     (''BIMODAL_SLOW_PCT'', CoFloat, VFloat 1),
     (''HEDGE'', CoBool, VBool False),
     (''HEDGE_AFTER_MS'', CoOptInt, VOptInt None),
     (''HEDGE_BUDGET_PCT'', CoFloat, VFloat 5),
     (''DATABASE_URL'', CoStr, VStr []),
     (''PGHOST'', CoStr, VStr ''postgres''),
     (''PGPORT'', CoInt, VInt 5432),
     (''PGUSER'', CoStr, VStr ''app''),
     (''PGPASSWORD'', CoStr, VStr ''app''),
     (''PGDATABASE'', CoStr, VStr ''failure_lab''),
     (''REDIS_URL'', CoStr, VStr ''redis://redis:6379/0''),
     (''BULKHEAD'', CoBool, VBool False),
     (''REPORT_POOL_SIZE'', CoInt, VInt 3),
     (''REPORT_SERVICE_MS'', CoInt, VInt 2000),
     (''CACHE_KEYS'', CoInt, VInt 500),
     (''IDEMPOTENCY_TTL_S'', CoInt, VInt 60)]"

definition fields :: "(string \<times> coercion \<times> cval) list" where
  "fields = contract_fields @ extra_fields"

type_synonym config = "string \<rightharpoonup> cval"

text \<open>The constructor: an unset or empty variable takes the default, anything else is coerced.\<close>

fun init_from :: "(json \<Rightarrow> string) \<Rightarrow> environ \<Rightarrow> (string \<times> coercion \<times> cval) list \<Rightarrow> config \<Rightarrow> config py" where
  "init_from rp env [] acc = Inr acc"
| "init_from rp env ((name, co, dflt) # rest) acc =
     (case env name of
        None \<Rightarrow> init_from rp env rest (acc(name \<mapsto> dflt))
      | Some raw \<Rightarrow>
          if raw = [] then init_from rp env rest (acc(name \<mapsto> dflt))
          else bind_py (coerce rp co (JStr raw)) (\<lambda>v. init_from rp env rest (acc(name \<mapsto> v))))"

definition config_init :: "(json \<Rightarrow> string) \<Rightarrow> environ \<Rightarrow> config py" where
  "config_init rp env = init_from rp env fields Map.empty"

definition config_get :: "config \<Rightarrow> string \<Rightarrow> cval py" where
  "config_get cfg name = (case cfg name of None \<Rightarrow> Inl (KeyError name) | Some v \<Rightarrow> Inr v)"

text \<open>The first loop of \<^verbatim>\<open>apply\<close>: coerce every known key, stop at the first bad value.\<close>

fun stage :: "(json \<Rightarrow> string) \<Rightarrow> (string \<times> json) list \<Rightarrow> (string \<times> cval) list py" where
  "stage rp [] = Inr []"
| "stage rp ((key, v) # rest) =
     (case map_of fields key of
        None \<Rightarrow> stage rp rest
      | Some (co, dflt) \<Rightarrow>
          bind_py (if v = JNull then Inr dflt else coerce rp co v) (\<lambda>c.
            map_sum id (\<lambda>st. (key, c) # st) (stage rp rest)))"

text \<open>The second loop, under the lock: record what changed, store everything staged.\<close>

fun commit_staged :: "(string \<times> cval) list \<Rightarrow> config \<Rightarrow> (string \<times> cval) list \<times> config" where
  "commit_staged [] cfg = ([], cfg)"
| "commit_staged ((key, c) # st) cfg =
     (let (applied, cfg') = commit_staged st (cfg(key \<mapsto> c))
      in (if cfg key \<noteq> Some c then (key, c) # applied else applied, cfg'))"

definition config_apply ::
    "(json \<Rightarrow> string) \<Rightarrow> config \<Rightarrow> (string \<times> json) list \<Rightarrow>
     (py_error + (string \<times> cval) list \<times> string list) \<times> config" where
  "config_apply rp cfg patch =
     (let unknown = filter (\<lambda>k. map_of fields k = None) (map fst patch) in
      case stage rp patch of
        Inl e \<Rightarrow> (Inl e, cfg)
      | Inr st \<Rightarrow> (let (applied, cfg') = commit_staged st cfg in (Inr (applied, unknown), cfg')))"

subsection \<open>Typed access\<close>

definition cfg_int :: "config \<Rightarrow> string \<Rightarrow> int" where
  "cfg_int cfg name = (case cfg name of Some (VInt k) \<Rightarrow> k | _ \<Rightarrow> 0)"

definition cfg_opt_int :: "config \<Rightarrow> string \<Rightarrow> int option" where
  "cfg_opt_int cfg name = (case cfg name of Some (VOptInt k) \<Rightarrow> k | _ \<Rightarrow> None)"

definition cfg_float :: "config \<Rightarrow> string \<Rightarrow> rat" where
  "cfg_float cfg name = (case cfg name of Some (VFloat x) \<Rightarrow> x | _ \<Rightarrow> 0)"

definition cfg_str :: "config \<Rightarrow> string \<Rightarrow> string" where
  "cfg_str cfg name = (case cfg name of Some (VStr s) \<Rightarrow> s | _ \<Rightarrow> [])"

definition cfg_bool :: "config \<Rightarrow> string \<Rightarrow> bool" where
  "cfg_bool cfg name = (case cfg name of Some (VBool b) \<Rightarrow> b | _ \<Rightarrow> False)"

subsection \<open>The type invariant\<close>

fun has_type :: "coercion \<Rightarrow> cval \<Rightarrow> bool" where
  "has_type CoInt (VInt _) = True"
| "has_type CoOptInt (VOptInt _) = True"
| "has_type CoFloat (VFloat _) = True"
| "has_type CoStr (VStr _) = True"
| "has_type CoBool (VBool _) = True"
| "has_type (CoChoice cs) (VStr s) = (s \<in> set cs)"
| "has_type _ _ = False"

definition wf_config :: "config \<Rightarrow> bool" where
  "wf_config cfg \<longleftrightarrow> dom cfg = fst ` set fields
     \<and> (\<forall>(name, co, dflt)\<in>set fields. \<exists>v. cfg name = Some v \<and> has_type co v)"

lemma coerce_type: "coerce rp co v = Inr c \<Longrightarrow> has_type co c"
  by (cases co) (auto simp: co_opt_int_def co_choice_def Let_def py_int_def py_float_def
      split: option.splits if_splits sum.splits)

lemma distinct_fields: "distinct (map fst fields)"
  by code_simp

lemma default_types: "(name, co, dflt) \<in> set fields \<Longrightarrow> has_type co dflt"
proof -
  have "list_all (\<lambda>(name, co, dflt). has_type co dflt) fields" by code_simp
  then show "(name, co, dflt) \<in> set fields \<Longrightarrow> has_type co dflt" by (auto simp: list_all_iff)
qed

definition typed_entry :: "string \<times> cval \<Rightarrow> bool" where
  "typed_entry e \<longleftrightarrow> (\<exists>co dflt. (fst e, co, dflt) \<in> set fields \<and> has_type co (snd e))"

lemma wf_config_update:
  assumes "wf_config cfg" and "typed_entry (k, c)"
  shows "wf_config (cfg(k \<mapsto> c))"
proof -
  from assms(2) obtain co dflt where f: "(k, co, dflt) \<in> set fields" "has_type co c"
    by (auto simp: typed_entry_def)
  have "co' = co" if "(k, co', dflt') \<in> set fields" for co' dflt'
    using that f(1) distinct_fields by (metis eq_key_imp_eq_value fst_conv)
  moreover have "insert k (fst ` set fields) = fst ` set fields" using f(1) by force
  ultimately show ?thesis using assms(1) f(2) by (fastforce simp: wf_config_def)
qed

lemma stage_typed: "stage rp patch = Inr st \<Longrightarrow> \<forall>e\<in>set st. typed_entry e"
proof (induction patch arbitrary: st)
  case (Cons kv patch)
  obtain k v where kv: "kv = (k, v)" by (cases kv)
  show ?case
  proof (cases "map_of fields k")
    case None
    with Cons kv show ?thesis by simp
  next
    case (Some cd)
    obtain co dflt where cd: "cd = (co, dflt)" by (cases cd)
    with Some have f: "(k, co, dflt) \<in> set fields" by (simp add: map_of_SomeD)
    from Cons.prems Some cd kv obtain c st' where c: "(if v = JNull then Inr dflt else coerce rp co v) = Inr c"
      and st': "stage rp patch = Inr st'" "st = (k, c) # st'"
      by (auto simp: bind_py_Inr_iff map_sum_def split: sum.splits)
    have "has_type co c" using c default_types [OF f] coerce_type by (auto split: if_splits)
    with f Cons.IH [OF st'(1)] st'(2) show ?thesis by (auto simp: typed_entry_def)
  qed
qed simp

lemma commit_staged_wf: "wf_config cfg \<Longrightarrow> \<forall>e\<in>set st. typed_entry e \<Longrightarrow> wf_config (snd (commit_staged st cfg))"
  by (induction st arbitrary: cfg) (auto simp: case_prod_beta wf_config_update)

lemma commit_staged_values: "snd (commit_staged st cfg) = cfg ++ map_of (rev st)"
  by (induction st arbitrary: cfg) (auto simp: case_prod_beta map_add_upd_left fun_eq_iff map_add_def split: option.split)

lemma commit_staged_applied:
  "distinct (map fst st) \<Longrightarrow> (k, c) \<in> set (fst (commit_staged st cfg)) \<longleftrightarrow> (k, c) \<in> set st \<and> cfg k \<noteq> Some c"
proof (induction st arbitrary: cfg)
  case (Cons kc st)
  obtain k' c' where kc: "kc = (k', c')" by (cases kc)
  have "k \<noteq> k'" if "(k, c) \<in> set st" using that Cons.prems kc by force
  moreover have "distinct (map fst st)" using Cons.prems by simp
  ultimately have "(k, c) \<in> set (fst (commit_staged st (cfg(k' \<mapsto> c')))) \<longleftrightarrow> (k, c) \<in> set st \<and> cfg k \<noteq> Some c"
    by (subst Cons.IH) auto
  then show ?case using kc by (auto simp: case_prod_beta)
qed simp

lemma fst_image_iff: "k \<in> fst ` A \<longleftrightarrow> (\<exists>c. (k, c) \<in> A)"
  by force

lemma commit_staged_applied_keys:
  "distinct (map fst st) \<Longrightarrow> k \<in> fst ` set (fst (commit_staged st cfg)) \<longleftrightarrow> (\<exists>c. (k, c) \<in> set st \<and> cfg k \<noteq> Some c)"
  by (simp add: fst_image_iff commit_staged_applied)

lemma stage_keys: "stage rp patch = Inr st \<Longrightarrow> map fst st = filter (\<lambda>k. map_of fields k \<noteq> None) (map fst patch)"
  by (induction patch arbitrary: st)
    (auto simp: bind_py_Inr_iff map_sum_def split: option.splits sum.splits if_splits)

definition staged_value :: "(json \<Rightarrow> string) \<Rightarrow> string \<Rightarrow> json \<Rightarrow> cval \<Rightarrow> bool" where
  "staged_value rp k v c \<longleftrightarrow> (\<exists>co dflt. map_of fields k = Some (co, dflt)
     \<and> (if v = JNull then c = dflt else coerce rp co v = Inr c))"

lemma stage_values:
  "stage rp patch = Inr st \<Longrightarrow> (k, v) \<in> set patch \<Longrightarrow> map_of fields k \<noteq> None \<Longrightarrow>
     \<exists>c. (k, c) \<in> set st \<and> staged_value rp k v c"
proof (induction patch arbitrary: st)
  case (Cons kv patch)
  then show ?case
    by (cases kv)
      (fastforce simp: bind_py_Inr_iff map_sum_def staged_value_def split: option.splits sum.splits if_splits)
qed simp

lemma map_of_rev_distinct:
  assumes "distinct (map fst xs)"
  shows "map_of (rev xs) = map_of xs"
  using assms map_of_inject_set [of "rev xs" xs] by (simp add: rev_map [symmetric])

lemma commit_staged_lookup:
  "distinct (map fst st) \<Longrightarrow> (k, c) \<in> set st \<Longrightarrow> snd (commit_staged st cfg) k = Some c"
  by (simp add: commit_staged_values map_add_def map_of_rev_distinct)

lemma commit_staged_other: "k \<notin> fst ` set st \<Longrightarrow> snd (commit_staged st cfg) k = cfg k"
  by (induction st arbitrary: cfg) (auto simp: case_prod_beta)

definition typed_map :: "config \<Rightarrow> bool" where
  "typed_map cfg \<longleftrightarrow> (\<forall>k c. cfg k = Some c \<longrightarrow> typed_entry (k, c))"

lemma typed_map_update:
  "typed_map acc \<Longrightarrow> (name, co, dflt) \<in> set fields \<Longrightarrow> has_type co v \<Longrightarrow> typed_map (acc(name \<mapsto> v))"
  by (auto simp: typed_map_def typed_entry_def)

lemma init_from_Cons:
  assumes "init_from rp env ((name, co, dflt) # fs) acc = Inr cfg" and "(name, co, dflt) \<in> set fields"
  shows "\<exists>v. has_type co v \<and> init_from rp env fs (acc(name \<mapsto> v)) = Inr cfg"
  using assms default_types [OF assms(2)]
  by (cases "env name") (auto simp: bind_py_Inr_iff dest: coerce_type split: if_splits)

lemma init_from_wf:
  assumes "init_from rp env fs acc = Inr cfg" and "set fs \<subseteq> set fields" and "typed_map acc"
  shows "dom cfg = dom acc \<union> fst ` set fs \<and> typed_map cfg"
  using assms
proof (induction fs arbitrary: acc)
  case (Cons x fs)
  obtain name co dflt where x: "x = (name, co, dflt)" by (cases x)
  with Cons.prems(2) have f: "(name, co, dflt) \<in> set fields" by simp
  obtain v where "has_type co v" "init_from rp env fs (acc(name \<mapsto> v)) = Inr cfg"
    using init_from_Cons [OF Cons.prems(1) [unfolded x] f] by blast
  with Cons.IH Cons.prems(2) typed_map_update [OF Cons.prems(3) f]
  have "dom cfg = dom (acc(name \<mapsto> v)) \<union> fst ` set fs \<and> typed_map cfg" by (meson set_subset_Cons subset_trans)
  then show ?case using x by simp
qed simp

lemma wf_config_alt: "wf_config cfg \<longleftrightarrow> dom cfg = fst ` set fields \<and> typed_map cfg"
proof -
  have u: "co' = co" if "(k, co', d') \<in> set fields" "(k, co, d) \<in> set fields" for k co co' d d'
    using that distinct_fields by (metis eq_key_imp_eq_value fst_conv)
  have "typed_entry (k, c)" if w: "wf_config cfg" and c: "cfg k = Some c" for k c
  proof -
    from w c have "k \<in> fst ` set fields" by (auto simp: wf_config_def)
    then obtain co d where f: "(k, co, d) \<in> set fields" by auto
    with w have "\<exists>v. cfg k = Some v \<and> has_type co v" by (force simp: wf_config_def)
    with c f show ?thesis by (auto simp: typed_entry_def)
  qed
  moreover have "\<exists>v. cfg k = Some v \<and> has_type co v"
    if d: "dom cfg = fst ` set fields" and t: "typed_map cfg"
      and f: "(k, co, dflt) \<in> set fields" for k co dflt
  proof -
    from f have "k \<in> fst ` set fields" by force
    with d obtain c where "cfg k = Some c" by blast
    with t f show ?thesis by (auto simp: typed_map_def typed_entry_def dest: u)
  qed
  ultimately show ?thesis by (auto simp: wf_config_def typed_map_def)
qed

lemma init_from_defaults:
  "init_from rp (\<lambda>_. None) fs acc = Inr (acc ++ map_of (rev (map (\<lambda>(k, co, d). (k, d)) fs)))"
  by (induction fs arbitrary: acc) (auto simp: map_add_upd_left fun_eq_iff map_add_def split: option.split)

lemma config_init_defaults:
  "config_init rp (\<lambda>_. None) = Inr (map_of (map (\<lambda>(k, co, d). (k, d)) fields))"
proof -
  have "map fst (map (\<lambda>(k, co, d). (k, d)) fields) = map fst fields" by auto
  with distinct_fields show ?thesis
    by (simp add: config_init_def init_from_defaults map_of_rev_distinct del: map_map)
qed

lemma config_init_wf: "config_init rp env = Inr cfg \<Longrightarrow> wf_config cfg"
  unfolding config_init_def by (drule init_from_wf) (simp_all add: wf_config_alt typed_map_def)

lemma config_init_default_wf: "wf_config (map_of (map (\<lambda>(k, co, d). (k, d)) fields))"
  by (rule config_init_wf [OF config_init_defaults])

text \<open>C39. Whatever the environment holds, a configuration that \<^verbatim>\<open>Config.__init__\<close> builds has exactly the
  declared fields, each with a value of its declared type (a choice field holds one of its
  choices); with nothing set it is the table of defaults.\<close>

theorem config_init_well_typed:
  "(\<forall>cfg. config_init rp env = Inr cfg \<longrightarrow> wf_config cfg)
   \<and> config_init rp (\<lambda>_. None) = Inr (map_of (map (\<lambda>(k, co, d). (k, d)) fields))"
  by (simp add: config_init_wf config_init_defaults)

theorem config_init_well_typed_witness:
  "\<exists>cfg. config_init (\<lambda>_. []) (\<lambda>k. if k = ''POOL_SIZE'' then Some '' 7 '' else None) = Inr cfg \<and> wf_config cfg
     \<and> cfg ''POOL_SIZE'' = Some (VInt 7) \<and> cfg ''MAX_OVERFLOW'' = Some (VInt 10)"
proof -
  let ?r = "config_init (\<lambda>_. []) (\<lambda>k. if k = ''POOL_SIZE'' then Some '' 7 '' else None)"
  have 1: "(case ?r of Inr cfg \<Rightarrow> cfg ''POOL_SIZE'' = Some (VInt 7) \<and> cfg ''MAX_OVERFLOW'' = Some (VInt 10) | Inl _ \<Rightarrow> False)"
    by code_simp
  then obtain cfg where cfg: "?r = Inr cfg" by (cases ?r) auto
  with 1 config_init_well_typed [of "\<lambda>_. []" "\<lambda>k. if k = ''POOL_SIZE'' then Some '' 7 '' else None"]
  show ?thesis by auto
qed

text \<open>C35. \<^verbatim>\<open>POST /admin/config\<close> is all or nothing. If one value of the patch does not coerce, the
  configuration is untouched. Otherwise every known key holds its coerced value (or its default,
  for a null), every other field is unchanged, the fields keep their types, the unknown keys are
  reported in order, and \<open>applied\<close> lists exactly the fields whose value changed.\<close>

theorem config_apply_atomic:
  assumes "wf_config cfg" and "distinct (map fst patch)"
  shows "case config_apply rp cfg patch of
      (Inl e, cfg') \<Rightarrow> cfg' = cfg \<and> stage rp patch = Inl e
    | (Inr (applied, unknown), cfg') \<Rightarrow>
        wf_config cfg' \<and> unknown = filter (\<lambda>k. k \<notin> fst ` set fields) (map fst patch)
      \<and> (\<forall>(k, v)\<in>set patch. k \<in> fst ` set fields \<longrightarrow> (\<exists>c. cfg' k = Some c \<and> staged_value rp k v c))
      \<and> (\<forall>k. k \<notin> fst ` set patch \<longrightarrow> cfg' k = cfg k)
      \<and> (\<forall>k. k \<in> fst ` set applied \<longleftrightarrow> cfg' k \<noteq> cfg k)"
proof (cases "stage rp patch")
  case (Inl e)
  then show ?thesis by (simp add: config_apply_def)
next
  case (Inr st)
  define cfg' where "cfg' = snd (commit_staged st cfg)"
  note keys = stage_keys [OF Inr]
  have dst: "distinct (map fst st)" using keys assms(2) by simp
  have known: "map_of fields k = None \<longleftrightarrow> k \<notin> fst ` set fields" for k by (simp add: map_of_eq_None_iff)
  have wf: "wf_config cfg'" using commit_staged_wf [OF assms(1) stage_typed [OF Inr]] by (simp add: cfg'_def)
  have val: "\<exists>c. cfg' k = Some c \<and> staged_value rp k v c" if "(k, v) \<in> set patch" "k \<in> fst ` set fields" for k v
    using stage_values [OF Inr that(1)] that(2) commit_staged_lookup [OF dst] known by (fastforce simp: cfg'_def)
  have "set (map fst st) \<subseteq> fst ` set patch" using keys by auto
  then have other: "cfg' k = cfg k" if "k \<notin> fst ` set patch" for k
    using that commit_staged_other [of k st cfg] by (auto simp: cfg'_def)
  have changed: "k \<in> fst ` set (fst (commit_staged st cfg)) \<longleftrightarrow> cfg' k \<noteq> cfg k" for k
  proof (cases "k \<in> fst ` set st")
    case True
    then obtain c where c: "(k, c) \<in> set st" by auto
    have "c' = c" if "(k, c') \<in> set st" for c' using that c dst by (metis eq_key_imp_eq_value)
    then have "k \<in> fst ` set (fst (commit_staged st cfg)) \<longleftrightarrow> cfg k \<noteq> Some c"
      using c by (subst commit_staged_applied_keys [OF dst]) blast
    then show ?thesis using commit_staged_lookup [OF dst c, of cfg] by (auto simp: cfg'_def)
  next
    case False
    then have "k \<notin> fst ` set (fst (commit_staged st cfg))"
      by (subst commit_staged_applied_keys [OF dst]) (simp add: fst_image_iff)
    then show ?thesis using commit_staged_other [OF False, of cfg] by (simp add: cfg'_def)
  qed
  have "config_apply rp cfg patch =
      (Inr (fst (commit_staged st cfg), filter (\<lambda>k. k \<notin> fst ` set fields) (map fst patch)), cfg')"
    using Inr known by (simp add: config_apply_def cfg'_def case_prod_beta)
  moreover have "\<forall>(k, v)\<in>set patch. k \<in> fst ` set fields \<longrightarrow> (\<exists>c. cfg' k = Some c \<and> staged_value rp k v c)"
    using val by blast
  ultimately show ?thesis using wf other changed by simp
qed

definition sample_config :: config where
  "sample_config = map_of (map (\<lambda>(k, co, d). (k, d)) fields)"

theorem config_apply_atomic_witness:
  "case config_apply (\<lambda>_. []) sample_config [(''POOL_SIZE'', JStr ''7''), (''HEDGE'', JNull), (''NOPE'', JInt 1)] of
      (Inl e, cfg') \<Rightarrow> False
    | (Inr (applied, unknown), cfg') \<Rightarrow> wf_config cfg' \<and> applied = [(''POOL_SIZE'', VInt 7)] \<and> unknown = [''NOPE'']"
proof -
  let ?p = "[(''POOL_SIZE'', JStr ''7''), (''HEDGE'', JNull), (''NOPE'', JInt 1)]"
  have wf: "wf_config sample_config"
    using config_init_default_wf by (simp add: sample_config_def)
  have "case config_apply (\<lambda>_. []) sample_config ?p of (Inl e, cfg') \<Rightarrow> False
      | (Inr (applied, unknown), cfg') \<Rightarrow> applied = [(''POOL_SIZE'', VInt 7)] \<and> unknown = [''NOPE'']"
    by code_simp
  with config_apply_atomic [OF wf, of ?p "\<lambda>_. []"] show ?thesis
    by (auto split: prod.splits sum.splits)
qed

end
