(* ===== verification/Lab_Metrics.thy ===== *)
theory Lab_Metrics
  imports Lab_Config
begin

text \<open>
  \<^verbatim>\<open>05-failure/lab/app/metrics.py\<close>: the process-local counters and gauges behind
  \<^verbatim>\<open>/admin/counters\<close>. The Prometheus histograms of the same module only leave the process through a
  third-party exporter and are not part of the state.
\<close>

record counters =
  cnt :: "string \<rightharpoonup> int"
  gauges :: "string \<rightharpoonup> rat"
  started :: rat

definition counter_names :: "string list" where
  "counter_names = [''received'', ''completed'', ''failed'', ''shed'', ''deadline_rejected'',
     ''deadline_abandoned'', ''timeouts'', ''retries'', ''retry_denied'', ''zombies'', ''cache_hits'',
     ''cache_misses'', ''db_queries'', ''db_errors'', ''hedges'', ''hedge_wins'', ''charges'',
     ''conflicts'', ''fingerprint_rejects'']"

definition new_counters :: "rat \<Rightarrow> counters" where
  "new_counters now = \<lparr>cnt = map_of (map (\<lambda>n. (n, 0)) counter_names), gauges = Map.empty, started = now\<rparr>"

definition inc_by :: "string \<Rightarrow> int \<Rightarrow> counters \<Rightarrow> counters" where
  "inc_by name n c = c\<lparr>cnt := (cnt c)(name \<mapsto> (case cnt c name of None \<Rightarrow> 0 | Some v \<Rightarrow> v) + n)\<rparr>"

abbreviation inc :: "string \<Rightarrow> counters \<Rightarrow> counters" where
  "inc name c \<equiv> inc_by name 1 c"

definition gauge :: "string \<Rightarrow> rat \<Rightarrow> counters \<Rightarrow> counters" where
  "gauge name v c = c\<lparr>gauges := (gauges c)(name \<mapsto> v)\<rparr>"

definition reset_counters :: "rat \<Rightarrow> counters \<Rightarrow> counters" where
  "reset_counters now c = c\<lparr>cnt := (\<lambda>n. map_option (\<lambda>_. 0) (cnt c n)), gauges := Map.empty, started := now\<rparr>"

text \<open>The two clock readings of \<^verbatim>\<open>snapshot\<close> are separate calls of \<^verbatim>\<open>time.time\<close>.\<close>

definition snapshot_counters :: "rat \<Rightarrow> rat \<Rightarrow> counters \<Rightarrow> string \<rightharpoonup> rat" where
  "snapshot_counters t1 t2 c =
     ((\<lambda>n. map_option of_int (cnt c n)) ++ gauges c)
       (''uptime_s'' \<mapsto> py_round 3 (fl (t1 - started c)), ''now_ms'' \<mapsto> py_round 1 (fl (t2 * 1000)))"

text \<open>The reading the accounting lemmas use: what a counter holds, an absent one counting as zero.\<close>

definition count_of :: "counters \<Rightarrow> string \<Rightarrow> int" where
  "count_of c n = (case cnt c n of None \<Rightarrow> 0 | Some v \<Rightarrow> v)"

lemma count_inc [simp]: "count_of (inc_by n k c) m = count_of c m + (if m = n then k else 0)"
  by (simp add: count_of_def inc_by_def)

lemma count_gauge [simp]: "count_of (gauge n v c) m = count_of c m"
  by (simp add: count_of_def gauge_def)

lemma count_reset [simp]: "count_of (reset_counters now c) m = 0"
  by (simp add: count_of_def reset_counters_def split: option.split)

lemma count_new [simp]: "count_of (new_counters now) m = 0"
proof -
  have "(case map_of (map (\<lambda>n. (n, 0)) ns) m of None \<Rightarrow> 0 | Some v \<Rightarrow> v) = (0::int)" for ns :: "string list"
    by (induction ns) auto
  then show ?thesis by (simp add: count_of_def new_counters_def)
qed

end
