(* ===== verification/Lab_Deadline.thy ===== *)
theory Lab_Deadline
  imports Lab_Metrics
begin

text \<open>
  \<^verbatim>\<open>05-failure/lab/app/deadline.py\<close>: the absolute deadline a request carries, and the budgets each
  hop derives from it. A request's headers are given by their lookup function; the clock is a
  reading passed to each function that takes one.
\<close>

type_synonym headers = "string \<Rightarrow> string option"

definition OBSERVED_HEADER :: string where
  "OBSERVED_HEADER = ''X-Observed-Deadline''"

definition now_ms :: "rat \<Rightarrow> rat" where
  "now_ms t = fl (t * 1000)"

definition py_or :: "string option \<Rightarrow> string option \<Rightarrow> string option" where
  "py_or a b = (case a of None \<Rightarrow> b | Some s \<Rightarrow> if s = [] then b else a)"

definition read_deadline :: "config \<Rightarrow> headers \<Rightarrow> rat option" where
  "read_deadline cfg hdrs =
     (let name = cfg_str cfg ''DEADLINE_HEADER'' in
      case py_or (hdrs name) (hdrs OBSERVED_HEADER) of
        None \<Rightarrow> None
      | Some raw \<Rightarrow> if raw = [] then None else py_float_of raw)"

definition remaining_ms :: "rat \<Rightarrow> rat option \<Rightarrow> rat option" where
  "remaining_ms now deadline = map_option (\<lambda>d. fl (d - now)) deadline"

definition should_reject :: "config \<Rightarrow> rat \<Rightarrow> rat option \<Rightarrow> bool" where
  "should_reject cfg now deadline =
     (if \<not> cfg_bool cfg ''PROPAGATE_DEADLINE'' then False
      else case remaining_ms now deadline of None \<Rightarrow> False
           | Some left \<Rightarrow> left < of_int (cfg_int cfg ''DEADLINE_SLACK_MS''))"

definition minus_slack :: "config \<Rightarrow> rat \<Rightarrow> rat" where
  "minus_slack cfg left = fl (left - fl (of_int (cfg_int cfg ''DEADLINE_SLACK_MS'')))"

definition outbound_timeout_ms :: "config \<Rightarrow> rat \<Rightarrow> rat option \<Rightarrow> int" where
  "outbound_timeout_ms cfg now deadline =
     (let configured = cfg_int cfg ''CLIENT_TIMEOUT_MS'' in
      if \<not> cfg_bool cfg ''PROPAGATE_DEADLINE'' then configured
      else case remaining_ms now deadline of None \<Rightarrow> configured
           | Some left \<Rightarrow> max 1 (py_trunc (min (of_int configured) (minus_slack cfg left))))"

definition statement_timeout_ms :: "config \<Rightarrow> rat \<Rightarrow> rat option \<Rightarrow> int option" where
  "statement_timeout_ms cfg now deadline =
     (case cfg_opt_int cfg ''STATEMENT_TIMEOUT_MS'' of
        Some e \<Rightarrow> Some e
      | None \<Rightarrow>
          if \<not> cfg_bool cfg ''PROPAGATE_DEADLINE'' then None
          else map_option (\<lambda>left. max 1 (py_trunc (minus_slack cfg left))) (remaining_ms now deadline))"

definition headers_for_next_hop :: "config \<Rightarrow> rat option \<Rightarrow> headers \<Rightarrow> (string \<rightharpoonup> string)" where
  "headers_for_next_hop cfg deadline incoming =
     (let out = (case deadline of None \<Rightarrow> Map.empty
                 | Some d \<Rightarrow> [cfg_str cfg ''DEADLINE_HEADER'' \<mapsto> py_fixed 0 d, OBSERVED_HEADER \<mapsto> py_fixed 0 d])
      in case incoming ''X-Request-Id'' of None \<Rightarrow> out
         | Some rid \<Rightarrow> if rid = [] then out else out(''X-Request-Id'' \<mapsto> rid))"

definition record_completion :: "rat \<Rightarrow> rat option \<Rightarrow> bool \<Rightarrow> counters \<Rightarrow> bool \<times> counters" where
  "record_completion now deadline did_work c =
     (if \<not> did_work then (False, c)
      else case remaining_ms now deadline of None \<Rightarrow> (False, c)
           | Some left \<Rightarrow> if left \<le> 0 then (True, inc ''zombies'' c) else (False, c))"

subsection \<open>The deadline between hops\<close>

lemma py_str_nat_not_empty: "py_fixed 0 d \<noteq> []"
  by (simp add: py_fixed_def)

lemma read_after_send:
  assumes "0 \<le> d" "d \<le> 2 ^ 53" and "cfg_str cfg ''DEADLINE_HEADER'' \<noteq> ''X-Request-Id''"
    and "cfg_str cfg' ''DEADLINE_HEADER'' = cfg_str cfg ''DEADLINE_HEADER''"
  shows "read_deadline cfg' (headers_for_next_hop cfg (Some d) incoming) = Some (of_int (rhe d))"
proof -
  have "headers_for_next_hop cfg (Some d) incoming (cfg_str cfg ''DEADLINE_HEADER'') = Some (py_fixed 0 d)"
    using assms(3) by (auto simp: headers_for_next_hop_def Let_def split: option.split)
  then show ?thesis
    using assms(4) py_str_nat_not_empty fixed_0_roundtrip [OF assms(1,2)]
    by (simp add: read_deadline_def py_or_def Let_def)
qed

text \<open>C37. A deadline sent to the next hop arrives within half a millisecond of the sender's, under
  any forwarded request id, and a second hop forwards exactly the number it received: the rounding
  of the header does not accumulate along the chain.\<close>

theorem deadline_survives_hops:
  assumes "0 \<le> d" and "d \<le> 2 ^ 53"
    and "cfg_str cfg1 ''DEADLINE_HEADER'' = h" and "cfg_str cfg2 ''DEADLINE_HEADER'' = h"
    and "cfg_str cfg3 ''DEADLINE_HEADER'' = h" and "h \<noteq> ''X-Request-Id''"
  shows "\<exists>d'. read_deadline cfg2 (headers_for_next_hop cfg1 (Some d) in1) = Some d' \<and> \<bar>d' - d\<bar> \<le> 1 / 2
           \<and> read_deadline cfg3 (headers_for_next_hop cfg2 (Some d') in2) = Some d'"
proof -
  have r: "0 \<le> rhe d" "rhe d \<le> 2 ^ 53" using rhe_ge_int [of 0 d] rhe_le_int [of d "2 ^ 53"] assms by simp_all
  then have b: "(0::rat) \<le> of_int (rhe d)" "(of_int (rhe d) :: rat) \<le> 2 ^ 53"
    by (simp, metis of_int_le_iff of_int_numeral of_int_power)
  have "read_deadline cfg3 (headers_for_next_hop cfg2 (Some (of_int (rhe d))) in2) = Some (of_int (rhe d))"
    using read_after_send [OF b, of cfg2 cfg3 in2] assms(4-6) by (simp only: rhe_of_int simp_thms)
  then show ?thesis
    using read_after_send [of d cfg1 cfg2 in1] assms rhe_close [of d] by simp
qed

theorem deadline_survives_hops_witness:
  "\<exists>d'. read_deadline sample_config (headers_for_next_hop sample_config (Some (2001 / 2)) (\<lambda>_. Some ''r1'')) = Some d'
     \<and> \<bar>d' - 2001 / 2\<bar> \<le> 1 / 2
     \<and> read_deadline sample_config (headers_for_next_hop sample_config (Some d') (\<lambda>_. None)) = Some d'"
proof -
  have h: "cfg_str sample_config ''DEADLINE_HEADER'' = ''X-Request-Deadline''" by code_simp
  show ?thesis
    using deadline_survives_hops [OF _ _ h h h, of "2001 / 2" "\<lambda>_. Some ''r1''" "\<lambda>_. None"] by simp
qed

text \<open>The budgets derived from one clock reading fit into what the caller has left. Under
  propagation, a hop that is not refused has at least the slack left; the timeout it gives the next
  hop and the statement timeout are at least one and never exceed the remaining time less the slack
  (rounded up, or one millisecond when less is left); the timeout also never exceeds the configured
  one. Without propagation nothing is refused and the configured timeout is used as it is.\<close>

theorem derived_budgets_fit:
  assumes slack: "0 \<le> cfg_int cfg ''DEADLINE_SLACK_MS''" "cfg_int cfg ''DEADLINE_SLACK_MS'' \<le> 2 ^ 53"
    and left: "remaining_ms now (Some d) = Some left" "\<bar>left\<bar> \<le> 2 ^ 52"
    and ct: "1 \<le> cfg_int cfg ''CLIENT_TIMEOUT_MS''"
  shows "if cfg_bool cfg ''PROPAGATE_DEADLINE''
     then (should_reject cfg now (Some d) \<longleftrightarrow> left < of_int (cfg_int cfg ''DEADLINE_SLACK_MS''))
        \<and> 1 \<le> outbound_timeout_ms cfg now (Some d)
        \<and> outbound_timeout_ms cfg now (Some d) \<le> cfg_int cfg ''CLIENT_TIMEOUT_MS''
        \<and> outbound_timeout_ms cfg now (Some d) \<le> max 1 (\<lceil>left\<rceil> - cfg_int cfg ''DEADLINE_SLACK_MS'')
        \<and> (cfg_opt_int cfg ''STATEMENT_TIMEOUT_MS'' = None \<longrightarrow>
             (\<exists>ms. statement_timeout_ms cfg now (Some d) = Some ms \<and> 1 \<le> ms
                \<and> ms \<le> max 1 (\<lceil>left\<rceil> - cfg_int cfg ''DEADLINE_SLACK_MS'')))
     else \<not> should_reject cfg now (Some d)
        \<and> outbound_timeout_ms cfg now (Some d) = cfg_int cfg ''CLIENT_TIMEOUT_MS''"
proof -
  let ?s = "cfg_int cfg ''DEADLINE_SLACK_MS''"
  have "fl (of_int ?s) = of_int ?s" using slack by (intro fl_double is_double_int) simp
  moreover have "\<lceil>left\<rceil> \<le> 2 ^ 52" using left(2) by (simp add: ceiling_le_iff)
  then have "\<lceil>left\<rceil> - ?s \<le> 2 ^ 53" using slack(1) by (rule_tac order_trans [OF diff_mono [of _ "2 ^ 52" 0]]) simp_all
  ultimately have m: "minus_slack cfg left \<le> max 1 (of_int (\<lceil>left\<rceil> - ?s))"
  proof -
    assume s: "fl (of_int ?s) = of_int ?s" and b: "\<lceil>left\<rceil> - ?s \<le> 2 ^ 53"
    show ?thesis
    proof (cases "1 \<le> \<lceil>left\<rceil> - ?s")
      case True
      then have "is_double (of_int (\<lceil>left\<rceil> - ?s))" using b by (intro is_double_int) simp
      then have "minus_slack cfg left \<le> of_int (\<lceil>left\<rceil> - ?s)"
        unfolding minus_slack_def s by (rule dbl.rnd_le) simp
      then show ?thesis by simp
    next
      case False
      have "left - of_int ?s \<le> of_int (\<lceil>left\<rceil> - ?s)" by simp
      also have "\<dots> \<le> of_int 1" using False by (subst of_int_le_iff) simp
      finally have "minus_slack cfg left \<le> of_int 1"
        unfolding minus_slack_def s by (intro dbl.rnd_le is_double_int) simp_all
      then show ?thesis by simp
    qed
  qed
  have t: "py_trunc (minus_slack cfg left) \<le> max 1 (\<lceil>left\<rceil> - ?s)"
    by (rule py_trunc_le) (use m in \<open>simp add: of_int_max\<close>)
  moreover have "py_trunc (min (of_int (cfg_int cfg ''CLIENT_TIMEOUT_MS'')) (minus_slack cfg left)) \<le> py_trunc (minus_slack cfg left)"
    by (rule py_trunc_mono) simp
  moreover have "py_trunc (min (of_int (cfg_int cfg ''CLIENT_TIMEOUT_MS'')) (minus_slack cfg left)) \<le> cfg_int cfg ''CLIENT_TIMEOUT_MS''"
    by (rule py_trunc_le) simp
  ultimately show ?thesis
    using left(1) ct by (auto simp: should_reject_def outbound_timeout_ms_def statement_timeout_ms_def Let_def)
qed

definition propagating_config :: config where
  "propagating_config = sample_config(''PROPAGATE_DEADLINE'' \<mapsto> VBool True)"

theorem derived_budgets_fit_witness:
  "cfg_bool propagating_config ''PROPAGATE_DEADLINE'' \<and> outbound_timeout_ms propagating_config 1000 (Some 1300) = 280
   \<and> outbound_timeout_ms propagating_config 1000 (Some 1300) \<le> max 1 (\<lceil>300::rat\<rceil> - cfg_int propagating_config ''DEADLINE_SLACK_MS'')"
proof -
  have "cfg_bool propagating_config ''PROPAGATE_DEADLINE''" "0 \<le> cfg_int propagating_config ''DEADLINE_SLACK_MS''"
    "cfg_int propagating_config ''DEADLINE_SLACK_MS'' \<le> 2 ^ 53" "remaining_ms 1000 (Some 1300) = Some 300"
    "1 \<le> cfg_int propagating_config ''CLIENT_TIMEOUT_MS''" "outbound_timeout_ms propagating_config 1000 (Some 1300) = 280"
    by code_simp+
  with derived_budgets_fit [of propagating_config 1000 1300 300] show ?thesis by simp
qed

end
