(* ===== verification/Token_Bucket.thy ===== *)
theory Token_Bucket
  imports PyFloat
begin

text \<open>
  The contract every retry and hedge budget of the repository relies on: a deposit adds a share of
  a token up to a capacity, a withdrawal needs a whole token. All arithmetic is on doubles. The
  client theorem is proved once here; the classes that implement the contract interpret it.
\<close>

datatype bucket_op = Deposit | Withdraw

fun bucket_run :: "('s \<Rightarrow> 's) \<Rightarrow> ('s \<Rightarrow> bool \<times> 's) \<Rightarrow> bucket_op list \<Rightarrow> 's \<Rightarrow> nat \<times> 's" where
  "bucket_run dep wd [] s = (0, s)"
| "bucket_run dep wd (Deposit # ops) s = bucket_run dep wd ops (dep s)"
| "bucket_run dep wd (Withdraw # ops) s =
     (let (ok, s') = wd s; (n, s'') = bucket_run dep wd ops s' in (if ok then Suc n else n, s''))"

definition deposits :: "bucket_op list \<Rightarrow> nat" where
  "deposits ops = length (filter (\<lambda>e. e = Deposit) ops)"

lemma deposits_simps [simp]:
  "deposits [] = 0" "deposits (Deposit # ops) = Suc (deposits ops)" "deposits (Withdraw # ops) = deposits ops"
  "deposits (xs @ ys) = deposits xs + deposits ys"
  by (simp_all add: deposits_def)

lemma bucket_run_append:
  "bucket_run dep wd (xs @ ys) s =
     (let (n, s') = bucket_run dep wd xs s; (k, s'') = bucket_run dep wd ys s' in (n + k, s''))"
proof (induction xs arbitrary: s)
  case (Cons x xs)
  show ?case by (cases x) (simp_all add: Cons.IH case_prod_beta Let_def)
qed simp

locale token_bucket =
  fixes level share cap :: "'s \<Rightarrow> rat"
    and enabled :: "'s \<Rightarrow> bool"
    and dep :: "'s \<Rightarrow> 's"
    and wd :: "'s \<Rightarrow> bool \<times> 's"
  assumes dep_frame: "enabled s \<Longrightarrow> enabled (dep s) \<and> share (dep s) = share s \<and> cap (dep s) = cap s"
    and wd_frame: "enabled s \<Longrightarrow> enabled (snd (wd s)) \<and> share (snd (wd s)) = share s \<and> cap (snd (wd s)) = cap s"
    and dep_level: "enabled s \<Longrightarrow> level (dep s) = min (cap s) (fl (level s + share s))"
    and wd_granted: "enabled s \<Longrightarrow> fst (wd s) \<longleftrightarrow> 1 \<le> level s"
    and wd_level: "enabled s \<Longrightarrow> level (snd (wd s)) = (if 1 \<le> level s then fl (level s - 1) else level s)"
begin

text \<open>
  The level never exceeds a dyadic account of deposits and grants: rounding cannot create a
  token, because every number of the account is itself a double.
\<close>

lemma run_level:
  assumes "enabled s" "0 \<le> level s" "level s \<le> of_int a / 2 ^ j" "0 \<le> share s" "share s \<le> of_int m / 2 ^ j"
    and "0 \<le> cap s" "0 \<le> a" "0 \<le> m" "a + m * int (deposits ops) \<le> 2 ^ 53" "j \<le> 1074"
    and "bucket_run dep wd ops s = (g, s')"
  shows "0 \<le> level s' \<and> level s' \<le> of_int (a + m * int (deposits ops) - int g * 2 ^ j) / 2 ^ j"
  using assms
proof (induction ops arbitrary: s a g)
  case (Cons x ops)
  note prems = Cons.prems
  show ?case
  proof (cases x)
    case Deposit
    have sum: "level s + share s \<le> of_int (a + m) / 2 ^ j"
      using prems(3,5) by (simp add: add_divide_distrib)
    have "0 \<le> m * int (deposits ops)" using prems(8) by simp
    with prems(9) Deposit have am: "a + m \<le> 2 ^ 53" by (simp add: algebra_simps)
    have "fl (level s + share s) \<le> of_int (a + m) / 2 ^ j"
      using sum am prems(7,8,10) by (intro dbl.rnd_le is_double_dyadic) auto
    then have "level (dep s) \<le> of_int (a + m) / 2 ^ j" using dep_level [OF prems(1)] by simp
    moreover have "0 \<le> level (dep s)"
      using dep_level [OF prems(1)] prems(2,4,6) fl_nonneg by simp
    ultimately have "0 \<le> level s' \<and> level s' \<le> of_int (a + m + m * int (deposits ops) - int g * 2 ^ j) / 2 ^ j"
      using prems Deposit dep_frame [OF prems(1)]
      by (intro Cons.IH [of "dep s" "a + m"]) (simp_all add: algebra_simps)
    then show ?thesis using Deposit by (simp add: algebra_simps)
  next
    case Withdraw
    let ?s = "snd (wd s)"
    obtain n where n: "bucket_run dep wd ops ?s = (n, s')" and g: "g = (if 1 \<le> level s then Suc n else n)"
      using prems(11) Withdraw wd_granted [OF prems(1)] by (auto simp: Let_def split: prod.splits if_splits)
    show ?thesis
    proof (cases "1 \<le> level s")
      case True
      then have "1 \<le> (of_int a :: rat) / 2 ^ j" using prems(3) by (rule order_trans)
      then have "(2::rat) ^ j \<le> of_int a" by (subst (asm) le_divide_eq_1_pos) simp_all
      then have "(of_int (2 ^ j) :: rat) \<le> of_int a" by simp
      then have a: "2 ^ j \<le> a" by (subst (asm) of_int_le_iff)
      have "0 \<le> m * int (deposits ops)" using prems(8) by simp
      with prems(9) Withdraw have a53: "a \<le> 2 ^ 53" by simp
      have le: "level s - 1 \<le> of_int (a - 2 ^ j) / 2 ^ j" using prems(3) by (simp add: diff_divide_distrib)
      have "\<bar>a - 2 ^ j\<bar> \<le> 2 ^ 53" using a a53 zero_le_power [of "2::int" j] by linarith
      then have "fl (level s - 1) \<le> of_int (a - 2 ^ j) / 2 ^ j"
        using le prems(10) by (intro dbl.rnd_le is_double_dyadic)
      then have "level ?s \<le> of_int (a - 2 ^ j) / 2 ^ j" using wd_level [OF prems(1)] True by simp
      moreover have "0 \<le> level ?s" using wd_level [OF prems(1)] True fl_nonneg by simp
      moreover have "a - 2 ^ j + m * int (deposits ops) \<le> 2 ^ 53"
        using prems(9) Withdraw zero_le_power [of "2::int" j] by (simp only: deposits_simps) linarith
      ultimately have "0 \<le> level s' \<and> level s' \<le> of_int (a - 2 ^ j + m * int (deposits ops) - int n * 2 ^ j) / 2 ^ j"
        using prems Withdraw wd_frame [OF prems(1)] n a
        by (intro Cons.IH [of ?s "a - 2 ^ j"]) simp_all
      then show ?thesis using Withdraw g True by (simp add: algebra_simps)
    next
      case False
      then have "0 \<le> level s' \<and> level s' \<le> of_int (a + m * int (deposits ops) - int n * 2 ^ j) / 2 ^ j"
        using prems Withdraw wd_frame [OF prems(1)] wd_level [OF prems(1)] n
        by (intro Cons.IH [of ?s a]) simp_all
      then show ?thesis using Withdraw g False by simp
    qed
  qed
qed simp

lemma run_cap:
  "enabled s \<Longrightarrow> level s \<le> cap s \<Longrightarrow> 0 \<le> level s \<Longrightarrow> 0 \<le> share s \<Longrightarrow> 0 \<le> cap s \<Longrightarrow> is_double (cap s) \<Longrightarrow>
   bucket_run dep wd ops s = (g, s') \<Longrightarrow> 0 \<le> level s' \<and> level s' \<le> cap s'"
proof (induction ops arbitrary: s g)
  case (Cons x ops)
  note prems = Cons.prems
  show ?case
  proof (cases x)
    case Deposit
    have "level (dep s) \<le> cap (dep s)" "0 \<le> level (dep s)"
      using prems fl_nonneg dep_frame [OF prems(1)] dep_level [OF prems(1)] by simp_all
    with Cons.IH [of "dep s" g] prems Deposit dep_frame [OF prems(1)] show ?thesis by simp
  next
    case Withdraw
    let ?s = "snd (wd s)"
    have "fl (level s - 1) \<le> cap s" using prems by (intro dbl.rnd_le) auto
    then have "level ?s \<le> cap ?s" "0 \<le> level ?s"
      using prems fl_nonneg wd_frame [OF prems(1)] wd_level [OF prems(1)] by auto
    moreover obtain n where "bucket_run dep wd ops ?s = (n, s')"
      using prems(7) Withdraw by (auto simp: Let_def split: prod.splits)
    ultimately show ?thesis using Cons.IH [of ?s n] prems wd_frame [OF prems(1)] by simp
  qed
qed simp

text \<open>The client theorem: grants are at most the initial account plus the deposited share.\<close>

lemma grants_bounded:
  assumes "enabled s" "0 \<le> level s" "level s \<le> of_int a / 2 ^ j" "0 \<le> share s" "share s \<le> of_int m / 2 ^ j"
    and "0 \<le> cap s" "0 \<le> a" "0 \<le> m" "a + m * int (deposits ops) \<le> 2 ^ 53" "j \<le> 1074"
    and "bucket_run dep wd ops s = (g, s')"
  shows "int g * 2 ^ j \<le> a + m * int (deposits ops)"
proof -
  from run_level [OF assms] have "0 \<le> (of_int (a + m * int (deposits ops) - int g * 2 ^ j) :: rat) / 2 ^ j"
    by (meson order_trans)
  moreover have "(0::rat) < 2 ^ j" by simp
  ultimately have "(0::rat) \<le> of_int (a + m * int (deposits ops) - int g * 2 ^ j)"
    by (meson divide_neg_pos not_le)
  then show ?thesis by (subst (asm) of_int_0_le_iff) simp
qed

end

text \<open>The states of a bucket with the grants and the deposits behind them, one operation at a time.\<close>

definition earned :: "('s \<Rightarrow> 's) \<Rightarrow> ('s \<Rightarrow> bool \<times> 's) \<Rightarrow> 's \<Rightarrow> nat \<Rightarrow> nat \<Rightarrow> 's \<Rightarrow> bool" where
  "earned dep wd s0 g d b \<longleftrightarrow> (\<exists>ops. bucket_run dep wd ops s0 = (g, b) \<and> deposits ops = d)"

lemma earned_new: "earned dep wd s0 0 0 s0"
  unfolding earned_def by (intro exI [of _ "[]"]) simp

lemma earned_deposit: "earned dep wd s0 g d b \<Longrightarrow> earned dep wd s0 g (Suc d) (dep b)"
proof -
  assume "earned dep wd s0 g d b"
  then obtain ops where "bucket_run dep wd ops s0 = (g, b)" "deposits ops = d" by (auto simp: earned_def)
  then show ?thesis unfolding earned_def by (intro exI [of _ "ops @ [Deposit]"]) (simp add: bucket_run_append)
qed

lemma earned_withdraw: "earned dep wd s0 g d b \<Longrightarrow> earned dep wd s0 (g + of_bool (fst (wd b))) d (snd (wd b))"
proof -
  assume "earned dep wd s0 g d b"
  then obtain ops where "bucket_run dep wd ops s0 = (g, b)" "deposits ops = d" by (auto simp: earned_def)
  then show ?thesis unfolding earned_def
    by (intro exI [of _ "ops @ [Withdraw]"]) (simp add: bucket_run_append case_prod_beta)
qed

context token_bucket
begin

lemma earned_bounded:
  assumes "earned dep wd s0 g d b" "enabled s0" "0 \<le> level s0" "level s0 \<le> of_int a / 2 ^ j" "0 \<le> share s0"
    "share s0 \<le> of_int m / 2 ^ j" "0 \<le> cap s0" "0 \<le> a" "0 \<le> m" "a + m * int d \<le> 2 ^ 53" "j \<le> 1074"
  shows "int g * 2 ^ j \<le> a + m * int d"
proof -
  from assms(1) obtain ops where ops: "bucket_run dep wd ops s0 = (g, b)" "deposits ops = d" by (auto simp: earned_def)
  from grants_bounded [OF assms(2-9) _ assms(11) ops(1)] assms(10) show ?thesis by (simp add: ops(2))
qed

end

end
