(* ===== verification/Lab_Retry.thy ===== *)
theory Lab_Retry
  imports Lab_Deadline Token_Bucket
begin

text \<open>
  \<^verbatim>\<open>05-failure/lab/app/retry.py\<close>: the success-funded retry budget, exponential backoff and the retry
  loop. The loop runs in any process state that contains the counters and the budget: an attempt
  may change all of it, as requests handled meanwhile by the same process do.
\<close>

record retry_bucket =
  tokens :: rat
  capacity :: rat

definition new_retry_bucket :: retry_bucket where
  "new_retry_bucket = \<lparr>tokens = 0, capacity = 100\<rparr>"

record retry_world =
  w_counters :: counters
  w_budget :: retry_bucket

abbreviation bump :: "string \<Rightarrow> 'a retry_world_scheme \<Rightarrow> 'a retry_world_scheme" where
  "bump name w \<equiv> w_counters_update (inc_by name 1) w"

definition budget_ratio :: "config \<Rightarrow> rat" where
  "budget_ratio cfg = fl (cfg_float cfg ''RETRY_BUDGET_PCT'' / 100)"

definition deposit :: "config \<Rightarrow> 'a retry_world_scheme \<Rightarrow> 'a retry_world_scheme" where
  "deposit cfg w =
     (let ratio = budget_ratio cfg; b = w_budget w in
      if ratio \<le> 0 then w
      else w\<lparr>w_budget := b\<lparr>tokens := min (capacity b) (fl (tokens b + ratio))\<rparr>\<rparr>)"

definition withdraw :: "config \<Rightarrow> 'a retry_world_scheme \<Rightarrow> bool \<times> 'a retry_world_scheme" where
  "withdraw cfg w =
     (let b = w_budget w in
      if cfg_float cfg ''RETRY_BUDGET_PCT'' \<le> 0 then (True, w)
      else if 1 \<le> tokens b then (True, w\<lparr>w_budget := b\<lparr>tokens := fl (tokens b - 1)\<rparr>\<rparr>)
      else (False, bump ''retry_denied'' w))"

definition budget_level :: "'a retry_world_scheme \<Rightarrow> rat" where
  "budget_level w = py_round 2 (tokens (w_budget w))"

definition backoff_ms :: "config \<Rightarrow> rat \<Rightarrow> nat \<Rightarrow> rat" where
  "backoff_ms cfg u attempt =
     (let base = fl (fl (of_int (cfg_int cfg ''RETRY_BASE_MS'')) * 2 ^ (attempt - 1)) in
      if cfg_str cfg ''RETRY_JITTER'' = ''full'' then fl (0 + fl (fl (base - 0) * u)) else base)"

text \<open>What the loop reads from outside: clock readings (in milliseconds) before each attempt and
  before each pause, and the random draws.\<close>

record retry_env =
  t_out :: "nat \<Rightarrow> rat"
  t_left :: "nat \<Rightarrow> rat"
  draw :: "nat \<Rightarrow> rat"

text \<open>The loop from a given attempt on: the result, the number of calls made, the pauses taken.\<close>

function retry_from ::
  "config \<Rightarrow> retry_env \<Rightarrow> (nat \<Rightarrow> rat \<Rightarrow> 'a retry_world_scheme \<Rightarrow> 'r \<times> 'a retry_world_scheme) \<Rightarrow> ('r \<Rightarrow> bool)
   \<Rightarrow> rat option \<Rightarrow> nat \<Rightarrow> nat \<Rightarrow> 'r option \<Rightarrow> 'a retry_world_scheme
   \<Rightarrow> 'r option \<times> nat \<times> rat list \<times> 'a retry_world_scheme" where
  "retry_from cfg env attempt_fn is_retryable deadline attempts attempt prev w =
     (if attempts < attempt then (prev, 0, [], w)
      else let (go, w1) = (if 1 < attempt then withdraw cfg w else (True, w)) in
        if \<not> go then (prev, 0, [], w1)
        else let w2 = (if 1 < attempt then bump ''retries'' w1 else w1);
                 timeout = of_int (outbound_timeout_ms cfg (t_out env attempt) deadline);
                 (result, w3) = attempt_fn attempt timeout w2 in
          if \<not> is_retryable result then (Some result, 1, [], deposit cfg w3)
          else if attempt = attempts then (Some result, 1, [], w3)
          else let delay = fl (backoff_ms cfg (draw env attempt) attempt / 1000) in
            if (case remaining_ms (t_left env attempt) deadline of None \<Rightarrow> False
                | Some left \<Rightarrow> cfg_bool cfg ''PROPAGATE_DEADLINE'' \<and> left \<le> fl (delay * 1000))
            then (Some result, 1, [], w3)
            else let (r, n, ds, w4) = retry_from cfg env attempt_fn is_retryable deadline attempts
                                        (Suc attempt) (Some result) w3
                 in (r, Suc n, delay # ds, w4))"
  by pat_completeness auto
termination
  by (relation "measure (\<lambda>(cfg, env, attempt_fn, is_retryable, deadline, attempts, attempt, prev, w).
        Suc attempts - attempt)") auto

declare retry_from.simps [simp del]

definition with_retries ::
  "config \<Rightarrow> retry_env \<Rightarrow> (nat \<Rightarrow> rat \<Rightarrow> 'a retry_world_scheme \<Rightarrow> 'r \<times> 'a retry_world_scheme) \<Rightarrow> ('r \<Rightarrow> bool)
   \<Rightarrow> rat option \<Rightarrow> 'a retry_world_scheme \<Rightarrow> 'r option \<times> nat \<times> rat list \<times> 'a retry_world_scheme" where
  "with_retries cfg env attempt_fn is_retryable deadline w =
     (let attempts = nat (max 1 (cfg_int cfg ''RETRY_ATTEMPTS''))
      in retry_from cfg env attempt_fn is_retryable deadline attempts 1 None w)"

subsection \<open>The budget implements the token-bucket contract\<close>

interpretation retry_tb: token_bucket
  "\<lambda>(cfg, w). tokens (w_budget w)" "\<lambda>(cfg, w). budget_ratio cfg" "\<lambda>(cfg, w). capacity (w_budget w)"
  "\<lambda>(cfg, w). 0 < budget_ratio cfg" "\<lambda>(cfg, w). (cfg, deposit cfg w)"
  "\<lambda>(cfg, w). (let (ok, w') = withdraw cfg w in (ok, (cfg, w')))"
proof -
  have pos: "0 < cfg_float cfg ''RETRY_BUDGET_PCT''" if "0 < budget_ratio cfg" for cfg
  proof (rule ccontr)
    assume "\<not> 0 < cfg_float cfg ''RETRY_BUDGET_PCT''"
    then have "budget_ratio cfg \<le> 0"
      using dbl.rnd_le [OF is_double_int [of 0], of "cfg_float cfg ''RETRY_BUDGET_PCT'' / 100"]
      by (simp add: budget_ratio_def divide_le_0_iff)
    with that show False by simp
  qed
  show "token_bucket (\<lambda>(cfg, w). tokens (w_budget w)) (\<lambda>(cfg, w). budget_ratio cfg)
     (\<lambda>(cfg, w). capacity (w_budget w)) (\<lambda>(cfg, w). 0 < budget_ratio cfg) (\<lambda>(cfg, w). (cfg, deposit cfg w))
     (\<lambda>(cfg, w). (let (ok, w') = withdraw cfg w in (ok, (cfg, w'))))"
    by unfold_locales (auto simp: deposit_def withdraw_def Let_def dest: pos split: if_splits)
qed

definition budget_ops :: "config \<Rightarrow> bucket_op list \<Rightarrow> 'a retry_world_scheme \<Rightarrow> nat \<times> config \<times> 'a retry_world_scheme" where
  "budget_ops cfg ops w =
     bucket_run (\<lambda>(cfg, w). (cfg, deposit cfg w))
       (\<lambda>(cfg, w). (let (ok, w') = withdraw cfg w in (ok, (cfg, w')))) ops (cfg, w)"

text \<open>The retry budget is a budget. From an empty bucket, in any interleaving of successful
  requests and retries, the retries granted are at most the configured share of the successes:
  \<open>retries * 2^j \<le> m * successes\<close> for every dyadic fraction \<open>m / 2^j\<close> above the configured ratio, in
  double arithmetic, and the bucket stays between zero and its capacity. With the budget off every
  retry is granted.\<close>

theorem retry_budget_bounds_retries:
  assumes "0 < budget_ratio cfg" and "budget_ratio cfg \<le> of_int m / 2 ^ j" and "j \<le> 1074"
    and "0 \<le> m" and "m * int (deposits ops) \<le> 2 ^ 53" and "w_budget w = new_retry_bucket"
    and "budget_ops cfg ops w = (granted, cfg', w')"
  shows "int granted * 2 ^ j \<le> m * int (deposits ops)
       \<and> 0 \<le> tokens (w_budget w') \<and> tokens (w_budget w') \<le> capacity (w_budget w')
       \<and> (cfg_float off ''RETRY_BUDGET_PCT'' \<le> 0 \<longrightarrow> withdraw off w = (True, w))"
proof -
  have r: "bucket_run (\<lambda>(cfg, w). (cfg, deposit cfg w))
       (\<lambda>(cfg, w). (let (ok, w') = withdraw cfg w in (ok, (cfg, w')))) ops (cfg, w) = (granted, (cfg', w'))"
    using assms(7) by (simp add: budget_ops_def)
  have "int granted * 2 ^ j \<le> 0 + m * int (deposits ops)"
    by (rule retry_tb.grants_bounded [OF _ _ _ _ _ _ _ _ _ _ r]) (use assms in \<open>simp_all add: new_retry_bucket_def\<close>)
  moreover have "is_double (100::rat)" using is_double_int [of 100] by simp
  then have "0 \<le> tokens (w_budget w') \<and> tokens (w_budget w') \<le> capacity (w_budget w')"
    using retry_tb.run_cap [OF _ _ _ _ _ _ r] assms by (simp add: new_retry_bucket_def)
  ultimately show ?thesis by (simp add: withdraw_def)
qed

definition ten_pct :: config where
  "ten_pct = sample_config(''RETRY_BUDGET_PCT'' \<mapsto> VFloat (25 / 2))"

definition world0 :: retry_world where
  "world0 = \<lparr>w_counters = new_counters 0, w_budget = new_retry_bucket\<rparr>"

theorem retry_budget_bounds_retries_witness:
  "fst (budget_ops ten_pct (replicate 9 Deposit @ [Withdraw, Withdraw]) world0) = 1
   \<and> int (fst (budget_ops ten_pct (replicate 9 Deposit @ [Withdraw, Withdraw]) world0)) * 2 ^ 3 \<le> 1 * 9"
proof -
  let ?r = "budget_ops ten_pct (replicate 9 Deposit @ [Withdraw, Withdraw]) world0"
  have 1: "0 < budget_ratio ten_pct" "budget_ratio ten_pct \<le> of_int 1 / 2 ^ 3" "fst ?r = 1"
    "w_budget world0 = new_retry_bucket" "deposits (replicate 9 Deposit @ [Withdraw, Withdraw]) = 9" by code_simp+
  obtain g c w where r: "?r = (g, c, w)" by (cases ?r) auto
  show ?thesis using retry_budget_bounds_retries [OF 1(1,2) _ _ _ 1(4) r] 1(3,5) r by simp
qed

subsection \<open>The retry loop\<close>

lemma count_deposit [simp]: "count_of (w_counters (deposit cfg w)) n = count_of (w_counters w) n"
  by (simp add: deposit_def Let_def)

lemma count_withdraw: "count_of (w_counters (snd (withdraw cfg w))) ''retries'' = count_of (w_counters w) ''retries''"
  by (simp add: withdraw_def Let_def)

text \<open>A view of the process that the loop's own bookkeeping leaves alone.\<close>

definition outside_loop :: "('a retry_world_scheme \<Rightarrow> 'x) \<Rightarrow> bool" where
  "outside_loop view \<longleftrightarrow> (\<forall>w b. view (w\<lparr>w_budget := b\<rparr>) = view w)
     \<and> (\<forall>w. view (bump ''retries'' w) = view w \<and> view (bump ''retry_denied'' w) = view w)"

lemma outside_deposit: "outside_loop view \<Longrightarrow> view (deposit cfg w) = view w"
  by (simp add: outside_loop_def deposit_def Let_def)

lemma outside_withdraw:
  assumes "outside_loop view"
  shows "view (snd (withdraw cfg w)) = view w"
proof -
  have "view (w\<lparr>w_budget := b\<rparr>) = view w" "view (bump ''retry_denied'' w) = view w" for b
    using assms unfolding outside_loop_def by blast+
  then show ?thesis by (simp only: withdraw_def Let_def split: if_split) simp
qed

lemma outside_trivial: "outside_loop (\<lambda>w. ())"
  by (simp add: outside_loop_def)

lemma backoff_bounds:
  assumes "0 \<le> u" "u \<le> 1" "0 \<le> cfg_int cfg ''RETRY_BASE_MS''"
  shows "0 \<le> backoff_ms cfg u n"
    and "backoff_ms cfg u n \<le> fl (fl (of_int (cfg_int cfg ''RETRY_BASE_MS'')) * 2 ^ (n - 1))"
proof -
  define base where "base = fl (fl (of_int (cfg_int cfg ''RETRY_BASE_MS'')) * 2 ^ (n - 1))"
  have b: "0 \<le> base" unfolding base_def using assms(3) by (intro fl_nonneg mult_nonneg_nonneg) simp_all
  have "fl base = base" by (simp add: base_def)
  then have "fl (base * u) \<le> base"
    using fl_mono [OF mult_left_le [OF assms(2) b]] by simp
  moreover have "0 \<le> fl (base * u)" using b assms(1) by (intro fl_nonneg) simp
  ultimately show "0 \<le> backoff_ms cfg u n"
    and "backoff_ms cfg u n \<le> fl (fl (of_int (cfg_int cfg ''RETRY_BASE_MS'')) * 2 ^ (n - 1))"
    using b unfolding base_def by (simp_all add: backoff_ms_def Let_def)
qed

definition longest_pause :: "config \<Rightarrow> nat \<Rightarrow> rat" where
  "longest_pause cfg attempts = fl (fl (fl (of_int (cfg_int cfg ''RETRY_BASE_MS'')) * 2 ^ (attempts - 1)) / 1000)"

lemma pause_bounds:
  assumes "0 \<le> u" "u \<le> 1" "0 \<le> cfg_int cfg ''RETRY_BASE_MS''" "n \<le> attempts"
  shows "0 \<le> fl (backoff_ms cfg u n / 1000) \<and> fl (backoff_ms cfg u n / 1000) \<le> longest_pause cfg attempts"
proof -
  have "(2::rat) ^ (n - 1) \<le> 2 ^ (attempts - 1)" using assms(4) by (simp add: power_increasing)
  then have "fl (fl (of_int (cfg_int cfg ''RETRY_BASE_MS'')) * 2 ^ (n - 1))
      \<le> fl (fl (of_int (cfg_int cfg ''RETRY_BASE_MS'')) * 2 ^ (attempts - 1))"
    using assms(3) by (intro fl_mono mult_left_mono fl_nonneg) simp_all
  with backoff_bounds [OF assms(1-3), of n] show ?thesis
    unfolding longest_pause_def by (intro conjI fl_nonneg fl_mono divide_right_mono) linarith+
qed

text \<open>One iteration, in the order the code runs it.\<close>

lemma retry_from_step:
  assumes "outside_loop view" "1 \<le> attempt" "attempt \<le> attempts"
  obtains (denied) w1 where "1 < attempt" "withdraw cfg w = (False, w1)"
      "retry_from cfg env f rt dl attempts attempt prev w = (prev, 0, [], w1)"
      "view w1 = view w"
    | (stopped) x w2 w3 where "f attempt (of_int (outbound_timeout_ms cfg (t_out env attempt) dl)) w2 = (x, w3)"
      "count_of (w_counters w2) ''retries'' = count_of (w_counters w) ''retries'' + of_bool (1 < attempt)"
      "retry_from cfg env f rt dl attempts attempt prev w = (Some x, 1, [], if rt x then w3 else deposit cfg w3)"
      "rt x \<longrightarrow> attempt = attempts \<or> cfg_bool cfg ''PROPAGATE_DEADLINE''"
      "view w2 = view w"
    | (again) x w2 w3 r n ds w' where "f attempt (of_int (outbound_timeout_ms cfg (t_out env attempt) dl)) w2 = (x, w3)"
      "count_of (w_counters w2) ''retries'' = count_of (w_counters w) ''retries'' + of_bool (1 < attempt)"
      "rt x" "attempt < attempts" "retry_from cfg env f rt dl attempts (Suc attempt) (Some x) w3 = (r, n, ds, w')"
      "retry_from cfg env f rt dl attempts attempt prev w =
         (r, Suc n, fl (backoff_ms cfg (draw env attempt) attempt / 1000) # ds, w')"
      "view w2 = view w"
proof (cases "1 < attempt \<and> \<not> fst (withdraw cfg w)")
  case True
  then obtain w1 where "withdraw cfg w = (False, w1)" by (cases "withdraw cfg w") auto
  with True show ?thesis using assms outside_withdraw [OF assms(1), of cfg w] by (intro denied [of w1]) (simp_all add: retry_from.simps)
next
  case False
  obtain w1 where go: "(if 1 < attempt then withdraw cfg w else (True, w)) = (True, w1)"
      and w1: "count_of (w_counters w1) ''retries'' = count_of (w_counters w) ''retries''"
        "view w1 = view w"
    using False count_withdraw [of cfg w] outside_withdraw [OF assms(1), of cfg w] by (cases "1 < attempt"; cases "withdraw cfg w") simp_all
  define w2 where "w2 = (if 1 < attempt then bump ''retries'' w1 else w1)"
  obtain x w3 where f: "f attempt (of_int (outbound_timeout_ms cfg (t_out env attempt) dl)) w2 = (x, w3)"
    by (cases "f attempt (of_int (outbound_timeout_ms cfg (t_out env attempt) dl)) w2")
  have c: "count_of (w_counters w2) ''retries'' = count_of (w_counters w) ''retries'' + of_bool (1 < attempt)"
    by (simp add: w2_def w1)
  have m: "view w2 = view w" using assms(1) by (simp add: w2_def w1 outside_loop_def)
  define delay where "delay = fl (backoff_ms cfg (draw env attempt) attempt / 1000)"
  define late where "late = (case remaining_ms (t_left env attempt) dl of None \<Rightarrow> False
      | Some left \<Rightarrow> cfg_bool cfg ''PROPAGATE_DEADLINE'' \<and> left \<le> fl (delay * 1000))"
  have unf: "retry_from cfg env f rt dl attempts attempt prev w =
     (if \<not> rt x then (Some x, 1, [], deposit cfg w3)
      else if attempt = attempts \<or> late then (Some x, 1, [], w3)
      else let (r, n, ds, w4) = retry_from cfg env f rt dl attempts (Suc attempt) (Some x) w3
           in (r, Suc n, delay # ds, w4))"
    using assms(3)
    by (subst retry_from.simps, subst go)
      (simp only: Let_def prod.case w2_def [symmetric] f late_def delay_def not_less [symmetric] if_False not_True_eq_False,
       simp)
  show ?thesis
  proof (cases "rt x \<and> attempt \<noteq> attempts \<and> \<not> late")
    case True
    obtain r n ds w4 where rec: "retry_from cfg env f rt dl attempts (Suc attempt) (Some x) w3 = (r, n, ds, w4)"
      by (cases "retry_from cfg env f rt dl attempts (Suc attempt) (Some x) w3") auto
    show ?thesis using True assms(3) rec
      by (intro again [OF f c _ _ rec]) (simp_all add: unf delay_def m)
  next
    case False
    then show ?thesis by (intro stopped [OF f c]) (auto simp: unf late_def m split: option.splits)
  qed
qed

lemma retry_from_bounds:
  assumes frame: "\<And>n t w. count_of (w_counters (snd (f n t w))) ''retries'' = count_of (w_counters w) ''retries''"
    and u: "\<And>n. 0 \<le> draw env n \<and> draw env n \<le> 1" and base: "0 \<le> cfg_int cfg ''RETRY_BASE_MS''"
    and "1 \<le> attempt" "attempt \<le> attempts"
    and "retry_from cfg env f rt dl attempts attempt prev w = (r, n, ds, w')"
  shows "n \<le> Suc attempts - attempt \<and> (r = None \<longrightarrow> prev = None) \<and> (attempt = 1 \<longrightarrow> 1 \<le> n \<and> r \<noteq> None)
    \<and> count_of (w_counters w') ''retries'' = count_of (w_counters w) ''retries'' + int n - of_bool (attempt = 1)
    \<and> n \<le> Suc (length ds) \<and> length ds \<le> n \<and> (\<forall>d\<in>set ds. 0 \<le> d \<and> d \<le> longest_pause cfg attempts)
    \<and> (cfg_float cfg ''RETRY_BUDGET_PCT'' \<le> 0 \<longrightarrow> \<not> cfg_bool cfg ''PROPAGATE_DEADLINE'' \<longrightarrow>
         n = Suc attempts - attempt \<or> (\<exists>x. r = Some x \<and> \<not> rt x))"
  using assms(4-6)
proof (induction "attempts - attempt" arbitrary: attempt prev w r n ds w')
  case 0
  then have eq: "attempt = attempts" by simp
  from outside_trivial 0(2,3) show ?case
  proof (cases rule: retry_from_step [where cfg = cfg and env = env and f = f and rt = rt and dl = dl and prev = prev and w = w])
    case (denied w1)
    with 0 eq show ?thesis using count_withdraw [of cfg w] by (auto simp: withdraw_def Let_def)
  next
    case (stopped x w2 w3)
    with 0 eq frame [of attempt "of_int (outbound_timeout_ms cfg (t_out env attempt) dl)" w2] show ?thesis
      by (auto split: if_splits)
  next
    case (again x w2 w3 r n ds w')
    with eq show ?thesis by simp
  qed
next
  case (Suc k)
  from outside_trivial Suc(3,4) show ?case
  proof (cases rule: retry_from_step [where cfg = cfg and env = env and f = f and rt = rt and dl = dl and prev = prev and w = w])
    case (denied w1)
    with Suc(3-5) show ?thesis using count_withdraw [of cfg w] by (auto simp: withdraw_def Let_def)
  next
    case (stopped x w2 w3)
    with Suc(3-5) frame [of attempt "of_int (outbound_timeout_ms cfg (t_out env attempt) dl)" w2] show ?thesis
      by (auto split: if_splits)
  next
    case (again x w2 w3 r' n' ds' w4)
    have "k = attempts - Suc attempt" using Suc(2) by simp
    from Suc(1) [OF this _ _ again(5)] again(4) Suc(3-5) again(1,2,6) pause_bounds [OF conjunct1 [OF u] conjunct2 [OF u] base, of attempt attempts attempt]
      frame [of attempt "of_int (outbound_timeout_ms cfg (t_out env attempt) dl)" w2]
    show ?thesis by auto
  qed
qed

text \<open>What the calls do to the rest of the process adds up over the loop, an invariant of the calls is one of the
  loop, and a property of all answers is one of the loop's answer. With the budget off and no deadline
  propagation every attempt is made when every answer asks for one.\<close>

lemma retry_from_calls:
  fixes cost :: "'x \<Rightarrow> int"
  assumes view: "outside_loop view" and rel: "rel = (\<le>) \<or> rel = (=)"
    and step: "\<And>n t w. keep (view w) \<Longrightarrow> keep (view (snd (f n t w))) \<and> good (fst (f n t w))
                  \<and> rel (cost (view (snd (f n t w)))) (cost (view w) + c)"
    and "1 \<le> attempt" "attempt \<le> attempts" "keep (view w)" "\<forall>x. prev = Some x \<longrightarrow> good x"
    and "retry_from cfg env f rt dl attempts attempt prev w = (r, n, ds, w')"
  shows "keep (view w') \<and> (\<forall>x. r = Some x \<longrightarrow> good x) \<and> rel (cost (view w')) (cost (view w) + int n * c)
     \<and> n \<le> Suc attempts - attempt
     \<and> (cfg_float cfg ''RETRY_BUDGET_PCT'' \<le> 0 \<longrightarrow> \<not> cfg_bool cfg ''PROPAGATE_DEADLINE'' \<longrightarrow> (\<forall>x. good x \<longrightarrow> rt x)
          \<longrightarrow> n = Suc attempts - attempt)"
  using assms(4-8)
proof (induction "attempts - attempt" arbitrary: attempt prev w r n ds w' rule: less_induct)
  case less
  let ?t = "of_int (outbound_timeout_ms cfg (t_out env attempt) dl)"
  from view less(2,3) show ?case
  proof (cases rule: retry_from_step [where cfg = cfg and env = env and f = f and rt = rt and dl = dl and prev = prev and w = w])
    case (denied w1)
    with less rel have "keep (view w') \<and> (\<forall>x. r = Some x \<longrightarrow> good x) \<and> n = 0 \<and> view w' = view w" by simp
    moreover have "\<not> cfg_float cfg ''RETRY_BUDGET_PCT'' \<le> 0" using denied(2) by (auto simp: withdraw_def)
    ultimately show ?thesis using rel by auto
  next
    case (stopped x w2 w3)
    have "view w' = view w3" "r = Some x" "n = 1"
      using stopped(3) less(6) outside_deposit [OF view, of cfg w3] by (auto split: if_splits)
    with stopped step [of w2 attempt ?t] less(3,4) show ?thesis by auto
  next
    case (again x w2 w3 r' n' ds' w4)
    have s: "keep (view w3) \<and> good x \<and> rel (cost (view w3)) (cost (view w) + c)"
      using step [of w2 attempt ?t] again(1,7) less(4) by simp
    then have "keep (view w4) \<and> (\<forall>x. r' = Some x \<longrightarrow> good x) \<and> rel (cost (view w4)) (cost (view w3) + int n' * c)
       \<and> n' \<le> Suc attempts - Suc attempt \<and> (cfg_float cfg ''RETRY_BUDGET_PCT'' \<le> 0 \<longrightarrow> \<not> cfg_bool cfg ''PROPAGATE_DEADLINE''
          \<longrightarrow> (\<forall>x. good x \<longrightarrow> rt x) \<longrightarrow> n' = Suc attempts - Suc attempt)"
      using again(4,5) less(2) by (intro less(1) [OF _ _ _ _ _ again(5)]) simp_all
    moreover have "r = r'" "n = Suc n'" "w' = w4" using again(6) less(6) by simp_all
    moreover have "rel (cost (view w4)) (cost (view w) + int (Suc n') * c)"
      if "rel (cost (view w4)) (cost (view w3) + int n' * c)"
      using that s rel by (elim disjE) (simp_all add: algebra_simps)
    ultimately show ?thesis using again(4) by (intro conjI) (blast | simp | force)+
  qed
qed

text \<open>The retry loop always returns an answer. It makes at least one and at most
  \<^verbatim>\<open>max(1, RETRY_ATTEMPTS)\<close> calls, the \<^verbatim>\<open>retries\<close> counter grows by exactly the calls beyond the first,
  every pause lies between zero and the largest backoff, and with the budget off and no deadline
  propagation it stops early only on an answer that is not retryable.\<close>

theorem lab_with_retries_correct:
  assumes "\<And>n t w. count_of (w_counters (snd (attempt_fn n t w))) ''retries'' = count_of (w_counters w) ''retries''"
    and "\<And>n. 0 \<le> draw env n \<and> draw env n \<le> 1" and "0 \<le> cfg_int cfg ''RETRY_BASE_MS''"
  shows "\<exists>x calls ds w'. with_retries cfg env attempt_fn is_retryable deadline w = (Some x, calls, ds, w')
     \<and> 1 \<le> calls \<and> int calls \<le> max 1 (cfg_int cfg ''RETRY_ATTEMPTS'')
     \<and> count_of (w_counters w') ''retries'' = count_of (w_counters w) ''retries'' + int calls - 1
     \<and> (\<forall>d\<in>set ds. 0 \<le> d \<and> d \<le> longest_pause cfg (nat (max 1 (cfg_int cfg ''RETRY_ATTEMPTS''))))
     \<and> (cfg_float cfg ''RETRY_BUDGET_PCT'' \<le> 0 \<longrightarrow> \<not> cfg_bool cfg ''PROPAGATE_DEADLINE'' \<longrightarrow> is_retryable x \<longrightarrow>
          int calls = max 1 (cfg_int cfg ''RETRY_ATTEMPTS''))"
proof -
  let ?a = "nat (max 1 (cfg_int cfg ''RETRY_ATTEMPTS''))"
  obtain r n ds w' where res: "retry_from cfg env attempt_fn is_retryable deadline ?a 1 None w = (r, n, ds, w')"
    by (cases "retry_from cfg env attempt_fn is_retryable deadline ?a 1 None w") auto
  have "(1::nat) \<le> 1" "1 \<le> ?a" by linarith+
  note post = retry_from_bounds [OF assms this res]
  then obtain x where x: "r = Some x" by blast
  have n: "n \<le> ?a" using post by simp
  have "with_retries cfg env attempt_fn is_retryable deadline w = (Some x, n, ds, w')"
    using res x by (simp add: with_retries_def)
  moreover have "1 \<le> n" "count_of (w_counters w') ''retries'' = count_of (w_counters w) ''retries'' + int n - 1"
      "\<forall>d\<in>set ds. 0 \<le> d \<and> d \<le> longest_pause cfg ?a"
    using post by simp_all
  moreover have "int n \<le> max 1 (cfg_int cfg ''RETRY_ATTEMPTS'')" using n by linarith
  moreover have "int n = max 1 (cfg_int cfg ''RETRY_ATTEMPTS'')"
    if "cfg_float cfg ''RETRY_BUDGET_PCT'' \<le> 0" "\<not> cfg_bool cfg ''PROPAGATE_DEADLINE''" "is_retryable x"
  proof -
    have "n = ?a" using post that x by simp
    then show ?thesis by linarith
  qed
  ultimately show ?thesis by blast
qed

definition always_503 :: "nat \<Rightarrow> rat \<Rightarrow> retry_world \<Rightarrow> int \<times> retry_world" where
  "always_503 n t w = (503, bump ''timeouts'' w)"

theorem lab_with_retries_correct_witness:
  "fst (with_retries sample_config \<lparr>t_out = \<lambda>_. 0, t_left = \<lambda>_. 0, draw = \<lambda>_. 1 / 2\<rparr> always_503 (\<lambda>s. s \<ge> 500) None world0) = Some 503
   \<and> (\<exists>x calls ds w'. with_retries sample_config \<lparr>t_out = \<lambda>_. 0, t_left = \<lambda>_. 0, draw = \<lambda>_. 1 / 2\<rparr> always_503 (\<lambda>s. s \<ge> 500) None world0 = (Some x, calls, ds, w')
        \<and> 1 \<le> calls \<and> int calls \<le> max 1 (cfg_int sample_config ''RETRY_ATTEMPTS'')
        \<and> count_of (w_counters w') ''retries'' = count_of (w_counters world0) ''retries'' + int calls - 1)"
proof -
  have 1: "count_of (w_counters (snd (always_503 n t w))) ''retries'' = count_of (w_counters w) ''retries''" for n t w
    by (simp add: always_503_def)
  have 2: "0 \<le> draw \<lparr>t_out = \<lambda>_. 0, t_left = \<lambda>_. 0, draw = \<lambda>_. 1 / 2\<rparr> n \<and> draw \<lparr>t_out = \<lambda>_. 0, t_left = \<lambda>_. 0, draw = \<lambda>_. 1 / 2\<rparr> n \<le> 1" for n
    by simp
  have 3: "0 \<le> cfg_int sample_config ''RETRY_BASE_MS''" by code_simp
  have 4: "fst (with_retries sample_config \<lparr>t_out = \<lambda>_. 0, t_left = \<lambda>_. 0, draw = \<lambda>_. 1 / 2\<rparr> always_503 (\<lambda>s. s \<ge> 500) None world0) = Some 503"
    by code_simp
  show ?thesis
    using 4 lab_with_retries_correct [where attempt_fn = always_503, OF 1 2 3, of "\<lambda>s. s \<ge> 500" None world0] by blast
qed

end
