(* ===== verification/Lab_Shed.thy ===== *)
theory Lab_Shed
  imports Lab_Metrics
begin

text \<open>
  \<^verbatim>\<open>05-failure/lab/app/shed.py\<close>: the gradient controller and the admission controller of the failure
  lab. \<^verbatim>\<open>acquire\<close> suspends on an \<^verbatim>\<open>asyncio.Condition\<close>; the model cuts it at its awaits, keeps the queue of
  waiters and the tasks a \<^verbatim>\<open>notify\<close> has woken, and lets the event loop choose the next section to run.
  Not modelled: a change of the configuration during a run, and a waiter whose wait times out in the very moment it is
  woken, which then passes the notification on.
  \<open>rt\<close> is the C library's square root behind \<^verbatim>\<open>limit ** 0.5\<close>.
\<close>

subsection \<open>The gradient controller\<close>

record gradient_limit =
  g_limit :: rat
  min_limit :: rat
  max_limit :: rat
  rtt_noload :: "rat option"
  smoothing :: rat
  samples :: nat

definition new_gradient :: "rat \<Rightarrow> gradient_limit" where
  "new_gradient initial = \<lparr>g_limit = initial, min_limit = 1, max_limit = 400, rtt_noload = None,
     smoothing = fl (2 / 10), samples = 0\<rparr>"

definition noload_after :: "rat option \<Rightarrow> rat \<Rightarrow> rat" where
  "noload_after old rtt = (case old of None \<Rightarrow> rtt | Some r \<Rightarrow> if rtt < r then rtt else r)"

definition gradient_observe :: "(rat \<Rightarrow> rat) \<Rightarrow> rat \<Rightarrow> gradient_limit \<Rightarrow> gradient_limit" where
  "gradient_observe rt rtt_s g =
     (if rtt_s \<le> 0 then g
      else let n = Suc (samples g);
               base = noload_after (rtt_noload g) rtt_s;
               noload = (if base = 0 then rtt_s else base);
               gradient = max (1 / 2) (min 1 (fl (noload / rtt_s)));
               queue = rt (g_limit g);
               new_limit = fl (fl (g_limit g * gradient) + queue);
               lmt = max (min_limit g) (min (max_limit g)
                       (fl (fl (fl (1 - smoothing g) * g_limit g) + fl (smoothing g * new_limit))))
           in g\<lparr>samples := n, g_limit := lmt,
                rtt_noload := Some (if n mod 1000 = 0 then fl (base * fl (101 / 100)) else base)\<rparr>)"

definition gradient_current :: "gradient_limit \<Rightarrow> int" where
  "gradient_current g = max 1 (py_trunc (g_limit g))"

subsection \<open>The admission controller\<close>

record shedder =
  inflight :: int
  gradient :: gradient_limit

definition new_shedder :: shedder where
  "new_shedder = \<lparr>inflight = 0, gradient = new_gradient 10\<rparr>"

definition pool_total :: "config \<Rightarrow> int" where
  "pool_total cfg = cfg_int cfg ''POOL_SIZE'' + cfg_int cfg ''MAX_OVERFLOW''"

definition shed_limit :: "config \<Rightarrow> shedder \<Rightarrow> int option" where
  "shed_limit cfg s =
     (let mode = cfg_str cfg ''SHED_MODE'' in
      if mode = ''none'' then None
      else if mode = ''adaptive'' then Some (gradient_current (gradient s))
      else case cfg_opt_int cfg ''SHED_LIMIT'' of None \<Rightarrow> Some (pool_total cfg) | Some k \<Rightarrow> Some k)"

definition TIER_FRACTION :: "rat list" where
  "TIER_FRACTION = [1, 3 / 4, 1 / 2, 1 / 4]"

definition tier_fraction :: "int \<Rightarrow> rat" where
  "tier_fraction tier = TIER_FRACTION ! nat (min (max tier 0) (int (length TIER_FRACTION) - 1))"

definition allowance :: "config \<Rightarrow> shedder \<Rightarrow> int \<Rightarrow> int option" where
  "allowance cfg s tier =
     (case shed_limit cfg s of None \<Rightarrow> None
      | Some lmt \<Rightarrow> if cfg_str cfg ''SHED_MODE'' = ''priority''
                    then Some (max 1 (py_trunc (fl (of_int lmt * tier_fraction tier)))) else Some lmt)"

datatype verdict = Admitted | Refused | Waits

text \<open>The loop test of \<^verbatim>\<open>acquire\<close> up to its next await; \<open>expired\<close> says whether \<^verbatim>\<open>SHED_WAIT_MS\<close> has passed.\<close>

definition acquire_check :: "config \<Rightarrow> int \<Rightarrow> bool \<Rightarrow> shedder \<times> counters \<Rightarrow> verdict \<times> shedder \<times> counters" where
  "acquire_check cfg tier expired sc =
     (let (s, c) = sc in
      if (case allowance cfg s tier of None \<Rightarrow> False | Some a \<Rightarrow> a \<le> inflight s)
      then (if expired then (Refused, s, inc ''shed'' c) else (Waits, s, c))
      else (Admitted, s\<lparr>inflight := inflight s + 1\<rparr>, c))"

definition release :: "(rat \<Rightarrow> rat) \<Rightarrow> config \<Rightarrow> rat option \<Rightarrow> shedder \<Rightarrow> shedder" where
  "release rt cfg rtt s =
     (let s1 = (case rtt of None \<Rightarrow> s
                | Some r \<Rightarrow> if cfg_str cfg ''SHED_MODE'' = ''adaptive''
                            then s\<lparr>gradient := gradient_observe rt r (gradient s)\<rparr> else s)
      in s1\<lparr>inflight := max 0 (inflight s1 - 1)\<rparr>)"

text \<open>The fields \<^verbatim>\<open>snapshot\<close> reports besides the mode string.\<close>

definition shedder_snapshot :: "config \<Rightarrow> shedder \<Rightarrow> string \<times> int \<times> int option \<times> int \<times> rat" where
  "shedder_snapshot cfg s = (cfg_str cfg ''SHED_MODE'', inflight s, shed_limit cfg s, gradient_current (gradient s),
     py_round 2 (fl ((case rtt_noload (gradient s) of None \<Rightarrow> 0 | Some r \<Rightarrow> r) * 1000)))"

subsection \<open>The event loop around it\<close>

record shed_sys =
  sh :: shedder
  sc :: counters
  queue :: "(nat \<times> int) list"
  woken :: "(nat \<times> int) list"
  admitted :: "(nat \<times> int) list"

datatype shed_event =
    Arrive nat int
  | Time_out nat int
  | Resume nat int bool
  | Release nat int "rat option"

definition settle :: "nat \<times> int \<Rightarrow> verdict \<times> shedder \<times> counters \<Rightarrow> shed_sys \<Rightarrow> shed_sys" where
  "settle req out y =
     (let (v, s, c) = out; y' = y\<lparr>sh := s, sc := c\<rparr> in
      case v of Admitted \<Rightarrow> y'\<lparr>admitted := req # admitted y\<rparr>
        | Refused \<Rightarrow> y'
        | Waits \<Rightarrow> y'\<lparr>queue := queue y @ [req]\<rparr>)"

definition notify :: "shed_sys \<Rightarrow> shed_sys" where
  "notify y = (case queue y of [] \<Rightarrow> y | r # rest \<Rightarrow> y\<lparr>queue := rest, woken := woken y @ [r]\<rparr>)"

fun shed_apply :: "(rat \<Rightarrow> rat) \<Rightarrow> config \<Rightarrow> shed_event \<Rightarrow> shed_sys \<Rightarrow> shed_sys option" where
  "shed_apply rt cfg (Arrive i tier) y =
     Some (settle (i, tier) (acquire_check cfg tier (cfg_int cfg ''SHED_WAIT_MS'' \<le> 0) (sh y, sc y)) y)"
| "shed_apply rt cfg (Time_out i tier) y =
     (if (i, tier) \<in> set (queue y)
      then Some (y\<lparr>queue := remove1 (i, tier) (queue y), sc := inc ''shed'' (sc y)\<rparr>) else None)"
| "shed_apply rt cfg (Resume i tier expired) y =
     (if (i, tier) \<in> set (woken y)
      then Some (settle (i, tier) (acquire_check cfg tier expired (sh y, sc y)) (y\<lparr>woken := remove1 (i, tier) (woken y)\<rparr>))
      else None)"
| "shed_apply rt cfg (Release i tier rtt) y =
     (if (i, tier) \<in> set (admitted y)
      then Some (notify (y\<lparr>sh := release rt cfg rtt (sh y), admitted := remove1 (i, tier) (admitted y)\<rparr>)) else None)"

fun shed_run :: "(rat \<Rightarrow> rat) \<Rightarrow> config \<Rightarrow> shed_event list \<Rightarrow> shed_sys \<Rightarrow> shed_sys option" where
  "shed_run rt cfg [] y = Some y"
| "shed_run rt cfg (e # es) y = (case shed_apply rt cfg e y of None \<Rightarrow> None | Some y' \<Rightarrow> shed_run rt cfg es y')"

definition shed_start :: "shed_sys" where
  "shed_start = \<lparr>sh = new_shedder, sc = new_counters 0, queue = [], woken = [], admitted = []\<rparr>"

inductive shed_reachable :: "(rat \<Rightarrow> rat) \<Rightarrow> config \<Rightarrow> shed_sys \<Rightarrow> bool" for rt cfg where
  init: "shed_reachable rt cfg shed_start"
| step: "shed_reachable rt cfg y \<Longrightarrow> shed_apply rt cfg e y = Some y' \<Longrightarrow> shed_reachable rt cfg y'"

lemma shed_run_reachable:
  "shed_reachable rt cfg y \<Longrightarrow> shed_run rt cfg es y = Some y' \<Longrightarrow> shed_reachable rt cfg y'"
  by (induction es arbitrary: y) (auto split: option.splits intro: shed_reachable.step)

subsection \<open>The gradient controller keeps its limit in range\<close>

definition wf_gradient :: "gradient_limit \<Rightarrow> bool" where
  "wf_gradient g \<longleftrightarrow> min_limit g = 1 \<and> max_limit g = 400 \<and> 1 \<le> g_limit g \<and> g_limit g \<le> 400
     \<and> (\<forall>r. rtt_noload g = Some r \<longrightarrow> 0 \<le> r)"

lemma wf_new_gradient: "wf_gradient (new_gradient 10)"
  by (simp add: wf_gradient_def new_gradient_def)

lemma wf_gradient_observe: "wf_gradient g \<Longrightarrow> wf_gradient (gradient_observe rt r g)"
proof (cases "r \<le> 0")
  case False
  assume wf: "wf_gradient g"
  have base: "0 \<le> noload_after (rtt_noload g) r"
    using wf False by (auto simp: wf_gradient_def noload_after_def split: option.split)
  then have "0 \<le> fl (noload_after (rtt_noload g) r * fl (101 / 100))"
    by (intro fl_nonneg mult_nonneg_nonneg) simp_all
  with False wf base show ?thesis by (simp add: wf_gradient_def gradient_observe_def Let_def)
qed (simp add: gradient_observe_def)

lemma gradient_current_range: "wf_gradient g \<Longrightarrow> 1 \<le> gradient_current g \<and> gradient_current g \<le> 400"
  using py_trunc_le [of "g_limit g" 400] by (simp add: wf_gradient_def gradient_current_def)

subsection \<open>Allowances\<close>

lemma tier_fraction_anti: "t \<le> t' \<Longrightarrow> tier_fraction t' \<le> tier_fraction t"
proof -
  have eq: "tier_fraction t = (if t \<le> 0 then 1 else if t = 1 then 3 / 4 else if t = 2 then 1 / 2 else 1 / 4)" for t
  proof -
    consider "t \<le> 0" | "t = 1" | "t = 2" | "3 \<le> t" by linarith
    then show ?thesis by cases (simp_all add: tier_fraction_def TIER_FRACTION_def)
  qed
  show "t \<le> t' \<Longrightarrow> tier_fraction t' \<le> tier_fraction t" by (auto simp: eq)
qed

lemma tier_fraction_pos: "0 \<le> tier_fraction t"
proof -
  have "tier_fraction (max t 3) \<le> tier_fraction t" by (rule tier_fraction_anti) simp
  moreover have "tier_fraction (max t 3) = 1 / 4" by (simp add: tier_fraction_def TIER_FRACTION_def)
  ultimately show ?thesis by linarith
qed

lemma allowance_anti:
  assumes "t \<le> t'" "allowance cfg s t = Some a" "allowance cfg s t' = Some a'"
  shows "a' \<le> a"
proof (cases "cfg_str cfg ''SHED_MODE'' = ''priority''")
  case False
  with assms show ?thesis by (auto simp: allowance_def split: option.splits)
next
  case True
  then obtain lmt where a: "a = max 1 (py_trunc (fl (of_int lmt * tier_fraction t)))"
      "a' = max 1 (py_trunc (fl (of_int lmt * tier_fraction t')))"
    using assms(2,3) by (auto simp: allowance_def split: option.splits)
  show ?thesis
  proof (cases "0 \<le> lmt")
    case True
    then have "fl (of_int lmt * tier_fraction t') \<le> fl (of_int lmt * tier_fraction t)"
      by (intro fl_mono mult_left_mono tier_fraction_anti assms(1)) simp
    from py_trunc_mono [OF this] show ?thesis unfolding a by (rule max.mono [OF order_refl])
  next
    case False
    then have "of_int lmt * tier_fraction t' \<le> 0"
      by (intro mult_nonpos_nonneg tier_fraction_pos) simp
    then have "fl (of_int lmt * tier_fraction t') \<le> of_int 0" by (simp add: dbl.rnd_le [OF is_double_int [of 0, simplified]])
    from py_trunc_le [OF this] show ?thesis by (simp add: a)
  qed
qed

subsection \<open>Admission never overshoots an allowance\<close>

definition holders :: "int \<Rightarrow> shed_sys \<Rightarrow> int" where
  "holders t y = int (length (filter (\<lambda>r. t \<le> snd r) (admitted y)))"

definition fixed_limit :: "config \<Rightarrow> bool" where
  "fixed_limit cfg \<longleftrightarrow> cfg_str cfg ''SHED_MODE'' \<in> {''static'', ''priority''}"

lemma fixed_allowance:
  assumes "fixed_limit cfg"
  shows "\<exists>a. allowance cfg s t = Some a \<and> allowance cfg s' t = Some a"
  using assms by (auto simp: fixed_limit_def allowance_def shed_limit_def Let_def split: option.split)

definition shed_inv :: "config \<Rightarrow> shed_sys \<Rightarrow> bool" where
  "shed_inv cfg y \<longleftrightarrow> wf_gradient (gradient (sh y)) \<and> inflight (sh y) = int (length (admitted y))
     \<and> (\<forall>t a. allowance cfg new_shedder t = Some a \<longrightarrow> fixed_limit cfg \<longrightarrow> holders t y \<le> max 0 a)"

lemma release_gradient: "wf_gradient (gradient s) \<Longrightarrow> wf_gradient (gradient (release rt cfg rtt s))"
  by (simp add: release_def Let_def wf_gradient_observe split: option.split)

lemma release_inflight: "inflight (release rt cfg rtt s) = max 0 (inflight s - 1)"
  by (simp add: release_def Let_def split: option.split)

lemma acquire_check_cases:
  assumes "acquire_check cfg tier e (s, c) = (v, s', c')"
  shows "(v = Admitted \<and> s' = s\<lparr>inflight := inflight s + 1\<rparr> \<and> c' = c \<and> (\<forall>a. allowance cfg s tier = Some a \<longrightarrow> inflight s < a))
       \<or> (v = Refused \<and> e \<and> s' = s \<and> c' = inc ''shed'' c \<and> (\<exists>a. allowance cfg s tier = Some a \<and> a \<le> inflight s))
       \<or> (v = Waits \<and> \<not> e \<and> s' = s \<and> c' = c \<and> (\<exists>a. allowance cfg s tier = Some a \<and> a \<le> inflight s))"
  using assms by (auto simp: acquire_check_def split: if_splits option.splits)

lemma settle_inv:
  assumes inv: "shed_inv cfg y"
  shows "shed_inv cfg (settle (i, tier) (acquire_check cfg tier e (sh y, sc y)) y)"
proof -
  obtain v s' c' where ac: "acquire_check cfg tier e (sh y, sc y) = (v, s', c')"
    by (cases "acquire_check cfg tier e (sh y, sc y)") auto
  from acquire_check_cases [OF ac] show ?thesis unfolding ac
  proof (elim disjE conjE)
    assume v: "v = Admitted" "s' = (sh y)\<lparr>inflight := inflight (sh y) + 1\<rparr>" "c' = sc y"
      and room: "\<forall>a. allowance cfg (sh y) tier = Some a \<longrightarrow> inflight (sh y) < a"
    have "holders t (y\<lparr>admitted := (i, tier) # admitted y\<rparr>) \<le> max 0 a"
      if t: "allowance cfg new_shedder t = Some a" and f: "fixed_limit cfg" for t a
    proof (cases "t \<le> tier")
      case True
      obtain a' where a': "allowance cfg new_shedder tier = Some a'" "allowance cfg (sh y) tier = Some a'"
        using fixed_allowance [OF f] by blast
      have "holders t (y\<lparr>admitted := (i, tier) # admitted y\<rparr>) \<le> int (length (admitted y)) + 1"
        by (simp add: holders_def True)
      also have "\<dots> \<le> a'" using inv room a'(2) by (simp add: shed_inv_def)
      also have "\<dots> \<le> a" by (rule allowance_anti [OF True t a'(1)])
      finally show ?thesis by simp
    next
      case False
      then show ?thesis using inv t f by (simp add: shed_inv_def holders_def)
    qed
    then show "shed_inv cfg (settle (i, tier) (v, s', c') y)"
      using inv v by (simp add: settle_def shed_inv_def holders_def)
  qed (use inv in \<open>simp_all add: settle_def shed_inv_def holders_def\<close>)
qed

lemma shed_inv_cong:
  "sh y' = sh y \<Longrightarrow> admitted y' = admitted y \<Longrightarrow> shed_inv cfg y' = shed_inv cfg y"
  by (simp add: shed_inv_def holders_def)

lemma shed_apply_inv: "shed_apply rt cfg e y = Some y' \<Longrightarrow> shed_inv cfg y \<Longrightarrow> shed_inv cfg y'"
proof (cases e)
  case (Arrive i tier)
  assume "shed_apply rt cfg e y = Some y'" "shed_inv cfg y"
  then show ?thesis using Arrive settle_inv by auto
next
  case (Time_out i tier)
  assume "shed_apply rt cfg e y = Some y'" "shed_inv cfg y"
  then show ?thesis using Time_out by (auto simp: shed_inv_def holders_def split: if_splits)
next
  case (Resume i tier expired)
  assume a: "shed_apply rt cfg e y = Some y'" "shed_inv cfg y"
  have "shed_inv cfg (y\<lparr>woken := remove1 (i, tier) (woken y)\<rparr>)" using a(2) by (simp add: shed_inv_def holders_def)
  from settle_inv [OF this, of i tier expired] show ?thesis using a(1) Resume by (auto split: if_splits)
next
  case (Release i tier rtt)
  assume a: "shed_apply rt cfg e y = Some y'" "shed_inv cfg y"
  define z where "z = y\<lparr>sh := release rt cfg rtt (sh y), admitted := remove1 (i, tier) (admitted y)\<rparr>"
  from a Release have mem: "(i, tier) \<in> set (admitted y)" and y': "y' = notify z"
    by (auto simp: z_def split: if_splits)
  have "length (admitted y) = Suc (length (admitted z))"
    using mem length_pos_if_in_set [OF mem] by (simp add: z_def length_remove1)
  then have len: "int (length (admitted z)) = int (length (admitted y)) - 1" "0 < length (admitted y)" by simp_all
  have z_sh: "sh z = release rt cfg rtt (sh y)" by (simp add: z_def)
  have le: "holders t z \<le> holders t y" for t
    by (simp add: z_def holders_def filter_remove1 length_remove1)
  have "shed_inv cfg z"
    using a(2) len order_trans [OF le]
    by (auto simp: shed_inv_def release_gradient release_inflight [of rt cfg rtt "sh y"] z_sh)
  moreover have "sh y' = sh z" "admitted y' = admitted z" by (simp_all add: y' notify_def split: list.split)
  ultimately show ?thesis using shed_inv_cong by blast
qed

lemma shed_inv_reachable: "shed_reachable rt cfg y \<Longrightarrow> shed_inv cfg y"
proof (induction rule: shed_reachable.induct)
  case init
  then show ?case by (simp add: shed_inv_def shed_start_def new_shedder_def wf_new_gradient holders_def)
qed (rule shed_apply_inv)

text \<open>C31. Admission control holds in every interleaving of arrivals, waits, wake-ups, time-outs and
  releases: the in-flight gauge equals the number of requests that were admitted and not yet
  released, the adaptive limit stays between 1 and 400 whatever the latencies are, and under a static
  or priority limit the requests of tier \<open>t\<close> and below never hold more than tier \<open>t\<close>'s allowance, so
  cheap traffic cannot use the share that is kept for more important tiers.\<close>

theorem shed_admission_invariant:
  assumes "shed_reachable rt cfg y"
  shows "inflight (sh y) = int (length (admitted y))
       \<and> 1 \<le> gradient_current (gradient (sh y)) \<and> gradient_current (gradient (sh y)) \<le> 400
       \<and> (fixed_limit cfg \<longrightarrow> (\<forall>t. \<exists>a. allowance cfg (sh y) t = Some a \<and> holders t y \<le> max 0 a))"
proof -
  note inv = shed_inv_reachable [OF assms]
  have "\<exists>a. allowance cfg (sh y) t = Some a \<and> holders t y \<le> max 0 a" if "fixed_limit cfg" for t
    using fixed_allowance [OF that, of "sh y" t new_shedder] inv that by (auto simp: shed_inv_def)
  with inv gradient_current_range show ?thesis by (auto simp: shed_inv_def)
qed

definition priority_config :: config where
  "priority_config = sample_config(''SHED_MODE'' \<mapsto> VStr ''priority'', ''SHED_LIMIT'' \<mapsto> VOptInt (Some 4))"

definition busy :: shed_sys where
  "busy = the (shed_run (\<lambda>x. x) priority_config
     [Arrive 1 0, Arrive 2 0, Arrive 3 0, Arrive 4 0, Arrive 5 3, Arrive 6 0] shed_start)"

lemma busy_reachable: "shed_reachable (\<lambda>x. x) priority_config busy"
proof -
  let ?es = "[Arrive 1 0, Arrive 2 0, Arrive 3 0, Arrive 4 0, Arrive 5 3, Arrive 6 0]"
  have "\<exists>y. shed_run (\<lambda>x. x) priority_config ?es shed_start = Some y" by simp
  then obtain y where y: "shed_run (\<lambda>x. x) priority_config ?es shed_start = Some y" ..
  from shed_run_reachable [OF shed_reachable.init y] show ?thesis unfolding busy_def y by simp
qed

theorem shed_admission_invariant_witness:
  "admitted busy = [(4, 0), (3, 0), (2, 0), (1, 0)] \<and> queue busy = [(5, 3), (6, 0)]
   \<and> inflight (sh busy) = int (length (admitted busy)) \<and> fixed_limit priority_config
   \<and> (\<exists>a. allowance priority_config (sh busy) 3 = Some a \<and> holders 3 busy \<le> max 0 a)"
proof -
  have "admitted busy = [(4, 0), (3, 0), (2, 0), (1, 0)]" "queue busy = [(5, 3), (6, 0)]" "fixed_limit priority_config"
    unfolding fixed_limit_def by code_simp+
  with shed_admission_invariant [OF busy_reachable] show ?thesis by blast
qed

text \<open>A wake-up can be lost under priority shedding. \<^verbatim>\<open>release\<close> notifies one waiter, the oldest;
  when that is a request of a lower tier whose allowance is still exceeded, it goes back to waiting
  and nobody else is woken. In the run below (limit 4, four tier-0 requests in flight, a tier-3 and
  then a tier-0 request waiting) one request finishes; afterwards a slot is free for tier 0, no task
  is runnable, and the waiting tier-0 request is shed when its wait times out.\<close>

theorem priority_lost_wakeup:
  "\<exists>y y'. shed_run rt priority_config
       [Arrive 1 0, Arrive 2 0, Arrive 3 0, Arrive 4 0, Arrive 5 3, Arrive 6 0, Release 1 0 None, Resume 5 3 False]
       shed_start = Some y
     \<and> woken y = [] \<and> queue y = [(6, 0), (5, 3)]
     \<and> inflight (sh y) = 3 \<and> allowance priority_config (sh y) 0 = Some 4
     \<and> shed_apply rt priority_config (Time_out 6 0) y = Some y'
     \<and> count_of (sc y') ''shed'' = count_of (sc y) ''shed'' + 1"
proof -
  let ?r = "shed_run rt priority_config
       [Arrive 1 0, Arrive 2 0, Arrive 3 0, Arrive 4 0, Arrive 5 3, Arrive 6 0, Release 1 0 None, Resume 5 3 False] shed_start"
  have al: "allowance priority_config s t = Some (if t = 3 then 1 else 4)" if "t = 0 \<or> t = 3" for s t
  proof -
    have "allowance priority_config s t = Some (max 1 (py_trunc (fl (of_int 4 * tier_fraction t))))"
      by (simp add: allowance_def shed_limit_def priority_config_def cfg_str_def cfg_opt_int_def)
    moreover have "max 1 (py_trunc (fl (of_int 4 * tier_fraction 0))) = 4" "max 1 (py_trunc (fl (of_int 4 * tier_fraction 3))) = 1"
      by code_simp+
    ultimately show ?thesis using that by auto
  qed
  have w: "\<not> cfg_int priority_config ''SHED_WAIT_MS'' \<le> 0" by code_simp
  define y where "y = \<lparr>sh = new_shedder\<lparr>inflight := 3\<rparr>, sc = new_counters 0, queue = [(6, 0), (5, 3)], woken = [],
      admitted = [(4, 0), (3, 0), (2::nat, 0::int)]\<rparr>"
  have "?r = Some y"
    by (simp add: acquire_check_def al w settle_def notify_def release_def shed_start_def new_shedder_def y_def)
  then show ?thesis by (simp add: y_def al)
qed

end
