(* ===== verification/Lab_Backends.thy ===== *)
theory Lab_Backends
  imports Lab_Deadline Lab_Shed
begin

text \<open>
  What a request of the failure lab touches behind its handler: the injected faults of
  \<^verbatim>\<open>05-failure/lab/app/faults.py\<close>, the Redis cache of \<^verbatim>\<open>cache.py\<close> and the pooled database work of
  \<^verbatim>\<open>db.py\<close>. The drivers are third-party code: what Redis or Postgres answers to one call is an
  argument of the operation that makes it.
\<close>

subsection \<open>Injected faults\<close>

record faults =
  error_pct :: rat
  latency_ms :: rat
  drop_pct :: rat

definition no_faults :: faults where
  "no_faults = \<lparr>error_pct = 0, latency_ms = 0, drop_pct = 0\<rparr>"

fun json_float :: "json \<Rightarrow> rat py" where
  "json_float (JInt k) = Inr (fl (of_int k))"
| "json_float (JBool b) = Inr (if b then 1 else 0)"
| "json_float (JFloat x) = Inr x"
| "json_float (JStr s) = py_float s"
| "json_float JNull = Inl (TypeError ''float() argument'')"
| "json_float (JObj kvs) = Inl (TypeError ''float() argument'')"

definition clamp_pct :: "rat \<Rightarrow> rat" where
  "clamp_pct x = max 0 (min 100 x)"

text \<open>\<^verbatim>\<open>apply\<close> assigns field after field: a value that does not convert raises with the earlier
  fields already assigned.\<close>

definition set_field :: "(string \<times> json) list \<Rightarrow> string \<Rightarrow> (rat \<Rightarrow> faults \<Rightarrow> faults) \<Rightarrow> faults \<Rightarrow> py_error option \<times> faults" where
  "set_field patch k upd f = (case map_of patch k of None \<Rightarrow> (None, f)
     | Some v \<Rightarrow> (case json_float v of Inl e \<Rightarrow> (Some e, f) | Inr x \<Rightarrow> (None, upd x f)))"

definition faults_apply :: "(string \<times> json) list \<Rightarrow> faults \<Rightarrow> py_error option \<times> faults" where
  "faults_apply patch f =
     (let (e1, f1) = set_field patch ''error_pct'' (\<lambda>x f. f\<lparr>error_pct := clamp_pct x\<rparr>) f in
      if e1 \<noteq> None then (e1, f1)
      else let (e2, f2) = set_field patch ''latency_ms'' (\<lambda>x f. f\<lparr>latency_ms := max 0 x\<rparr>) f1 in
        if e2 \<noteq> None then (e2, f2)
        else set_field patch ''drop_pct'' (\<lambda>x f. f\<lparr>drop_pct := clamp_pct x\<rparr>) f2)"

definition should_error :: "rat \<Rightarrow> faults \<Rightarrow> bool" where
  "should_error u f \<longleftrightarrow> 0 < error_pct f \<and> fl (u * 100) < error_pct f"

definition should_drop :: "rat \<Rightarrow> faults \<Rightarrow> bool" where
  "should_drop u f \<longleftrightarrow> 0 < drop_pct f \<and> fl (u * 100) < drop_pct f"

definition fault_delay :: "faults \<Rightarrow> rat" where
  "fault_delay f = (if 0 < latency_ms f then fl (latency_ms f / 1000) else 0)"

definition wf_faults :: "faults \<Rightarrow> bool" where
  "wf_faults f \<longleftrightarrow> 0 \<le> error_pct f \<and> error_pct f \<le> 100 \<and> 0 \<le> latency_ms f \<and> 0 \<le> drop_pct f \<and> drop_pct f \<le> 100"

lemma faults_apply_wf: "wf_faults f \<Longrightarrow> wf_faults (snd (faults_apply patch f))"
  by (auto simp: wf_faults_def faults_apply_def set_field_def clamp_pct_def Let_def split: option.splits sum.splits)

lemma no_error_when_off: "error_pct f = 0 \<Longrightarrow> \<not> should_error u f"
  by (simp add: should_error_def)

subsection \<open>The cache\<close>

text \<open>One Redis call: an exception, or the value it returned.\<close>

datatype 'a driver = Fails string string | Returns 'a

definition cache_get :: "string option driver \<Rightarrow> counters \<Rightarrow> string option \<times> counters" where
  "cache_get answer c = (case answer of
      Fails _ _ \<Rightarrow> (None, inc ''cache_misses'' c)
    | Returns None \<Rightarrow> (None, inc ''cache_misses'' c)
    | Returns (Some v) \<Rightarrow> (Some v, inc ''cache_hits'' c))"

text \<open>\<^verbatim>\<open>setex\<close> swallows every failure; the entry written, if any, carries \<^verbatim>\<open>CACHE_TTL_S\<close>.\<close>

definition cache_setex :: "config \<Rightarrow> unit driver \<Rightarrow> string \<Rightarrow> string \<Rightarrow> (string \<times> string \<times> int) option" where
  "cache_setex cfg answer k v = (case answer of Fails _ _ \<Rightarrow> None | Returns _ \<Rightarrow> Some (k, v, cfg_int cfg ''CACHE_TTL_S''))"

definition cache_ping :: "unit driver \<Rightarrow> bool" where
  "cache_ping answer = (case answer of Fails _ _ \<Rightarrow> False | Returns _ \<Rightarrow> True)"

definition hit_rate :: "counters \<Rightarrow> rat" where
  "hit_rate c = (let hits = count_of c ''cache_hits''; total = hits + count_of c ''cache_misses'' in
     if total \<noteq> 0 then fl (fl (of_int hits / of_int total) * 100) else 0)"

definition now_value :: "string \<Rightarrow> rat \<Rightarrow> string" where
  "now_value k t = k @ ''@'' @ py_fixed 3 t"

lemma cache_get_counts:
  "count_of (snd (cache_get a c)) ''cache_hits'' + count_of (snd (cache_get a c)) ''cache_misses''
     = count_of c ''cache_hits'' + count_of c ''cache_misses'' + 1"
  by (simp add: cache_get_def split: driver.split option.split)

lemma hit_rate_range:
  assumes "0 \<le> count_of c ''cache_hits''" "0 \<le> count_of c ''cache_misses''"
  shows "0 \<le> hit_rate c \<and> hit_rate c \<le> 100"
proof -
  let ?h = "count_of c ''cache_hits''" and ?t = "count_of c ''cache_hits'' + count_of c ''cache_misses''"
  have one: "fl (of_int ?h / of_int ?t) \<le> 1" if "?t \<noteq> 0"
    using that assms is_double_int [of 1] by (intro dbl.rnd_le) (simp_all add: divide_le_eq_1)
  have "0 \<le> fl (of_int ?h / of_int ?t)" using assms by (intro fl_nonneg) simp
  moreover have "fl (fl (of_int ?h / of_int ?t) * 100) \<le> 100" if "?t \<noteq> 0"
    using one [OF that] is_double_int [of 100] by (intro dbl.rnd_le) simp_all
  ultimately show ?thesis by (auto simp: hit_rate_def Let_def intro: fl_nonneg)
qed

subsection \<open>The database\<close>

text \<open>\<^verbatim>\<open>str.replace(old, new, 1)\<close>: the first occurrence, if there is one.\<close>

fun replace_first :: "string \<Rightarrow> string \<Rightarrow> string \<Rightarrow> string" where
  "replace_first old new [] = (if old = [] then new else [])"
| "replace_first old new (c # cs) =
     (if take (length old) (c # cs) = old then new @ drop (length old) (c # cs) else c # replace_first old new cs)"

definition dsn :: "config \<Rightarrow> string" where
  "dsn cfg =
     (let url = cfg_str cfg ''DATABASE_URL'' in
      if url \<noteq> [] then replace_first ''postgres://'' ''postgresql+asyncpg://''
                         (replace_first ''postgresql://'' ''postgresql+asyncpg://'' url)
      else ''postgresql+asyncpg://'' @ cfg_str cfg ''PGUSER'' @ '':'' @ cfg_str cfg ''PGPASSWORD''
           @ ''@'' @ cfg_str cfg ''PGHOST'' @ '':'' @ py_str_int (cfg_int cfg ''PGPORT'') @ ''/'' @ cfg_str cfg ''PGDATABASE'')"

text \<open>The engine cache: an engine is identified by the pool configuration it was built for.\<close>

type_synonym engine_key = "string \<times> int \<times> int \<times> rat"

definition engine_key :: "config \<Rightarrow> engine_key" where
  "engine_key cfg = (dsn cfg, cfg_int cfg ''POOL_SIZE'', cfg_int cfg ''MAX_OVERFLOW'', cfg_float cfg ''POOL_TIMEOUT_S'')"

text \<open>The engine to use, the new cache, and the engine to dispose of.\<close>

definition get_engine :: "config \<Rightarrow> engine_key option \<Rightarrow> engine_key \<times> engine_key option \<times> engine_key option" where
  "get_engine cfg cur =
     (if cur = Some (engine_key cfg) then (engine_key cfg, cur, None)
      else (engine_key cfg, Some (engine_key cfg), cur))"

record report_pool =
  rp_dsn :: string
  rp_size :: int
  rp_overflow :: int

datatype some_engine = Main engine_key | Report report_pool

definition report_engine ::
    "config \<Rightarrow> engine_key option \<Rightarrow> report_pool option \<Rightarrow> some_engine \<times> engine_key option \<times> report_pool option" where
  "report_engine cfg cur rep =
     (if \<not> cfg_bool cfg ''BULKHEAD'' then
        let (e, cur', _) = get_engine cfg cur in (Main e, cur', rep)
      else case rep of
          Some r \<Rightarrow> (Report r, cur, rep)
        | None \<Rightarrow> let r = \<lparr>rp_dsn = dsn cfg, rp_size = cfg_int cfg ''REPORT_POOL_SIZE'', rp_overflow = 0\<rparr>
                  in (Report r, cur, Some r))"

text \<open>
  \<^verbatim>\<open>do_work\<close>. \<open>checkout\<close> is what \<^verbatim>\<open>eng.connect()\<close> did, \<open>query\<close> what the transaction did; \<open>waited\<close>,
  \<open>took\<close> are the elapsed times in seconds, \<open>t1\<close>, \<open>t2\<close> the clock in milliseconds after checkout.
  Besides the dictionary the result says which statements were issued: \<open>None\<close> for none, otherwise the
  \<^verbatim>\<open>statement_timeout\<close> set for the query.
\<close>

record db_env =
  checkout :: "int driver"
  query :: "unit driver"
  waited :: rat
  took :: rat
  t_check :: rat
  t_stmt :: rat
  in_use_after :: int

record work_result =
  wait_ms :: rat
  query_ms :: rat
  in_use :: int
  err :: "string option"

definition driver_message :: "string \<Rightarrow> string \<Rightarrow> string" where
  "driver_message name msg = name @ '': '' @ take 200 msg"

definition do_work ::
    "config \<Rightarrow> db_env \<Rightarrow> int option \<Rightarrow> rat option \<Rightarrow> counters \<Rightarrow> work_result \<times> int option option \<times> counters" where
  "do_work cfg e stmt deadline c =
     (let wms = fl (waited e * 1000) in
      case checkout e of
        Fails name msg \<Rightarrow>
          (\<lparr>wait_ms = wms, query_ms = 0, in_use = in_use_after e, err = Some (driver_message name msg)\<rparr>,
           None, inc ''db_errors'' c)
      | Returns used \<Rightarrow>
          let propagate = (deadline \<noteq> None \<and> cfg_bool cfg ''PROPAGATE_DEADLINE'');
              late = (case remaining_ms (t_check e) deadline of None \<Rightarrow> False
                      | Some left \<Rightarrow> left < fl (of_int (cfg_int cfg ''DEADLINE_SLACK_MS'')))
          in if propagate \<and> late
             then (\<lparr>wait_ms = wms, query_ms = 0, in_use = used, err = Some ''deadline_exceeded_after_pool_wait''\<rparr>,
                   None, inc ''deadline_abandoned'' c)
             else let st = (if propagate then statement_timeout_ms cfg (t_stmt e) deadline else stmt) in
               (case query e of
                  Returns _ \<Rightarrow> (\<lparr>wait_ms = wms, query_ms = fl (took e * 1000), in_use = used, err = None\<rparr>,
                                Some st, inc ''db_queries'' c)
                | Fails name msg \<Rightarrow> (\<lparr>wait_ms = wms, query_ms = fl (took e * 1000), in_use = used,
                                       err = Some (driver_message name msg)\<rparr>, Some st, inc ''db_errors'' c)))"

text \<open>Every call is counted once: as a query, an error, or work abandoned after the pool wait; only a
  counted query carries no error, and abandoned work never reached the server.\<close>

lemma do_work_counted:
  assumes "do_work cfg e stmt deadline c = (r, issued, c')"
  shows "(count_of c' ''db_queries'' - count_of c ''db_queries'') + (count_of c' ''db_errors'' - count_of c ''db_errors'')
           + (count_of c' ''deadline_abandoned'' - count_of c ''deadline_abandoned'') = 1
       \<and> (err r = None \<longleftrightarrow> count_of c' ''db_queries'' = count_of c ''db_queries'' + 1)
       \<and> (count_of c' ''deadline_abandoned'' \<noteq> count_of c ''deadline_abandoned'' \<longrightarrow> issued = None)"
  using assms by (auto simp: do_work_def Let_def split: driver.splits if_splits)

lemma do_work_frame:
  "n \<notin> {''db_queries'', ''db_errors'', ''deadline_abandoned''} \<Longrightarrow>
   count_of (snd (snd (do_work cfg e stmt deadline c))) n = count_of c n"
  by (simp add: do_work_def Let_def split: driver.split)

end
