(* ===== verification/Lab_Fanout.thy ===== *)
theory Lab_Fanout
  imports Lab_Metrics Token_Bucket
begin

text \<open>
  \<^verbatim>\<open>05-failure/lab/app/fanout.py\<close>: the hedge budget, the window of backend latencies, the hedge
  threshold, the backend addresses and the hedged call. What the event loop decides (was the first
  copy done by the threshold, which copy answered first, what it answered) is the argument of the
  call, as are the latency draws.
\<close>

subsection \<open>Service time of a backend\<close>

text \<open>\<open>lognormal\<close> stands for \<^verbatim>\<open>random.lognormvariate(math.log(p50), math.log(ratio) / 2.3263...)\<close>,
  as a function of the two arguments; \<open>u\<close> is the draw of \<^verbatim>\<open>random.random()\<close>.\<close>

definition service_seconds :: "(rat \<Rightarrow> rat \<Rightarrow> rat) \<Rightarrow> rat \<Rightarrow> config \<Rightarrow> rat" where
  "service_seconds lognormal u cfg =
     (let dist = cfg_str cfg ''LATENCY_DIST'';
          p50 = fl (fl (of_int (cfg_int cfg ''LATENCY_P50_MS'')) / 1000);
          ratio = cfg_float cfg ''LATENCY_TAIL_RATIO''
      in if dist = ''fixed'' then p50
         else if dist = ''lognormal'' then lognormal p50 ratio
         else if fl (u * 100) < cfg_float cfg ''BIMODAL_SLOW_PCT'' then fl (p50 * ratio) else p50)"

subsection \<open>The hedge budget\<close>

record hedge_bucket =
  h_tokens :: rat
  h_capacity :: rat

definition new_hedge_bucket :: hedge_bucket where
  "new_hedge_bucket = \<lparr>h_tokens = 0, h_capacity = 50\<rparr>"

definition hedge_pct :: "config \<Rightarrow> rat" where
  "hedge_pct cfg = fl (cfg_float cfg ''HEDGE_BUDGET_PCT'' / 100)"

definition hedge_deposit :: "config \<Rightarrow> hedge_bucket \<Rightarrow> hedge_bucket" where
  "hedge_deposit cfg b = b\<lparr>h_tokens := min (h_capacity b) (fl (h_tokens b + hedge_pct cfg))\<rparr>"

definition hedge_withdraw :: "hedge_bucket \<Rightarrow> bool \<times> hedge_bucket" where
  "hedge_withdraw b = (if 1 \<le> h_tokens b then (True, b\<lparr>h_tokens := fl (h_tokens b - 1)\<rparr>) else (False, b))"

definition hedge_level :: "hedge_bucket \<Rightarrow> rat" where
  "hedge_level b = py_round 2 (h_tokens b)"

interpretation hedge_tb: token_bucket
  "\<lambda>(cfg, b). h_tokens b" "\<lambda>(cfg, b). hedge_pct cfg" "\<lambda>(cfg, b). h_capacity b" "\<lambda>_. True"
  "\<lambda>(cfg, b). (cfg, hedge_deposit cfg b)" "\<lambda>(cfg, b). (let (ok, b') = hedge_withdraw b in (ok, (cfg, b')))"
  by unfold_locales (auto simp: hedge_deposit_def hedge_withdraw_def split: if_splits)

subsection \<open>The window of backend latencies\<close>

record backend_latency =
  lat_samples :: "rat list"
  lat_size :: nat

definition new_backend_latency :: "nat \<Rightarrow> backend_latency" where
  "new_backend_latency sz = \<lparr>lat_samples = [], lat_size = sz\<rparr>"

definition observe_latency :: "rat \<Rightarrow> backend_latency \<Rightarrow> backend_latency" where
  "observe_latency seconds w =
     (let s = lat_samples w @ [seconds]
      in w\<lparr>lat_samples := if lat_size w < length s then drop (length s - lat_size w) s else s\<rparr>)"

definition quantile :: "rat \<Rightarrow> backend_latency \<Rightarrow> rat option py" where
  "quantile q w =
     (if length (lat_samples w) < 50 then Inr None
      else let ordered = sort (lat_samples w);
               idx = min (int (length ordered) - 1) (py_trunc (fl (q * of_nat (length ordered))))
           in map_sum id Some (py_index ordered idx))"

definition hedge_after_seconds :: "config \<Rightarrow> backend_latency \<Rightarrow> rat option py" where
  "hedge_after_seconds cfg w = (case cfg_opt_int cfg ''HEDGE_AFTER_MS'' of
      Some e \<Rightarrow> Inr (Some (fl (fl (of_int e) / 1000)))
    | None \<Rightarrow> quantile (fl (95 / 100)) w)"

subsection \<open>Backend addresses\<close>

text \<open>\<open>resolve\<close> is the resolver's answer: the addresses of the records, or \<open>None\<close> for an \<^verbatim>\<open>OSError\<close>.
  The cache holds the time of the last resolution and what it returned.\<close>

type_synonym dns_cache = "rat \<times> string list"

definition backend_addresses ::
    "config \<Rightarrow> rat \<Rightarrow> rat \<Rightarrow> string list option \<Rightarrow> (string list \<Rightarrow> string list) \<Rightarrow> nat \<Rightarrow> dns_cache \<Rightarrow> string list \<times> dns_cache" where
  "backend_addresses cfg now1 now2 resolved sorted_set k cache =
     (let host = cfg_str cfg ''BACKEND_HOST''; port = py_str_int (cfg_int cfg ''BACKEND_PORT'');
          (age, cached) = cache;
          cache' = (if 10 < fl (now1 - age) \<or> cached = []
                    then (now2, case resolved of None \<Rightarrow> [] | Some infos \<Rightarrow> sorted_set infos) else cache);
          addrs = snd cache'
      in (if addrs = [] then replicate k (host @ '':'' @ port)
          else map (\<lambda>i. addrs ! (i mod length addrs) @ '':'' @ port) [0..<k], cache'))"

subsection \<open>The hedged call\<close>

record fan_world =
  f_counters :: counters
  f_bucket :: hedge_bucket
  f_latency :: backend_latency

datatype 'r call_course =
    FirstInTime 'r
  | FirstLate 'r 'r bool

text \<open>\<open>FirstInTime r\<close>: the first copy answered by the threshold. \<open>FirstLate r s second_won\<close>: it did
  not; it would answer \<open>r\<close>, a second copy (if issued) \<open>s\<close>, and \<open>second_won\<close> says which task
  \<^verbatim>\<open>next(iter(done))\<close> picks.\<close>

fun first_result :: "'r call_course \<Rightarrow> 'r" where
  "first_result (FirstInTime r) = r"
| "first_result (FirstLate r s w) = r"

definition with_bucket :: "(hedge_bucket \<Rightarrow> hedge_bucket) \<Rightarrow> fan_world \<Rightarrow> fan_world" where
  "with_bucket g w = w\<lparr>f_bucket := g (f_bucket w)\<rparr>"

definition hedged_call :: "config \<Rightarrow> 'r call_course \<Rightarrow> fan_world \<Rightarrow> py_error + ('r \<times> bool) \<times> fan_world" where
  "hedged_call cfg course w =
     (case hedge_after_seconds cfg (f_latency w) of
        Inl e \<Rightarrow> Inl e
      | Inr threshold \<Rightarrow>
          if threshold = None \<or> \<not> cfg_bool cfg ''HEDGE'' then Inr ((first_result course, False), w)
          else case course of
            FirstInTime r \<Rightarrow> Inr ((r, False), with_bucket (hedge_deposit cfg) w)
          | FirstLate r s second_won \<Rightarrow>
              let (ok, b) = hedge_withdraw (f_bucket w); w1 = w\<lparr>f_bucket := b\<rparr> in
              if \<not> ok then Inr ((r, False), with_bucket (hedge_deposit cfg) w1)
              else let w2 = w1\<lparr>f_counters := inc ''hedges'' (f_counters w1)\<rparr> in
                if second_won
                then Inr ((s, True), with_bucket (hedge_deposit cfg)
                       (w2\<lparr>f_counters := inc ''hedge_wins'' (f_counters w2)\<rparr>))
                else Inr ((r, True), with_bucket (hedge_deposit cfg) w2))"

subsection \<open>The latency window\<close>

definition wf_window :: "backend_latency \<Rightarrow> bool" where
  "wf_window w \<longleftrightarrow> length (lat_samples w) \<le> lat_size w"

lemma observe_latency_window:
  "wf_window w \<Longrightarrow> wf_window (observe_latency x w)
     \<and> lat_samples (observe_latency x w)
         = drop (length (lat_samples w) + 1 - lat_size w) (lat_samples w @ [x])"
  by (auto simp: wf_window_def observe_latency_def Let_def)

lemma quantile_sample:
  assumes "0 \<le> q" and "50 \<le> length (lat_samples w)"
  shows "\<exists>x\<in>set (lat_samples w). quantile q w = Inr (Some x)"
proof -
  let ?o = "sort (lat_samples w)"
  let ?i = "min (int (length ?o) - 1) (py_trunc (fl (q * of_nat (length ?o))))"
  have "0 \<le> fl (q * of_nat (length ?o))" using assms(1) by (intro fl_nonneg) simp
  then have "0 \<le> py_trunc (fl (q * of_nat (length ?o)))" by (intro py_trunc_ge) simp
  then have i: "0 \<le> ?i" "?i < int (length ?o)" using assms(2) by auto
  then have "?o ! nat ?i \<in> set ?o" by (intro nth_mem) linarith
  with i assms(2) show ?thesis by (simp add: quantile_def Let_def)
qed

lemma hedge_after_never_fails: "\<exists>t. hedge_after_seconds cfg w = Inr t"
proof (cases "cfg_opt_int cfg ''HEDGE_AFTER_MS'' = None \<and> 50 \<le> length (lat_samples w)")
  case True
  moreover have "0 \<le> fl (95 / 100)" by (rule fl_nonneg) simp
  ultimately show ?thesis using quantile_sample [of "fl (95 / 100)" w] by (auto simp: hedge_after_seconds_def)
qed (auto simp: hedge_after_seconds_def quantile_def split: option.splits)

subsection \<open>Hedges are paid for by calls\<close>

fun hedged_calls :: "config \<Rightarrow> 'r call_course list \<Rightarrow> fan_world \<Rightarrow> fan_world" where
  "hedged_calls cfg [] w = w"
| "hedged_calls cfg (c # cs) w = (case hedged_call cfg c w of Inl _ \<Rightarrow> w | Inr (_, w') \<Rightarrow> hedged_calls cfg cs w')"

fun call_ops :: "'r call_course list \<Rightarrow> bucket_op list" where
  "call_ops [] = []"
| "call_ops (FirstInTime r # cs) = Deposit # call_ops cs"
| "call_ops (FirstLate r s b # cs) = Withdraw # Deposit # call_ops cs"

lemma deposits_call_ops [simp]: "deposits (call_ops cs) = length cs"
  by (induction cs rule: call_ops.induct) simp_all

text \<open>With hedging on and a fixed threshold, a run of calls drives the bucket as its operations say,
  and the \<^verbatim>\<open>hedges\<close> counter counts the granted withdrawals.\<close>

lemma hedged_calls_run:
  assumes "cfg_bool cfg ''HEDGE''" and "cfg_opt_int cfg ''HEDGE_AFTER_MS'' = Some ms"
  shows "\<exists>n. bucket_run (\<lambda>(cfg, b). (cfg, hedge_deposit cfg b))
            (\<lambda>(cfg, b). (let (ok, b') = hedge_withdraw b in (ok, (cfg, b')))) (call_ops cs) (cfg, f_bucket w)
          = (n, (cfg, f_bucket (hedged_calls cfg cs w)))
        \<and> count_of (f_counters (hedged_calls cfg cs w)) ''hedges'' = count_of (f_counters w) ''hedges'' + int n"
proof (induction cs arbitrary: w)
  case (Cons c cs)
  have th: "hedge_after_seconds cfg v = Inr (Some (fl (fl (of_int ms) / 1000)))" for v
    using assms(2) by (simp add: hedge_after_seconds_def)
  show ?case
  proof (cases c)
    case (FirstInTime r)
    then show ?thesis using Cons.IH [of "with_bucket (hedge_deposit cfg) w"]
      by (simp add: hedged_call_def th assms(1) with_bucket_def)
  next
    case (FirstLate r s b)
    show ?thesis
    proof (cases "fst (hedge_withdraw (f_bucket w))")
      case False
      then have "hedged_call cfg c w = Inr ((r, False), with_bucket (hedge_deposit cfg) (w\<lparr>f_bucket := snd (hedge_withdraw (f_bucket w))\<rparr>))"
        by (simp add: hedged_call_def th assms(1) FirstLate case_prod_beta Let_def)
      with False show ?thesis
        using Cons.IH [of "with_bucket (hedge_deposit cfg) (w\<lparr>f_bucket := snd (hedge_withdraw (f_bucket w))\<rparr>)"]
        by (auto simp: FirstLate with_bucket_def case_prod_beta Let_def)
    next
      case True
      then obtain x cnt where "hedged_call cfg c w = Inr (x, w\<lparr>f_counters := cnt,
            f_bucket := hedge_deposit cfg (snd (hedge_withdraw (f_bucket w)))\<rparr>)"
          and cnt: "count_of cnt ''hedges'' = count_of (f_counters w) ''hedges'' + 1"
        by (cases b)
          (simp_all add: hedged_call_def th assms(1) FirstLate case_prod_beta Let_def with_bucket_def)
      then show ?thesis using True
          Cons.IH [of "w\<lparr>f_counters := cnt, f_bucket := hedge_deposit cfg (snd (hedge_withdraw (f_bucket w)))\<rparr>"]
        by (auto simp: FirstLate case_prod_beta Let_def)
    qed
  qed
qed simp

text \<open>Hedging costs at most its budget. Over any sequence of hedged calls from an empty bucket,
  however slow the backends are, the second copies issued are at most the budgeted share of the calls:
  \<open>hedges * 2^j \<le> m * calls\<close> for every dyadic fraction \<open>m / 2^j\<close> above \<^verbatim>\<open>HEDGE_BUDGET_PCT / 100\<close>, in
  double arithmetic.\<close>

theorem hedges_within_budget:
  assumes "cfg_bool cfg ''HEDGE''" and "cfg_opt_int cfg ''HEDGE_AFTER_MS'' = Some ms"
    and "0 \<le> hedge_pct cfg" and "hedge_pct cfg \<le> of_int m / 2 ^ j" and "j \<le> 1074" and "0 \<le> m"
    and "m * int (length courses) \<le> 2 ^ 53" and "f_bucket w = new_hedge_bucket"
  shows "(count_of (f_counters (hedged_calls cfg courses w)) ''hedges'' - count_of (f_counters w) ''hedges'') * 2 ^ j
           \<le> m * int (length courses)"
proof -
  obtain n where run: "bucket_run (\<lambda>(cfg, b). (cfg, hedge_deposit cfg b))
            (\<lambda>(cfg, b). (let (ok, b') = hedge_withdraw b in (ok, (cfg, b')))) (call_ops courses) (cfg, f_bucket w)
          = (n, (cfg, f_bucket (hedged_calls cfg courses w)))"
      and n: "count_of (f_counters (hedged_calls cfg courses w)) ''hedges'' = count_of (f_counters w) ''hedges'' + int n"
    using hedged_calls_run [OF assms(1,2)] by blast
  have "int n * 2 ^ j \<le> 0 + m * int (deposits (call_ops courses))"
    by (rule hedge_tb.grants_bounded [OF _ _ _ _ _ _ _ _ _ _ run])
      (use assms in \<open>simp_all add: new_hedge_bucket_def\<close>)
  then show ?thesis using n by simp
qed

definition hedging :: config where
  "hedging = sample_config(''HEDGE'' \<mapsto> VBool True, ''HEDGE_AFTER_MS'' \<mapsto> VOptInt (Some 10), ''HEDGE_BUDGET_PCT'' \<mapsto> VFloat 50)"

definition fan0 :: fan_world where
  "fan0 = \<lparr>f_counters = new_counters 0, f_bucket = new_hedge_bucket, f_latency = new_backend_latency 2000\<rparr>"

definition slow_calls :: "nat call_course list" where
  "slow_calls = replicate 5 (FirstLate 1 2 True)"

theorem hedges_within_budget_witness:
  "count_of (f_counters (hedged_calls hedging slow_calls fan0)) ''hedges'' = 2
   \<and> (count_of (f_counters (hedged_calls hedging slow_calls fan0)) ''hedges'' - count_of (f_counters fan0) ''hedges'') * 2 ^ 1
       \<le> 1 * int (length slow_calls)"
proof -
  have "cfg_bool hedging ''HEDGE''" "cfg_opt_int hedging ''HEDGE_AFTER_MS'' = Some 10" "0 \<le> hedge_pct hedging"
    "hedge_pct hedging \<le> of_int 1 / 2 ^ 1" "1 * int (length slow_calls) \<le> 2 ^ 53" "f_bucket fan0 = new_hedge_bucket"
    "count_of (f_counters (hedged_calls hedging slow_calls fan0)) ''hedges'' = 2"
    by code_simp+
  with hedges_within_budget [of hedging 10 1 1 slow_calls fan0] show ?thesis by simp
qed

subsection \<open>Addresses\<close>

lemma backend_addresses_spread:
  assumes "backend_addresses cfg t1 t2 res ss k cache = (addrs, (age, known))"
  shows "length addrs = k \<and> (known \<noteq> [] \<longrightarrow> (\<forall>i<k. addrs ! i = known ! (i mod length known) @ '':'' @ py_str_int (cfg_int cfg ''BACKEND_PORT'')))"
  using assms by (auto simp: backend_addresses_def Let_def split: if_splits option.splits prod.splits)

end
