(* ===== verification/Lab_Idempotency.thy ===== *)
theory Lab_Idempotency
  imports Lab_Metrics "HOL-Library.AList"
begin

text \<open>
  \<^verbatim>\<open>05-failure/lab/app/idempotency.py\<close> over the two tables of \<^verbatim>\<open>db.py\<close>. Each transaction is one step
  on the committed tables; \<^verbatim>\<open>now()\<close> is the database clock. \<open>fp\<close> stands for the SHA-256 fingerprint of
  the canonical JSON body, \<open>rp\<close> for \<^verbatim>\<open>str\<close> on floats and nested JSON.
\<close>

subsection \<open>Tables\<close>

record charge_row =
  ch_id :: int
  ch_key :: string
  ch_amount :: int
  ch_currency :: string

record key_row =
  k_fingerprint :: string
  k_done :: bool
  k_response :: "json option"
  k_expires :: rat

record lab_db =
  charges :: "charge_row list"
  next_charge :: int
  idem_keys :: "string \<rightharpoonup> key_row"

definition empty_lab_db :: lab_db where
  "empty_lab_db = \<lparr>charges = [], next_charge = 1, idem_keys = Map.empty\<rparr>"

type_synonym body = "(string \<times> json) list"

text \<open>\<^verbatim>\<open>int(v)\<close> on a JSON value.\<close>

fun json_int :: "json \<Rightarrow> int py" where
  "json_int (JInt k) = Inr k"
| "json_int (JBool b) = Inr (if b then 1 else 0)"
| "json_int (JFloat x) = Inr (py_trunc x)"
| "json_int (JStr s) = py_int s"
| "json_int JNull = Inl (TypeError ''int() argument'')"
| "json_int (JObj kvs) = Inl (TypeError ''int() argument'')"

definition body_get :: "body \<Rightarrow> string \<Rightarrow> json \<Rightarrow> json" where
  "body_get b k d = (case map_of b k of None \<Rightarrow> d | Some v \<Rightarrow> v)"

definition insert_charge ::
    "(json \<Rightarrow> string) \<Rightarrow> string \<Rightarrow> body \<Rightarrow> lab_db \<times> counters \<Rightarrow> int py \<times> lab_db \<times> counters" where
  "insert_charge rp key b dc =
     (let (db, c) = dc in
      case json_int (body_get b ''amount_cents'' (JInt 100)) of
        Inl e \<Rightarrow> (Inl e, dc)
      | Inr a \<Rightarrow>
          let cid = next_charge db;
              r = \<lparr>ch_id = cid, ch_key = key, ch_amount = a,
                   ch_currency = py_str rp (body_get b ''currency'' (JStr ''usd''))\<rparr>
          in (Inr cid, db\<lparr>charges := charges db @ [r], next_charge := cid + 1\<rparr>, inc ''charges'' c))"

definition payload_of :: "int \<Rightarrow> bool \<Rightarrow> string \<Rightarrow> json" where
  "payload_of cid replayed mode =
     JObj [(''charge_id'', JInt cid), (''replayed'', JBool replayed), (''mode'', JStr mode)]"

subsection \<open>The naive mode\<close>

definition naive_look :: "string \<Rightarrow> lab_db \<Rightarrow> int option" where
  "naive_look key db = map_option ch_id (find (\<lambda>r. ch_key r = key) (charges db))"

text \<open>The whole transaction of one caller that nobody interleaves with.\<close>

definition charge_naive ::
    "(json \<Rightarrow> string) \<Rightarrow> string \<Rightarrow> body \<Rightarrow> lab_db \<times> counters \<Rightarrow> (int \<times> json) py \<times> lab_db \<times> counters" where
  "charge_naive rp key b dc =
     (case naive_look key (fst dc) of
        Some cid \<Rightarrow> (Inr (200, payload_of cid True ''naive''), dc)
      | None \<Rightarrow> (case insert_charge rp key b dc of
            (Inl e, dc') \<Rightarrow> (Inl e, dc)
          | (Inr cid, dc') \<Rightarrow> (Inr (201, payload_of cid False ''naive''), dc')))"

subsection \<open>The claiming mode\<close>

text \<open>\<^verbatim>\<open>INSERT ... ON CONFLICT DO UPDATE ... WHERE in_progress AND expires_at < now() RETURNING key\<close>.\<close>

definition claim :: "rat \<Rightarrow> int \<Rightarrow> string \<Rightarrow> string \<Rightarrow> lab_db \<Rightarrow> bool \<times> lab_db" where
  "claim now ttl key f db =
     (let fresh = \<lparr>k_fingerprint = f, k_done = False, k_response = None, k_expires = now + of_int ttl\<rparr> in
      case idem_keys db key of
        None \<Rightarrow> (True, db\<lparr>idem_keys := (idem_keys db)(key \<mapsto> fresh)\<rparr>)
      | Some r \<Rightarrow>
          if \<not> k_done r \<and> k_expires r < now
          then (True, db\<lparr>idem_keys := (idem_keys db)(key \<mapsto> r\<lparr>k_fingerprint := f, k_expires := now + of_int ttl\<rparr>)\<rparr>)
          else (False, db))"

text \<open>The second transaction: the charge and the answer are published together or not at all.\<close>

definition work_and_publish ::
    "(json \<Rightarrow> string) \<Rightarrow> string \<Rightarrow> body \<Rightarrow> lab_db \<times> counters \<Rightarrow> (int \<times> json) py \<times> lab_db \<times> counters" where
  "work_and_publish rp key b dc =
     (case insert_charge rp key b dc of
        (Inl e, _) \<Rightarrow> (Inl e, dc)
      | (Inr cid, (db, c)) \<Rightarrow>
          let payload = payload_of cid False ''correct'' in
          (Inr (201, payload),
           (case idem_keys db key of None \<Rightarrow> db
            | Some r \<Rightarrow> db\<lparr>idem_keys := (idem_keys db)(key \<mapsto> r\<lparr>k_done := True, k_response := Some payload\<rparr>)\<rparr>), c))"

definition set_replayed :: "json \<Rightarrow> json" where
  "set_replayed j = (case j of JObj kvs \<Rightarrow> JObj (AList.update ''replayed'' (JBool True) kvs) | _ \<Rightarrow> j)"

definition in_progress_payload :: json where
  "in_progress_payload = JObj [(''error'', JStr ''in_progress''), (''mode'', JStr ''correct'')]"

definition reused_payload :: json where
  "reused_payload = JObj [(''error'', JStr ''key_reused_with_different_body''), (''mode'', JStr ''correct'')]"

text \<open>One round of the polling loop: an answer, or \<open>None\<close> to sleep and look again.\<close>

definition replay_poll :: "string \<Rightarrow> string \<Rightarrow> bool \<Rightarrow> lab_db \<times> counters \<Rightarrow> (int \<times> json) option \<times> counters" where
  "replay_poll key f expired dc =
     (let (db, c) = dc in
      case idem_keys db key of
        None \<Rightarrow> (Some (409, in_progress_payload), inc ''conflicts'' c)
      | Some r \<Rightarrow>
          if k_fingerprint r \<noteq> f then (Some (422, reused_payload), inc ''fingerprint_rejects'' c)
          else case (k_done r, k_response r) of
              (True, Some resp) \<Rightarrow> (Some (200, set_replayed resp), c)
            | _ \<Rightarrow> if expired then (Some (409, in_progress_payload), inc ''conflicts'' c) else (None, c))"

text \<open>A caller nobody interleaves with: the tables do not change while it polls, so the loop ends with
  the first look's answer or at its deadline.\<close>

definition charge_correct ::
    "(body \<Rightarrow> string) \<Rightarrow> (json \<Rightarrow> string) \<Rightarrow> config \<Rightarrow> rat \<Rightarrow> string \<Rightarrow> body \<Rightarrow> lab_db \<times> counters
     \<Rightarrow> (int \<times> json) py \<times> lab_db \<times> counters" where
  "charge_correct fp rp cfg now key b dc =
     (let (mine, db) = claim now (cfg_int cfg ''IDEMPOTENCY_TTL_S'') key (fp b) (fst dc); dc1 = (db, snd dc) in
      if mine then work_and_publish rp key b dc1
      else case replay_poll key (fp b) False dc1 of
          (Some ans, c) \<Rightarrow> (Inr ans, (db, c))
        | (None, c) \<Rightarrow> (case replay_poll key (fp b) True (db, c) of
              (Some ans, c') \<Rightarrow> (Inr ans, (db, c'))
            | (None, c') \<Rightarrow> (Inl (RuntimeError []), (db, c'))))"

definition charge ::
    "(body \<Rightarrow> string) \<Rightarrow> (json \<Rightarrow> string) \<Rightarrow> config \<Rightarrow> rat \<Rightarrow> string \<Rightarrow> body \<Rightarrow> lab_db \<times> counters
     \<Rightarrow> (int \<times> json) py \<times> lab_db \<times> counters" where
  "charge fp rp cfg now key b dc =
     (if cfg_str cfg ''IDEMPOTENCY_MODE'' = ''naive'' then charge_naive rp key b dc
      else charge_correct fp rp cfg now key b dc)"

text \<open>\<^verbatim>\<open>report\<close> counts in SQL; the keys in use are passed as the list the table scan yields.\<close>

record idem_report =
  charge_rows :: nat
  key_rows :: nat
  orphaned :: nat
  distinct_responses :: nat
  r409 :: int
  r422 :: int

definition idem_report_of :: "rat \<Rightarrow> string list \<Rightarrow> lab_db \<times> counters \<Rightarrow> idem_report" where
  "idem_report_of now ks dc =
     (let rows = map (\<lambda>k. the (idem_keys (fst dc) k)) ks in
      \<lparr>charge_rows = length (charges (fst dc)), key_rows = length rows,
       orphaned = length (filter (\<lambda>r. \<not> k_done r \<and> k_expires r < now) rows),
       distinct_responses = length (remdups (map k_response (filter (\<lambda>r. k_done r \<and> k_response r \<noteq> None) rows))),
       r409 = count_of (snd dc) ''conflicts'', r422 = count_of (snd dc) ''fingerprint_rejects''\<rparr>)"

definition reset_tables :: "lab_db \<Rightarrow> lab_db" where
  "reset_tables db = db\<lparr>charges := [], idem_keys := Map.empty\<rparr>"

subsection \<open>Concurrent callers\<close>

record request =
  rq_key :: string
  rq_body :: body

datatype caller =
    Ready
  | Working
  | Polling
  | Answered int json
  | Dead

record idem_sys =
  is_db :: lab_db
  is_counters :: counters
  clock :: rat
  callers :: "caller list"

datatype idem_event =
    Begin nat
  | Finish nat
  | Crash nat
  | Poll nat bool
  | Tick rat

definition idem_start :: "request list \<Rightarrow> idem_sys" where
  "idem_start rqs = \<lparr>is_db = empty_lab_db, is_counters = new_counters 0, clock = 0, callers = map (\<lambda>_. Ready) rqs\<rparr>"

definition pc_is :: "idem_sys \<Rightarrow> nat \<Rightarrow> caller \<Rightarrow> bool" where
  "pc_is y i p \<longleftrightarrow> i < length (callers y) \<and> callers y ! i = p"

definition goto :: "nat \<Rightarrow> caller \<Rightarrow> idem_sys \<Rightarrow> idem_sys" where
  "goto i p y = y\<lparr>callers := (callers y)[i := p]\<rparr>"

fun idem_apply ::
    "(body \<Rightarrow> string) \<Rightarrow> (json \<Rightarrow> string) \<Rightarrow> config \<Rightarrow> request list \<Rightarrow> idem_event \<Rightarrow> idem_sys \<Rightarrow> idem_sys option" where
  "idem_apply fp rp cfg rqs (Begin i) y =
     (if pc_is y i Ready then
        let (mine, db) = claim (clock y) (cfg_int cfg ''IDEMPOTENCY_TTL_S'') (rq_key (rqs ! i)) (fp (rq_body (rqs ! i))) (is_db y)
        in Some (goto i (if mine then Working else Polling) (y\<lparr>is_db := db\<rparr>))
      else None)"
| "idem_apply fp rp cfg rqs (Finish i) y =
     (if pc_is y i Working then
        case work_and_publish rp (rq_key (rqs ! i)) (rq_body (rqs ! i)) (is_db y, is_counters y) of
          (Inr (st, p), (db, c)) \<Rightarrow> Some (goto i (Answered st p) (y\<lparr>is_db := db, is_counters := c\<rparr>))
        | (Inl e, _) \<Rightarrow> Some (goto i Dead y)
      else None)"
| "idem_apply fp rp cfg rqs (Crash i) y = (if pc_is y i Working then Some (goto i Dead y) else None)"
| "idem_apply fp rp cfg rqs (Poll i expired) y =
     (if pc_is y i Polling then
        case replay_poll (rq_key (rqs ! i)) (fp (rq_body (rqs ! i))) expired (is_db y, is_counters y) of
          (Some (st, p), c) \<Rightarrow> Some (goto i (Answered st p) (y\<lparr>is_counters := c\<rparr>))
        | (None, c) \<Rightarrow> Some (y\<lparr>is_counters := c\<rparr>)
      else None)"
| "idem_apply fp rp cfg rqs (Tick t) y = (if clock y \<le> t then Some (y\<lparr>clock := t\<rparr>) else None)"

fun idem_run ::
    "(body \<Rightarrow> string) \<Rightarrow> (json \<Rightarrow> string) \<Rightarrow> config \<Rightarrow> request list \<Rightarrow> idem_event list \<Rightarrow> idem_sys \<Rightarrow> idem_sys option" where
  "idem_run fp rp cfg rqs [] y = Some y"
| "idem_run fp rp cfg rqs (e # es) y =
     (case idem_apply fp rp cfg rqs e y of None \<Rightarrow> None | Some y' \<Rightarrow> idem_run fp rp cfg rqs es y')"

definition charges_for :: "string \<Rightarrow> lab_db \<Rightarrow> charge_row list" where
  "charges_for k db = filter (\<lambda>r. ch_key r = k) (charges db)"

definition working_on :: "request list \<Rightarrow> idem_sys \<Rightarrow> string \<Rightarrow> nat set" where
  "working_on rqs y k = {i. pc_is y i Working \<and> rq_key (rqs ! i) = k}"

subsection \<open>Takeovers\<close>

text \<open>A takeover of key \<open>k\<close>: a caller obtains the claim while another one is still working under it.
  \<open>takeovers\<close> counts them along a run.\<close>

definition takes_over :: "(body \<Rightarrow> string) \<Rightarrow> config \<Rightarrow> request list \<Rightarrow> idem_event \<Rightarrow> idem_sys \<Rightarrow> string \<Rightarrow> bool" where
  "takes_over fp cfg rqs e y k \<longleftrightarrow>
     (case e of
        Begin i \<Rightarrow> pc_is y i Ready \<and> rq_key (rqs ! i) = k \<and> working_on rqs y k \<noteq> {}
          \<and> fst (claim (clock y) (cfg_int cfg ''IDEMPOTENCY_TTL_S'') k (fp (rq_body (rqs ! i))) (is_db y))
      | _ \<Rightarrow> False)"

fun takeovers ::
    "(body \<Rightarrow> string) \<Rightarrow> (json \<Rightarrow> string) \<Rightarrow> config \<Rightarrow> request list \<Rightarrow> idem_event list \<Rightarrow> idem_sys \<Rightarrow> string \<Rightarrow> nat" where
  "takeovers fp rp cfg rqs [] y k = 0"
| "takeovers fp rp cfg rqs (e # es) y k =
     (case idem_apply fp rp cfg rqs e y of None \<Rightarrow> 0
      | Some y' \<Rightarrow> of_bool (takes_over fp cfg rqs e y k) + takeovers fp rp cfg rqs es y' k)"

text \<open>A timely run: after every step the clock has not passed the expiry of a claim whose holder is still
  at work, that is, a holder finishes or dies within \<^verbatim>\<open>IDEMPOTENCY_TTL_S\<close>.\<close>

definition timely_check :: "request list \<Rightarrow> idem_sys \<Rightarrow> bool" where
  "timely_check rqs y = list_all (\<lambda>i. callers y ! i = Working \<longrightarrow>
     (case idem_keys (is_db y) (rq_key (rqs ! i)) of None \<Rightarrow> False | Some r \<Rightarrow> clock y \<le> k_expires r)) [0..<length (callers y)]"

fun timely_run ::
    "(body \<Rightarrow> string) \<Rightarrow> (json \<Rightarrow> string) \<Rightarrow> config \<Rightarrow> request list \<Rightarrow> idem_event list \<Rightarrow> idem_sys \<Rightarrow> idem_sys option" where
  "timely_run fp rp cfg rqs [] y = Some y"
| "timely_run fp rp cfg rqs (e # es) y =
     (case idem_apply fp rp cfg rqs e y of None \<Rightarrow> None
      | Some y' \<Rightarrow> if timely_check rqs y' then timely_run fp rp cfg rqs es y' else None)"

subsection \<open>Exactly one charge per key and takeover\<close>

definition key_ok :: "request list \<Rightarrow> idem_sys \<Rightarrow> string \<Rightarrow> bool" where
  "key_ok rqs y k \<longleftrightarrow>
     (case idem_keys (is_db y) k of
        None \<Rightarrow> charges_for k (is_db y) = [] \<and> working_on rqs y k = {}
      | Some r \<Rightarrow>
          if k_done r
          then working_on rqs y k = {} \<and>
               (\<exists>c. charges_for k (is_db y) = [c] \<and> k_response r = Some (payload_of (ch_id c) False ''correct''))
          else charges_for k (is_db y) = [] \<and> (\<exists>i. working_on rqs y k \<subseteq> {i}))"

definition holder_ok :: "(body \<Rightarrow> string) \<Rightarrow> request list \<Rightarrow> idem_sys \<Rightarrow> nat \<Rightarrow> bool" where
  "holder_ok fp rqs y i \<longleftrightarrow> (pc_is y i Working \<longrightarrow>
     (\<exists>r. idem_keys (is_db y) (rq_key (rqs ! i)) = Some r \<and> k_fingerprint r = fp (rq_body (rqs ! i))))"

definition answered_right :: "(body \<Rightarrow> string) \<Rightarrow> request list \<Rightarrow> idem_sys \<Rightarrow> nat \<Rightarrow> bool" where
  "answered_right fp rqs y i \<longleftrightarrow> (\<forall>st p. pc_is y i (Answered st p) \<longrightarrow> st = 200 \<or> st = 201 \<longrightarrow>
     (\<exists>c r. charges_for (rq_key (rqs ! i)) (is_db y) = [c] \<and> p = payload_of (ch_id c) (st = 200) ''correct''
        \<and> idem_keys (is_db y) (rq_key (rqs ! i)) = Some r \<and> k_done r \<and> k_fingerprint r = fp (rq_body (rqs ! i))))"

definition idem_inv :: "(body \<Rightarrow> string) \<Rightarrow> request list \<Rightarrow> string \<Rightarrow> idem_sys \<Rightarrow> bool" where
  "idem_inv fp rqs k y \<longleftrightarrow> key_ok rqs y k
     \<and> (\<forall>i. rq_key (rqs ! i) = k \<longrightarrow> holder_ok fp rqs y i \<and> answered_right fp rqs y i)"

lemma pc_is_goto: "pc_is (goto i p y) j q \<longleftrightarrow> (if j = i then i < length (callers y) \<and> p = q else pc_is y j q)"
  by (auto simp: pc_is_def goto_def)

lemma goto_db [simp]: "is_db (goto i p y) = is_db y" "clock (goto i p y) = clock y"
  by (simp_all add: goto_def)

lemma pc_is_db [simp]: "pc_is (y\<lparr>is_db := d\<rparr>) j q = pc_is y j q" "pc_is (y\<lparr>is_counters := c\<rparr>) j q = pc_is y j q"
    "pc_is (y\<lparr>clock := t\<rparr>) j q = pc_is y j q" "pc_is (y\<lparr>is_db := d, is_counters := c\<rparr>) j q = pc_is y j q"
  by (simp_all add: pc_is_def)

lemma working_on_goto: "working_on rqs (goto i p y) k =
    (if p = Working \<and> i < length (callers y) \<and> rq_key (rqs ! i) = k then insert i (working_on rqs y k)
     else working_on rqs y k - {i})"
  by (auto simp: working_on_def pc_is_goto split: if_splits)

lemma working_on_db [simp]: "working_on rqs (y\<lparr>is_db := d\<rparr>) k = working_on rqs y k"
    "working_on rqs (y\<lparr>is_counters := c\<rparr>) k = working_on rqs y k" "working_on rqs (y\<lparr>clock := t\<rparr>) k = working_on rqs y k"
    "working_on rqs (y\<lparr>is_db := d, is_counters := c\<rparr>) k = working_on rqs y k"
  by (simp_all add: working_on_def)

lemma answered_frame:
  assumes "answered_right fp rqs y j"
    and "\<And>st p. pc_is y' j (Answered st p) \<Longrightarrow> st = 200 \<or> st = 201 \<Longrightarrow> pc_is y j (Answered st p)
          \<and> charges_for (rq_key (rqs ! j)) (is_db y') = charges_for (rq_key (rqs ! j)) (is_db y)
          \<and> idem_keys (is_db y') (rq_key (rqs ! j)) = idem_keys (is_db y) (rq_key (rqs ! j))"
  shows "answered_right fp rqs y' j"
  unfolding answered_right_def
proof (intro allI impI)
  fix st p assume p: "pc_is y' j (Answered st p)" "st = 200 \<or> st = 201"
  from assms(2) [OF p] assms(1) p(2) show "\<exists>c r. charges_for (rq_key (rqs ! j)) (is_db y') = [c]
      \<and> p = payload_of (ch_id c) (st = 200) ''correct''
      \<and> idem_keys (is_db y') (rq_key (rqs ! j)) = Some r \<and> k_done r \<and> k_fingerprint r = fp (rq_body (rqs ! j))"
    unfolding answered_right_def by metis
qed

lemma idem_start_pcs: "\<not> pc_is (idem_start rqs) i Working" "\<not> pc_is (idem_start rqs) i (Answered st p)"
    "working_on rqs (idem_start rqs) k = {}" "is_db (idem_start rqs) = empty_lab_db"
  by (auto simp: pc_is_def idem_start_def working_on_def)

lemma idem_inv_start: "idem_inv fp rqs k (idem_start rqs)"
  by (auto simp: idem_inv_def key_ok_def holder_ok_def answered_right_def idem_start_pcs charges_for_def
      empty_lab_db_def)

text \<open>A claim that succeeds finds no live claim, and writes a row in progress.\<close>

lemma claim_cases:
  assumes "claim now ttl k f db = (mine, db')"
  shows "(mine \<and> (\<exists>r. db' = db\<lparr>idem_keys := (idem_keys db)(k \<mapsto> r)\<rparr> \<and> \<not> k_done r \<and> k_fingerprint r = f)
            \<and> (\<forall>r0. idem_keys db k = Some r0 \<longrightarrow> \<not> k_done r0 \<and> k_expires r0 < now))
       \<or> (\<not> mine \<and> db' = db)"
  using assms by (auto simp: claim_def Let_def not_less split: option.splits if_splits)

lemma inv_quiet:
  assumes inv: "idem_inv fp rqs k y" and db: "is_db y' = is_db y"
    and w: "\<And>j. pc_is y' j Working \<Longrightarrow> pc_is y j Working"
    and a: "\<And>j. rq_key (rqs ! j) = k \<Longrightarrow> answered_right fp rqs y' j"
  shows "idem_inv fp rqs k y'"
proof -
  have sub: "working_on rqs y' k \<subseteq> working_on rqs y k" using w by (auto simp: working_on_def)
  have "key_ok rqs y' k"
    using inv sub by (fastforce simp: idem_inv_def key_ok_def db split: option.splits)
  moreover have "holder_ok fp rqs y' i" if "rq_key (rqs ! i) = k" for i
    using inv w that by (auto simp: idem_inv_def holder_ok_def db)
  ultimately show ?thesis using a by (simp add: idem_inv_def)
qed

text \<open>A step on another key.\<close>

lemma inv_elsewhere:
  assumes inv: "idem_inv fp rqs k y"
    and row: "idem_keys (is_db y') k = idem_keys (is_db y) k" "charges_for k (is_db y') = charges_for k (is_db y)"
    and pcs: "\<And>j q. rq_key (rqs ! j) = k \<Longrightarrow> pc_is y' j q = pc_is y j q"
  shows "idem_inv fp rqs k y'"
proof -
  have "working_on rqs y' k = working_on rqs y k" using pcs by (auto simp: working_on_def)
  with inv show ?thesis
    using pcs by (auto simp: idem_inv_def key_ok_def holder_ok_def answered_right_def row split: option.splits)
qed

lemma inv_begin:
  assumes inv: "idem_inv fp rqs k y" and r: "pc_is y i Ready"
    and c: "claim (clock y) ttl (rq_key (rqs ! i)) (fp (rq_body (rqs ! i))) (is_db y) = (mine, db)"
    and none: "mine \<Longrightarrow> rq_key (rqs ! i) = k \<Longrightarrow> working_on rqs y k = {}"
  shows "idem_inv fp rqs k (goto i (if mine then Working else Polling) (y\<lparr>is_db := db\<rparr>))"
proof -
  have il: "i < length (callers y)" using r by (simp add: pc_is_def)
  from claim_cases [OF c] show ?thesis
  proof (elim disjE conjE exE)
    fix r
    assume m: "mine" and db: "db = (is_db y)\<lparr>idem_keys := (idem_keys (is_db y))(rq_key (rqs ! i) \<mapsto> r)\<rparr>"
      and rr: "\<not> k_done r" "k_fingerprint r = fp (rq_body (rqs ! i))"
      and old: "\<forall>r0. idem_keys (is_db y) (rq_key (rqs ! i)) = Some r0 \<longrightarrow> \<not> k_done r0 \<and> k_expires r0 < clock y"
    have ch: "charges_for k db = charges_for k (is_db y)" for k by (simp add: db charges_for_def)
    show ?thesis
    proof (cases "rq_key (rqs ! i) = k")
      case False
      then show ?thesis using m by (intro inv_elsewhere [OF inv]) (auto simp: ch db pc_is_goto charges_for_def split: if_splits)
    next
      case True
      note none = none [OF m True]
      have empty: "charges_for k (is_db y) = []"
        using inv old True by (auto simp: idem_inv_def key_ok_def split: option.splits)
      have "key_ok rqs (goto i Working (y\<lparr>is_db := db\<rparr>)) k"
        using il empty rr none True by (auto simp: key_ok_def db working_on_goto charges_for_def)
      moreover have "holder_ok fp rqs (goto i Working (y\<lparr>is_db := db\<rparr>)) j" if "rq_key (rqs ! j) = k" for j
        using that True none rr by (auto simp: holder_ok_def pc_is_goto db working_on_def)
      moreover have "answered_right fp rqs (goto i Working (y\<lparr>is_db := db\<rparr>)) j" if "rq_key (rqs ! j) = k" for j
        using inv that empty by (force simp: idem_inv_def answered_right_def pc_is_goto split: if_splits)
      ultimately show ?thesis using m by (simp add: idem_inv_def)
    qed
  next
    assume m: "\<not> mine" and db: "db = is_db y"
    have "answered_right fp rqs (goto i Polling y) j" if "rq_key (rqs ! j) = k" for j
      using inv that by (auto simp: idem_inv_def answered_right_def pc_is_goto split: if_splits)
    then show ?thesis using m db by (intro inv_quiet [OF inv]) (auto simp: pc_is_goto split: if_splits)
  qed
qed

lemma insert_charge_row:
  assumes "insert_charge rp k b (db, c) = (Inr cid, (db', c'))"
  shows "\<exists>row. ch_key row = k \<and> ch_id row = cid \<and> charges db' = charges db @ [row] \<and> idem_keys db' = idem_keys db"
  using assms by (auto simp: insert_charge_def Let_def split: sum.splits)

text \<open>What the publishing transaction leaves behind.\<close>

lemma publish_cases:
  assumes "work_and_publish rp k b (db, c) = (Inr (st, p), (db', c'))"
  obtains row where "st = 201" "p = payload_of (ch_id row) False ''correct''"
    "charges_for k' db' = (if k' = k then charges_for k db @ [row] else charges_for k' db)"
    "idem_keys db' = (case idem_keys db k of None \<Rightarrow> idem_keys db
       | Some r \<Rightarrow> (idem_keys db)(k \<mapsto> r\<lparr>k_done := True, k_response := Some p\<rparr>))"
proof -
  from assms obtain cid db1 where ins: "insert_charge rp k b (db, c) = (Inr cid, (db1, c'))"
      and pp: "st = 201" "p = payload_of cid False ''correct''"
      and db: "db' = (case idem_keys db1 k of None \<Rightarrow> db1
            | Some r \<Rightarrow> db1\<lparr>idem_keys := (idem_keys db1)(k \<mapsto> r\<lparr>k_done := True, k_response := Some p\<rparr>)\<rparr>)"
    by (auto simp: work_and_publish_def Let_def split: sum.splits prod.splits)
  from insert_charge_row [OF ins] obtain row where row: "ch_key row = k" "ch_id row = cid"
      "charges db1 = charges db @ [row]" "idem_keys db1 = idem_keys db" by blast
  then show thesis by (intro that [of row]) (auto simp: pp db charges_for_def split: option.splits)
qed

lemma inv_finish:
  assumes inv: "idem_inv fp rqs k y" and w: "pc_is y i Working"
    and p: "work_and_publish rp (rq_key (rqs ! i)) (rq_body (rqs ! i)) (is_db y, is_counters y) = (Inr (st, p), (db, c))"
  shows "idem_inv fp rqs k (goto i (Answered st p) (y\<lparr>is_db := db, is_counters := c\<rparr>))" (is "idem_inv fp rqs k ?y")
proof -
  from publish_cases [OF p, of k] obtain row where pp: "st = 201" "p = payload_of (ch_id row) False ''correct''"
    and chs: "charges_for k db = (if k = rq_key (rqs ! i) then charges_for (rq_key (rqs ! i)) (is_db y) @ [row]
                else charges_for k (is_db y))"
    and keys: "idem_keys db = (case idem_keys (is_db y) (rq_key (rqs ! i)) of None \<Rightarrow> idem_keys (is_db y)
       | Some r \<Rightarrow> (idem_keys (is_db y))(rq_key (rqs ! i) \<mapsto> r\<lparr>k_done := True, k_response := Some p\<rparr>))" .
  show ?thesis
  proof (cases "rq_key (rqs ! i) = k")
    case False
    then show ?thesis by (intro inv_elsewhere [OF inv]) (auto simp: chs keys pc_is_goto split: option.split)
  next
    case True
    from inv w True obtain r where r: "idem_keys (is_db y) k = Some r" "k_fingerprint r = fp (rq_body (rqs ! i))"
      by (auto simp: idem_inv_def holder_ok_def)
    have ik: "i \<in> working_on rqs y k" using w True by (simp add: working_on_def)
    from inv have "key_ok rqs y k" by (simp add: idem_inv_def)
    with r ik have nd: "\<not> k_done r" "charges_for k (is_db y) = []" and one: "working_on rqs y k = {i}"
      by (auto simp: key_ok_def split: if_splits)
    have keys: "idem_keys db = (idem_keys (is_db y))(k \<mapsto> r\<lparr>k_done := True, k_response := Some p\<rparr>)"
      and chs: "charges_for k db = [row]" using True r nd by (simp_all add: keys chs)
    have "key_ok rqs ?y k" using one pp by (auto simp: key_ok_def keys chs working_on_goto)
    moreover have "holder_ok fp rqs ?y j" if "rq_key (rqs ! j) = k" for j
      using one that by (auto simp: holder_ok_def pc_is_goto working_on_def)
    moreover have "answered_right fp rqs ?y j" if "rq_key (rqs ! j) = k" for j
    proof (cases "j = i")
      case True
      then show ?thesis using pp r that by (auto simp: answered_right_def pc_is_goto keys chs)
    next
      case False
      have "\<not> (pc_is y j (Answered s q) \<and> (s = 200 \<or> s = 201))" for s q
        using inv that nd by (force simp: idem_inv_def answered_right_def)
      then show ?thesis using False by (auto simp: answered_right_def pc_is_goto)
    qed
    ultimately show ?thesis by (simp add: idem_inv_def)
  qed
qed

lemma inv_poll:
  assumes inv: "idem_inv fp rqs k y" and k: "rq_key (rqs ! i) = k" and w: "pc_is y i Polling"
    and p: "replay_poll (rq_key (rqs ! i)) (fp (rq_body (rqs ! i))) e (is_db y, is_counters y) = (Some (st, p), c)"
  shows "answered_right fp rqs (goto i (Answered st p) (y\<lparr>is_counters := c\<rparr>)) i"
proof -
  have "\<exists>ch r. charges_for k (is_db y) = [ch] \<and> p = payload_of (ch_id ch) True ''correct''
       \<and> idem_keys (is_db y) k = Some r \<and> k_done r \<and> k_fingerprint r = fp (rq_body (rqs ! i))" if "st = 200 \<or> st = 201"
  proof -
    from p that k obtain r resp where r: "idem_keys (is_db y) k = Some r" "k_fingerprint r = fp (rq_body (rqs ! i))"
        "k_done r" "k_response r = Some resp" "p = set_replayed resp"
      by (auto simp: replay_poll_def split: option.splits if_splits bool.splits)
    from inv have "key_ok rqs y k" by (simp add: idem_inv_def)
    with r obtain ch where "charges_for k (is_db y) = [ch]" "resp = payload_of (ch_id ch) False ''correct''"
      by (auto simp: key_ok_def)
    then show ?thesis using r by (auto simp: set_replayed_def payload_of_def)
  qed
  moreover have "st \<noteq> 201" using p by (auto simp: replay_poll_def split: option.splits if_splits bool.splits)
  ultimately show ?thesis using k by (auto simp: answered_right_def pc_is_goto)
qed

lemma inv_step:
  assumes inv: "idem_inv fp rqs k y" and nt: "\<not> takes_over fp cfg rqs e y k" and s: "idem_apply fp rp cfg rqs e y = Some y'"
  shows "idem_inv fp rqs k y'"
proof (cases e)
  case (Begin i)
  with s obtain mine db where b: "pc_is y i Ready"
      "claim (clock y) (cfg_int cfg ''IDEMPOTENCY_TTL_S'') (rq_key (rqs ! i)) (fp (rq_body (rqs ! i))) (is_db y) = (mine, db)"
      "y' = goto i (if mine then Working else Polling) (y\<lparr>is_db := db\<rparr>)"
    by (auto simp del: goto_db split: if_split_asm prod.splits)
  have "working_on rqs y k = {}" if "mine" "rq_key (rqs ! i) = k"
    using nt b(1,2) that by (auto simp: takes_over_def Begin)
  with inv_begin [OF inv b(1,2)] b(3) show ?thesis by blast
next
  case (Finish i)
  show ?thesis
  proof (cases "fst (work_and_publish rp (rq_key (rqs ! i)) (rq_body (rqs ! i)) (is_db y, is_counters y))")
    case (Inl err)
    with s Finish have "y' = goto i Dead y" by (auto split: if_splits prod.splits sum.splits)
    then show ?thesis using inv by (intro inv_quiet [OF inv]) (auto simp: pc_is_goto idem_inv_def answered_right_def split: if_splits)
  next
    case (Inr a)
    with s Finish show ?thesis using inv_finish [OF inv] by (auto split: if_splits prod.splits sum.splits)
  qed
next
  case (Crash i)
  with s have "y' = goto i Dead y" by (auto split: if_splits)
  then show ?thesis using inv by (intro inv_quiet [OF inv]) (auto simp: pc_is_goto idem_inv_def answered_right_def split: if_splits)
next
  case (Poll i ex)
  with s obtain ans c where rp: "pc_is y i Polling" "replay_poll (rq_key (rqs ! i)) (fp (rq_body (rqs ! i))) ex (is_db y, is_counters y) = (ans, c)"
    and y': "y' = (case ans of Some (st, p) \<Rightarrow> goto i (Answered st p) (y\<lparr>is_counters := c\<rparr>) | None \<Rightarrow> y\<lparr>is_counters := c\<rparr>)"
    by (auto split: if_splits prod.splits option.splits)
  show ?thesis
  proof (cases ans)
    case None
    with y' show ?thesis using inv by (intro inv_quiet [OF inv]) (auto simp: idem_inv_def answered_right_def)
  next
    case (Some a)
    obtain st p where a: "a = (st, p)" by (cases a)
    have "answered_right fp rqs y' j" if j: "rq_key (rqs ! j) = k" for j
    proof (cases "j = i")
      case True
      then show ?thesis using inv_poll [OF inv _ rp(1)] rp(2) y' Some a j by simp
    next
      case False
      then show ?thesis using inv y' Some a j by (auto simp: idem_inv_def answered_right_def pc_is_goto)
    qed
    then show ?thesis using y' Some a by (intro inv_quiet [OF inv]) (auto simp: pc_is_goto split: if_splits)
  qed
next
  case (Tick u)
  with s have "y' = y\<lparr>clock := u\<rparr>" by (auto split: if_splits)
  then show ?thesis using inv by (intro inv_quiet [OF inv]) (auto simp: idem_inv_def answered_right_def)
qed

text \<open>Whatever happens, a key has at most one charge or live holder more than it had takeovers.\<close>

definition claim_books :: "request list \<Rightarrow> string \<Rightarrow> nat \<Rightarrow> idem_sys \<Rightarrow> bool" where
  "claim_books rqs k t y \<longleftrightarrow>
     length (charges_for k (is_db y)) + card (working_on rqs y k) \<le> 1 + t
     \<and> (case idem_keys (is_db y) k of
          None \<Rightarrow> charges_for k (is_db y) = [] \<and> working_on rqs y k = {}
        | Some r \<Rightarrow> \<not> k_done r \<longrightarrow> charges_for k (is_db y) = [])"

lemma finite_working [simp]: "finite (working_on rqs y k)"
  by (rule finite_subset [of _ "{..<length (callers y)}"]) (auto simp: working_on_def pc_is_def)

lemma books_fewer:
  assumes "claim_books rqs k t y" "idem_keys (is_db y') k = idem_keys (is_db y) k"
    and "charges_for k (is_db y') = charges_for k (is_db y)" "working_on rqs y' k \<subseteq> working_on rqs y k"
  shows "claim_books rqs k t y'"
  using assms card_mono [OF finite_working assms(4)] by (auto simp: claim_books_def split: option.splits)

lemma books_begin:
  assumes b: "claim_books rqs k t y" and r: "pc_is y i Ready"
    and c: "claim (clock y) ttl (rq_key (rqs ! i)) (fp (rq_body (rqs ! i))) (is_db y) = (mine, db)"
  shows "claim_books rqs k (t + of_bool (mine \<and> rq_key (rqs ! i) = k \<and> working_on rqs y k \<noteq> {}))
    (goto i (if mine then Working else Polling) (y\<lparr>is_db := db\<rparr>))"
proof -
  have i: "i < length (callers y)" "i \<notin> working_on rqs y k" using r by (simp_all add: pc_is_def working_on_def)
  from claim_cases [OF c] show ?thesis
  proof (elim disjE conjE exE)
    fix r
    assume m: "mine" and db: "db = (is_db y)\<lparr>idem_keys := (idem_keys (is_db y))(rq_key (rqs ! i) \<mapsto> r)\<rparr>"
      and rr: "\<not> k_done r"
      and old: "\<forall>r0. idem_keys (is_db y) (rq_key (rqs ! i)) = Some r0 \<longrightarrow> \<not> k_done r0 \<and> k_expires r0 < clock y"
    have ch: "charges_for k db = charges_for k (is_db y)" by (simp add: db charges_for_def)
    show ?thesis
    proof (cases "rq_key (rqs ! i) = k")
      case True
      have "charges_for k (is_db y) = []" using b old True by (auto simp: claim_books_def split: option.splits)
      then show ?thesis using b i m rr True
        by (cases "working_on rqs y k = {}") (simp_all add: claim_books_def ch working_on_goto, simp_all add: db charges_for_def)
    next
      case False
      then show ?thesis using m i
        by (simp add: ch) (rule books_fewer [OF b], auto simp: db working_on_goto charges_for_def)
    qed
  qed (use i in \<open>auto intro!: books_fewer [OF b] simp: working_on_goto\<close>)
qed

lemma books_finish:
  assumes b: "claim_books rqs k t y" and w: "pc_is y i Working"
    and pub: "work_and_publish rp (rq_key (rqs ! i)) (rq_body (rqs ! i)) (is_db y, is_counters y) = (Inr (st, p), (db, c))"
  shows "claim_books rqs k t (goto i (Answered st p) (y\<lparr>is_db := db, is_counters := c\<rparr>))"
proof -
  from publish_cases [OF pub, of k] obtain row where
    chs: "charges_for k db = (if k = rq_key (rqs ! i) then charges_for (rq_key (rqs ! i)) (is_db y) @ [row]
              else charges_for k (is_db y))"
    and keys: "idem_keys db = (case idem_keys (is_db y) (rq_key (rqs ! i)) of None \<Rightarrow> idem_keys (is_db y)
     | Some r \<Rightarrow> (idem_keys (is_db y))(rq_key (rqs ! i) \<mapsto> r\<lparr>k_done := True, k_response := Some p\<rparr>))" .
  show ?thesis
  proof (cases "rq_key (rqs ! i) = k")
    case False
    then show ?thesis by (intro books_fewer [OF b]) (auto simp: chs keys working_on_goto split: option.split)
  next
    case True
    then have i: "i \<in> working_on rqs y k" using w by (simp add: working_on_def)
    then obtain r where "idem_keys (is_db y) k = Some r" using b by (auto simp: claim_books_def split: option.splits)
    moreover have "card (working_on rqs y k) = Suc (card (working_on rqs y k - {i}))"
      using i by (metis card_Suc_Diff1 finite_working)
    ultimately show ?thesis using b True by (simp add: claim_books_def chs keys working_on_goto)
  qed
qed

lemma claim_books_step:
  assumes b: "claim_books rqs k t y" and s: "idem_apply fp rp cfg rqs e y = Some y'"
  shows "claim_books rqs k (t + of_bool (takes_over fp cfg rqs e y k)) y'"
proof (cases e)
  case (Begin i)
  with s obtain mine db where r: "pc_is y i Ready" and
      c: "claim (clock y) (cfg_int cfg ''IDEMPOTENCY_TTL_S'') (rq_key (rqs ! i)) (fp (rq_body (rqs ! i))) (is_db y) = (mine, db)"
      and y': "y' = goto i (if mine then Working else Polling) (y\<lparr>is_db := db\<rparr>)"
    by (auto simp del: goto_db split: if_split_asm prod.splits)
  have "takes_over fp cfg rqs e y k \<longleftrightarrow> mine \<and> rq_key (rqs ! i) = k \<and> working_on rqs y k \<noteq> {}"
    using r c by (auto simp: takes_over_def Begin)
  with books_begin [where fp = fp, OF b r c] y' show ?thesis by simp
next
  case (Finish i)
  show ?thesis
  proof (cases "fst (work_and_publish rp (rq_key (rqs ! i)) (rq_body (rqs ! i)) (is_db y, is_counters y))")
    case (Inl err)
    with s Finish have "y' = goto i Dead y" by (auto split: if_splits prod.splits sum.splits)
    then show ?thesis using Finish
      by (simp add: takes_over_def) (rule books_fewer [OF b], auto simp: working_on_goto)
  next
    case (Inr a)
    with s Finish obtain st p db c where w: "pc_is y i Working" and
      pub: "work_and_publish rp (rq_key (rqs ! i)) (rq_body (rqs ! i)) (is_db y, is_counters y) = (Inr (st, p), (db, c))"
      and y': "y' = goto i (Answered st p) (y\<lparr>is_db := db, is_counters := c\<rparr>)"
      by (auto split: if_splits prod.splits sum.splits)
    have "claim_books rqs k t y'" unfolding y' by (rule books_finish [OF b w pub])
    then show ?thesis by (simp add: takes_over_def Finish)
  qed
next
  case (Crash i)
  with s have "y' = goto i Dead y" by (auto split: if_splits)
  then show ?thesis using Crash by (simp add: takes_over_def) (rule books_fewer [OF b], auto simp: working_on_goto)
next
  case (Poll i ex)
  with s have "is_db y' = is_db y \<and> (\<exists>p z. y' = z \<or> y' = goto i p z \<and> p \<noteq> Working \<and> z = y\<lparr>is_counters := is_counters z\<rparr>)
      \<and> working_on rqs y' k \<subseteq> working_on rqs y k"
    by (auto simp: working_on_goto split: if_splits prod.splits option.splits)
  then show ?thesis using Poll by (simp add: takes_over_def) (rule books_fewer [OF b], auto)
next
  case (Tick u)
  with s have "y' = y\<lparr>clock := u\<rparr>" by (auto split: if_splits)
  then show ?thesis using Tick by (simp add: takes_over_def) (rule books_fewer [OF b], auto)
qed

text \<open>Along a run.\<close>

lemma claim_books_run:
  "idem_run fp rp cfg rqs es y = Some y' \<Longrightarrow> claim_books rqs k t y
   \<Longrightarrow> claim_books rqs k (t + takeovers fp rp cfg rqs es y k) y'"
proof (induction es arbitrary: y t)
  case (Cons e es)
  then obtain z where z: "idem_apply fp rp cfg rqs e y = Some z" "idem_run fp rp cfg rqs es z = Some y'"
    by (auto split: option.splits)
  from Cons.IH [OF z(2) claim_books_step [OF Cons.prems(2) z(1)]] z(1) show ?case by (simp add: add.assoc)
qed simp

lemma inv_run:
  "idem_run fp rp cfg rqs es y = Some y' \<Longrightarrow> takeovers fp rp cfg rqs es y k = 0 \<Longrightarrow> idem_inv fp rqs k y
   \<Longrightarrow> idem_inv fp rqs k y'"
proof (induction es arbitrary: y)
  case (Cons e es)
  then obtain z where z: "idem_apply fp rp cfg rqs e y = Some z" "idem_run fp rp cfg rqs es z = Some y'"
    by (auto split: option.splits)
  with Cons.prems(2) have "\<not> takes_over fp cfg rqs e y k" "takeovers fp rp cfg rqs es z k = 0" by (auto split: if_splits)
  with Cons.IH [OF z(2)] inv_step [OF Cons.prems(3) _ z(1)] show ?case by blast
qed simp

lemma timely_run_is_run: "timely_run fp rp cfg rqs es y = Some y' \<Longrightarrow> idem_run fp rp cfg rqs es y = Some y'"
  by (induction es arbitrary: y) (auto split: option.splits if_splits)

lemma timely_no_takeover:
  assumes b: "claim_books rqs k t y" and t: "timely_check rqs y"
  shows "\<not> takes_over fp cfg rqs e y k"
proof
  assume "takes_over fp cfg rqs e y k"
  then obtain i where i: "working_on rqs y k \<noteq> {}"
    "fst (claim (clock y) (cfg_int cfg ''IDEMPOTENCY_TTL_S'') k (fp (rq_body (rqs ! i))) (is_db y))"
    by (auto simp: takes_over_def split: idem_event.splits)
  then obtain j where j: "j < length (callers y)" "callers y ! j = Working" "rq_key (rqs ! j) = k"
    by (auto simp: working_on_def pc_is_def)
  with t obtain r where r: "idem_keys (is_db y) k = Some r" "clock y \<le> k_expires r"
    by (auto simp: timely_check_def list_all_iff split: option.splits)
  from i(2) r show False by (simp add: claim_def Let_def split: if_splits)
qed

lemma timely_run_takeovers:
  "timely_run fp rp cfg rqs es y = Some y' \<Longrightarrow> timely_check rqs y \<Longrightarrow> claim_books rqs k t y
   \<Longrightarrow> takeovers fp rp cfg rqs es y k = 0"
proof (induction es arbitrary: y t)
  case (Cons e es)
  then obtain z where z: "idem_apply fp rp cfg rqs e y = Some z" "timely_check rqs z" "timely_run fp rp cfg rqs es z = Some y'"
    by (auto split: option.splits if_splits)
  from Cons.IH [OF z(3,2) claim_books_step [OF Cons.prems(3) z(1)]] timely_no_takeover [OF Cons.prems(3,2), of fp cfg e] z(1)
  show ?case by simp
qed simp

text \<open>C1. In the claiming mode a key is charged once, and once more at most for each time its claim was taken
  over from a caller still at work, in every interleaving of claims, work, crashes, polls and clock ticks. Under
  a key whose claim was never taken over, every caller that is told "done" (201 for the one that did the work,
  200 for a replay) is told the id of the one charge, under the fingerprint of the caller's own body. And no
  claim is taken over while holders finish or die within \<^verbatim>\<open>IDEMPOTENCY_TTL_S\<close>.\<close>

theorem idem_exactly_once:
  assumes "idem_run fp rp cfg rqs es (idem_start rqs) = Some y"
  shows "length (charges_for k (is_db y)) \<le> 1 + takeovers fp rp cfg rqs es (idem_start rqs) k
    \<and> (takeovers fp rp cfg rqs es (idem_start rqs) k = 0 \<longrightarrow>
         (\<forall>i st p. rq_key (rqs ! i) = k \<longrightarrow> pc_is y i (Answered st p) \<longrightarrow> st = 200 \<or> st = 201 \<longrightarrow>
            (\<exists>c r. charges_for k (is_db y) = [c] \<and> p = payload_of (ch_id c) (st = 200) ''correct''
               \<and> idem_keys (is_db y) k = Some r \<and> k_fingerprint r = fp (rq_body (rqs ! i)))))
    \<and> (timely_run fp rp cfg rqs es (idem_start rqs) = Some y \<longrightarrow> takeovers fp rp cfg rqs es (idem_start rqs) k = 0)"
proof -
  have start: "claim_books rqs k 0 (idem_start rqs)"
    by (simp add: claim_books_def idem_start_pcs empty_lab_db_def charges_for_def)
  have "timely_check rqs (idem_start rqs)" by (simp add: timely_check_def list_all_iff) (simp add: idem_start_def)
  then have "timely_run fp rp cfg rqs es (idem_start rqs) = Some y \<longrightarrow> takeovers fp rp cfg rqs es (idem_start rqs) k = 0"
    using timely_run_takeovers start by blast
  moreover have "length (charges_for k (is_db y)) \<le> 1 + takeovers fp rp cfg rqs es (idem_start rqs) k"
    using claim_books_run [OF assms start] by (simp add: claim_books_def)
  moreover have "idem_inv fp rqs k y" if "takeovers fp rp cfg rqs es (idem_start rqs) k = 0"
    by (rule inv_run [OF assms that idem_inv_start])
  ultimately show ?thesis unfolding idem_inv_def answered_right_def by metis
qed

definition two_calls :: "request list" where
  "two_calls = [\<lparr>rq_key = ''k1'', rq_body = [(''amount_cents'', JInt 500)]\<rparr>, \<lparr>rq_key = ''k1'', rq_body = [(''amount_cents'', JInt 500)]\<rparr>]"

definition no_repr :: "json \<Rightarrow> string" where
  "no_repr j = []"

definition fp_amount :: "body \<Rightarrow> string" where
  "fp_amount b = py_str no_repr (body_get b ''amount_cents'' (JInt 100))"

theorem idem_exactly_once_witness:
  "\<exists>y. idem_run fp_amount no_repr sample_config two_calls [Begin 0, Begin 1, Poll 1 False, Finish 0, Poll 1 False] (idem_start two_calls) = Some y
     \<and> length (charges_for ''k1'' (is_db y)) \<le> 1
     \<and> callers y = [Answered 201 (payload_of 1 False ''correct''), Answered 200 (payload_of 1 True ''correct'')]"
proof -
  let ?es = "[Begin 0, Begin 1, Poll 1 False, Finish 0, Poll 1 False]"
  let ?r = "timely_run fp_amount no_repr sample_config two_calls ?es (idem_start two_calls)"
  have "case ?r of None \<Rightarrow> False | Some y \<Rightarrow>
      callers y = [Answered 201 (payload_of 1 False ''correct''), Answered 200 (payload_of 1 True ''correct'')]"
    by code_simp
  then obtain y where y: "?r = Some y"
      "callers y = [Answered 201 (payload_of 1 False ''correct''), Answered 200 (payload_of 1 True ''correct'')]"
    by (auto split: option.splits)
  have run: "idem_run fp_amount no_repr sample_config two_calls ?es (idem_start two_calls) = Some y"
    by (rule timely_run_is_run [OF y(1)])
  have "length (charges_for ''k1'' (is_db y)) \<le> 1"
    using idem_exactly_once [OF run, of "''k1''"] y(1) by (elim conjE) (simp only: simp_thms add_0_right)
  with run y(2) show ?thesis by blast
qed

definition five :: body where
  "five = [(''amount_cents'', JInt 500)]"

definition nine :: body where
  "nine = [(''amount_cents'', JInt 900)]"

definition stolen_calls :: "request list" where
  "stolen_calls = [\<lparr>rq_key = ''k'', rq_body = five\<rparr>, \<lparr>rq_key = ''k'', rq_body = nine\<rparr>, \<lparr>rq_key = ''k'', rq_body = five\<rparr>]"

lemma stolen_calls_nth [simp]:
  "rq_key (stolen_calls ! 0) = ''k''" "rq_key (stolen_calls ! 1) = ''k''" "rq_key (stolen_calls ! 2) = ''k''"
  "rq_key (stolen_calls ! Suc 0) = ''k''" "rq_body (stolen_calls ! Suc 0) = nine"
  "rq_body (stolen_calls ! 0) = five" "rq_body (stolen_calls ! 1) = nine" "rq_body (stolen_calls ! 2) = five"
  by (simp_all add: stolen_calls_def)

lemma amounts [simp]: "body_get five ''amount_cents'' d = JInt 500" "body_get nine ''amount_cents'' d = JInt 900"
  "body_get five ''currency'' d = d" "body_get nine ''currency'' d = d"
  by (simp_all add: body_get_def five_def nine_def)

lemma idem_run_step: "idem_apply fp rp cfg rqs e y = Some y' \<Longrightarrow> idem_run fp rp cfg rqs (e # es) y = idem_run fp rp cfg rqs es y'"
  by simp

abbreviation "stolen_row f d r x \<equiv> \<lparr>k_fingerprint = f, k_done = d, k_response = r, k_expires = x\<rparr>"
abbreviation "stolen_sys chs n kr c t pcs \<equiv>
  \<lparr>is_db = \<lparr>charges = chs, next_charge = n, idem_keys = [''k'' \<mapsto> kr]\<rparr>, is_counters = c, clock = t, callers = pcs\<rparr>"
abbreviation "usd i a \<equiv> \<lparr>ch_id = i, ch_key = ''k'', ch_amount = a, ch_currency = ''usd''\<rparr>"
abbreviation "paid i \<equiv> payload_of i False ''correct''"

lemma ttl_sample: "cfg_int sample_config ''IDEMPOTENCY_TTL_S'' = 60" by code_simp

lemma stolen_steps:
  assumes "fp five \<noteq> fp nine"
  shows "idem_apply fp rp sample_config stolen_calls (Begin 0) (idem_start stolen_calls)
       = Some (stolen_sys [] 1 (stolen_row (fp five) False None 60) (new_counters 0) 0 [Working, Ready, Ready])"
    and "idem_apply fp rp sample_config stolen_calls (Tick 61) (stolen_sys [] 1 kr c 0 pcs) = Some (stolen_sys [] 1 kr c 61 pcs)"
    and "idem_apply fp rp sample_config stolen_calls (Begin 1)
         (stolen_sys [] 1 (stolen_row (fp five) False None 60) c 61 [Working, Ready, Ready])
       = Some (stolen_sys [] 1 (stolen_row (fp nine) False None 121) c 61 [Working, Working, Ready])"
    and "idem_apply fp rp sample_config stolen_calls (Finish 0)
         (stolen_sys [] 1 (stolen_row (fp nine) False None 121) c 61 [Working, Working, Ready])
       = Some (stolen_sys [usd 1 500] 2 (stolen_row (fp nine) True (Some (paid 1)) 121) (inc ''charges'' c) 61 [Answered 201 (paid 1), Working, Ready])"
    and "idem_apply fp rp sample_config stolen_calls (Finish 1)
         (stolen_sys [usd 1 500] 2 (stolen_row (fp nine) True (Some (paid 1)) 121) c 61 [Answered 201 (paid 1), Working, Ready])
       = Some (stolen_sys [usd 1 500, usd 2 900] 3 (stolen_row (fp nine) True (Some (paid 2)) 121) (inc ''charges'' c) 61
           [Answered 201 (paid 1), Answered 201 (paid 2), Ready])"
    and "idem_apply fp rp sample_config stolen_calls (Begin 2)
         (stolen_sys chs 3 (stolen_row (fp nine) True r 121) c 61 [a1, a2, Ready])
       = Some (stolen_sys chs 3 (stolen_row (fp nine) True r 121) c 61 [a1, a2, Polling])"
    and "idem_apply fp rp sample_config stolen_calls (Poll 2 e)
         (stolen_sys chs 3 (stolen_row (fp nine) True r 121) c 61 [a1, a2, Polling])
       = Some (stolen_sys chs 3 (stolen_row (fp nine) True r 121) (inc ''fingerprint_rejects'' c) 61 [a1, a2, Answered 422 reused_payload])"
proof -
  note defs = pc_is_def goto_def claim_def Let_def ttl_sample work_and_publish_def insert_charge_def replay_poll_def
  show "idem_apply fp rp sample_config stolen_calls (Begin 0) (idem_start stolen_calls)
       = Some (stolen_sys [] 1 (stolen_row (fp five) False None 60) (new_counters 0) 0 [Working, Ready, Ready])"
    by (simp add: defs idem_start_def empty_lab_db_def) (simp add: stolen_calls_def)
qed (use assms in \<open>simp_all add: ttl_sample pc_is_def goto_def claim_def Let_def work_and_publish_def insert_charge_def replay_poll_def\<close>)

text \<open>The claim's expiry is not fenced. If the work outlives \<^verbatim>\<open>IDEMPOTENCY_TTL_S\<close> the claim is
  taken over while its holder is still working, and both charge: two charges for one key, two answers
  201. The taker may even come with a different body: its fingerprint replaces the stored one without
  a 422, and a retry of the original request is then refused as a key reused with a different body,
  although its money was taken.\<close>

theorem idem_stolen_claim:
  assumes "fp five \<noteq> fp nine"
  shows "\<exists>y. idem_run fp rp sample_config stolen_calls [Begin 0, Tick 61, Begin 1, Finish 0, Finish 1, Begin 2, Poll 2 False]
      (idem_start stolen_calls) = Some y
    \<and> map ch_amount (charges_for ''k'' (is_db y)) = [500, 900]
    \<and> callers y = [Answered 201 (payload_of 1 False ''correct''), Answered 201 (payload_of 2 False ''correct''),
                   Answered 422 reused_payload]"
proof -
  note st = stolen_steps [OF assms]
  show ?thesis
    apply (subst idem_run_step [OF st(1)])
    apply (subst idem_run_step [OF st(2)])
    apply (subst idem_run_step [OF st(3)])
    apply (subst idem_run_step [OF st(4)])
    apply (subst idem_run_step [OF st(5)])
    apply (subst idem_run_step [OF st(6)])
    apply (subst idem_run_step [OF st(7)])
    apply (simp add: charges_for_def)
    done
qed

theorem idem_stolen_claim_witness:
  "fp_amount five \<noteq> fp_amount nine
   \<and> (\<exists>y. idem_run fp_amount no_repr sample_config stolen_calls [Begin 0, Tick 61, Begin 1, Finish 0, Finish 1, Begin 2, Poll 2 False]
        (idem_start stolen_calls) = Some y
      \<and> map ch_amount (charges_for ''k'' (is_db y)) = [500, 900])"
proof -
  have ne: "fp_amount five \<noteq> fp_amount nine" by code_simp
  obtain y where "idem_run fp_amount no_repr sample_config stolen_calls [Begin 0, Tick 61, Begin 1, Finish 0, Finish 1, Begin 2, Poll 2 False]
        (idem_start stolen_calls) = Some y" "map ch_amount (charges_for ''k'' (is_db y)) = [500, 900]"
    using idem_stolen_claim [OF ne, of no_repr] by (elim exE conjE)
  with ne show ?thesis by (intro conjI exI)
qed

subsection \<open>The naive race\<close>

datatype naive_caller =
    NReady
  | NSaw
  | NDone int json

record naive_sys =
  ns_db :: lab_db
  ns_counters :: counters
  ns_pc :: "naive_caller list"

datatype naive_event = NLook nat | NCommit nat

fun naive_apply :: "(json \<Rightarrow> string) \<Rightarrow> string \<Rightarrow> body list \<Rightarrow> naive_event \<Rightarrow> naive_sys \<Rightarrow> naive_sys option" where
  "naive_apply rp key bodies (NLook i) y =
     (if i < length (ns_pc y) \<and> ns_pc y ! i = NReady then
        Some (y\<lparr>ns_pc := (ns_pc y)[i := (case naive_look key (ns_db y) of None \<Rightarrow> NSaw
                 | Some cid \<Rightarrow> NDone 200 (payload_of cid True ''naive''))]\<rparr>)
      else None)"
| "naive_apply rp key bodies (NCommit i) y =
     (if i < length (ns_pc y) \<and> ns_pc y ! i = NSaw then
        case insert_charge rp key (bodies ! i) (ns_db y, ns_counters y) of
          (Inr cid, (db, c)) \<Rightarrow> Some (y\<lparr>ns_db := db, ns_counters := c, ns_pc := (ns_pc y)[i := NDone 201 (payload_of cid False ''naive'')]\<rparr>)
        | (Inl e, _) \<Rightarrow> None
      else None)"

fun naive_run :: "(json \<Rightarrow> string) \<Rightarrow> string \<Rightarrow> body list \<Rightarrow> naive_event list \<Rightarrow> naive_sys \<Rightarrow> naive_sys option" where
  "naive_run rp key bodies [] y = Some y"
| "naive_run rp key bodies (e # es) y =
     (case naive_apply rp key bodies e y of None \<Rightarrow> None | Some y' \<Rightarrow> naive_run rp key bodies es y')"

definition naive_start :: "nat \<Rightarrow> naive_sys" where
  "naive_start n = \<lparr>ns_db = empty_lab_db, ns_counters = new_counters 0, ns_pc = replicate n NReady\<rparr>"

lemma naive_run_append:
  "naive_run rp key bodies (xs @ ys) y =
     (case naive_run rp key bodies xs y of None \<Rightarrow> None | Some z \<Rightarrow> naive_run rp key bodies ys z)"
  by (induction xs arbitrary: y) (auto split: option.splits)

lemma naive_looks:
  "i \<le> n \<Longrightarrow> naive_run rp key bodies (map NLook [0..<i]) (naive_start n)
     = Some (naive_start n\<lparr>ns_pc := replicate i NSaw @ replicate (n - i) NReady\<rparr>)"
proof (induction i)
  case (Suc i)
  then have r: "replicate (n - i) NReady = NReady # replicate (n - Suc i) NReady" by (simp add: Suc_diff_Suc flip: replicate_Suc)
  have "(replicate i NSaw @ NReady # zs)[i := NSaw] = replicate (Suc i) NSaw @ zs" for zs
    by (simp add: list_update_append replicate_app_Cons_same)
  with Suc r show ?case
    by (simp add: naive_run_append naive_start_def naive_look_def empty_lab_db_def nth_append)
qed (simp add: naive_start_def)

definition committed :: "nat \<Rightarrow> nat \<Rightarrow> string \<Rightarrow> naive_sys \<Rightarrow> bool" where
  "committed i n key y \<longleftrightarrow> length (charges_for key (ns_db y)) = i \<and> next_charge (ns_db y) = 1 + int i
     \<and> ns_pc y = map (\<lambda>j. NDone 201 (payload_of (1 + int j) False ''naive'')) [0..<i] @ replicate (n - i) NSaw"

lemma naive_commits:
  assumes "\<forall>b\<in>set bodies. \<exists>a. json_int (body_get b ''amount_cents'' (JInt 100)) = Inr a"
    and "length bodies = n" and "committed 0 n key y"
  shows "i \<le> n \<Longrightarrow> \<exists>y'. naive_run rp key bodies (map NCommit [0..<i]) y = Some y' \<and> committed i n key y'"
proof (induction i)
  case 0
  then show ?case using assms(3) by simp
next
  case (Suc i)
  then obtain z where z: "naive_run rp key bodies (map NCommit [0..<i]) y = Some z" "committed i n key z" by auto
  have "bodies ! i \<in> set bodies" using Suc.prems assms(2) by simp
  then obtain a where a: "json_int (body_get (bodies ! i) ''amount_cents'' (JInt 100)) = Inr a" using assms(1) by blast
  have "replicate (n - i) NSaw = NSaw # replicate (n - Suc i) NSaw"
    using Suc.prems by (simp add: Suc_diff_Suc flip: replicate_Suc)
  with z a Suc.prems show ?case
    by (simp add: naive_run_append insert_charge_def committed_def Let_def nth_append list_update_append charges_for_def)
qed

text \<open>The naive mode charges once per racer: when \<open>n\<close> requests with the same key run their
  \<^verbatim>\<open>SELECT\<close> before any of them commits, the run goes through and leaves \<open>n\<close> charges for the key, every
  caller answered 201 with a charge of its own.\<close>

theorem naive_race_charges_everyone:
  assumes "\<forall>b\<in>set bodies. \<exists>a. json_int (body_get b ''amount_cents'' (JInt 100)) = Inr a"
  shows "\<exists>y. naive_run rp key bodies (map NLook [0..<length bodies] @ map NCommit [0..<length bodies]) (naive_start (length bodies)) = Some y
     \<and> length (charges_for key (ns_db y)) = length bodies
     \<and> ns_pc y = map (\<lambda>j. NDone 201 (payload_of (1 + int j) False ''naive'')) [0..<length bodies]"
proof -
  let ?y = "naive_start (length bodies)\<lparr>ns_pc := replicate (length bodies) NSaw\<rparr>"
  have "committed 0 (length bodies) key ?y"
    by (simp add: committed_def naive_start_def empty_lab_db_def charges_for_def)
  from naive_commits [OF assms refl this order_refl, of rp]
  show ?thesis using naive_looks [of "length bodies" "length bodies" rp key bodies]
    by (auto simp: naive_run_append committed_def)
qed

theorem naive_race_charges_everyone_witness:
  "\<exists>y. naive_run no_repr ''k'' [[(''amount_cents'', JInt 5)], []] [NLook 0, NLook 1, NCommit 0, NCommit 1] (naive_start 2) = Some y
     \<and> length (charges_for ''k'' (ns_db y)) = 2"
proof -
  have "\<forall>b\<in>set [[(''amount_cents'', JInt 5)], []]. \<exists>a. json_int (body_get b ''amount_cents'' (JInt 100)) = Inr a"
    by (simp add: body_get_def)
  from naive_race_charges_everyone [OF this, of no_repr "''k''"] show ?thesis
    by (simp add: upt_rec numeral_2_eq_2 del: naive_run.simps naive_apply.simps) blast
qed

end
