(* ===== verification/Lab_Service.thy ===== *)
theory Lab_Service
  imports Lab_Retry Lab_Backends Lab_Fanout Lab_Idempotency
begin

text \<open>
  \<^verbatim>\<open>05-failure/lab/app/main.py\<close>: one request through the service. The process state extends the
  counters and the retry budget with everything the handlers share; the writes sent to Redis are kept
  as a log, and the record can be extended by the state of the process behind this one. What other tasks do
  while a request is suspended enters as functions on that state; clock readings, random draws and the
  answers of drivers enter through the request's environment. \<open>run_handler\<close> is the pass of a request nobody
  cancels; the theory Lab_Requests cuts it at its awaits and adds cancellation.
\<close>

record proc = retry_world +
  p_faults :: faults
  p_shed :: shedder
  p_hedge :: hedge_bucket
  p_lat :: backend_latency
  p_dns :: dns_cache
  p_engine :: "engine_key option"
  p_report :: "report_pool option"
  p_db :: lab_db
  p_redis :: "(string \<times> string \<times> int) list"

definition new_proc :: "rat \<Rightarrow> proc" where
  "new_proc now = \<lparr>w_counters = new_counters now, w_budget = new_retry_bucket, p_faults = no_faults,
     p_shed = new_shedder, p_hedge = new_hedge_bucket, p_lat = new_backend_latency 2000, p_dns = (0, []),
     p_engine = None, p_report = None, p_db = empty_lab_db, p_redis = []\<rparr>"

record outcome =
  status :: int
  payload :: json
  o_headers :: "(string \<times> string) list"

record response =
  r_status :: int
  r_payload :: json
  r_headers :: "(string \<times> string) list"
  r_label :: string

text \<open>\<^verbatim>\<open>d[k] = v\<close>, \<^verbatim>\<open>d.update\<close> and \<^verbatim>\<open>d.setdefault\<close> on an ordered dictionary.\<close>

definition dict_update :: "(string \<times> string) list \<Rightarrow> (string \<times> string) list \<Rightarrow> (string \<times> string) list" where
  "dict_update d new = foldl (\<lambda>d (k, v). AList.update k v d) d new"

definition set_default :: "string \<Rightarrow> string \<Rightarrow> (string \<times> string) list \<Rightarrow> (string \<times> string) list" where
  "set_default k v d = (if map_of d k = None then d @ [(k, v)] else d)"

text \<open>What one pass through \<^verbatim>\<open>run_handler\<close> reads: the clock (in milliseconds) at each use, the draws of
  the fault injector, elapsed times in seconds, the pool gauge, and for a request that has to wait
  for admission the wake-ups it gets, each with what the process did meanwhile and whether the wait
  has expired by then.\<close>

record 'p handler_env =
  he_mint :: rat
  he_reject :: rat
  he_left :: rat
  he_done :: rat
  he_header :: rat
  he_error_draw :: rat
  he_drop_draw :: rat
  he_elapsed :: rat
  he_respond :: rat
  he_queue_wait :: rat
  he_pool_in_use :: int
  he_wakes :: "(('p \<Rightarrow> 'p) \<times> bool) list"
  he_rt :: "rat \<Rightarrow> rat"

definition check_admission :: "config \<Rightarrow> int \<Rightarrow> bool \<Rightarrow> 'd proc_scheme \<Rightarrow> verdict \<times> 'd proc_scheme" where
  "check_admission cfg tier expired p =
     (let (v, s, c) = acquire_check cfg tier expired (p_shed p, w_counters p) in (v, p\<lparr>p_shed := s, w_counters := c\<rparr>))"

text \<open>\<^verbatim>\<open>shedder.acquire\<close>: a first check, then one per wake-up; with no wake-up left the wait times out.\<close>

fun acquire_wait :: "config \<Rightarrow> int \<Rightarrow> (('d proc_scheme \<Rightarrow> 'd proc_scheme) \<times> bool) list \<Rightarrow> verdict \<times> 'd proc_scheme \<Rightarrow> bool \<times> 'd proc_scheme" where
  "acquire_wait cfg tier wakes (Admitted, p) = (True, p)"
| "acquire_wait cfg tier wakes (Refused, p) = (False, p)"
| "acquire_wait cfg tier [] (Waits, p) = (False, bump ''shed'' p)"
| "acquire_wait cfg tier ((meanwhile, expired) # wakes) (Waits, p) =
     acquire_wait cfg tier wakes (check_admission cfg tier expired (meanwhile p))"

definition acquire :: "config \<Rightarrow> int \<Rightarrow> 'd proc_scheme handler_env \<Rightarrow> 'd proc_scheme \<Rightarrow> bool \<times> 'd proc_scheme" where
  "acquire cfg tier e p =
     acquire_wait cfg tier (he_wakes e) (check_admission cfg tier (cfg_int cfg ''SHED_WAIT_MS'' \<le> 0) p)"

definition respond ::
    "config \<Rightarrow> 'p handler_env \<Rightarrow> int \<Rightarrow> json \<Rightarrow> (string \<times> string) list \<Rightarrow> string \<Rightarrow> 'd proc_scheme \<Rightarrow> response \<times> 'd proc_scheme" where
  "respond cfg e st body hs label p =
     (let use = he_pool_in_use e;
          lmt = (case shed_limit cfg (p_shed p) of None \<Rightarrow> 0 | Some k \<Rightarrow> k);
          c = gauge ''retry_tokens'' (budget_level p) (gauge ''shed_limit'' (of_int lmt)
                (gauge ''pool_total'' (of_int (pool_total cfg)) (gauge ''pool_in_use'' (of_int (max 0 use))
                  (gauge ''inflight'' (of_int (inflight (p_shed p))) (w_counters p)))));
          base = [(''X-Inflight'', py_str_int (inflight (p_shed p))), (''X-Pool-In-Use'', py_str_int use),
                  (''X-Pool-Total'', py_str_int (pool_total cfg)),
                  (''X-Service-Ms'', py_fixed 2 (fl (he_respond e * 1000))), (''X-Role'', cfg_str cfg ''ROLE'')]
      in (\<lparr>r_status = st, r_payload = body, r_headers = dict_update base hs, r_label = label\<rparr>, p\<lparr>w_counters := c\<rparr>))"

text \<open>The work of an endpoint: an outcome, or an exception (its type name and text).\<close>

type_synonym 'd work = "rat option \<Rightarrow> 'd proc_scheme \<Rightarrow> (string \<times> string + outcome) \<times> 'd proc_scheme"

definition effective_deadline :: "config \<Rightarrow> headers \<Rightarrow> 'p handler_env \<Rightarrow> rat option" where
  "effective_deadline cfg hdrs e =
     (let d = read_deadline cfg hdrs in
      if d = None \<and> cfg_str cfg ''ROLE'' = ''gateway''
      then Some (fl (he_mint e + fl (of_int (cfg_int cfg ''CLIENT_TIMEOUT_MS'')))) else d)"

definition release_slot :: "config \<Rightarrow> 'p handler_env \<Rightarrow> 'd proc_scheme \<Rightarrow> 'd proc_scheme" where
  "release_slot cfg e p = p\<lparr>p_shed := release (he_rt e) cfg (Some (he_elapsed e)) (p_shed p)\<rparr>"

definition count_outcome :: "int \<Rightarrow> 'd proc_scheme \<Rightarrow> 'd proc_scheme" where
  "count_outcome st p = (if st < 400 then bump ''completed'' p else if 500 \<le> st then bump ''failed'' p else p)"

definition finish_headers :: "'p handler_env \<Rightarrow> rat option \<Rightarrow> int \<Rightarrow> bool \<Rightarrow> (string \<times> string) list \<Rightarrow> (string \<times> string) list" where
  "finish_headers e deadline entry_inflight zombie hs =
     (let h1 = set_default ''X-Inflight'' (py_str_int entry_inflight) hs;
          h2 = AList.update ''X-Queue-Wait-Ms'' (py_fixed 2 (he_queue_wait e)) h1;
          h3 = AList.update ''X-Zombie'' (if zombie then ''1'' else ''0'') h2
      in case remaining_ms (he_header e) deadline of None \<Rightarrow> h3
         | Some left \<Rightarrow> AList.update ''X-Remaining-Ms'' (py_fixed 1 left) h3)"

definition finish_request ::
    "config \<Rightarrow> 'p handler_env \<Rightarrow> rat option \<Rightarrow> int \<Rightarrow> outcome \<Rightarrow> 'd proc_scheme \<Rightarrow> response \<times> 'd proc_scheme" where
  "finish_request cfg e deadline entry_inflight out p =
     (let (zombie, c) = record_completion (he_done e) deadline (status out < 400) (w_counters p);
          p1 = count_outcome (status out) (p\<lparr>w_counters := c\<rparr>);
          hs = finish_headers e deadline entry_inflight zombie (o_headers out)
      in if should_drop (he_drop_draw e) (p_faults p1)
         then respond cfg e 599 (JObj [(''error'', JStr ''response_dropped_after_work'')]) hs ''dropped'' p1
         else respond cfg e (status out) (payload out) hs
                (if 200 \<le> status out \<and> status out < 300 then ''ok'' else ''fail'') p1)"

text \<open>The four other ways to leave the handler: late, shed, an injected fault, an exception.\<close>

definition reject_late :: "config \<Rightarrow> 'p handler_env \<Rightarrow> rat option \<Rightarrow> 'd proc_scheme \<Rightarrow> response \<times> 'd proc_scheme" where
  "reject_late cfg e deadline p =
     (let left = (case remaining_ms (he_left e) deadline of None \<Rightarrow> 0 | Some x \<Rightarrow> x) in
      respond cfg e 504
        (JObj [(''error'', JStr ''deadline_exceeded_before_start''), (''remaining_ms'', JFloat (py_round 1 left))])
        [(''X-Remaining-Ms'', py_fixed 1 left)] ''rejected'' (bump ''deadline_rejected'' p))"

definition shed_reply :: "config \<Rightarrow> 'p handler_env \<Rightarrow> int \<Rightarrow> 'd proc_scheme \<Rightarrow> response \<times> 'd proc_scheme" where
  "shed_reply cfg e tier p =
     respond cfg e 503
       (JObj [(''error'', JStr ''shed''), (''tier'', JInt tier), (''queue_wait_ms'', JFloat (py_round 2 (he_queue_wait e)))])
       [(''X-Shed'', ''1''), (''Retry-After'', ''1''), (''X-Queue-Wait-Ms'', py_fixed 2 (he_queue_wait e))] ''shed'' p"

definition fault_reply :: "config \<Rightarrow> 'p handler_env \<Rightarrow> 'd proc_scheme \<Rightarrow> response \<times> 'd proc_scheme" where
  "fault_reply cfg e p =
     (let (r, p') = respond cfg e 503 (JObj [(''error'', JStr ''injected_fault'')]) [(''X-Fault'', ''1'')] ''fault''
                      (bump ''failed'' p)
      in (r, release_slot cfg e p'))"

definition error_reply :: "config \<Rightarrow> 'p handler_env \<Rightarrow> string \<times> string \<Rightarrow> 'd proc_scheme \<Rightarrow> response \<times> 'd proc_scheme" where
  "error_reply cfg e exn p =
     (let (name, detail) = exn;
          (r, p') = respond cfg e 500 (JObj [(''error'', JStr name), (''detail'', JStr (take 200 detail))]) [] ''error''
                      (bump ''failed'' p)
      in (r, release_slot cfg e p'))"

text \<open>What follows the endpoint's work.\<close>

definition after_work ::
    "config \<Rightarrow> 'p handler_env \<Rightarrow> rat option \<Rightarrow> int \<Rightarrow> (string \<times> string + outcome) \<times> 'd proc_scheme \<Rightarrow> response \<times> 'd proc_scheme" where
  "after_work cfg e deadline entry_inflight done =
     (case done of
        (Inl exn, p) \<Rightarrow> error_reply cfg e exn p
      | (Inr out, p) \<Rightarrow> finish_request cfg e deadline entry_inflight out (release_slot cfg e p))"

definition run_handler :: "config \<Rightarrow> headers \<Rightarrow> 'd proc_scheme handler_env \<Rightarrow> int \<Rightarrow> 'd work \<Rightarrow> 'd proc_scheme \<Rightarrow> response \<times> 'd proc_scheme" where
  "run_handler cfg hdrs e tier work p =
     (let p0 = bump ''received'' p;
          deadline = effective_deadline cfg hdrs e in
      if should_reject cfg (he_reject e) deadline then reject_late cfg e deadline p0
      else let (admitted, p1) = acquire cfg tier e p0 in
      if \<not> admitted then shed_reply cfg e tier p1
      else let entry_inflight = inflight (p_shed p1) in
      if should_error (he_error_draw e) (p_faults p1) then fault_reply cfg e p1
      else after_work cfg e deadline entry_inflight (work deadline p1))"

subsection \<open>The endpoints\<close>

abbreviation run_db :: "config \<Rightarrow> db_env \<Rightarrow> int option \<Rightarrow> rat option \<Rightarrow> 'a retry_world_scheme \<Rightarrow> work_result \<times> 'a retry_world_scheme" where
  "run_db cfg de st deadline p \<equiv> (let (res, _, c) = do_work cfg de st deadline (w_counters p) in (res, p\<lparr>w_counters := c\<rparr>))"

definition json_opt :: "string option \<Rightarrow> json" where
  "json_opt s = (case s of None \<Rightarrow> JNull | Some t \<Rightarrow> JStr t)"

text \<open>A use of the main engine: built or rebuilt if the pool configuration changed.\<close>

definition use_engine :: "config \<Rightarrow> 'd proc_scheme \<Rightarrow> 'd proc_scheme" where
  "use_engine cfg p = p\<lparr>p_engine := fst (snd (get_engine cfg (p_engine p)))\<rparr>"

definition exn_text :: "py_error \<Rightarrow> string \<times> string" where
  "exn_text e = (case e of ValueError s \<Rightarrow> (''ValueError'', s) | TypeError s \<Rightarrow> (''TypeError'', s)
     | KeyError s \<Rightarrow> (''KeyError'', s) | RuntimeError s \<Rightarrow> (''RuntimeError'', s) | IndexError \<Rightarrow> (''IndexError'', [])
     | ZeroDivisionError \<Rightarrow> (''ZeroDivisionError'', []))"

text \<open>\<^verbatim>\<open>/work\<close>, \<^verbatim>\<open>/checkout\<close> and \<^verbatim>\<open>/search\<close> share the body and differ in the tier.\<close>

definition work_do :: "config \<Rightarrow> db_env \<Rightarrow> rat \<Rightarrow> 'd work" where
  "work_do cfg de now deadline p =
     (let (res, p1) = run_db cfg de (statement_timeout_ms cfg now deadline) deadline (use_engine cfg p)
      in (Inr \<lparr>status = (if err res = None then 200 else 503),
               payload = JObj [(''ok'', JBool (err res = None)), (''error'', json_opt (err res)),
                               (''query_ms'', JFloat (py_round 2 (query_ms res)))],
               o_headers = [(''X-Pool-Wait-Ms'', py_fixed 2 (wait_ms res)), (''X-Pool-In-Use'', py_str_int (in_use res))]\<rparr>, p1))"

definition work_endpoint :: "config \<Rightarrow> headers \<Rightarrow> 'd proc_scheme handler_env \<Rightarrow> db_env \<Rightarrow> rat \<Rightarrow> int \<Rightarrow> 'd proc_scheme \<Rightarrow> response \<times> 'd proc_scheme" where
  "work_endpoint cfg hdrs e de now tier p = run_handler cfg hdrs e tier (work_do cfg de now) p"

definition checkout_endpoint :: "config \<Rightarrow> headers \<Rightarrow> 'd proc_scheme handler_env \<Rightarrow> db_env \<Rightarrow> rat \<Rightarrow> 'd proc_scheme \<Rightarrow> response \<times> 'd proc_scheme" where
  "checkout_endpoint cfg hdrs e de now p = work_endpoint cfg hdrs e de now 0 p"

definition search_endpoint :: "config \<Rightarrow> headers \<Rightarrow> 'd proc_scheme handler_env \<Rightarrow> db_env \<Rightarrow> rat \<Rightarrow> 'd proc_scheme \<Rightarrow> response \<times> 'd proc_scheme" where
  "search_endpoint cfg hdrs e de now p = work_endpoint cfg hdrs e de now 3 p"

definition report_do :: "config \<Rightarrow> db_env \<Rightarrow> rat \<Rightarrow> 'd work" where
  "report_do cfg de now deadline p =
     (let (_, cur, rep) = report_engine cfg (p_engine p) (p_report p);
          (res, p1) = run_db cfg de (statement_timeout_ms cfg now deadline) deadline (p\<lparr>p_engine := cur, p_report := rep\<rparr>)
      in (Inr \<lparr>status = (if err res = None then 200 else 503),
               payload = JObj [(''ok'', JBool (err res = None)), (''error'', json_opt (err res))],
               o_headers = [(''X-Pool-Wait-Ms'', py_fixed 2 (wait_ms res)),
                            (''X-Bulkhead'', if cfg_bool cfg ''BULKHEAD'' then ''1'' else ''0'')]\<rparr>, p1))"

definition report_endpoint :: "config \<Rightarrow> headers \<Rightarrow> 'd proc_scheme handler_env \<Rightarrow> db_env \<Rightarrow> rat \<Rightarrow> 'd proc_scheme \<Rightarrow> response \<times> 'd proc_scheme" where
  "report_endpoint cfg hdrs e de now p = run_handler cfg hdrs e 2 (report_do cfg de now) p"

text \<open>One outbound attempt: the HTTP client returned a response, timed out, or raised.\<close>

datatype http_answer = Resp int json | TimedOut | Raised string

record hop_result =
  h_status :: int
  h_body :: json
  h_elapsed :: rat

definition call_next_hop :: "http_answer \<Rightarrow> rat \<Rightarrow> 'a retry_world_scheme \<Rightarrow> hop_result \<times> 'a retry_world_scheme" where
  "call_next_hop answer elapsed w =
     (let ms = fl (elapsed * 1000) in
      case answer of
        Resp st body \<Rightarrow>
          (\<lparr>h_status = st, h_body = (case body of JObj _ \<Rightarrow> body | _ \<Rightarrow> JObj [(''body'', body)]), h_elapsed = ms\<rparr>, w)
      | TimedOut \<Rightarrow> (\<lparr>h_status = 504, h_body = JObj [(''error'', JStr ''downstream_timeout'')], h_elapsed = ms\<rparr>, bump ''timeouts'' w)
      | Raised name \<Rightarrow> (\<lparr>h_status = 502, h_body = JObj [(''error'', JStr name)], h_elapsed = ms\<rparr>, w))"

definition retryable :: "int \<Rightarrow> bool" where
  "retryable st \<longleftrightarrow> 500 \<le> st"

text \<open>\<^verbatim>\<open>/chain\<close>. \<open>next_hop n timeout hs\<close> is what the next hop answers to attempt \<open>n\<close>; it works on the state of
  the processes behind this one, the extension of the record.\<close>

type_synonym 'd downstream = "nat \<Rightarrow> rat \<Rightarrow> headers \<Rightarrow> 'd \<Rightarrow> (http_answer \<times> rat) \<times> 'd"

definition chain_attempt ::
    "'d downstream \<Rightarrow> headers \<Rightarrow> nat \<Rightarrow> rat \<Rightarrow> 'd proc_scheme \<Rightarrow> hop_result \<times> 'd proc_scheme" where
  "chain_attempt next_hop hs n timeout w =
     (let ((answer, elapsed), d) = next_hop n timeout hs (proc.more w)
      in call_next_hop answer elapsed (w\<lparr>proc.more := d\<rparr>))"

definition chain_do ::
    "config \<Rightarrow> db_env \<Rightarrow> rat \<Rightarrow> retry_env \<Rightarrow> headers \<Rightarrow> 'd downstream \<Rightarrow> 'd work" where
  "chain_do cfg de now re incoming next_hop deadline p =
     (if cfg_str cfg ''DOWNSTREAM_URL'' = [] then
        let (res, p1) = run_db cfg de (statement_timeout_ms cfg now deadline) deadline (use_engine cfg p)
        in (Inr \<lparr>status = (if err res = None then 200 else 504),
                 payload = JObj [(''leaf'', JBool True), (''error'', json_opt (err res)), (''query_ms'', JFloat (py_round 2 (query_ms res)))],
                 o_headers = [(''X-Pool-Wait-Ms'', py_fixed 2 (wait_ms res))]\<rparr>, p1)
      else
        let hs = headers_for_next_hop cfg deadline incoming;
            (result, _, _, p1) = with_retries cfg re (chain_attempt next_hop hs) (\<lambda>r. retryable (h_status r)) deadline p
        in case result of
             None \<Rightarrow> (Inl (''AssertionError'', []), p1)
           | Some r \<Rightarrow>
               (Inr \<lparr>status = h_status r,
                     payload = JObj [(''hop'', JStr (cfg_str cfg ''ROLE'')), (''downstream_status'', JInt (h_status r)),
                                     (''downstream_ms'', JFloat (py_round 2 (h_elapsed r)))],
                     o_headers = [(''X-Downstream-Ms'', py_fixed 2 (h_elapsed r))]\<rparr>, p1))"

definition chain_endpoint where
  "chain_endpoint cfg hdrs e de now re next_hop p = run_handler cfg hdrs e 0 (chain_do cfg de now re hdrs next_hop) p"

text \<open>\<^verbatim>\<open>/cached\<close>: Redis first, the database under the retry policy on a miss. An attempt the client
  abandons is \<open>None\<close>; the reply carries the pool gauge then.\<close>

definition cached_attempt :: "config \<Rightarrow> (nat \<Rightarrow> db_env option) \<Rightarrow> rat \<Rightarrow> rat option \<Rightarrow> int \<Rightarrow> nat \<Rightarrow> rat
    \<Rightarrow> 'd proc_scheme \<Rightarrow> (int \<times> work_result) \<times> 'd proc_scheme" where
  "cached_attempt cfg des now deadline use n timeout w =
     (case des n of
        None \<Rightarrow> ((504, \<lparr>wait_ms = timeout, query_ms = 0, in_use = use, err = Some ''client_timeout''\<rparr>), bump ''timeouts'' w)
      | Some de \<Rightarrow> let (res, w1) = run_db cfg de (statement_timeout_ms cfg now deadline) deadline (use_engine cfg w)
                   in ((if err res = None then 200 else 503, res), w1))"

definition cached_do ::
    "config \<Rightarrow> (nat \<Rightarrow> db_env option) \<Rightarrow> rat \<Rightarrow> retry_env \<Rightarrow> int option \<Rightarrow> rat \<Rightarrow> string option driver \<Rightarrow> unit driver \<Rightarrow> rat \<Rightarrow> int \<Rightarrow> 'd work" where
  "cached_do cfg des now re key clk redis setex_answer t_set use deadline p =
     (case (case key of Some k \<Rightarrow> Inr k
            | None \<Rightarrow> if cfg_int cfg ''CACHE_KEYS'' = 0 then Inl (''ZeroDivisionError'', ''integer modulo by zero'')
                      else Inr (py_trunc (fl (clk * 1000)) mod cfg_int cfg ''CACHE_KEYS'')) of
        Inl x \<Rightarrow> (Inl x, p)
      | Inr n \<Rightarrow>
          let ck = ''lab:item:'' @ py_str_int n;
              (hit, c) = cache_get redis (w_counters p); p1 = p\<lparr>w_counters := c\<rparr>
          in if hit \<noteq> None
             then (Inr \<lparr>status = 200, payload = JObj [(''key'', JStr ck), (''cached'', JBool True)], o_headers = [(''X-Cache'', ''hit'')]\<rparr>, p1)
             else let (result, _, _, p2) = with_retries cfg re (cached_attempt cfg des now deadline use) (\<lambda>r. retryable (fst r)) deadline p1
                  in case result of
                       None \<Rightarrow> (Inl (''AssertionError'', []), p2)
                     | Some (st, res) \<Rightarrow>
                         let p3 = (if st \<noteq> 200 then p2
                                   else case cache_setex cfg setex_answer ck (now_value ck t_set) of
                                          None \<Rightarrow> p2 | Some entry \<Rightarrow> p2\<lparr>p_redis := p_redis p2 @ [entry]\<rparr>)
                         in (Inr \<lparr>status = st,
                               payload = JObj [(''key'', JStr ck), (''cached'', JBool False), (''error'', json_opt (err res))],
                               o_headers = [(''X-Cache'', ''miss''), (''X-Pool-Wait-Ms'', py_fixed 2 (wait_ms res))]\<rparr>, p3))"

definition cached_endpoint where
  "cached_endpoint cfg hdrs e des now re key clk redis setex_answer t_set use p =
     run_handler cfg hdrs e 0 (cached_do cfg des now re key clk redis setex_answer t_set use) p"

text \<open>\<^verbatim>\<open>/backend\<close>.\<close>

definition backend_do :: "config \<Rightarrow> (rat \<Rightarrow> rat \<Rightarrow> rat) \<Rightarrow> rat \<Rightarrow> 'd work" where
  "backend_do cfg lognormal u deadline p =
     (let seconds = service_seconds lognormal u cfg
      in (Inr \<lparr>status = 200, payload = JObj [(''backend_ms'', JFloat (py_round 2 (fl (seconds * 1000))))],
               o_headers = [(''X-Backend-Ms'', py_fixed 2 (fl (seconds * 1000)))]\<rparr>, p))"

definition backend_endpoint where
  "backend_endpoint cfg hdrs e lognormal u p = run_handler cfg hdrs e 0 (backend_do cfg lognormal u) p"

text \<open>\<^verbatim>\<open>/fanout\<close>: the results of the hedged calls in order, an exception being \<open>None\<close>.\<close>

fun fold_results :: "(hop_result \<times> bool) option list \<Rightarrow> nat \<times> rat \<times> bool \<Rightarrow> nat \<times> rat \<times> bool" where
  "fold_results [] acc = acc"
| "fold_results (None # rs) (failed, slowest, hedged) = fold_results rs (Suc failed, slowest, hedged)"
| "fold_results (Some (r, h) # rs) (failed, slowest, hedged) =
     fold_results rs (if 400 \<le> h_status r then Suc failed else failed, max slowest (h_elapsed r), hedged \<or> h)"

definition fan_view :: "'d proc_scheme \<Rightarrow> fan_world" where
  "fan_view p = \<lparr>f_counters = w_counters p, f_bucket = p_hedge p, f_latency = p_lat p\<rparr>"

definition fan_store :: "fan_world \<Rightarrow> 'd proc_scheme \<Rightarrow> 'd proc_scheme" where
  "fan_store w p = p\<lparr>w_counters := f_counters w, p_hedge := f_bucket w, p_lat := f_latency w\<rparr>"

text \<open>Each leg of the fan-out: what its copies would answer, and the latencies they observe.\<close>

record leg =
  leg_course :: "hop_result call_course"
  leg_latencies :: "rat list"

fun run_legs :: "config \<Rightarrow> leg list \<Rightarrow> fan_world \<Rightarrow> (hop_result \<times> bool) option list \<times> fan_world" where
  "run_legs cfg [] w = ([], w)"
| "run_legs cfg (l # ls) w =
     (case hedged_call cfg (leg_course l) w of
        Inl _ \<Rightarrow> let (rs, w') = run_legs cfg ls w in (None # rs, w')
      | Inr (r, w1) \<Rightarrow> let w2 = w1\<lparr>f_latency := foldl (\<lambda>lt x. observe_latency x lt) (f_latency w1) (leg_latencies l)\<rparr>;
                           (rs, w') = run_legs cfg ls w2 in (Some r # rs, w'))"

definition fanout_do ::
    "config \<Rightarrow> rat \<Rightarrow> rat \<Rightarrow> string list option \<Rightarrow> (string list \<Rightarrow> string list) \<Rightarrow> (string \<Rightarrow> leg) \<Rightarrow> int \<Rightarrow> 'd work" where
  "fanout_do cfg t1 t2 resolved sorted_set leg_of k deadline p =
     (let (addrs, dns) = backend_addresses cfg t1 t2 resolved sorted_set (nat (max 1 k)) (p_dns p);
          (rs, w) = run_legs cfg (map leg_of addrs) (fan_view p);
          (failed, slowest, hedged) = fold_results rs (0, 0, False)
      in (Inr \<lparr>status = (if failed = 0 then 200 else 503),
               payload = JObj [(''k'', JInt (int (length addrs))), (''failed'', JInt (int failed)),
                               (''slowest_backend_ms'', JFloat (py_round 2 slowest))],
               o_headers = [(''X-Fanout-K'', py_str_int (int (length addrs))), (''X-Slowest-Backend-Ms'', py_fixed 2 slowest),
                            (''X-Hedged'', if hedged then ''1'' else ''0'')]\<rparr>,
          fan_store w (p\<lparr>p_dns := dns\<rparr>)))"

definition fanout_endpoint where
  "fanout_endpoint cfg hdrs e t1 t2 resolved sorted_set leg_of k p =
     run_handler cfg hdrs e 0 (fanout_do cfg t1 t2 resolved sorted_set leg_of k) p"

text \<open>\<^verbatim>\<open>/charge\<close>: \<open>body\<close> is the parsed JSON (\<open>None\<close> for a body that does not parse). A body that is
  not an object has no \<^verbatim>\<open>get\<close>, so without the header the request dies before the handler: that is the
  \<open>None\<close> result.\<close>

definition charge_key :: "(json \<Rightarrow> string) \<Rightarrow> headers \<Rightarrow> body \<Rightarrow> string" where
  "charge_key rp hdrs b =
     (case hdrs ''Idempotency-Key'' of
        Some (c # cs) \<Rightarrow> c # cs
      | _ \<Rightarrow> (let k = py_str rp (body_get b ''key'' (JStr [])) in if k = [] then ''no-key'' else k))"

definition charge_do :: "(body \<Rightarrow> string) \<Rightarrow> (json \<Rightarrow> string) \<Rightarrow> config \<Rightarrow> rat \<Rightarrow> headers \<Rightarrow> body \<Rightarrow> 'd work" where
  "charge_do fp rp cfg now hdrs b deadline p =
     (let key = charge_key rp hdrs b in
      case charge fp rp cfg now key b (p_db p, w_counters p) of
        (Inl e, (db, c)) \<Rightarrow> (Inl (exn_text e), (use_engine cfg p)\<lparr>p_db := db, w_counters := c\<rparr>)
      | (Inr (st, body), (db, c)) \<Rightarrow>
          (Inr \<lparr>status = st, payload = body,
                o_headers = [(''X-Idempotency-Mode'', cfg_str cfg ''IDEMPOTENCY_MODE''), (''X-Idempotency-Key'', key)]\<rparr>,
           (use_engine cfg p)\<lparr>p_db := db, w_counters := c\<rparr>))"

definition has_header :: "headers \<Rightarrow> string \<Rightarrow> bool" where
  "has_header hdrs k \<longleftrightarrow> hdrs k \<noteq> None \<and> hdrs k \<noteq> Some []"

definition charge_endpoint ::
    "(body \<Rightarrow> string) \<Rightarrow> (json \<Rightarrow> string) \<Rightarrow> config \<Rightarrow> rat \<Rightarrow> headers \<Rightarrow> 'd proc_scheme handler_env \<Rightarrow> json option \<Rightarrow> 'd proc_scheme
     \<Rightarrow> (response \<times> 'd proc_scheme) option" where
  "charge_endpoint fp rp cfg now hdrs e body p =
     (let run = (\<lambda>b. Some (run_handler cfg hdrs e 0 (charge_do fp rp cfg now hdrs b) p)) in
      case body of
        None \<Rightarrow> run []
      | Some (JObj b) \<Rightarrow> run b
      | Some _ \<Rightarrow> if has_header hdrs ''Idempotency-Key'' then run [] else None)"

subsection \<open>Administration\<close>

definition pool_fields :: "string list" where
  "pool_fields = [''POOL_SIZE'', ''MAX_OVERFLOW'', ''POOL_TIMEOUT_S'', ''DATABASE_URL'',
     ''PGHOST'', ''PGPORT'', ''PGUSER'', ''PGPASSWORD'', ''PGDATABASE'']"

text \<open>The status, what was applied and what was unknown, the new configuration and process state.\<close>

definition post_config ::
    "(json \<Rightarrow> string) \<Rightarrow> config \<Rightarrow> (string \<times> json) list \<Rightarrow> 'd proc_scheme
     \<Rightarrow> int \<times> ((string \<times> cval) list \<times> string list) option \<times> config \<times> 'd proc_scheme" where
  "post_config rp cfg patch p =
     (case config_apply rp cfg patch of
        (Inl e, cfg') \<Rightarrow> (400, None, cfg', p)
      | (Inr (applied, unknown), cfg') \<Rightarrow>
          (200, Some (applied, unknown), cfg',
           if \<exists>k\<in>fst ` set applied. k \<in> set pool_fields
           then use_engine cfg' p else p))"

definition post_fault :: "(string \<times> json) list \<Rightarrow> 'd proc_scheme \<Rightarrow> py_error option \<times> 'd proc_scheme" where
  "post_fault patch p = (let (e, f) = faults_apply patch (p_faults p) in (e, p\<lparr>p_faults := f\<rparr>))"

definition post_reset :: "rat \<Rightarrow> bool \<Rightarrow> 'd proc_scheme \<Rightarrow> 'd proc_scheme" where
  "post_reset now tables p =
     (let p1 = p\<lparr>w_counters := reset_counters now (w_counters p)\<rparr>
      in if tables then p1\<lparr>p_db := reset_tables (p_db p1)\<rparr> else p1)"

definition lambda_max_rps :: "config \<Rightarrow> rat" where
  "lambda_max_rps cfg =
     py_round 1 (fl (of_int (pool_total cfg) / max (fl (1 / 1000)) (fl (of_int (cfg_int cfg ''SERVICE_MS'') / 1000))))"

definition zombies_view :: "config \<Rightarrow> int \<Rightarrow> 'd proc_scheme \<Rightarrow> (string \<times> int) list" where
  "zombies_view cfg use p =
     map (\<lambda>n. (n, count_of (w_counters p) n))
       [''received'', ''completed'', ''failed'', ''zombies'', ''deadline_rejected'', ''deadline_abandoned'', ''timeouts'', ''retries'']
     @ [(''pool_in_use'', use), (''pool_total'', pool_total cfg), (''deadline_slack_ms'', cfg_int cfg ''DEADLINE_SLACK_MS''),
        (''client_timeout_ms'', cfg_int cfg ''CLIENT_TIMEOUT_MS''), (''service_ms'', cfg_int cfg ''SERVICE_MS'')]"

subsection \<open>Accounting\<close>

abbreviation n_of :: "'d proc_scheme \<Rightarrow> string \<Rightarrow> int" where
  "n_of p n \<equiv> count_of (w_counters p) n"

definition tally_names :: "string set" where
  "tally_names = {''received'', ''completed'', ''failed'', ''shed'', ''deadline_rejected'', ''zombies''}"

text \<open>A step that leaves the outcome counters and the in-flight gauge alone.\<close>

definition quiet :: "('d proc_scheme \<Rightarrow> 'd proc_scheme) \<Rightarrow> bool" where
  "quiet f \<longleftrightarrow> (\<forall>p. (\<forall>n\<in>tally_names. n_of (f p) n = n_of p n) \<and> inflight (p_shed (f p)) = inflight (p_shed p))"

definition quiet_work :: "'d work \<Rightarrow> bool" where
  "quiet_work w \<longleftrightarrow> (\<forall>d. quiet (\<lambda>p. snd (w d p)))"

lemma respond_frame:
  assumes "respond cfg e st body hs label p = (r, p')"
  shows "n_of p' n = n_of p n \<and> p_shed p' = p_shed p \<and> p_faults p' = p_faults p \<and> p_db p' = p_db p
     \<and> r_label r = label \<and> r_status r = st \<and> r_payload r = body"
  using assms by (auto simp: respond_def Let_def)

lemma release_slot_frame:
  "n_of (release_slot cfg e p) n = n_of p n \<and> inflight (p_shed (release_slot cfg e p)) = max 0 (inflight (p_shed p) - 1)
     \<and> p_faults (release_slot cfg e p) = p_faults p \<and> p_db (release_slot cfg e p) = p_db p"
  by (simp add: release_slot_def release_inflight)

lemma check_admission_cases:
  assumes "check_admission cfg tier x p = (v, p')"
  shows "p_faults p' = p_faults p \<and> p_db p' = p_db p \<and> (\<forall>n. n \<noteq> ''shed'' \<longrightarrow> n_of p' n = n_of p n)
     \<and> n_of p' ''shed'' = n_of p ''shed'' + of_bool (v = Refused)
     \<and> inflight (p_shed p') = inflight (p_shed p) + of_bool (v = Admitted)"
proof -
  obtain s c where a: "acquire_check cfg tier x (p_shed p, w_counters p) = (v, s, c)"
      and p': "p' = p\<lparr>p_shed := s, w_counters := c\<rparr>"
    using assms by (auto simp: check_admission_def split: prod.splits)
  from acquire_check_cases [OF a] show ?thesis by (elim disjE conjE) (simp_all add: p')
qed

lemma acquire_wait_counts:
  assumes "\<forall>(m, x)\<in>set wakes. quiet m" and "acquire_wait cfg tier wakes (v, p) = (ok, p')"
  shows "(\<forall>n\<in>tally_names - {''shed''}. n_of p' n = n_of p n)
     \<and> n_of p' ''shed'' = n_of p ''shed'' + of_bool (\<not> ok \<and> v \<noteq> Refused)
     \<and> inflight (p_shed p') = inflight (p_shed p) + of_bool (ok \<and> v \<noteq> Admitted)
     \<and> (v = Admitted \<longrightarrow> ok) \<and> (v = Refused \<longrightarrow> \<not> ok)"
  using assms
proof (induction wakes arbitrary: v p)
  case Nil
  then show ?case by (cases v) (auto simp: tally_names_def)
next
  case (Cons w wakes)
  obtain m x where w: "w = (m, x)" by (cases w)
  show ?case
  proof (cases v)
    case Waits
    obtain v1 p1 where c: "check_admission cfg tier x (m p) = (v1, p1)" by fastforce
    have q: "\<forall>n\<in>tally_names. n_of (m p) n = n_of p n" "inflight (p_shed (m p)) = inflight (p_shed p)"
      using Cons.prems(1) w by (auto simp: quiet_def)
    have s: "n_of (m p) ''shed'' = n_of p ''shed''" using q(1) by (simp add: tally_names_def)
    have ih: "(\<forall>n\<in>tally_names - {''shed''}. n_of p' n = n_of p1 n)
       \<and> n_of p' ''shed'' = n_of p1 ''shed'' + of_bool (\<not> ok \<and> v1 \<noteq> Refused)
       \<and> inflight (p_shed p') = inflight (p_shed p1) + of_bool (ok \<and> v1 \<noteq> Admitted)
       \<and> (v1 = Admitted \<longrightarrow> ok) \<and> (v1 = Refused \<longrightarrow> \<not> ok)"
      using Cons.prems w Waits c by (intro Cons.IH) auto
    note ca = check_admission_cases [OF c]
    have "n_of p' n = n_of p n" if n: "n \<in> tally_names - {''shed''}" for n
    proof -
      have "n_of p' n = n_of p1 n" using ih n by blast
      also have "\<dots> = n_of (m p) n" using ca n by blast
      also have "\<dots> = n_of p n" using q(1) n by blast
      finally show ?thesis .
    qed
    moreover have "n_of p' ''shed'' = n_of p ''shed'' + of_bool (\<not> ok \<and> v \<noteq> Refused)"
      using ih ca s Waits by (cases v1) simp_all
    moreover have "inflight (p_shed p') = inflight (p_shed p) + of_bool (ok \<and> v \<noteq> Admitted)"
      using ih ca q(2) Waits by (cases v1) simp_all
    ultimately show ?thesis using Waits by simp
  qed (use Cons.prems in auto)
qed

lemma acquire_counts:
  assumes "\<forall>(m, x)\<in>set (he_wakes e). quiet m" and "acquire cfg tier e p = (ok, p')"
  shows "(\<forall>n\<in>tally_names - {''shed''}. n_of p' n = n_of p n) \<and> n_of p' ''shed'' = n_of p ''shed'' + of_bool (\<not> ok)
     \<and> inflight (p_shed p') = inflight (p_shed p) + of_bool ok"
proof -
  obtain v p1 where c: "check_admission cfg tier (cfg_int cfg ''SHED_WAIT_MS'' \<le> 0) p = (v, p1)" by fastforce
  with assms(2) have "acquire_wait cfg tier (he_wakes e) (v, p1) = (ok, p')" by (simp add: acquire_def)
  note aw = acquire_wait_counts [OF assms(1) this] and ca = check_admission_cases [OF c]
  have "n_of p' n = n_of p n" if n: "n \<in> tally_names - {''shed''}" for n
  proof -
    have "n_of p' n = n_of p1 n" using aw n by blast
    also have "\<dots> = n_of p n" using ca n by blast
    finally show ?thesis .
  qed
  moreover have "n_of p' ''shed'' = n_of p ''shed'' + of_bool (\<not> ok)" using aw ca by (cases v) simp_all
  moreover have "inflight (p_shed p') = inflight (p_shed p) + of_bool ok" using aw ca by (cases v) simp_all
  ultimately show ?thesis by simp
qed

lemma finish_request_counts:
  assumes "finish_request cfg e d i out p = (r, p')"
  shows "n_of p' ''completed'' = n_of p ''completed'' + of_bool (status out < 400)
     \<and> n_of p' ''failed'' = n_of p ''failed'' + of_bool (500 \<le> status out)
     \<and> n_of p' ''shed'' = n_of p ''shed'' \<and> n_of p' ''deadline_rejected'' = n_of p ''deadline_rejected''
     \<and> n_of p' ''received'' = n_of p ''received'' \<and> p_shed p' = p_shed p
     \<and> 0 \<le> n_of p' ''zombies'' - n_of p ''zombies'' \<and> n_of p' ''zombies'' - n_of p ''zombies'' \<le> of_bool (status out < 400)
     \<and> r_label r \<in> {''ok'', ''fail'', ''dropped''} \<and> r_status r = (if r_label r = ''dropped'' then 599 else status out)"
proof -
  obtain z c where rc: "record_completion (he_done e) d (status out < 400) (w_counters p) = (z, c)" by fastforce
  have c: "count_of c n = count_of (w_counters p) n + of_bool (n = ''zombies'' \<and> z)" "z \<longrightarrow> status out < 400" for n
    using rc by (auto simp: record_completion_def split: if_splits option.splits)
  define p1 where "p1 = count_outcome (status out) (p\<lparr>w_counters := c\<rparr>)"
  have p1: "n_of p1 n = count_of c n + of_bool (n = ''completed'' \<and> status out < 400) + of_bool (n = ''failed'' \<and> 500 \<le> status out)"
    "p_shed p1 = p_shed p" for n by (simp_all add: p1_def count_outcome_def)
  have "\<exists>hs. (if should_drop (he_drop_draw e) (p_faults p1)
       then respond cfg e 599 (JObj [(''error'', JStr ''response_dropped_after_work'')]) hs ''dropped'' p1
       else respond cfg e (status out) (payload out) hs
              (if 200 \<le> status out \<and> status out < 300 then ''ok'' else ''fail'') p1) = (r, p')"
    using assms unfolding finish_request_def rc Let_def prod.case p1_def [symmetric]
    by (rule exI [of _ "finish_headers e d i z (o_headers out)"])
  then obtain hs where "(if should_drop (he_drop_draw e) (p_faults p1)
       then respond cfg e 599 (JObj [(''error'', JStr ''response_dropped_after_work'')]) hs ''dropped'' p1
       else respond cfg e (status out) (payload out) hs
              (if 200 \<le> status out \<and> status out < 300 then ''ok'' else ''fail'') p1) = (r, p')" ..
  then have "n_of p' n = n_of p1 n \<and> p_shed p' = p_shed p1 \<and> r_label r \<in> {''ok'', ''fail'', ''dropped''}
      \<and> r_status r = (if r_label r = ''dropped'' then 599 else status out)" for n
    by (auto dest!: respond_frame split: if_splits)
  then show ?thesis using p1 c by auto
qed

text \<open>The five ways through the handler.\<close>

lemmas reply_defs = reject_late_def shed_reply_def fault_reply_def error_reply_def after_work_def

text \<open>The two replies that give the slot back.\<close>

lemma fault_replyD:
  assumes "fault_reply cfg e p = (r, p')"
  obtains p2 body hs where "respond cfg e 503 body hs ''fault'' (bump ''failed'' p) = (r, p2)" "p' = release_slot cfg e p2"
proof -
  obtain r2 p2 where "respond cfg e 503 (JObj [(''error'', JStr ''injected_fault'')]) [(''X-Fault'', ''1'')] ''fault'' (bump ''failed'' p) = (r2, p2)"
    by fastforce
  with assms show thesis by (intro that) (auto simp: fault_reply_def)
qed

lemma error_replyD:
  assumes "error_reply cfg e x p = (r, p')"
  obtains p2 body hs where "respond cfg e 500 body hs ''error'' (bump ''failed'' p) = (r, p2)" "p' = release_slot cfg e p2"
proof -
  obtain name detail where x: "x = (name, detail)" by (cases x)
  obtain r2 p2 where "respond cfg e 500 (JObj [(''error'', JStr name), (''detail'', JStr (take 200 detail))]) [] ''error'' (bump ''failed'' p) = (r2, p2)"
    by fastforce
  with assms x show thesis by (intro that) (auto simp: error_reply_def)
qed

lemma run_handler_cases:
  assumes "run_handler cfg hdrs e tier work p = (r, p')"
  obtains (rejected) body hs where
      "respond cfg e 504 body hs ''rejected'' (bump ''deadline_rejected'' (bump ''received'' p)) = (r, p')"
    | (shed) p1 body hs where "acquire cfg tier e (bump ''received'' p) = (False, p1)" "respond cfg e 503 body hs ''shed'' p1 = (r, p')"
    | (fault) p1 p2 body hs where "acquire cfg tier e (bump ''received'' p) = (True, p1)"
        "respond cfg e 503 body hs ''fault'' (bump ''failed'' p1) = (r, p2)" "p' = release_slot cfg e p2"
    | (failed) p1 p2 p3 x body hs where "acquire cfg tier e (bump ''received'' p) = (True, p1)"
        "work (effective_deadline cfg hdrs e) p1 = (Inl x, p2)"
        "respond cfg e 500 body hs ''error'' (bump ''failed'' p2) = (r, p3)" "p' = release_slot cfg e p3"
    | (finished) p1 p2 out where "acquire cfg tier e (bump ''received'' p) = (True, p1)"
        "work (effective_deadline cfg hdrs e) p1 = (Inr out, p2)"
        "finish_request cfg e (effective_deadline cfg hdrs e) (inflight (p_shed p1)) out (release_slot cfg e p2) = (r, p')"
proof -
  let ?d = "effective_deadline cfg hdrs e"
  note run = assms [unfolded run_handler_def Let_def]
  show thesis
  proof (cases "should_reject cfg (he_reject e) ?d")
    case True
    then show thesis using run by (auto simp: reject_late_def Let_def intro: rejected)
  next
    case False
    obtain ok p1 where acq: "acquire cfg tier e (bump ''received'' p) = (ok, p1)" by fastforce
    obtain res p2 where w: "work ?d p1 = (res, p2)" by fastforce
    consider "\<not> ok" | "ok" "should_error (he_error_draw e) (p_faults p1)" | x where "ok" "\<not> should_error (he_error_draw e) (p_faults p1)" "res = Inl x"
      | out where "ok" "\<not> should_error (he_error_draw e) (p_faults p1)" "res = Inr out" by (cases res) auto
    then show thesis
    proof cases
      case 1
      with run False acq show thesis by (auto simp: shed_reply_def intro: shed)
    next
      case 2
      with run False acq have "fault_reply cfg e p1 = (r, p')" by simp
      then show thesis by (rule fault_replyD) (rule fault, use acq 2 in simp_all)
    next
      case 3
      with run False acq w have "error_reply cfg e x p2 = (r, p')" by (simp add: after_work_def)
      then show thesis by (rule error_replyD) (rule failed, use acq w 3 in simp_all)
    next
      case 4
      with run False acq w show thesis by (intro finished [of p1 out p2]) (simp_all add: after_work_def)
    qed
  qed
qed

lemma run_handler_received:
  assumes "quiet_work work" and "\<forall>(m, x)\<in>set (he_wakes e). quiet m"
    and "run_handler cfg hdrs e tier work p = (r, p')"
  shows "n_of p' ''received'' = n_of p ''received'' + 1"
proof -
  have r: "''received'' \<in> tally_names" "''received'' \<in> tally_names - {''shed''}" by (simp_all add: tally_names_def)
  have acq: "n_of p1 ''received'' = n_of p ''received'' + 1" if "acquire cfg tier e (bump ''received'' p) = (ok, p1)" for ok p1
    using acquire_counts [OF assms(2) that] r(2) by simp
  have work: "n_of p2 ''received'' = n_of p1 ''received''" if "work d p1 = (res, p2)" for d p1 res p2
    using assms(1) that r(1) unfolding quiet_work_def quiet_def by (metis snd_conv)
  from assms(3) show ?thesis
  proof (cases rule: run_handler_cases)
    case rejected
    from respond_frame [OF this] show ?thesis by simp
  next
    case (shed p1)
    from respond_frame [OF shed(2)] acq [OF shed(1)] show ?thesis by simp
  next
    case (fault p1 p2)
    from respond_frame [OF fault(2)] acq [OF fault(1)] release_slot_frame [of cfg e p2] fault(3) show ?thesis by simp
  next
    case (failed p1 p2 p3)
    from respond_frame [OF failed(3)] acq [OF failed(1)] work [OF failed(2)] release_slot_frame [of cfg e p3] failed(4)
    show ?thesis by simp
  next
    case (finished p1 p2 out)
    from finish_request_counts [OF finished(3)] acq [OF finished(1)] work [OF finished(2)] release_slot_frame [of cfg e p2]
    show ?thesis by simp
  qed
qed

text \<open>An uneventful pass.\<close>

definition calm :: "rat \<Rightarrow> 'p handler_env" where
  "calm drop_draw = \<lparr>he_mint = 0, he_reject = 0, he_left = 0, he_done = 0, he_header = 0, he_error_draw = 0,
     he_drop_draw = drop_draw, he_elapsed = 1 / 8, he_respond = 1 / 8, he_queue_wait = 0, he_pool_in_use = 0,
     he_wakes = [], he_rt = (\<lambda>x. x)\<rparr>"

end
