(* ===== verification/Lab_Requests.thy ===== *)
theory Lab_Requests
  imports Lab_Service
begin

text \<open>
  \<^verbatim>\<open>run_handler\<close> of \<^verbatim>\<open>05-failure/lab/app/main.py\<close>, cut at its awaits: many requests over one process.
  A request suspends in \<^verbatim>\<open>shedder.acquire\<close> while it waits for admission and in its endpoint's work; what it does
  from one suspension to the next is one section on the shared state, and the event loop may run the sections of
  different requests in any order. A cancelled task raises \<^verbatim>\<open>CancelledError\<close> where it is suspended: no handler of
  the function catches it, only the \<^verbatim>\<open>finally\<close> that gives the slot back runs. The configuration may change
  between any two sections.
\<close>

subsection \<open>One request\<close>

datatype request_state =
    Queued int "rat option"
  | In_work "rat option" int
  | Over "int option" response
  | Gone

text \<open>What follows a verdict of the admission loop. An admitted request first meets the fault injector.\<close>

definition settle_admission ::
    "config \<Rightarrow> 'p handler_env \<Rightarrow> int \<Rightarrow> rat option \<Rightarrow> verdict \<times> 'd proc_scheme \<Rightarrow> request_state \<times> 'd proc_scheme" where
  "settle_admission cfg e tier deadline vp =
     (case vp of
        (Waits, p) \<Rightarrow> (Queued tier deadline, p)
      | (Refused, p) \<Rightarrow> (let (r, p') = shed_reply cfg e tier p in (Over None r, p'))
      | (Admitted, p) \<Rightarrow>
          if should_error (he_error_draw e) (p_faults p)
          then (let (r, p') = fault_reply cfg e p in (Over None r, p'))
          else (In_work deadline (inflight (p_shed p)), p))"

text \<open>The first section: counted as received, refused for its deadline, or before the admission loop.\<close>

definition open_request ::
    "config \<Rightarrow> headers \<Rightarrow> 'p handler_env \<Rightarrow> int \<Rightarrow> 'd proc_scheme \<Rightarrow> request_state \<times> 'd proc_scheme" where
  "open_request cfg hdrs e tier p =
     (let p0 = bump ''received'' p;
          deadline = effective_deadline cfg hdrs e in
      if should_reject cfg (he_reject e) deadline
      then (let (r, p') = reject_late cfg e deadline p0 in (Over None r, p'))
      else settle_admission cfg e tier deadline (check_admission cfg tier (cfg_int cfg ''SHED_WAIT_MS'' \<le> 0) p0))"

text \<open>A queued request is woken and looks again, or its wait times out.\<close>

definition recheck_admission ::
    "config \<Rightarrow> 'p handler_env \<Rightarrow> int \<Rightarrow> rat option \<Rightarrow> bool \<Rightarrow> 'd proc_scheme \<Rightarrow> request_state \<times> 'd proc_scheme" where
  "recheck_admission cfg e tier deadline expired p =
     settle_admission cfg e tier deadline (check_admission cfg tier expired p)"

definition wait_times_out :: "config \<Rightarrow> 'p handler_env \<Rightarrow> int \<Rightarrow> 'd proc_scheme \<Rightarrow> request_state \<times> 'd proc_scheme" where
  "wait_times_out cfg e tier p = (let (r, p') = shed_reply cfg e tier (bump ''shed'' p) in (Over None r, p'))"

text \<open>The endpoint's work and everything after it.\<close>

definition outcome_status :: "string \<times> string + outcome \<Rightarrow> int option" where
  "outcome_status res = (case res of Inl _ \<Rightarrow> None | Inr out \<Rightarrow> Some (status out))"

definition complete_request ::
    "config \<Rightarrow> 'p handler_env \<Rightarrow> rat option \<Rightarrow> int \<Rightarrow> 'd work \<Rightarrow> 'd proc_scheme \<Rightarrow> request_state \<times> 'd proc_scheme" where
  "complete_request cfg e deadline entry_inflight work p =
     (let (res, p1) = work deadline p;
          (r, p2) = after_work cfg e deadline entry_inflight (res, p1)
      in (Over (outcome_status res) r, p2))"

text \<open>Cancellation: a queued request holds nothing; one at work leaves through the \<^verbatim>\<open>finally\<close>.\<close>

definition cancel_request :: "config \<Rightarrow> 'p handler_env \<Rightarrow> request_state \<Rightarrow> 'd proc_scheme \<Rightarrow> (request_state \<times> 'd proc_scheme) option" where
  "cancel_request cfg e st p =
     (case st of
        Queued _ _ \<Rightarrow> Some (Gone, p)
      | In_work _ _ \<Rightarrow> Some (Gone, release_slot cfg e p)
      | _ \<Rightarrow> None)"

subsection \<open>Many requests\<close>

record 'd req_sys =
  rs_proc :: "'d proc_scheme"
  rs_list :: "request_state list"

datatype 'd req_event =
    Open headers "'d proc_scheme handler_env" int
  | Recheck nat "'d proc_scheme handler_env" bool
  | Wait_out nat "'d proc_scheme handler_env"
  | Complete nat "'d proc_scheme handler_env" "'d work"
  | Cancel_request nat "'d proc_scheme handler_env"
  | Elsewhere "'d proc_scheme \<Rightarrow> 'd proc_scheme"

definition req_put :: "nat \<Rightarrow> request_state \<times> 'd proc_scheme \<Rightarrow> 'd req_sys \<Rightarrow> 'd req_sys" where
  "req_put i sp y = y\<lparr>rs_proc := snd sp, rs_list := (rs_list y)[i := fst sp]\<rparr>"

fun req_step :: "config \<Rightarrow> 'd req_event \<Rightarrow> 'd req_sys \<Rightarrow> 'd req_sys option" where
  "req_step cfg (Open hdrs e tier) y =
     (let (st, p) = open_request cfg hdrs e tier (rs_proc y)
      in Some (y\<lparr>rs_proc := p, rs_list := rs_list y @ [st]\<rparr>))"
| "req_step cfg (Recheck i e expired) y =
     (if i < length (rs_list y) then
        (case rs_list y ! i of
           Queued tier d \<Rightarrow> Some (req_put i (recheck_admission cfg e tier d expired (rs_proc y)) y)
         | _ \<Rightarrow> None)
      else None)"
| "req_step cfg (Wait_out i e) y =
     (if i < length (rs_list y) then
        (case rs_list y ! i of
           Queued tier d \<Rightarrow> Some (req_put i (wait_times_out cfg e tier (rs_proc y)) y)
         | _ \<Rightarrow> None)
      else None)"
| "req_step cfg (Complete i e work) y =
     (if i < length (rs_list y) then
        (case rs_list y ! i of
           In_work d n \<Rightarrow> Some (req_put i (complete_request cfg e d n work (rs_proc y)) y)
         | _ \<Rightarrow> None)
      else None)"
| "req_step cfg (Cancel_request i e) y =
     (if i < length (rs_list y) then
        map_option (\<lambda>sp. req_put i sp y) (cancel_request cfg e (rs_list y ! i) (rs_proc y))
      else None)"
| "req_step cfg (Elsewhere f) y = Some (y\<lparr>rs_proc := f (rs_proc y)\<rparr>)"

fun req_run :: "(config \<times> 'd req_event) list \<Rightarrow> 'd req_sys \<Rightarrow> 'd req_sys option" where
  "req_run [] y = Some y"
| "req_run ((cfg, e) # es) y = (case req_step cfg e y of None \<Rightarrow> None | Some y' \<Rightarrow> req_run es y')"

lemma req_run_append:
  "req_run (es @ fs) y = (case req_run es y of None \<Rightarrow> None | Some z \<Rightarrow> req_run fs z)"
  by (induction es y rule: req_run.induct) (auto split: option.split)

subsection \<open>The handler is its sections\<close>

text \<open>A request that nobody cancels passes through exactly these sections: whatever \<open>run_handler\<close> does to
  the process and answers, a run of the sections does.\<close>

lemma acquire_wait_sections:
  fixes e :: "'d proc_scheme handler_env" and p :: "'d proc_scheme"
  assumes "acquire_wait cfg tier wakes (v, p) = (ok, p')" and "settle_admission cfg e tier d (v, p) = (st, q)"
  shows "\<exists>es. req_run es \<lparr>rs_proc = q, rs_list = sts @ [st]\<rparr>
    = (if ok then Some \<lparr>rs_proc = snd (settle_admission cfg e tier d (Admitted, p')),
                        rs_list = sts @ [fst (settle_admission cfg e tier d (Admitted, p'))]\<rparr>
       else Some \<lparr>rs_proc = snd (shed_reply cfg e tier p'), rs_list = sts @ [Over None (fst (shed_reply cfg e tier p'))]\<rparr>)"
  using assms
proof (induction wakes arbitrary: v p st q)
  case Nil
  show ?case
  proof (cases v)
    case Waits
    with Nil have "req_run [(cfg, Wait_out (length sts) e)] \<lparr>rs_proc = q, rs_list = sts @ [st]\<rparr>
      = Some \<lparr>rs_proc = snd (shed_reply cfg e tier p'), rs_list = sts @ [Over None (fst (shed_reply cfg e tier p'))]\<rparr>"
      by (auto simp: settle_admission_def wait_times_out_def req_put_def case_prod_beta)
    with Nil Waits show ?thesis by (metis acquire_wait.simps(3) prod.inject)
  qed (use Nil in \<open>auto intro!: exI [of _ "[]"] simp: settle_admission_def case_prod_beta\<close>)
next
  case (Cons w wakes)
  obtain m x where w: "w = (m, x)" by (cases w)
  show ?case
  proof (cases v)
    case Waits
    obtain v1 p1 where c: "check_admission cfg tier x (m p) = (v1, p1)" by fastforce
    obtain st1 q1 where s: "settle_admission cfg e tier d (v1, p1) = (st1, q1)" by fastforce
    have "acquire_wait cfg tier wakes (v1, p1) = (ok, p')" using Cons.prems(1) Waits w c by simp
    from Cons.IH [OF this s] obtain es where es: "req_run es \<lparr>rs_proc = q1, rs_list = sts @ [st1]\<rparr>
       = (if ok then Some \<lparr>rs_proc = snd (settle_admission cfg e tier d (Admitted, p')),
                        rs_list = sts @ [fst (settle_admission cfg e tier d (Admitted, p'))]\<rparr>
          else Some \<lparr>rs_proc = snd (shed_reply cfg e tier p'), rs_list = sts @ [Over None (fst (shed_reply cfg e tier p'))]\<rparr>)"
      by blast
    have "req_run ((cfg, Elsewhere m) # (cfg, Recheck (length sts) e x) # es) \<lparr>rs_proc = q, rs_list = sts @ [st]\<rparr>
        = req_run es \<lparr>rs_proc = q1, rs_list = sts @ [st1]\<rparr>"
      using Cons.prems(2) Waits c s by (auto simp: settle_admission_def recheck_admission_def req_put_def)
    with es show ?thesis by metis
  qed (use Cons.prems in \<open>auto intro!: exI [of _ "[]"] simp: settle_admission_def case_prod_beta\<close>)
qed

theorem run_handler_sections:
  assumes "run_handler cfg hdrs e tier work p = (r, p')"
  shows "\<exists>es st. req_run es \<lparr>rs_proc = p, rs_list = sts\<rparr> = Some \<lparr>rs_proc = p', rs_list = sts @ [Over st r]\<rparr>"
proof -
  let ?d = "effective_deadline cfg hdrs e" and ?p0 = "bump ''received'' p"
  note run = assms [unfolded run_handler_def Let_def]
  show ?thesis
  proof (cases "should_reject cfg (he_reject e) ?d")
    case True
    with run have "req_run [(cfg, Open hdrs e tier)] \<lparr>rs_proc = p, rs_list = sts\<rparr> = Some \<lparr>rs_proc = p', rs_list = sts @ [Over None r]\<rparr>"
      by (simp add: open_request_def Let_def)
    then show ?thesis by blast
  next
    case False
    obtain ok p1 where acq: "acquire cfg tier e ?p0 = (ok, p1)" by fastforce
    obtain v p2 where c: "check_admission cfg tier (cfg_int cfg ''SHED_WAIT_MS'' \<le> 0) ?p0 = (v, p2)" by fastforce
    obtain st q where s: "settle_admission cfg e tier ?d (v, p2) = (st, q)" by fastforce
    have "acquire_wait cfg tier (he_wakes e) (v, p2) = (ok, p1)" using acq c by (simp add: acquire_def)
    from acquire_wait_sections [OF this s, of sts] obtain es where es:
      "req_run ((cfg, Open hdrs e tier) # es) \<lparr>rs_proc = p, rs_list = sts\<rparr>
       = (if ok then Some \<lparr>rs_proc = snd (settle_admission cfg e tier ?d (Admitted, p1)),
                        rs_list = sts @ [fst (settle_admission cfg e tier ?d (Admitted, p1))]\<rparr>
          else Some \<lparr>rs_proc = snd (shed_reply cfg e tier p1), rs_list = sts @ [Over None (fst (shed_reply cfg e tier p1))]\<rparr>)"
      using False c s by (auto simp: open_request_def Let_def)
    show ?thesis
    proof (cases "ok \<and> \<not> should_error (he_error_draw e) (p_faults p1)")
      case True
      then have "req_run (((cfg, Open hdrs e tier) # es) @ [(cfg, Complete (length sts) e work)]) \<lparr>rs_proc = p, rs_list = sts\<rparr>
          = Some \<lparr>rs_proc = p', rs_list = sts @ [Over (outcome_status (fst (work ?d p1))) r]\<rparr>"
        using run False acq es
        by (simp only: req_run_append) (simp add: settle_admission_def req_put_def complete_request_def case_prod_beta)
      then show ?thesis by blast
    next
      case other: False
      then have "req_run ((cfg, Open hdrs e tier) # es) \<lparr>rs_proc = p, rs_list = sts\<rparr> = Some \<lparr>rs_proc = p', rs_list = sts @ [Over None r]\<rparr>"
        using run False acq es by (cases ok) (auto simp: settle_admission_def case_prod_beta)
      then show ?thesis by blast
    qed
  qed
qed

subsection \<open>The endpoints leave the books alone\<close>

definition tally_view :: "'d proc_scheme \<Rightarrow> (string \<Rightarrow> int) \<times> int" where
  "tally_view p = (\<lambda>n. if n \<in> tally_names then n_of p n else 0, inflight (p_shed p))"

lemma quiet_view: "quiet f \<longleftrightarrow> (\<forall>p. tally_view (f p) = tally_view p)"
  unfolding quiet_def tally_view_def prod.inject fun_eq_iff by metis

lemma view_bump [simp]: "n \<notin> tally_names \<Longrightarrow> tally_view (bump n p) = tally_view p"
  by (auto simp: tally_view_def)

lemma view_fields [simp]:
  "tally_view (p\<lparr>w_budget := b\<rparr>) = tally_view p" "tally_view (p\<lparr>p_engine := g\<rparr>) = tally_view p"
  "tally_view (p\<lparr>p_report := g'\<rparr>) = tally_view p" "tally_view (p\<lparr>p_db := db\<rparr>) = tally_view p"
  "tally_view (p\<lparr>p_redis := rd\<rparr>) = tally_view p" "tally_view (p\<lparr>p_dns := dns\<rparr>) = tally_view p"
  "tally_view (p\<lparr>p_hedge := h\<rparr>) = tally_view p" "tally_view (p\<lparr>p_lat := l\<rparr>) = tally_view p"
  "tally_view (p\<lparr>proc.more := m\<rparr>) = tally_view p" "tally_view (use_engine cfg p) = tally_view p"
  by (simp_all add: tally_view_def use_engine_def cong: if_cong)

lemma view_counters:
  "(\<And>n. n \<in> tally_names \<Longrightarrow> count_of c n = n_of p n) \<Longrightarrow> tally_view (p\<lparr>w_counters := c\<rparr>) = tally_view p"
  by (auto simp: tally_view_def)

lemma view_run_db [simp]: "tally_view (snd (run_db cfg de st deadline p)) = tally_view p"
proof -
  have "n \<notin> {''db_queries'', ''db_errors'', ''deadline_abandoned''}" if "n \<in> tally_names" for n
    using that by (auto simp: tally_names_def)
  then show ?thesis by (simp add: case_prod_beta do_work_frame view_counters)
qed

lemma view_next_hop [simp]: "tally_view (snd (call_next_hop a el p)) = tally_view p"
  by (simp add: call_next_hop_def Let_def tally_names_def split: http_answer.split)

lemma view_retries:
  fixes f :: "nat \<Rightarrow> rat \<Rightarrow> 'd proc_scheme \<Rightarrow> 'r \<times> 'd proc_scheme"
  assumes "\<And>n t w. tally_view (snd (f n t w)) = tally_view w"
  shows "tally_view (snd (snd (snd (with_retries cfg re f rt dl p)))) = tally_view p"
proof -
  obtain r n ds p' where res: "retry_from cfg re f rt dl (nat (max 1 (cfg_int cfg ''RETRY_ATTEMPTS''))) 1 None p = (r, n, ds, p')"
    by (metis prod_cases4)
  have out: "outside_loop (tally_view :: 'd proc_scheme \<Rightarrow> _)" by (simp add: outside_loop_def tally_names_def)
  have "tally_view p' = tally_view p"
    using retry_from_calls [where keep = "\<lambda>v. v = tally_view p" and cost = "\<lambda>_. 0" and c = 0 and good = "\<lambda>_. True",
        OF out _ _ _ _ _ _ res, of "(=)"] assms by simp
  with res show ?thesis by (simp add: with_retries_def)
qed

lemma hedged_call_counts:
  assumes "hedged_call cfg course w = Inr (x, w')" and "n \<in> tally_names"
  shows "count_of (f_counters w') n = count_of (f_counters w) n"
  using assms by (auto simp: hedged_call_def with_bucket_def tally_names_def Let_def
      split: sum.splits if_splits call_course.splits prod.splits)

lemma run_legs_counts:
  "run_legs cfg ls w = (rs, w') \<Longrightarrow> n \<in> tally_names \<Longrightarrow> count_of (f_counters w') n = count_of (f_counters w) n"
proof (induction ls arbitrary: w rs)
  case (Cons l ls)
  then show ?case by (auto dest: hedged_call_counts split: sum.splits prod.splits)
qed simp

lemma charge_counts:
  assumes "charge fp rp cfg now key b dc = (res, (db, c))" and "n \<in> tally_names"
  shows "count_of c n = count_of (snd dc) n"
proof -
  obtain db0 c0 where dc: "dc = (db0, c0)" by (cases dc)
  have ins: "count_of c' n = count_of c1 n" if "insert_charge rp key b (d1, c1) = (x, (d', c'))" for x d1 c1 d' c'
    using that assms(2) by (auto simp: insert_charge_def tally_names_def Let_def split: sum.splits)
  have pub: "count_of c' n = count_of c1 n" if "work_and_publish rp key b (d1, c1) = (x, (d', c'))" for x d1 c1 d' c'
    using that ins by (auto simp: work_and_publish_def Let_def split: sum.splits prod.splits option.splits)
  have poll: "count_of c' n = count_of c1 n" if "replay_poll key f e (d1, c1) = (x, c')" for f e x d1 c1 c'
    using that assms(2) by (auto simp: replay_poll_def tally_names_def split: option.splits if_splits bool.splits)
  show ?thesis
  proof (cases "cfg_str cfg ''IDEMPOTENCY_MODE'' = ''naive''")
    case True
    then show ?thesis using assms(1) dc by (auto simp: charge_def charge_naive_def dest: ins split: option.splits sum.splits prod.splits)
  next
    case False
    then show ?thesis using assms(1) dc
      by (auto simp: charge_def charge_correct_def Let_def dest!: pub poll split: if_splits prod.splits option.splits)
  qed
qed

text \<open>The work of the routes that go through \<^verbatim>\<open>run_handler\<close> (\<^verbatim>\<open>/checkout\<close> and \<^verbatim>\<open>/search\<close> share \<open>work_do\<close>).\<close>

inductive endpoint_work :: "config \<Rightarrow> 'd work \<Rightarrow> bool" for cfg where
  work: "endpoint_work cfg (work_do cfg de now)"
| report: "endpoint_work cfg (report_do cfg de now)"
| chain: "endpoint_work cfg (chain_do cfg de now re hdrs next_hop)"
| cached: "endpoint_work cfg (cached_do cfg des now re key clk redis setex_answer t_set use)"
| backend: "endpoint_work cfg (backend_do cfg lognormal u)"
| fanout: "endpoint_work cfg (fanout_do cfg t1 t2 resolved sorted_set leg_of k)"
| charge: "endpoint_work cfg (charge_do fp rp cfg now hdrs b)"

lemma view_work_do: "tally_view (snd (work_do cfg de now d p)) = tally_view p"
  using view_run_db [of cfg de "statement_timeout_ms cfg now d" d "use_engine cfg p"]
  by (simp add: work_do_def case_prod_beta del: view_run_db)

lemma view_report_do: "tally_view (snd (report_do cfg de now d p)) = tally_view p"
proof -
  obtain x cur rep where r: "report_engine cfg (p_engine p) (p_report p) = (x, cur, rep)" by (metis prod_cases3)
  show ?thesis using view_run_db [of cfg de "statement_timeout_ms cfg now d" d "p\<lparr>p_engine := cur, p_report := rep\<rparr>"]
    by (simp add: report_do_def r case_prod_beta del: view_run_db)
qed

lemma view_chain_do: "tally_view (snd (chain_do cfg de now re hdrs next_hop d p)) = tally_view p"
proof -
  have att: "tally_view (snd (chain_attempt next_hop hs n t w)) = tally_view w" for hs n t w
    by (simp add: chain_attempt_def case_prod_beta)
  show ?thesis
    using view_retries [where f = "chain_attempt next_hop (headers_for_next_hop cfg d hdrs)", OF att, of cfg re "\<lambda>r. retryable (h_status r)" d p]
      view_run_db [of cfg de "statement_timeout_ms cfg now d" d "use_engine cfg p"]
    by (simp add: chain_do_def case_prod_beta Let_def del: view_run_db split: option.split)
qed

lemma view_cached_do: "tally_view (snd (cached_do cfg des now re key clk redis setex_answer t_set use d p)) = tally_view p"
proof -
  have get: "tally_view (q\<lparr>w_counters := snd (cache_get redis (w_counters q))\<rparr>) = tally_view q" for q
    by (rule view_counters) (auto simp: cache_get_def tally_names_def split: driver.split option.split)
  have att: "tally_view (snd (cached_attempt cfg des now d use n t w)) = tally_view w" for n t w
    using view_run_db [of cfg _ "statement_timeout_ms cfg now d" d "use_engine cfg w"]
    by (simp add: cached_attempt_def case_prod_beta Let_def tally_names_def del: view_run_db split: option.split)
  note rt = view_retries [where f = "cached_attempt cfg des now d use", OF att]
  show ?thesis unfolding cached_do_def Let_def case_prod_beta
    by (simp add: get rt split: sum.split option.split)
qed

lemma view_fanout_do: "tally_view (snd (fanout_do cfg t1 t2 resolved sorted_set leg_of k d p)) = tally_view p"
proof -
  obtain addrs dns where a: "backend_addresses cfg t1 t2 resolved sorted_set (nat (max 1 k)) (p_dns p) = (addrs, dns)"
    by (rule prod.exhaust)
  obtain rs w where l: "run_legs cfg (map leg_of addrs) (fan_view p) = (rs, w)" by fastforce
  have "tally_view (fan_store w (p\<lparr>p_dns := dns\<rparr>)) = tally_view p"
    using run_legs_counts [OF l] by (auto simp: fan_store_def fan_view_def tally_view_def)
  then show ?thesis by (simp add: fanout_do_def a l case_prod_beta)
qed

lemma view_charge_do: "tally_view (snd (charge_do fp rp cfg now hdrs b d p)) = tally_view p"
proof -
  obtain res db c where ch: "charge fp rp cfg now (charge_key rp hdrs b) b (p_db p, w_counters p) = (res, (db, c))" by (metis prod_cases3)
  have "tally_view ((use_engine cfg p)\<lparr>p_db := db, w_counters := c\<rparr>) = tally_view p"
    using charge_counts [OF ch] by (auto simp: tally_view_def use_engine_def)
  then show ?thesis by (cases res) (auto simp: charge_do_def ch case_prod_beta)
qed

theorem endpoint_work_quiet: "endpoint_work cfg w \<Longrightarrow> quiet_work w"
  unfolding quiet_work_def quiet_view
  by (induction rule: endpoint_work.induct)
    (simp_all add: view_work_do view_report_do view_chain_do view_cached_do view_fanout_do view_charge_do, simp add: backend_do_def Let_def)

text \<open>So do a change of the injected faults or of the configuration.\<close>

lemma admin_quiet:
  "quiet (\<lambda>p. snd (post_fault patch p))" "quiet (\<lambda>p. snd (snd (snd (post_config rp cfg patch' p))))"
  by (auto simp: quiet_def post_fault_def post_config_def use_engine_def Let_def split: sum.split prod.split)

subsection \<open>The books\<close>

text \<open>Where a request stands. Every request has one standing; four of them have a counter.\<close>

fun standing :: "request_state \<Rightarrow> string" where
  "standing (Queued _ _) = ''queued''"
| "standing (In_work _ _) = ''in work''"
| "standing Gone = ''cancelled''"
| "standing (Over None r) =
     (if r_label r = ''rejected'' then ''deadline_rejected'' else if r_label r = ''shed'' then ''shed'' else ''failed'')"
| "standing (Over (Some st) r) = (if st < 400 then ''completed'' else if 500 \<le> st then ''failed'' else ''client error'')"

definition number :: "'d req_sys \<Rightarrow> string \<Rightarrow> int" where
  "number y s = int (length (filter (\<lambda>st. standing st = s) (rs_list y)))"

definition ending_names :: "string set" where
  "ending_names = {''completed'', ''failed'', ''shed'', ''deadline_rejected''}"

text \<open>The answers: a request that did not finish its endpoint's work is told why; one that did is told the
  endpoint's status, or 599 when the injector drops the answer.\<close>

fun answer_ok :: "request_state \<Rightarrow> bool" where
  "answer_ok (Over None r) = ((r_label r, r_status r) \<in> {(''rejected'', 504), (''shed'', 503), (''fault'', 503), (''error'', 500)})"
| "answer_ok (Over (Some st) r) = ((r_label r, r_status r) = (''dropped'', 599) \<or> r_label r \<in> {''ok'', ''fail''} \<and> r_status r = st)"
| "answer_ok _ = True"

text \<open>A section that takes a request from one standing to another.\<close>

definition moves :: "string \<Rightarrow> string \<Rightarrow> 'd proc_scheme \<Rightarrow> 'd proc_scheme \<Rightarrow> bool" where
  "moves old new p p' \<longleftrightarrow>
     (\<forall>k\<in>ending_names. n_of p' k = n_of p k + of_bool (new = k) - of_bool (old = k))
     \<and> n_of p' ''received'' = n_of p ''received''
     \<and> inflight (p_shed p') = inflight (p_shed p) + of_bool (new = ''in work'') - of_bool (old = ''in work'')
     \<and> 0 \<le> n_of p' ''zombies'' - n_of p ''zombies''
     \<and> n_of p' ''zombies'' - n_of p ''zombies'' \<le> n_of p' ''completed'' - n_of p ''completed''"

lemma shed_reply_moves:
  assumes "shed_reply cfg e tier p = (r, p')" and "n_of p ''shed'' = n_of q ''shed'' + 1"
    and "\<And>k. k \<noteq> ''shed'' \<Longrightarrow> n_of p k = n_of q k" and "inflight (p_shed p) = inflight (p_shed q)"
  shows "moves ''queued'' (standing (Over None r)) q p' \<and> answer_ok (Over None r)"
  using respond_frame [OF assms(1) [unfolded shed_reply_def]] assms(2-4)
  by (simp add: moves_def ending_names_def)

lemma admission_moves:
  assumes "check_admission cfg tier x p = vp" and "settle_admission cfg e tier d vp = (st, p')" and "0 \<le> inflight (p_shed p)"
  shows "moves ''queued'' (standing st) p p' \<and> answer_ok st"
proof -
  obtain v q where vp: "vp = (v, q)" by (cases vp)
  note ca = check_admission_cases [OF assms(1) [unfolded vp]]
  show ?thesis
  proof (cases v)
    case Waits
    then show ?thesis using assms(2) vp ca by (auto simp: settle_admission_def moves_def ending_names_def)
  next
    case Refused
    then obtain r where "shed_reply cfg e tier q = (r, p')" "st = Over None r"
      using assms(2) vp by (auto simp: settle_admission_def split: prod.splits)
    then show ?thesis using shed_reply_moves [of cfg e tier q r p' p] ca Refused by simp
  next
    case Admitted
    show ?thesis
    proof (cases "should_error (he_error_draw e) (p_faults q)")
      case True
      then obtain r where r: "fault_reply cfg e q = (r, p')" "st = Over None r"
        using assms(2) vp Admitted by (auto simp: settle_admission_def split: prod.splits)
      from r(1) obtain p2 body hs where "respond cfg e 503 body hs ''fault'' (bump ''failed'' q) = (r, p2)" "p' = release_slot cfg e p2"
        by (rule fault_replyD)
      then show ?thesis using respond_frame [of cfg e 503 body hs "''fault''" "bump ''failed'' q" r p2] release_slot_frame [of cfg e p2]
          ca Admitted assms(3) r(2) by (simp add: moves_def ending_names_def)
    next
      case False
      then show ?thesis using assms(2) vp ca Admitted by (auto simp: settle_admission_def moves_def ending_names_def)
    qed
  qed
qed

lemma open_moves:
  assumes "open_request cfg hdrs e tier p = (st, p')" and "0 \<le> inflight (p_shed p)"
  shows "moves ''queued'' (standing st) (bump ''received'' p) p' \<and> answer_ok st"
proof (cases "should_reject cfg (he_reject e) (effective_deadline cfg hdrs e)")
  case True
  then obtain r where r: "reject_late cfg e (effective_deadline cfg hdrs e) (bump ''received'' p) = (r, p')" "st = Over None r"
    using assms(1) by (auto simp: open_request_def Let_def split: prod.splits)
  show ?thesis using respond_frame [OF r(1) [unfolded reject_late_def Let_def]] r(2) by (simp add: moves_def ending_names_def)
next
  case False
  have "settle_admission cfg e tier (effective_deadline cfg hdrs e)
      (check_admission cfg tier (cfg_int cfg ''SHED_WAIT_MS'' \<le> 0) (bump ''received'' p)) = (st, p')"
    using assms(1) False by (simp add: open_request_def Let_def)
  from admission_moves [OF refl this] assms(2) show ?thesis by simp
qed

lemma wait_out_moves:
  assumes "wait_times_out cfg e tier p = (st, p')"
  shows "moves ''queued'' (standing st) p p' \<and> answer_ok st"
proof -
  obtain r q where r: "shed_reply cfg e tier (bump ''shed'' p) = (r, q)" by fastforce
  with assms have "st = Over None r" "p' = q" by (simp_all add: wait_times_out_def)
  with shed_reply_moves [OF r, of p] show ?thesis by simp
qed

lemma complete_moves:
  assumes "quiet_work work" and "complete_request cfg e d n work p = (st, p')" and "1 \<le> inflight (p_shed p)"
  shows "moves ''in work'' (standing st) p p' \<and> answer_ok st"
proof -
  obtain res p1 where w: "work d p = (res, p1)" by fastforce
  obtain r p2 where a: "after_work cfg e d n (res, p1) = (r, p2)" by fastforce
  have st: "st = Over (outcome_status res) r" "p' = p2" using assms(2) w a by (simp_all add: complete_request_def)
  have q: "(\<forall>n\<in>tally_names. n_of p1 n = n_of p n) \<and> inflight (p_shed p1) = inflight (p_shed p)"
    using assms(1) w unfolding quiet_work_def quiet_def by (metis snd_conv)
  show ?thesis
  proof (cases res)
    case (Inl x)
    with a have "error_reply cfg e x p1 = (r, p2)" by (simp add: after_work_def)
    then obtain p3 body hs where "respond cfg e 500 body hs ''error'' (bump ''failed'' p1) = (r, p3)" "p2 = release_slot cfg e p3"
      by (rule error_replyD)
    then show ?thesis using respond_frame [of cfg e 500 body hs "''error''" "bump ''failed'' p1" r p3] release_slot_frame [of cfg e p3]
        q assms(3) st Inl by (simp add: moves_def ending_names_def outcome_status_def tally_names_def)
  next
    case (Inr out)
    with a have "finish_request cfg e d n out (release_slot cfg e p1) = (r, p2)" by (simp add: after_work_def)
    note fr = finish_request_counts [OF this]
    have "moves ''in work'' (standing st) p p'"
      using fr release_slot_frame [of cfg e p1] q assms(3) st Inr
      by (simp add: moves_def ending_names_def outcome_status_def tally_names_def)
    moreover have "answer_ok st" using fr st Inr by (auto simp: outcome_status_def split: if_splits)
    ultimately show ?thesis ..
  qed
qed

lemma cancel_moves:
  assumes "cancel_request cfg e old p = Some (st, p')" and "standing old = ''in work'' \<Longrightarrow> 1 \<le> inflight (p_shed p)"
  shows "moves (standing old) (standing st) p p' \<and> answer_ok st"
  using assms release_slot_frame [of cfg e p]
  by (auto simp: cancel_request_def moves_def ending_names_def split: request_state.splits)

definition books_ok :: "'d req_sys \<Rightarrow> bool" where
  "books_ok y \<longleftrightarrow>
     n_of (rs_proc y) ''received'' = int (length (rs_list y))
     \<and> (\<forall>k\<in>ending_names. n_of (rs_proc y) k = number y k)
     \<and> inflight (p_shed (rs_proc y)) = number y ''in work''
     \<and> 0 \<le> n_of (rs_proc y) ''zombies'' \<and> n_of (rs_proc y) ''zombies'' \<le> n_of (rs_proc y) ''completed''
     \<and> (\<forall>st\<in>set (rs_list y). answer_ok st)"

lemma number_put:
  "i < length (rs_list y) \<Longrightarrow> number (req_put i (st, p) y) s
     = number y s + of_bool (standing st = s) - of_bool (standing (rs_list y ! i) = s)"
  using sum_map_update [of i "rs_list y" "\<lambda>x. of_bool (standing x = s) :: int" st]
  by (simp add: number_def req_put_def sum_of_bool)

lemma books_put:
  assumes b: "books_ok y" and i: "i < length (rs_list y)"
    and m: "moves (standing (rs_list y ! i)) (standing st) (rs_proc y) p" and a: "answer_ok st"
  shows "books_ok (req_put i (st, p) y)"
proof -
  have "\<forall>x\<in>set ((rs_list y)[i := st]). answer_ok x"
    using b a set_update_subset_insert [of "rs_list y" i st] by (auto simp: books_ok_def)
  moreover have f: "rs_proc (req_put i (st, p) y) = p" "rs_list (req_put i (st, p) y) = (rs_list y)[i := st]"
    by (simp_all add: req_put_def)
  moreover have "''completed'' \<in> ending_names" by (simp add: ending_names_def)
  ultimately show ?thesis using b m unfolding books_ok_def moves_def f number_put [OF i] by auto
qed

lemma in_work_counted:
  assumes "books_ok y" "i < length (rs_list y)" "standing (rs_list y ! i) = ''in work''"
  shows "1 \<le> inflight (p_shed (rs_proc y))"
proof -
  have "rs_list y ! i \<in> set (filter (\<lambda>st. standing st = ''in work'') (rs_list y))" using assms(2,3) by simp
  then have "0 < length (filter (\<lambda>st. standing st = ''in work'') (rs_list y))" by (rule length_pos_if_in_set)
  then show ?thesis using assms(1) unfolding books_ok_def number_def by linarith
qed

fun fair_event :: "config \<Rightarrow> 'd req_event \<Rightarrow> bool" where
  "fair_event cfg (Complete i e work) = endpoint_work cfg work"
| "fair_event cfg (Elsewhere f) = quiet f"
| "fair_event cfg _ = True"

lemma books_step:
  assumes b: "books_ok y" and f: "fair_event cfg ev" and s: "req_step cfg ev y = Some y'"
  shows "books_ok y'"
proof -
  have g: "0 \<le> inflight (p_shed (rs_proc y))" using b by (simp add: books_ok_def number_def)
  show ?thesis
  proof (cases ev)
    case (Open hdrs e tier)
    obtain st p where o: "open_request cfg hdrs e tier (rs_proc y) = (st, p)" by fastforce
    with s Open have y': "y' = y\<lparr>rs_proc := p, rs_list := rs_list y @ [st]\<rparr>" by simp
    have "number y' k = number y k + of_bool (standing st = k)" for k by (simp add: y' number_def)
    moreover have "''completed'' \<in> ending_names" "''queued'' \<notin> ending_names" "''received'' \<notin> ending_names" "''zombies'' \<notin> ending_names"
      by (simp_all add: ending_names_def)
    ultimately show ?thesis using open_moves [OF o g] b unfolding books_ok_def moves_def by (auto simp: y')
  next
    case (Recheck i e x)
    with s obtain tier d where i: "i < length (rs_list y)" "rs_list y ! i = Queued tier d"
      and y': "y' = req_put i (recheck_admission cfg e tier d x (rs_proc y)) y" by (auto split: if_splits request_state.splits)
    obtain st p where r: "recheck_admission cfg e tier d x (rs_proc y) = (st, p)" by fastforce
    from admission_moves [OF refl r [unfolded recheck_admission_def] g] show ?thesis
      unfolding y' r using i by (intro books_put [OF b]) simp_all
  next
    case (Wait_out i e)
    with s obtain tier d where i: "i < length (rs_list y)" "rs_list y ! i = Queued tier d"
      and y': "y' = req_put i (wait_times_out cfg e tier (rs_proc y)) y" by (auto split: if_splits request_state.splits)
    obtain st p where r: "wait_times_out cfg e tier (rs_proc y) = (st, p)" by fastforce
    from wait_out_moves [OF r] show ?thesis unfolding y' r using i by (intro books_put [OF b]) simp_all
  next
    case (Complete i e work)
    with s obtain d n where i: "i < length (rs_list y)" "rs_list y ! i = In_work d n"
      and y': "y' = req_put i (complete_request cfg e d n work (rs_proc y)) y" by (auto split: if_splits request_state.splits)
    obtain st p where r: "complete_request cfg e d n work (rs_proc y) = (st, p)" by fastforce
    have "quiet_work work" using f Complete by (simp add: endpoint_work_quiet)
    from complete_moves [OF this r in_work_counted [OF b i(1)]] i show ?thesis
      unfolding y' r by (intro books_put [OF b]) simp_all
  next
    case (Cancel_request i e)
    with s obtain st p where i: "i < length (rs_list y)" "cancel_request cfg e (rs_list y ! i) (rs_proc y) = Some (st, p)"
      and y': "y' = req_put i (st, p) y" by (auto split: if_splits)
    from cancel_moves [OF i(2) in_work_counted [OF b i(1)]] show ?thesis unfolding y' using i by (intro books_put [OF b]) simp_all
  next
    case (Elsewhere h)
    with s f have y': "y' = y\<lparr>rs_proc := h (rs_proc y)\<rparr>" and q: "quiet h" by simp_all
    have "number y' k = number y k" for k by (simp add: y' number_def)
    moreover have "ending_names \<subseteq> tally_names" "{''received'', ''zombies'', ''completed''} \<subseteq> tally_names"
      by (auto simp: ending_names_def tally_names_def)
    ultimately show ?thesis using b q unfolding books_ok_def quiet_def y' by (simp add: subset_iff)
  qed
qed

text \<open>Runs from a process that has just been started, or reset while nothing was in flight, under a configuration
  that may change before every section.\<close>

definition fresh_proc :: "'d proc_scheme \<Rightarrow> bool" where
  "fresh_proc p \<longleftrightarrow> (\<forall>k\<in>tally_names. n_of p k = 0) \<and> inflight (p_shed p) = 0"

inductive req_reachable :: "'d req_sys \<Rightarrow> bool" where
  start: "fresh_proc p \<Longrightarrow> req_reachable \<lparr>rs_proc = p, rs_list = []\<rparr>"
| step: "req_reachable y \<Longrightarrow> fair_event cfg ev \<Longrightarrow> req_step cfg ev y = Some y' \<Longrightarrow> req_reachable y'"

lemma fresh_new_proc: "fresh_proc (new_proc now)"
  by (auto simp: fresh_proc_def new_proc_def new_shedder_def new_counters_def count_of_def map_of_map_restrict restrict_map_def
      split: option.split)

lemma req_run_reachable:
  "req_run es y = Some y' \<Longrightarrow> req_reachable y \<Longrightarrow> \<forall>(cfg, ev)\<in>set es. fair_event cfg ev \<Longrightarrow> req_reachable y'"
  by (induction es y rule: req_run.induct) (auto intro: req_reachable.step split: option.splits)

lemma books_reachable: "req_reachable y \<Longrightarrow> books_ok y"
proof (induction rule: req_reachable.induct)
  case (start p)
  then show ?case by (simp add: fresh_proc_def books_ok_def number_def ending_names_def tally_names_def)
qed (rule books_step)

lemma standing_partition:
  "int (length (rs_list y)) = number y ''completed'' + number y ''failed'' + number y ''shed'' + number y ''deadline_rejected''
     + number y ''in work'' + number y ''queued'' + number y ''cancelled'' + number y ''client error''"
proof -
  have cases: "standing st \<in> {''completed'', ''failed'', ''shed'', ''deadline_rejected'', ''in work'', ''queued'', ''cancelled'', ''client error''}" for st
    by (cases st rule: standing.cases) simp_all
  have "int (length sts) = (\<Sum>s\<leftarrow>[''completed'', ''failed'', ''shed'', ''deadline_rejected'', ''in work'', ''queued'', ''cancelled'', ''client error''].
      int (length (filter (\<lambda>st. standing st = s) sts)))" for sts
  proof (induction sts)
    case (Cons st sts)
    from cases [of st] Cons.IH show ?case by (elim insertE emptyE) simp_all
  qed simp
  from this [of "rs_list y"] show ?thesis by (simp add: number_def)
qed

text \<open>C5. Every request that reaches the handler is counted once, in every interleaving of the sections of any
  number of requests, whatever the configuration does meanwhile. \<^verbatim>\<open>received\<close> is the number of requests that
  arrived, and each of them is at any time in exactly one place: \<^verbatim>\<open>completed\<close>, \<^verbatim>\<open>failed\<close>, \<^verbatim>\<open>shed\<close> and
  \<^verbatim>\<open>deadline_rejected\<close> count the requests that ended that way, the in-flight gauge the ones at work; the rest
  wait for admission, were answered 4xx by their endpoint, or were cancelled, and no counter shows these. The
  slot is given back on every path, cancellation included, a zombie is always a completed request, and each
  answer carries the status of its ending. The endpoints' work is that of the program; other code may run
  anywhere as long as it leaves these counters and the gauge alone.\<close>

theorem requests_counted_once:
  assumes "req_reachable y"
  shows "n_of (rs_proc y) ''received'' = int (length (rs_list y))
     \<and> n_of (rs_proc y) ''completed'' = number y ''completed'' \<and> n_of (rs_proc y) ''failed'' = number y ''failed''
     \<and> n_of (rs_proc y) ''shed'' = number y ''shed'' \<and> n_of (rs_proc y) ''deadline_rejected'' = number y ''deadline_rejected''
     \<and> inflight (p_shed (rs_proc y)) = number y ''in work''
     \<and> n_of (rs_proc y) ''received'' = n_of (rs_proc y) ''completed'' + n_of (rs_proc y) ''failed'' + n_of (rs_proc y) ''shed''
         + n_of (rs_proc y) ''deadline_rejected'' + inflight (p_shed (rs_proc y))
         + number y ''queued'' + number y ''cancelled'' + number y ''client error''
     \<and> 0 \<le> n_of (rs_proc y) ''zombies'' \<and> n_of (rs_proc y) ''zombies'' \<le> n_of (rs_proc y) ''completed''
     \<and> (\<forall>st\<in>set (rs_list y). answer_ok st)"
  using books_reachable [OF assms] standing_partition [of y] by (simp add: books_ok_def ending_names_def)

text \<open>Two uneventful requests: one is answered by \<^verbatim>\<open>/backend\<close>, the other is cancelled at its work.\<close>

definition two_requests :: "(config \<times> unit req_event) list" where
  "two_requests =
     [(sample_config, Open (\<lambda>_. None) (calm 0) 0), (sample_config, Open (\<lambda>_. None) (calm 0) 0),
      (sample_config, Cancel_request 1 (calm 0)), (sample_config, Complete 0 (calm 0) (backend_do sample_config (\<lambda>a b. a) 0))]"

lemma calm_open:
  fixes p :: proc
  assumes "p_faults p = no_faults"
  shows "\<exists>d n p'. open_request sample_config hdrs (calm u :: proc handler_env) 0 p = (In_work d n, p')
     \<and> p_faults p' = no_faults"
proof -
  have cfg: "cfg_str sample_config ''SHED_MODE'' = ''none''" "\<not> cfg_bool sample_config ''PROPAGATE_DEADLINE''" by code_simp+
  then have "allowance sample_config q t = None" for q t by (simp add: allowance_def shed_limit_def)
  moreover have "\<not> should_error v no_faults" for v by (simp add: no_error_when_off no_faults_def)
  ultimately show ?thesis using assms cfg
    by (simp add: open_request_def should_reject_def check_admission_def acquire_check_def settle_admission_def Let_def)
qed

theorem requests_counted_once_witness:
  "\<exists>y. req_run two_requests \<lparr>rs_proc = new_proc 0, rs_list = []\<rparr> = Some y
     \<and> n_of (rs_proc y) ''received'' = 2 \<and> n_of (rs_proc y) ''completed'' = 1 \<and> inflight (p_shed (rs_proc y)) = 0"
proof -
  have "p_faults (new_proc 0) = no_faults" by (simp add: new_proc_def)
  from calm_open [OF this] obtain d n p1 where 1: "open_request sample_config (\<lambda>_. None) (calm 0 :: proc handler_env) 0 (new_proc 0) = (In_work d n, p1)" "p_faults p1 = no_faults" by blast
  from calm_open [OF 1(2)] obtain d' n' p2 where 2: "open_request sample_config (\<lambda>_. None) (calm 0 :: proc handler_env) 0 p1 = (In_work d' n', p2)" by blast
  define c where "c = complete_request sample_config (calm 0 :: proc handler_env) d n (backend_do sample_config (\<lambda>a b. a) 0) (release_slot sample_config (calm 0 :: proc handler_env) p2)"
  have st: "standing (fst c) = ''completed''"
    by (simp add: c_def complete_request_def backend_do_def outcome_status_def Let_def case_prod_beta)
  let ?y = "\<lparr>rs_proc = snd c, rs_list = [fst c, Gone]\<rparr>"
  have run: "req_run two_requests \<lparr>rs_proc = new_proc 0, rs_list = []\<rparr> = Some ?y"
    by (simp add: two_requests_def 1 2 req_put_def cancel_request_def c_def)
  have fair: "\<forall>(cfg, ev)\<in>set two_requests. fair_event cfg ev" by (simp add: two_requests_def endpoint_work.backend)
  have "req_reachable ?y" by (rule req_run_reachable [OF run _ fair]) (simp add: req_reachable.start fresh_new_proc)
  from requests_counted_once [OF this] run st show ?thesis by (intro exI [of _ ?y]) (simp add: number_def)
qed

end
