(* ===== verification/Lab_Chain.thy ===== *)
theory Lab_Chain
  imports Lab_Requests
begin

text \<open>
  Compositions of the failure lab: the chain gateway, service-b, service-c of \<^verbatim>\<open>docker-compose.yml\<close>, in which
  every hop is the whole \<^verbatim>\<open>/chain\<close> handler of \<^verbatim>\<open>main.py\<close>, and the life of one payment whose first answer is
  lost. The state of a hop's process is extended by the state of the processes behind it.
\<close>

subsection \<open>Retry amplification\<close>

text \<open>What becomes of one attempt on the network: answered, given up by the client's timeout (the hop still
  does its work), or never sent.\<close>

datatype attempt_fate = Delivered rat | Given_up rat | Never_sent string rat

text \<open>The circumstances a hop meets when it serves an attempt.\<close>

record 'd weather =
  wx_fate :: attempt_fate
  wx_env :: "'d proc_scheme handler_env"
  wx_db :: db_env
  wx_now :: rat
  wx_retry :: retry_env

type_synonym 'd forecast = "nat \<Rightarrow> rat \<Rightarrow> headers \<Rightarrow> 'd proc_scheme \<Rightarrow> 'd weather"

definition serve_hop :: "config \<Rightarrow> 'd forecast \<Rightarrow> 'd downstream \<Rightarrow> 'd proc_scheme downstream" where
  "serve_hop cfg wx next_hop n timeout hs d =
     (let x = wx n timeout hs d;
          (r, d') = chain_endpoint cfg hs (wx_env x) (wx_db x) (wx_now x) (wx_retry x) next_hop d
      in case wx_fate x of
           Delivered el \<Rightarrow> ((Resp (r_status r) (r_payload r), el), d')
         | Given_up el \<Rightarrow> ((TimedOut, el), d')
         | Never_sent name el \<Rightarrow> ((Raised name, el), d))"

definition attempts_of :: "config \<Rightarrow> nat" where
  "attempts_of cfg = nat (max 1 (cfg_int cfg ''RETRY_ATTEMPTS''))"

definition retries_unbounded :: "config \<Rightarrow> bool" where
  "retries_unbounded cfg \<longleftrightarrow> cfg_float cfg ''RETRY_BUDGET_PCT'' \<le> 0 \<and> \<not> cfg_bool cfg ''PROPAGATE_DEADLINE''"

definition answer_fails :: "http_answer \<Rightarrow> bool" where
  "answer_fails a \<longleftrightarrow> (case a of Resp st _ \<Rightarrow> 500 \<le> st | _ \<Rightarrow> True)"

text \<open>While a request waits for admission, other requests leave the counters of the process and everything
  behind it alone: the calls counted below are those of one request.\<close>

definition undisturbed :: "'d proc_scheme handler_env \<Rightarrow> bool" where
  "undisturbed e \<longleftrightarrow> (\<forall>(m, x)\<in>set (he_wakes e). quiet m \<and> (\<forall>p. proc.more (m p) = proc.more p))"

text \<open>The plain path of the handler: no shedding, no propagated deadline, no injected errors.\<close>

definition plain :: "config \<Rightarrow> 'd proc_scheme \<Rightarrow> bool" where
  "plain cfg p \<longleftrightarrow> cfg_str cfg ''SHED_MODE'' = ''none'' \<and> \<not> cfg_bool cfg ''PROPAGATE_DEADLINE'' \<and> error_pct (p_faults p) = 0"

lemma run_handler_plain:
  assumes "plain cfg p"
  obtains p1 where "p_db p1 = p_db p" "p_faults p1 = p_faults p" "proc.more p1 = proc.more p"
    "run_handler cfg hdrs e tier work p =
       after_work cfg e (effective_deadline cfg hdrs e) (inflight (p_shed p1)) (work (effective_deadline cfg hdrs e) p1)"
proof -
  define p1 where "p1 = snd (acquire cfg tier e (bump ''received'' p))"
  have none: "allowance cfg s t = None" for s t using assms by (simp add: plain_def allowance_def shed_limit_def)
  have ok: "acquire cfg tier e (bump ''received'' p) = (True, p1)"
    unfolding p1_def by (simp add: acquire_def check_admission_def acquire_check_def none)
  have p1: "p_db p1 = p_db p" "p_faults p1 = p_faults p" "proc.more p1 = proc.more p"
    unfolding p1_def by (simp_all add: acquire_def check_admission_def acquire_check_def none)
  have "\<not> should_reject cfg (he_reject e) (effective_deadline cfg hdrs e)" using assms by (simp add: plain_def should_reject_def)
  moreover have "\<not> should_error (he_error_draw e) (p_faults p1)" using assms p1 by (simp add: plain_def no_error_when_off)
  ultimately show thesis using p1 by (intro that [of p1]) (simp_all add: run_handler_def ok Let_def)
qed

text \<open>The handler touches what is behind the process only through the endpoint's work.\<close>

lemma respond_more: "respond cfg e st body hs label p = (r, p') \<Longrightarrow> proc.more p' = proc.more p"
  by (auto simp: respond_def Let_def)

lemma release_slot_more [simp]: "proc.more (release_slot cfg e p) = proc.more p"
  by (simp add: release_slot_def)

lemma finish_request_more:
  assumes "finish_request cfg e d i out p = (r, p')"
  shows "proc.more p' = proc.more p \<and> p_faults p' = p_faults p"
proof -
  obtain z c where rc: "record_completion (he_done e) d (status out < 400) (w_counters p) = (z, c)" by fastforce
  define p1 where "p1 = count_outcome (status out) (p\<lparr>w_counters := c\<rparr>)"
  have p1: "proc.more p1 = proc.more p" "p_faults p1 = p_faults p" by (simp_all add: p1_def count_outcome_def)
  have "\<exists>hs st body label. respond cfg e st body hs label p1 = (r, p')"
    using assms unfolding finish_request_def rc Let_def prod.case p1_def [symmetric] by (metis (full_types))
  then show ?thesis using p1 respond_more respond_frame by metis
qed

lemma acquire_wait_more:
  "acquire_wait cfg tier wakes (v, q) = (ok, p') \<Longrightarrow> \<forall>(m, x)\<in>set wakes. \<forall>p. proc.more (m p) = proc.more p
   \<Longrightarrow> proc.more p' = proc.more q"
proof (induction wakes arbitrary: v q)
  case Nil
  then show ?case by (cases v) auto
next
  case (Cons w wakes)
  obtain m x where w: "w = (m, x)" by (cases w)
  show ?case
  proof (cases v)
    case Waits
    obtain v1 q1 where c: "check_admission cfg tier x (m q) = (v1, q1)" by fastforce
    have "proc.more p' = proc.more q1" using Cons w Waits c by (intro Cons.IH [of v1]) auto
    moreover have "proc.more q1 = proc.more (m q)" using c by (auto simp: check_admission_def split: prod.splits)
    ultimately show ?thesis using Cons.prems(2) w by simp
  qed (use Cons.prems in auto)
qed

lemma acquire_more:
  assumes "undisturbed e" and "acquire cfg tier e p = (ok, p')"
  shows "proc.more p' = proc.more p"
proof -
  obtain v q where c: "check_admission cfg tier (cfg_int cfg ''SHED_WAIT_MS'' \<le> 0) p = (v, q)" by fastforce
  have "proc.more p' = proc.more q"
    using assms c by (intro acquire_wait_more [of cfg tier "he_wakes e" v]) (auto simp: acquire_def undisturbed_def)
  moreover have "proc.more q = proc.more p" using c by (auto simp: check_admission_def split: prod.splits)
  ultimately show ?thesis by simp
qed

lemma run_handler_more:
  assumes "undisturbed e" and "run_handler cfg hdrs e tier work p = (r, p')"
  obtains "proc.more p' = proc.more p"
    | q where "proc.more q = proc.more p" "proc.more p' = proc.more (snd (work (effective_deadline cfg hdrs e) q))"
  using assms(2)
proof (cases rule: run_handler_cases)
  case rejected
  from respond_more [OF this] that(1) show thesis by simp
next
  case (shed p1)
  from acquire_more [OF assms(1) shed(1)] respond_more [OF shed(2)] that(1) show thesis by simp
next
  case (fault p1)
  from acquire_more [OF assms(1) fault(1)] respond_more [OF fault(2)] fault(3) that(1) show thesis by simp
next
  case (failed p1)
  from acquire_more [OF assms(1) failed(1)] respond_more [OF failed(3)] failed(2,4) that(2) [of p1] show thesis by simp
next
  case (finished p1)
  from acquire_more [OF assms(1) finished(1)] finish_request_more [OF finished(3)] finished(2) that(2) [of p1] show thesis by simp
qed

text \<open>If the endpoint's work fails, so does the answer, whichever way the handler is left.\<close>

definition work_fails :: "(string \<times> string + outcome) \<times> 'd proc_scheme \<Rightarrow> bool" where
  "work_fails out \<longleftrightarrow> (case fst out of Inl _ \<Rightarrow> True | Inr out \<Rightarrow> 500 \<le> status out)"

lemma after_work_fails:
  assumes "after_work cfg e d i out = (r, p')" and "work_fails out"
  shows "500 \<le> r_status r"
proof -
  obtain res p where o: "out = (res, p)" by (cases out)
  show ?thesis
  proof (cases res)
    case (Inl x)
    with assms o have "error_reply cfg e x p = (r, p')" by (simp add: after_work_def)
    then show ?thesis by (rule error_replyD) (simp add: respond_frame)
  next
    case (Inr out')
    with assms o have "finish_request cfg e d i out' (release_slot cfg e p) = (r, p')" "500 \<le> status out'"
      by (simp_all add: after_work_def work_fails_def)
    with finish_request_counts [OF this(1)] show ?thesis by (auto split: if_splits)
  qed
qed

lemma run_handler_fails:
  assumes "run_handler cfg hdrs e tier work p = (r, p')" and w: "\<And>d q. work_fails (work d q)"
  shows "500 \<le> r_status r"
  using assms(1)
proof (cases rule: run_handler_cases)
  case (finished p1 p2 out)
  then have "500 \<le> status out" using w [of "effective_deadline cfg hdrs e" p1] by (simp add: work_fails_def)
  with finish_request_counts [OF finished(3)] show ?thesis by (auto split: if_splits)
qed (auto dest: respond_frame)

text \<open>One hop multiplies. The retry loop of a hop calls what is behind it at most its number of attempts, and
  exactly that often when every answer fails and nothing bounds its retries.\<close>

lemma chain_attempt_view:
  "proc.more (snd (chain_attempt nh hs n t w)) = snd (nh n t hs (proc.more w))"
  "p_faults (snd (chain_attempt nh hs n t w)) = p_faults w"
  "answer_fails (fst (fst (nh n t hs (proc.more w)))) \<Longrightarrow> retryable (h_status (fst (chain_attempt nh hs n t w)))"
  by (simp_all add: chain_attempt_def call_next_hop_def retryable_def answer_fails_def Let_def case_prod_beta split: http_answer.splits)

lemma chain_do_calls:
  fixes cost :: "'d \<Rightarrow> int" and nh :: "'d downstream"
  assumes hop: "cfg_str cfg ''DOWNSTREAM_URL'' \<noteq> []" and rel: "rel = (\<le>) \<or> rel = (=)"
    and step: "\<And>n t hs d. K d \<Longrightarrow> K (snd (nh n t hs d)) \<and> rel (cost (snd (nh n t hs d))) (cost d + c)
                  \<and> (F \<longrightarrow> answer_fails (fst (fst (nh n t hs d))))"
    and "K (proc.more p)" and run: "chain_do cfg de now re hdrs nh dl p = (res, p')"
  shows "K (proc.more p') \<and> p_faults p' = p_faults p \<and> (F \<longrightarrow> work_fails (res, p'))
    \<and> (\<exists>n\<le>attempts_of cfg. rel (cost (proc.more p')) (cost (proc.more p) + int n * c)
         \<and> (retries_unbounded cfg \<longrightarrow> F \<longrightarrow> n = attempts_of cfg))"
proof -
  let ?f = "chain_attempt nh (headers_for_next_hop cfg dl hdrs)"
  let ?view = "\<lambda>p :: 'd proc_scheme. (proc.more p, p_faults p)"
  obtain r n ds p2 where res: "retry_from cfg re ?f (\<lambda>r. retryable (h_status r)) dl (attempts_of cfg) 1 None p = (r, n, ds, p2)"
    by (metis prod_cases4)
  have one: "1 \<le> attempts_of cfg" by (simp add: attempts_of_def)
  have "outside_loop ?view" by (simp add: outside_loop_def)
  from retry_from_calls [where f = ?f and keep = "\<lambda>(d, f). K d \<and> f = p_faults p" and cost = "\<lambda>(d, f). cost d" and c = c
      and good = "\<lambda>x. F \<longrightarrow> retryable (h_status x)", OF this rel _ order_refl one _ _ res] step assms(4)
  have "K (proc.more p2)" "p_faults p2 = p_faults p" "\<forall>x. r = Some x \<longrightarrow> F \<longrightarrow> retryable (h_status x)"
    "rel (cost (proc.more p2)) (cost (proc.more p) + int n * c)" "n \<le> attempts_of cfg"
    "retries_unbounded cfg \<longrightarrow> F \<longrightarrow> n = attempts_of cfg"
    by (auto simp: chain_attempt_view retries_unbounded_def)
  moreover have "p' = p2" "res = (case r of None \<Rightarrow> Inl (''AssertionError'', []) | Some x \<Rightarrow> res)"
    "\<forall>x. r = Some x \<longrightarrow> (\<exists>out. res = Inr out \<and> status out = h_status x)"
    using run hop res by (auto simp: chain_do_def with_retries_def attempts_of_def case_prod_beta Let_def split: option.splits)
  ultimately show ?thesis by (cases r) (auto simp: work_fails_def retryable_def)
qed

lemma chain_endpoint_at_most:
  fixes cost :: "'d \<Rightarrow> int" and nh :: "'d downstream"
  assumes "undisturbed e" and c: "0 \<le> c" and step: "\<And>n t hs d. cost (snd (nh n t hs d)) \<le> cost d + c"
    and "chain_endpoint cfg hdrs e de now re nh p = (r, p')"
  shows "cost (proc.more p') \<le> cost (proc.more p) + int (attempts_of cfg) * c"
proof -
  have some: "0 \<le> int (attempts_of cfg) * c" using c by simp
  let ?d = "effective_deadline cfg hdrs e"
  have work: "cost (proc.more (snd (chain_do cfg de now re hdrs nh ?d q))) \<le> cost (proc.more q) + int (attempts_of cfg) * c" for q
  proof (cases "cfg_str cfg ''DOWNSTREAM_URL'' = []")
    case True
    then show ?thesis using some by (simp add: chain_do_def case_prod_beta use_engine_def)
  next
    case False
    obtain res q' where q': "chain_do cfg de now re hdrs nh ?d q = (res, q')" by fastforce
    from chain_do_calls [where K = "\<lambda>_. True" and F = False and rel = "(\<le>)" and cost = cost and c = c, OF False _ _ _ q'] step
    obtain n where "n \<le> attempts_of cfg" "cost (proc.more q') \<le> cost (proc.more q) + int n * c" by auto
    moreover have "int n * c \<le> int (attempts_of cfg) * c" using \<open>n \<le> attempts_of cfg\<close> c by (simp add: mult_right_mono)
    ultimately show ?thesis using q' by simp
  qed
  from run_handler_more [OF assms(1) assms(4) [unfolded chain_endpoint_def]] show ?thesis
  proof cases
    case 1
    then show ?thesis using some by simp
  next
    case (2 q)
    then show ?thesis using work [of q] by simp
  qed
qed

lemma chain_endpoint_exactly:
  fixes cost :: "'d \<Rightarrow> int" and nh :: "'d downstream"
  assumes "cfg_str cfg ''DOWNSTREAM_URL'' \<noteq> []" and "plain cfg p" and "retries_unbounded cfg"
    and step: "\<And>n t hs d. K d \<Longrightarrow> K (snd (nh n t hs d)) \<and> cost (snd (nh n t hs d)) = cost d + c
                  \<and> answer_fails (fst (fst (nh n t hs d)))"
    and "K (proc.more p)" and run: "chain_endpoint cfg hdrs e de now re nh p = (r, p')"
  shows "cost (proc.more p') = cost (proc.more p) + int (attempts_of cfg) * c \<and> K (proc.more p') \<and> plain cfg p' \<and> 500 \<le> r_status r"
proof -
  let ?d = "effective_deadline cfg hdrs e"
  obtain p1 where p1: "p_faults p1 = p_faults p" "proc.more p1 = proc.more p"
    and h: "after_work cfg e ?d (inflight (p_shed p1)) (chain_do cfg de now re hdrs nh ?d p1) = (r, p')"
    using run_handler_plain [OF assms(2)] run unfolding chain_endpoint_def by metis
  obtain res p2 where w: "chain_do cfg de now re hdrs nh ?d p1 = (res, p2)" by fastforce
  have more: "K (proc.more p2) \<and> p_faults p2 = p_faults p1 \<and> work_fails (res, p2)
      \<and> cost (proc.more p2) = cost (proc.more p) + int (attempts_of cfg) * c"
    using chain_do_calls [where K = K and F = True and rel = "(=)" and cost = cost and c = c, OF assms(1) _ _ _ w] step assms(3,5) p1
    by auto
  have "proc.more p' = proc.more p2 \<and> p_faults p' = p_faults p2"
  proof (cases res)
    case (Inl x)
    with h w have "error_reply cfg e x p2 = (r, p')" by (simp add: after_work_def)
    then obtain p3 body hs where e: "respond cfg e 500 body hs ''error'' (bump ''failed'' p2) = (r, p3)" "p' = release_slot cfg e p3"
      by (rule error_replyD)
    with respond_more [OF e(1)] respond_frame [OF e(1)] release_slot_frame [of cfg e p3] show ?thesis by simp
  next
    case (Inr out)
    with h w have "finish_request cfg e ?d (inflight (p_shed p1)) out (release_slot cfg e p2) = (r, p')" by (simp add: after_work_def)
    from finish_request_more [OF this] release_slot_frame [of cfg e p2] show ?thesis by simp
  qed
  with more p1 assms(2) after_work_fails [OF h] w show ?thesis by (simp add: plain_def)
qed

text \<open>Every attempt that is sent reaches the handler of the hop once.\<close>

lemma serve_hop_received:
  assumes "undisturbed (wx_env (wx n t hs d))"
  shows "n_of (snd (serve_hop cfg wx nh n t hs d)) ''received''
    = n_of d ''received'' + of_bool (\<forall>name el. wx_fate (wx n t hs d) \<noteq> Never_sent name el)"
proof -
  obtain r d' where r: "chain_endpoint cfg hs (wx_env (wx n t hs d)) (wx_db (wx n t hs d)) (wx_now (wx n t hs d)) (wx_retry (wx n t hs d)) nh d = (r, d')"
    by fastforce
  have "n_of d' ''received'' = n_of d ''received'' + 1"
    using assms by (intro run_handler_received [OF endpoint_work_quiet [OF endpoint_work.chain] _ r [unfolded chain_endpoint_def]])
      (auto simp: undisturbed_def)
  with r show ?thesis by (auto simp: serve_hop_def Let_def split: attempt_fate.split)
qed

lemma serve_hop_at_most:
  fixes cost :: "'d \<Rightarrow> int" and nh :: "'d downstream"
  assumes "undisturbed (wx_env (wx n t hs d))" and "\<And>n t hs d. cost (snd (nh n t hs d)) \<le> cost d + 1"
  shows "cost (proc.more (snd (serve_hop cfg wx nh n t hs d))) \<le> cost (proc.more d) + int (attempts_of cfg)"
proof -
  obtain r d' where r: "chain_endpoint cfg hs (wx_env (wx n t hs d)) (wx_db (wx n t hs d)) (wx_now (wx n t hs d)) (wx_retry (wx n t hs d)) nh d = (r, d')"
    by fastforce
  with chain_endpoint_at_most [where cost = cost and c = 1, OF assms(1) _ assms(2) r] show ?thesis
    by (simp add: serve_hop_def Let_def split: attempt_fate.split)
qed

lemma serve_hop_exactly:
  fixes cost :: "'d \<Rightarrow> int" and nh :: "'d downstream"
  assumes "cfg_str cfg ''DOWNSTREAM_URL'' \<noteq> []" "plain cfg d" "retries_unbounded cfg"
    and "\<And>n t hs d. cost (snd (nh n t hs d)) = cost d + 1 \<and> answer_fails (fst (fst (nh n t hs d)))"
    and "\<forall>name el. wx_fate (wx n t hs d) \<noteq> Never_sent name el"
  shows "plain cfg (snd (serve_hop cfg wx nh n t hs d))
     \<and> cost (proc.more (snd (serve_hop cfg wx nh n t hs d))) = cost (proc.more d) + int (attempts_of cfg)
     \<and> answer_fails (fst (fst (serve_hop cfg wx nh n t hs d)))"
proof -
  obtain r d' where r: "chain_endpoint cfg hs (wx_env (wx n t hs d)) (wx_db (wx n t hs d)) (wx_now (wx n t hs d)) (wx_retry (wx n t hs d)) nh d = (r, d')"
    by fastforce
  with chain_endpoint_exactly [where cost = cost and c = 1 and K = "\<lambda>_. True", OF assms(1-3) _ _ r] assms(4,5) show ?thesis
    by (simp add: serve_hop_def answer_fails_def Let_def split: attempt_fate.split)
qed

definition leaf_received :: "'c proc_scheme proc_scheme proc_scheme \<Rightarrow> int" where
  "leaf_received p = n_of (proc.more (proc.more p)) ''received''"

text \<open>The worst case: both retrying hops take the plain path without retry budget and deadline propagation, every
  attempt is sent, and whatever the leaf's state is, its answer fails or comes too late.\<close>

definition worst_case ::
    "config \<Rightarrow> config \<Rightarrow> config \<Rightarrow> 'c proc_scheme forecast \<Rightarrow> 'c forecast \<Rightarrow> 'c downstream \<Rightarrow> 'c proc_scheme proc_scheme proc_scheme \<Rightarrow> bool" where
  "worst_case cfg1 cfg2 cfg3 wx2 wx3 nh p \<longleftrightarrow>
     cfg_str cfg1 ''DOWNSTREAM_URL'' \<noteq> [] \<and> cfg_str cfg2 ''DOWNSTREAM_URL'' \<noteq> []
     \<and> retries_unbounded cfg1 \<and> retries_unbounded cfg2 \<and> plain cfg1 p \<and> plain cfg2 (proc.more p)
     \<and> (\<forall>n t hs d name el. wx_fate (wx2 n t hs d) \<noteq> Never_sent name el)
     \<and> (\<forall>n t hs d name el. wx_fate (wx3 n t hs d) \<noteq> Never_sent name el)
     \<and> (\<forall>n t hs d. answer_fails (fst (fst (serve_hop cfg3 wx3 nh n t hs d))))"

text \<open>C32. Retries multiply along the chain. Counting the calls of one request at the gateway (other requests may run
  while it waits for admission, but their calls are not counted), the third hop receives at most \<open>a1 * a2\<close> of
  them, the product of the \<^verbatim>\<open>RETRY_ATTEMPTS\<close> of the two hops that retry, whatever the hops do: shed, refuse for
  the deadline, inject faults, time out. In the worst case it is exactly that many and the request still fails:
  when both hops run without retry budget, deadline propagation, shedding and injected errors, every attempt is
  sent, and the leaf's answer always fails or comes too late. With the default of three attempts one request
  becomes nine.\<close>

theorem retry_amplification:
  assumes "undisturbed e"
    and "\<And>n t hs d. undisturbed (wx_env (wx2 n t hs d))" and "\<And>n t hs d. undisturbed (wx_env (wx3 n t hs d))"
    and "chain_endpoint cfg1 hdrs e de now re (serve_hop cfg2 wx2 (serve_hop cfg3 wx3 nh)) p = (r, p')"
  shows "leaf_received p' \<le> leaf_received p + int (attempts_of cfg1 * attempts_of cfg2)
    \<and> (worst_case cfg1 cfg2 cfg3 wx2 wx3 nh p \<longrightarrow>
         leaf_received p' = leaf_received p + int (attempts_of cfg1 * attempts_of cfg2) \<and> 500 \<le> r_status r)"
proof -
  let ?leaf = "serve_hop cfg3 wx3 nh" and ?hop = "serve_hop cfg2 wx2 (serve_hop cfg3 wx3 nh)"
  have leaf: "n_of (snd (?leaf n t hs d)) ''received'' \<le> n_of d ''received'' + 1" for n t hs d
    by (simp add: serve_hop_received assms(3))
  have hop: "n_of (proc.more (snd (?hop n t hs d))) ''received'' \<le> n_of (proc.more d) ''received'' + int (attempts_of cfg2)" for n t hs d
    by (rule serve_hop_at_most [where cost = "\<lambda>d. n_of d ''received''", OF assms(2) leaf])
  have "leaf_received p' \<le> leaf_received p + int (attempts_of cfg1) * int (attempts_of cfg2)"
    unfolding leaf_received_def
    by (rule chain_endpoint_at_most [where cost = "\<lambda>d. n_of (proc.more d) ''received''", OF assms(1) _ hop assms(4)]) simp
  moreover have "leaf_received p' = leaf_received p + int (attempts_of cfg1) * int (attempts_of cfg2) \<and> 500 \<le> r_status r"
    if w: "worst_case cfg1 cfg2 cfg3 wx2 wx3 nh p"
  proof -
    have leaf: "n_of (snd (?leaf n t hs d)) ''received'' = n_of d ''received'' + 1 \<and> answer_fails (fst (fst (?leaf n t hs d)))" for n t hs d
      using w by (simp add: serve_hop_received assms(3) worst_case_def)
    have hop: "plain cfg2 (snd (?hop n t hs d)) \<and>
         n_of (proc.more (snd (?hop n t hs d))) ''received'' = n_of (proc.more d) ''received'' + int (attempts_of cfg2)
         \<and> answer_fails (fst (fst (?hop n t hs d)))" if "plain cfg2 d" for n t hs d
      using w leaf that by (intro serve_hop_exactly) (simp_all add: worst_case_def)
    have "leaf_received p' = leaf_received p + int (attempts_of cfg1) * int (attempts_of cfg2) \<and> plain cfg2 (proc.more p')
        \<and> plain cfg1 p' \<and> 500 \<le> r_status r"
      unfolding leaf_received_def
      by (rule chain_endpoint_exactly [where cost = "\<lambda>d. n_of (proc.more d) ''received''", OF _ _ _ hop _ assms(4)])
        (use w in \<open>simp_all add: worst_case_def\<close>)
    then show ?thesis by blast
  qed
  ultimately show ?thesis by simp
qed

text \<open>The deployed chain with a database that cannot be reached: nine calls for one request.\<close>

definition with_downstream :: config where
  "with_downstream = sample_config(''DOWNSTREAM_URL'' \<mapsto> VStr ''http://next:8000/chain'')"

definition no_database :: db_env where
  "no_database = \<lparr>checkout = Fails ''OperationalError'' ''refused'', query = Returns (), waited = 0, took = 0,
     t_check = 0, t_stmt = 0, in_use_after = 0\<rparr>"

definition still :: retry_env where
  "still = \<lparr>t_out = \<lambda>_. 0, t_left = \<lambda>_. 0, draw = \<lambda>_. 0\<rparr>"

definition clear_weather :: "'d forecast" where
  "clear_weather n t hs d = \<lparr>wx_fate = Delivered 0, wx_env = calm 0, wx_db = no_database, wx_now = 0, wx_retry = still\<rparr>"

definition nowhere :: "unit downstream" where
  "nowhere n t hs d = ((Raised ''ConnectError'', 0), d)"

definition proc_over :: "'d \<Rightarrow> 'd proc_scheme" where
  "proc_over d = proc.extend (new_proc 0) d"

lemma proc_over_fields [simp]:
  "error_pct (p_faults (proc_over d)) = 0" "proc.more (proc_over d) = d" "n_of (proc_over d) ''received'' = 0"
  using fresh_new_proc [of 0] by (simp_all add: proc_over_def proc.defs new_proc_def no_faults_def fresh_proc_def tally_names_def)

lemma undisturbed_calm [simp]: "undisturbed (calm u)"
  by (simp add: undisturbed_def calm_def)

theorem retry_amplification_witness:
  "leaf_received (snd (chain_endpoint with_downstream (\<lambda>_. None) (calm 0) no_database 0 still
      (serve_hop with_downstream clear_weather (serve_hop sample_config clear_weather nowhere))
      (proc_over (proc_over (proc_over ()))))) = 9"
proof -
  let ?p = "proc_over (proc_over (proc_over ()))"
  let ?leaf = "serve_hop sample_config clear_weather nowhere"
  have "work_fails (chain_do sample_config no_database 0 still hs nowhere d q)" for hs d and q :: proc
  proof -
    have "cfg_str sample_config ''DOWNSTREAM_URL'' = []" by code_simp
    then show ?thesis by (simp add: chain_do_def do_work_def no_database_def work_fails_def Let_def)
  qed
  note down = this
  have "answer_fails (fst (fst (?leaf n t hs d)))" for n t hs d
  proof -
    obtain r d' where r: "chain_endpoint sample_config hs (calm 0) no_database 0 still nowhere d = (r, d')" by fastforce
    from run_handler_fails [OF r [unfolded chain_endpoint_def] down] r show ?thesis
      by (simp add: serve_hop_def clear_weather_def answer_fails_def)
  qed
  moreover have "retries_unbounded with_downstream" "cfg_str with_downstream ''DOWNSTREAM_URL'' \<noteq> []"
    "cfg_str with_downstream ''SHED_MODE'' = ''none''" "\<not> cfg_bool with_downstream ''PROPAGATE_DEADLINE''"
    "attempts_of with_downstream = 3" by code_simp+
  ultimately have "worst_case with_downstream with_downstream sample_config clear_weather clear_weather nowhere ?p" "leaf_received ?p = 0"
    by (simp_all add: worst_case_def plain_def clear_weather_def leaf_received_def)
  moreover obtain r p' where run: "chain_endpoint with_downstream (\<lambda>_. None) (calm 0) no_database 0 still
      (serve_hop with_downstream clear_weather ?leaf) ?p = (r, p')" by fastforce
  ultimately show ?thesis using retry_amplification [OF _ _ _ run] \<open>attempts_of with_downstream = 3\<close>
    by (simp add: clear_weather_def)
qed

subsection \<open>A payment whose answer is lost\<close>

lemma finish_request_db:
  assumes "finish_request cfg e d i out p = (r, p')"
  shows "p_db p' = p_db p \<and> p_faults p' = p_faults p \<and>
    (if should_drop (he_drop_draw e) (p_faults p) then r_status r = 599
     else r_status r = status out \<and> r_payload r = payload out)"
proof -
  obtain z c where rc: "record_completion (he_done e) d (status out < 400) (w_counters p) = (z, c)" by fastforce
  define p1 where "p1 = count_outcome (status out) (p\<lparr>w_counters := c\<rparr>)"
  have p1: "p_db p1 = p_db p" "p_faults p1 = p_faults p" by (simp_all add: p1_def count_outcome_def)
  have "(if should_drop (he_drop_draw e) (p_faults p1)
       then respond cfg e 599 (JObj [(''error'', JStr ''response_dropped_after_work'')]) (finish_headers e d i z (o_headers out)) ''dropped'' p1
       else respond cfg e (status out) (payload out) (finish_headers e d i z (o_headers out))
              (if 200 \<le> status out \<and> status out < 300 then ''ok'' else ''fail'') p1) = (r, p')"
    using assms unfolding finish_request_def rc Let_def prod.case p1_def [symmetric] .
  then show ?thesis using p1 by (auto dest!: respond_frame split: if_splits)
qed

lemma charge_handler:
  assumes "plain cfg p" and "charge_endpoint fp rp cfg now hdrs e (Some (JObj b)) p = Some (r, p')"
    and mode: "cfg_str cfg ''IDEMPOTENCY_MODE'' = ''correct''"
    and ch: "\<And>c. \<exists>c' st body. charge_correct fp rp cfg now (charge_key rp hdrs b) b (p_db p, c) = (Inr (st, body), (db', c'))
               \<and> Q st body"
  shows "p_db p' = db' \<and> p_faults p' = p_faults p
     \<and> (if should_drop (he_drop_draw e) (p_faults p) then r_status r = 599 else Q (r_status r) (r_payload r))"
proof -
  let ?d = "effective_deadline cfg hdrs e"
  obtain p1 where p1: "p_db p1 = p_db p" "p_faults p1 = p_faults p" and
    run: "run_handler cfg hdrs e 0 (charge_do fp rp cfg now hdrs b) p =
       after_work cfg e ?d (inflight (p_shed p1)) (charge_do fp rp cfg now hdrs b ?d p1)"
    using run_handler_plain [OF assms(1)] by metis
  obtain c' st body where cc: "charge_correct fp rp cfg now (charge_key rp hdrs b) b (p_db p, w_counters p1) = (Inr (st, body), (db', c'))"
    and q: "Q st body" using ch by blast
  define p2 where "p2 = (use_engine cfg p1)\<lparr>p_db := db', w_counters := c'\<rparr>"
  obtain hs where "charge_do fp rp cfg now hdrs b ?d p1 = (Inr \<lparr>status = st, payload = body, o_headers = hs\<rparr>, p2)"
    using cc p1 mode by (auto simp: charge_do_def charge_def p2_def)
  with run assms(2) have "finish_request cfg e ?d (inflight (p_shed p1)) \<lparr>status = st, payload = body, o_headers = hs\<rparr> (release_slot cfg e p2) = (r, p')"
    by (simp add: charge_endpoint_def after_work_def)
  from finish_request_db [OF this] q p1 release_slot_frame [of cfg e p2] show ?thesis
    by (auto simp: p2_def use_engine_def split: if_splits)
qed

definition paid_db ::
    "(body \<Rightarrow> string) \<Rightarrow> (json \<Rightarrow> string) \<Rightarrow> config \<Rightarrow> rat \<Rightarrow> string \<Rightarrow> body \<Rightarrow> int \<Rightarrow> lab_db \<Rightarrow> lab_db" where
  "paid_db fp rp cfg now key b a db =
     db\<lparr>charges := charges db @ [\<lparr>ch_id = next_charge db, ch_key = key, ch_amount = a,
                                 ch_currency = py_str rp (body_get b ''currency'' (JStr ''usd''))\<rparr>],
        next_charge := next_charge db + 1,
        idem_keys := (idem_keys db)(key \<mapsto> \<lparr>k_fingerprint = fp b, k_done = True,
                       k_response = Some (payload_of (next_charge db) False ''correct''),
                       k_expires = now + of_int (cfg_int cfg ''IDEMPOTENCY_TTL_S'')\<rparr>)\<rparr>"

lemma first_charge:
  assumes "idem_keys db key = None" and "json_int (body_get b ''amount_cents'' (JInt 100)) = Inr a"
  shows "charge_correct fp rp cfg now key b (db, c)
       = (Inr (201, payload_of (next_charge db) False ''correct''), (paid_db fp rp cfg now key b a db, inc ''charges'' c))"
  using assms by (simp add: charge_correct_def claim_def work_and_publish_def insert_charge_def Let_def paid_db_def)

lemma replayed_charge:
  assumes "idem_keys db key = Some r" "k_done r" "k_fingerprint r = fp b" "k_response r = Some (payload_of cid False ''correct'')"
  shows "charge_correct fp rp cfg now key b (db, c) = (Inr (200, payload_of cid True ''correct''), (db, c))"
  using assms by (simp add: charge_correct_def claim_def replay_poll_def set_replayed_def payload_of_def)

text \<open>The ambiguous failure is safe to retry. A payment is made and its answer is destroyed after
  the work (the client sees 599). When the client sends the same request again, at any later time, it
  gets 200 with the id of the charge that was made, and the table holds exactly that one more charge.\<close>

theorem retry_after_lost_response:
  assumes "plain cfg p" and "cfg_str cfg ''IDEMPOTENCY_MODE'' = ''correct''"
    and "idem_keys (p_db p) (charge_key rp hdrs b) = None"
    and "json_int (body_get b ''amount_cents'' (JInt 100)) = Inr amount"
    and "should_drop (he_drop_draw e1) (p_faults p)" and "\<not> should_drop (he_drop_draw e2) (p_faults p)"
    and "charge_endpoint fp rp cfg t1 hdrs e1 (Some (JObj b)) p = Some (r1, p1)"
    and "charge_endpoint fp rp cfg t2 hdrs e2 (Some (JObj b)) p1 = Some (r2, p2)"
  shows "r_status r1 = 599 \<and> r_status r2 = 200
     \<and> r_payload r2 = payload_of (next_charge (p_db p)) True ''correct''
     \<and> (\<exists>row. charges (p_db p2) = charges (p_db p) @ [row] \<and> ch_id row = next_charge (p_db p)
          \<and> ch_key row = charge_key rp hdrs b \<and> ch_amount row = amount)"
proof -
  let ?key = "charge_key rp hdrs b"
  note fc = first_charge [where fp = fp and rp = rp and cfg = cfg and now = t1, OF assms(3,4)]
  have one: "p_db p1 = paid_db fp rp cfg t1 ?key b amount (p_db p) \<and> p_faults p1 = p_faults p \<and> r_status r1 = 599"
    using charge_handler [where Q = "\<lambda>st body. True", OF assms(1,7,2)] fc assms(5) by simp
  have db1: "idem_keys (p_db p1) ?key = Some \<lparr>k_fingerprint = fp b, k_done = True,
        k_response = Some (payload_of (next_charge (p_db p)) False ''correct''), k_expires = t1 + of_int (cfg_int cfg ''IDEMPOTENCY_TTL_S'')\<rparr>"
    using one by (simp add: paid_db_def)
  have plain1: "plain cfg p1" using assms(1) one by (simp add: plain_def)
  have "charge_correct fp rp cfg t2 ?key b (p_db p1, c)
      = (Inr (200, payload_of (next_charge (p_db p)) True ''correct''), (p_db p1, c))" for c
    by (rule replayed_charge [OF db1]) simp_all
  then have "p_db p2 = p_db p1 \<and> p_faults p2 = p_faults p1 \<and> (if should_drop (he_drop_draw e2) (p_faults p1) then r_status r2 = 599
      else r_status r2 = 200 \<and> r_payload r2 = payload_of (next_charge (p_db p)) True ''correct'')"
    using charge_handler [where Q = "\<lambda>st body. st = 200 \<and> body = payload_of (next_charge (p_db p)) True ''correct''", OF plain1 assms(8,2)]
    by blast
  then show ?thesis using one assms(6) by (simp add: paid_db_def)
qed

definition lossy_proc :: proc where
  "lossy_proc = (new_proc 0)\<lparr>p_faults := \<lparr>error_pct = 0, latency_ms = 0, drop_pct = 50\<rparr>\<rparr>"

theorem retry_after_lost_response_witness:
  "\<exists>r1 p1 r2 p2.
      charge_endpoint fp_amount no_repr sample_config 0 (\<lambda>_. Some ''k'') (calm 0) (Some (JObj five)) lossy_proc = Some (r1, p1)
    \<and> charge_endpoint fp_amount no_repr sample_config 1 (\<lambda>_. Some ''k'') (calm (3 / 4)) (Some (JObj five)) p1 = Some (r2, p2)
    \<and> r_status r1 = 599 \<and> r_status r2 = 200 \<and> map ch_amount (charges (p_db p2)) = [500]"
proof -
  let ?h = "\<lambda>_. Some ''k''"
  have some: "\<exists>r p'. charge_endpoint fp_amount no_repr sample_config t ?h e (Some (JObj five)) p = Some (r, p')" for t e p
    by (simp add: charge_endpoint_def)
  obtain r1 p1 where 1: "charge_endpoint fp_amount no_repr sample_config 0 ?h (calm 0) (Some (JObj five)) lossy_proc = Some (r1, p1)"
    using some by blast
  obtain r2 p2 where 2: "charge_endpoint fp_amount no_repr sample_config 1 ?h (calm (3 / 4)) (Some (JObj five)) p1 = Some (r2, p2)"
    using some by blast
  have h: "plain sample_config lossy_proc" "cfg_str sample_config ''IDEMPOTENCY_MODE'' = ''correct''"
    "idem_keys (p_db lossy_proc) (charge_key no_repr ?h five) = None"
    "should_drop (he_drop_draw (calm 0)) (p_faults lossy_proc)" "\<not> should_drop (he_drop_draw (calm (3 / 4))) (p_faults lossy_proc)"
    unfolding plain_def by code_simp+
  have a: "json_int (body_get five ''amount_cents'' (JInt 100)) = Inr 500" by simp
  have "charges (p_db lossy_proc) = []" by code_simp
  with retry_after_lost_response [OF h(1,2,3) a h(4,5) 1 2] 1 2 show ?thesis by auto
qed

end
