(* ===== verification/Dist_Lease.thy ===== *)
theory Dist_Lease
  imports PyFloat "HOL-Library.List_Lexorder" "HOL-Library.Char_ord"
begin

text \<open>
  Leader election on a lease row and fenced writes: \<^verbatim>\<open>04-distributed/07-leader-election-.../python/fencing_demo.py\<close>
  and the container version \<^verbatim>\<open>04-distributed/docker/services/app/relay7.py\<close>. Every SQL statement is one
  step of the process that issues it (both programs run in autocommit), and a schedule interleaves the
  processes freely, so a pause can fall between any two statements. Times are the database's, in microseconds.
\<close>

subsection \<open>The tables\<close>

record lease_row =
  holder :: string
  ls_epoch :: int
  expires_at :: int

record payout_row =
  po_status :: string
  fence :: int
  sent_by :: "string option"
  sent_at :: "int option"

record payout_attempt =
  at_run :: string
  at_fencing :: bool
  at_worker :: string
  at_key :: string
  at_epoch :: int
  rows_updated :: int
  attempted_at :: int

record lease_db =
  leases :: "string \<rightharpoonup> lease_row"
  payouts :: "string \<times> string \<rightharpoonup> payout_row"
  attempts :: "payout_attempt list"

definition new_payout :: payout_row where
  "new_payout = \<lparr>po_status = ''pending'', fence = 0, sent_by = None, sent_at = None\<rparr>"

text \<open>The set-up both programs run before the processes start: insert the keys that are missing.\<close>

definition seed_payouts :: "string \<Rightarrow> string list \<Rightarrow> lease_db \<Rightarrow> lease_db" where
  "seed_payouts run ks d =
     d\<lparr>payouts := foldl (\<lambda>m k. case m (run, k) of None \<Rightarrow> m((run, k) \<mapsto> new_payout) | Some _ \<Rightarrow> m) (payouts d) ks\<rparr>"

definition payout_keys :: "nat \<Rightarrow> string list" where
  "payout_keys n = map (\<lambda>i. ''payout-'' @ replicate (3 - length (py_str_nat i)) CHR ''0'' @ py_str_nat i) [0..<n]"

subsection \<open>The lease\<close>

definition acquire :: "int \<Rightarrow> string \<Rightarrow> string \<Rightarrow> int \<Rightarrow> lease_db \<Rightarrow> int option \<times> lease_db" where
  "acquire now lease who ttl d =
     (case leases d lease of
        None \<Rightarrow> (Some 1, d\<lparr>leases := (leases d)(lease \<mapsto> \<lparr>holder = who, ls_epoch = 1, expires_at = now + ttl\<rparr>)\<rparr>)
      | Some r \<Rightarrow>
          if expires_at r < now
          then (Some (ls_epoch r + 1), d\<lparr>leases := (leases d)(lease \<mapsto>
                  \<lparr>holder = who, ls_epoch = ls_epoch r + 1, expires_at = now + ttl\<rparr>)\<rparr>)
          else (None, d))"

definition renew :: "int \<Rightarrow> string \<Rightarrow> string \<Rightarrow> int \<Rightarrow> int \<Rightarrow> lease_db \<Rightarrow> bool \<times> lease_db" where
  "renew now lease who e ttl d =
     (case leases d lease of
        None \<Rightarrow> (False, d)
      | Some r \<Rightarrow> if holder r = who \<and> ls_epoch r = e \<and> now < expires_at r
                  then (True, d\<lparr>leases := (leases d)(lease \<mapsto> r\<lparr>expires_at := now + ttl\<rparr>)\<rparr>)
                  else (False, d))"

text \<open>
  \<^verbatim>\<open>relay7.acquire_or_renew\<close>: the renewal has no expiry test, and when it matches no row the function
  goes on to the acquiring statement in the same call.
\<close>

definition acquire_or_renew :: "int \<Rightarrow> string \<Rightarrow> string \<Rightarrow> int \<Rightarrow> int option \<Rightarrow> lease_db \<Rightarrow> int option \<times> lease_db" where
  "acquire_or_renew now lease who ttl mine d =
     (case (mine, leases d lease) of
        (Some e, Some r) \<Rightarrow>
          if holder r = who \<and> ls_epoch r = e
          then (Some (ls_epoch r), d\<lparr>leases := (leases d)(lease \<mapsto> r\<lparr>expires_at := now + ttl\<rparr>)\<rparr>)
          else acquire now lease who ttl d
      | _ \<Rightarrow> acquire now lease who ttl d)"

subsection \<open>The effect\<close>

text \<open>The guarded \<^verbatim>\<open>UPDATE t7_payouts\<close> with its row count, and the attempts row written after it.\<close>

definition guarded_update :: "(int \<Rightarrow> int \<Rightarrow> bool) \<Rightarrow> int \<Rightarrow> string \<Rightarrow> string \<Rightarrow> string \<Rightarrow> int \<Rightarrow> lease_db \<Rightarrow> int \<times> lease_db" where
  "guarded_update guard now run k who e d =
     (case payouts d (run, k) of
        None \<Rightarrow> (0, d)
      | Some p \<Rightarrow> if guard (fence p) e
                  then (1, d\<lparr>payouts := (payouts d)((run, k) \<mapsto>
                         \<lparr>po_status = ''sent'', fence = e, sent_by = Some who, sent_at = Some now\<rparr>)\<rparr>)
                  else (0, d))"

definition send_guard :: "bool \<Rightarrow> int \<Rightarrow> int \<Rightarrow> bool" where
  "send_guard fencing f e = (fencing \<longrightarrow> f < e)"

definition do_guard :: "bool \<Rightarrow> int \<Rightarrow> int \<Rightarrow> bool" where
  "do_guard fencing f e = (fencing \<longrightarrow> f \<le> e)"

definition record_attempt :: "int \<Rightarrow> string \<Rightarrow> bool \<Rightarrow> string \<Rightarrow> string \<Rightarrow> int \<Rightarrow> int \<Rightarrow> lease_db \<Rightarrow> lease_db" where
  "record_attempt now run fencing who k e rows d =
     d\<lparr>attempts := attempts d @ [\<lparr>at_run = run, at_fencing = fencing, at_worker = who, at_key = k,
        at_epoch = e, rows_updated = rows, attempted_at = now\<rparr>]\<rparr>"

text \<open>The epoch of a lease, zero before the first election, and the fence of a payout row.\<close>

definition term_of :: "string \<Rightarrow> lease_db \<Rightarrow> int" where
  "term_of lease d = (case leases d lease of None \<Rightarrow> 0 | Some r \<Rightarrow> ls_epoch r)"

definition fence_of :: "lease_db \<Rightarrow> string \<times> string \<Rightarrow> int" where
  "fence_of d rk = (case payouts d rk of None \<Rightarrow> 0 | Some p \<Rightarrow> fence p)"

lemma acquire_term:
  "acquire now lease who ttl d = (res, d') \<Longrightarrow>
   payouts d' = payouts d \<and> attempts d' = attempts d \<and>
   (case res of None \<Rightarrow> d' = d | Some e \<Rightarrow> term_of lease d' = e \<and> term_of lease d < e)"
  by (auto simp: acquire_def term_of_def split: option.splits if_splits)

lemma renew_term:
  "renew now lease who e ttl d = (ok, d') \<Longrightarrow>
   payouts d' = payouts d \<and> attempts d' = attempts d \<and> term_of lease d' = term_of lease d \<and> (\<not> ok \<longrightarrow> d' = d)
   \<and> (ok \<longrightarrow> term_of lease d = e)"
  by (auto simp: renew_def term_of_def split: option.splits if_splits)

lemma acquire_or_renew_term:
  assumes "acquire_or_renew now lease who ttl mine d = (res, d')"
  shows "payouts d' = payouts d \<and> attempts d' = attempts d \<and>
     (case res of None \<Rightarrow> d' = d
      | Some e \<Rightarrow> term_of lease d' = e \<and> (mine = Some e \<and> term_of lease d = e \<or> term_of lease d < e))"
proof (cases "\<exists>e r. mine = Some e \<and> leases d lease = Some r \<and> holder r = who \<and> ls_epoch r = e")
  case True
  with assms show ?thesis by (auto simp: acquire_or_renew_def term_of_def)
next
  case False
  then have "acquire now lease who ttl d = (res, d')"
    using assms by (auto simp: acquire_or_renew_def split: option.splits if_splits)
  from acquire_term [OF this] show ?thesis by (auto split: option.splits)
qed

lemma guarded_update_fence:
  assumes "guarded_update g now run k who e d = (rows, d')"
  shows "leases d' = leases d \<and> attempts d' = attempts d \<and>
     (rows = 1 \<and> g (fence_of d (run, k)) e \<and> fence_of d' = (fence_of d)((run, k) := e) \<or> rows = 0 \<and> d' = d)"
  using assms by (auto simp: guarded_update_def fence_of_def split: option.splits if_splits)

lemma record_attempt_frame [simp]:
  "leases (record_attempt now run f who k e rows d) = leases d"
  "payouts (record_attempt now run f who k e rows d) = payouts d"
  "fence_of (record_attempt now run f who k e rows d) = fence_of d"
  "term_of lease (record_attempt now run f who k e rows d) = term_of lease d"
  by (simp_all add: record_attempt_def fence_of_def term_of_def fun_eq_iff)

subsection \<open>Elected processes writing under their epoch\<close>

text \<open>
  Processes that step one at a time against shared tables. A step reports the effect it attempted: the row,
  the epoch it carried and the row count. \<open>accepted\<close> keeps the effects that took place.
\<close>

type_synonym fenced_write = "(string \<times> string) \<times> int \<times> int"

fun run_procs :: "('ev \<Rightarrow> 'w \<Rightarrow> 'd \<Rightarrow> 'w \<times> 'd \<times> fenced_write list) \<Rightarrow> (nat \<times> 'ev) list \<Rightarrow> (nat \<Rightarrow> 'w) \<times> 'd
    \<Rightarrow> ((nat \<Rightarrow> 'w) \<times> 'd) \<times> fenced_write list" where
  "run_procs step [] s = (s, [])"
| "run_procs step ((n, ev) # sched) (ws, d) =
     (let (w', d', out) = step ev (ws n) d; (s', outs) = run_procs step sched (ws(n := w'), d') in (s', out @ outs))"

definition accepted :: "fenced_write list \<Rightarrow> fenced_write list" where
  "accepted tr = filter (\<lambda>(k, e, n). n \<noteq> 0) tr"

lemma accepted_simps [simp]:
  "accepted [] = []" "accepted (xs @ ys) = accepted xs @ accepted ys"
  "accepted ((k, e, n) # xs) = (if n = 0 then accepted xs else (k, e, n) # accepted xs)"
  by (simp_all add: accepted_def)

lemma accepted_nil: "\<forall>(k, e, n)\<in>set xs. n = 0 \<Longrightarrow> accepted xs = []"
  by (auto simp: accepted_def filter_empty_conv)

locale lease_protocol =
  fixes step :: "'ev \<Rightarrow> 'w \<Rightarrow> 'd \<Rightarrow> 'w \<times> 'd \<times> fenced_write list"
    and belief :: "'w \<Rightarrow> int option"
    and epoch :: "'d \<Rightarrow> int"
  assumes belief_law: "step ev w d = (w', d', out) \<Longrightarrow>
      (belief w' = belief w \<or> belief w' = None) \<and> epoch d \<le> epoch d' \<or> belief w' = Some (epoch d') \<and> epoch d < epoch d'"
begin

definition one_holder :: "(nat \<Rightarrow> 'w) \<times> 'd \<Rightarrow> bool" where
  "one_holder s = ((\<forall>n e. belief (fst s n) = Some e \<longrightarrow> e \<le> epoch (snd s)) \<and>
     (\<forall>m n e. belief (fst s m) = Some e \<longrightarrow> belief (fst s n) = Some e \<longrightarrow> m = n))"

lemma one_holder_step:
  assumes "one_holder (ws, d)" "step ev (ws n) d = (w', d', out)"
  shows "one_holder (ws(n := w'), d') \<and> epoch d \<le> epoch d'"
proof -
  have old: "belief (ws m) = Some e \<Longrightarrow> e \<le> epoch d" for m e using assms(1) by (simp add: one_holder_def)
  have uniq: "belief (ws m) = Some e \<Longrightarrow> belief (ws k) = Some e \<Longrightarrow> m = k" for m k e
    using assms(1) unfolding one_holder_def by fastforce
  from belief_law [OF assms(2)] show ?thesis
  proof (elim disjE conjE)
    assume "belief w' = belief (ws n)" "epoch d \<le> epoch d'"
    then show ?thesis using old uniq unfolding one_holder_def by (auto split: if_splits intro: order_trans)
  next
    assume "belief w' = None" "epoch d \<le> epoch d'"
    then show ?thesis using old uniq unfolding one_holder_def by (auto split: if_splits intro: order_trans)
  next
    assume new: "belief w' = Some (epoch d')" "epoch d < epoch d'"
    have "belief (ws m) \<noteq> Some (epoch d')" for m using old [of m "epoch d'"] new(2) by force
    then show ?thesis using old uniq new unfolding one_holder_def by (fastforce split: if_splits)
  qed
qed

lemma one_holder_run:
  "one_holder s \<Longrightarrow> run_procs step sched s = (s', tr) \<Longrightarrow> one_holder s' \<and> epoch (snd s) \<le> epoch (snd s')"
proof (induction step\<equiv>step sched s arbitrary: tr rule: run_procs.induct)
  case (2 n ev sched ws d)
  obtain w' d' out where st: "step ev (ws n) d = (w', d', out)" by (cases "step ev (ws n) d")
  obtain outs where "run_procs step sched (ws(n := w'), d') = (s', outs)"
    using 2(3) st by (auto split: prod.splits)
  with 2(1) [OF st [symmetric] refl refl] one_holder_step [OF 2(2) st] show ?case by fastforce
qed simp

end

locale fenced_protocol = lease_protocol step belief epoch
  for step :: "'ev \<Rightarrow> 'w \<Rightarrow> 'd \<Rightarrow> 'w \<times> 'd \<times> fenced_write list" and belief :: "'w \<Rightarrow> int option"
    and epoch :: "'d \<Rightarrow> int" +
  fixes fence_at :: "'d \<Rightarrow> string \<times> string \<Rightarrow> int"
  assumes write_law: "step ev w d = (w', d', out) \<Longrightarrow>
      (\<forall>(k, e, n)\<in>set out. n = 0) \<and> fence_at d' = fence_at d \<or>
      (\<exists>k e n. out = [(k, e, n)] \<and> n \<noteq> 0 \<and> fence_at d k \<le> e \<and> fence_at d' = (fence_at d)(k := e))"
begin

text \<open>Writes accepted on one row never go back to an older epoch, and the fence dominates them all.\<close>

lemma writes_ordered:
  "run_procs step sched s = (s', tr) \<Longrightarrow>
   sorted_wrt (\<lambda>(k, e, _) (k', e', _). k = k' \<longrightarrow> e \<le> e') (accepted tr) \<and>
   (\<forall>(k, e, _)\<in>set (accepted tr). fence_at (snd s) k \<le> e \<and> e \<le> fence_at (snd s') k) \<and>
   (\<forall>k. fence_at (snd s) k \<le> fence_at (snd s') k)"
proof (induction step\<equiv>step sched s arbitrary: tr rule: run_procs.induct)
  case (2 n ev sched ws d)
  obtain w' d' out where st: "step ev (ws n) d = (w', d', out)" by (cases "step ev (ws n) d")
  obtain outs where rest: "run_procs step sched (ws(n := w'), d') = (s', outs)" and tr: "tr = out @ outs"
    using 2(2) st by (auto split: prod.splits)
  note IH = 2(1) [OF st [symmetric] refl refl rest, simplified]
  from write_law [OF st] show ?case
  proof (elim disjE exE conjE)
    assume "\<forall>(k, e, n)\<in>set out. n = 0" "fence_at d' = fence_at d"
    with IH tr show ?thesis by (simp add: accepted_nil)
  next
    fix k e i assume out: "out = [(k, e, i)]" "i \<noteq> 0" and le: "fence_at d k \<le> e" and upd: "fence_at d' = (fence_at d)(k := e)"
    have after: "\<forall>(k', e', _)\<in>set (accepted outs). fence_at d k' \<le> e' \<and> (k = k' \<longrightarrow> e \<le> e')"
      using IH le upd by (fastforce split: if_splits)
    have top: "fence_at d' k' \<le> fence_at (snd s') k'" for k' using IH by (cases k') simp
    moreover have "fence_at d k' \<le> fence_at d' k'" for k' using le upd by simp
    ultimately have "\<forall>k'. fence_at d k' \<le> fence_at (snd s') k'" using top by (meson order_trans)
    moreover have "\<forall>(k', e', _)\<in>set (accepted outs). e' \<le> fence_at (snd s') k'" using IH by fastforce
    moreover have "e \<le> fence_at (snd s') k" using top [of k] upd by simp
    ultimately show ?thesis using conjunct1 [OF IH] le after unfolding tr out(1) by (simp add: out(2) case_prod_beta)
  qed
qed simp

end

locale strict_protocol = fenced_protocol +
  assumes strict_law: "step ev w d = (w', d', out) \<Longrightarrow> (k, e, n) \<in> set out \<Longrightarrow> n \<noteq> 0 \<Longrightarrow> fence_at d k < e"
begin

text \<open>With the strict guard an epoch pays a row at most once.\<close>

lemma writes_strict:
  "run_procs step sched s = (s', tr) \<Longrightarrow>
   sorted_wrt (\<lambda>(k, e, _) (k', e', _). k = k' \<longrightarrow> e < e') (accepted tr) \<and>
   (\<forall>(k, e, _)\<in>set (accepted tr). fence_at (snd s) k < e)"
proof (induction step\<equiv>step sched s arbitrary: tr rule: run_procs.induct)
  case (2 n ev sched ws d)
  obtain w' d' out where st: "step ev (ws n) d = (w', d', out)" by (cases "step ev (ws n) d")
  obtain outs where rest: "run_procs step sched (ws(n := w'), d') = (s', outs)" and tr: "tr = out @ outs"
    using 2(2) st by (auto split: prod.splits)
  note IH = 2(1) [OF st [symmetric] refl refl rest, simplified]
  from write_law [OF st] show ?case
  proof (elim disjE exE conjE)
    assume "\<forall>(k, e, n)\<in>set out. n = 0" "fence_at d' = fence_at d"
    with IH tr show ?thesis by (simp add: accepted_nil)
  next
    fix k e i assume out: "out = [(k, e, i)]" "i \<noteq> 0" and upd: "fence_at d' = (fence_at d)(k := e)"
    have lt: "fence_at d k < e" using strict_law [OF st] out by simp
    have "\<forall>(k', e', _)\<in>set (accepted outs). fence_at d k' < e' \<and> (k = k' \<longrightarrow> e < e')"
      using IH lt upd by (fastforce split: if_splits)
    then show ?thesis using conjunct1 [OF IH] lt unfolding tr out(1) by (simp add: out(2) case_prod_beta)
  qed
qed simp

end

end
