(* ===== verification/Dist_Fencing.thy ===== *)
theory Dist_Fencing
  imports Dist_Lease
begin

text \<open>
  The processes around the lease: \<^verbatim>\<open>worker_loop\<close> of \<^verbatim>\<open>fencing_demo.py\<close> and the main loop of \<^verbatim>\<open>relay7.py\<close>, cut at
  every database statement, with the queries the demo reports. A worker that is paused simply is not
  scheduled; the modelled pause is the one the demo asks for, after which the batch is replayed.
\<close>

subsection \<open>The workers of the fencing demo\<close>

datatype log_line =
    Paused "int option"
  | Resumed "int option"
  | Rejected_write string "int option"
  | Wrote_after_pause string "int option"
  | Kept_going
  | Acquired int
  | Lost_lease int

record fence_world =
  tables :: lease_db
  log_lines :: "log_line list"

datatype worker_pc =
    Top
  | Asleep
  | Renewing
  | Selecting
  | Sending "string list" bool
  | Logging string int "string list" bool
  | Returned

record worker =
  w_name :: string
  pause_at :: "rat option"
  w_epoch :: "int option"
  paused :: bool
  w_pc :: worker_pc

record demo =
  run_id :: string
  keys :: "string list"
  ttl :: int

definition say :: "log_line \<Rightarrow> fence_world \<Rightarrow> fence_world" where
  "say l f = f\<lparr>log_lines := log_lines f @ [l]\<rparr>"

definition pending :: "demo \<Rightarrow> lease_db \<Rightarrow> string list" where
  "pending c d = take 2 (sort (filter (\<lambda>k. case payouts d (run_id c, k) of None \<Rightarrow> False
                                        | Some p \<Rightarrow> po_status p = ''pending'') (keys c)))"

definition epoch_or_0 :: "worker \<Rightarrow> int" where
  "epoch_or_0 w = (case w_epoch w of None \<Rightarrow> 0 | Some e \<Rightarrow> e)"

definition try_renew :: "demo \<Rightarrow> int \<Rightarrow> worker \<Rightarrow> fence_world \<Rightarrow> worker \<times> fence_world" where
  "try_renew c now w f =
     (let (ok, d') = renew now ''relay'' (w_name w) (epoch_or_0 w) (ttl c) (tables f); f' = f\<lparr>tables := d'\<rparr> in
      if ok then (w\<lparr>w_pc := Selecting\<rparr>, f')
      else (w\<lparr>w_epoch := None, w_pc := Top\<rparr>, say (Lost_lease (epoch_or_0 w)) f'))"

definition loop_top :: "demo \<Rightarrow> rat \<Rightarrow> int \<Rightarrow> worker \<Rightarrow> fence_world \<Rightarrow> worker \<times> fence_world" where
  "loop_top c t now w f =
     (if (case pause_at w of None \<Rightarrow> False | Some p \<Rightarrow> \<not> paused w \<and> p \<le> t)
      then (w\<lparr>paused := True, w_pc := Asleep\<rparr>, say (Paused (w_epoch w)) f)
      else if w_epoch w = None
      then (case acquire now ''relay'' (w_name w) (ttl c) (tables f) of
              (None, d') \<Rightarrow> (w, f\<lparr>tables := d'\<rparr>)
            | (Some e, d') \<Rightarrow> (w\<lparr>w_epoch := Some e, w_pc := Renewing\<rparr>, say (Acquired e) (f\<lparr>tables := d'\<rparr>)))
      else try_renew c now w f)"

text \<open>The two statements of \<^verbatim>\<open>send_payout\<close>, and what the loop around it does with the row count.\<close>

definition send_update :: "bool \<Rightarrow> demo \<Rightarrow> int \<Rightarrow> string \<Rightarrow> worker \<Rightarrow> lease_db \<Rightarrow> int \<times> lease_db" where
  "send_update fencing c now k w d =
     guarded_update (send_guard fencing) now (run_id c) k (w_name w) (epoch_or_0 w) d"

definition after_send :: "string \<Rightarrow> int \<Rightarrow> string list \<Rightarrow> bool \<Rightarrow> worker \<Rightarrow> fence_world \<Rightarrow> worker \<times> fence_world" where
  "after_send k rows ks replay w f =
     (if \<not> replay then (w\<lparr>w_pc := Sending ks False\<rparr>, f)
      else if rows = 0 then (w\<lparr>w_pc := Returned\<rparr>, say (Rejected_write k (w_epoch w)) f)
      else (w\<lparr>w_pc := Sending ks True\<rparr>,
            if length (log_lines f) < 12 then say (Wrote_after_pause k (w_epoch w)) f
            else if length (log_lines f) = 12 then say Kept_going f else f))"

definition worker_step :: "bool \<Rightarrow> demo \<Rightarrow> rat \<times> int \<Rightarrow> worker \<Rightarrow> fence_world \<Rightarrow> worker \<times> fence_world \<times> fenced_write list" where
  "worker_step fencing c tick w f =
     (let (t, now) = tick; quiet = (\<lambda>(w', f'). (w', f', [])) in
      case w_pc w of
        Top \<Rightarrow> quiet (loop_top c t now w f)
      | Asleep \<Rightarrow> quiet (w\<lparr>w_pc := Sending (keys c) True\<rparr>, say (Resumed (w_epoch w)) f)
      | Renewing \<Rightarrow> quiet (try_renew c now w f)
      | Selecting \<Rightarrow> quiet (w\<lparr>w_pc := Sending (pending c (tables f)) False\<rparr>, f)
      | Sending [] replay \<Rightarrow> quiet (w\<lparr>w_pc := (if replay then Returned else Top)\<rparr>, f)
      | Sending (k # ks) replay \<Rightarrow>
          (let (rows, d') = send_update fencing c now k w (tables f) in
           (w\<lparr>w_pc := Logging k rows ks replay\<rparr>, f\<lparr>tables := d'\<rparr>, [((run_id c, k), epoch_or_0 w, rows)]))
      | Logging k rows ks replay \<Rightarrow>
          quiet (after_send k rows ks replay w (f\<lparr>tables :=
            record_attempt now (run_id c) fencing (w_name w) k (epoch_or_0 w) rows (tables f)\<rparr>))
      | Returned \<Rightarrow> quiet (w, f))"

text \<open>The start: a worker has no epoch; \<^verbatim>\<open>main\<close> has deleted the lease row and seeded the payouts.\<close>

definition new_worker :: "string \<Rightarrow> rat option \<Rightarrow> worker" where
  "new_worker name pause = \<lparr>w_name = name, pause_at = pause, w_epoch = None, paused = False, w_pc = Top\<rparr>"

definition demo_start :: "demo \<Rightarrow> lease_db \<Rightarrow> fence_world" where
  "demo_start c d = \<lparr>tables = seed_payouts (run_id c) (keys c) (d\<lparr>leases := (leases d)(''relay'' := None)\<rparr>), log_lines = []\<rparr>"

text \<open>The three queries of the report.\<close>

definition attempt_counts :: "string \<Rightarrow> lease_db \<Rightarrow> nat \<times> nat \<times> nat" where
  "attempt_counts run d =
     (let as = filter (\<lambda>a. at_run a = run) (attempts d) in
      (length as, length (filter (\<lambda>a. 0 < rows_updated a) as), length (filter (\<lambda>a. rows_updated a = 0) as)))"

definition stale_counts :: "string \<Rightarrow> lease_db \<Rightarrow> nat \<times> nat" where
  "stale_counts run d =
     (let as = filter (\<lambda>a. at_run a = run \<and> (\<exists>b\<in>set (attempts d). at_run b = at_run a \<and> at_epoch a < at_epoch b
                                    \<and> attempted_at b < attempted_at a)) (attempts d) in
      (length as, length (filter (\<lambda>a. rows_updated a = 0) as)))"

definition sent_twice :: "string \<Rightarrow> lease_db \<Rightarrow> nat" where
  "sent_twice run d =
     length (filter (\<lambda>a. at_run a = run \<and> 0 < rows_updated a \<and>
       (\<exists>b\<in>set (attempts d). at_run b = at_run a \<and> at_key b = at_key a \<and> 0 < rows_updated b \<and>
          at_epoch a < at_epoch b \<and> attempted_at b < attempted_at a)) (attempts d))"

abbreviation world_term :: "fence_world \<Rightarrow> int" where
  "world_term f \<equiv> term_of ''relay'' (tables f)"

abbreviation world_fence :: "fence_world \<Rightarrow> string \<times> string \<Rightarrow> int" where
  "world_fence f \<equiv> fence_of (tables f)"

lemma say_tables [simp]: "tables (say l f) = tables f"
  by (simp add: say_def)

lemma term_of_cong: "leases d' = leases d \<Longrightarrow> term_of lease d' = term_of lease d"
  by (simp add: term_of_def)

lemma fence_of_cong: "payouts d' = payouts d \<Longrightarrow> fence_of d' = fence_of d"
  by (simp add: fence_of_def fun_eq_iff)

lemma try_renew_laws:
  assumes "try_renew c now w f = (w', f')"
  shows "(w_epoch w' = w_epoch w \<or> w_epoch w' = None) \<and> world_term f' = world_term f \<and> world_fence f' = world_fence f"
proof -
  obtain ok d' where r: "renew now ''relay'' (w_name w) (epoch_or_0 w) (ttl c) (tables f) = (ok, d')"
    by (cases "renew now ''relay'' (w_name w) (epoch_or_0 w) (ttl c) (tables f)")
  with assms renew_term [OF r] fence_of_cong [of d' "tables f"] show ?thesis
    by (auto simp: try_renew_def split: if_splits)
qed

lemma loop_top_laws:
  assumes "loop_top c t now w f = (w', f')"
  shows "((w_epoch w' = w_epoch w \<or> w_epoch w' = None) \<and> world_term f' = world_term f
      \<or> w_epoch w' = Some (world_term f') \<and> world_term f < world_term f') \<and> world_fence f' = world_fence f"
proof -
  obtain res d' where a: "acquire now ''relay'' (w_name w) (ttl c) (tables f) = (res, d')"
    by (cases "acquire now ''relay'' (w_name w) (ttl c) (tables f)")
  have fence: "fence_of d' = fence_of (tables f)" using acquire_term [OF a] by (intro fence_of_cong) simp
  let ?pause = "case pause_at w of None \<Rightarrow> False | Some p \<Rightarrow> \<not> paused w \<and> p \<le> t"
  show ?thesis
  proof (cases "?pause \<or> w_epoch w \<noteq> None")
    case True
    show ?thesis
    proof (cases ?pause)
      case True
      with assms have "w' = w\<lparr>paused := True, w_pc := Asleep\<rparr>" "f' = say (Paused (w_epoch w)) f"
        by (simp_all add: loop_top_def)
      then show ?thesis by simp
    next
      case False
      with True assms have "try_renew c now w f = (w', f')" by (auto simp: loop_top_def)
      from try_renew_laws [OF this] show ?thesis by simp
    qed
  next
    case False
    then have top: "(case (res, d') of (None, d') \<Rightarrow> (w, f\<lparr>tables := d'\<rparr>)
       | (Some e, d') \<Rightarrow> (w\<lparr>w_epoch := Some e, w_pc := Renewing\<rparr>, say (Acquired e) (f\<lparr>tables := d'\<rparr>))) = (w', f')"
      using assms unfolding loop_top_def a by simp
    show ?thesis
    proof (cases res)
      case None
      with top have "w' = w" "f' = f\<lparr>tables := d'\<rparr>" by simp_all
      with acquire_term [OF a] None fence show ?thesis by simp
    next
      case (Some e)
      with top have "w' = w\<lparr>w_epoch := Some e, w_pc := Renewing\<rparr>" "f' = say (Acquired e) (f\<lparr>tables := d'\<rparr>)" by simp_all
      with acquire_term [OF a] Some fence show ?thesis by simp
    qed
  qed
qed

lemma after_send_laws:
  "after_send k rows ks replay w f = (w', f') \<Longrightarrow> w_epoch w' = w_epoch w \<and> tables f' = tables f"
  by (auto simp: after_send_def split: if_splits)

text \<open>One step either leaves the fences alone or is one guarded update.\<close>

lemma worker_step_laws:
  assumes "worker_step fencing c tick w f = (w', f', out)"
  shows "(((w_epoch w' = w_epoch w \<or> w_epoch w' = None) \<and> world_term f' = world_term f
       \<or> w_epoch w' = Some (world_term f') \<and> world_term f < world_term f') \<and> out = [] \<and> world_fence f' = world_fence f)
     \<or> (w_epoch w' = w_epoch w \<and> world_term f' = world_term f \<and>
        (\<exists>k rows. out = [((run_id c, k), epoch_or_0 w, rows)] \<and>
          (rows = 0 \<and> world_fence f' = world_fence f \<or>
           rows = 1 \<and> send_guard fencing (world_fence f (run_id c, k)) (epoch_or_0 w) \<and>
             world_fence f' = (world_fence f)((run_id c, k) := epoch_or_0 w))))"
proof (cases "w_pc w")
  case Top
  then show ?thesis using assms loop_top_laws [of c "fst tick" "snd tick" w f w' f']
    by (auto simp: worker_step_def case_prod_beta Let_def)
next
  case (Sending ks replay)
  show ?thesis
  proof (cases ks)
    case (Cons k ks')
    obtain rows d' where u: "send_update fencing c (snd tick) k w (tables f) = (rows, d')"
      by (cases "send_update fencing c (snd tick) k w (tables f)")
    note g = guarded_update_fence [OF u [unfolded send_update_def]]
    have "term_of ''relay'' d' = world_term f" using g by (intro term_of_cong) simp
    moreover have "w' = w\<lparr>w_pc := Logging k rows ks' replay\<rparr>" "f' = f\<lparr>tables := d'\<rparr>"
      "out = [((run_id c, k), epoch_or_0 w, rows)]"
      using assms Sending Cons u by (simp_all add: worker_step_def case_prod_beta Let_def)
    ultimately show ?thesis using g by auto
  qed (use assms Sending in \<open>auto simp: worker_step_def case_prod_beta Let_def\<close>)
next
  case (Logging k rows ks replay)
  then obtain d where "after_send k rows ks replay w (f\<lparr>tables := d\<rparr>) = (w', f')" "out = []"
    "term_of ''relay'' d = world_term f" "fence_of d = world_fence f"
    using assms by (auto simp: worker_step_def case_prod_beta Let_def)
  with after_send_laws show ?thesis by fastforce
qed (use assms try_renew_laws [of c "snd tick" w f w' f'] in \<open>auto simp: worker_step_def case_prod_beta Let_def\<close>)

interpretation demo_lease: lease_protocol "worker_step fencing c" w_epoch world_term for fencing c
proof
  fix ev w d w' d' out assume "worker_step fencing c ev w d = (w', d', out)"
  from worker_step_laws [OF this]
  show "(w_epoch w' = w_epoch w \<or> w_epoch w' = None) \<and> world_term d \<le> world_term d' \<or>
        w_epoch w' = Some (world_term d') \<and> world_term d < world_term d'" by (elim disjE conjE) simp_all
qed

interpretation demo_fence: strict_protocol "worker_step True c" w_epoch world_term world_fence for c
proof
  fix ev w d w' d' out assume st: "worker_step True c ev w d = (w', d', out)"
  from worker_step_laws [OF this]
  show "(\<forall>(k, e, n)\<in>set out. n = 0) \<and> world_fence d' = world_fence d \<or>
      (\<exists>k e n. out = [(k, e, n)] \<and> n \<noteq> 0 \<and> world_fence d k \<le> e \<and> world_fence d' = (world_fence d)(k := e))"
    by (elim disjE conjE exE) (auto simp: send_guard_def)
  fix k e n assume "(k, e, n) \<in> set out" "n \<noteq> 0"
  with worker_step_laws [OF st] show "world_fence d k < e" by (auto simp: send_guard_def)
qed

subsection \<open>The relays of the container version\<close>

text \<open>
  \<^verbatim>\<open>relay7.main\<close>: act first on the lease believed held, renew on a timer. A step may raise before its
  statement took effect, or lose the answer to a statement that did; either way the loop starts over.
\<close>

datatype relay_pc = Connect | Acting nat | Attempted string int nat | Timer | Renew_held | Take_over

datatype outcome = Answered | Raised | Answer_lost

record relay =
  r_name :: string
  r_epoch :: "int option"
  r_count :: nat
  last_renew :: rat
  r_pc :: relay_pc

record relay_env =
  r_run :: string
  r_ttl :: int
  renew_interval :: rat
  r_keys :: nat
  r_batch :: nat

definition do_update :: "bool \<Rightarrow> relay_env \<Rightarrow> int \<Rightarrow> string \<Rightarrow> relay \<Rightarrow> lease_db \<Rightarrow> int \<times> lease_db" where
  "do_update fencing c now k r d =
     guarded_update (do_guard fencing) now (r_run c) k (r_name r) (case r_epoch r of None \<Rightarrow> 0 | Some e \<Rightarrow> e) d"

definition relay_statement :: "bool \<Rightarrow> relay_env \<Rightarrow> rat \<Rightarrow> int \<Rightarrow> relay \<Rightarrow> lease_db \<Rightarrow> relay \<times> lease_db \<times> fenced_write list" where
  "relay_statement fencing c clk now r d =
     (case r_pc r of
        Connect \<Rightarrow> (r\<lparr>r_pc := (if r_epoch r = None then Timer else Acting (r_batch c))\<rparr>, d, [])
      | Acting 0 \<Rightarrow> (r\<lparr>r_pc := Timer\<rparr>, d, [])
      | Acting (Suc n) \<Rightarrow>
          if r_keys c = 0 then (r\<lparr>r_pc := Connect\<rparr>, d, [])
          else (let k = ''k'' @ py_str_nat (r_count r mod r_keys c + 1); (rows, d') = do_update fencing c now k r d in
                (r\<lparr>r_pc := Attempted k rows n\<rparr>, d', [((r_run c, k), case r_epoch r of None \<Rightarrow> 0 | Some e \<Rightarrow> e, rows)]))
      | Attempted k rows n \<Rightarrow>
          (r\<lparr>r_count := r_count r + 1, r_pc := Acting n\<rparr>,
           record_attempt now (r_run c) fencing (r_name r) k (case r_epoch r of None \<Rightarrow> 0 | Some e \<Rightarrow> e) rows d, [])
      | Timer \<Rightarrow>
          if renew_interval c \<le> fl (clk - last_renew r)
          then (r\<lparr>last_renew := clk, r_pc := (if r_epoch r = None then Take_over else Renew_held)\<rparr>, d, [])
          else (r\<lparr>r_pc := Connect\<rparr>, d, [])
      | Renew_held \<Rightarrow>
          (case acquire_or_renew now (r_run c) (r_name r) (r_ttl c) (r_epoch r) d of
             (None, d') \<Rightarrow> (r\<lparr>r_epoch := None, r_pc := Take_over\<rparr>, d', [])
           | (Some e, d') \<Rightarrow> (r\<lparr>r_epoch := Some e, r_pc := Connect\<rparr>, d', []))
      | Take_over \<Rightarrow>
          (let (res, d') = acquire_or_renew now (r_run c) (r_name r) (r_ttl c) None d in
           (r\<lparr>r_epoch := res, r_pc := Connect\<rparr>, d', [])))"

definition relay_step :: "bool \<Rightarrow> relay_env \<Rightarrow> rat \<times> int \<times> outcome \<Rightarrow> relay \<Rightarrow> lease_db \<Rightarrow> relay \<times> lease_db \<times> fenced_write list" where
  "relay_step fencing c ev r d =
     (let (clk, now, what) = ev; (r', d', out) = relay_statement fencing c clk now r d in
      case what of Answered \<Rightarrow> (r', d', out)
      | Raised \<Rightarrow> (r\<lparr>r_pc := Connect\<rparr>, d, [])
      | Answer_lost \<Rightarrow> (r\<lparr>r_pc := Connect\<rparr>, d', out))"

definition new_relay :: "string \<Rightarrow> relay" where
  "new_relay name = \<lparr>r_name = name, r_epoch = None, r_count = 0, last_renew = 0, r_pc = Connect\<rparr>"

abbreviation relay_write_law :: "(int \<Rightarrow> int \<Rightarrow> bool) \<Rightarrow> lease_db \<Rightarrow> lease_db \<Rightarrow> fenced_write list \<Rightarrow> bool" where
  "relay_write_law guard d d' out \<equiv> (\<exists>k e rows. out = [(k, e, rows)] \<and>
     (rows = 0 \<and> fence_of d' = fence_of d \<or> rows = 1 \<and> guard (fence_of d k) e \<and> fence_of d' = (fence_of d)(k := e)))"

lemma relay_renewal_laws:
  assumes "acquire_or_renew now run who t mine d = (res, d')"
  shows "fence_of d' = fence_of d \<and> term_of run d \<le> term_of run d' \<and>
     (res = None \<or> res = mine \<and> term_of run d' = term_of run d \<or> res = Some (term_of run d') \<and> term_of run d < term_of run d')"
proof -
  have "fence_of d' = fence_of d" using acquire_or_renew_term [OF assms] by (intro fence_of_cong) simp
  with acquire_or_renew_term [OF assms] show ?thesis by (cases res) auto
qed

lemma relay_statement_laws:
  assumes "relay_statement fencing c clk now r d = (r', d', out)"
  shows "((r_epoch r' = r_epoch r \<or> r_epoch r' = None) \<and> term_of (r_run c) d \<le> term_of (r_run c) d'
       \<or> r_epoch r' = Some (term_of (r_run c) d') \<and> term_of (r_run c) d < term_of (r_run c) d')
     \<and> (out = [] \<and> fence_of d' = fence_of d
        \<or> relay_write_law (do_guard fencing) d d' out)"
proof (cases "r_pc r")
  case (Acting n)
  show ?thesis
  proof (cases n)
    case (Suc m)
    let ?k = "''k'' @ py_str_nat (r_count r mod r_keys c + 1)"
    obtain rows d2 where u: "do_update fencing c now ?k r d = (rows, d2)"
      by (cases "do_update fencing c now ?k r d")
    note g = guarded_update_fence [OF u [unfolded do_update_def]]
    have same: "term_of (r_run c) d2 = term_of (r_run c) d" using g by (intro term_of_cong) simp
    show ?thesis
    proof (cases "r_keys c = 0")
      case False
      then have "r' = r\<lparr>r_pc := Attempted ?k rows m\<rparr>" "d' = d2"
        "out = [((r_run c, ?k), case r_epoch r of None \<Rightarrow> 0 | Some e \<Rightarrow> e, rows)]"
        using assms Acting Suc u by (simp_all add: relay_statement_def Let_def)
      with g same show ?thesis by auto
    qed (use assms Acting Suc in \<open>auto simp: relay_statement_def\<close>)
  qed (use assms Acting in \<open>auto simp: relay_statement_def\<close>)
next
  case Renew_held
  obtain res d2 where a: "acquire_or_renew now (r_run c) (r_name r) (r_ttl c) (r_epoch r) d = (res, d2)"
    by (cases "acquire_or_renew now (r_run c) (r_name r) (r_ttl c) (r_epoch r) d")
  with assms Renew_held have "r_epoch r' = res" "d' = d2" "out = []"
    by (auto simp: relay_statement_def split: option.splits)
  with relay_renewal_laws [OF a] show ?thesis by auto
next
  case Take_over
  obtain res d2 where a: "acquire_or_renew now (r_run c) (r_name r) (r_ttl c) None d = (res, d2)"
    by (cases "acquire_or_renew now (r_run c) (r_name r) (r_ttl c) None d")
  with assms Take_over have "r_epoch r' = res" "d' = d2" "out = []" by (auto simp: relay_statement_def)
  with relay_renewal_laws [OF a] show ?thesis by auto
next
  case Connect
  with assms show ?thesis by (auto simp: relay_statement_def)
next
  case (Attempted k rows n)
  with assms show ?thesis by (auto simp: relay_statement_def)
next
  case Timer
  with assms show ?thesis by (auto simp: relay_statement_def split: if_splits)
qed

lemma relay_step_laws:
  assumes "relay_step fencing c ev r d = (r', d', out)"
  shows "((r_epoch r' = r_epoch r \<or> r_epoch r' = None) \<and> term_of (r_run c) d \<le> term_of (r_run c) d'
       \<or> r_epoch r' = Some (term_of (r_run c) d') \<and> term_of (r_run c) d < term_of (r_run c) d')
     \<and> (out = [] \<and> fence_of d' = fence_of d \<or> relay_write_law (do_guard fencing) d d' out)"
proof -
  obtain clk now what where ev: "ev = (clk, now, what)" by (cases ev)
  obtain r2 d2 o2 where st: "relay_statement fencing c clk now r d = (r2, d2, o2)"
    by (cases "relay_statement fencing c clk now r d")
  note laws = relay_statement_laws [OF st]
  then have "term_of (r_run c) d \<le> term_of (r_run c) d2" by auto
  with laws assms ev st show ?thesis by (cases what) (auto simp: relay_step_def)
qed

interpretation relay_fence: fenced_protocol "relay_step True c" r_epoch "term_of (r_run c)" fence_of for c
proof
  fix ev w d w' d' out assume st: "relay_step True c ev w d = (w', d', out)"
  from conjunct1 [OF relay_step_laws [OF st]]
  show "(r_epoch w' = r_epoch w \<or> r_epoch w' = None) \<and> term_of (r_run c) d \<le> term_of (r_run c) d' \<or>
        r_epoch w' = Some (term_of (r_run c) d') \<and> term_of (r_run c) d < term_of (r_run c) d'" .
  from conjunct2 [OF relay_step_laws [OF st]]
  show "(\<forall>(k, e, n)\<in>set out. n = 0) \<and> fence_of d' = fence_of d \<or>
      (\<exists>k e n. out = [(k, e, n)] \<and> n \<noteq> 0 \<and> fence_of d k \<le> e \<and> fence_of d' = (fence_of d)(k := e))"
    by (auto simp: do_guard_def)
qed

subsection \<open>What fencing gives\<close>

lemma demo_start_one_holder: "demo_lease.one_holder ((\<lambda>n. new_worker (names n) (pauses n)), f)"
  by (simp add: demo_lease.one_holder_def new_worker_def)

lemma relay_start_one_holder: "relay_fence.one_holder c ((\<lambda>n. new_relay (names n)), d)"
  by (simp add: relay_fence.one_holder_def new_relay_def)

text \<open>
  C6. Any number of workers of the fencing demo, paused and resumed anywhere between two statements: no two
  ever believe in the same epoch, and with \<^verbatim>\<open>--fencing 1\<close> the writes a payout row accepts carry strictly
  increasing epochs, bounded by the fence left in the row. An epoch pays a row at most once, and a holder that
  was superseded on a row cannot write it again.
\<close>

theorem fencing_orders_writes:
  assumes "run_procs (worker_step True c) sched ((\<lambda>n. new_worker (names n) (pauses n)), demo_start c d) = ((ws, f), tr)"
  shows "(\<forall>m n e. w_epoch (ws m) = Some e \<longrightarrow> w_epoch (ws n) = Some e \<longrightarrow> m = n)
    \<and> sorted_wrt (\<lambda>(k, e, _) (k', e', _). k = k' \<longrightarrow> e < e') (accepted tr)
    \<and> (\<forall>(k, e, _)\<in>set (accepted tr). fence_of (tables (demo_start c d)) k < e \<and> e \<le> fence_of (tables f) k)"
proof -
  have holder: "demo_lease.one_holder (ws, f)"
    using demo_lease.one_holder_run [OF demo_start_one_holder assms] by (rule conjunct1)
  have a: "sorted_wrt (\<lambda>(k, e, _) (k', e', _). k = k' \<longrightarrow> e < e') (accepted tr)"
    "\<forall>(k, e, _)\<in>set (accepted tr). fence_of (tables (demo_start c d)) k < e"
    using demo_fence.writes_strict [OF assms] by simp_all
  have b: "\<forall>(k, e, _)\<in>set (accepted tr). e \<le> fence_of (tables f) k"
    using demo_fence.writes_ordered [OF assms] by fastforce
  have h: "\<forall>m n e. w_epoch (ws m) = Some e \<longrightarrow> w_epoch (ws n) = Some e \<longrightarrow> m = n"
    using holder unfolding demo_lease.one_holder_def by simp
  show ?thesis using a b h by fastforce
qed

text \<open>
  The relays of the container version, whose steps may also raise or lose their answer: no two believe in
  the same epoch, and with \<^verbatim>\<open>FENCING=1\<close> the epochs a row accepts never decrease, although the holder may
  re-drive its own rows.
\<close>

theorem relay_epochs_fence:
  assumes "run_procs (relay_step True c) sched ((\<lambda>n. new_relay (names n)), d) = ((ws, d'), tr)"
  shows "(\<forall>m n e. r_epoch (ws m) = Some e \<longrightarrow> r_epoch (ws n) = Some e \<longrightarrow> m = n)
    \<and> sorted_wrt (\<lambda>(k, e, _) (k', e', _). k = k' \<longrightarrow> e \<le> e') (accepted tr)
    \<and> (\<forall>(k, e, _)\<in>set (accepted tr). fence_of d k \<le> e \<and> e \<le> fence_of d' k)"
proof -
  have holder: "relay_fence.one_holder c (ws, d')"
    using relay_fence.one_holder_run [OF relay_start_one_holder assms] by (rule conjunct1)
  have h: "\<forall>m n e. r_epoch (ws m) = Some e \<longrightarrow> r_epoch (ws n) = Some e \<longrightarrow> m = n"
    using holder unfolding relay_fence.one_holder_def by simp
  have a: "sorted_wrt (\<lambda>(k, e, _) (k', e', _). k = k' \<longrightarrow> e \<le> e') (accepted tr)"
    "\<forall>(k, e, _)\<in>set (accepted tr). fence_of d k \<le> e \<and> e \<le> fence_of d' k"
    using relay_fence.writes_ordered [OF assms] by simp_all
  show ?thesis using a h by fastforce
qed

text \<open>
  A relay whose lease was taken and has expired again is re-elected by its own renewal call: it is told
  neither that it was deposed nor that the epoch changed hands.
\<close>

lemma deposed_renewal_reacquires:
  assumes "leases d run = Some r" "holder r \<noteq> who \<or> ls_epoch r \<noteq> e" "expires_at r < now"
  shows "fst (acquire_or_renew now run who t (Some e) d) = Some (ls_epoch r + 1)"
  using assms by (simp add: acquire_or_renew_def acquire_def)

definition one_payout :: demo where
  "one_payout = \<lparr>run_id = ''t7'', keys = [''payout-000''], ttl = 3000000\<rparr>"

definition empty_tables :: lease_db where
  "empty_tables = \<lparr>leases = Map.empty, payouts = Map.empty, attempts = []\<rparr>"

definition two_leaders :: "(nat \<times> rat \<times> int) list" where
  "two_leaders = [(0, 0, 0), (0, 0, 1), (0, 0, 2), (1, 4, 4000000), (1, 4, 4000001), (1, 4, 4000002),
     (0, 5, 5000000), (1, 5, 5000001)]"

definition handover_run :: "bool \<Rightarrow> (nat \<times> rat \<times> int) list \<Rightarrow> fenced_write list \<times> nat" where
  "handover_run fencing sched =
     (let ((ws, f), tr) = run_procs (worker_step fencing one_payout) sched
            ((\<lambda>n. new_worker (if n = 0 then ''worker-a'' else ''worker-b'') None), demo_start one_payout empty_tables)
      in (accepted tr, sent_twice ''t7'' (tables f)))"

lemma handover_logged_in_order:
  "handover_run True (two_leaders @ [(0, 6, 6000000), (1, 6, 6000001)]) =
     ([((''t7'', ''payout-000''), 1, 1), ((''t7'', ''payout-000''), 2, 1)], 0)"
  by (simp add: handover_run_def two_leaders_def one_payout_def empty_tables_def demo_start_def seed_payouts_def
      new_worker_def new_payout_def worker_step_def loop_top_def acquire_def say_def try_renew_def renew_def
      epoch_or_0_def pending_def send_update_def guarded_update_def send_guard_def after_send_def
      record_attempt_def sent_twice_def)

lemma handover_logged_inverted:
  "handover_run True (two_leaders @ [(1, 6, 6000000), (0, 6, 6000001)]) =
     ([((''t7'', ''payout-000''), 1, 1), ((''t7'', ''payout-000''), 2, 1)], 1)"
  by (simp add: handover_run_def two_leaders_def one_payout_def empty_tables_def demo_start_def seed_payouts_def
      new_worker_def new_payout_def worker_step_def loop_top_def acquire_def say_def try_renew_def renew_def
      epoch_or_0_def pending_def send_update_def guarded_update_def send_guard_def after_send_def
      record_attempt_def sent_twice_def)

text \<open>
  Fencing is not exactly-once. Two leaders that both selected the row while it was pending both pay it,
  because the epochs only have to increase; the report counts no duplicate when the attempts are logged in
  that order, and one duplicate when a pause falls between the older leader's update and its log entry.
\<close>

theorem fencing_is_not_exactly_once:
  "handover_run True (two_leaders @ [(0, 6, 6000000), (1, 6, 6000001)]) =
     ([((''t7'', ''payout-000''), 1, 1), ((''t7'', ''payout-000''), 2, 1)], 0)
   \<and> handover_run True (two_leaders @ [(1, 6, 6000000), (0, 6, 6000001)]) =
     ([((''t7'', ''payout-000''), 1, 1), ((''t7'', ''payout-000''), 2, 1)], 1)"
  by (intro conjI handover_logged_in_order handover_logged_inverted)

theorem fencing_orders_writes_witness:
  "fst (handover_run True (two_leaders @ [(0, 6, 6000000), (1, 6, 6000001)])) \<noteq> []
   \<and> sorted_wrt (\<lambda>(k, e, _) (k', e', _). k = k' \<longrightarrow> e < e')
       (fst (handover_run True (two_leaders @ [(0, 6, 6000000), (1, 6, 6000001)])))"
proof -
  let ?start = "((\<lambda>n. new_worker (if n = 0 then ''worker-a'' else ''worker-b'') None), demo_start one_payout empty_tables)"
  obtain ws f tr where r: "run_procs (worker_step True one_payout) (two_leaders @ [(0, 6, 6000000), (1, 6, 6000001)])
      ?start = ((ws, f), tr)" by (metis prod.exhaust)
  then have acc: "fst (handover_run True (two_leaders @ [(0, 6, 6000000), (1, 6, 6000001)])) = accepted tr"
    by (simp add: handover_run_def)
  then have "accepted tr \<noteq> []" unfolding handover_logged_in_order by fastforce
  then show ?thesis unfolding acc using fencing_orders_writes [OF r] by blast
qed

definition one_relay :: relay_env where
  "one_relay = \<lparr>r_run = ''t7'', r_ttl = 10000000, renew_interval = 0, r_keys = 1, r_batch = 1\<rparr>"

theorem relay_epochs_fence_witness:
  "let d = empty_tables\<lparr>payouts := [(''t7'', ''k1'') \<mapsto> new_payout]\<rparr>;
       ((ws, d'), tr) = run_procs (relay_step True one_relay) (map (\<lambda>t. (0, 1, t, Answered)) [0, 1, 2, 3, 4])
                          ((\<lambda>n. new_relay ''relay-a''), d)
   in accepted tr = [((''t7'', ''k1''), 1, 1)] \<and> r_epoch (ws 0) = Some 1 \<and> 1 \<le> fence_of d' (''t7'', ''k1'')"
proof -
  let ?d = "empty_tables\<lparr>payouts := [(''t7'', ''k1'') \<mapsto> new_payout]\<rparr>"
  obtain ws d' tr where r: "run_procs (relay_step True one_relay) (map (\<lambda>t. (0, 1, t, Answered)) [0, 1, 2, 3, 4])
      ((\<lambda>n. new_relay ''relay-a''), ?d) = ((ws, d'), tr)" by (metis prod.exhaust)
  have one: "char_of (49::nat) = CHR ''1''" by code_simp
  have "accepted tr = [((''t7'', ''k1''), 1, 1)] \<and> r_epoch (ws 0) = Some 1"
    using r by (auto simp: relay_step_def relay_statement_def one_relay_def new_relay_def empty_tables_def
        acquire_or_renew_def acquire_def do_update_def guarded_update_def do_guard_def new_payout_def
        py_str_nat.simps digit_char_def fl_nonneg Let_def one)
  with relay_epochs_fence [OF r] r show ?thesis by simp
qed

end
