(* ===== verification/Dist_Outbox.thy ===== *)
theory Dist_Outbox
  imports Lab_Prelude
begin

text \<open>
  The transactional outbox of \<^verbatim>\<open>04-distributed/06-outbox-sagas-.../python/hwm_skip.py\<close> and \<^verbatim>\<open>outbox_relay.py\<close>:
  writers that take sequence values before they commit, the high-water-mark relay, the SKIP LOCKED relays and
  the relay woken by notifications or by a timer. An event is one transaction boundary of one process; the
  schedule is any list of events. Only committed rows are in \<open>outbox\<close>; rows of open transactions are in \<open>open_tx\<close>.
\<close>

record outbox_row =
  ob_id :: nat
  ob_run :: string
  aggregate_id :: nat
  topic :: string
  payload :: json
  committed_at :: "int option"
  published_at :: "int option"
  published_by :: "string option"

record delivered_row =
  dl_run :: string
  dl_relay :: string
  woken_by :: "string option"
  dl_outbox :: nat

text \<open>What distinguishes the relays: the rows they ask for and what they write about them.\<close>

record relay_label =
  lb_run :: "string option"
  lb_relay :: string
  lb_woken :: "string option"
  lb_who :: string
  lb_stat :: string

record outbox_db =
  t6_charges :: "(nat \<times> string \<times> int) list"
  outbox :: "outbox_row list"
  delivered :: "delivered_row list"
  charge_seq :: nat
  outbox_seq :: nat
  open_tx :: "(nat \<times> (nat \<times> string \<times> int) \<times> outbox_row) list"
  row_locks :: "(nat \<times> relay_label \<times> outbox_row list) list"
  mark :: nat
  notices :: nat
  stats :: "string \<Rightarrow> nat"

definition count_stat :: "string \<Rightarrow> nat \<Rightarrow> outbox_db \<Rightarrow> outbox_db" where
  "count_stat k n db = db\<lparr>stats := (stats db)(k := stats db k + n)\<rparr>"

subsection \<open>Writers\<close>

text \<open>The two inserts of \<^verbatim>\<open>writer\<close>: both sequence values are taken, nothing is visible yet.\<close>

definition writer_insert :: "nat \<Rightarrow> string \<Rightarrow> int \<Rightarrow> outbox_db \<Rightarrow> outbox_db" where
  "writer_insert w run amount db =
     (if w \<in> fst ` set (open_tx db) then db
      else let cid = Suc (charge_seq db); oid = Suc (outbox_seq db) in
        db\<lparr>charge_seq := cid, outbox_seq := oid,
           open_tx := open_tx db @ [(w, (cid, run, amount),
             \<lparr>ob_id = oid, ob_run = run, aggregate_id = cid, topic = ''payment.succeeded'',
              payload = JObj [(''event'', JStr ''payment.succeeded'')], committed_at = None,
              published_at = None, published_by = None\<rparr>)]\<rparr>)"

text \<open>The stamp and the commit: the rows become visible, the trigger notifies. A rollback burns the ids.\<close>

definition writer_commit :: "nat \<Rightarrow> int \<Rightarrow> outbox_db \<Rightarrow> outbox_db" where
  "writer_commit w now db =
     (case map_of (open_tx db) w of None \<Rightarrow> db
      | Some (ch, r) \<Rightarrow> db\<lparr>t6_charges := t6_charges db @ [ch], outbox := outbox db @ [r\<lparr>committed_at := Some now\<rparr>],
          open_tx := filter (\<lambda>x. fst x \<noteq> w) (open_tx db), notices := Suc (notices db)\<rparr>)"

definition writer_abort :: "nat \<Rightarrow> outbox_db \<Rightarrow> outbox_db" where
  "writer_abort w db = db\<lparr>open_tx := filter (\<lambda>x. fst x \<noteq> w) (open_tx db)\<rparr>"

subsection \<open>The high-water-mark relay\<close>

definition hwm_rows :: "string \<Rightarrow> nat \<Rightarrow> outbox_db \<Rightarrow> outbox_row list" where
  "hwm_rows run batch db =
     take batch (sort_key ob_id (filter (\<lambda>r. ob_run r = run \<and> mark db < ob_id r) (outbox db)))"

definition relay_high_water_mark :: "string \<Rightarrow> nat \<Rightarrow> outbox_db \<Rightarrow> outbox_db" where
  "relay_high_water_mark run batch db =
     (let rows = hwm_rows run batch db in
      (count_stat ''hwm_published'' (length rows) db)
        \<lparr>delivered := delivered db @ map (\<lambda>r. \<lparr>dl_run = run, dl_relay = ''high-water-mark'', woken_by = None, dl_outbox = ob_id r\<rparr>) rows,
         mark := foldl (\<lambda>m r. max m (ob_id r)) (mark db) rows\<rparr>)"

subsection \<open>Relays that ask for unpublished rows\<close>

definition skip_locked_label :: "string \<Rightarrow> string \<Rightarrow> relay_label" where
  "skip_locked_label run who =
     \<lparr>lb_run = Some run, lb_relay = ''skip-locked'', lb_woken = None, lb_who = who, lb_stat = ''published''\<rparr>"

definition outbox_relay_label :: "string \<Rightarrow> string \<Rightarrow> relay_label" where
  "outbox_relay_label who woken =
     \<lparr>lb_run = None, lb_relay = ''outbox-relay'', lb_woken = Some woken, lb_who = who, lb_stat = woken\<rparr>"

definition locked_ids :: "outbox_db \<Rightarrow> nat list" where
  "locked_ids db = concat (map (\<lambda>x. map ob_id (snd (snd x))) (row_locks db))"

definition unpublished :: "outbox_row \<Rightarrow> bool" where
  "unpublished r = (published_at r = None)"

definition claimable :: "relay_label \<Rightarrow> outbox_db \<Rightarrow> outbox_row list" where
  "claimable l db = sort_key ob_id (filter (\<lambda>r. (case lb_run l of None \<Rightarrow> True | Some run \<Rightarrow> ob_run r = run)
      \<and> unpublished r \<and> ob_id r \<notin> set (locked_ids db)) (outbox db))"

definition claim_rows :: "nat \<Rightarrow> relay_label \<Rightarrow> nat \<Rightarrow> outbox_db \<Rightarrow> outbox_db" where
  "claim_rows i l batch db =
     (if i \<in> fst ` set (row_locks db) then db
      else db\<lparr>row_locks := (i, l, take batch (claimable l db)) # row_locks db\<rparr>)"

text \<open>The loop over the claimed rows and the commit; every row's delivery and its mark commit together.\<close>

definition publish_row :: "relay_label \<Rightarrow> int \<Rightarrow> outbox_db \<Rightarrow> outbox_row \<Rightarrow> outbox_db" where
  "publish_row l now db r =
     db\<lparr>delivered := delivered db @ [\<lparr>dl_run = ob_run r, dl_relay = lb_relay l, woken_by = lb_woken l, dl_outbox = ob_id r\<rparr>],
        outbox := map (\<lambda>x. if ob_id x = ob_id r then x\<lparr>published_at := Some now, published_by := Some (lb_who l)\<rparr> else x) (outbox db)\<rparr>"

definition unlock :: "nat \<Rightarrow> outbox_db \<Rightarrow> outbox_db" where
  "unlock i db = db\<lparr>row_locks := filter (\<lambda>x. fst x \<noteq> i) (row_locks db)\<rparr>"

definition publish_batch :: "nat \<Rightarrow> int \<Rightarrow> outbox_db \<Rightarrow> outbox_db" where
  "publish_batch i now db =
     (case map_of (row_locks db) i of None \<Rightarrow> db
      | Some (l, rows) \<Rightarrow> unlock i (count_stat (lb_stat l) (length rows) (foldl (publish_row l now) db rows)))"

text \<open>
  What wakes the relay of \<^verbatim>\<open>outbox_relay.py\<close>: a notification, dropped when the draw is below the drop rate,
  or a tick of the poller.
\<close>

definition listener :: "nat \<Rightarrow> string \<Rightarrow> nat \<Rightarrow> rat \<Rightarrow> rat \<Rightarrow> outbox_db \<Rightarrow> outbox_db" where
  "listener i who batch drop_rate rnd db =
     (if notices db = 0 then db
      else if rnd < drop_rate then (count_stat ''notifications_dropped'' (notices db) db)\<lparr>notices := 0\<rparr>
      else claim_rows i (outbox_relay_label who ''notify'') batch ((count_stat ''notify_wakeups'' 1 db)\<lparr>notices := 0\<rparr>))"

definition poller :: "nat \<Rightarrow> string \<Rightarrow> nat \<Rightarrow> outbox_db \<Rightarrow> outbox_db" where
  "poller i who batch db = claim_rows i (outbox_relay_label who ''poll'') batch (count_stat ''poll_wakeups'' 1 db)"

datatype ob_event =
    Insert nat string int
  | Commit nat int
  | Abort nat
  | Mark_poll string nat
  | Claim nat string string nat
  | Notified nat string nat rat rat
  | Tick nat string nat
  | Publish nat int
  | Relay_dies nat

fun ob_step :: "ob_event \<Rightarrow> outbox_db \<Rightarrow> outbox_db" where
  "ob_step (Insert w run amount) db = writer_insert w run amount db"
| "ob_step (Commit w now) db = writer_commit w now db"
| "ob_step (Abort w) db = writer_abort w db"
| "ob_step (Mark_poll run batch) db = relay_high_water_mark run batch db"
| "ob_step (Claim i run who batch) db = claim_rows i (skip_locked_label run who) batch db"
| "ob_step (Notified i who batch drop_rate rnd) db = listener i who batch drop_rate rnd db"
| "ob_step (Tick i who batch) db = poller i who batch db"
| "ob_step (Publish i now) db = publish_batch i now db"
| "ob_step (Relay_dies i) db = unlock i db"

definition outbox_run :: "ob_event list \<Rightarrow> outbox_db \<Rightarrow> outbox_db" where
  "outbox_run evs db = foldl (\<lambda>d e. ob_step e d) db evs"

definition empty_outbox :: outbox_db where
  "empty_outbox = \<lparr>t6_charges = [], outbox = [], delivered = [], charge_seq = 0, outbox_seq = 0, open_tx = [],
     row_locks = [], mark = 0, notices = 0, stats = (\<lambda>_. 0)\<rparr>"

text \<open>The delivered ids of the mark relay, and those of the others.\<close>

definition hwm_delivered :: "outbox_db \<Rightarrow> nat list" where
  "hwm_delivered db = map dl_outbox (filter (\<lambda>d. dl_relay d = ''high-water-mark'') (delivered db))"

definition relay_delivered :: "outbox_db \<Rightarrow> nat list" where
  "relay_delivered db = map dl_outbox (filter (\<lambda>d. dl_relay d \<noteq> ''high-water-mark'') (delivered db))"

subsection \<open>The abstract queue\<close>

text \<open>
  What the outbox promises: a set of waiting messages and the sequence handed on. A message enters once,
  and leaves once.
\<close>

inductive queue_step :: "nat set \<times> nat list \<Rightarrow> nat set \<times> nat list \<Rightarrow> bool" where
  idle: "queue_step q q"
| enqueue: "x \<notin> W \<Longrightarrow> x \<notin> set D \<Longrightarrow> queue_step (W, D) (insert x W, D)"
| deliver: "distinct xs \<Longrightarrow> set xs \<subseteq> W \<Longrightarrow> queue_step (W, D) (W - set xs, D @ xs)"

inductive_cases queue_stepE: "queue_step q q'"

lemma queue_step_once:
  "queue_step (W, D) (W', D') \<Longrightarrow> distinct D \<Longrightarrow> W \<inter> set D = {} \<Longrightarrow> distinct D' \<and> W' \<inter> set D' = {} \<and> W \<union> set D \<subseteq> W' \<union> set D'"
  by (elim queue_stepE) auto

definition queue_of :: "outbox_db \<Rightarrow> nat set \<times> nat list" where
  "queue_of db = (ob_id ` {r \<in> set (outbox db). unpublished r}, relay_delivered db)"

definition open_rows :: "outbox_db \<Rightarrow> outbox_row list" where
  "open_rows db = map (snd \<circ> snd) (open_tx db)"

definition lock_ok :: "outbox_row list \<Rightarrow> nat \<times> relay_label \<times> outbox_row list \<Rightarrow> bool" where
  "lock_ok rows x = (set (snd (snd x)) \<subseteq> {r \<in> set rows. unpublished r} \<and> lb_relay (fst (snd x)) \<noteq> ''high-water-mark'')"

lemma lock_ok_append [simp]: "lock_ok rows x \<Longrightarrow> lock_ok (rows @ rows2) x"
  by (auto simp: lock_ok_def)

definition ob_inv :: "outbox_db \<Rightarrow> bool" where
  "ob_inv db =
     (distinct (map ob_id (outbox db) @ map ob_id (open_rows db))
      \<and> (\<forall>r\<in>set (outbox db) \<union> set (open_rows db). ob_id r \<le> outbox_seq db)
      \<and> (\<forall>r\<in>set (open_rows db). unpublished r)
      \<and> distinct (map fst (open_tx db))
      \<and> distinct (map fst (row_locks db))
      \<and> distinct (locked_ids db)
      \<and> (\<forall>x\<in>set (row_locks db). lock_ok (outbox db) x)
      \<and> set (relay_delivered db) = ob_id ` {r \<in> set (outbox db). \<not> unpublished r})"

lemma count_stat_frame [simp]:
  "outbox (count_stat k n db) = outbox db" "open_tx (count_stat k n db) = open_tx db" "row_locks (count_stat k n db) = row_locks db"
  "delivered (count_stat k n db) = delivered db" "outbox_seq (count_stat k n db) = outbox_seq db" "mark (count_stat k n db) = mark db"
  "charge_seq (count_stat k n db) = charge_seq db" "t6_charges (count_stat k n db) = t6_charges db" "notices (count_stat k n db) = notices db"
  by (simp_all add: count_stat_def)

lemma ob_inv_cong:
  assumes "outbox db' = outbox db" "open_tx db' = open_tx db" "row_locks db' = row_locks db"
    "relay_delivered db' = relay_delivered db" "outbox_seq db' = outbox_seq db"
  shows "ob_inv db' = ob_inv db" "queue_of db' = queue_of db"
  using assms by (simp_all add: ob_inv_def queue_of_def open_rows_def locked_ids_def)

lemma ob_inv_empty: "ob_inv empty_outbox"
  by (simp add: ob_inv_def empty_outbox_def open_rows_def locked_ids_def relay_delivered_def)

lemma foldl_publish_row:
  "foldl (publish_row l now) db rows =
     db\<lparr>delivered := delivered db @ map (\<lambda>r. \<lparr>dl_run = ob_run r, dl_relay = lb_relay l, woken_by = lb_woken l, dl_outbox = ob_id r\<rparr>) rows,
        outbox := map (\<lambda>x. if ob_id x \<in> ob_id ` set rows
                           then x\<lparr>published_at := Some now, published_by := Some (lb_who l)\<rparr> else x) (outbox db)\<rparr>"
proof (induction rows arbitrary: db)
  case (Cons r rows)
  show ?case unfolding foldl_Cons Cons.IH by (auto simp: publish_row_def)
qed simp

lemma mset_map_of:
  "map_of xs k = Some v \<Longrightarrow> distinct (map fst xs) \<Longrightarrow> mset xs = add_mset (k, v) (mset (filter (\<lambda>x. fst x \<noteq> k) xs))"
proof (induction xs)
  case (Cons x xs)
  show ?case
  proof (cases "fst x = k")
    case True
    then have "filter (\<lambda>x. fst x \<noteq> k) xs = xs" using Cons.prems(2) by (metis (mono_tags, lifting) distinct.simps(2) filter_True image_eqI list.simps(9) list.set_map)
    with True Cons.prems(1) show ?thesis by (cases x) simp
  next
    case False
    then have "map_of xs k = Some v" using Cons.prems(1) by (cases x) simp
    moreover have "distinct (map fst xs)" using Cons.prems(2) by simp
    ultimately have "mset xs = add_mset (k, v) (mset (filter (\<lambda>x. fst x \<noteq> k) xs))" by (rule Cons.IH)
    with False show ?thesis by simp
  qed
qed simp

lemma mset_concat_map: "mset (concat (map h xs)) = (\<Sum>x\<in>#mset xs. mset (h x))"
  by (induction xs) auto

text \<open>The numbering of the rows, for every program that inserts and commits through an open transaction.\<close>

definition ids_ok :: "outbox_db \<Rightarrow> bool" where
  "ids_ok db = (distinct (map ob_id (outbox db) @ map ob_id (open_rows db)) \<and> distinct (map fst (open_tx db))
     \<and> (\<forall>r\<in>set (outbox db) \<union> set (open_rows db). ob_id r \<le> outbox_seq db))"

lemma ids_ok_insert:
  assumes "ids_ok db" "w \<notin> fst ` set (open_tx db)" "ob_id r = Suc (outbox_seq db)"
    and "outbox db' = outbox db" "open_tx db' = open_tx db @ [(w, ch, r)]" "outbox_seq db' = ob_id r"
  shows "ids_ok db'"
proof -
  have rows: "open_rows db' = open_rows db @ [r]" by (simp add: open_rows_def assms)
  have le: "\<forall>x\<in>set (outbox db) \<union> set (open_rows db). ob_id x \<le> outbox_seq db" using assms(1) by (simp add: ids_ok_def)
  then have "ob_id r \<notin> ob_id ` set (outbox db)" "ob_id r \<notin> ob_id ` set (open_rows db)"
    unfolding assms(3) by (metis Suc_n_not_le_n UnCI imageE)+
  moreover have "\<forall>x\<in>set (outbox db) \<union> set (open_rows db). ob_id x \<le> Suc (outbox_seq db)" using le le_SucI by blast
  ultimately show ?thesis using assms(1,2) unfolding ids_ok_def rows assms(4-6) by (simp add: assms(3))
qed

lemma ids_ok_commit:
  assumes "ids_ok db" "map_of (open_tx db) w = Some (ch, r)" "ob_id r' = ob_id r"
    and "outbox db' = outbox db @ [r']" "open_tx db' = filter (\<lambda>x. fst x \<noteq> w) (open_tx db)" "outbox_seq db' = outbox_seq db"
  shows "ids_ok db' \<and> set (open_rows db) = insert r (set (open_rows db'))"
proof -
  have "mset (open_tx db) = add_mset (w, ch, r) (mset (open_tx db'))"
    using mset_map_of [OF assms(2)] assms(1) by (simp add: assms(5) ids_ok_def)
  then have ms: "mset (open_rows db) = add_mset r (mset (open_rows db'))" unfolding open_rows_def mset_map by simp
  then have "mset (map ob_id (outbox db) @ map ob_id (open_rows db)) = mset (map ob_id (outbox db) @ ob_id r # map ob_id (open_rows db'))"
    by simp
  then have "distinct (map ob_id (outbox db) @ ob_id r # map ob_id (open_rows db'))"
    using assms(1) mset_eq_imp_distinct_iff unfolding ids_ok_def by blast
  moreover have set: "set (open_rows db) = insert r (set (open_rows db'))" using arg_cong [OF ms, of set_mset] by simp
  ultimately show ?thesis using assms(1,3) unfolding ids_ok_def assms(4,6) by (auto simp: assms(5) distinct_map_filter)
qed

lemma ids_ok_abort:
  assumes "ids_ok db"
  shows "ids_ok (writer_abort w db) \<and> set (open_rows (writer_abort w db)) \<subseteq> set (open_rows db)"
proof -
  let ?open = "filter (\<lambda>x. fst x \<noteq> w) (open_tx db)"
  have "distinct (map ob_id (map (snd \<circ> snd) ?open))" "set (map (snd \<circ> snd) ?open) \<subseteq> set (open_rows db)"
    using assms by (auto simp: ids_ok_def open_rows_def distinct_map_filter)
  then show ?thesis using assms
    by (auto simp: ids_ok_def writer_abort_def open_rows_def distinct_map_filter)
qed

subsection \<open>Every event is a step of the queue\<close>

lemma insert_refines:
  assumes "ob_inv db"
  shows "ob_inv (writer_insert w run amount db) \<and> queue_of (writer_insert w run amount db) = queue_of db"
proof (cases "w \<in> fst ` set (open_tx db)")
  case False
  let ?db = "writer_insert w run amount db"
  obtain ch r where new: "open_tx ?db = open_tx db @ [(w, ch, r)]" "ob_id r = Suc (outbox_seq db)" "unpublished r"
    and same: "outbox ?db = outbox db" "row_locks ?db = row_locks db" "delivered ?db = delivered db"
      "outbox_seq ?db = Suc (outbox_seq db)"
    using False by (simp add: writer_insert_def Let_def unpublished_def)
  have rows: "open_rows ?db = open_rows db @ [r]" "locked_ids ?db = locked_ids db" "relay_delivered ?db = relay_delivered db"
    using new same by (simp_all add: open_rows_def locked_ids_def relay_delivered_def)
  have le: "\<forall>x\<in>set (outbox db) \<union> set (open_rows db). ob_id x \<le> outbox_seq db" using assms by (simp add: ob_inv_def)
  then have "ob_id r \<notin> ob_id ` set (outbox db)" "ob_id r \<notin> ob_id ` set (open_rows db)"
    unfolding new(2) by (metis Suc_n_not_le_n UnCI imageE)+
  moreover have "\<forall>x\<in>set (outbox db) \<union> set (open_rows db). ob_id x \<le> Suc (outbox_seq db)" using le le_SucI by blast
  ultimately have "ob_inv ?db"
    using assms False unfolding ob_inv_def rows same new(1) by (simp add: new(2,3))
  then show ?thesis by (simp add: queue_of_def same rows)
qed (use assms in \<open>simp add: writer_insert_def\<close>)

lemma abort_refines:
  assumes "ob_inv db"
  shows "ob_inv (writer_abort w db) \<and> queue_of (writer_abort w db) = queue_of db"
proof -
  let ?open = "filter (\<lambda>x. fst x \<noteq> w) (open_tx db)"
  have "distinct (map ob_id (map (snd \<circ> snd) ?open))" "set (map (snd \<circ> snd) ?open) \<subseteq> set (open_rows db)"
    using assms by (auto simp: ob_inv_def open_rows_def distinct_map_filter)
  then show ?thesis using assms
    by (auto simp: ob_inv_def writer_abort_def open_rows_def locked_ids_def relay_delivered_def queue_of_def distinct_map_filter)
qed

lemma commit_refines:
  assumes "ob_inv db"
  shows "ob_inv (writer_commit w now db) \<and> queue_step (queue_of db) (queue_of (writer_commit w now db))"
proof (cases "map_of (open_tx db) w")
  case (Some v)
  obtain ch r where v: "v = (ch, r)" by (cases v)
  let ?db = "writer_commit w now db" let ?r = "r\<lparr>committed_at := Some now\<rparr>"
  have same: "outbox ?db = outbox db @ [?r]" "row_locks ?db = row_locks db" "delivered ?db = delivered db"
      "outbox_seq ?db = outbox_seq db" and op: "open_tx ?db = filter (\<lambda>x. fst x \<noteq> w) (open_tx db)"
    using Some v by (simp_all add: writer_commit_def)
  have rows: "locked_ids ?db = locked_ids db" "relay_delivered ?db = relay_delivered db"
    using same by (simp_all add: locked_ids_def relay_delivered_def)
  have "mset (open_tx db) = add_mset (w, ch, r) (mset (open_tx ?db))"
    using mset_map_of [OF Some] assms v by (simp add: op ob_inv_def)
  then have ms: "mset (open_rows db) = add_mset r (mset (open_rows ?db))"
    unfolding open_rows_def mset_map by simp
  then have "mset (map ob_id (outbox db) @ map ob_id (open_rows db)) = mset (map ob_id (outbox db) @ ob_id r # map ob_id (open_rows ?db))"
    by simp
  then have dist: "distinct (map ob_id (outbox db) @ ob_id r # map ob_id (open_rows ?db))"
    using assms mset_eq_imp_distinct_iff unfolding ob_inv_def by blast
  have set: "set (open_rows db) = insert r (set (open_rows ?db))" using arg_cong [OF ms, of set_mset] by simp
  have unp: "unpublished ?r" "ob_id ?r = ob_id r" using assms set by (simp_all add: ob_inv_def unpublished_def)
  have "ob_inv ?db"
    using assms dist set unp unfolding ob_inv_def rows same
    by (auto simp: op distinct_map_filter unpublished_def)
  moreover have "{x \<in> set (outbox db @ [?r]). unpublished x} = insert ?r {x \<in> set (outbox db). unpublished x}"
    using unp(1) by auto
  then have "queue_of ?db = (insert (ob_id r) (fst (queue_of db)), relay_delivered db)"
    unfolding queue_of_def rows same by (simp add: unp(2))
  moreover have "ob_id r \<notin> fst (queue_of db)" using dist by (auto simp: queue_of_def)
  moreover have "ob_id r \<notin> set (relay_delivered db)" using dist assms by (auto simp: ob_inv_def)
  ultimately show ?thesis using enqueue [of "ob_id r" "fst (queue_of db)" "relay_delivered db"] by (simp add: queue_of_def)
qed (use assms in \<open>simp add: writer_commit_def idle\<close>)

lemma claim_refines:
  assumes "ob_inv db" "lb_relay l \<noteq> ''high-water-mark''"
  shows "ob_inv (claim_rows i l batch db) \<and> queue_of (claim_rows i l batch db) = queue_of db"
proof (cases "i \<in> fst ` set (row_locks db)")
  case False
  let ?db = "claim_rows i l batch db" let ?rows = "take batch (claimable l db)"
  have same: "outbox ?db = outbox db" "open_tx ?db = open_tx db" "delivered ?db = delivered db"
      "outbox_seq ?db = outbox_seq db" "row_locks ?db = (i, l, ?rows) # row_locks db"
    using False by (simp_all add: claim_rows_def)
  have sub: "set ?rows \<subseteq> {r \<in> set (outbox db). unpublished r \<and> ob_id r \<notin> set (locked_ids db)}"
  proof -
    have "set ?rows \<subseteq> set (claimable l db)" by (rule set_take_subset)
    moreover have "set (claimable l db) \<subseteq> {r \<in> set (outbox db). unpublished r \<and> ob_id r \<notin> set (locked_ids db)}"
      by (auto simp: claimable_def)
    ultimately show ?thesis by (rule order_trans)
  qed
  have "distinct (map ob_id (outbox db))" using assms by (simp add: ob_inv_def)
  then have "distinct (map ob_id (claimable l db))" unfolding claimable_def by (auto simp: distinct_map inj_on_def)
  then have "distinct (map ob_id ?rows)" by (simp add: take_map [symmetric])
  moreover have "set (map ob_id ?rows) \<inter> set (locked_ids db) = {}" using sub by auto
  moreover have "distinct (locked_ids db)" using assms(1) by (simp add: ob_inv_def)
  ultimately have locked: "locked_ids ?db = map ob_id ?rows @ locked_ids db" "distinct (map ob_id ?rows @ locked_ids db)"
    by (simp_all add: locked_ids_def same)
  have rest: "open_rows ?db = open_rows db" "relay_delivered ?db = relay_delivered db"
    by (simp_all add: open_rows_def relay_delivered_def same)
  have "lock_ok (outbox db) (i, l, ?rows)" using assms(2) sub by (auto simp: lock_ok_def)
  then have "\<forall>x\<in>set ((i, l, ?rows) # row_locks db). lock_ok (outbox db) x" using assms(1) by (simp add: ob_inv_def)
  moreover have "distinct (map fst ((i, l, ?rows) # row_locks db))" using assms(1) False by (simp add: ob_inv_def)
  ultimately have "ob_inv ?db" using assms(1) locked(2) unfolding ob_inv_def locked(1) rest same by (elim conjE) (intro conjI)
  then show ?thesis by (simp add: queue_of_def same rest)
qed (use assms in \<open>simp add: claim_rows_def\<close>)

lemma unlock_refines:
  assumes "ob_inv db"
  shows "ob_inv (unlock i db) \<and> queue_of (unlock i db) = queue_of db"
proof -
  let ?db = "unlock i db"
  have same: "outbox ?db = outbox db" "open_tx ?db = open_tx db" "delivered ?db = delivered db"
      "outbox_seq ?db = outbox_seq db" "row_locks ?db = filter (\<lambda>x. fst x \<noteq> i) (row_locks db)"
    by (simp_all add: unlock_def)
  have "distinct (concat (map h xs)) \<Longrightarrow> distinct (concat (map h (filter P xs)))" for h :: "nat \<times> relay_label \<times> outbox_row list \<Rightarrow> nat list" and P xs
    by (induction xs) (auto split: if_splits)
  then have "distinct (locked_ids ?db)" using assms by (simp add: locked_ids_def same ob_inv_def)
  moreover have rest: "open_rows ?db = open_rows db" "relay_delivered ?db = relay_delivered db"
    by (simp_all add: open_rows_def relay_delivered_def same)
  ultimately have "ob_inv ?db" using assms unfolding ob_inv_def rest same by (simp add: distinct_map_filter)
  then show ?thesis by (simp add: queue_of_def same rest)
qed

lemma publish_refines:
  assumes "ob_inv db"
  shows "ob_inv (publish_batch i now db) \<and> queue_step (queue_of db) (queue_of (publish_batch i now db))"
proof (cases "map_of (row_locks db) i")
  case (Some v)
  obtain l rows where v: "v = (l, rows)" by (cases v)
  let ?db = "publish_batch i now db" let ?ids = "map ob_id rows"
  define mk :: "outbox_row \<Rightarrow> outbox_row" where "mk = (\<lambda>x. if ob_id x \<in> ob_id ` set rows then x\<lparr>published_at := Some now, published_by := Some (lb_who l)\<rparr> else x)"
  let ?rest = "filter (\<lambda>x. fst x \<noteq> i) (row_locks db)"
  have same: "outbox ?db = map mk (outbox db)" "open_tx ?db = open_tx db" "outbox_seq ?db = outbox_seq db"
      "row_locks ?db = ?rest"
      "delivered ?db = delivered db @ map (\<lambda>r. \<lparr>dl_run = ob_run r, dl_relay = lb_relay l, woken_by = lb_woken l, dl_outbox = ob_id r\<rparr>) rows"
    using Some v by (simp_all add: publish_batch_def foldl_publish_row unlock_def mk_def)
  have locks: "\<forall>x\<in>set (row_locks db). lock_ok (outbox db) x" "distinct (map fst (row_locks db))"
    and ids: "distinct (map ob_id (outbox db))" using assms by (simp_all add: ob_inv_def)
  have mine: "lock_ok (outbox db) (i, l, rows)" using locks(1) map_of_SomeD [OF Some] v by blast
  have ms: "mset (row_locks db) = add_mset (i, l, rows) (mset ?rest)" using mset_map_of [OF Some locks(2)] v by simp
  have "mset (locked_ids db) = mset (?ids @ locked_ids ?db)"
    unfolding locked_ids_def same mset_append mset_concat_map by (subst ms) simp
  then have held: "distinct (?ids @ locked_ids ?db)"
    using assms mset_eq_imp_distinct_iff unfolding ob_inv_def by blast
  have mark: "ob_id (mk x) = ob_id x" "unpublished (mk x) \<longleftrightarrow> unpublished x \<and> ob_id x \<notin> set ?ids" for x
    by (simp_all add: unpublished_def mk_def)
  have deliv: "relay_delivered ?db = relay_delivered db @ ?ids"
    using mine by (simp add: relay_delivered_def same lock_ok_def comp_def)
  have rows: "open_rows ?db = open_rows db" by (simp add: open_rows_def same)
  have im: "ob_id ` {x \<in> set (outbox ?db). Q x} = ob_id ` {x \<in> set (outbox db). Q (mk x)}" for Q
  proof -
    have "{x \<in> set (outbox ?db). Q x} = mk ` {x \<in> set (outbox db). Q (mk x)}" unfolding same set_map by auto
    then show ?thesis by (simp add: image_image mark(1))
  qed
  have unp: "ob_id ` {x \<in> set (outbox ?db). unpublished x} = ob_id ` {x \<in> set (outbox db). unpublished x} - set ?ids"
    unfolding im by (auto simp: mark)
  have pub: "ob_id ` {x \<in> set (outbox ?db). \<not> unpublished x} = ob_id ` {x \<in> set (outbox db). \<not> unpublished x} \<union> set ?ids"
  proof -
    have "set rows \<subseteq> {x \<in> set (outbox db). \<not> unpublished (mk x)}" using mine by (auto simp: lock_ok_def mark)
    then have "set ?ids \<subseteq> ob_id ` {x \<in> set (outbox db). \<not> unpublished (mk x)}" by auto
    then show ?thesis unfolding im by (auto simp: mark)
  qed
  have "lock_ok (outbox ?db) x" if "x \<in> set ?rest" for x
  proof -
    have "set (map ob_id (snd (snd x))) \<subseteq> set (locked_ids ?db)" using that by (auto simp: locked_ids_def same)
    then have apart: "set (map ob_id (snd (snd x))) \<inter> set ?ids = {}" using held by auto
    have ok: "lock_ok (outbox db) x" using locks(1) that by simp
    have "r \<in> mk ` set (outbox db) \<and> unpublished r" if r: "r \<in> set (snd (snd x))" for r
    proof -
      from r apart have "mk r = r" by (auto simp: mk_def)
      moreover have "r \<in> set (outbox db)" "unpublished r" using ok r by (auto simp: lock_ok_def)
      ultimately show ?thesis by (metis imageI)
    qed
    with ok show ?thesis unfolding lock_ok_def same set_map by blast
  qed
  then have lk: "\<forall>x\<in>set (row_locks ?db). lock_ok (outbox ?db) x" by (simp add: same(4))
  have idsame: "map ob_id (outbox ?db) = map ob_id (outbox db)" by (simp add: same(1) mark(1))
  have le: "\<forall>r\<in>set (outbox ?db) \<union> set (open_rows db). ob_id r \<le> outbox_seq db"
    using assms unfolding ob_inv_def same(1) by (auto simp: mark(1))
  have dl: "distinct (map fst (row_locks ?db))" using locks(2) by (simp add: same(4) distinct_map_filter)
  have acc: "set (relay_delivered db @ ?ids) = ob_id ` {r \<in> set (outbox db). \<not> unpublished r} \<union> set ?ids"
    using assms by (simp add: ob_inv_def)
  have "ob_inv ?db"
    using assms held lk le dl acc unfolding ob_inv_def deliv pub rows idsame same(2,3) by (elim conjE) (intro conjI, simp_all)
  moreover have "queue_step (queue_of db) (queue_of ?db)"
  proof -
    have "set ?ids \<subseteq> ob_id ` {x \<in> set (outbox db). unpublished x}" using mine by (auto simp: lock_ok_def)
    from deliver [OF _ this, of "relay_delivered db"] show ?thesis
      unfolding queue_of_def unp deliv using held by simp
  qed
  ultimately show ?thesis ..
qed (use assms in \<open>simp add: publish_batch_def idle\<close>)

lemma ob_step_refines:
  assumes "ob_inv db"
  shows "ob_inv (ob_step ev db) \<and> queue_step (queue_of db) (queue_of (ob_step ev db))"
proof -
  have notice: "ob_inv (b\<lparr>notices := n\<rparr>) = ob_inv b" "queue_of (b\<lparr>notices := n\<rparr>) = queue_of b" for b n
    by (rule ob_inv_cong; simp add: relay_delivered_def)+
  have count_stat: "ob_inv (count_stat k n b) = ob_inv b" "queue_of (count_stat k n b) = queue_of b" for k n b
    by (rule ob_inv_cong; simp add: relay_delivered_def)+
  show ?thesis
  proof (cases ev)
    case (Mark_poll run batch)
    have "ob_inv (relay_high_water_mark run batch db) = ob_inv db"
      "queue_of (relay_high_water_mark run batch db) = queue_of db"
      by (rule ob_inv_cong; simp add: relay_high_water_mark_def Let_def relay_delivered_def)+
    with assms Mark_poll show ?thesis by (simp add: idle)
  next
    case (Notified i who batch drop_rate rnd)
    have "ob_inv (listener i who batch drop_rate rnd db) \<and> queue_of (listener i who batch drop_rate rnd db) = queue_of db"
      using assms claim_refines [of "(count_stat ''notify_wakeups'' 1 db)\<lparr>notices := 0\<rparr>" "outbox_relay_label who ''notify''" i batch]
      by (simp add: listener_def notice count_stat outbox_relay_label_def)
    with Notified show ?thesis by (simp add: idle)
  next
    case (Tick i who batch)
    have "ob_inv (poller i who batch db) \<and> queue_of (poller i who batch db) = queue_of db"
      using assms claim_refines [of "count_stat ''poll_wakeups'' 1 db" "outbox_relay_label who ''poll''" i batch]
      by (simp add: poller_def count_stat outbox_relay_label_def)
    with Tick show ?thesis by (simp add: idle)
  next
    case (Claim i run who batch)
    with claim_refines [OF assms, of "skip_locked_label run who" i batch] show ?thesis
      by (simp add: skip_locked_label_def idle)
  qed (use assms insert_refines commit_refines abort_refines publish_refines unlock_refines in \<open>simp_all add: idle\<close>)
qed

lemma outbox_run_snoc [simp]: "outbox_run (evs @ [e]) db = ob_step e (outbox_run evs db)"
  by (simp add: outbox_run_def)

lemma ob_inv_run: "ob_inv db \<Longrightarrow> ob_inv (outbox_run evs db)"
proof (induction evs rule: rev_induct)
  case (snoc e evs)
  then show ?case using ob_step_refines by simp
qed (simp add: outbox_run_def)

text \<open>
  C4. The relays that ask for unpublished rows implement the abstract queue: in every interleaving of writers,
  commits, rollbacks, claims, wake-ups and crashes each event is a step of the queue, nothing is handed on twice,
  and a committed row has been handed on exactly when it is marked published.
\<close>

theorem relays_refine_queue:
  "queue_step (queue_of (outbox_run evs empty_outbox)) (queue_of (outbox_run (evs @ [ev]) empty_outbox))
   \<and> distinct (relay_delivered (outbox_run evs empty_outbox))
   \<and> (\<forall>r\<in>set (outbox (outbox_run evs empty_outbox)).
        ob_id r \<in> set (relay_delivered (outbox_run evs empty_outbox)) \<longleftrightarrow> \<not> unpublished r)"
proof -
  let ?db = "outbox_run evs empty_outbox"
  have inv: "ob_inv ?db" by (rule ob_inv_run [OF ob_inv_empty])
  have once: "distinct (snd (queue_of (outbox_run evs empty_outbox)))
      \<and> fst (queue_of (outbox_run evs empty_outbox)) \<inter> set (snd (queue_of (outbox_run evs empty_outbox))) = {}"
  proof (induction evs rule: rev_induct)
    case Nil
    show ?case by (simp add: outbox_run_def queue_of_def empty_outbox_def relay_delivered_def)
  next
    case (snoc e evs)
    have "queue_step (queue_of (outbox_run evs empty_outbox)) (queue_of (outbox_run (evs @ [e]) empty_outbox))"
      using ob_step_refines [OF ob_inv_run [OF ob_inv_empty]] by simp
    then show ?case using snoc.IH queue_step_once by (metis prod.collapse)
  qed
  have acc: "set (relay_delivered ?db) = ob_id ` {r \<in> set (outbox ?db). \<not> unpublished r}" using inv by (simp add: ob_inv_def)
  have "inj_on ob_id (set (outbox ?db))" using inv by (simp add: ob_inv_def distinct_map)
  then have "\<forall>r\<in>set (outbox ?db). ob_id r \<in> set (relay_delivered ?db) \<longleftrightarrow> \<not> unpublished r"
    unfolding acc by (auto simp: inj_on_def)
  moreover have "queue_step (queue_of ?db) (queue_of (outbox_run (evs @ [ev]) empty_outbox))"
    using ob_step_refines [OF inv] by simp
  moreover have "distinct (relay_delivered ?db)" using once by (simp add: queue_of_def)
  ultimately show ?thesis by blast
qed

subsection \<open>The mark and the rows behind it\<close>

lemma mark_after: "m \<le> foldl (\<lambda>m r. max m (ob_id r)) m rows"
proof (induction rows arbitrary: m)
  case (Cons r rows)
  have "m \<le> max m (ob_id r)" by simp
  also have "\<dots> \<le> foldl (\<lambda>m r. max m (ob_id r)) (max m (ob_id r)) rows" by (rule Cons.IH)
  finally show ?case by simp
qed simp

definition mark_keeps :: "outbox_db \<Rightarrow> outbox_db \<Rightarrow> bool" where
  "mark_keeps db db' = (mark db \<le> mark db' \<and> (\<forall>i\<in>set (hwm_delivered db'). i \<in> set (hwm_delivered db) \<or> mark db < i)
     \<and> ob_id ` set (outbox db) \<subseteq> ob_id ` set (outbox db'))"

lemma mark_keeps_frame:
  "mark db' = mark db \<Longrightarrow> delivered db' = delivered db \<Longrightarrow> outbox db' = outbox db \<Longrightarrow> mark_keeps db db'"
  by (simp add: mark_keeps_def hwm_delivered_def)

lemma claim_frame [simp]:
  "mark (claim_rows i l batch db) = mark db" "delivered (claim_rows i l batch db) = delivered db" "outbox (claim_rows i l batch db) = outbox db"
  by (simp_all add: claim_rows_def)

lemma publish_keeps:
  assumes "ob_inv db"
  shows "mark_keeps db (publish_batch i now db)"
proof (cases "map_of (row_locks db) i")
  case (Some v)
  obtain l rows where v: "v = (l, rows)" by (cases v)
  have "lock_ok (outbox db) (i, l, rows)" using assms map_of_SomeD [OF Some] v by (auto simp: ob_inv_def)
  then have "hwm_delivered (publish_batch i now db) = hwm_delivered db"
    using Some v by (simp add: hwm_delivered_def publish_batch_def foldl_publish_row unlock_def lock_ok_def comp_def)
  moreover have "mark (publish_batch i now db) = mark db"
    using Some v by (simp add: publish_batch_def foldl_publish_row unlock_def)
  moreover have "map ob_id (outbox (publish_batch i now db)) = map ob_id (outbox db)"
    using Some v by (simp add: publish_batch_def foldl_publish_row unlock_def)
  then have "ob_id ` set (outbox (publish_batch i now db)) = ob_id ` set (outbox db)" by (metis list.set_map)
  ultimately show ?thesis by (simp add: mark_keeps_def)
qed (simp add: mark_keeps_def publish_batch_def)

lemma poll_keeps: "mark_keeps db (relay_high_water_mark run batch db)"
proof -
  have "set (hwm_rows run batch db) \<subseteq> set (sort_key ob_id (filter (\<lambda>r. ob_run r = run \<and> mark db < ob_id r) (outbox db)))"
    unfolding hwm_rows_def by (rule set_take_subset)
  then have "\<forall>r\<in>set (hwm_rows run batch db). mark db < ob_id r" by auto
  then show ?thesis
    by (auto simp: mark_keeps_def relay_high_water_mark_def Let_def hwm_delivered_def mark_after comp_def)
qed

lemma ob_step_mark: "ob_inv db \<Longrightarrow> mark_keeps db (ob_step ev db)"
proof (cases ev)
  case (Commit w now)
  then show ?thesis by (auto simp: writer_commit_def mark_keeps_def hwm_delivered_def split: option.splits)
next
  case (Notified i who batch drop_rate rnd)
  then show ?thesis by (simp add: listener_def mark_keeps_frame)
qed (auto simp: writer_insert_def Let_def writer_abort_def poller_def unlock_def poll_keeps publish_keeps intro!: mark_keeps_frame)

lemma mark_keeps_trans: "mark_keeps a b \<Longrightarrow> mark_keeps b c \<Longrightarrow> mark_keeps a c"
  unfolding mark_keeps_def by (meson order_le_less_trans order_trans)

lemma outbox_run_mark: "ob_inv db \<Longrightarrow> mark_keeps db (outbox_run evs db)"
proof (induction evs rule: rev_induct)
  case (snoc e evs)
  then show ?case using ob_step_mark [OF ob_inv_run [OF snoc.prems]] mark_keeps_trans by simp
qed (simp add: outbox_run_def mark_keeps_def)

lemma outbox_run_append: "outbox_run (xs @ ys) db = outbox_run ys (outbox_run xs db)"
  by (simp add: outbox_run_def)

text \<open>
  The high-water mark is irreversible: a row the mark has passed without delivering it is never delivered,
  whatever happens afterwards. The witness is the inversion the program provokes, where the lower id commits
  second.
\<close>

theorem hwm_skips_forever:
  assumes "i \<le> mark (outbox_run evs empty_outbox)" "i \<notin> set (hwm_delivered (outbox_run evs empty_outbox))"
  shows "i \<notin> set (hwm_delivered (outbox_run (evs @ later) empty_outbox))
    \<and> ob_id ` set (outbox (outbox_run evs empty_outbox)) \<subseteq> ob_id ` set (outbox (outbox_run (evs @ later) empty_outbox))"
proof -
  have "mark_keeps (outbox_run evs empty_outbox) (outbox_run (evs @ later) empty_outbox)"
    unfolding outbox_run_append by (rule outbox_run_mark [OF ob_inv_run [OF ob_inv_empty]])
  with assms show ?thesis unfolding mark_keeps_def by (meson not_le)
qed

definition inversion :: "ob_event list" where
  "inversion = [Insert 0 ''t6'' 100, Insert 1 ''t6'' 200, Commit 1 10, Mark_poll ''t6'' 20, Commit 0 20]"

theorem hwm_skips_forever_witness:
  "\<forall>later. 1 \<in> ob_id ` set (outbox (outbox_run (inversion @ later) empty_outbox))
     \<and> 1 \<notin> set (hwm_delivered (outbox_run (inversion @ later) empty_outbox))"
proof
  fix later
  have run: "mark (outbox_run inversion empty_outbox) = 2" "hwm_delivered (outbox_run inversion empty_outbox) = [2]"
    "1 \<in> ob_id ` set (outbox (outbox_run inversion empty_outbox))"
    by (simp_all add: outbox_run_def inversion_def empty_outbox_def writer_insert_def writer_commit_def
        relay_high_water_mark_def hwm_rows_def hwm_delivered_def count_stat_def Let_def)
  have "(1::nat) \<le> mark (outbox_run inversion empty_outbox)" "1 \<notin> set (hwm_delivered (outbox_run inversion empty_outbox))"
    unfolding run by simp_all
  from hwm_skips_forever [OF this] run(3)
  show "1 \<in> ob_id ` set (outbox (outbox_run (inversion @ later) empty_outbox))
     \<and> 1 \<notin> set (hwm_delivered (outbox_run (inversion @ later) empty_outbox))" by blast
qed

definition published_both :: "ob_event list" where
  "published_both = [Insert 0 ''t6'' 100, Insert 1 ''t6'' 200, Commit 1 10, Claim 7 ''t6'' ''relay-0'' 20, Commit 0 20,
     Tick 8 ''relay-a'' 100, Publish 7 30, Publish 8 40]"

theorem relays_refine_queue_witness:
  "relay_delivered (outbox_run published_both empty_outbox) = [2, 1]
   \<and> filter unpublished (outbox (outbox_run published_both empty_outbox)) = []
   \<and> distinct (relay_delivered (outbox_run published_both empty_outbox))"
proof -
  have run: "relay_delivered (outbox_run published_both empty_outbox) = [2, 1]"
    "ob_id ` set (outbox (outbox_run published_both empty_outbox)) = {1, 2}"
    by (auto simp: published_both_def outbox_run_def empty_outbox_def writer_insert_def writer_commit_def claim_rows_def
        claimable_def skip_locked_label_def unpublished_def locked_ids_def poller_def outbox_relay_label_def count_stat_def
        publish_batch_def publish_row_def unlock_def relay_delivered_def Let_def)
  have "\<forall>r\<in>set (outbox (outbox_run published_both empty_outbox)). ob_id r \<in> {1, 2}" using run(2) by blast
  with relays_refine_queue [of published_both "Relay_dies 0"] show ?thesis
    unfolding run(1) by (auto simp: filter_empty_conv)
qed

subsection \<open>Draining\<close>

definition backlog :: "string \<Rightarrow> outbox_db \<Rightarrow> nat" where
  "backlog run db = length (filter (\<lambda>r. ob_run r = run \<and> unpublished r) (outbox db))"

definition rounds :: "nat \<Rightarrow> nat \<Rightarrow> string \<Rightarrow> string \<Rightarrow> nat \<Rightarrow> int \<Rightarrow> ob_event list" where
  "rounds n i run who batch now = concat (replicate n [Claim i run who batch, Publish i now])"

lemma round_drains:
  assumes "ob_inv db" "row_locks db = []"
  shows "row_locks (outbox_run [Claim i run who batch, Publish i now] db) = []
    \<and> backlog run (outbox_run [Claim i run who batch, Publish i now] db) = backlog run db - batch"
proof -
  let ?l = "skip_locked_label run who" let ?rows = "take batch (claimable ?l db)"
  let ?db = "outbox_run [Claim i run who batch, Publish i now] db"
  define mk :: "outbox_row \<Rightarrow> outbox_row" where "mk = (\<lambda>x. if ob_id x \<in> ob_id ` set ?rows
    then x\<lparr>published_at := Some now, published_by := Some who\<rparr> else x)"
  define P :: "outbox_row \<Rightarrow> bool" where "P = (\<lambda>r. ob_run r = run \<and> unpublished r)"
  have cl: "claimable ?l db = sort_key ob_id (filter P (outbox db))"
    using assms(2) by (simp add: claimable_def locked_ids_def skip_locked_label_def P_def)
  have after: "outbox ?db = map mk (outbox db)" "row_locks ?db = []"
    using assms(2) by (simp_all add: outbox_run_def claim_rows_def publish_batch_def foldl_publish_row unlock_def
        skip_locked_label_def mk_def)
  have ids: "distinct (map ob_id (outbox db))" using assms(1) by (simp add: ob_inv_def)
  have rows: "set ?rows \<subseteq> set (filter P (outbox db))" using set_take_subset [of batch "claimable ?l db"] cl by auto
  have "distinct (map ob_id (claimable ?l db))" using ids unfolding cl by (auto simp: distinct_map inj_on_def)
  then have rd: "distinct (map ob_id ?rows)" by (simp add: take_map [symmetric])
  have eq: "P (mk x) \<longleftrightarrow> P x \<and> ob_id x \<notin> ob_id ` set ?rows" for x by (simp add: P_def mk_def unpublished_def)
  have "length (filter P (outbox ?db)) = length (filter (\<lambda>x. ob_id x \<notin> ob_id ` set ?rows) (filter P (outbox db)))"
    by (simp add: after filter_map comp_def eq conj_commute)
  also have "\<dots> = length (filter P (outbox db)) - length (filter (\<lambda>x. ob_id x \<in> ob_id ` set ?rows) (filter P (outbox db)))"
    using sum_length_filter_compl [of "\<lambda>x. ob_id x \<in> ob_id ` set ?rows" "filter P (outbox db)"] by simp
  also have "length (filter (\<lambda>x. ob_id x \<in> ob_id ` set ?rows) (filter P (outbox db))) = length ?rows"
  proof -
    let ?h = "filter (\<lambda>x. ob_id x \<in> ob_id ` set ?rows) (filter P (outbox db))"
    have "distinct (map ob_id ?h)" using ids by (simp add: distinct_map_filter)
    moreover have "set (map ob_id ?h) = set (map ob_id ?rows)" using rows by auto
    ultimately show ?thesis using rd by (metis distinct_card length_map)
  qed
  also have "length ?rows = min batch (length (filter P (outbox db)))" by (simp add: cl min.commute)
  finally show ?thesis using after by (simp add: backlog_def P_def)
qed

text \<open>
  Without a mark nothing stays behind: as soon as no claim is open, every pass of one relay takes a whole
  batch off the backlog, so enough passes publish every committed row of the run. No notification is needed.
\<close>

theorem skip_locked_drains:
  assumes "row_locks (outbox_run evs empty_outbox) = []"
  shows "backlog run (outbox_run (evs @ rounds n i run who batch now) empty_outbox)
       = backlog run (outbox_run evs empty_outbox) - n * batch"
proof -
  let ?db = "outbox_run evs empty_outbox"
  have "row_locks (outbox_run (rounds n i run who batch now) db) = [] \<and>
     backlog run (outbox_run (rounds n i run who batch now) db) = backlog run db - n * batch"
    if "ob_inv db" "row_locks db = []" for db
    using that
  proof (induction n arbitrary: db)
    case (Suc n)
    let ?db = "outbox_run [Claim i run who batch, Publish i now] db"
    have "rounds (Suc n) i run who batch now = [Claim i run who batch, Publish i now] @ rounds n i run who batch now"
      by (simp add: rounds_def)
    then have "outbox_run (rounds (Suc n) i run who batch now) db = outbox_run (rounds n i run who batch now) ?db"
      by (simp only: outbox_run_append)
    with Suc.IH [OF ob_inv_run [OF Suc.prems(1)]] round_drains [OF Suc.prems] show ?case by simp
  qed (simp add: rounds_def outbox_run_def)
  from this [OF ob_inv_run [OF ob_inv_empty] assms] show ?thesis by (simp add: outbox_run_append)
qed

theorem skip_locked_drains_witness:
  "backlog ''t6'' (outbox_run (inversion @ rounds 1 7 ''t6'' ''relay-0'' 20 30) empty_outbox) = 0
   \<and> backlog ''t6'' (outbox_run inversion empty_outbox) = 2"
proof -
  have two: "backlog ''t6'' (outbox_run inversion empty_outbox) = 2" "row_locks (outbox_run inversion empty_outbox) = []"
    by (simp_all add: backlog_def unpublished_def outbox_run_def inversion_def empty_outbox_def writer_insert_def
        writer_commit_def relay_high_water_mark_def hwm_rows_def count_stat_def Let_def)
  from skip_locked_drains [OF two(2), of "''t6''" 1 7 "''relay-0''" 20 30] two show ?thesis by simp
qed

end
