(* ===== verification/Dist_Events.thy ===== *)
theory Dist_Events
  imports Dist_Outbox
begin

text \<open>
  The event pipeline of \<^verbatim>\<open>04-distributed/docker/services/app\<close>: \<^verbatim>\<open>payments6.py\<close> charges and emits (by a dual
  write or through the outbox), \<^verbatim>\<open>relay6.py\<close> publishes the outbox to a broker and consumes the topic on the
  other side. The broker is an append-only list of messages; what a delivery report says about each message
  is chosen by the environment, as is where a process dies.
\<close>

record pipeline =
  base :: outbox_db
  broker :: "json list"
  acks :: "(nat \<times> nat list) list"
  failures :: "(string \<times> string \<times> nat \<times> string) list"
  effects :: "(string \<times> string \<times> int) list"
  position :: nat

definition obj_get :: "string \<Rightarrow> json \<Rightarrow> json option" where
  "obj_get k j = (case j of JObj kvs \<Rightarrow> map_of kvs k | _ \<Rightarrow> None)"

definition obj_put :: "string \<Rightarrow> json \<Rightarrow> json \<Rightarrow> json" where
  "obj_put k v j = (case j of JObj kvs \<Rightarrow> JObj (filter (\<lambda>kv. fst kv \<noteq> k) kvs @ [(k, v)]) | _ \<Rightarrow> JObj [(k, v)])"

definition event_body :: "nat \<Rightarrow> string \<Rightarrow> json" where
  "event_body cid run = JObj [(''charge_id'', JInt (int cid)), (''run_id'', JStr run)]"

subsection \<open>The payments service\<close>

text \<open>What became of one produced message: whether it reached the broker and what the report said.\<close>

datatype send_result =
    Acked
  | Landed_unacked string
  | Lost string
  | Produce_raised string

fun landed :: "send_result \<Rightarrow> bool" where
  "landed Acked = True"
| "landed (Landed_unacked _) = True"
| "landed _ = False"

fun is_acked :: "send_result \<Rightarrow> bool" where
  "is_acked Acked = True"
| "is_acked _ = False"

text \<open>
  \<^verbatim>\<open>MODE=v0\<close>: the charge commits first, then the publish is attempted. \<open>logged\<close> is false when the insert into the
  failure table fails too. The answer is the status code with the status text and the charge.
\<close>

definition charge_v0 :: "string \<Rightarrow> pipeline \<Rightarrow> nat \<times> pipeline" where
  "charge_v0 run p =
     (let cid = Suc (charge_seq (base p)) in
      (cid, p\<lparr>base := (base p)\<lparr>charge_seq := cid, t6_charges := t6_charges (base p) @ [(cid, run, 100)]\<rparr>\<rparr>))"

definition payments_v0 :: "string \<Rightarrow> send_result \<Rightarrow> pipeline \<Rightarrow> (nat \<times> string \<times> nat) \<times> pipeline" where
  "payments_v0 run sent p =
     (let (cid, p1) = charge_v0 run p;
          p2 = (if landed sent then p1\<lparr>broker := broker p1 @ [event_body cid run]\<rparr> else p1) in
      case sent of
        Acked \<Rightarrow> ((200, ''charged and published'', cid), p2)
      | Landed_unacked _ \<Rightarrow> ((500, ''charged, event lost'', cid), p2\<lparr>failures := failures p2 @ [(run, ''v0'', cid, ''RuntimeError'')]\<rparr>)
      | Lost _ \<Rightarrow> ((500, ''charged, event lost'', cid), p2\<lparr>failures := failures p2 @ [(run, ''v0'', cid, ''RuntimeError'')]\<rparr>)
      | Produce_raised exn \<Rightarrow> ((500, ''charged, event lost'', cid), p2\<lparr>failures := failures p2 @ [(run, ''v0'', cid, exn)]\<rparr>))"

text \<open>\<^verbatim>\<open>MODE=v1\<close>: both inserts in one transaction of worker \<open>w\<close>; the commit, or the rollback that leaves nothing.\<close>

definition payments_v1_insert :: "nat \<Rightarrow> string \<Rightarrow> int \<Rightarrow> pipeline \<Rightarrow> pipeline" where
  "payments_v1_insert w run now p =
     (if w \<in> fst ` set (open_tx (base p)) then p
      else let cid = Suc (charge_seq (base p)); oid = Suc (outbox_seq (base p)) in
        p\<lparr>base := (base p)\<lparr>charge_seq := cid, outbox_seq := oid,
          open_tx := open_tx (base p) @ [(w, (cid, run, 100),
            \<lparr>ob_id = oid, ob_run = run, aggregate_id = cid, topic = ''payment.succeeded'', payload = event_body cid run,
             committed_at = Some now, published_at = None, published_by = None\<rparr>)]\<rparr>\<rparr>)"

definition payments_v1_commit :: "nat \<Rightarrow> pipeline \<Rightarrow> (nat \<times> string \<times> nat) option \<times> pipeline" where
  "payments_v1_commit w p =
     (case map_of (open_tx (base p)) w of None \<Rightarrow> (None, p)
      | Some (ch, r) \<Rightarrow> (Some (200, ''charged and enqueued'', fst ch),
          p\<lparr>base := (base p)\<lparr>t6_charges := t6_charges (base p) @ [ch], outbox := outbox (base p) @ [r],
             open_tx := filter (\<lambda>x. fst x \<noteq> w) (open_tx (base p))\<rparr>\<rparr>))"

subsection \<open>The relay\<close>

definition kafka_label :: "string \<Rightarrow> string \<Rightarrow> relay_label" where
  "kafka_label run who = \<lparr>lb_run = Some run, lb_relay = who, lb_woken = Some ''kafka'', lb_who = who, lb_stat = ''published''\<rparr>"

definition message_of :: "outbox_row \<Rightarrow> json" where
  "message_of r = obj_put ''outbox_id'' (JInt (int (ob_id r))) (payload r)"

text \<open>The claiming query; no rows means a rollback and a nap.\<close>

definition relay_claim :: "nat \<Rightarrow> string \<Rightarrow> string \<Rightarrow> nat \<Rightarrow> pipeline \<Rightarrow> pipeline" where
  "relay_claim i run who batch p =
     (if claimable (kafka_label run who) (base p) = [] then p
      else p\<lparr>base := claim_rows i (kafka_label run who) batch (base p)\<rparr>)"

text \<open>The produce loop: it stops at the first \<^verbatim>\<open>produce\<close> that raises. Results are the messages that landed, the
  acknowledged row ids and the number of messages handed to the producer.\<close>

fun produce_rows :: "(nat \<Rightarrow> send_result) \<Rightarrow> outbox_row list \<Rightarrow> json list \<times> nat list \<times> nat" where
  "produce_rows res [] = ([], [], 0)"
| "produce_rows res (r # rows) =
     (case res (ob_id r) of
        Produce_raised _ \<Rightarrow> ([], [], 0)
      | s \<Rightarrow> (let (ms, ids, n) = produce_rows res rows in
              ((if landed s then message_of r # ms else ms), (if is_acked s then ob_id r # ids else ids), Suc n)))"

definition relay_send :: "nat \<Rightarrow> (nat \<Rightarrow> send_result) \<Rightarrow> pipeline \<Rightarrow> pipeline" where
  "relay_send i res p =
     (case map_of (row_locks (base p)) i of None \<Rightarrow> p
      | Some (l, rows) \<Rightarrow>
          if i \<in> fst ` set (acks p) then p
          else let (ms, ids, sent) = produce_rows res rows; p' = p\<lparr>broker := broker p @ ms\<rparr> in
            if length ids < sent \<and> ids = [] then p'\<lparr>base := unlock i (base p)\<rparr>
            else p'\<lparr>acks := (i, ids) # acks p\<rparr>)"

definition relay_mark :: "nat \<Rightarrow> int \<Rightarrow> pipeline \<Rightarrow> pipeline" where
  "relay_mark i now p =
     (case (map_of (acks p) i, map_of (row_locks (base p)) i) of
        (Some ids, Some (l, rows)) \<Rightarrow>
          p\<lparr>acks := filter (\<lambda>x. fst x \<noteq> i) (acks p),
            base := unlock i ((base p)\<lparr>outbox := map (\<lambda>x. if ob_id x \<in> set ids
              then x\<lparr>published_at := Some now, published_by := Some (lb_who l)\<rparr> else x) (outbox (base p))\<rparr>)\<rparr>
      | _ \<Rightarrow> p)"

definition relay_dies :: "nat \<Rightarrow> pipeline \<Rightarrow> pipeline" where
  "relay_dies i p = p\<lparr>acks := filter (\<lambda>x. fst x \<noteq> i) (acks p), base := unlock i (base p)\<rparr>"

subsection \<open>The consumer\<close>

datatype consume_result = Processed | Raised_first | Raised_between

text \<open>
  One poll: the offset moves on whatever happens to the message, the two inserts are separate transactions, and
  the second does nothing when the pair is already there. A message without \<^verbatim>\<open>outbox_id\<close> counts as id 0.
\<close>

definition message_id :: "json \<Rightarrow> int" where
  "message_id m = (case obj_get ''outbox_id'' m of Some (JInt k) \<Rightarrow> k | _ \<Rightarrow> 0)"

definition message_run :: "string \<Rightarrow> json \<Rightarrow> string" where
  "message_run dflt m = (case obj_get ''run_id'' m of Some (JStr s) \<Rightarrow> s | _ \<Rightarrow> dflt)"

definition add_effect :: "string \<Rightarrow> string \<Rightarrow> int \<Rightarrow> pipeline \<Rightarrow> pipeline" where
  "add_effect run who oid p =
     (if \<exists>e\<in>set (effects p). fst e = run \<and> snd (snd e) = oid then p else p\<lparr>effects := effects p @ [(run, who, oid)]\<rparr>)"

definition consume :: "string \<Rightarrow> string \<Rightarrow> consume_result \<Rightarrow> pipeline \<Rightarrow> pipeline" where
  "consume env_run who res p =
     (if length (broker p) \<le> position p then p
      else let m = broker p ! position p; p1 = p\<lparr>position := Suc (position p)\<rparr>; oid = message_id m;
               run = message_run env_run m;
               p2 = p1\<lparr>base := (base p1)\<lparr>delivered := delivered (base p1) @
                      [\<lparr>dl_run = run, dl_relay = who, woken_by = Some ''kafka'', dl_outbox = nat oid\<rparr>]\<rparr>\<rparr> in
        case res of Raised_first \<Rightarrow> p1 | Raised_between \<Rightarrow> p2 | Processed \<Rightarrow> add_effect run who oid p2)"

text \<open>A consumer that dies before its offset was committed reads from an earlier position again.\<close>

definition rewind :: "nat \<Rightarrow> pipeline \<Rightarrow> pipeline" where
  "rewind n p = p\<lparr>position := min n (position p)\<rparr>"

datatype pl_event =
    Pay_v0 string send_result
  | Pay_insert nat string int
  | Pay_commit nat
  | Pay_abort nat
  | R_claim nat string string nat
  | R_send nat "nat \<Rightarrow> send_result"
  | R_mark nat int
  | R_dies nat
  | Consume string string consume_result
  | Rewind nat

fun pl_step :: "pl_event \<Rightarrow> pipeline \<Rightarrow> pipeline" where
  "pl_step (Pay_v0 run s) p = snd (payments_v0 run s p)"
| "pl_step (Pay_insert w run now) p = payments_v1_insert w run now p"
| "pl_step (Pay_commit w) p = snd (payments_v1_commit w p)"
| "pl_step (Pay_abort w) p = p\<lparr>base := writer_abort w (base p)\<rparr>"
| "pl_step (R_claim i run who batch) p = relay_claim i run who batch p"
| "pl_step (R_send i res) p = relay_send i res p"
| "pl_step (R_mark i now) p = relay_mark i now p"
| "pl_step (R_dies i) p = relay_dies i p"
| "pl_step (Consume env_run who res) p = consume env_run who res p"
| "pl_step (Rewind n) p = rewind n p"

definition pl_run :: "pl_event list \<Rightarrow> pipeline \<Rightarrow> pipeline" where
  "pl_run evs p = foldl (\<lambda>q e. pl_step e q) p evs"

definition empty_pipeline :: pipeline where
  "empty_pipeline = \<lparr>base = empty_outbox, broker = [], acks = [], failures = [], effects = [], position = 0\<rparr>"

subsection \<open>What the pipeline keeps\<close>

definition key_of :: "outbox_row \<Rightarrow> nat \<times> string \<times> nat \<times> json" where
  "key_of r = (ob_id r, ob_run r, aggregate_id r, payload r)"

definition key_message :: "nat \<times> string \<times> nat \<times> json \<Rightarrow> json" where
  "key_message k = obj_put ''outbox_id'' (JInt (int (fst k))) (snd (snd (snd k)))"

lemma message_of_key: "message_of r = key_message (key_of r)" "message_of ` rs = key_message ` key_of ` rs"
  by (simp_all add: key_of_def message_of_def key_message_def image_image)

definition faithful_row :: "outbox_row \<Rightarrow> bool" where
  "faithful_row r = (payload r = event_body (aggregate_id r) (ob_run r))"

lemma message_of_faithful:
  "faithful_row r \<Longrightarrow> message_id (message_of r) = int (ob_id r)"
  "faithful_row r \<Longrightarrow> message_run d (message_of r) = ob_run r"
  "message_id (event_body cid run) = 0" "message_run d (event_body cid run) = run"
  by (simp_all add: faithful_row_def message_of_def event_body_def obj_put_def obj_get_def message_id_def message_run_def)

definition charges_ok :: "outbox_db \<Rightarrow> bool" where
  "charges_ok b = ((\<forall>r\<in>set (outbox b). faithful_row r \<and> (aggregate_id r, ob_run r, 100) \<in> set (t6_charges b))
     \<and> (\<forall>x\<in>set (open_tx b). faithful_row (snd (snd x)) \<and> unpublished (snd (snd x))
          \<and> fst (snd x) = (aggregate_id (snd (snd x)), ob_run (snd (snd x)), 100)))"

definition event_ok :: "outbox_db \<Rightarrow> json \<Rightarrow> bool" where
  "event_ok b m = (m \<in> message_of ` set (outbox b) \<or> (\<exists>cid run. m = event_body cid run \<and> (cid, run, 100) \<in> set (t6_charges b)))"

definition relays_ok :: "pipeline \<Rightarrow> bool" where
  "relays_ok p =
     ((\<forall>x\<in>set (row_locks (base p)). set (map key_of (snd (snd x))) \<subseteq> key_of ` set (outbox (base p)))
      \<and> (\<forall>x\<in>set (acks p). set (snd x) \<subseteq> ob_id ` {r \<in> set (outbox (base p)). message_of r \<in> set (broker p)})
      \<and> (\<forall>r\<in>set (outbox (base p)). unpublished r \<or> message_of r \<in> set (broker p)))"

definition effects_ok :: "pipeline \<Rightarrow> bool" where
  "effects_ok p = (distinct (map (\<lambda>e. (fst e, snd (snd e))) (effects p))
     \<and> (\<forall>e\<in>set (effects p). \<exists>m\<in>set (broker p). message_id m = snd (snd e)))"

definition pl_inv :: "pipeline \<Rightarrow> bool" where
  "pl_inv p = (ids_ok (base p) \<and> charges_ok (base p) \<and> (\<forall>m\<in>set (broker p). event_ok (base p) m)
     \<and> relays_ok p \<and> effects_ok p)"

text \<open>Growth of the tables and of the topic keeps what was recorded about them.\<close>

lemma event_ok_mono:
  "event_ok b m \<Longrightarrow> key_of ` set (outbox b) \<subseteq> key_of ` set (outbox b') \<Longrightarrow> set (t6_charges b) \<subseteq> set (t6_charges b') \<Longrightarrow> event_ok b' m"
  unfolding event_ok_def message_of_key by blast

lemma effects_ok_mono: "effects_ok p \<Longrightarrow> effects p' = effects p \<Longrightarrow> set (broker p) \<subseteq> set (broker p') \<Longrightarrow> effects_ok p'"
  unfolding effects_ok_def by (metis subsetD)

lemma relays_ok_mono:
  assumes "relays_ok p" "outbox (base p') = outbox (base p)" "row_locks (base p') = row_locks (base p)" "acks p' = acks p"
    and "set (broker p) \<subseteq> set (broker p')"
  shows "relays_ok p'"
proof -
  have "ob_id ` {r \<in> set (outbox (base p)). message_of r \<in> set (broker p)} \<subseteq> ob_id ` {r \<in> set (outbox (base p)). message_of r \<in> set (broker p')}"
    using assms(5) by blast
  then have "\<forall>x\<in>set (acks p). set (snd x) \<subseteq> ob_id ` {r \<in> set (outbox (base p)). message_of r \<in> set (broker p')}"
    using assms(1) unfolding relays_ok_def by (meson order_trans)
  moreover have "\<forall>r\<in>set (outbox (base p)). unpublished r \<or> message_of r \<in> set (broker p')"
    using assms(1,5) unfolding relays_ok_def by blast
  ultimately show ?thesis using assms(1) unfolding relays_ok_def assms(2-4) by blast
qed

lemma pl_inv_frame:
  assumes "pl_inv p" "outbox (base p') = outbox (base p)" "open_tx (base p') = open_tx (base p)"
    and "outbox_seq (base p') = outbox_seq (base p)" "t6_charges (base p') = t6_charges (base p)" "broker p' = broker p"
    and "relays_ok p'" "effects_ok p'"
  shows "pl_inv p'"
proof -
  have "open_rows (base p') = open_rows (base p)" by (simp add: open_rows_def assms)
  then have "ids_ok (base p')" using assms by (simp add: pl_inv_def ids_ok_def)
  then show ?thesis using assms by (simp add: pl_inv_def charges_ok_def event_ok_def)
qed

lemma pay_v0_keeps:
  assumes "pl_inv p"
  shows "pl_inv (snd (payments_v0 run s p))"
proof -
  let ?p = "snd (payments_v0 run s p)"
  have old: "ids_ok (base p)" "charges_ok (base p)" "\<forall>m\<in>set (broker p). event_ok (base p) m" "relays_ok p" "effects_ok p"
    using assms by (simp_all add: pl_inv_def)
  have f: "outbox (base ?p) = outbox (base p)" "open_tx (base ?p) = open_tx (base p)" "outbox_seq (base ?p) = outbox_seq (base p)"
      "row_locks (base ?p) = row_locks (base p)" "acks ?p = acks p" "effects ?p = effects p"
      "t6_charges (base ?p) = t6_charges (base p) @ [(Suc (charge_seq (base p)), run, 100)]"
      "broker ?p = broker p @ (if landed s then [event_body (Suc (charge_seq (base p))) run] else [])"
    by (cases s; simp add: payments_v0_def charge_v0_def Let_def)+
  have "open_rows (base ?p) = open_rows (base p)" by (simp add: open_rows_def f)
  then have "ids_ok (base ?p)" using assms by (simp add: pl_inv_def ids_ok_def f)
  moreover have "charges_ok (base ?p)" using assms by (simp add: pl_inv_def charges_ok_def f)
  moreover have "\<forall>m\<in>set (broker ?p). event_ok (base ?p) m"
  proof
    fix m assume "m \<in> set (broker ?p)"
    then consider "m \<in> set (broker p)" | "m = event_body (Suc (charge_seq (base p))) run" by (auto simp: f split: if_splits)
    then show "event_ok (base ?p) m"
    proof cases
      case 1
      with assms have "event_ok (base p) m" by (simp add: pl_inv_def)
      then show ?thesis by (rule event_ok_mono) (auto simp: f)
    next
      case 2
      have "(Suc (charge_seq (base p)), run, 100) \<in> set (t6_charges (base ?p))" by (simp add: f)
      with 2 show ?thesis unfolding event_ok_def by blast
    qed
  qed
  moreover have "relays_ok ?p" by (rule relays_ok_mono [OF old(4)]) (simp_all add: f)
  moreover have "effects_ok ?p" by (rule effects_ok_mono [OF old(5)]) (simp_all add: f)
  ultimately show ?thesis by (simp add: pl_inv_def)
qed

lemma pay_insert_keeps:
  assumes "pl_inv p"
  shows "pl_inv (payments_v1_insert w run now p)"
proof (cases "w \<in> fst ` set (open_tx (base p))")
  case False
  let ?p = "payments_v1_insert w run now p"
  have old: "ids_ok (base p)" "charges_ok (base p)" "\<forall>m\<in>set (broker p). event_ok (base p) m" "relays_ok p" "effects_ok p"
    using assms by (simp_all add: pl_inv_def)
  let ?ch = "(Suc (charge_seq (base p)), run, 100::int)"
  let ?r = "\<lparr>ob_id = Suc (outbox_seq (base p)), ob_run = run, aggregate_id = Suc (charge_seq (base p)),
    topic = ''payment.succeeded'', payload = event_body (Suc (charge_seq (base p))) run, committed_at = Some now,
    published_at = None, published_by = None\<rparr>"
  have "open_tx (base ?p) = open_tx (base p) @ [(w, ?ch, ?r)]" using False by (simp add: payments_v1_insert_def Let_def)
  then obtain ch r where new: "open_tx (base ?p) = open_tx (base p) @ [(w, ch, r)]" "ob_id r = Suc (outbox_seq (base p))"
      "faithful_row r" "unpublished r" "ch = (aggregate_id r, ob_run r, 100)" "outbox_seq (base p) < ob_id r"
    by (rule that) (simp_all add: faithful_row_def unpublished_def)
  have f: "outbox (base ?p) = outbox (base p)" "row_locks (base ?p) = row_locks (base p)" "acks ?p = acks p" "effects ?p = effects p"
      "t6_charges (base ?p) = t6_charges (base p)" "broker ?p = broker p" "outbox_seq (base ?p) = Suc (outbox_seq (base p))"
    using False by (simp_all add: payments_v1_insert_def Let_def)
  have "ids_ok (base ?p)" by (rule ids_ok_insert [OF old(1) False new(2)]) (simp_all add: f new)
  moreover have "charges_ok (base ?p)" using old(2) by (simp add: charges_ok_def new f)
  moreover have "\<forall>m\<in>set (broker ?p). event_ok (base ?p) m" using assms by (simp add: pl_inv_def event_ok_def f)
  moreover have "relays_ok ?p" by (rule relays_ok_mono [OF old(4)]) (simp_all add: f)
  moreover have "effects_ok ?p" by (rule effects_ok_mono [OF old(5)]) (simp_all add: f)
  ultimately show ?thesis by (simp add: pl_inv_def)
qed (use assms in \<open>simp add: payments_v1_insert_def\<close>)

lemma pay_commit_keeps:
  assumes "pl_inv p"
  shows "pl_inv (snd (payments_v1_commit w p))"
proof (cases "map_of (open_tx (base p)) w")
  case (Some v)
  obtain ch r where v: "v = (ch, r)" by (cases v)
  let ?p = "snd (payments_v1_commit w p)"
  have old: "ids_ok (base p)" "charges_ok (base p)" "\<forall>m\<in>set (broker p). event_ok (base p) m" "relays_ok p" "effects_ok p"
    using assms by (simp_all add: pl_inv_def)
  have f: "outbox (base ?p) = outbox (base p) @ [r]" "open_tx (base ?p) = filter (\<lambda>x. fst x \<noteq> w) (open_tx (base p))"
      "outbox_seq (base ?p) = outbox_seq (base p)" "row_locks (base ?p) = row_locks (base p)" "acks ?p = acks p"
      "effects ?p = effects p" "t6_charges (base ?p) = t6_charges (base p) @ [ch]" "broker ?p = broker p"
    using Some v by (simp_all add: payments_v1_commit_def)
  have "(w, ch, r) \<in> set (open_tx (base p))" using map_of_SomeD [OF Some] v by simp
  then have row: "faithful_row r" "unpublished r" "ch = (aggregate_id r, ob_run r, 100)"
    using old(2) by (auto simp: charges_ok_def)
  have "ids_ok (base ?p)" using ids_ok_commit [OF old(1) Some [unfolded v] refl f(1) f(2) f(3)] ..
  moreover have "charges_ok (base ?p)" using old(2) row by (auto simp: charges_ok_def f)
  moreover have "\<forall>m\<in>set (broker ?p). event_ok (base ?p) m"
  proof
    fix m assume "m \<in> set (broker ?p)"
    then have "event_ok (base p) m" using old(3) by (simp add: f)
    then show "event_ok (base ?p) m" by (rule event_ok_mono) (auto simp: f)
  qed
  moreover have "relays_ok ?p"
    using old(4) row(2) unfolding relays_ok_def f by (simp add: subset_insertI2) blast
  moreover have "effects_ok ?p" by (rule effects_ok_mono [OF old(5)]) (simp_all add: f)
  ultimately show ?thesis by (simp add: pl_inv_def)
qed (use assms in \<open>simp add: payments_v1_commit_def\<close>)

lemma pay_abort_keeps:
  assumes "pl_inv p"
  shows "pl_inv (p\<lparr>base := writer_abort w (base p)\<rparr>)"
proof -
  let ?p = "p\<lparr>base := writer_abort w (base p)\<rparr>"
  have old: "ids_ok (base p)" "charges_ok (base p)" "\<forall>m\<in>set (broker p). event_ok (base p) m" "relays_ok p" "effects_ok p"
    using assms by (simp_all add: pl_inv_def)
  have "ids_ok (base ?p)" using ids_ok_abort [OF old(1)] by simp
  moreover have "charges_ok (base ?p)" using old(2) by (auto simp: charges_ok_def writer_abort_def)
  moreover have "\<forall>m\<in>set (broker ?p). event_ok (base ?p) m" using old(3) by (simp add: event_ok_def writer_abort_def)
  moreover have "relays_ok ?p" by (rule relays_ok_mono [OF old(4)]) (simp_all add: writer_abort_def)
  moreover have "effects_ok ?p" by (rule effects_ok_mono [OF old(5)]) simp_all
  ultimately show ?thesis by (simp add: pl_inv_def)
qed

lemma relay_claim_keeps:
  assumes "pl_inv p"
  shows "pl_inv (relay_claim i run who batch p)"
proof (cases "claimable (kafka_label run who) (base p) = [] \<or> i \<in> fst ` set (row_locks (base p))")
  case False
  let ?rows = "take batch (claimable (kafka_label run who) (base p))"
  have sub: "set ?rows \<subseteq> set (outbox (base p))"
    using set_take_subset [of batch "claimable (kafka_label run who) (base p)"] by (auto simp: claimable_def)
  have "row_locks (base (relay_claim i run who batch p)) = (i, kafka_label run who, ?rows) # row_locks (base p)"
    using False by (simp add: relay_claim_def claim_rows_def)
  moreover have "relays_ok p" "effects_ok p" using assms by (simp_all add: pl_inv_def)
  moreover have "key_of ` set ?rows \<subseteq> key_of ` set (outbox (base p))" using sub by blast
  ultimately show ?thesis using False
    by (intro pl_inv_frame [OF assms]) (simp_all add: relay_claim_def claim_rows_def relays_ok_def effects_ok_def)
next
  case True
  then have "relay_claim i run who batch p = p" by (auto simp: relay_claim_def claim_rows_def)
  with assms show ?thesis by simp
qed

lemma produce_rows_sound:
  "produce_rows res rows = (ms, ids, n) \<Longrightarrow> set ms \<subseteq> message_of ` set rows
     \<and> set ids \<subseteq> ob_id ` {r \<in> set rows. message_of r \<in> set ms} \<and> length ids \<le> n"
proof (induction rows arbitrary: ms ids n)
  case (Cons r rows)
  obtain ms' ids' n' where rest: "produce_rows res rows = (ms', ids', n')" by (cases "produce_rows res rows")
  note IH = Cons.IH [OF rest]
  have ex: "ob_id ` {r \<in> set rows. message_of r \<in> set ms'} \<subseteq> ob_id ` {x \<in> set (r # rows). message_of x \<in> set (m # ms')}"
    "ob_id ` {r \<in> set rows. message_of r \<in> set ms'} \<subseteq> ob_id ` {x \<in> set (r # rows). message_of x \<in> set ms'}" for m
    by auto
  show ?case
  proof (cases "res (ob_id r)")
    case Acked
    with Cons.prems rest have "ms = message_of r # ms'" "ids = ob_id r # ids'" "n = Suc n'" by auto
    with IH ex show ?thesis by auto
  next
    case (Landed_unacked e)
    with Cons.prems rest have "ms = message_of r # ms'" "ids = ids'" "n = Suc n'" by auto
    with IH ex show ?thesis by auto
  next
    case (Lost e)
    with Cons.prems rest have "ms = ms'" "ids = ids'" "n = Suc n'" by auto
    with IH ex show ?thesis by auto
  qed (use Cons.prems in auto)
qed simp

lemma unlock_frame [simp]:
  "outbox (unlock i b) = outbox b" "open_tx (unlock i b) = open_tx b" "t6_charges (unlock i b) = t6_charges b"
  "outbox_seq (unlock i b) = outbox_seq b" "set (row_locks (unlock i b)) \<subseteq> set (row_locks b)"
  by (auto simp: unlock_def)

lemma relays_ok_unlock: "relays_ok p \<Longrightarrow> relays_ok (p\<lparr>base := unlock i (base p)\<rparr>)"
  unfolding relays_ok_def by (auto simp: unlock_def)

lemma relay_send_keeps:
  assumes "pl_inv p"
  shows "pl_inv (relay_send i res p)"
proof (cases "map_of (row_locks (base p)) i = None \<or> i \<in> fst ` set (acks p)")
  case False
  then obtain l rows where lock: "map_of (row_locks (base p)) i = Some (l, rows)" and free: "i \<notin> fst ` set (acks p)" by auto
  obtain ms ids n where pr: "produce_rows res rows = (ms, ids, n)" by (cases "produce_rows res rows")
  have old: "ids_ok (base p)" "charges_ok (base p)" "\<forall>m\<in>set (broker p). event_ok (base p) m" "relays_ok p" "effects_ok p"
    using assms by (simp_all add: pl_inv_def)
  have "key_of ` set rows \<subseteq> key_of ` set (outbox (base p))"
    using bspec [OF conjunct1 [OF old(4) [unfolded relays_ok_def]] map_of_SomeD [OF lock]] by simp
  moreover have "set ms \<subseteq> message_of ` set rows" "set ids \<subseteq> ob_id ` {r \<in> set rows. message_of r \<in> set ms}"
    using produce_rows_sound [OF pr] by simp_all
  ultimately have ms: "set ms \<subseteq> message_of ` set (outbox (base p))"
    and ids: "set ids \<subseteq> ob_id ` {r \<in> set (outbox (base p)). message_of r \<in> set ms}"
  proof -
    assume keys: "key_of ` set rows \<subseteq> key_of ` set (outbox (base p))" and m: "set ms \<subseteq> message_of ` set rows"
      and i: "set ids \<subseteq> ob_id ` {r \<in> set rows. message_of r \<in> set ms}"
    show "set ms \<subseteq> message_of ` set (outbox (base p))"
      by (rule order_trans [OF m]) (unfold message_of_key(2), rule image_mono [OF keys])
    have "\<exists>r'\<in>set (outbox (base p)). ob_id r' = ob_id r \<and> message_of r' = message_of r" if "r \<in> set rows" for r
    proof -
      obtain r' where "r' \<in> set (outbox (base p))" "key_of r = key_of r'" using keys \<open>r \<in> set rows\<close> by blast
      then show ?thesis by (intro bexI [of _ r']) (simp_all add: message_of_key(1), simp add: key_of_def)
    qed
    then have "ob_id ` {r \<in> set rows. message_of r \<in> set ms} \<subseteq> ob_id ` {r \<in> set (outbox (base p)). message_of r \<in> set ms}"
      by (auto simp: image_iff) metis
    with i show "set ids \<subseteq> ob_id ` {r \<in> set (outbox (base p)). message_of r \<in> set ms}" by blast
  qed
  let ?q = "p\<lparr>broker := broker p @ ms\<rparr>"
  have "\<forall>m\<in>set (broker ?q). event_ok (base ?q) m" using old(3) ms by (auto simp: event_ok_def)
  moreover have rq: "relays_ok ?q" by (rule relays_ok_mono [OF old(4)]) simp_all
  moreover have "effects_ok ?q" by (rule effects_ok_mono [OF old(5)]) simp_all
  ultimately have q: "pl_inv ?q" using old by (simp add: pl_inv_def)
  have "relays_ok (?q\<lparr>acks := (i, ids) # acks p\<rparr>)"
    using rq ids unfolding relays_ok_def by auto
  then have acked: "pl_inv (?q\<lparr>acks := (i, ids) # acks p\<rparr>)" using q by (intro pl_inv_frame [OF q]) (simp_all add: pl_inv_def effects_ok_def)
  have "pl_inv (?q\<lparr>base := unlock i (base ?q)\<rparr>)"
    using q relays_ok_unlock [OF rq, of i] by (intro pl_inv_frame [OF q]) (simp_all add: pl_inv_def effects_ok_def)
  with acked show ?thesis using lock free pr by (simp add: relay_send_def Let_def)
next
  case True
  then have "relay_send i res p = p" by (auto simp: relay_send_def split: option.splits)
  with assms show ?thesis by simp
qed

lemma relay_mark_keeps:
  assumes "pl_inv p"
  shows "pl_inv (relay_mark i now p)"
proof (cases "map_of (acks p) i = None \<or> map_of (row_locks (base p)) i = None")
  case False
  then obtain ids l rows where ack: "map_of (acks p) i = Some ids" and lock: "map_of (row_locks (base p)) i = Some (l, rows)" by auto
  let ?p = "relay_mark i now p"
  define mk :: "outbox_row \<Rightarrow> outbox_row" where "mk = (\<lambda>x. if ob_id x \<in> set ids
      then x\<lparr>published_at := Some now, published_by := Some (lb_who l)\<rparr> else x)"
  have mk: "key_of (mk x) = key_of x" "ob_id (mk x) = ob_id x" "aggregate_id (mk x) = aggregate_id x" "ob_run (mk x) = ob_run x"
      "faithful_row (mk x) = faithful_row x" "unpublished (mk x) \<longleftrightarrow> unpublished x \<and> ob_id x \<notin> set ids" for x
    by (simp_all add: mk_def key_of_def faithful_row_def unpublished_def)
  then have msg: "message_of (mk x) = message_of x" for x by (simp add: message_of_key(1))
  have old: "ids_ok (base p)" "charges_ok (base p)" "\<forall>m\<in>set (broker p). event_ok (base p) m" "relays_ok p" "effects_ok p"
    using assms by (simp_all add: pl_inv_def)
  have f: "outbox (base ?p) = map mk (outbox (base p))" "open_tx (base ?p) = open_tx (base p)"
      "outbox_seq (base ?p) = outbox_seq (base p)" "row_locks (base ?p) = filter (\<lambda>x. fst x \<noteq> i) (row_locks (base p))"
      "acks ?p = filter (\<lambda>x. fst x \<noteq> i) (acks p)" "effects ?p = effects p" "t6_charges (base ?p) = t6_charges (base p)"
      "broker ?p = broker p"
    using ack lock by (simp_all add: relay_mark_def unlock_def mk_def)
  have keys: "key_of ` set (outbox (base ?p)) = key_of ` set (outbox (base p))" by (simp add: f(1) image_image mk(1))
  have open_same: "open_rows (base ?p) = open_rows (base p)" by (simp add: open_rows_def f)
  have idm: "map ob_id (outbox (base ?p)) = map ob_id (outbox (base p))" by (simp add: f(1) mk(2))
  have "ids_ok (base ?p)" using old(1) unfolding ids_ok_def idm open_same f(2,3) by (auto simp: f(1) mk(2))
  moreover have "charges_ok (base ?p)" using old(2) by (auto simp: charges_ok_def f mk)
  moreover have "\<forall>m\<in>set (broker ?p). event_ok (base ?p) m"
    using old(3) unfolding event_ok_def message_of_key(2) keys f(7,8) .
  moreover have "relays_ok ?p"
  proof -
    have inj: "inj_on ob_id (set (outbox (base p)))" using old(1) by (simp add: ids_ok_def distinct_map)
    have "set ids \<subseteq> ob_id ` {r \<in> set (outbox (base p)). message_of r \<in> set (broker p)}"
      using bspec [OF conjunct1 [OF conjunct2 [OF old(4) [unfolded relays_ok_def]]] map_of_SomeD [OF ack]] by simp
    then have acked: "message_of r \<in> set (broker p)" if "r \<in> set (outbox (base p))" "ob_id r \<in> set ids" for r
      using that inj by (auto simp: inj_on_def dest!: subsetD)
    have img: "ob_id ` {r \<in> mk ` set (outbox (base p)). message_of r \<in> set (broker p)}
        = ob_id ` {r \<in> set (outbox (base p)). message_of r \<in> set (broker p)}"
    proof -
      have "{r \<in> mk ` set (outbox (base p)). message_of r \<in> set (broker p)} = mk ` {r \<in> set (outbox (base p)). message_of r \<in> set (broker p)}"
        using msg by auto
      then show ?thesis by (simp add: image_image mk(2))
    qed
    show ?thesis using old(4) acked unfolding relays_ok_def keys f(4,5,8)
      by (auto simp: f(1) img mk(6) msg)
  qed
  moreover have "effects_ok ?p" by (rule effects_ok_mono [OF old(5)]) (simp_all add: f)
  ultimately show ?thesis by (simp add: pl_inv_def)
next
  case True
  then have "relay_mark i now p = p" by (auto simp: relay_mark_def split: option.splits)
  with assms show ?thesis by simp
qed

lemma relay_dies_keeps:
  assumes "pl_inv p"
  shows "pl_inv (relay_dies i p)"
proof (rule pl_inv_frame [OF assms])
  have "relays_ok p" using assms by (simp add: pl_inv_def)
  then show "relays_ok (relay_dies i p)" unfolding relays_ok_def relay_dies_def by (auto simp: unlock_def)
  show "effects_ok (relay_dies i p)" using assms by (simp add: pl_inv_def effects_ok_def relay_dies_def)
qed (simp_all add: relay_dies_def)

lemma consume_keeps:
  assumes "pl_inv p"
  shows "pl_inv (consume env_run who res p)"
proof (cases "length (broker p) \<le> position p")
  case False
  let ?m = "broker p ! position p" let ?q = "consume env_run who res p"
  have m: "?m \<in> set (broker p)" using False by simp
  have f: "outbox (base ?q) = outbox (base p)" "open_tx (base ?q) = open_tx (base p)" "outbox_seq (base ?q) = outbox_seq (base p)"
      "row_locks (base ?q) = row_locks (base p)" "acks ?q = acks p" "t6_charges (base ?q) = t6_charges (base p)" "broker ?q = broker p"
    using False by (cases res; simp add: consume_def Let_def add_effect_def)+
  have old: "relays_ok p" "effects_ok p" using assms by (simp_all add: pl_inv_def)
  have eff: "effects ?q = effects p \<or> effects ?q = effects p @ [(message_run env_run ?m, who, message_id ?m)]
      \<and> (\<forall>e\<in>set (effects p). \<not> (fst e = message_run env_run ?m \<and> snd (snd e) = message_id ?m))"
    using False by (cases res) (auto simp: consume_def Let_def add_effect_def)
  have "effects_ok ?q" using eff
  proof (elim disjE conjE)
    assume "effects ?q = effects p"
    then show ?thesis by (rule effects_ok_mono [OF old(2)]) (simp add: f)
  next
    assume new: "effects ?q = effects p @ [(message_run env_run ?m, who, message_id ?m)]"
      and fresh: "\<forall>e\<in>set (effects p). \<not> (fst e = message_run env_run ?m \<and> snd (snd e) = message_id ?m)"
    show ?thesis using old(2) m fresh unfolding effects_ok_def new f by auto
  qed
  moreover have "relays_ok ?q" by (rule relays_ok_mono [OF old(1)]) (simp_all add: f)
  ultimately show ?thesis by (intro pl_inv_frame [OF assms]) (simp_all add: f)
qed (use assms in \<open>simp add: consume_def\<close>)

lemma pl_step_keeps: "pl_inv p \<Longrightarrow> pl_inv (pl_step ev p)"
proof (cases ev)
  case (Rewind n)
  assume "pl_inv p"
  then show ?thesis unfolding Rewind pl_step.simps
    by (rule pl_inv_frame) (use \<open>pl_inv p\<close> in \<open>simp_all add: rewind_def pl_inv_def relays_ok_def effects_ok_def\<close>)
qed (simp_all add: pay_v0_keeps pay_insert_keeps pay_commit_keeps pay_abort_keeps relay_claim_keeps relay_send_keeps
    relay_mark_keeps relay_dies_keeps consume_keeps)

lemma pl_run_snoc [simp]: "pl_run (evs @ [e]) p = pl_step e (pl_run evs p)"
  by (simp add: pl_run_def)

lemma pl_inv_run: "pl_inv (pl_run evs empty_pipeline)"
proof (induction evs rule: rev_induct)
  case Nil
  show ?case by (simp add: pl_run_def pl_inv_def empty_pipeline_def empty_outbox_def ids_ok_def open_rows_def charges_ok_def
      relays_ok_def effects_ok_def)
qed (simp add: pl_step_keeps)

text \<open>Without the dual write the committed charges are exactly the committed outbox rows.\<close>

definition same_charges :: "outbox_db \<Rightarrow> bool" where
  "same_charges b = (t6_charges b = map (\<lambda>r. (aggregate_id r, ob_run r, 100)) (outbox b)
     \<and> (\<forall>x\<in>set (open_tx b). fst (snd x) = (aggregate_id (snd (snd x)), ob_run (snd (snd x)), 100)))"

fun dual_write :: "pl_event \<Rightarrow> bool" where
  "dual_write (Pay_v0 _ _) = True"
| "dual_write _ = False"

lemma same_charges_cong:
  "outbox b' = outbox b \<Longrightarrow> t6_charges b' = t6_charges b \<Longrightarrow> set (open_tx b') \<subseteq> set (open_tx b) \<Longrightarrow> same_charges b \<Longrightarrow> same_charges b'"
  unfolding same_charges_def by auto

lemma same_charges_step:
  assumes "same_charges (base p)" "\<not> dual_write ev"
  shows "same_charges (base (pl_step ev p))"
proof (cases ev)
  case (Pay_insert w run now)
  with assms(1) show ?thesis by (auto simp: same_charges_def payments_v1_insert_def Let_def)
next
  case (Pay_commit w)
  with assms(1) show ?thesis by (auto simp: same_charges_def payments_v1_commit_def dest!: map_of_SomeD split: option.splits)
next
  case (R_mark i now)
  with assms(1) show ?thesis by (auto simp: same_charges_def relay_mark_def unlock_def split: option.splits)
next
  case (R_claim i run who batch)
  with assms(1) show ?thesis by (auto simp: relay_claim_def claim_rows_def elim!: same_charges_cong [rotated 3])
next
  case (R_send i res)
  with assms(1) show ?thesis
    by (auto simp: relay_send_def Let_def unlock_def case_prod_beta elim!: same_charges_cong [rotated 3] split: option.splits)
next
  case (R_dies i)
  with assms(1) show ?thesis by (auto simp: relay_dies_def unlock_def elim!: same_charges_cong [rotated 3])
next
  case (Consume env_run who res)
  have "base (add_effect r w oid q) = base q" for r w oid q by (simp add: add_effect_def)
  with Consume assms(1) show ?thesis
    by (cases res) (auto simp: consume_def Let_def elim!: same_charges_cong [rotated 3])
next
  case (Pay_abort w)
  with assms(1) show ?thesis by (auto simp: writer_abort_def elim!: same_charges_cong [rotated 3])
next
  case (Rewind n)
  with assms(1) show ?thesis by (simp add: rewind_def)
qed (use assms in simp)

subsection \<open>Every event takes effect, or a poll of its message raised\<close>

text \<open>The offsets at which a poll raised: the consumer's \<^verbatim>\<open>except\<close> swallows the exception, and the offset has
  moved on.\<close>

fun raises :: "pl_event \<Rightarrow> bool" where
  "raises (Consume _ _ res) = (res \<noteq> Processed)"
| "raises _ = False"

fun polls :: "pl_event \<Rightarrow> bool" where
  "polls (Consume _ _ _) = True"
| "polls _ = False"

definition swallow :: "pl_event \<Rightarrow> pipeline \<Rightarrow> nat set" where
  "swallow ev p = (if raises ev \<and> position p < length (broker p) then {position p} else {})"

fun swallowed :: "pl_event list \<Rightarrow> pipeline \<Rightarrow> nat set" where
  "swallowed [] p = {}"
| "swallowed (ev # evs) p = swallow ev p \<union> swallowed evs (pl_step ev p)"

definition has_effect :: "pipeline \<Rightarrow> json \<Rightarrow> bool" where
  "has_effect p m = (\<exists>e\<in>set (effects p). fst e = message_run [] m \<and> snd (snd e) = message_id m)"

lemma pl_run_append: "pl_run (xs @ ys) p = pl_run ys (pl_run xs p)"
  by (simp add: pl_run_def)

lemma pl_run_Cons: "pl_run (e # es) p = pl_run es (pl_step e p)"
  by (simp add: pl_run_def)

lemma swallowed_append: "swallowed (xs @ ys) p = swallowed xs p \<union> swallowed ys (pl_run xs p)"
  by (induction xs arbitrary: p) (auto simp: pl_run_def)

lemma swallowed_none: "\<forall>ev\<in>set evs. \<not> raises ev \<Longrightarrow> swallowed evs p = {}"
  by (induction evs arbitrary: p) (auto simp: swallow_def)

text \<open>A step appends to the topic and to the effects; only a poll moves the offset forward.\<close>

lemma step_grows:
  "\<exists>ms. broker (pl_step ev p) = broker p @ ms" "set (effects p) \<subseteq> set (effects (pl_step ev p))"
  "\<not> polls ev \<Longrightarrow> position (pl_step ev p) \<le> position p"
proof -
  have c: "broker (consume r w res p) = broker p \<and> set (effects p) \<subseteq> set (effects (consume r w res p))" for r w res
    by (cases res) (auto simp: consume_def Let_def add_effect_def)
  have v: "\<exists>ms. broker (snd (payments_v0 run s p)) = broker p @ ms" "effects (snd (payments_v0 run s p)) = effects p"
      "position (snd (payments_v0 run s p)) = position p" for run s
    by (cases s; simp add: payments_v0_def charge_v0_def Let_def)+
  show "\<exists>ms. broker (pl_step ev p) = broker p @ ms"
    by (cases ev) (use c v in \<open>auto simp: payments_v1_insert_def payments_v1_commit_def relay_claim_def relay_send_def
        relay_mark_def relay_dies_def rewind_def Let_def split: option.split prod.split\<close>)
  show "set (effects p) \<subseteq> set (effects (pl_step ev p))"
    by (cases ev) (use c v in \<open>auto simp: payments_v1_insert_def payments_v1_commit_def relay_claim_def relay_send_def
        relay_mark_def relay_dies_def rewind_def Let_def split: option.split prod.split\<close>)
  show "position (pl_step ev p) \<le> position p" if "\<not> polls ev"
    using that by (cases ev) (use v in \<open>auto simp: payments_v1_insert_def payments_v1_commit_def relay_claim_def relay_send_def
        relay_mark_def relay_dies_def rewind_def Let_def split: option.split prod.split\<close>)
qed

lemma has_effect_mono: "has_effect p m \<Longrightarrow> set (effects p) \<subseteq> set (effects q) \<Longrightarrow> has_effect q m"
  unfolding has_effect_def by blast

text \<open>What was read: below the offset every message has taken effect or its poll raised.\<close>

definition read_ok :: "nat set \<Rightarrow> pipeline \<Rightarrow> bool" where
  "read_ok S p = (position p \<le> length (broker p) \<and> S \<subseteq> {..<length (broker p)}
     \<and> (\<forall>j<position p. j \<in> S \<or> has_effect p (broker p ! j)))"

lemma read_ok_mono:
  assumes "read_ok S p" "broker q = broker p @ ms" "set (effects p) \<subseteq> set (effects q)" "position q \<le> position p"
  shows "read_ok S q"
proof -
  have "j \<in> S \<or> has_effect q (broker p ! j)" if "j < position p" for j
    using assms(1) that has_effect_mono [OF _ assms(3)] unfolding read_ok_def by blast
  then show ?thesis using assms by (auto simp: read_ok_def nth_append)
qed

lemma message_run_ok: "event_ok b m \<Longrightarrow> charges_ok b \<Longrightarrow> message_run d m = message_run d' m"
  by (auto simp: event_ok_def charges_ok_def message_of_faithful)

lemma read_ok_step:
  assumes "pl_inv p" "read_ok S p"
  shows "read_ok (S \<union> swallow ev p) (pl_step ev p)"
proof (cases "polls ev \<and> position p < length (broker p)")
  case False
  then have "swallow ev p = {}" and "position (pl_step ev p) \<le> position p"
    using step_grows(3) [of ev p] by (cases ev; auto simp: swallow_def consume_def)+
  then show ?thesis using read_ok_mono [OF assms(2) _ step_grows(2)] step_grows(1) by (metis sup_bot_right)
next
  case True
  then obtain r w res where ev: "ev = Consume r w res" by (cases ev) auto
  let ?m = "broker p ! position p" and ?q = "pl_step ev p"
  have "?m \<in> set (broker p)" using True by simp
  then have run: "message_run r ?m = message_run [] ?m"
    using assms(1) by (intro message_run_ok) (auto simp: pl_inv_def)
  have q: "position ?q = Suc (position p)" "broker ?q = broker p"
    using True by (cases res; simp add: ev consume_def Let_def add_effect_def)+
  have "has_effect ?q ?m" if "res = Processed"
  proof (cases "\<exists>e\<in>set (effects p). fst e = message_run [] ?m \<and> snd (snd e) = message_id ?m")
    case True
    then show ?thesis using step_grows(2) [of p ev] unfolding has_effect_def by blast
  next
    case False
    then have "effects ?q = effects p @ [(message_run [] ?m, w, message_id ?m)]"
      using True that run by (auto simp: ev consume_def Let_def add_effect_def)
    then show ?thesis by (simp add: has_effect_def)
  qed
  moreover have "swallow ev p = (if res = Processed then {} else {position p})" using True by (simp add: swallow_def ev)
  ultimately show ?thesis
    using assms(2) True step_grows(2) [of p ev] unfolding read_ok_def q by (auto simp: less_Suc_eq intro: has_effect_mono)
qed

lemma read_ok_run: "read_ok (swallowed evs empty_pipeline) (pl_run evs empty_pipeline)"
proof (induction evs rule: rev_induct)
  case Nil
  show ?case by (simp add: read_ok_def pl_run_def empty_pipeline_def)
next
  case (snoc ev evs)
  from read_ok_step [OF pl_inv_run this, of ev] show ?case by (simp add: swallowed_append)
qed

subsection \<open>The pipeline can always be drained\<close>

lemma pl_run_dies:
  "pl_run (map R_dies is) p = p\<lparr>acks := filter (\<lambda>x. fst x \<notin> set is) (acks p),
     base := (base p)\<lparr>row_locks := filter (\<lambda>x. fst x \<notin> set is) (row_locks (base p))\<rparr>\<rparr>"
proof (induction "is" arbitrary: p)
  case (Cons i "is")
  have "filter P (filter Q xs) = filter (\<lambda>x. Q x \<and> P x) xs" for P Q and xs :: "'x list" by (simp add: conj_commute)
  with Cons show ?case by (simp add: pl_run_Cons relay_dies_def unlock_def conj_commute)
qed (simp add: pl_run_def)

lemma produce_all:
  "produce_rows (\<lambda>_. Acked) rows = (map message_of rows, map ob_id rows, length rows)"
  by (induction rows) simp_all

definition drain_relay :: "string \<Rightarrow> string \<Rightarrow> int \<Rightarrow> pipeline \<Rightarrow> pl_event list" where
  "drain_relay run who now p =
     map R_dies (map fst (row_locks (base p)) @ map fst (acks p))
     @ [R_claim 0 run who (length (outbox (base p))), R_send 0 (\<lambda>_. Acked), R_mark 0 now]"

lemma drain_relay_run:
  fixes run who :: string
  defines "rows \<equiv> \<lambda>p. sort_key ob_id (filter (\<lambda>r. ob_run r = run \<and> unpublished r) (outbox (base p)))"
  shows "t6_charges (base (pl_run (drain_relay run who now p) p)) = t6_charges (base p)
    \<and> broker (pl_run (drain_relay run who now p) p) = broker p @ map message_of (rows p)
    \<and> position (pl_run (drain_relay run who now p) p) = position p"
proof -
  define "is" where "is = map fst (row_locks (base p)) @ map fst (acks p)"
  let ?p0 = "pl_run (map R_dies is) p"
  have p0: "row_locks (base ?p0) = []" "acks ?p0 = []" "outbox (base ?p0) = outbox (base p)" "broker ?p0 = broker p"
      "t6_charges (base ?p0) = t6_charges (base p)" "position ?p0 = position p"
    unfolding pl_run_dies by (auto simp: is_def filter_empty_conv)
  have cl: "claimable (kafka_label run who) (base ?p0) = rows p"
    by (simp add: claimable_def kafka_label_def locked_ids_def p0 rows_def)
  have len: "length (rows p) \<le> length (outbox (base p))" by (simp add: rows_def)
  have run: "pl_run (drain_relay run who now p) p
      = relay_mark 0 now (relay_send 0 (\<lambda>_. Acked) (relay_claim 0 run who (length (outbox (base p))) ?p0))"
    unfolding drain_relay_def is_def [symmetric] pl_run_append by (simp add: pl_run_def)
  show ?thesis
  proof (cases "rows p = []")
    case True
    then have "relay_claim 0 run who (length (outbox (base p))) ?p0 = ?p0" by (simp add: relay_claim_def cl)
    then show ?thesis unfolding run using p0 True by (simp add: relay_send_def relay_mark_def)
  next
    case False
    let ?p1 = "?p0\<lparr>base := (base ?p0)\<lparr>row_locks := [(0, kafka_label run who, rows p)]\<rparr>\<rparr>"
    have 1: "relay_claim 0 run who (length (outbox (base p))) ?p0 = ?p1"
      using False len by (simp add: relay_claim_def claim_rows_def cl p0)
    have 2: "relay_send 0 (\<lambda>_. Acked) ?p1
        = ?p1\<lparr>broker := broker p @ map message_of (rows p), acks := [(0, map ob_id (rows p))]\<rparr>"
      using False by (simp add: relay_send_def produce_all p0)
    show ?thesis unfolding run 1 2 by (simp add: relay_mark_def p0 unlock_def)
  qed
qed

lemma consume_all:
  "length (broker p) - position p \<le> n \<Longrightarrow> position p \<le> length (broker p) \<Longrightarrow>
   position (pl_run (replicate n (Consume run who Processed)) p) = length (broker p)
   \<and> broker (pl_run (replicate n (Consume run who Processed)) p) = broker p
   \<and> t6_charges (base (pl_run (replicate n (Consume run who Processed)) p)) = t6_charges (base p)"
proof (induction n arbitrary: p)
  case (Suc n)
  let ?q = "consume run who Processed p"
  have q: "broker ?q = broker p" "t6_charges (base ?q) = t6_charges (base p)"
      "position ?q = (if position p < length (broker p) then Suc (position p) else position p)"
    by (simp_all add: consume_def Let_def add_effect_def)
  then have "length (broker ?q) - position ?q \<le> n" "position ?q \<le> length (broker ?q)" using Suc.prems by auto
  from Suc.IH [OF this] q show ?case by (simp add: pl_run_Cons)
qed (simp add: pl_run_def)

lemma drain:
  fixes evs run
  defines "p \<equiv> pl_run evs empty_pipeline"
  shows "\<exists>evs'. (\<forall>ev\<in>set evs'. \<not> dual_write ev \<and> \<not> raises ev)
     \<and> t6_charges (base (pl_run evs' p)) = t6_charges (base p)
     \<and> (\<forall>r\<in>set (outbox (base p)). ob_run r = run \<longrightarrow> has_effect (pl_run evs' p) (message_of r)
          \<or> \<not> unpublished r \<and> (\<exists>j\<in>swallowed evs empty_pipeline. broker p ! j = message_of r))"
proof -
  let ?S = "swallowed evs empty_pipeline"
  define rel where "rel = drain_relay run run 0 p"
  define rows where "rows = sort_key ob_id (filter (\<lambda>r. ob_run r = run \<and> unpublished r) (outbox (base p)))"
  let ?p1 = "pl_run rel p"
  define polls where "polls = replicate (length (broker ?p1)) (Consume run run Processed)"
  let ?q = "pl_run (rel @ polls) p"
  have ok: "read_ok ?S p" unfolding p_def by (rule read_ok_run)
  have p1: "broker ?p1 = broker p @ map message_of rows" "position ?p1 = position p" "t6_charges (base ?p1) = t6_charges (base p)"
    using drain_relay_run [of run run 0 p] by (simp_all add: rel_def rows_def)
  then have "length (broker ?p1) - position ?p1 \<le> length (broker ?p1)" "position ?p1 \<le> length (broker ?p1)"
    using ok by (simp_all add: read_ok_def)
  from consume_all [OF this] have q: "position ?q = length (broker ?q)" "broker ?q = broker p @ map message_of rows"
      "t6_charges (base ?q) = t6_charges (base p)"
    using p1 by (simp_all add: polls_def pl_run_append)
  have quiet: "\<forall>ev\<in>set (rel @ polls). \<not> dual_write ev \<and> \<not> raises ev" by (auto simp: rel_def polls_def drain_relay_def)
  have "read_ok ?S ?q"
    using read_ok_run [of "evs @ rel @ polls"] quiet swallowed_none [of "rel @ polls"]
    by (simp add: swallowed_append pl_run_append p_def)
  then have read: "j \<in> ?S \<or> has_effect ?q (broker ?q ! j)" if "j < length (broker ?q)" for j
    using that q(1) by (simp add: read_ok_def)
  have small: "j < length (broker p)" if "j \<in> ?S" for j using ok that by (auto simp: read_ok_def)
  have "has_effect ?q (message_of r) \<or> \<not> unpublished r \<and> (\<exists>j\<in>?S. broker p ! j = message_of r)"
    if r: "r \<in> set (outbox (base p))" "ob_run r = run" for r
  proof (cases "unpublished r")
    case True
    then have "message_of r \<in> set (map message_of rows)" using r by (simp add: rows_def)
    then obtain k where "k < length (map message_of rows)" "map message_of rows ! k = message_of r" by (meson in_set_conv_nth)
    then show ?thesis using read [of "length (broker p) + k"] small [of "length (broker p) + k"] by (auto simp: q(2) nth_append)
  next
    case False
    have "pl_inv p" unfolding p_def by (rule pl_inv_run)
    then have "message_of r \<in> set (broker p)" using r False by (auto simp: pl_inv_def relays_ok_def)
    then obtain j where "j < length (broker p)" "broker p ! j = message_of r" by (meson in_set_conv_nth)
    then show ?thesis using read [of j] False by (auto simp: q(2) nth_append)
  qed
  with quiet q(3) show ?thesis by (intro exI [of _ "rel @ polls"]) blast
qed

text \<open>
  C30. The outbox pipeline, in every interleaving without the dual write, wherever processes die: the committed
  charges are exactly the committed outbox rows, a row that is marked published has its message in the broker,
  every message stands for a committed charge, and no message id takes effect twice. Below the consumer's offset
  every message has taken effect, unless a poll of it raised (the exception is swallowed and the offset moves
  on). And nothing else is lost: from any such state the relay and the consumer can run on so that every
  committed event of a run takes effect, except a published one whose message was polled by a consumer that raised.
\<close>

theorem outbox_pipeline:
  assumes "\<forall>ev\<in>set evs. \<not> dual_write ev"
  shows "let p = pl_run evs empty_pipeline; b = base p; S = swallowed evs empty_pipeline in
      t6_charges b = map (\<lambda>r. (aggregate_id r, ob_run r, 100)) (outbox b)
    \<and> (\<forall>r\<in>set (outbox b). unpublished r \<or> message_of r \<in> set (broker p))
    \<and> (\<forall>m\<in>set (broker p). m \<in> message_of ` set (outbox b) \<or>
         (\<exists>cid run. m = event_body cid run \<and> (cid, run, 100) \<in> set (t6_charges b)))
    \<and> distinct (map (\<lambda>e. (fst e, snd (snd e))) (effects p))
    \<and> (\<forall>e\<in>set (effects p). \<exists>m\<in>set (broker p). message_id m = snd (snd e))
    \<and> (\<forall>j<position p. j \<in> S \<or> has_effect p (broker p ! j))
    \<and> (\<exists>evs'. (\<forall>ev\<in>set evs'. \<not> dual_write ev \<and> \<not> raises ev)
         \<and> t6_charges (base (pl_run evs' p)) = t6_charges b
         \<and> (\<forall>r\<in>set (outbox b). ob_run r = run \<longrightarrow> has_effect (pl_run evs' p) (message_of r)
              \<or> \<not> unpublished r \<and> (\<exists>j\<in>S. broker p ! j = message_of r)))"
proof -
  have "same_charges (base (pl_run evs empty_pipeline))" using assms
  proof (induction evs rule: rev_induct)
    case Nil
    show ?case by (simp add: pl_run_def same_charges_def empty_pipeline_def empty_outbox_def)
  qed (simp add: same_charges_step)
  then have ch: "t6_charges (base (pl_run evs empty_pipeline)) =
      map (\<lambda>r. (aggregate_id r, ob_run r, 100)) (outbox (base (pl_run evs empty_pipeline)))"
    by (simp add: same_charges_def)
  have inv: "pl_inv (pl_run evs empty_pipeline)" by (rule pl_inv_run)
  then have pub: "\<forall>r\<in>set (outbox (base (pl_run evs empty_pipeline))). unpublished r \<or> message_of r \<in> set (broker (pl_run evs empty_pipeline))"
    by (simp add: pl_inv_def relays_ok_def)
  note read = read_ok_run [of evs, unfolded read_ok_def, THEN conjunct2, THEN conjunct2]
  show ?thesis unfolding Let_def
    by (intro conjI ch pub read drain) (use inv in \<open>simp_all add: pl_inv_def effects_ok_def event_ok_def\<close>)
qed

definition crash_between :: "pl_event list" where
  "crash_between = [Pay_insert 0 ''t6'' 1, Pay_commit 0, R_claim 5 ''t6'' ''relay-a'' 50, R_send 5 (\<lambda>_. Acked), R_dies 5,
     R_claim 6 ''t6'' ''relay-b'' 50, R_send 6 (\<lambda>_. Acked), R_mark 6 9,
     Consume ''t6'' ''relay-a'' Processed, Consume ''t6'' ''relay-a'' Processed]"

text \<open>A relay that dies after the broker acknowledged sends again: two messages, one effect.\<close>

theorem outbox_pipeline_witness:
  "let p = pl_run crash_between empty_pipeline in
     t6_charges (base p) = map (\<lambda>r. (aggregate_id r, ob_run r, 100)) (outbox (base p))
     \<and> length (broker p) = 2 \<and> effects p = [(''t6'', ''relay-a'', 1)]"
proof -
  have "\<forall>ev\<in>set crash_between. \<not> dual_write ev" by (simp add: crash_between_def)
  from outbox_pipeline [OF this]
  have "t6_charges (base (pl_run crash_between empty_pipeline)) =
      map (\<lambda>r. (aggregate_id r, ob_run r, 100)) (outbox (base (pl_run crash_between empty_pipeline)))"
    unfolding Let_def by (rule conjunct1)
  moreover have "length (broker (pl_run crash_between empty_pipeline)) = 2
      \<and> effects (pl_run crash_between empty_pipeline) = [(''t6'', ''relay-a'', 1)]"
    by (simp add: pl_run_def crash_between_def empty_pipeline_def empty_outbox_def payments_v1_insert_def payments_v1_commit_def
        relay_claim_def claimable_def kafka_label_def locked_ids_def unpublished_def claim_rows_def relay_send_def relay_dies_def
        unlock_def relay_mark_def consume_def add_effect_def message_of_def event_body_def obj_put_def obj_get_def
        message_id_def message_run_def Let_def)
  ultimately show ?thesis by (simp add: Let_def)
qed

text \<open>A consumer whose insert fails loses the event: the charge is committed, the row is marked, the offset has
  passed the message, the relay has nothing left to claim, and no effect was made.\<close>

definition failing_consumer :: "pl_event list" where
  "failing_consumer = [Pay_insert 0 ''t6'' 1, Pay_commit 0, R_claim 5 ''t6'' ''relay-a'' 50, R_send 5 (\<lambda>_. Acked), R_mark 5 9,
     Consume ''t6'' ''relay-a'' Raised_first]"

theorem raised_poll_loses:
  "let p = pl_run failing_consumer empty_pipeline in
     t6_charges (base p) = [(1, ''t6'', 100)] \<and> claimable (kafka_label ''t6'' ''relay-a'') (base p) = []
     \<and> position p = length (broker p) \<and> length (broker p) = 1 \<and> effects p = []"
  by (simp add: pl_run_def failing_consumer_def empty_pipeline_def empty_outbox_def payments_v1_insert_def payments_v1_commit_def
      relay_claim_def claimable_def kafka_label_def locked_ids_def unpublished_def claim_rows_def relay_send_def
      unlock_def relay_mark_def consume_def Let_def)

fun v0_only :: "string \<Rightarrow> pl_event \<Rightarrow> bool" where
  "v0_only run (Pay_v0 r _) = (r = run)"
| "v0_only run (Consume _ _ _) = True"
| "v0_only run (Rewind _) = True"
| "v0_only run _ = False"

fun v0_landed :: "pl_event \<Rightarrow> bool" where
  "v0_landed (Pay_v0 _ s) = landed s"
| "v0_landed _ = False"

text \<open>
  The dual write loses events, and the consumer that serves both modes loses nearly all of the rest: a charge
  is committed for every call, a message exists only for the calls whose publish landed, and since those messages
  carry no outbox id they all count as id 0, so at most one of them ever takes effect.
\<close>

theorem dual_write_loses:
  assumes "\<forall>ev\<in>set evs. v0_only run ev"
  shows "let p = pl_run evs empty_pipeline in
      length (t6_charges (base p)) = length (filter dual_write evs)
    \<and> length (broker p) = length (filter v0_landed evs) \<and> length (effects p) \<le> 1"
proof -
  have "length (t6_charges (base (pl_run evs empty_pipeline))) = length (filter dual_write evs)
    \<and> length (broker (pl_run evs empty_pipeline)) = length (filter v0_landed evs)
    \<and> (\<forall>m\<in>set (broker (pl_run evs empty_pipeline)). \<exists>cid. m = event_body cid run)
    \<and> (effects (pl_run evs empty_pipeline) = [] \<or> (\<exists>who. effects (pl_run evs empty_pipeline) = [(run, who, 0)]))"
    using assms
  proof (induction evs rule: rev_induct)
    case Nil
    show ?case by (simp add: pl_run_def empty_pipeline_def empty_outbox_def)
  next
    case (snoc ev evs)
    let ?p = "pl_run evs empty_pipeline"
    have IH: "length (t6_charges (base ?p)) = length (filter dual_write evs)" "length (broker ?p) = length (filter v0_landed evs)"
        "\<forall>m\<in>set (broker ?p). \<exists>cid. m = event_body cid run" "effects ?p = [] \<or> (\<exists>who. effects ?p = [(run, who, 0)])"
      using snoc by simp_all
    show ?case
    proof (cases ev)
      case (Pay_v0 r s)
      with snoc.prems have "r = run" by simp
      with IH Pay_v0 show ?thesis by (cases s) (auto simp: payments_v0_def charge_v0_def Let_def)
    next
      case (Consume env_run who res)
      have "message_id m = 0 \<and> message_run env_run m = run" if "m \<in> set (broker ?p)" for m
        using IH(3) that by (auto simp: message_of_faithful)
      then have "position ?p < length (broker ?p) \<Longrightarrow>
          message_id (broker ?p ! position ?p) = 0 \<and> message_run env_run (broker ?p ! position ?p) = run" by simp
      with IH Consume show ?thesis by (cases res) (auto simp: consume_def Let_def add_effect_def)
    next
      case (Rewind n)
      with IH show ?thesis by (simp add: rewind_def)
    qed (use snoc.prems in simp_all)
  qed
  then show ?thesis by (auto simp: Let_def)
qed

theorem dual_write_loses_witness:
  "let evs = [Pay_v0 ''t6'' (Lost ''timed out''), Pay_v0 ''t6'' Acked, Pay_v0 ''t6'' Acked,
       Consume ''t6'' ''relay'' Processed, Consume ''t6'' ''relay'' Processed];
       p = pl_run evs empty_pipeline in
   length (t6_charges (base p)) = 3 \<and> length (broker p) = 2 \<and> length (effects p) \<le> 1"
proof -
  let ?evs = "[Pay_v0 ''t6'' (Lost ''timed out''), Pay_v0 ''t6'' Acked, Pay_v0 ''t6'' Acked,
       Consume ''t6'' ''relay'' Processed, Consume ''t6'' ''relay'' Processed]"
  have "\<forall>ev\<in>set ?evs. v0_only ''t6'' ev" by simp
  from dual_write_loses [OF this] show ?thesis by (simp add: Let_def)
qed

end
