(* ===== verification/Dist_Ledger.thy ===== *)
theory Dist_Ledger
  imports Lab_Prelude
begin

text \<open>
  The ambiguous result: \<^verbatim>\<open>04-distributed/01-.../python/ambiguous_result.py\<close> and its container version,
  \<^verbatim>\<open>docker/services/app/ledger.py\<close> with its client \<^verbatim>\<open>payments1.py\<close>. The HTTP client is third-party code: what
  it reports for an attempt is chosen by the environment, and the theorems name the documented facts about it
  they need.
\<close>

datatype http_error =
    ConnectError
  | ConnectTimeout
  | ReadTimeout
  | WriteTimeout
  | PoolTimeout
  | RemoteProtocolError
  | ReadError
  | Other_error string

fun error_name :: "http_error \<Rightarrow> string" where
  "error_name ConnectError = ''ConnectError''"
| "error_name ConnectTimeout = ''ConnectTimeout''"
| "error_name ReadTimeout = ''ReadTimeout''"
| "error_name WriteTimeout = ''WriteTimeout''"
| "error_name PoolTimeout = ''PoolTimeout''"
| "error_name RemoteProtocolError = ''RemoteProtocolError''"
| "error_name ReadError = ''ReadError''"
| "error_name (Other_error n) = n"

subsection \<open>The ledger service and its client\<close>

record charge_body =
  request_id :: string
  toxic :: string
  amount_cents :: int

record attempt_row =
  a_request :: string
  a_toxic :: string
  verdict :: string
  error_kind :: "string option"

record ledger_db =
  t1_charges :: "charge_body list"
  t1_client_attempts :: "attempt_row list"

text \<open>\<^verbatim>\<open>ledger.charge\<close>: commit, then answer or die. \<open>None\<close> is the process exit that writes no response.\<close>

definition ledger_charge :: "bool \<Rightarrow> charge_body \<Rightarrow> ledger_db \<Rightarrow> nat option \<times> ledger_db" where
  "ledger_charge crash_after_commit c db =
     (if crash_after_commit then None else Some 200, db\<lparr>t1_charges := t1_charges db @ [c]\<rparr>)"

text \<open>\<^verbatim>\<open>payments1.classify\<close>.\<close>

definition classify :: "http_error \<Rightarrow> string \<times> string" where
  "classify e =
     (case e of
        ConnectError \<Rightarrow> (''safe'', ''ConnectError'')
      | ConnectTimeout \<Rightarrow> (''safe'', ''ConnectTimeout'')
      | ReadTimeout \<Rightarrow> (''ambiguous'', ''ReadTimeout'')
      | WriteTimeout \<Rightarrow> (''ambiguous'', ''WriteTimeout'')
      | PoolTimeout \<Rightarrow> (''safe'', ''PoolTimeout'')
      | RemoteProtocolError \<Rightarrow> (''ambiguous'', ''RemoteProtocolError'')
      | ReadError \<Rightarrow> (''ambiguous'', ''ReadError'')
      | Other_error n \<Rightarrow> (''ambiguous'', n))"

definition record_attempt1 :: "string \<Rightarrow> string \<Rightarrow> string \<Rightarrow> string option \<Rightarrow> ledger_db \<Rightarrow> ledger_db" where
  "record_attempt1 rid tox v kind db =
     db\<lparr>t1_client_attempts := t1_client_attempts db @ [\<lparr>a_request = rid, a_toxic = tox, verdict = v, error_kind = kind\<rparr>]\<rparr>"

text \<open>
  One POST through the network: whether it reaches the ledger, and what the client sees. \<^verbatim>\<open>raise_for_status\<close>
  raises for every status outside 2xx.
\<close>

record exchange =
  arrives :: bool
  sees :: "http_error + nat"

definition post :: "bool \<Rightarrow> exchange \<Rightarrow> charge_body \<Rightarrow> ledger_db \<Rightarrow> http_error option \<times> ledger_db" where
  "post crash x c db =
     (let db' = (if arrives x then snd (ledger_charge crash c db) else db) in
      (case sees x of Inl e \<Rightarrow> Some e
       | Inr status \<Rightarrow> if 200 \<le> status \<and> status < 300 then None else Some (Other_error ''HTTPStatusError''), db'))"

text \<open>The loop of \<^verbatim>\<open>pay\<close>: the answer is the status with the error kind.\<close>

fun pay_loop :: "bool \<Rightarrow> string \<Rightarrow> (nat \<Rightarrow> exchange) \<Rightarrow> string \<Rightarrow> string \<Rightarrow> nat \<Rightarrow> nat \<Rightarrow> (string \<times> string) option \<Rightarrow> ledger_db
    \<Rightarrow> (string \<times> string option) \<times> ledger_db" where
  "pay_loop crash retry net rid tox i 0 latest db =
     ((case latest of Some (v, k) \<Rightarrow> (v, Some k) | None \<Rightarrow> (''ambiguous'', None)), db)"
| "pay_loop crash retry net rid tox i (Suc n) latest db =
     (case post crash (net i) \<lparr>request_id = rid, toxic = tox, amount_cents = 100\<rparr> db of
        (None, db') \<Rightarrow> ((''success'', None), record_attempt1 rid tox ''success'' None db')
      | (Some e, db') \<Rightarrow>
          (let (v, k) = classify e; db2 = record_attempt1 rid tox v (Some k) db' in
           if retry = ''safe-only'' \<and> v \<noteq> ''safe'' then ((v, Some k), db2)
           else pay_loop crash retry net rid tox (Suc i) n (Some (v, k)) db2))"

definition pay :: "bool \<Rightarrow> string \<Rightarrow> nat \<Rightarrow> (nat \<Rightarrow> exchange) \<Rightarrow> string \<Rightarrow> string \<Rightarrow> ledger_db \<Rightarrow> (string \<times> string option) \<times> ledger_db" where
  "pay crash retry attempts net rid tox db = pay_loop crash retry net rid tox 0 attempts None db"

text \<open>
  What the client documents: an error raised before a connection was obtained means nothing was sent, and a
  status comes from a server that answered.
\<close>

definition honest :: "bool \<Rightarrow> exchange \<Rightarrow> bool" where
  "honest crash x = ((sees x \<in> {Inl ConnectError, Inl ConnectTimeout, Inl PoolTimeout} \<longrightarrow> \<not> arrives x)
     \<and> (\<forall>s. sees x = Inr s \<longrightarrow> 200 \<le> s \<longrightarrow> s < 300 \<longrightarrow> arrives x \<and> \<not> crash))"

lemma post_charges:
  "post crash x c db = (r, db') \<Longrightarrow> t1_charges db' = t1_charges db @ (if arrives x then [c] else [])"
  by (auto simp: post_def ledger_charge_def Let_def)

lemma record_attempt1_charges [simp]: "t1_charges (record_attempt1 rid tox v k db) = t1_charges db"
  by (simp add: record_attempt1_def)

lemma classify_safe: "fst (classify e) = ''safe'' \<longleftrightarrow> e \<in> {ConnectError, ConnectTimeout, PoolTimeout}"
  by (cases e) (simp_all add: classify_def)

lemma classify_verdict: "fst (classify e) = ''safe'' \<or> fst (classify e) = ''ambiguous''"
  by (cases e) (simp_all add: classify_def)

lemma post_safe:
  assumes "post crash x c db = (Some e, db')" "honest crash x" "fst (classify e) = ''safe''"
  shows "\<not> arrives x"
  using assms by (auto simp: post_def honest_def classify_safe Let_def split: sum.splits if_splits)

lemma post_success:
  assumes "post crash x c db = (None, db')" "honest crash x"
  shows "arrives x"
  using assms by (auto simp: post_def honest_def Let_def split: sum.splits if_splits)

lemma pay_loop_safe_only:
  assumes "\<forall>j. honest crash (net j)" "pay_loop crash ''safe-only'' net rid tox i n latest db = ((st, kind), db')"
    and "case latest of None \<Rightarrow> True | Some (v, k) \<Rightarrow> v = ''safe''"
  shows "\<exists>k\<le>1. t1_charges db' = t1_charges db @ replicate k \<lparr>request_id = rid, toxic = tox, amount_cents = 100\<rparr>
     \<and> (st = ''success'' \<longrightarrow> k = 1) \<and> (st = ''safe'' \<longrightarrow> k = 0)"
  using assms(2,3)
proof (induction n arbitrary: i latest db)
  case 0
  then show ?case by (intro exI [of _ "0::nat"]) (auto split: option.splits prod.splits)
next
  case (Suc n)
  let ?c = "\<lparr>request_id = rid, toxic = tox, amount_cents = 100::int\<rparr>"
  have hon: "honest crash (net i)" using assms(1) by blast
  obtain r db1 where post: "post crash (net i) ?c db = (r, db1)" by (cases "post crash (net i) ?c db")
  note ch = post_charges [OF post]
  show ?case
  proof (cases r)
    case None
    with post_success [OF post [unfolded None] hon] ch Suc.prems(1) post show ?thesis
      by (intro exI [of _ "1::nat"]) auto
  next
    case (Some e)
    obtain v k where v: "classify e = (v, k)" by (cases "classify e")
    show ?thesis
    proof (cases "v = ''safe''")
      case True
      then have "\<not> arrives (net i)" using post_safe [OF post [unfolded Some] hon] v by simp
      with ch have same: "t1_charges db1 = t1_charges db" by simp
      from True Suc.prems(1) post Some v
      have "pay_loop crash ''safe-only'' net rid tox (Suc i) n (Some (v, k)) (record_attempt1 rid tox v (Some k) db1) = ((st, kind), db')"
        by simp
      from Suc.IH [OF this] True same show ?thesis by simp
    next
      case False
      then have "v = ''ambiguous''" using classify_verdict [of e] v by simp
      with False Suc.prems(1) post Some v
      have st: "st = ''ambiguous''" "db' = record_attempt1 rid tox v (Some k) db1" by auto
      then show ?thesis using ch by (intro exI [of _ "of_bool (arrives (net i))"]) auto
    qed
  qed
qed

lemma pay_loop_any:
  assumes "\<forall>j<n. arrives (net (i + j)) \<and> (\<exists>e. sees (net (i + j)) = Inl e)" "n \<noteq> 0"
  shows "t1_charges (snd (pay_loop crash ''any'' net rid tox i n latest db)) =
      t1_charges db @ replicate n \<lparr>request_id = rid, toxic = tox, amount_cents = 100\<rparr>
    \<and> fst (fst (pay_loop crash ''any'' net rid tox i n latest db)) \<noteq> ''success''"
  using assms
proof (induction n arbitrary: i latest db)
  case (Suc n)
  let ?c = "\<lparr>request_id = rid, toxic = tox, amount_cents = 100::int\<rparr>"
  obtain e where e: "arrives (net i)" "sees (net i) = Inl e" using Suc.prems(1) by force
  obtain db1 where post: "post crash (net i) ?c db = (Some e, db1)" and ch: "t1_charges db1 = t1_charges db @ [?c]"
    using e by (simp add: post_def ledger_charge_def)
  obtain v k where v: "classify e = (v, k)" by (cases "classify e")
  then have amb: "v \<noteq> ''success''" using classify_verdict [of e] by auto
  have step: "pay_loop crash ''any'' net rid tox i (Suc n) latest db =
      pay_loop crash ''any'' net rid tox (Suc i) n (Some (v, k)) (record_attempt1 rid tox v (Some k) db1)"
    by (simp add: post v)
  show ?case
  proof (cases n)
    case 0
    with step ch amb show ?thesis by simp
  next
    case (Suc m)
    have "\<forall>j<n. arrives (net (Suc i + j)) \<and> (\<exists>e. sees (net (Suc i + j)) = Inl e)"
      using Suc.prems(1) by (metis Suc_less_eq add_Suc_shift)
    from Suc.IH [OF this, of "Some (v, k)" "record_attempt1 rid tox v (Some k) db1"] Suc step ch
    show ?thesis by (simp del: pay_loop.simps)
  qed
qed simp

text \<open>
  Retrying only what provably never landed charges at most once: exactly once when the answer is success,
  not at all when the last verdict is safe, and only an ambiguous answer leaves it open. Retrying on any error
  charges once per attempt that landed without an answer.
\<close>

theorem safe_only_never_duplicates:
  assumes "\<forall>j. honest crash (net j)"
  shows "(\<exists>k\<le>1. t1_charges (snd (pay crash ''safe-only'' n net rid tox db))
        = t1_charges db @ replicate k \<lparr>request_id = rid, toxic = tox, amount_cents = 100\<rparr>
      \<and> (fst (fst (pay crash ''safe-only'' n net rid tox db)) = ''success'' \<longrightarrow> k = 1)
      \<and> (fst (fst (pay crash ''safe-only'' n net rid tox db)) = ''safe'' \<longrightarrow> k = 0))
    \<and> (n \<noteq> 0 \<and> (\<forall>j<n. arrives (net j) \<and> (\<exists>e. sees (net j) = Inl e)) \<longrightarrow>
        t1_charges (snd (pay crash ''any'' n net rid tox db))
        = t1_charges db @ replicate n \<lparr>request_id = rid, toxic = tox, amount_cents = 100\<rparr>)"
proof -
  obtain st kind db' where p: "pay crash ''safe-only'' n net rid tox db = ((st, kind), db')"
    by (metis prod.exhaust)
  from pay_loop_safe_only [OF assms p [unfolded pay_def]] pay_loop_any [of n net 0] show ?thesis
    unfolding p by (auto simp: pay_def)
qed

theorem safe_only_never_duplicates_witness:
  "let net = (\<lambda>_. \<lparr>arrives = True, sees = Inl ReadTimeout\<rparr>); db = \<lparr>t1_charges = [], t1_client_attempts = []\<rparr> in
     (\<exists>k\<le>1. length (t1_charges (snd (pay False ''safe-only'' 3 net ''r1'' ''slow'' db))) = k)
     \<and> length (t1_charges (snd (pay False ''any'' 3 net ''r1'' ''slow'' db))) = 3"
proof -
  let ?net = "\<lambda>_::nat. \<lparr>arrives = True, sees = Inl ReadTimeout\<rparr>"
  let ?db = "\<lparr>t1_charges = [], t1_client_attempts = []\<rparr>"
  have "\<forall>j. honest False (?net j)" by (simp add: honest_def)
  note t = safe_only_never_duplicates [OF this, of 3 "''r1''" "''slow''" ?db]
  from conjunct1 [OF t] have "\<exists>k\<le>1. length (t1_charges (snd (pay False ''safe-only'' 3 ?net ''r1'' ''slow'' ?db))) = k" by auto
  moreover from conjunct2 [OF t] have "length (t1_charges (snd (pay False ''any'' 3 ?net ''r1'' ''slow'' ?db))) = 3" by simp
  ultimately show ?thesis by (simp add: Let_def)
qed

subsection \<open>The in-process experiment\<close>

text \<open>
  What the raw-socket server does with the connection of one request, besides the commit; \<open>Not_listening\<close> is the
  closed port.
\<close>

datatype sock_action = Replies string | Replies_late string | Never_replies | Sends_rst | Closes_silently | Not_listening

definition serve :: "string \<Rightarrow> string \<Rightarrow> string list \<Rightarrow> sock_action \<times> string list" where
  "serve mode charge_id rows =
     (if mode = ''ok'' then (Replies ''200 OK'', rows @ [charge_id])
      else if mode = ''slow'' then (Replies_late ''200 OK'', rows @ [charge_id])
      else if mode = ''hang'' then (Never_replies, rows @ [charge_id])
      else if mode = ''reset'' then (Sends_rst, rows @ [charge_id])
      else if mode = ''crash_after_commit'' then (Closes_silently, rows @ [charge_id])
      else (Replies ''400 Bad Request'', rows))"

definition MODES :: "string list" where
  "MODES = [''ok'', ''slow'', ''hang'', ''reset'', ''crash_after_commit'', ''refused'']"

definition classify_local :: "http_error \<Rightarrow> string \<times> string" where
  "classify_local e =
     (if e = PoolTimeout then (''SAFE'', ''PoolTimeout'')
      else if e \<in> {ConnectError, ConnectTimeout} then (''SAFE'', error_name e)
      else (''AMBIGUOUS'', error_name e))"

text \<open>\<^verbatim>\<open>attempt\<close>, with the client as a parameter: what \<^verbatim>\<open>client.get\<close> raises or returns for each action.\<close>

definition attempt :: "(sock_action \<Rightarrow> http_error + nat) \<Rightarrow> sock_action \<Rightarrow> string \<times> string" where
  "attempt get act = (case get act of Inl e \<Rightarrow> classify_local e | Inr status \<Rightarrow> (''SUCCESS'', py_str_nat status))"

definition target :: "string \<Rightarrow> string \<Rightarrow> string list \<Rightarrow> sock_action \<times> string list" where
  "target mode charge_id rows = (if mode = ''refused'' then (Not_listening, rows) else serve mode charge_id rows)"

fun try_request :: "(sock_action \<Rightarrow> http_error + nat) \<Rightarrow> bool \<Rightarrow> string \<Rightarrow> string \<Rightarrow> nat \<Rightarrow> nat \<Rightarrow> string \<times> string \<Rightarrow> string list
    \<Rightarrow> (string \<times> string) \<times> nat \<times> string list" where
  "try_request get retry_ambiguous mode cid 0 tries v rows = (v, tries, rows)"
| "try_request get retry_ambiguous mode cid (Suc n) tries v rows =
     (let (act, rows') = target mode cid rows; v' = attempt get act in
      if fst v' = ''SUCCESS'' then (v', Suc tries, rows')
      else if fst v' = ''SAFE'' \<or> retry_ambiguous then try_request get retry_ambiguous mode cid n (Suc tries) v' rows'
      else (v', Suc tries, rows'))"

text \<open>
  One fault mode: its requests, each with the verdict it ends on; then \<^verbatim>\<open>run_phase\<close> over all of them with the
  totals it returns (duplicates, unresolved, rows). \<^verbatim>\<open>MAX_ATTEMPTS\<close> is positive, so the first verdict is never used.
\<close>

definition run_mode :: "(sock_action \<Rightarrow> http_error + nat) \<Rightarrow> bool \<Rightarrow> nat \<Rightarrow> nat \<Rightarrow> string \<Rightarrow> string
    \<Rightarrow> (string \<times> string) list \<times> nat \<times> string list \<Rightarrow> (string \<times> string) list \<times> nat \<times> string list" where
  "run_mode get retry_ambiguous requests max_attempts name mode s =
     foldl (\<lambda>(vs, tries, rows) i.
       let cid = take 2 name @ ''-'' @ mode @ ''-'' @ py_str_nat i;
           (v, tries', rows') = try_request get retry_ambiguous mode cid max_attempts tries (''AMBIGUOUS'', [])  rows
       in (vs @ [v], tries', rows')) s [0..<requests]"

definition duplicates_in :: "string list \<Rightarrow> nat" where
  "duplicates_in rows = sum_list (map (\<lambda>c. count_list rows c - 1) (remdups rows))"

definition run_phase :: "(sock_action \<Rightarrow> http_error + nat) \<Rightarrow> bool \<Rightarrow> nat \<Rightarrow> nat \<Rightarrow> string \<Rightarrow> string list \<Rightarrow> nat \<times> nat \<times> nat" where
  "run_phase get retry_ambiguous requests max_attempts name ledger =
     (let (vs, _, rows) = foldl (\<lambda>s mode. run_mode get retry_ambiguous requests max_attempts name mode s) ([], 0, ledger) MODES;
          new = drop (length ledger) rows in
      (duplicates_in new, length (filter (\<lambda>v. fst v = ''AMBIGUOUS'') vs), length new))"

text \<open>What the client documents about the five faults.\<close>

definition documented_get :: "sock_action \<Rightarrow> http_error + nat" where
  "documented_get act =
     (case act of Replies s \<Rightarrow> Inr (if s = ''200 OK'' then 200 else 400) | Replies_late _ \<Rightarrow> Inl ReadTimeout
      | Never_replies \<Rightarrow> Inl ReadTimeout | Sends_rst \<Rightarrow> Inl ReadError | Closes_silently \<Rightarrow> Inl RemoteProtocolError
      | Not_listening \<Rightarrow> Inl ConnectError)"

lemma naive_phase: "run_phase documented_get True 4 3 ''phase 1'' [] = (32, 16, 52)"
  by code_simp

lemma fixed_phase: "run_phase documented_get False 4 3 ''phase 2'' [] = (0, 16, 20)"
  by code_simp

end
