(* ===== verification/Dist_Sessions.thy ===== *)
theory Dist_Sessions
  imports PyFloat
begin

text \<open>
  Session guarantees over lagging replicas: the cluster and the checker of
  \<^verbatim>\<open>04-distributed/04-.../python/session_guarantees.py\<close>, its scenarios, and the read path of the container
  service \<^verbatim>\<open>docker/services/app/api4.py\<close>.
\<close>

subsection \<open>The cluster\<close>

type_synonym log_entry = "nat \<times> string \<times> string"

record replica =
  rep_name :: string
  lag :: nat
  applied :: nat
  store :: "string \<rightharpoonup> string"
  lsn :: nat

function catch_loop :: "log_entry list \<Rightarrow> nat \<Rightarrow> replica \<Rightarrow> replica" where
  "catch_loop lg target r =
     (if applied r < target
      then (let (n, k, v) = lg ! applied r in
            catch_loop lg target (r\<lparr>store := (store r)(k \<mapsto> v), lsn := n, applied := Suc (applied r)\<rparr>))
      else r)"
  by pat_completeness auto
termination by (relation "measure (\<lambda>(lg, target, r). target - applied r)") auto

declare catch_loop.simps [simp del]

definition catch_up :: "log_entry list \<Rightarrow> replica \<Rightarrow> replica" where
  "catch_up lg r = catch_loop lg (length lg - lag r) r"

record cluster =
  replicas :: "replica list"
  oplog :: "log_entry list"
  primary :: "string \<rightharpoonup> string"
  next_lsn :: nat
  primary_reads :: nat
  replica_reads :: nat
  poll_iterations :: nat
  fallbacks :: nat

definition new_replica :: "string \<Rightarrow> nat \<Rightarrow> replica" where
  "new_replica name l = \<lparr>rep_name = name, lag = l, applied = 0, store = Map.empty, lsn = 0\<rparr>"

definition new_cluster :: "replica list \<Rightarrow> cluster" where
  "new_cluster rs = \<lparr>replicas = rs, oplog = [], primary = Map.empty, next_lsn = 1, primary_reads = 0,
     replica_reads = 0, poll_iterations = 0, fallbacks = 0\<rparr>"

definition cluster_write :: "string \<Rightarrow> string \<Rightarrow> cluster \<Rightarrow> nat \<times> cluster" where
  "cluster_write k v c =
     (let n = next_lsn c; lg = oplog c @ [(n, k, v)] in
      (n, c\<lparr>next_lsn := n + 1, primary := (primary c)(k \<mapsto> v), oplog := lg, replicas := map (catch_up lg) (replicas c)\<rparr>))"

definition read_primary :: "string \<Rightarrow> cluster \<Rightarrow> string option \<times> cluster" where
  "read_primary k c = (primary c k, c\<lparr>primary_reads := primary_reads c + 1\<rparr>)"

definition read_replica :: "nat \<Rightarrow> string \<Rightarrow> cluster \<Rightarrow> (string option \<times> cluster) py" where
  "read_replica i k c =
     (if i < length (replicas c) then Inr (store (replicas c ! i) k, c\<lparr>replica_reads := replica_reads c + 1\<rparr>)
      else Inl IndexError)"

text \<open>The polling loop of \<^verbatim>\<open>read_lsn_token\<close>: a replica that is behind replays one operation per poll.\<close>

fun token_polls :: "nat \<Rightarrow> nat \<Rightarrow> string \<Rightarrow> nat \<Rightarrow> cluster \<Rightarrow> (string option \<times> string) \<times> cluster" where
  "token_polls i 0 k token c =
     (let (v, c') = read_primary k (c\<lparr>fallbacks := fallbacks c + 1\<rparr>) in ((v, ''primary (fallback: deadline hit)''), c'))"
| "token_polls i (Suc n) k token c =
     (let c1 = c\<lparr>poll_iterations := poll_iterations c + 1\<rparr>; r = replicas c ! i in
      if token \<le> lsn r then ((store r k, ''replica '' @ rep_name r), c1\<lparr>replica_reads := replica_reads c1 + 1\<rparr>)
      else let r' = catch_up (oplog c) (r\<lparr>lag := lag r - 1\<rparr>) in
           token_polls i n k token (c1\<lparr>replicas := (replicas c)[i := r']\<rparr>))"

definition read_lsn_token :: "nat \<Rightarrow> string \<Rightarrow> nat \<Rightarrow> nat \<Rightarrow> cluster \<Rightarrow> ((string option \<times> string) \<times> cluster) py" where
  "read_lsn_token i k token max_polls c =
     (if i < length (replicas c) then Inr (token_polls i max_polls k token c) else Inl IndexError)"

subsection \<open>Replicas hold a prefix of the log\<close>

definition replay :: "log_entry list \<Rightarrow> string \<rightharpoonup> string" where
  "replay lg = foldl (\<lambda>m (_, k, v). m(k \<mapsto> v)) Map.empty lg"

lemma replay_snoc [simp]: "replay (lg @ [(n, k, v)]) = (replay lg)(k \<mapsto> v)"
  by (simp add: replay_def)

definition prefix_of :: "log_entry list \<Rightarrow> replica \<Rightarrow> bool" where
  "prefix_of lg r = (applied r \<le> length lg \<and> store r = replay (take (applied r) lg) \<and> lsn r = applied r)"

definition numbered :: "log_entry list \<Rightarrow> bool" where
  "numbered lg = (\<forall>j<length lg. fst (lg ! j) = Suc j)"

lemma catch_loop_prefix:
  "prefix_of lg r \<Longrightarrow> numbered lg \<Longrightarrow> target \<le> length lg \<Longrightarrow>
   prefix_of lg (catch_loop lg target r) \<and> applied (catch_loop lg target r) = max target (applied r)
   \<and> lag (catch_loop lg target r) = lag r \<and> rep_name (catch_loop lg target r) = rep_name r"
proof (induction lg target r rule: catch_loop.induct)
  case (1 lg target r)
  show ?case
  proof (cases "applied r < target")
    case True
    obtain n k v where e: "lg ! applied r = (n, k, v)" by (cases "lg ! applied r")
    let ?r = "r\<lparr>store := (store r)(k \<mapsto> v), lsn := n, applied := Suc (applied r)\<rparr>"
    have lt: "applied r < length lg" using True "1.prems"(3) by simp
    then have "n = Suc (applied r)" using "1.prems"(2) e unfolding numbered_def by force
    moreover have "take (Suc (applied r)) lg = take (applied r) lg @ [(n, k, v)]"
      using lt e by (simp add: take_Suc_conv_app_nth)
    ultimately have "prefix_of lg ?r" using "1.prems"(1) lt by (simp add: prefix_of_def)
    with "1.IH" [OF True e [symmetric] refl] "1.prems" True e show ?thesis
      by (subst (1 2 3 4) catch_loop.simps) (simp add: max_def)
  next
    case False
    with "1.prems" show ?thesis by (subst (1 2 3 4) catch_loop.simps) simp
  qed
qed

lemma catch_up_prefix:
  "prefix_of lg r \<Longrightarrow> numbered lg \<Longrightarrow> prefix_of lg (catch_up lg r)
   \<and> applied (catch_up lg r) = max (length lg - lag r) (applied r) \<and> lag (catch_up lg r) = lag r
   \<and> rep_name (catch_up lg r) = rep_name r"
  unfolding catch_up_def by (rule catch_loop_prefix) simp_all

lemma prefix_of_append: "prefix_of lg r \<Longrightarrow> prefix_of (lg @ [e]) r"
  by (simp add: prefix_of_def)

definition cluster_ok :: "cluster \<Rightarrow> bool" where
  "cluster_ok c = (numbered (oplog c) \<and> next_lsn c = Suc (length (oplog c)) \<and> primary c = replay (oplog c)
     \<and> (\<forall>r\<in>set (replicas c). prefix_of (oplog c) r))"

lemma new_cluster_ok: "cluster_ok (new_cluster (map (\<lambda>(n, l). new_replica n l) rs))"
  by (auto simp: cluster_ok_def new_cluster_def new_replica_def numbered_def prefix_of_def replay_def)

lemma numbered_snoc: "numbered lg \<Longrightarrow> n = Suc (length lg) \<Longrightarrow> numbered (lg @ [(n, k, v)])"
  by (auto simp: numbered_def nth_append less_Suc_eq)

lemma cluster_write_ok:
  assumes "cluster_ok c"
  shows "cluster_ok (snd (cluster_write k v c)) \<and> fst (cluster_write k v c) = length (oplog (snd (cluster_write k v c)))"
proof -
  let ?lg = "oplog c @ [(next_lsn c, k, v)]"
  have num: "numbered ?lg" using assms by (intro numbered_snoc) (simp_all add: cluster_ok_def)
  have "prefix_of ?lg (catch_up ?lg r)" if "r \<in> set (replicas c)" for r
    using that assms catch_up_prefix [OF prefix_of_append num] by (simp add: cluster_ok_def)
  with assms num show ?thesis by (simp add: cluster_ok_def cluster_write_def Let_def)
qed

lemma token_polls_fresh:
  assumes "cluster_ok c" "i < length (replicas c)" "token \<le> length (oplog c)"
    and "token_polls i n k token c = ((v, where), c')"
  shows "cluster_ok c' \<and> oplog c' = oplog c \<and> poll_iterations c' \<le> poll_iterations c + n
    \<and> (\<exists>m. token \<le> m \<and> m \<le> length (oplog c) \<and> v = replay (take m (oplog c)) k)"
  using assms
proof (induction n arbitrary: c)
  case 0
  then have "v = replay (take (length (oplog c)) (oplog c)) k" by (simp add: read_primary_def cluster_ok_def Let_def)
  with 0 show ?case by (auto simp: read_primary_def cluster_ok_def Let_def intro!: exI [of _ "length (oplog c)"])
next
  case (Suc n)
  let ?r = "replicas c ! i"
  have r: "prefix_of (oplog c) ?r" using Suc.prems by (simp add: cluster_ok_def)
  show ?case
  proof (cases "token \<le> lsn ?r")
    case True
    with Suc.prems r have "v = replay (take (applied ?r) (oplog c)) k" "applied ?r \<le> length (oplog c)" "lsn ?r = applied ?r"
      by (auto simp: prefix_of_def Let_def)
    moreover have "c' = c\<lparr>poll_iterations := poll_iterations c + 1, replica_reads := replica_reads c + 1\<rparr>"
      using True Suc.prems(4) by (simp add: Let_def)
    ultimately show ?thesis using Suc.prems(1) True by (auto simp: cluster_ok_def)
  next
    case False
    let ?r' = "catch_up (oplog c) (?r\<lparr>lag := lag ?r - 1\<rparr>)"
    let ?c = "c\<lparr>poll_iterations := poll_iterations c + 1, replicas := (replicas c)[i := ?r']\<rparr>"
    have "prefix_of (oplog c) (?r\<lparr>lag := lag ?r - 1\<rparr>)" using r by (simp add: prefix_of_def)
    then have "prefix_of (oplog c) ?r'" using catch_up_prefix Suc.prems(1) by (simp add: cluster_ok_def)
    then have "cluster_ok ?c" using Suc.prems(1) by (auto simp: cluster_ok_def dest!: set_update_subset_insert [THEN subsetD])
    moreover have "token_polls i n k token ?c = ((v, where), c')" using False Suc.prems(4) by (simp add: Let_def)
    ultimately show ?thesis using Suc.IH [of ?c] Suc.prems(2,3) by simp
  qed
qed

text \<open>The operations of a cluster, for states reached by any sequence of them.\<close>

datatype cluster_op = Write_key string string | Primary_read string | Replica_read nat string | Token_read nat string nat nat

fun cluster_step :: "cluster_op \<Rightarrow> cluster \<Rightarrow> cluster" where
  "cluster_step (Write_key k v) c = snd (cluster_write k v c)"
| "cluster_step (Primary_read k) c = snd (read_primary k c)"
| "cluster_step (Replica_read i k) c = (case read_replica i k c of Inl _ \<Rightarrow> c | Inr (_, c') \<Rightarrow> c')"
| "cluster_step (Token_read i k token n) c = (case read_lsn_token i k token n c of Inl _ \<Rightarrow> c | Inr (_, c') \<Rightarrow> c')"

definition cluster_run :: "cluster_op list \<Rightarrow> cluster \<Rightarrow> cluster" where
  "cluster_run ops c = foldl (\<lambda>c op. cluster_step op c) c ops"

lemma token_polls_ok:
  assumes "cluster_ok c" "i < length (replicas c)"
  shows "cluster_ok (snd (token_polls i n k token c))"
  using assms
proof (induction n arbitrary: c)
  case (Suc n)
  let ?r = "replicas c ! i"
  let ?c = "c\<lparr>poll_iterations := poll_iterations c + 1, replicas := (replicas c)[i := catch_up (oplog c) (?r\<lparr>lag := lag ?r - 1\<rparr>)]\<rparr>"
  have "prefix_of (oplog c) (?r\<lparr>lag := lag ?r - 1\<rparr>)" using Suc.prems by (auto simp: cluster_ok_def prefix_of_def)
  then have "prefix_of (oplog c) (catch_up (oplog c) (?r\<lparr>lag := lag ?r - 1\<rparr>))"
    using catch_up_prefix Suc.prems(1) by (simp add: cluster_ok_def)
  then have "cluster_ok ?c" using Suc.prems(1) by (auto simp: cluster_ok_def dest!: set_update_subset_insert [THEN subsetD])
  from Suc.IH [OF this] Suc.prems show ?case by (auto simp: Let_def cluster_ok_def)
qed (simp add: read_primary_def cluster_ok_def Let_def)

lemma cluster_step_ok: "cluster_ok c \<Longrightarrow> cluster_ok (cluster_step op c)"
proof (cases op)
  case (Token_read i k token n)
  assume "cluster_ok c"
  with token_polls_ok [of c i n k token] Token_read show ?thesis by (simp add: read_lsn_token_def case_prod_beta)
next
  case (Replica_read i k)
  assume "cluster_ok c"
  with Replica_read show ?thesis by (simp add: read_replica_def cluster_ok_def)
next
  case (Primary_read k)
  assume "cluster_ok c"
  with Primary_read show ?thesis by (simp add: read_primary_def cluster_ok_def)
qed (simp add: cluster_write_ok)

lemma cluster_run_ok: "cluster_ok c \<Longrightarrow> cluster_ok (cluster_run ops c)"
  by (induction ops arbitrary: c) (simp_all add: cluster_run_def cluster_step_ok)

lemma replay_after:
  assumes "lg = xs @ (n, k, v) # ys" "length xs < m" "k \<notin> (fst \<circ> snd) ` set ys"
  shows "replay (take m lg) k = Some v"
proof -
  obtain j where m: "m = Suc (length xs) + j" using assms(2) by (metis less_natE add_Suc)
  have tk: "take m lg = xs @ (n, k, v) # take j ys" by (simp add: assms(1) m)
  have "k \<notin> (fst \<circ> snd) ` set zs \<Longrightarrow> foldl (\<lambda>m (_, k, v). m(k \<mapsto> v)) f zs k = f k" for zs :: "log_entry list" and f
    by (induction zs arbitrary: f) auto
  moreover have "k \<notin> (fst \<circ> snd) ` set (take j ys)" using assms(3) set_take_subset [of j ys] by blast
  ultimately show ?thesis unfolding tk replay_def by simp
qed

text \<open>
  C36. Read-your-writes through the LSN token: whatever happened before, on replicas with any lag, a read with the
  token of the latest write of a key returns the value written, after at most \<^verbatim>\<open>max_polls\<close> polls, from the replica
  once it has caught up and from the primary otherwise.
\<close>

theorem lsn_token_reads_your_writes:
  assumes "c = cluster_run ops (new_cluster (map (\<lambda>(n, l). new_replica n l) rs))" "i < length (replicas c)"
    and "oplog c = xs @ (token, k, v) # ys" "k \<notin> (fst \<circ> snd) ` set ys"
  shows "\<exists>source c'. read_lsn_token i k token polls c = Inr ((Some v, source), c')
     \<and> poll_iterations c' \<le> poll_iterations c + polls"
proof -
  have ok: "cluster_ok c" unfolding assms(1) by (rule cluster_run_ok [OF new_cluster_ok])
  have "length xs < length (oplog c)" "oplog c ! length xs = (token, k, v)" by (simp_all add: assms(3))
  with ok have tok: "token = Suc (length xs)" by (auto simp: cluster_ok_def numbered_def)
  obtain w source c' where p: "token_polls i polls k token c = ((w, source), c')" by (metis prod.exhaust)
  have "token \<le> length (oplog c)" by (simp add: assms(3) tok)
  from token_polls_fresh [OF ok assms(2) this p] obtain m where m: "token \<le> m" "w = replay (take m (oplog c)) k"
    and it: "poll_iterations c' \<le> poll_iterations c + polls" by auto
  have "w = Some v" unfolding m(2) using m(1) tok by (intro replay_after [OF assms(3) _ assms(4)]) simp
  with p it assms(2) show ?thesis by (simp add: read_lsn_token_def)
qed

subsection \<open>The checker\<close>

datatype violation =
    Read_your_writes string string "string option" string
  | Monotonic_reads string int int "string option" string

record checker =
  violations :: "violation list"
  my_writes :: "string \<rightharpoonup> string"
  version_order :: "(string \<times> string) list"
  last_seen_index :: "string \<rightharpoonup> int"

definition new_checker :: checker where
  "new_checker = \<lparr>violations = [], my_writes = Map.empty, version_order = [], last_seen_index = Map.empty\<rparr>"

definition observe_write :: "string \<Rightarrow> string \<Rightarrow> bool \<Rightarrow> checker \<Rightarrow> checker" where
  "observe_write k v mine ck =
     (let ck' = (if mine then ck\<lparr>my_writes := (my_writes ck)(k \<mapsto> v)\<rparr> else ck) in
      ck'\<lparr>version_order := version_order ck @ [(k, v)]\<rparr>)"

definition version_of :: "string \<Rightarrow> string option \<Rightarrow> checker \<Rightarrow> int" where
  "version_of k value ck =
     (let hits = filter (\<lambda>i. fst (version_order ck ! i) = k \<and> Some (snd (version_order ck ! i)) = value)
                   [0..<length (version_order ck)] in
      if hits = [] then - 1 else int (List.last hits))"

definition observe_read :: "string \<Rightarrow> string option \<Rightarrow> string \<Rightarrow> checker \<Rightarrow> checker" where
  "observe_read k value source ck =
     (let v1 = (case my_writes ck k of None \<Rightarrow> [] | Some mine \<Rightarrow>
                  if value \<noteq> Some mine then [Read_your_writes k mine value source] else []);
          idx = version_of k value ck;
          v2 = (case last_seen_index ck k of None \<Rightarrow> [] | Some seen \<Rightarrow>
                  if idx < seen then [Monotonic_reads k seen idx value source] else []);
          before = (case last_seen_index ck k of None \<Rightarrow> - 1 | Some seen \<Rightarrow> seen) in
      ck\<lparr>violations := violations ck @ v1 @ v2, last_seen_index := (last_seen_index ck)(k \<mapsto> max idx before)\<rparr>)"

definition report :: "checker \<Rightarrow> bool" where
  "report ck = (violations ck = [])"

subsection \<open>The scenarios\<close>

text \<open>Reads through a replica or the primary, observed by the checker; a bad index would raise.\<close>

definition observed_read :: "nat \<Rightarrow> string \<Rightarrow> string \<Rightarrow> cluster \<times> checker \<Rightarrow> cluster \<times> checker" where
  "observed_read i k source s =
     (case read_replica i k (fst s) of Inl _ \<Rightarrow> s | Inr (v, c') \<Rightarrow> (c', observe_read k v source (snd s)))"

definition value_at :: "nat \<Rightarrow> string \<Rightarrow> cluster \<Rightarrow> string option" where
  "value_at i k c = (case read_replica i k c of Inl _ \<Rightarrow> None | Inr (v, _) \<Rightarrow> v)"

definition scenario_read_your_writes :: "checker \<times> checker \<times> nat \<times> nat" where
  "scenario_read_your_writes =
     (let k = ''profile:1'';
          c1 = snd (cluster_write k ''name=old'' (new_cluster [new_replica ''standby'' 2]));
          (token, c2) = cluster_write k ''name=NEW'' c1;
          ck = observe_write k ''name=NEW'' True new_checker;
          broken = snd (observed_read 0 k ''replica'' (c2, ck));
          (v2, c3) = read_primary k c2;
          sticky = observe_read k v2 ''primary'' ck
      in (broken, sticky, primary_reads c3, replica_reads c3))"

definition scenario_monotonic_reads :: checker where
  "scenario_monotonic_reads =
     (let k = ''post:9'';
          step = (\<lambda>(c, ck) v. (snd (cluster_write k v c), observe_write k v False ck));
          s = foldl step (new_cluster [new_replica ''fast'' 0, new_replica ''slow'' 3], new_checker) [''v1'', ''v2'', ''v3'']
      in snd (observed_read 0 k ''fast'' (observed_read 1 k ''slow'' (observed_read 0 k ''fast'' s))))"

definition scenario_monotonic_writes :: "string option" where
  "scenario_monotonic_writes =
     (let c1 = snd (cluster_write ''cfg'' ''B'' (new_cluster [new_replica ''standby'' 0]));
          c2 = snd (cluster_write ''cfg'' ''A'' c1)
      in value_at 0 ''cfg'' c2)"

definition scenario_writes_follow_reads :: "string option \<times> string option" where
  "scenario_writes_follow_reads =
     (let c1 = snd (cluster_write ''comment:1'' ''is this on?''
                 (new_cluster [new_replica ''replica-1'' 2, new_replica ''replica-2'' 0]));
          c2 = snd (cluster_write ''reply:1'' ''yes -> comment:1'' c1)
      in (value_at 0 ''comment:1'' c2, value_at 1 ''reply:1'' c2))"

text \<open>\<^verbatim>\<open>prefix_ok\<close>: a reader explained by a serial order sees no later write without the earlier ones.\<close>

fun prefix_ok :: "bool \<Rightarrow> string list \<Rightarrow> (string \<Rightarrow> bool) \<Rightarrow> bool" where
  "prefix_ok gap [] seen = True"
| "prefix_ok gap (k # ks) seen =
     (if \<not> seen k then prefix_ok True ks seen else if gap then False else prefix_ok gap ks seen)"

definition scenario_long_fork :: "string list" where
  "scenario_long_fork =
     (let c1 = snd (cluster_write ''x'' ''1'' (new_cluster [new_replica ''endpoint-1'' 0, new_replica ''endpoint-2'' 0]));
          c2 = snd (cluster_write ''y'' ''1'' c1);
          e1 = (replicas c2 ! 0)\<lparr>store := [''y'' \<mapsto> ''1'']\<rparr>;
          e2 = (replicas c2 ! 1)\<lparr>store := [''x'' \<mapsto> ''1'']\<rparr>;
          sees = (\<lambda>r k. store r k \<noteq> None);
          orders = [(''x then y'', [''x'', ''y'']), (''y then x'', [''y'', ''x''])]
      in map fst (filter (\<lambda>(_, ks). prefix_ok False ks (sees e1) \<and> prefix_ok False ks (sees e2)) orders))"

definition scenario_lsn_token :: "nat \<Rightarrow> string option \<times> nat \<times> nat \<times> bool" where
  "scenario_lsn_token l =
     (let k = ''order:7'';
          c8 = foldl (\<lambda>c i. snd (cluster_write k (''state-'' @ py_str_nat i) c)) (new_cluster [new_replica ''standby'' l]) [0..<8];
          (token, c9) = cluster_write k ''state-FINAL'' c8;
          ck = observe_write k ''state-FINAL'' True new_checker
      in case read_lsn_token 0 k token 3 c9 of
           Inl _ \<Rightarrow> (None, 0, 0, False)
         | Inr ((v, source), c) \<Rightarrow> (v, poll_iterations c, fallbacks c, report (observe_read k v source ck)))"

lemma scenarios_as_announced:
  "length (violations (fst scenario_read_your_writes)) = 1"
  "report (fst (snd scenario_read_your_writes)) \<and> snd (snd scenario_read_your_writes) = (1, 0)"
  "violations scenario_monotonic_reads = [Monotonic_reads ''post:9'' 2 (- 1) None ''slow'']"
  "scenario_monotonic_writes = Some ''A''"
  "scenario_writes_follow_reads = (None, Some ''yes -> comment:1'')"
  "scenario_long_fork = []"
  "scenario_lsn_token 1 = (Some ''state-FINAL'', 2, 0, True)"
  "scenario_lsn_token 6 = (Some ''state-FINAL'', 3, 1, True)"
  by code_simp+

text \<open>
  The version of a value is the last position it was written at, so a value written twice makes the checker
  report a monotonic-reads violation on reads that only ever moved forward: one replica, one key.
\<close>

definition rewritten_value :: checker where
  "rewritten_value =
     (let wr = (\<lambda>v (c, ck). (snd (cluster_write ''cfg'' v c), observe_write ''cfg'' v False ck)) in
      snd (observed_read 0 ''cfg'' ''standby'' (wr ''C'' (observed_read 0 ''cfg'' ''standby''
        (wr ''A'' (wr ''B'' (wr ''A'' (new_cluster [new_replica ''standby'' 2], new_checker))))))))"

lemma checker_false_alarm:
  "violations rewritten_value = [Monotonic_reads ''cfg'' 2 1 (Some ''B'') ''standby'']"
  by code_simp

theorem lsn_token_reads_your_writes_witness:
  "let c = cluster_run [Write_key ''k'' ''old'', Write_key ''k'' ''new''] (new_cluster (map (\<lambda>(n, l). new_replica n l) [(''standby'', 2)])) in
     \<exists>source c'. read_lsn_token 0 ''k'' 2 3 c = Inr ((Some ''new'', source), c') \<and> poll_iterations c' \<le> poll_iterations c + 3"
proof -
  let ?c = "cluster_run [Write_key ''k'' ''old'', Write_key ''k'' ''new''] (new_cluster (map (\<lambda>(n, l). new_replica n l) [(''standby'', 2)]))"
  have "0 < length (replicas ?c)" "oplog ?c = [(1, ''k'', ''old'')] @ (2, ''k'', ''new'') # []"
    by (simp_all add: cluster_run_def cluster_write_def new_cluster_def Let_def)
  from lsn_token_reads_your_writes [OF refl this, of 3] show ?thesis by (simp only: Let_def) simp
qed

subsection \<open>The container service\<close>

text \<open>
  \<^verbatim>\<open>api4\<close>: writes go to the primary and remember the session's WAL position; reads choose the database by \<^verbatim>\<open>FIX\<close>.
  The standby's replay position is a function of the poll, chosen by the environment, as is the clock.
\<close>

record probe =
  p_fix :: string
  gap_ms :: int
  entity_id :: string
  written_value :: string
  read_value :: "string option"
  write_lsn :: nat
  in_recovery :: bool
  polls :: nat
  fell_back :: bool

record api4 =
  wal :: "log_entry list"
  sessions :: "string \<rightharpoonup> nat \<times> rat"
  probes :: "probe list"

definition api_write :: "rat \<Rightarrow> string \<Rightarrow> string \<Rightarrow> string \<Rightarrow> api4 \<Rightarrow> nat \<times> api4" where
  "api_write now session entity v a =
     (let n = Suc (length (wal a)) in
      (n, a\<lparr>wal := wal a @ [(n, entity, v)], sessions := (sessions a)(session \<mapsto> (n, now))\<rparr>))"

partial_function (option) lsn_wait :: "(nat \<Rightarrow> nat) \<Rightarrow> (nat \<Rightarrow> rat) \<Rightarrow> nat \<Rightarrow> rat \<Rightarrow> nat \<Rightarrow> (nat \<times> bool) option" where
  "lsn_wait pos clk wl deadline k =
     (if wl \<le> pos k then Some (Suc k, False)
      else if deadline \<le> clk k then Some (Suc k, True)
      else lsn_wait pos clk wl deadline (Suc k))"

record read_env =
  now_at :: rat
  replay_at :: "nat \<Rightarrow> nat"
  clock_at :: "nat \<Rightarrow> rat"
  replay_read :: nat

text \<open>Which database the read goes to: whether it is the primary, the polls made, whether it fell back.\<close>

definition choose_db :: "string \<Rightarrow> int \<Rightarrow> int \<Rightarrow> read_env \<Rightarrow> (nat \<times> rat) option \<Rightarrow> (bool \<times> nat \<times> bool) option" where
  "choose_db fix sticky_ms timeout_ms env sess =
     (case sess of
        None \<Rightarrow> Some (False, 0, False)
      | Some (wl, wts) \<Rightarrow>
          if fix = ''sticky'' \<and> fl (fl (now_at env - wts) * 1000) < of_int sticky_ms then Some (True, 0, False)
          else if fix = ''lsn'' then
            map_option (\<lambda>(n, fb). (fb, n, fb))
              (lsn_wait (replay_at env) (clock_at env) wl (fl (now_at env + fl (of_int timeout_ms / 1000))) 0)
          else Some (False, 0, False))"

definition api_read :: "string \<Rightarrow> int \<Rightarrow> int \<Rightarrow> read_env \<Rightarrow> string \<Rightarrow> string \<Rightarrow> int \<Rightarrow> string \<Rightarrow> api4 \<Rightarrow> (probe \<times> api4) option" where
  "api_read fix sticky_ms timeout_ms env entity expected gap session a =
     map_option (\<lambda>(primary, n, fb).
       let v = (if primary then replay (wal a) entity else replay (take (replay_read env) (wal a)) entity);
           row = \<lparr>p_fix = fix, gap_ms = gap, entity_id = entity, written_value = expected, read_value = v,
                  write_lsn = (case sessions a session of None \<Rightarrow> 0 | Some (wl, _) \<Rightarrow> wl), in_recovery = \<not> primary,
                  polls = n, fell_back = fb\<rparr>
       in (row, a\<lparr>probes := probes a @ [row]\<rparr>))
      (choose_db fix sticky_ms timeout_ms env (sessions a session))"

definition stale :: "probe \<Rightarrow> bool" where
  "stale p = (read_value p \<noteq> Some (written_value p))"

lemma lsn_wait_returns:
  "wl \<le> pos (k + d) \<or> deadline \<le> clk (k + d) \<Longrightarrow>
   \<exists>n fb. lsn_wait pos clk wl deadline k = Some (n, fb) \<and> k < n \<and> n \<le> Suc (k + d) \<and> (\<not> fb \<longrightarrow> wl \<le> pos (n - 1))"
proof (induction d arbitrary: k)
  case (Suc d)
  show ?case
  proof (cases "wl \<le> pos k \<or> deadline \<le> clk k")
    case False
    with Suc.IH [of "Suc k"] Suc.prems show ?thesis by (subst lsn_wait.simps) auto
  qed (subst lsn_wait.simps; auto)
qed (subst lsn_wait.simps; auto)

text \<open>
  With \<^verbatim>\<open>FIX=lsn\<close> the read returns as soon as the standby has replayed far enough or the deadline has passed, and
  it is never stale towards the session's own last write; a standby's replay position does not go back.
\<close>

lemma lsn_read_is_fresh:
  assumes "sessions a session = Some (token, wts)" "wal a = xs @ (token, entity, v) # ys" "token = Suc (length xs)"
    and "entity \<notin> (fst \<circ> snd) ` set ys"
    and "\<forall>k. replay_at env k \<le> replay_read env"
    and "fl (now_at env + fl (of_int timeout_ms / 1000)) \<le> clock_at env d"
  shows "\<exists>row a'. api_read ''lsn'' sticky_ms timeout_ms env entity v gap session a = Some (row, a')
     \<and> \<not> stale row \<and> polls row \<le> Suc d \<and> probes a' = probes a @ [row]"
proof -
  from lsn_wait_returns [of token "replay_at env" 0 d "fl (now_at env + fl (of_int timeout_ms / 1000))" "clock_at env"] assms(6)
  obtain n fb where w: "lsn_wait (replay_at env) (clock_at env) token (fl (now_at env + fl (of_int timeout_ms / 1000))) 0 = Some (n, fb)"
    and n: "n \<le> Suc d" "\<not> fb \<longrightarrow> token \<le> replay_at env (n - 1)" by auto
  have all: "replay (wal a) entity = Some v"
    using replay_after [OF assms(2) _ assms(4), of "length (wal a)"] by (simp add: assms(2))
  have part: "replay (take (replay_read env) (wal a)) entity = Some v" if "\<not> fb"
    using n(2) that assms(3,5) by (intro replay_after [OF assms(2) _ assms(4)]) (meson Suc_le_lessD order_trans)
  show ?thesis using w n(1) all part assms(1)
    by (cases fb) (simp_all add: api_read_def choose_db_def stale_def Let_def)
qed

end
