(* ===== verification/Dist_Keys.thy ===== *)
theory Dist_Keys
  imports Lab_Prelude
begin

text \<open>
  Three idempotency handlers under concurrent duplicates: \<^verbatim>\<open>04-distributed/02-.../python/idempotency_race.py\<close> and
  its HTTP version \<^verbatim>\<open>docker/services/app/payments2.py\<close>. A step is one statement of one request; an open
  transaction's rows are visible only to itself until it commits, the unique index and the advisory lock make
  other transactions wait. The two programs differ in what they answer, which a record of answers captures.
  \<open>fp\<close> stands for the SHA-256 of the canonical body, \<open>hashtext\<close> for the server's hash of a lock name.
\<close>

subsection \<open>Tables and requests\<close>

record claim_row =
  kr_tenant :: string
  kr_key :: string
  kr_fp :: string
  kr_state :: string
  kr_response :: "json option"

record charged_row =
  cg_id :: nat
  cg_run :: string
  cg_impl :: string
  cg_tenant :: string
  cg_key :: string
  cg_amount :: int

record keys_db =
  key_rows :: "claim_row list"
  charged_rows :: "charged_row list"
  cg_seq :: nat

record payment =
  pm_tenant :: string
  pm_key :: string
  pm_amount :: int
  pm_body :: "(string \<times> json) list"

definition row_id :: "claim_row \<Rightarrow> string \<times> string" where
  "row_id r = (kr_tenant r, kr_key r)"

definition charge_id :: "charged_row \<Rightarrow> string \<times> string" where
  "charge_id c = (cg_tenant c, cg_key c)"

definition payment_id :: "payment \<Rightarrow> string \<times> string" where
  "payment_id p = (pm_tenant p, pm_key p)"

definition select_key :: "payment \<Rightarrow> keys_db \<Rightarrow> claim_row option" where
  "select_key p db = find (\<lambda>r. row_id r = payment_id p) (key_rows db)"

definition new_key :: "(payment \<Rightarrow> string) \<Rightarrow> payment \<Rightarrow> string \<Rightarrow> json option \<Rightarrow> claim_row" where
  "new_key fp p state response =
     \<lparr>kr_tenant = pm_tenant p, kr_key = pm_key p, kr_fp = fp p, kr_state = state, kr_response = response\<rparr>"

definition new_charge :: "string \<Rightarrow> string \<Rightarrow> payment \<Rightarrow> nat \<Rightarrow> charged_row" where
  "new_charge run impl p n =
     \<lparr>cg_id = n, cg_run = run, cg_impl = impl, cg_tenant = pm_tenant p, cg_key = pm_key p, cg_amount = pm_amount p\<rparr>"

definition insert_key_row :: "claim_row \<Rightarrow> keys_db \<Rightarrow> keys_db" where
  "insert_key_row r db = db\<lparr>key_rows := key_rows db @ [r]\<rparr>"

definition insert_charged_row :: "charged_row \<Rightarrow> keys_db \<Rightarrow> keys_db" where
  "insert_charged_row c db = db\<lparr>charged_rows := charged_rows db @ [c]\<rparr>"

definition next_charge :: "keys_db \<Rightarrow> keys_db" where
  "next_charge db = db\<lparr>cg_seq := Suc (cg_seq db)\<rparr>"

subsection \<open>What the two programs answer\<close>

text \<open>\<open>Raised\<close> is an exception nothing in the handler or its caller catches.\<close>

datatype reply = Reply int string "json option" | Raised string

record answers =
  won :: reply
  seen_a :: reply
  late_a :: "string \<Rightarrow> reply"
  fails_a :: "string \<Rightarrow> reply"
  fails :: "string \<Rightarrow> reply"
  lost :: "string \<Rightarrow> claim_row option \<Rightarrow> reply"
  stored :: "nat \<Rightarrow> json option"
  lock_name :: "string \<Rightarrow> string \<Rightarrow> string"
  seen_c :: "string \<Rightarrow> claim_row \<Rightarrow> reply"

definition stored_response :: "nat \<Rightarrow> json" where
  "stored_response n = JObj [(''charge_id'', JInt (int n)), (''status'', JStr ''succeeded'')]"

definition worker_error :: "string \<Rightarrow> reply" where
  "worker_error e = Reply 500 e None"

definition handle_a_late :: "string \<Rightarrow> reply" where
  "handle_a_late e =
     (if e = ''UniqueViolation'' then Reply 500 ''23505 AFTER charging -- the card was already charged'' None
      else worker_error e)"

fun handle_b_lost :: "string \<Rightarrow> claim_row option \<Rightarrow> reply" where
  "handle_b_lost fp None = Raised ''TypeError''"
| "handle_b_lost fp (Some r) =
     (if kr_fp r \<noteq> fp then Reply 422 ''fingerprint mismatch'' None
      else if kr_state r = ''succeeded'' then Reply 200 ''replay'' (kr_response r)
      else if kr_state r = ''failed_permanently'' then Reply 409 ''previous attempt failed permanently'' None
      else Reply 409 ''in flight, retry'' None)"

definition race :: answers where
  "race = \<lparr>won = Reply 201 ''charged'' None, seen_a = Reply 200 ''replay'' None, late_a = handle_a_late,
     fails_a = worker_error, fails = worker_error, lost = handle_b_lost,
     stored = Some \<circ> stored_response, lock_name = (\<lambda>tenant key. tenant @ '':'' @ key),
     seen_c = (\<lambda>fp r. Reply 200 ''replay'' None)\<rparr>"

fun payments_lost :: "string \<Rightarrow> claim_row option \<Rightarrow> reply" where
  "payments_lost fp None = Reply 200 ''in flight'' None"
| "payments_lost fp (Some r) =
     (if kr_fp r \<noteq> fp then Reply 422 ''fingerprint mismatch'' None
      else Reply 200 (if kr_state r = ''succeeded'' then ''replayed'' else ''in flight'') None)"

definition payments_seen :: "string \<Rightarrow> claim_row \<Rightarrow> reply" where
  "payments_seen fp r = (if kr_fp r \<noteq> fp then Reply 422 ''fingerprint mismatch'' None else Reply 200 ''replayed'' None)"

definition payments_error :: "string \<Rightarrow> reply" where
  "payments_error e = Reply 500 ''error'' (Some (JStr e))"

definition http :: answers where
  "http = \<lparr>won = Reply 200 ''charged'' None, seen_a = Reply 200 ''replayed'' None,
     late_a = (\<lambda>e. Reply 500 ''charged then failed to record the key'' None),
     fails_a = Raised, fails = payments_error, lost = payments_lost, stored = (\<lambda>n. None),
     lock_name = (\<lambda>tenant key. key), seen_c = payments_seen\<rparr>"

subsection \<open>The handlers, one statement at a time\<close>

datatype phase =
    Ready
  | Unseen
  | Charged_first
  | Owns
  | Owns_charged nat
  | Owns_done nat
  | Conflicts
  | Locked
  | Locked_free
  | Locked_key
  | Locked_charged nat
  | Answered reply

text \<open>
  What the driver reports for a statement: success, an error, or an error for a statement that took effect
  (the connection broke after an autocommitted statement or a commit). An error rolls an open transaction back.
\<close>

datatype stmt_outcome = Fine | Fails string | Fails_late string

fun error_of :: "stmt_outcome \<Rightarrow> string option" where
  "error_of Fine = None" | "error_of (Fails e) = Some e" | "error_of (Fails_late e) = Some e"

fun took_effect :: "stmt_outcome \<Rightarrow> bool" where
  "took_effect Fine = True" | "took_effect (Fails e) = False" | "took_effect (Fails_late e) = True"

record keys_sys =
  kdb :: keys_db
  ph :: "nat \<Rightarrow> phase"

definition enter :: "nat \<Rightarrow> phase \<Rightarrow> keys_sys \<Rightarrow> keys_sys" where
  "enter i p s = s\<lparr>ph := (ph s)(i := p)\<rparr>"

definition on_db :: "(keys_db \<Rightarrow> keys_db) \<Rightarrow> keys_sys \<Rightarrow> keys_sys" where
  "on_db f s = s\<lparr>kdb := f (kdb s)\<rparr>"

text \<open>A statement that succeeds continues, one that fails ends the request.\<close>

definition guarded :: "nat \<Rightarrow> (string \<Rightarrow> reply) \<Rightarrow> stmt_outcome \<Rightarrow> keys_sys \<Rightarrow> keys_sys \<Rightarrow> keys_sys" where
  "guarded i err oc s s' = (case error_of oc of None \<Rightarrow> s' | Some e \<Rightarrow> enter i (Answered (err e)) s)"

fun holds_row :: "phase \<Rightarrow> bool" where
  "holds_row Owns = True"
| "holds_row (Owns_charged n) = True"
| "holds_row (Owns_done n) = True"
| "holds_row Locked_key = True"
| "holds_row (Locked_charged n) = True"
| "holds_row _ = False"

fun holds_lock :: "phase \<Rightarrow> bool" where
  "holds_lock Locked = True"
| "holds_lock Locked_free = True"
| "holds_lock Locked_key = True"
| "holds_lock (Locked_charged n) = True"
| "holds_lock _ = False"

text \<open>Waiting behind an uncommitted row with the same key, and behind the advisory lock.\<close>

definition waits_for :: "(phase \<Rightarrow> bool) \<Rightarrow> (payment \<Rightarrow> 'r) \<Rightarrow> payment list \<Rightarrow> nat \<Rightarrow> keys_sys \<Rightarrow> bool" where
  "waits_for holds res rqs i s =
     list_ex (\<lambda>j. j \<noteq> i \<and> holds (ph s j) \<and> res (rqs ! j) = res (rqs ! i)) [0..<length rqs]"

definition handle_a :: "answers \<Rightarrow> (payment \<Rightarrow> string) \<Rightarrow> string \<Rightarrow> payment list \<Rightarrow> nat \<Rightarrow> stmt_outcome \<Rightarrow> keys_sys \<Rightarrow> keys_sys" where
  "handle_a a fp run rqs i oc s =
     (let p = rqs ! i in
      if length rqs \<le> i then s else
      case ph s i of
        Ready \<Rightarrow> guarded i (fails_a a) oc s
          (enter i (case select_key p (kdb s) of Some r \<Rightarrow> Answered (seen_a a) | None \<Rightarrow> Unseen) s)
      | Unseen \<Rightarrow>
          let s' = (if took_effect oc
                    then on_db (\<lambda>db. next_charge (insert_charged_row (new_charge run ''A'' p (cg_seq db)) db)) s else s)
          in guarded i (fails_a a) oc s' (enter i Charged_first s')
      | Charged_first \<Rightarrow>
          if took_effect oc \<and> select_key p (kdb s) \<noteq> None then enter i (Answered (late_a a ''UniqueViolation'')) s
          else let s' = (if took_effect oc then on_db (insert_key_row (new_key fp p ''succeeded'' None)) s else s)
               in guarded i (late_a a) oc s' (enter i (Answered (won a)) s')
      | _ \<Rightarrow> s)"

definition handle_b :: "answers \<Rightarrow> (payment \<Rightarrow> string) \<Rightarrow> string \<Rightarrow> payment list \<Rightarrow> nat \<Rightarrow> stmt_outcome \<Rightarrow> keys_sys \<Rightarrow> keys_sys" where
  "handle_b a fp run rqs i oc s =
     (let p = rqs ! i in
      if length rqs \<le> i then s else
      case ph s i of
        Ready \<Rightarrow> guarded i (fails a) oc s
          (if waits_for holds_row payment_id rqs i s then s
           else enter i (if select_key p (kdb s) = None then Owns else Conflicts) s)
      | Owns \<Rightarrow>
          let s' = (if took_effect oc then on_db next_charge s else s)
          in guarded i (fails a) oc s' (enter i (Owns_charged (cg_seq (kdb s))) s')
      | Owns_charged n \<Rightarrow> guarded i (fails a) oc s (enter i (Owns_done n) s)
      | Owns_done n \<Rightarrow>
          let s' = (if took_effect oc
                    then on_db (insert_charged_row (new_charge run ''B'' p n) \<circ> insert_key_row (new_key fp p ''succeeded'' (stored a n))) s
                    else s)
          in guarded i (fails a) oc s' (enter i (Answered (won a)) s')
      | Conflicts \<Rightarrow> guarded i (fails a) oc s (enter i (Answered (lost a (fp p) (select_key p (kdb s)))) s)
      | _ \<Rightarrow> s)"

definition lock_id :: "(string \<Rightarrow> int) \<Rightarrow> answers \<Rightarrow> payment \<Rightarrow> int" where
  "lock_id hashtext a p = hashtext (lock_name a (pm_tenant p) (pm_key p))"

definition handle_c ::
  "(string \<Rightarrow> int) \<Rightarrow> answers \<Rightarrow> (payment \<Rightarrow> string) \<Rightarrow> string \<Rightarrow> payment list \<Rightarrow> nat \<Rightarrow> stmt_outcome \<Rightarrow> keys_sys \<Rightarrow> keys_sys" where
  "handle_c hashtext a fp run rqs i oc s =
     (let p = rqs ! i in
      if length rqs \<le> i then s else
      case ph s i of
        Ready \<Rightarrow> guarded i (fails a) oc s
          (if waits_for holds_lock (lock_id hashtext a) rqs i s then s else enter i Locked s)
      | Locked \<Rightarrow> guarded i (fails a) oc s
          (enter i (case select_key p (kdb s) of Some r \<Rightarrow> Answered (seen_c a (fp p) r) | None \<Rightarrow> Locked_free) s)
      | Locked_free \<Rightarrow> guarded i (fails a) oc s
          (if waits_for holds_row payment_id rqs i s then s
           else if select_key p (kdb s) \<noteq> None then enter i (Answered (fails a ''UniqueViolation'')) s
           else enter i Locked_key s)
      | Locked_key \<Rightarrow>
          let s' = (if took_effect oc then on_db next_charge s else s)
          in guarded i (fails a) oc s' (enter i (Locked_charged (cg_seq (kdb s))) s')
      | Locked_charged n \<Rightarrow>
          let s' = (if took_effect oc
                    then on_db (insert_charged_row (new_charge run ''C'' p n) \<circ> insert_key_row (new_key fp p ''succeeded'' None)) s
                    else s)
          in guarded i (fails a) oc s' (enter i (Answered (won a)) s')
      | _ \<Rightarrow> s)"

definition keys_start :: keys_sys where
  "keys_start = \<lparr>kdb = \<lparr>key_rows = [], charged_rows = [], cg_seq = 1\<rparr>, ph = (\<lambda>i. Ready)\<rparr>"

definition keys_run :: "(nat \<Rightarrow> stmt_outcome \<Rightarrow> keys_sys \<Rightarrow> keys_sys) \<Rightarrow> (nat \<times> stmt_outcome) list \<Rightarrow> keys_sys \<Rightarrow> keys_sys" where
  "keys_run step evs s = fold (\<lambda>(i, oc). step i oc) evs s"

subsection \<open>Claiming before charging\<close>

lemma enter_simps [simp]:
  "ph (enter i p s) = (ph s)(i := p)" "kdb (enter i p s) = kdb s"
  by (simp_all add: enter_def)

lemma on_db_simps [simp]: "ph (on_db f s) = ph s" "kdb (on_db f s) = f (kdb s)"
  by (simp_all add: on_db_def)

lemma keys_db_simps [simp]:
  "key_rows (insert_key_row r db) = key_rows db @ [r]" "charged_rows (insert_key_row r db) = charged_rows db"
  "key_rows (insert_charged_row c db) = key_rows db" "charged_rows (insert_charged_row c db) = charged_rows db @ [c]"
  "key_rows (next_charge db) = key_rows db" "charged_rows (next_charge db) = charged_rows db"
  by (simp_all add: insert_key_row_def insert_charged_row_def next_charge_def)

lemma row_ids [simp]:
  "row_id (new_key fp p st resp) = payment_id p" "charge_id (new_charge run impl p n) = payment_id p"
  by (simp_all add: row_id_def new_key_def payment_id_def charge_id_def new_charge_def)

lemma select_key_None: "select_key p db = None \<longleftrightarrow> payment_id p \<notin> row_id ` set (key_rows db)"
  by (force simp: select_key_def find_None_iff)

lemma select_key_Some: "select_key p db = Some r \<Longrightarrow> r \<in> set (key_rows db) \<and> row_id r = payment_id p"
  by (auto simp: select_key_def find_Some_iff)

lemma waits_for_iff:
  "waits_for holds res rqs i s \<longleftrightarrow> (\<exists>j<length rqs. j \<noteq> i \<and> holds (ph s j) \<and> res (rqs ! j) = res (rqs ! i))"
  by (auto simp: waits_for_def list_ex_iff)

lemma guarded_cases:
  "guarded i err oc s s' = s' \<and> oc = Fine \<or> (\<exists>e. guarded i err oc s s' = enter i (Answered (err e)) s \<and> oc \<noteq> Fine)"
  by (cases oc) (auto simp: guarded_def)

text \<open>
  The contract of a handler that may not charge twice: it claims a resource before it relies on the key
  being new, only one request holds a resource, and the key row and the charge are committed together.
\<close>

locale claim_protocol =
  fixes step :: "nat \<Rightarrow> stmt_outcome \<Rightarrow> keys_sys \<Rightarrow> keys_sys"
    and rqs :: "payment list"
    and claims sure :: "phase \<Rightarrow> bool"
    and res :: "payment \<Rightarrow> 'r"
  assumes ready_free: "\<not> claims Ready"
    and sure_claims: "sure p \<Longrightarrow> claims p"
    and same_res: "payment_id a = payment_id b \<Longrightarrow> res a = res b"
    and idle: "length rqs \<le> i \<Longrightarrow> step i oc s = s"
    and others: "j \<noteq> i \<Longrightarrow> ph (step i oc s) j = ph s j"
    and claim_law: "i < length rqs \<Longrightarrow> claims (ph (step i oc s) i) \<Longrightarrow> claims (ph s i) \<or> \<not> waits_for claims res rqs i s"
    and commit_law: "i < length rqs \<Longrightarrow>
      key_rows (kdb (step i oc s)) = key_rows (kdb s) \<and> charged_rows (kdb (step i oc s)) = charged_rows (kdb s) \<and>
        (sure (ph (step i oc s) i) \<longrightarrow> sure (ph s i) \<or> select_key (rqs ! i) (kdb s) = None) \<or>
      sure (ph s i) \<and> \<not> sure (ph (step i oc s) i) \<and>
        (\<exists>r c. row_id r = payment_id (rqs ! i) \<and> charge_id c = payment_id (rqs ! i) \<and>
           key_rows (kdb (step i oc s)) = key_rows (kdb s) @ [r] \<and> charged_rows (kdb (step i oc s)) = charged_rows (kdb s) @ [c])"
begin

definition exclusive :: "keys_sys \<Rightarrow> bool" where
  "exclusive s =
     ((\<forall>i<length rqs. \<forall>j<length rqs. claims (ph s i) \<longrightarrow> claims (ph s j) \<longrightarrow> res (rqs ! i) = res (rqs ! j) \<longrightarrow> i = j) \<and>
      (\<forall>i<length rqs. sure (ph s i) \<longrightarrow> payment_id (rqs ! i) \<notin> row_id ` set (key_rows (kdb s))) \<and>
      distinct (map row_id (key_rows (kdb s))) \<and>
      map charge_id (charged_rows (kdb s)) = map row_id (key_rows (kdb s)))"

lemma exclusiveD:
  "exclusive s \<Longrightarrow> claims (ph s i) \<Longrightarrow> claims (ph s j) \<Longrightarrow> res (rqs ! i) = res (rqs ! j) \<Longrightarrow>
   i < length rqs \<Longrightarrow> j < length rqs \<Longrightarrow> i = j"
  by (simp add: exclusive_def)

lemma exclusive_start: "exclusive keys_start"
  using ready_free sure_claims by (auto simp: exclusive_def keys_start_def)

lemma exclusive_step:
  assumes "exclusive s"
  shows "exclusive (step i oc s)"
proof (cases "i < length rqs")
  case True
  let ?s = "step i oc s"
  have one: "j = k" if "claims (ph ?s j)" "claims (ph ?s k)" "res (rqs ! j) = res (rqs ! k)" "j < length rqs" "k < length rqs" for j k
  proof (rule ccontr)
    assume "j \<noteq> k"
    have fresh: False if "claims (ph ?s i)" "claims (ph s m)" "m \<noteq> i" "m < length rqs" "res (rqs ! m) = res (rqs ! i)" for m
    proof -
      have "waits_for claims res rqs i s" using that(2-5) by (auto simp: waits_for_iff)
      then have "claims (ph s i)" using claim_law [OF True that(1)] by simp
      then show False using exclusiveD [OF assms that(2) _ that(5,4) True] that(3) by blast
    qed
    consider "j = i" | "k = i" | "j \<noteq> i" "k \<noteq> i" by blast
    then show False
    proof cases
      case 1
      with that \<open>j \<noteq> k\<close> others [of k i oc s] fresh [of k] show ?thesis by simp
    next
      case 2
      with that \<open>j \<noteq> k\<close> others [of j i oc s] fresh [of j] show ?thesis by simp
    next
      case 3
      with that others [of j i oc s] others [of k i oc s] assms \<open>j \<noteq> k\<close> show ?thesis
        unfolding exclusive_def by simp
    qed
  qed
  from commit_law [OF True, of oc s] show ?thesis
  proof (elim disjE conjE exE)
    assume eq: "key_rows (kdb ?s) = key_rows (kdb s)" "charged_rows (kdb ?s) = charged_rows (kdb s)"
      and sr: "sure (ph ?s i) \<longrightarrow> sure (ph s i) \<or> select_key (rqs ! i) (kdb s) = None"
    have "payment_id (rqs ! j) \<notin> row_id ` set (key_rows (kdb s))" if "sure (ph ?s j)" "j < length rqs" for j
      using that sr others [of j i] assms unfolding exclusive_def by (cases "j = i") (auto simp: select_key_None)
    with one assms show ?thesis unfolding exclusive_def eq by blast
  next
    fix r c
    assume sr: "sure (ph s i)" "\<not> sure (ph ?s i)"
      and r: "row_id r = payment_id (rqs ! i)" "charge_id c = payment_id (rqs ! i)"
      and eq: "key_rows (kdb ?s) = key_rows (kdb s) @ [r]" "charged_rows (kdb ?s) = charged_rows (kdb s) @ [c]"
    have new: "row_id r \<notin> row_id ` set (key_rows (kdb s))" using sr(1) r(1) assms True unfolding exclusive_def by simp
    have gone: "payment_id (rqs ! j) \<notin> row_id ` set (key_rows (kdb s) @ [r])" if "sure (ph ?s j)" "j < length rqs" for j
    proof -
      have j: "j \<noteq> i" "sure (ph s j)" using that(1) sr(2) others [of j i] by (cases "j = i"; simp)+
      then have "payment_id (rqs ! j) \<noteq> payment_id (rqs ! i)"
        using exclusiveD [OF assms sure_claims [OF j(2)] sure_claims [OF sr(1)] same_res that(2) True] by blast
      then show ?thesis using j(2) that(2) assms r(1) unfolding exclusive_def by auto
    qed
    have "distinct (map row_id (key_rows (kdb s) @ [r]))"
      "map charge_id (charged_rows (kdb s) @ [c]) = map row_id (key_rows (kdb s) @ [r])"
      using new assms r by (simp_all add: exclusive_def)
    with one gone show ?thesis unfolding exclusive_def eq by blast
  qed
qed (use assms idle in simp)

lemma exclusive_run: "exclusive s \<Longrightarrow> exclusive (keys_run step evs s)"
  by (induction evs arbitrary: s) (auto simp: keys_run_def exclusive_step split: prod.splits)

lemma charged_at_most_once:
  "length (filter (\<lambda>c. charge_id c = k) (charged_rows (kdb (keys_run step evs keys_start)))) \<le> 1"
proof -
  let ?db = "kdb (keys_run step evs keys_start)"
  have "exclusive (keys_run step evs keys_start)" by (rule exclusive_run [OF exclusive_start])
  then have "distinct (map charge_id (charged_rows ?db))" by (simp add: exclusive_def)
  then have d: "distinct (map charge_id (filter (\<lambda>c. charge_id c = k) (charged_rows ?db)))" by (rule distinct_map_filter)
  have "card (set (map charge_id (filter (\<lambda>c. charge_id c = k) (charged_rows ?db)))) \<le> card {k}"
    by (rule card_mono) auto
  then show ?thesis using distinct_card [OF d] by simp
qed

end

definition knows_free :: "phase \<Rightarrow> bool" where
  "knows_free p = (holds_lock p \<and> p \<noteq> Locked)"

interpretation insert_first: claim_protocol "handle_b a fp run rqs" rqs holds_row holds_row payment_id for a fp run rqs
  by unfold_locales
    (auto simp: handle_b_def guarded_def Let_def split: phase.splits option.splits if_splits)

interpretation lock_first: claim_protocol "handle_c hashtext a fp run rqs" rqs holds_lock knows_free "lock_id hashtext a"
  for hashtext a fp run rqs
  by unfold_locales
    (auto simp: handle_c_def guarded_def Let_def knows_free_def lock_id_def payment_id_def
      split: phase.splits option.splits if_splits)

subsection \<open>Progress\<close>

fun is_answered :: "phase \<Rightarrow> bool" where
  "is_answered (Answered rep) = True" | "is_answered _ = False"

fun stage_of :: "phase \<Rightarrow> nat" where
  "stage_of Ready = 0"
| "stage_of Unseen = 1" | "stage_of Owns = 1" | "stage_of Locked = 1"
| "stage_of Charged_first = 2" | "stage_of (Owns_charged n) = 2" | "stage_of Locked_free = 2"
| "stage_of (Owns_done n) = 3" | "stage_of Locked_key = 3"
| "stage_of Conflicts = 4" | "stage_of (Locked_charged n) = 4"
| "stage_of (Answered rep) = 5"

lemma stage_of_5: "stage_of p \<le> 5" "stage_of p = 5 \<longleftrightarrow> is_answered p"
  by (cases p; simp)+

locale claim_progress = claim_protocol step rqs claims sure res
  for step :: "nat \<Rightarrow> stmt_outcome \<Rightarrow> keys_sys \<Rightarrow> keys_sys" and rqs :: "payment list"
    and claims sure :: "phase \<Rightarrow> bool" and res :: "payment \<Rightarrow> 'r" +
  fixes mine :: "phase \<Rightarrow> bool"
  assumes mine_ready: "mine Ready"
    and mine_law: "mine (ph s i) \<Longrightarrow> mine (ph (step i oc s) i)"
    and stage_law: "i < length rqs \<Longrightarrow> mine (ph s i) \<Longrightarrow> ph (step i Fine s) i \<noteq> ph s i \<Longrightarrow>
      stage_of (ph s i) < stage_of (ph (step i Fine s) i)"
    and wait_law: "i < length rqs \<Longrightarrow> mine (ph s i) \<Longrightarrow> \<forall>j. mine (ph s j) \<Longrightarrow> \<not> is_answered (ph s i) \<Longrightarrow> ph (step i Fine s) i = ph s i \<Longrightarrow>
      (\<exists>j<length rqs. j \<noteq> i \<and> claims (ph s j) \<and> res (rqs ! j) = res (rqs ! i))"
begin

definition to_go :: "keys_sys \<Rightarrow> nat" where
  "to_go s = (\<Sum>i<length rqs. 5 - stage_of (ph s i))"

definition all_mine :: "keys_sys \<Rightarrow> bool" where
  "all_mine s = (\<forall>i. mine (ph s i))"

lemma all_mine_step: "all_mine s \<Longrightarrow> all_mine (step i oc s)"
  unfolding all_mine_def by (metis mine_law others)

lemma all_mine_run: "all_mine s \<Longrightarrow> all_mine (keys_run step evs s)"
  by (induction evs arbitrary: s) (auto simp: keys_run_def all_mine_step split: prod.splits)

text \<open>Whoever waits, waits for a request that holds the resource, and that one does not wait.\<close>

lemma someone_moves:
  assumes "exclusive s" "all_mine s" "i < length rqs" "\<not> is_answered (ph s i)"
    and answered_free: "\<forall>rep. \<not> claims (Answered rep)"
  shows "\<exists>j<length rqs. ph (step j Fine s) j \<noteq> ph s j"
proof (rule ccontr)
  assume "\<not> ?thesis"
  then have stuck: "ph (step j Fine s) j = ph s j" if "j < length rqs" for j using that by blast
  have m: "\<forall>j. mine (ph s j)" using assms(2) by (simp add: all_mine_def)
  from wait_law [OF assms(3) spec [OF m] m assms(4) stuck [OF assms(3)]]
  obtain j where j: "j < length rqs" "claims (ph s j)" by blast
  have "\<not> is_answered (ph s j)" using j(2) answered_free by (cases "ph s j") auto
  from wait_law [OF j(1) spec [OF m] m this stuck [OF j(1)]]
  obtain k where "k < length rqs" "k \<noteq> j" "claims (ph s k)" "res (rqs ! k) = res (rqs ! j)" by blast
  with exclusiveD [OF assms(1) _ j(2) _ _ j(1)] show False by blast
qed

lemma to_go_step:
  assumes "all_mine s" "j < length rqs" "ph (step j Fine s) j \<noteq> ph s j"
  shows "to_go (step j Fine s) < to_go s"
proof -
  have m: "mine (ph s j)" using assms(1) by (simp add: all_mine_def)
  have "5 - stage_of (ph (step j Fine s) j) < 5 - stage_of (ph s j)"
    using stage_law [OF assms(2) m assms(3)] stage_of_5(1) [of "ph (step j Fine s) j"] by linarith
  moreover have "5 - stage_of (ph (step j Fine s) i) \<le> 5 - stage_of (ph s i)" for i
    using calculation others [of i j Fine s] by (cases "i = j") auto
  ultimately show ?thesis unfolding to_go_def using assms(2) by (intro sum_strict_mono_ex1) auto
qed

lemma can_finish:
  assumes "exclusive s" "all_mine s" "\<forall>rep. \<not> claims (Answered rep)"
  shows "\<exists>sched. length sched \<le> to_go s \<and>
     (\<forall>i<length rqs. is_answered (ph (keys_run step (map (\<lambda>i. (i, Fine)) sched) s) i))"
  using assms
proof (induction "to_go s" arbitrary: s rule: less_induct)
  case less
  show ?case
  proof (cases "\<forall>i<length rqs. is_answered (ph s i)")
    case False
    then obtain j where j: "j < length rqs" "ph (step j Fine s) j \<noteq> ph s j"
      using someone_moves [OF less.prems(1,2) _ _ less.prems(3)] by blast
    have shorter: "to_go (step j Fine s) < to_go s" by (rule to_go_step [OF less.prems(2) j])
    from less.hyps [OF this exclusive_step [OF less.prems(1)] all_mine_step [OF less.prems(2)] less.prems(3)]
    obtain sched where "length sched \<le> to_go (step j Fine s)"
      "\<forall>i<length rqs. is_answered (ph (keys_run step (map (\<lambda>i. (i, Fine)) sched) (step j Fine s)) i)" by blast
    with shorter show ?thesis by (intro exI [of _ "j # sched"]) (simp add: keys_run_def)
  qed (auto intro!: exI [of _ "[]"] simp: keys_run_def)
qed

lemma to_go_bound: "to_go s \<le> 5 * length rqs"
proof -
  have "to_go s \<le> (\<Sum>i<length rqs. 5)" unfolding to_go_def by (rule sum_mono) simp
  then show ?thesis by simp
qed

lemma reachable_can_finish:
  assumes "\<forall>rep. \<not> claims (Answered rep)"
  shows "\<exists>sched. length sched \<le> 5 * length rqs \<and>
     (\<forall>i<length rqs. is_answered (ph (keys_run step (evs @ map (\<lambda>i. (i, Fine)) sched) keys_start) i))"
proof -
  let ?s = "keys_run step evs keys_start"
  have "exclusive ?s" by (rule exclusive_run [OF exclusive_start])
  moreover have "all_mine ?s" by (rule all_mine_run) (simp add: all_mine_def keys_start_def mine_ready)
  ultimately show ?thesis
    using can_finish [OF _ _ assms, of ?s] to_go_bound [of ?s] by (fastforce simp: keys_run_def)
qed

end

fun phase_b :: "phase \<Rightarrow> bool" where
  "phase_b Ready = True" | "phase_b Owns = True" | "phase_b (Owns_charged n) = True"
| "phase_b (Owns_done n) = True" | "phase_b Conflicts = True" | "phase_b (Answered rep) = True"
| "phase_b _ = False"

fun phase_c :: "phase \<Rightarrow> bool" where
  "phase_c Ready = True" | "phase_c Locked = True" | "phase_c Locked_free = True" | "phase_c Locked_key = True"
| "phase_c (Locked_charged n) = True" | "phase_c (Answered rep) = True"
| "phase_c _ = False"

interpretation insert_first: claim_progress "handle_b a fp run rqs" rqs holds_row holds_row payment_id phase_b for a fp run rqs
proof unfold_locales
  fix i s
  assume "i < length rqs" "phase_b (ph s i)" "\<not> is_answered (ph s i)" "ph (handle_b a fp run rqs i Fine s) i = ph s i"
  then show "\<exists>j<length rqs. j \<noteq> i \<and> holds_row (ph s j) \<and> payment_id (rqs ! j) = payment_id (rqs ! i)"
    by (auto simp: handle_b_def guarded_def Let_def waits_for_iff split: phase.splits option.splits if_splits)
qed (auto simp: handle_b_def guarded_def Let_def split: phase.splits option.splits if_splits)

text \<open>The lock holder never waits for the unique index: whoever had inserted the key would hold the lock.\<close>

interpretation lock_first: claim_progress "handle_c hashtext a fp run rqs" rqs holds_lock knows_free "lock_id hashtext a" phase_c
  for hashtext a fp run rqs
proof unfold_locales
  fix i s
  assume i: "i < length rqs" "phase_c (ph s i)" "\<forall>j. phase_c (ph s j)" "\<not> is_answered (ph s i)"
    and stuck: "ph (handle_c hashtext a fp run rqs i Fine s) i = ph s i"
  have row_lock: "holds_lock (ph s j)" if "holds_row (ph s j)" for j
    using spec [OF i(3), of j] that by (cases "ph s j") (metis phase_c.simps holds_row.simps holds_lock.simps)+
  have "waits_for holds_lock (lock_id hashtext a) rqs i s \<or> waits_for holds_row payment_id rqs i s"
    using i(1,2,4) stuck
    by (auto simp: handle_c_def guarded_def Let_def split: phase.splits option.splits if_splits)
  then show "\<exists>j<length rqs. j \<noteq> i \<and> holds_lock (ph s j) \<and> lock_id hashtext a (rqs ! j) = lock_id hashtext a (rqs ! i)"
    using row_lock by (auto simp: waits_for_iff lock_id_def payment_id_def)
qed (auto simp: handle_c_def guarded_def Let_def split: phase.splits option.splits if_splits)

subsection \<open>What a request is told\<close>

text \<open>The answers of the inserting handler, and the rows they speak of.\<close>

definition rows_ok :: "answers \<Rightarrow> keys_db \<Rightarrow> bool" where
  "rows_ok a db = (\<forall>r\<in>set (key_rows db). kr_state r = ''succeeded'' \<and>
     (\<exists>c\<in>set (charged_rows db). charge_id c = row_id r \<and> kr_response r = stored a (cg_id c)))"

definition told_b :: "answers \<Rightarrow> (payment \<Rightarrow> string) \<Rightarrow> payment \<Rightarrow> keys_db \<Rightarrow> phase \<Rightarrow> bool" where
  "told_b a fp p db q = (case q of
     Conflicts \<Rightarrow> select_key p db \<noteq> None
   | Answered rep \<Rightarrow> (\<exists>e. rep = fails a e) \<or>
       (\<exists>r\<in>set (key_rows db). row_id r = payment_id p \<and> (rep = won a \<and> kr_fp r = fp p \<or> rep = lost a (fp p) (Some r)))
   | _ \<Rightarrow> True)"

lemma told_b_mono:
  "told_b a fp p db q \<Longrightarrow> set (key_rows db) \<subseteq> set (key_rows db') \<Longrightarrow> told_b a fp p db' q"
  unfolding told_b_def by (auto simp: select_key_None split: phase.splits; blast)

lemma rows_ok_insert:
  "rows_ok a db \<Longrightarrow> rows_ok a (insert_charged_row (new_charge run impl p n) (insert_key_row (new_key fp p ''succeeded'' (stored a n)) db))"
  unfolding rows_ok_def by (auto simp: new_key_def new_charge_def row_id_def charge_id_def; blast)

definition b_inv :: "answers \<Rightarrow> (payment \<Rightarrow> string) \<Rightarrow> payment list \<Rightarrow> keys_sys \<Rightarrow> bool" where
  "b_inv a fp rqs s = (rows_ok a (kdb s) \<and> (\<forall>i<length rqs. told_b a fp (rqs ! i) (kdb s) (ph s i)))"

lemma rows_ok_next [simp]: "rows_ok a (next_charge db) = rows_ok a db"
  by (simp add: rows_ok_def)

lemma handle_b_rows:
  "rows_ok a (kdb s) \<Longrightarrow> rows_ok a (kdb (handle_b a fp run rqs i oc s)) \<and>
   set (key_rows (kdb s)) \<subseteq> set (key_rows (kdb (handle_b a fp run rqs i oc s)))"
  by (auto simp: handle_b_def guarded_def Let_def rows_ok_insert split: phase.splits option.splits if_splits)

lemma told_b_simps [simp]:
  "told_b a fp p db Ready" "told_b a fp p db Owns" "told_b a fp p db (Owns_charged n)" "told_b a fp p db (Owns_done n)"
  "told_b a fp p db Conflicts = (select_key p db \<noteq> None)" "told_b a fp p db (Answered (fails a e))"
  by (auto simp: told_b_def)

lemma told_lost: "told_b a fp p db Conflicts \<Longrightarrow> told_b a fp p db (Answered (lost a (fp p) (select_key p db)))"
  by (auto simp: told_b_def dest: select_key_Some)

lemma told_won:
  "told_b a fp p (insert_charged_row c (insert_key_row (new_key fp p st resp) db)) (Answered (won a))"
  by (simp add: told_b_def new_key_def row_id_def payment_id_def)

lemma handle_b_told:
  assumes "told_b a fp (rqs ! i) (kdb s) (ph s i)"
  shows "told_b a fp (rqs ! i) (kdb (handle_b a fp run rqs i oc s)) (ph (handle_b a fp run rqs i oc s) i)"
  using assms told_lost [of a fp "rqs ! i" "kdb s"]
  by (cases oc; cases "ph s i") (auto simp: handle_b_def guarded_def Let_def told_won)

lemma b_inv_step:
  assumes "b_inv a fp rqs s"
  shows "b_inv a fp rqs (handle_b a fp run rqs i oc s)"
proof -
  let ?s = "handle_b a fp run rqs i oc s"
  have rows: "rows_ok a (kdb ?s)" "set (key_rows (kdb s)) \<subseteq> set (key_rows (kdb ?s))"
    using handle_b_rows assms by (auto simp: b_inv_def)
  have "told_b a fp (rqs ! j) (kdb ?s) (ph ?s j)" if "j < length rqs" for j
  proof (cases "j = i")
    case True
    with that assms show ?thesis by (simp add: b_inv_def handle_b_told)
  next
    case False
    then have "ph ?s j = ph s j" by (rule insert_first.others)
    with that assms rows(2) show ?thesis by (auto simp: b_inv_def intro: told_b_mono)
  qed
  with rows(1) show ?thesis by (simp add: b_inv_def)
qed

lemma b_inv_run: "b_inv a fp rqs s \<Longrightarrow> b_inv a fp rqs (keys_run (handle_b a fp run rqs) evs s)"
  by (induction evs arbitrary: s) (auto simp: keys_run_def b_inv_step split: prod.splits)

lemma b_inv_start: "b_inv a fp rqs keys_start"
  by (simp add: b_inv_def keys_start_def rows_ok_def)

text \<open>
  C2. Inserting the key first, or taking the advisory lock first, charges a key at most once in every interleaving and
  under every driver failure, even if lock names collide; and from every reachable state at most five statements per
  request finish all of them, so nobody waits forever.
\<close>

theorem duplicates_charged_once:
  "length (filter (\<lambda>c. charge_id c = k) (charged_rows (kdb (keys_run (handle_b a fp run rqs) evs keys_start)))) \<le> 1 \<and>
   length (filter (\<lambda>c. charge_id c = k) (charged_rows (kdb (keys_run (handle_c hashtext a fp run rqs) evs keys_start)))) \<le> 1 \<and>
   (\<exists>sched. length sched \<le> 5 * length rqs \<and>
      filter (\<lambda>i. \<not> is_answered (ph (keys_run (handle_b a fp run rqs) (evs @ map (\<lambda>i. (i, Fine)) sched) keys_start) i))
        [0..<length rqs] = []) \<and>
   (\<exists>sched. length sched \<le> 5 * length rqs \<and>
      filter (\<lambda>i. \<not> is_answered (ph (keys_run (handle_c hashtext a fp run rqs) (evs @ map (\<lambda>i. (i, Fine)) sched) keys_start) i))
        [0..<length rqs] = [])"
proof (intro conjI)
  show "\<exists>sched. length sched \<le> 5 * length rqs \<and>
      filter (\<lambda>i. \<not> is_answered (ph (keys_run (handle_b a fp run rqs) (evs @ map (\<lambda>i. (i, Fine)) sched) keys_start) i))
        [0..<length rqs] = []"
    using insert_first.reachable_can_finish [of rqs a fp run evs] by (auto simp: filter_empty_conv)
  show "\<exists>sched. length sched \<le> 5 * length rqs \<and>
      filter (\<lambda>i. \<not> is_answered (ph (keys_run (handle_c hashtext a fp run rqs) (evs @ map (\<lambda>i. (i, Fine)) sched) keys_start) i))
        [0..<length rqs] = []"
    using lock_first.reachable_can_finish [of rqs hashtext a fp run evs] by (auto simp: filter_empty_conv)
qed (rule insert_first.charged_at_most_once lock_first.charged_at_most_once)+

text \<open>
  What a request of the inserting handler is told is true, in both programs: a charge or a replay comes with the
  one charge of its key and the same body, a mismatch with another body, and the only other answer is the
  driver's error. The answers for a key in flight, for a failed attempt and for a vanished row are never given.
\<close>

theorem insert_first_replies:
  assumes "a = race \<or> a = http" and "i < length rqs"
    and "ph (keys_run (handle_b a fp run rqs) evs keys_start) i = Answered rep"
  shows "(\<exists>e. rep = fails a e) \<or>
    (\<exists>r\<in>set (key_rows (kdb (keys_run (handle_b a fp run rqs) evs keys_start))).
     \<exists>c\<in>set (charged_rows (kdb (keys_run (handle_b a fp run rqs) evs keys_start))).
       row_id r = payment_id (rqs ! i) \<and> charge_id c = payment_id (rqs ! i) \<and>
       (kr_fp r = fp (rqs ! i) \<and> (rep = won a \<or> rep \<in> {Reply 200 ''replay'' (stored a (cg_id c)), Reply 200 ''replayed'' (stored a (cg_id c))}) \<or>
        kr_fp r \<noteq> fp (rqs ! i) \<and> rep = Reply 422 ''fingerprint mismatch'' None))"
proof (cases "\<exists>e. rep = fails a e")
  case False
  let ?s = "keys_run (handle_b a fp run rqs) evs keys_start"
  have inv: "b_inv a fp rqs ?s" by (rule b_inv_run [OF b_inv_start])
  with False assms(2,3) obtain r where r: "r \<in> set (key_rows (kdb ?s))" "row_id r = payment_id (rqs ! i)"
    and rep: "rep = won a \<and> kr_fp r = fp (rqs ! i) \<or> rep = lost a (fp (rqs ! i)) (Some r)"
    unfolding b_inv_def told_b_def by fastforce
  from inv r(1) obtain c where c: "c \<in> set (charged_rows (kdb ?s))" "charge_id c = row_id r"
    and row: "kr_state r = ''succeeded''" "kr_response r = stored a (cg_id c)"
    unfolding b_inv_def rows_ok_def by blast
  have "kr_fp r = fp (rqs ! i) \<and> (rep = won a \<or> rep \<in> {Reply 200 ''replay'' (stored a (cg_id c)), Reply 200 ''replayed'' (stored a (cg_id c))}) \<or>
        kr_fp r \<noteq> fp (rqs ! i) \<and> rep = Reply 422 ''fingerprint mismatch'' None"
    using rep assms(1) row by (auto simp: race_def http_def split: if_splits)
  with r c show ?thesis by metis
qed simp

text \<open>Two requests with one body and a third with another, as \<^verbatim>\<open>--vary-slot\<close> sends them.\<close>

definition worker_body :: "nat \<Rightarrow> nat \<Rightarrow> int \<Rightarrow> (string \<times> json) list" where
  "worker_body i slot vary_slot =
     [(''amount_cents'', JInt (if int slot = vary_slot then 999999 else 4200 + int i)), (''currency'', JStr ''GBP'')]"

definition same_key :: "int \<Rightarrow> payment list" where
  "same_key vary_slot = map (\<lambda>slot. \<lparr>pm_tenant = ''acme'', pm_key = ''k0'',
     pm_amount = (if int slot = vary_slot then 999999 else 4200), pm_body = worker_body 0 slot vary_slot\<rparr>) [0..<3]"

definition amount_fp :: "payment \<Rightarrow> string" where
  "amount_fp p = (if pm_amount p = 4200 then ''a'' else ''b'')"

definition crowd :: "(nat \<times> stmt_outcome) list" where
  "crowd = map (\<lambda>i. (i, Fine)) [0, 1, 2, 0, 1, 0, 0, 1, 2, 1, 2]"

theorem insert_first_replies_witness:
  "\<exists>r\<in>set (key_rows (kdb (keys_run (handle_b race amount_fp ''r'' (same_key 2)) crowd keys_start))).
   \<exists>c\<in>set (charged_rows (kdb (keys_run (handle_b race amount_fp ''r'' (same_key 2)) crowd keys_start))).
     row_id r = payment_id (same_key 2 ! 1) \<and> charge_id c = payment_id (same_key 2 ! 1) \<and>
     kr_fp r = amount_fp (same_key 2 ! 1)"
proof -
  have "ph (keys_run (handle_b race amount_fp ''r'' (same_key 2)) crowd keys_start) 1
      = Answered (Reply 200 ''replay'' (Some (stored_response 1)))"
    by code_simp
  from insert_first_replies [OF disjI1 [OF refl] _ this] show ?thesis
    by (auto simp: same_key_def race_def worker_error_def)
qed

text \<open>The lock handler of \<^verbatim>\<open>idempotency_race.py\<close> replays for a body it never saw; its HTTP version does not.\<close>

lemma lock_replays_other_body:
  "ph (keys_run (handle_c (\<lambda>n. 0) race amount_fp ''r'' (same_key 2)) (map (\<lambda>i. (i, Fine)) [0, 0, 0, 0, 0, 2, 2]) keys_start) 2
     = Answered (Reply 200 ''replay'' None)"
  "ph (keys_run (handle_c (\<lambda>n. 0) http amount_fp ''r'' (same_key 2)) (map (\<lambda>i. (i, Fine)) [0, 0, 0, 0, 0, 2, 2]) keys_start) 2
     = Answered (Reply 422 ''fingerprint mismatch'' None)"
  by code_simp+

lemma insert_first_notices_other_body:
  "ph (keys_run (handle_b race amount_fp ''r'' (same_key 2)) crowd keys_start) 2 = Answered (Reply 422 ''fingerprint mismatch'' None)"
  by code_simp

subsection \<open>Checking first\<close>

lemma keys_run_append: "keys_run step (xs @ ys) s = keys_run step ys (keys_run step xs s)"
  by (simp add: keys_run_def)

lemma keys_run_snoc [simp]: "keys_run step (evs @ [(i, oc)]) s = step i oc (keys_run step evs s)"
  by (simp add: keys_run_def)

definition in_turn :: "nat \<Rightarrow> (nat \<times> stmt_outcome) list" where
  "in_turn n = map (\<lambda>i. (i, Fine)) [0..<n]"

lemma in_turn_simps [simp]: "in_turn 0 = []" "in_turn (Suc n) = in_turn n @ [(n, Fine)]"
  by (simp_all add: in_turn_def)

lemma keys_sys_eqI: "kdb s = kdb s' \<Longrightarrow> (\<And>i. ph s i = ph s' i) \<Longrightarrow> s = s'" for s s' :: keys_sys
  by (cases s; cases s') auto

lemma all_look:
  assumes "\<forall>i<m. ph s i = Ready" "key_rows (kdb s) = []" "m \<le> length rqs"
  shows "keys_run (handle_a a fp run rqs) (in_turn m) s = s\<lparr>ph := \<lambda>i. if i < m then Unseen else ph s i\<rparr>"
  using assms
proof (induction m)
  case (Suc m)
  then show ?case
    by (intro keys_sys_eqI) (auto simp: handle_a_def Let_def guarded_def select_key_def less_Suc_eq)
qed (simp add: keys_run_def)

lemma all_charge:
  assumes "\<forall>i<m. ph s i = Unseen" "m \<le> length rqs"
  shows "keys_run (handle_a a fp run rqs) (in_turn m) s =
    s\<lparr>kdb := (kdb s)\<lparr>charged_rows := charged_rows (kdb s) @ map (\<lambda>i. new_charge run ''A'' (rqs ! i) (cg_seq (kdb s) + i)) [0..<m],
                     cg_seq := cg_seq (kdb s) + m\<rparr>,
      ph := \<lambda>i. if i < m then Charged_first else ph s i\<rparr>"
  using assms
proof (induction m)
  case (Suc m)
  then show ?case
    by (intro keys_sys_eqI)
      (auto simp: handle_a_def Let_def guarded_def next_charge_def insert_charged_row_def less_Suc_eq)
qed (simp add: keys_run_def)

lemma record_first:
  "i < length rqs \<Longrightarrow> ph s i = Charged_first \<Longrightarrow> key_rows (kdb s) = [] \<Longrightarrow>
   handle_a a fp run rqs i Fine s = enter i (Answered (won a)) (on_db (insert_key_row (new_key fp (rqs ! i) ''succeeded'' None)) s)"
  by (simp add: handle_a_def Let_def guarded_def select_key_def)

lemma record_late:
  "i < length rqs \<Longrightarrow> ph s i = Charged_first \<Longrightarrow> key_rows (kdb s) = [r] \<Longrightarrow> row_id r = payment_id (rqs ! i) \<Longrightarrow>
   handle_a a fp run rqs i Fine s = enter i (Answered (late_a a ''UniqueViolation'')) s"
  by (simp add: handle_a_def Let_def select_key_def)

lemma all_insert:
  assumes "\<forall>i<Suc m. ph s i = Charged_first" "Suc m \<le> length rqs" "key_rows (kdb s) = []"
    and "\<forall>p\<in>set rqs. payment_id p = payment_id (rqs ! 0)"
  shows "keys_run (handle_a a fp run rqs) (in_turn (Suc m)) s =
    s\<lparr>kdb := (kdb s)\<lparr>key_rows := [new_key fp (rqs ! 0) ''succeeded'' None]\<rparr>,
      ph := \<lambda>i. if i = 0 then Answered (won a) else if i < Suc m then Answered (late_a a ''UniqueViolation'') else ph s i\<rparr>"
  using assms
proof (induction m)
  case 0
  then have "handle_a a fp run rqs 0 Fine s =
      enter 0 (Answered (won a)) (on_db (insert_key_row (new_key fp (rqs ! 0) ''succeeded'' None)) s)"
    by (intro record_first) auto
  with 0 show ?case by (intro keys_sys_eqI) (auto simp: keys_run_def in_turn_def insert_key_row_def)
next
  case (Suc m)
  let ?s = "keys_run (handle_a a fp run rqs) (in_turn (Suc m)) s"
  have IH: "?s = s\<lparr>kdb := (kdb s)\<lparr>key_rows := [new_key fp (rqs ! 0) ''succeeded'' None]\<rparr>,
      ph := \<lambda>i. if i = 0 then Answered (won a) else if i < Suc m then Answered (late_a a ''UniqueViolation'') else ph s i\<rparr>"
    using Suc by simp
  have "payment_id (rqs ! Suc m) = payment_id (rqs ! 0)" using Suc.prems(2,4) by simp
  then have "handle_a a fp run rqs (Suc m) Fine ?s = enter (Suc m) (Answered (late_a a ''UniqueViolation'')) ?s"
    using Suc.prems(1,2) unfolding IH by (intro record_late [where r = "new_key fp (rqs ! 0) ''succeeded'' None"]) simp_all
  then have "keys_run (handle_a a fp run rqs) (in_turn (Suc (Suc m))) s = enter (Suc m) (Answered (late_a a ''UniqueViolation'')) ?s"
    by (simp only: in_turn_simps(2) [of "Suc m"] keys_run_snoc)
  then show ?case unfolding IH by (intro keys_sys_eqI) (auto simp: less_Suc_eq)
qed

lemma check_first_run:
  assumes "length rqs = Suc m" "\<forall>p\<in>set rqs. payment_id p = payment_id (rqs ! 0)"
  shows "keys_run (handle_a a fp run rqs) (in_turn (Suc m) @ in_turn (Suc m) @ in_turn (Suc m)) keys_start =
     \<lparr>kdb = \<lparr>key_rows = [new_key fp (rqs ! 0) ''succeeded'' None],
             charged_rows = map (\<lambda>i. new_charge run ''A'' (rqs ! i) (1 + i)) [0..<Suc m], cg_seq = 1 + Suc m\<rparr>,
      ph = \<lambda>i. if i = 0 then Answered (won a) else if i < Suc m then Answered (late_a a ''UniqueViolation'') else Ready\<rparr>"
proof -
  let ?h = "handle_a a fp run rqs" and ?ev = "in_turn (Suc m)"
  let ?s1 = "keys_start\<lparr>ph := \<lambda>i. if i < Suc m then Unseen else Ready\<rparr>"
  let ?s2 = "\<lparr>kdb = \<lparr>key_rows = [], charged_rows = map (\<lambda>i. new_charge run ''A'' (rqs ! i) (1 + i)) [0..<Suc m], cg_seq = 1 + Suc m\<rparr>,
        ph = \<lambda>i. if i < Suc m then Charged_first else Ready\<rparr>"
  have 1: "keys_run ?h ?ev keys_start = ?s1"
    using assms(1) by (subst all_look) (auto simp: keys_start_def intro!: keys_sys_eqI)
  have 2: "keys_run ?h ?ev ?s1 = ?s2"
    using assms(1) by (subst all_charge) (auto simp: keys_start_def)
  have 3: "keys_run ?h ?ev ?s2 = ?s2\<lparr>kdb := (kdb ?s2)\<lparr>key_rows := [new_key fp (rqs ! 0) ''succeeded'' None]\<rparr>,
      ph := \<lambda>i. if i = 0 then Answered (won a) else if i < Suc m then Answered (late_a a ''UniqueViolation'') else ph ?s2 i\<rparr>"
    by (rule all_insert [OF _ _ _ assms(2)]) (simp_all add: assms(1))
  show ?thesis unfolding keys_run_append 1 2 3 by (intro keys_sys_eqI) simp_all
qed

text \<open>
  Check-then-insert under a simultaneous duplicate: if every request looks before any of them has recorded the
  key, each one charges, whatever their number; one is answered normally and all the others learn of the conflict
  after the money has moved.
\<close>

theorem check_then_insert_race:
  assumes "length rqs = Suc m" and "map payment_id rqs = replicate (Suc m) (t, k)"
    and "s = keys_run (handle_a a fp run rqs) (in_turn (Suc m) @ in_turn (Suc m) @ in_turn (Suc m)) keys_start"
  shows "map charge_id (charged_rows (kdb s)) = replicate (Suc m) (t, k) \<and> map row_id (key_rows (kdb s)) = [(t, k)] \<and>
    map (ph s) [0..<Suc m] = Answered (won a) # replicate m (Answered (late_a a ''UniqueViolation''))"
proof -
  have ids: "payment_id (rqs ! i) = (t, k)" if "i < Suc m" for i
    using assms(1) that nth_map [of i rqs payment_id] unfolding assms(2) by (simp del: replicate_Suc)
  then have "\<forall>p\<in>set rqs. payment_id p = payment_id (rqs ! 0)" by (auto simp: in_set_conv_nth assms(1))
  note s = check_first_run [OF assms(1) this, of a fp run, folded assms(3)]
  have "map charge_id (charged_rows (kdb s)) = map (\<lambda>i. (t, k)) [0..<Suc m]"
    unfolding s by (simp del: upt_Suc add: ids)
  moreover have "map (ph s) [0..<Suc m] = Answered (won a) # replicate m (Answered (late_a a ''UniqueViolation''))"
    unfolding s by (rule nth_equalityI) (auto simp del: upt_Suc simp: nth_Cons split: nat.splits)
  ultimately show ?thesis by (simp add: s ids map_replicate_const del: upt_Suc)
qed

theorem check_then_insert_race_witness:
  "map charge_id (charged_rows (kdb (keys_run (handle_a race amount_fp ''r'' (same_key 2)) (in_turn 3 @ in_turn 3 @ in_turn 3) keys_start)))
     = replicate 3 (''acme'', ''k0'')"
  using check_then_insert_race [of "same_key 2" 2 "''acme''" "''k0''" _ race amount_fp "''r''"]
  by (simp add: same_key_def payment_id_def upt_rec numeral_3_eq_3 numeral_2_eq_2)

end
