(* ===== verification/Dist_Clocks.thy ===== *)
theory Dist_Clocks
  imports PyFloat
begin

text \<open>
  Last-write-wins under clock skew: \<^verbatim>\<open>04-distributed/03-clocks-lie/python/lww_writers.py\<close>. Writers contend on a
  table of items; a write is cut where it reads a clock or may wait for the row lock: reading the database's
  clock, starting the statement (which fixes \<^verbatim>\<open>now()\<close> and the snapshot), writing the row, returning, asking what won, and
  logging. The database's clock never goes back; \<open>to_ts\<close> stands for its \<^verbatim>\<open>to_timestamp\<close>, into microseconds.
\<close>

subsection \<open>The tables\<close>

record item =
  it_value :: string
  it_version :: int
  it_updated :: int
  it_writer :: string
  it_applied :: int

record write_log =
  wl_key :: string
  wl_writer :: string
  wl_seq :: nat
  wl_client :: int
  wl_submitted :: int
  wl_executed :: int
  wl_winner :: "int option"
  wl_outcome :: string

text \<open>\<^verbatim>\<open>OffsetClock.now\<close>, from the reading of \<^verbatim>\<open>time.time()\<close>.\<close>

definition offset_now :: "rat \<Rightarrow> rat \<Rightarrow> rat" where
  "offset_now offset_ms t = fl (t + fl (offset_ms / 1000))"

subsection \<open>The three conditional writes\<close>

text \<open>
  Each returns the row it writes, or \<open>None\<close> when the condition of the update fails. \<open>seen\<close> is the version in the
  statement's snapshot.
\<close>

record write_call =
  w_value :: string
  w_writer :: string
  w_cts :: int
  w_now :: int
  w_seen :: "int option"

definition write_v0 :: "write_call \<Rightarrow> int \<Rightarrow> item option \<Rightarrow> item option" where
  "write_v0 w t old = (case old of
     None \<Rightarrow> Some \<lparr>it_value = w_value w, it_version = 0, it_updated = w_cts w, it_writer = w_writer w, it_applied = t\<rparr>
   | Some it \<Rightarrow> if it_updated it < w_cts w
       then Some (it\<lparr>it_value := w_value w, it_updated := w_cts w, it_writer := w_writer w, it_applied := t\<rparr>) else None)"

definition write_v1 :: "write_call \<Rightarrow> int \<Rightarrow> item option \<Rightarrow> item option" where
  "write_v1 w t old = (case old of
     None \<Rightarrow> Some \<lparr>it_value = w_value w, it_version = 0, it_updated = w_now w, it_writer = w_writer w, it_applied = t\<rparr>
   | Some it \<Rightarrow> if it_updated it < w_now w
       then Some (it\<lparr>it_value := w_value w, it_updated := w_now w, it_writer := w_writer w, it_applied := t\<rparr>) else None)"

definition write_v2 :: "write_call \<Rightarrow> int \<Rightarrow> item option \<Rightarrow> item option" where
  "write_v2 w t old = (case old of
     None \<Rightarrow> Some \<lparr>it_value = w_value w, it_version = (case w_seen w of None \<Rightarrow> 0 | Some n \<Rightarrow> n) + 1,
                   it_updated = w_now w, it_writer = w_writer w, it_applied = t\<rparr>
   | Some it \<Rightarrow> if it_version it = (case w_seen w of None \<Rightarrow> - 1 | Some n \<Rightarrow> n)
       then Some (it\<lparr>it_value := w_value w, it_version := it_version it + 1, it_updated := w_now w,
                     it_writer := w_writer w, it_applied := t\<rparr>) else None)"

text \<open>\<^verbatim>\<open>WRITERS\<close>, with the outcome each passes for a rejection.\<close>

datatype variant = V0 | V1 | V2

fun write_of :: "variant \<Rightarrow> write_call \<Rightarrow> int \<Rightarrow> item option \<Rightarrow> item option" where
  "write_of V0 = write_v0" | "write_of V1 = write_v1" | "write_of V2 = write_v2"

fun reject_outcome :: "variant \<Rightarrow> string" where
  "reject_outcome V0 = ''rejected_lww''" | "reject_outcome V1 = ''rejected_lww''" | "reject_outcome V2 = ''rejected_cas''"

subsection \<open>The writers\<close>

datatype wphase =
    Idle
  | Submitted int
  | Started int write_call
  | Wrote int write_call bool
  | Beaten int write_call int
  | Finished int write_call int "int option" string

record writer =
  wr_name :: string
  wr_offset :: rat
  wr_seq :: nat
  wr_phase :: wphase

record lww_sys =
  db_time :: int
  items :: "string \<rightharpoonup> item"
  wlog :: "write_log list"
  writers :: "writer list"

datatype lww_event =
    Elapse nat
  | Submit nat
  | Begin nat rat
  | Write nat
  | Return nat
  | Ask_winner nat
  | Log nat

definition key_at :: "string list \<Rightarrow> writer \<Rightarrow> string" where
  "key_at keys w = keys ! ((wr_seq w - 1) mod length keys)"

fun writer_of :: "lww_event \<Rightarrow> nat" where
  "writer_of (Submit i) = i" | "writer_of (Begin i t) = i" | "writer_of (Write i) = i"
| "writer_of (Return i) = i" | "writer_of (Ask_winner i) = i" | "writer_of (Log i) = i"
| "writer_of (Elapse d) = 0"

definition call_of :: "(rat \<Rightarrow> int) \<Rightarrow> rat \<Rightarrow> string \<Rightarrow> lww_sys \<Rightarrow> writer \<Rightarrow> write_call" where
  "call_of to_ts t k s w =
     \<lparr>w_value = wr_name w @ ''-'' @ py_str_nat (wr_seq w), w_writer = wr_name w,
      w_cts = to_ts (offset_now (wr_offset w) t), w_now = db_time s, w_seen = map_option it_version (items s k)\<rparr>"

definition log_row :: "string \<Rightarrow> writer \<Rightarrow> int \<Rightarrow> write_call \<Rightarrow> int \<Rightarrow> int option \<Rightarrow> string \<Rightarrow> write_log" where
  "log_row k w sub c ex win out =
     \<lparr>wl_key = k, wl_writer = wr_name w, wl_seq = wr_seq w, wl_client = w_cts c, wl_submitted = sub,
      wl_executed = ex, wl_winner = win, wl_outcome = out\<rparr>"

text \<open>One step of one writer: its next state, and what becomes of the table and the log.\<close>

definition writer_step :: "variant \<Rightarrow> (rat \<Rightarrow> int) \<Rightarrow> string list \<Rightarrow> lww_event \<Rightarrow> writer \<Rightarrow> lww_sys \<Rightarrow> writer \<times> lww_sys" where
  "writer_step v to_ts keys ev w s =
     (let k = key_at keys w in
      case (ev, wr_phase w) of
        (Submit _, Idle) \<Rightarrow>
          if keys = [] then (w, s) else (w\<lparr>wr_seq := wr_seq w + 1, wr_phase := Submitted (db_time s)\<rparr>, s)
      | (Begin _ t, Submitted sub) \<Rightarrow> (w\<lparr>wr_phase := Started sub (call_of to_ts t k s w)\<rparr>, s)
      | (Write _, Started sub c) \<Rightarrow>
          (case write_of v c (db_time s) (items s k) of
             Some it \<Rightarrow> (w\<lparr>wr_phase := Wrote sub c True\<rparr>, s\<lparr>items := (items s)(k \<mapsto> it)\<rparr>)
           | None \<Rightarrow> (w\<lparr>wr_phase := Wrote sub c False\<rparr>, s))
      | (Return _, Wrote sub c ok) \<Rightarrow>
          (w\<lparr>wr_phase := (if ok then Finished sub c (db_time s) None ''applied'' else Beaten sub c (db_time s))\<rparr>, s)
      | (Ask_winner _, Beaten sub c ex) \<Rightarrow>
          (w\<lparr>wr_phase := Finished sub c ex (map_option it_applied (items s k)) (reject_outcome v)\<rparr>, s)
      | (Log _, Finished sub c ex win out) \<Rightarrow>
          (w\<lparr>wr_phase := Idle\<rparr>, s\<lparr>wlog := wlog s @ [log_row k w sub c ex win out]\<rparr>)
      | _ \<Rightarrow> (w, s))"

definition lww_step :: "variant \<Rightarrow> (rat \<Rightarrow> int) \<Rightarrow> string list \<Rightarrow> lww_event \<Rightarrow> lww_sys \<Rightarrow> lww_sys" where
  "lww_step v to_ts keys ev s =
     (case ev of Elapse d \<Rightarrow> s\<lparr>db_time := db_time s + int d\<rparr>
      | _ \<Rightarrow> (let i = writer_of ev in
          if length (writers s) \<le> i then s
          else (let (w', s') = writer_step v to_ts keys ev (writers s ! i) s in s'\<lparr>writers := (writers s)[i := w']\<rparr>)))"

definition lww_run :: "variant \<Rightarrow> (rat \<Rightarrow> int) \<Rightarrow> string list \<Rightarrow> lww_event list \<Rightarrow> lww_sys \<Rightarrow> lww_sys" where
  "lww_run v to_ts keys evs s = fold (lww_step v to_ts keys) evs s"

text \<open>\<^verbatim>\<open>main\<close> starts two writers; the second one's clock is wrong by \<^verbatim>\<open>--offset-ms\<close>.\<close>

definition lww_start :: "rat \<Rightarrow> int \<Rightarrow> lww_sys" where
  "lww_start offset_ms t0 =
     \<lparr>db_time = t0, items = Map.empty, wlog = [],
      writers = [\<lparr>wr_name = ''writer-a'', wr_offset = 0, wr_seq = 0, wr_phase = Idle\<rparr>,
                 \<lparr>wr_name = ''writer-b'', wr_offset = offset_ms, wr_seq = 0, wr_phase = Idle\<rparr>]\<rparr>"


definition concurrent_conflicts :: "lww_sys \<Rightarrow> write_log list" where
  "concurrent_conflicts s =
     filter (\<lambda>r. wl_outcome r = ''rejected_lww'' \<and> (case wl_winner r of None \<Rightarrow> False | Some t \<Rightarrow> wl_submitted r \<le> t)) (wlog s)"

subsection \<open>A loss is never older than the clocks are apart\<close>














lemma key_at_phase [simp]: "key_at keys (w\<lparr>wr_phase := p\<rparr>) = key_at keys w"
  by (simp add: key_at_def)













subsection \<open>Versions count writes\<close>

definition applied_log :: "string \<Rightarrow> lww_sys \<Rightarrow> write_log list" where
  "applied_log k s = filter (\<lambda>r. wl_key r = k \<and> wl_outcome r = ''applied'') (wlog s)"

text \<open>A writer whose write has been applied and is not logged yet.\<close>

definition unlogged :: "string list \<Rightarrow> string \<Rightarrow> writer \<Rightarrow> bool" where
  "unlogged keys k w = (key_at keys w = k \<and>
     (case wr_phase w of Wrote sub c ok \<Rightarrow> ok | Finished sub c ex win out \<Rightarrow> out = ''applied'' | _ \<Rightarrow> False))"

definition version_of_key :: "string \<Rightarrow> lww_sys \<Rightarrow> int" where
  "version_of_key k s = (case items s k of None \<Rightarrow> 0 | Some it \<Rightarrow> it_version it)"

definition seen_ok :: "string list \<Rightarrow> (string \<rightharpoonup> item) \<Rightarrow> writer \<Rightarrow> bool" where
  "seen_ok keys its w = (case wr_phase w of Started sub c \<Rightarrow> its (key_at keys w) = None \<longrightarrow> w_seen c = None | _ \<Rightarrow> True)"

definition cas_inv :: "string list \<Rightarrow> lww_sys \<Rightarrow> bool" where
  "cas_inv keys s =
     ((\<forall>k. version_of_key k s = int (length (applied_log k s) + length (filter (unlogged keys k) (writers s)))) \<and>
      (\<forall>it\<in>ran (items s). 0 < it_version it) \<and> (\<forall>w\<in>set (writers s). seen_ok keys (items s) w))"

lemma seen_ok_mono: "seen_ok keys its w \<Longrightarrow> dom its \<subseteq> dom its' \<Longrightarrow> seen_ok keys its' w"
  by (cases "wr_phase w") (auto simp: seen_ok_def)

lemma write_v2_version:
  assumes "write_v2 c t old = Some it" "old = None \<longrightarrow> w_seen c = None" "\<forall>o'. old = Some o' \<longrightarrow> 0 < it_version o'"
  shows "it_version it = (case old of None \<Rightarrow> 0 | Some o' \<Rightarrow> it_version o') + 1"
  using assms by (auto simp: write_v2_def split: option.splits if_splits)

lemma writer_step_version:
  assumes "writer_step V2 to_ts keys ev w s = (w', s')" "seen_ok keys (items s) w" "\<forall>it\<in>ran (items s). 0 < it_version it"
  shows "version_of_key k s' + int (length (applied_log k s)) + of_bool (unlogged keys k w) =
      version_of_key k s + int (length (applied_log k s')) + of_bool (unlogged keys k w') \<and>
    (\<forall>it\<in>ran (items s'). 0 < it_version it) \<and> dom (items s) \<subseteq> dom (items s') \<and> seen_ok keys (items s') w'"
proof (cases "\<exists>i sub c it. ev = Write i \<and> wr_phase w = Started sub c \<and> write_v2 c (db_time s) (items s (key_at keys w)) = Some it")
  case True
  then obtain i sub c it where ev: "ev = Write i" "wr_phase w = Started sub c"
    and wr: "write_v2 c (db_time s) (items s (key_at keys w)) = Some it" by blast
  let ?k = "key_at keys w"
  from assms(1) ev wr have out: "w' = w\<lparr>wr_phase := Wrote sub c True\<rparr>" "s' = s\<lparr>items := (items s)(?k \<mapsto> it)\<rparr>"
    by (simp_all add: writer_step_def Let_def)
  have "\<forall>o'. items s ?k = Some o' \<longrightarrow> 0 < it_version o'" using assms(3) by (auto simp: ran_def)
  then have v: "it_version it = version_of_key ?k s + 1"
    using write_v2_version [OF wr] assms(2) ev by (simp add: seen_ok_def version_of_key_def)
  moreover have "0 \<le> version_of_key ?k s"
    using \<open>\<forall>o'. items s ?k = Some o' \<longrightarrow> 0 < it_version o'\<close> by (auto simp: version_of_key_def split: option.splits)
  moreover have "\<forall>it'\<in>ran ((items s)(?k \<mapsto> it)). it' = it \<or> it' \<in> ran (items s)" by (auto simp: ran_def split: if_splits)
  ultimately show ?thesis
    unfolding out using assms(3) ev
    by (auto simp: unlogged_def seen_ok_def applied_log_def version_of_key_def)
next
  case False
  have "items s' = items s"
    using assms(1) False by (auto simp: writer_step_def Let_def split: lww_event.splits wphase.splits option.splits if_splits)
  moreover have "seen_ok keys (items s') w'"
    using assms(1,2) False
    by (auto simp: writer_step_def Let_def seen_ok_def call_of_def key_at_def split: lww_event.splits wphase.splits option.splits if_splits)
  moreover have "int (length (applied_log k s)) + of_bool (unlogged keys k w) = int (length (applied_log k s')) + of_bool (unlogged keys k w')"
    using assms(1) False
    by (cases "wr_phase w"; cases ev)
      (auto simp: writer_step_def Let_def unlogged_def applied_log_def log_row_def split: option.splits if_splits)
  ultimately show ?thesis using assms(3) by (simp add: version_of_key_def)
qed

lemma lww_step_cas:
  assumes "cas_inv keys s"
  shows "cas_inv keys (lww_step V2 to_ts keys ev s)"
proof (cases "(\<exists>d. ev = Elapse d) \<or> length (writers s) \<le> writer_of ev")
  case True
  have "cas_inv keys (s\<lparr>db_time := t\<rparr>)" for t
    using assms by (simp add: cas_inv_def version_of_key_def applied_log_def)
  with True assms show ?thesis by (cases ev) (auto simp: lww_step_def)
next
  case False
  let ?i = "writer_of ev"
  let ?w = "writers s ! ?i"
  obtain w' s' where st: "writer_step V2 to_ts keys ev ?w s = (w', s')" by fastforce
  have step: "lww_step V2 to_ts keys ev s = s'\<lparr>writers := (writers s)[?i := w']\<rparr>"
    using False st by (cases ev) (auto simp: lww_step_def)
  have i: "?i < length (writers s)" using False by simp
  have inv: "seen_ok keys (items s) ?w" "\<forall>it\<in>ran (items s). 0 < it_version it"
    and count: "version_of_key k s = int (length (applied_log k s) + length (filter (unlogged keys k) (writers s)))" for k
    using assms i by (auto simp: cas_inv_def)
  note ok = writer_step_version [OF st inv]
  have "seen_ok keys (items s') w" if "w \<in> set ((writers s)[?i := w'])" for w
  proof -
    have "w = w' \<or> w \<in> set (writers s)" using that set_update_subset_insert by fast
    then show ?thesis
    proof
      assume "w \<in> set (writers s)"
      with assms have "seen_ok keys (items s) w" by (simp add: cas_inv_def)
      then show ?thesis by (rule seen_ok_mono) (use ok in blast)
    qed (use ok in blast)
  qed
  moreover have "version_of_key k s' = int (length (applied_log k s') + length (filter (unlogged keys k) ((writers s)[?i := w'])))" for k
  proof -
    have "length (filter (unlogged keys k) ((writers s)[?i := w'])) + of_bool (unlogged keys k ?w) =
        length (filter (unlogged keys k) (writers s)) + of_bool (unlogged keys k w')"
      by (rule length_filter_update [OF i])
    then have "int (length (filter (unlogged keys k) ((writers s)[?i := w']))) + of_bool (unlogged keys k ?w) =
        int (length (filter (unlogged keys k) (writers s))) + of_bool (unlogged keys k w')"
      by (metis of_nat_add of_nat_of_bool)
    with count [of k] conjunct1 [OF ok, of k] show ?thesis by linarith
  qed
  moreover have "version_of_key k (s'\<lparr>writers := ws\<rparr>) = version_of_key k s'"
    "applied_log k (s'\<lparr>writers := ws\<rparr>) = applied_log k s'" for k ws
    by (simp_all add: version_of_key_def applied_log_def)
  ultimately show ?thesis unfolding step using ok by (simp add: cas_inv_def)
qed

text \<open>
  With the version column an item's version is the number of writes that were reported as applied, plus those still
  being reported: no write overwrites another it has not seen.
\<close>

lemma cas_counts_every_write:
  "version_of_key k (lww_run V2 to_ts keys evs (lww_start offset_ms t0)) =
     int (length (applied_log k (lww_run V2 to_ts keys evs (lww_start offset_ms t0))) +
       length (filter (unlogged keys k) (writers (lww_run V2 to_ts keys evs (lww_start offset_ms t0)))))"
proof -
  have "cas_inv keys (lww_run V2 to_ts keys evs s)" if "cas_inv keys s" for s
    using that by (induction evs arbitrary: s) (simp_all add: lww_run_def lww_step_cas)
  moreover have "cas_inv keys (lww_start offset_ms t0)"
    by (simp add: cas_inv_def lww_start_def version_of_key_def applied_log_def unlogged_def seen_ok_def)
  ultimately show ?thesis by (simp add: cas_inv_def)
qed

end
