(* ===== verification/Net_Service.thy ===== *)
theory Net_Service
  imports Token_Bucket PyText
begin

text \<open>
  The service under test of \<^verbatim>\<open>02-network/lab/api/app.py\<close>: the request deadline, the retry budget, the breaker
  and \<^verbatim>\<open>/order\<close> behind its admission middleware. A request is cut at its awaits (the upstream call, the sleep
  before a retry), so any number of requests share the budget, the breaker and the counters in any order. Clock
  readings, random draws and what the HTTP client reports are inputs of the step that uses them; times are doubles.
\<close>

subsection \<open>Deadline, retry budget, breaker\<close>

record deadline =
  expires_at :: rat
  reserve :: rat

definition new_deadline :: "rat \<Rightarrow> rat \<Rightarrow> rat \<Rightarrow> deadline" where
  "new_deadline now tot rsv = \<lparr>expires_at = fl (now + tot), reserve = rsv\<rparr>"

definition time_left :: "rat \<Rightarrow> deadline \<Rightarrow> rat" where
  "time_left now d = fl (expires_at d - now)"

definition for_call :: "rat \<Rightarrow> rat \<Rightarrow> deadline \<Rightarrow> rat" where
  "for_call now cap d = min (fl (time_left now d - reserve d)) cap"

record net_budget =
  nb_ratio :: rat
  nb_tokens :: rat
  nb_burst :: rat

definition new_net_budget :: "rat \<Rightarrow> int \<Rightarrow> net_budget" where
  "new_net_budget r burst = \<lparr>nb_ratio = r, nb_tokens = fl (of_int burst), nb_burst = fl (of_int burst)\<rparr>"

definition on_request :: "net_budget \<Rightarrow> net_budget" where
  "on_request b = b\<lparr>nb_tokens := min (nb_burst b) (fl (nb_tokens b + nb_ratio b))\<rparr>"

definition try_retry :: "net_budget \<Rightarrow> bool \<times> net_budget" where
  "try_retry b = (if 1 \<le> nb_tokens b then (True, b\<lparr>nb_tokens := fl (nb_tokens b - 1)\<rparr>) else (False, b))"

interpretation net_tb: token_bucket nb_tokens nb_ratio nb_burst "\<lambda>_. True" on_request try_retry
  by unfold_locales (auto simp: on_request_def try_retry_def)

record net_breaker =
  threshold :: int
  cool_down :: rat
  consecutive_failures :: int
  opened_at :: rat

definition new_net_breaker :: "int \<Rightarrow> rat \<Rightarrow> net_breaker" where
  "new_net_breaker n c = \<lparr>threshold = n, cool_down = c, consecutive_failures = 0, opened_at = 0\<rparr>"

definition allows :: "rat \<Rightarrow> net_breaker \<Rightarrow> bool \<times> net_breaker" where
  "allows now b =
     (if consecutive_failures b < threshold b then (True, b)
      else if cool_down b < fl (now - opened_at b) then (True, b\<lparr>consecutive_failures := threshold b - 1\<rparr>)
      else (False, b))"

definition record_outcome :: "bool \<Rightarrow> rat \<Rightarrow> rat \<Rightarrow> net_breaker \<Rightarrow> net_breaker" where
  "record_outcome ok t1 t2 b =
     (if ok then b\<lparr>consecutive_failures := 0\<rparr>
      else let b1 = (if consecutive_failures b = 0 then b\<lparr>opened_at := t1\<rparr> else b);
               b2 = b1\<lparr>consecutive_failures := consecutive_failures b1 + 1\<rparr>
           in if consecutive_failures b2 = threshold b2 then b2\<lparr>opened_at := t2\<rparr> else b2)"

subsection \<open>The process\<close>

record net_stats =
  ns_inflight :: int
  ns_inflight_max :: int
  upstream_calls :: int
  upstream_errors :: int
  upstream_timeouts :: int
  ns_retries :: int
  retries_denied_by_budget :: int
  breaker_open_rejections :: int
  ns_shed :: int

definition new_net_stats :: net_stats where
  "new_net_stats = \<lparr>ns_inflight = 0, ns_inflight_max = 0, upstream_calls = 0, upstream_errors = 0, upstream_timeouts = 0,
     ns_retries = 0, retries_denied_by_budget = 0, breaker_open_rejections = 0, ns_shed = 0\<rparr>"

record net_world = net_stats +
  BUDGET :: net_budget
  BREAKER :: net_breaker

record net_cfg =
  TIMEOUT_PROFILE :: string
  BUDGET_TOTAL :: rat
  BUDGET_RESERVE :: rat
  shed_at :: "int option"

text \<open>\<^verbatim>\<open>BUDGET = RetryBudget()\<close> and \<^verbatim>\<open>BREAKER = Breaker()\<close> with their default arguments.\<close>

definition net_world0 :: net_world where
  "net_world0 = net_stats.extend new_net_stats
     \<lparr>BUDGET = new_net_budget (fl (1 / 10)) 20, BREAKER = new_net_breaker 20 5\<rparr>"

text \<open>What \<^verbatim>\<open>client.get\<close> does: a status, a timeout, another error of the client library, anything else.\<close>

datatype upstream = Status int | Timed_out | Http_failed | Crashes string

datatype order_reply =
    Served
  | Failed int string "nat option"
  | Shed_503
  | Escaped string

record attempt_state =
  at_deadline :: deadline
  at_hop :: nat
  at_attempt :: nat
  at_backoff :: rat

datatype order_phase =
    Unstarted
  | Calling nat
  | Calling_budget attempt_state
  | Calling_full attempt_state
  | Sleeping attempt_state rat
  | Replied order_reply

text \<open>The clock readings and the draw one section of a request uses.\<close>

record readings =
  t_new :: rat
  t_slice :: rat
  t_allow :: rat
  t_call :: rat
  t_record :: rat
  t_trip :: rat
  t_left :: rat
  t_sleep :: rat
  draw :: rat

definition call_upstream :: "net_world \<Rightarrow> net_world" where
  "call_upstream w = w\<lparr>upstream_calls := upstream_calls w + 1\<rparr>"

text \<open>The result of \<^verbatim>\<open>_attempt\<close>, or the exception it lets through.\<close>

fun attempt_result :: "upstream \<Rightarrow> net_world \<Rightarrow> (string + bool) \<times> net_world" where
  "attempt_result (Status n) w = (Inr (n < 500), w)"
| "attempt_result Timed_out w = (Inr False, w\<lparr>upstream_timeouts := upstream_timeouts w + 1\<rparr>)"
| "attempt_result Http_failed w = (Inr False, w\<lparr>upstream_errors := upstream_errors w + 1\<rparr>)"
| "attempt_result (Crashes e) w = (Inl e, w)"

text \<open>
  The sections of \<^verbatim>\<open>order\<close>. Each returns the next phase, the process, and the timeout of the upstream call it
  makes, if it makes one; \<open>Some None\<close> is a call without a timeout.
\<close>

type_synonym section_result = "order_phase \<times> net_world \<times> rat option option"

definition full_loop :: "readings \<Rightarrow> attempt_state \<Rightarrow> net_world \<Rightarrow> section_result" where
  "full_loop r a w =
     (let (ok, br) = allows (t_allow r) (BREAKER w); w1 = w\<lparr>BREAKER := br\<rparr> in
      if \<not> ok then
        (Replied (Failed 503 ''breaker open'' (Some (at_hop a))),
         w1\<lparr>breaker_open_rejections := breaker_open_rejections w1 + 1\<rparr>, None)
      else (Calling_full a, call_upstream w1, Some (Some (for_call (t_call r) 1 (at_deadline a)))))"

definition hop_start :: "net_cfg \<Rightarrow> readings \<Rightarrow> deadline \<Rightarrow> nat \<Rightarrow> net_world \<Rightarrow> section_result" where
  "hop_start cfg r d hop w =
     (if 3 \<le> hop then (Replied Served, w, None)
      else let slice = for_call (t_slice r) 1 d in
        if slice \<le> 0 then (Replied (Failed 504 ''deadline exceeded before hop'' (Some hop)), w, None)
        else if TIMEOUT_PROFILE cfg = ''budget'' then
          (Calling_budget \<lparr>at_deadline = d, at_hop = hop, at_attempt = 0, at_backoff = 0\<rparr>, call_upstream w, Some (Some slice))
        else full_loop r \<lparr>at_deadline = d, at_hop = hop, at_attempt = 0, at_backoff = fl (5 / 100)\<rparr>
               (w\<lparr>BUDGET := on_request (BUDGET w)\<rparr>))"

definition header_total :: "net_cfg \<Rightarrow> string option \<Rightarrow> rat" where
  "header_total cfg hdr = (case hdr of None \<Rightarrow> BUDGET_TOTAL cfg
     | Some s \<Rightarrow> if s = [] then BUDGET_TOTAL cfg
         else (case py_float_of s of None \<Rightarrow> BUDGET_TOTAL cfg | Some x \<Rightarrow> min (BUDGET_TOTAL cfg) x))"

definition order_start :: "net_cfg \<Rightarrow> string option \<Rightarrow> readings \<Rightarrow> net_world \<Rightarrow> section_result" where
  "order_start cfg hdr r w =
     (if TIMEOUT_PROFILE cfg = ''none'' then (Calling 0, call_upstream w, Some None)
      else if TIMEOUT_PROFILE cfg = ''flat'' then (Calling 0, call_upstream w, Some (Some 5))
      else hop_start cfg r (new_deadline (t_new r) (header_total cfg hdr) (BUDGET_RESERVE cfg)) 0 w)"

definition plain_answer :: "net_cfg \<Rightarrow> nat \<Rightarrow> upstream \<Rightarrow> net_world \<Rightarrow> section_result" where
  "plain_answer cfg n ans w =
     (if TIMEOUT_PROFILE cfg = ''none'' then
        (case ans of
           Status k \<Rightarrow> if n < 2 then (Calling (n + 1), call_upstream w, Some None) else (Replied Served, w, None)
         | Timed_out \<Rightarrow> (Replied (Escaped ''TimeoutException''), w, None)
         | Http_failed \<Rightarrow> (Replied (Escaped ''HTTPError''), w, None)
         | Crashes e \<Rightarrow> (Replied (Escaped e), w, None))
      else (case attempt_result ans w of
           (Inl e, w1) \<Rightarrow> (Replied (Escaped e), w1, None)
         | (Inr ok, w1) \<Rightarrow>
             if \<not> ok then (Replied (Failed 504 ''upstream'' None), w1, None)
             else if n < 2 then (Calling (n + 1), call_upstream w1, Some (Some 5)) else (Replied Served, w1, None)))"

definition budget_answer :: "net_cfg \<Rightarrow> readings \<Rightarrow> attempt_state \<Rightarrow> upstream \<Rightarrow> net_world \<Rightarrow> section_result" where
  "budget_answer cfg r a ans w =
     (case attempt_result ans w of
        (Inl e, w1) \<Rightarrow> (Replied (Escaped e), w1, None)
      | (Inr ok, w1) \<Rightarrow>
          if \<not> ok then (Replied (Failed 504 ''upstream'' (Some (at_hop a))), w1, None)
          else hop_start cfg r (at_deadline a) (at_hop a + 1) w1)"

definition retry_sleep :: "readings \<Rightarrow> attempt_state \<Rightarrow> rat" where
  "retry_sleep r a = fl (min (at_backoff a) (max 0 (time_left (t_sleep r) (at_deadline a))) * draw r)"

definition full_answer :: "net_cfg \<Rightarrow> readings \<Rightarrow> attempt_state \<Rightarrow> upstream \<Rightarrow> net_world \<Rightarrow> section_result" where
  "full_answer cfg r a ans w =
     (case attempt_result ans w of
        (Inl e, w1) \<Rightarrow> (Replied (Escaped e), w1, None)
      | (Inr ok, w1) \<Rightarrow>
          let w2 = w1\<lparr>BREAKER := record_outcome ok (t_record r) (t_trip r) (BREAKER w1)\<rparr>;
              give_up = (Replied (Failed 504 ''upstream'' (Some (at_hop a))) :: order_phase) in
          if ok then hop_start cfg r (at_deadline a) (at_hop a + 1) w2
          else if 2 \<le> at_attempt a \<or> time_left (t_left r) (at_deadline a) \<le> BUDGET_RESERVE cfg then (give_up, w2, None)
          else let (granted, b) = try_retry (BUDGET w2); w3 = w2\<lparr>BUDGET := b\<rparr> in
            if \<not> granted then (give_up, w3\<lparr>retries_denied_by_budget := retries_denied_by_budget w3 + 1\<rparr>, None)
            else (Sleeping a (retry_sleep r a), w3\<lparr>ns_retries := ns_retries w3 + 1\<rparr>, None))"

definition wake :: "readings \<Rightarrow> attempt_state \<Rightarrow> net_world \<Rightarrow> section_result" where
  "wake r a w = full_loop r (a\<lparr>at_backoff := fl (at_backoff a * 2), at_attempt := at_attempt a + 1\<rparr>) w"

subsection \<open>The middleware and the event loop\<close>

record net_sys =
  world :: net_world
  requests :: "order_phase list"
  calls_made :: "rat option list"

datatype net_event =
    Arrives nat "string option" readings
  | Answers nat upstream readings
  | Wakes nat readings

fun replied :: "order_phase \<Rightarrow> bool" where
  "replied (Replied x) = True" | "replied _ = False"

text \<open>A section ends in a reply or in an await; a reply leaves through the \<^verbatim>\<open>finally\<close> of \<^verbatim>\<open>track_inflight\<close>.\<close>

definition leave :: "order_phase \<Rightarrow> net_world \<Rightarrow> net_world" where
  "leave p w = (if replied p then w\<lparr>ns_inflight := ns_inflight w - 1\<rparr> else w)"

definition put :: "nat \<Rightarrow> section_result \<Rightarrow> net_sys \<Rightarrow> net_sys" where
  "put i res s = (case res of (p, w, call) \<Rightarrow>
     s\<lparr>world := leave p w, requests := (requests s)[i := p],
       calls_made := calls_made s @ (case call of None \<Rightarrow> [] | Some t \<Rightarrow> [t])\<rparr>)"

definition track_inflight :: "net_cfg \<Rightarrow> string option \<Rightarrow> readings \<Rightarrow> net_world \<Rightarrow> section_result" where
  "track_inflight cfg hdr r w =
     (let w1 = w\<lparr>ns_inflight := ns_inflight w + 1\<rparr>;
          w2 = w1\<lparr>ns_inflight_max := max (ns_inflight_max w1) (ns_inflight w1)\<rparr> in
      case shed_at cfg of
        None \<Rightarrow> order_start cfg hdr r w2
      | Some k \<Rightarrow> if k < ns_inflight w2 then (Replied Shed_503, w2\<lparr>ns_shed := ns_shed w2 + 1\<rparr>, None)
                  else order_start cfg hdr r w2)"

fun net_step :: "net_cfg \<Rightarrow> net_event \<Rightarrow> net_sys \<Rightarrow> net_sys" where
  "net_step cfg (Arrives i hdr r) s =
     (if i < length (requests s) \<and> requests s ! i = Unstarted then put i (track_inflight cfg hdr r (world s)) s else s)"
| "net_step cfg (Answers i ans r) s =
     (if length (requests s) \<le> i then s else
      case requests s ! i of
        Calling n \<Rightarrow> put i (plain_answer cfg n ans (world s)) s
      | Calling_budget a \<Rightarrow> put i (budget_answer cfg r a ans (world s)) s
      | Calling_full a \<Rightarrow> put i (full_answer cfg r a ans (world s)) s
      | _ \<Rightarrow> s)"
| "net_step cfg (Wakes i r) s =
     (if length (requests s) \<le> i then s else
      case requests s ! i of Sleeping a d \<Rightarrow> put i (wake r a (world s)) s | _ \<Rightarrow> s)"

definition net_run :: "net_cfg \<Rightarrow> net_event list \<Rightarrow> net_sys \<Rightarrow> net_sys" where
  "net_run cfg evs s = fold (net_step cfg) evs s"

definition net_start :: "nat \<Rightarrow> net_sys" where
  "net_start n = \<lparr>world = net_world0, requests = replicate n Unstarted, calls_made = []\<rparr>"

subsection \<open>What one section may do\<close>

text \<open>First calls, deposits and sections a request may still make.\<close>

fun firsts_left :: "order_phase \<Rightarrow> nat" where
  "firsts_left Unstarted = 3"
| "firsts_left (Calling n) = 2 - n"
| "firsts_left (Calling_budget a) = 2 - at_hop a"
| "firsts_left (Calling_full a) = 2 - at_hop a"
| "firsts_left (Sleeping a d) = 3 - at_hop a"
| "firsts_left (Replied x) = 0"

fun deposits_left :: "order_phase \<Rightarrow> nat" where
  "deposits_left Unstarted = 3"
| "deposits_left (Calling n) = 0"
| "deposits_left (Calling_budget a) = 2 - at_hop a"
| "deposits_left (Calling_full a) = 2 - at_hop a"
| "deposits_left (Sleeping a d) = 2 - at_hop a"
| "deposits_left (Replied x) = 0"

fun wf_phase :: "order_phase \<Rightarrow> bool" where
  "wf_phase (Calling n) = (n \<le> 2)"
| "wf_phase (Calling_budget a) = (at_hop a \<le> 2)"
| "wf_phase (Calling_full a) = (at_hop a \<le> 2 \<and> at_attempt a \<le> 2)"
| "wf_phase (Sleeping a d) = (at_hop a \<le> 2 \<and> at_attempt a \<le> 1)"
| "wf_phase _ = True"

definition in_progress :: "order_phase \<Rightarrow> bool" where
  "in_progress p = (p \<noteq> Unstarted \<and> \<not> replied p)"

definition spends :: "net_world \<Rightarrow> net_world \<Rightarrow> nat \<Rightarrow> bool" where
  "spends w w' n = (\<exists>ops g. bucket_run on_request try_retry ops (BUDGET w) = (g, BUDGET w') \<and>
     ns_retries w' = ns_retries w + int g \<and> deposits ops \<le> n)"

definition section_ok :: "net_world \<Rightarrow> nat \<Rightarrow> nat \<Rightarrow> section_result \<Rightarrow> bool" where
  "section_ok w calls dps res = (case res of (p, w', call) \<Rightarrow>
     wf_phase p \<and> p \<noteq> Unstarted \<and> ns_inflight w' = ns_inflight w \<and> ns_inflight_max w' = ns_inflight_max w \<and>
     upstream_calls w' = upstream_calls w + of_bool (call \<noteq> None) \<and>
     upstream_calls w' + int (firsts_left p) + ns_retries w \<le> upstream_calls w + ns_retries w' + int calls \<and>
     deposits_left p \<le> dps \<and> spends w w' (dps - deposits_left p))"

lemma spends_none: "BUDGET w' = BUDGET w \<Longrightarrow> ns_retries w' = ns_retries w \<Longrightarrow> spends w w' n"
  unfolding spends_def by (rule exI [of _ "[]"]) simp

lemma spends_deposit:
  assumes "spends w1 w' n" "BUDGET w1 = on_request (BUDGET w)" "ns_retries w1 = ns_retries w"
  shows "spends w w' (Suc n)"
proof -
  from assms(1) obtain ops g where "bucket_run on_request try_retry ops (BUDGET w1) = (g, BUDGET w')"
    "ns_retries w' = ns_retries w1 + int g" "deposits ops \<le> n" by (auto simp: spends_def)
  with assms(2,3) show ?thesis unfolding spends_def by (intro exI [of _ "Deposit # ops"] exI [of _ g]) simp
qed

lemma spends_withdraw:
  assumes "try_retry (BUDGET w) = (True, BUDGET w')" "ns_retries w' = ns_retries w + 1"
  shows "spends w w' n"
  unfolding spends_def using assms by (intro exI [of _ "[Withdraw]"] exI [of _ 1]) simp

lemma spends_trans:
  assumes "spends w w1 m" "spends w1 w2 n"
  shows "spends w w2 (m + n)"
proof -
  from assms obtain ops1 g1 ops2 g2 where 1: "bucket_run on_request try_retry ops1 (BUDGET w) = (g1, BUDGET w1)"
      "ns_retries w1 = ns_retries w + int g1" "deposits ops1 \<le> m"
    and 2: "bucket_run on_request try_retry ops2 (BUDGET w1) = (g2, BUDGET w2)"
      "ns_retries w2 = ns_retries w1 + int g2" "deposits ops2 \<le> n"
    unfolding spends_def by blast
  then show ?thesis unfolding spends_def
    by (intro exI [of _ "ops1 @ ops2"] exI [of _ "g1 + g2"]) (simp add: bucket_run_append deposits_def)
qed

lemma spends_mono: "spends w w' m \<Longrightarrow> m \<le> n \<Longrightarrow> spends w w' n"
  unfolding spends_def by (meson order_trans)

lemma spends_cong: "spends w w1 n \<Longrightarrow> BUDGET w1 = BUDGET w2 \<Longrightarrow> ns_retries w1 = ns_retries w2 \<Longrightarrow> spends w w2 n"
  by (simp add: spends_def)

text \<open>Changing what no budget looks at before a section.\<close>

lemma section_ok_frame:
  "section_ok w1 c d res \<Longrightarrow> BUDGET w1 = BUDGET w \<Longrightarrow> ns_retries w1 = ns_retries w \<Longrightarrow> upstream_calls w1 = upstream_calls w \<Longrightarrow>
   ns_inflight w1 = ns_inflight w \<Longrightarrow> ns_inflight_max w1 = ns_inflight_max w \<Longrightarrow> section_ok w c d res"
  by (auto simp: section_ok_def spends_def split: prod.splits)

lemma section_ok_reply:
  "ns_inflight w' = ns_inflight w \<Longrightarrow> ns_inflight_max w' = ns_inflight_max w \<Longrightarrow> upstream_calls w' = upstream_calls w \<Longrightarrow>
   BUDGET w' = BUDGET w \<Longrightarrow> ns_retries w' = ns_retries w \<Longrightarrow> section_ok w c d (Replied x, w', None)"
  by (simp add: section_ok_def spends_none)

lemma full_loop_ok: "at_hop a \<le> 2 \<Longrightarrow> at_attempt a \<le> 2 \<Longrightarrow> section_ok w (3 - at_hop a) (2 - at_hop a) (full_loop r a w)"
  by (auto simp: full_loop_def Let_def section_ok_def call_upstream_def intro!: spends_none split: prod.splits)

lemma hop_start_ok: "section_ok w (3 - hop) (3 - hop) (hop_start cfg r d hop w)"
proof (cases "2 < hop \<or> for_call (t_slice r) 1 d \<le> 0 \<or> TIMEOUT_PROFILE cfg = ''budget''")
  case True
  then show ?thesis
    by (auto simp: hop_start_def Let_def section_ok_def call_upstream_def spends_none)
next
  case False
  let ?a = "\<lparr>at_deadline = d, at_hop = hop, at_attempt = 0, at_backoff = fl (5 / 100)\<rparr>"
  let ?w = "w\<lparr>BUDGET := on_request (BUDGET w)\<rparr>"
  have eq: "hop_start cfg r d hop w = full_loop r ?a ?w" using False by (auto simp: hop_start_def Let_def)
  obtain p w' call where fl: "full_loop r ?a ?w = (p, w', call)" by (cases "full_loop r ?a ?w")
  have ok: "section_ok ?w (3 - hop) (2 - hop) (p, w', call)" using full_loop_ok [of ?a ?w r] False fl by simp
  then have "spends ?w w' (2 - hop - deposits_left p)" by (simp add: section_ok_def)
  from spends_deposit [OF this] have "spends w w' (Suc (2 - hop - deposits_left p))" by simp
  moreover have "hop \<le> 2" "deposits_left p \<le> 2 - hop" using ok False by (simp_all add: section_ok_def)
  ultimately have "spends w w' (3 - hop - deposits_left p)" "deposits_left p \<le> 3 - hop" by (auto elim: spends_mono)
  with ok show ?thesis unfolding eq fl by (simp add: section_ok_def)
qed

lemma order_start_ok: "section_ok w 3 3 (order_start cfg hdr r w)"
  using hop_start_ok [of w 0]
  by (auto simp: order_start_def section_ok_def call_upstream_def spends_none)

lemma attempt_result_frame:
  "attempt_result ans w = (res, w1) \<Longrightarrow> BUDGET w1 = BUDGET w \<and> ns_retries w1 = ns_retries w \<and> upstream_calls w1 = upstream_calls w \<and>
   ns_inflight w1 = ns_inflight w \<and> ns_inflight_max w1 = ns_inflight_max w"
  by (cases ans) auto

lemma section_ok_call:
  "n < 2 \<Longrightarrow> BUDGET w1 = BUDGET w \<Longrightarrow> ns_retries w1 = ns_retries w \<Longrightarrow> upstream_calls w1 = upstream_calls w \<Longrightarrow>
   ns_inflight w1 = ns_inflight w \<Longrightarrow> ns_inflight_max w1 = ns_inflight_max w \<Longrightarrow>
   section_ok w (2 - n) 0 (Calling (Suc n), call_upstream w1, Some t)"
  by (simp add: section_ok_def call_upstream_def spends_none)

lemma plain_answer_ok: "n \<le> 2 \<Longrightarrow> section_ok w (2 - n) 0 (plain_answer cfg n ans w)"
  by (cases ans) (simp_all add: plain_answer_def section_ok_reply section_ok_call)

lemma next_hop_ok:
  assumes "BUDGET w1 = BUDGET w" "ns_retries w1 = ns_retries w" "upstream_calls w1 = upstream_calls w"
    "ns_inflight w1 = ns_inflight w" "ns_inflight_max w1 = ns_inflight_max w"
  shows "section_ok w (2 - hop) (2 - hop) (hop_start cfg r d (hop + 1) w1)"
proof -
  have "3 - (hop + 1) = 2 - hop" by simp
  with hop_start_ok [of w1 "hop + 1" cfg r d] have "section_ok w1 (2 - hop) (2 - hop) (hop_start cfg r d (hop + 1) w1)" by metis
  then show ?thesis by (rule section_ok_frame [OF _ assms])
qed

lemma budget_answer_ok:
  assumes "at_hop a \<le> 2"
  shows "section_ok w (2 - at_hop a) (2 - at_hop a) (budget_answer cfg r a ans w)"
proof -
  obtain res w1 where att: "attempt_result ans w = (res, w1)" by fastforce
  note frame = attempt_result_frame [OF att]
  have "section_ok w (2 - at_hop a) (2 - at_hop a) (hop_start cfg r (at_deadline a) (at_hop a + 1) w1)"
    using frame by (intro next_hop_ok) simp_all
  moreover have "section_ok w (2 - at_hop a) (2 - at_hop a) (Replied x, w1, None)" for x
    using frame by (intro section_ok_reply) simp_all
  ultimately show ?thesis by (cases res) (simp_all add: budget_answer_def att)
qed

lemma full_answer_ok:
  assumes "at_hop a \<le> 2" "at_attempt a \<le> 2"
  shows "section_ok w (2 - at_hop a) (2 - at_hop a) (full_answer cfg r a ans w)"
proof -
  obtain res w1 where att: "attempt_result ans w = (res, w1)" by fastforce
  note frame = attempt_result_frame [OF att]
  define w2 where "w2 = (\<lambda>ok. w1\<lparr>BREAKER := record_outcome ok (t_record r) (t_trip r) (BREAKER w1)\<rparr>)"
  have same: "BUDGET (w2 ok) = BUDGET w" "ns_retries (w2 ok) = ns_retries w" "upstream_calls (w2 ok) = upstream_calls w"
    "ns_inflight (w2 ok) = ns_inflight w" "ns_inflight_max (w2 ok) = ns_inflight_max w" for ok
    using frame by (simp_all add: w2_def)
  have fold: "w1\<lparr>BREAKER := record_outcome ok (t_record r) (t_trip r) (BREAKER w1)\<rparr> = w2 ok" for ok
    by (simp add: w2_def)
  note eqn = full_answer_def att Let_def fold
  consider (crash) e where "res = Inl e" | (served) "res = Inr True"
    | (last) "res = Inr False" "2 \<le> at_attempt a \<or> time_left (t_left r) (at_deadline a) \<le> BUDGET_RESERVE cfg"
    | (again) "res = Inr False" "\<not> (2 \<le> at_attempt a \<or> time_left (t_left r) (at_deadline a) \<le> BUDGET_RESERVE cfg)"
    by (cases res) auto
  then show ?thesis
  proof cases
    case crash
    with frame show ?thesis by (simp add: full_answer_def att section_ok_reply)
  next
    case served
    then show ?thesis using next_hop_ok [OF same] by (simp add: eqn)
  next
    case last
    have "section_ok w (2 - at_hop a) (2 - at_hop a) (Replied x, w2 False, None)" for x by (intro section_ok_reply same)
    with last show ?thesis by (simp add: eqn)
  next
    case again
    obtain granted b where tr1: "try_retry (BUDGET w1) = (granted, b)" by fastforce
    then have tr: "try_retry (BUDGET w) = (granted, b)" using frame by simp
    show ?thesis
    proof (cases granted)
      case True
      have "spends w ((w2 False)\<lparr>BUDGET := b, ns_retries := ns_retries w + 1\<rparr>) 0"
        using tr True by (intro spends_withdraw) simp_all
      with True again tr1 assms same frame show ?thesis by (simp add: eqn section_ok_def)
    next
      case no: False
      then have "b = BUDGET w" using tr by (auto simp: try_retry_def split: if_splits)
      with no again tr1 same frame show ?thesis by (simp add: eqn section_ok_reply)
    qed
  qed
qed

lemma wake_ok: "at_hop a \<le> 2 \<Longrightarrow> at_attempt a \<le> 1 \<Longrightarrow> section_ok w (3 - at_hop a) (2 - at_hop a) (wake r a w)"
  using full_loop_ok [of "a\<lparr>at_backoff := fl (at_backoff a * 2), at_attempt := at_attempt a + 1\<rparr>" w r]
  by (simp add: wake_def)

subsection \<open>The process invariant\<close>

definition within_limit :: "net_cfg \<Rightarrow> int \<Rightarrow> int \<Rightarrow> bool" where
  "within_limit cfg cur peak = (case shed_at cfg of None \<Rightarrow> True | Some k \<Rightarrow> cur \<le> max 0 k \<and> peak \<le> max 0 k + 1)"

definition net_inv :: "net_cfg \<Rightarrow> nat \<Rightarrow> net_sys \<Rightarrow> bool" where
  "net_inv cfg n s \<longleftrightarrow>
     length (requests s) = n \<and> list_all wf_phase (requests s) \<and>
     ns_inflight (world s) = int (length (filter in_progress (requests s))) \<and>
     ns_inflight (world s) \<le> ns_inflight_max (world s) \<and>
     within_limit cfg (ns_inflight (world s)) (ns_inflight_max (world s)) \<and>
     upstream_calls (world s) = int (length (calls_made s)) \<and>
     upstream_calls (world s) + int (sum_list (map firsts_left (requests s))) \<le> 3 * int n + ns_retries (world s) \<and>
     (\<exists>ops g. bucket_run on_request try_retry ops (BUDGET net_world0) = (g, BUDGET (world s)) \<and>
        ns_retries (world s) = int g \<and> deposits ops + sum_list (map deposits_left (requests s)) \<le> 3 * n)"

lemma net_inv_start: "net_inv cfg n (net_start n)"
proof -
  have "filter in_progress (replicate n Unstarted) = []" by (induction n) (simp_all add: in_progress_def)
  moreover have "bucket_run on_request try_retry [] (BUDGET net_world0) = (0, BUDGET net_world0)" by simp
  moreover have "list_all wf_phase (replicate n Unstarted)" by (simp add: list_all_length)
  ultimately show ?thesis
    by (auto simp: net_inv_def within_limit_def net_start_def net_world0_def new_net_stats_def net_stats.defs sum_list_replicate
        intro: exI [of _ "[]"] split: option.split)
qed

text \<open>A section that keeps to its own account keeps the accounts of the process.\<close>

lemma put_inv:
  assumes inv: "net_inv cfg n s" and i: "i < n" and q: "requests s ! i = q" and nr: "\<not> replied q"
    and w: "ns_inflight w = ns_inflight (world s) + of_bool (q = Unstarted)"
      "ns_inflight_max (world s) \<le> ns_inflight_max w" "ns_inflight w \<le> ns_inflight_max w"
      "BUDGET w = BUDGET (world s)" "ns_retries w = ns_retries (world s)" "upstream_calls w = upstream_calls (world s)"
    and lim: "within_limit cfg (ns_inflight w - of_bool (replied (fst res))) (ns_inflight_max w)"
    and ok: "section_ok w (firsts_left q) (deposits_left q) res"
  shows "net_inv cfg n (put i res s)"
proof -
  obtain p w' call where res: "res = (p, w', call)" by (cases res)
  note o = ok [unfolded section_ok_def res, simplified]
  have len: "length (requests s) = n" using inv by (simp add: net_inv_def)
  have eq: "put i res s = s\<lparr>world := leave p w', requests := (requests s)[i := p],
     calls_made := calls_made s @ (case call of None \<Rightarrow> [] | Some t \<Rightarrow> [t])\<rparr>" by (simp add: put_def res)
  have lv: "ns_inflight (leave p w') = ns_inflight w' - of_bool (replied p)" "ns_inflight_max (leave p w') = ns_inflight_max w'"
    "BUDGET (leave p w') = BUDGET w'" "ns_retries (leave p w') = ns_retries w'" "upstream_calls (leave p w') = upstream_calls w'"
    by (simp_all add: leave_def)
  have prog: "length (filter in_progress ((requests s)[i := p])) + of_bool (q \<noteq> Unstarted) =
      length (filter in_progress (requests s)) + of_bool (\<not> replied p)"
    using length_filter_update [of i "requests s" in_progress p] len i q nr o by (simp add: in_progress_def)
  then have infl: "ns_inflight (leave p w') = int (length (filter in_progress ((requests s)[i := p])))"
    using inv o w(1) by (auto simp: lv net_inv_def of_bool_def split: if_splits)
  have calls: "upstream_calls w' = int (length (calls_made s @ (case call of None \<Rightarrow> [] | Some t \<Rightarrow> [t])))"
    using inv o w(6) by (cases call) (auto simp: net_inv_def)
  have pend: "upstream_calls w' + int (sum_list (map firsts_left ((requests s)[i := p]))) \<le> 3 * int n + ns_retries w'"
    using inv o w(5,6) sum_map_update [of i "requests s" firsts_left p] len i q by (simp add: net_inv_def)
  obtain ops g where bud: "bucket_run on_request try_retry ops (BUDGET net_world0) = (g, BUDGET (world s))"
    "ns_retries (world s) = int g" "deposits ops + sum_list (map deposits_left (requests s)) \<le> 3 * n"
    using inv by (auto simp: net_inv_def)
  obtain ops' g' where bud': "bucket_run on_request try_retry ops' (BUDGET w) = (g', BUDGET w')"
    "ns_retries w' = ns_retries w + int g'" "deposits ops' \<le> deposits_left q - deposits_left p"
    using o by (auto simp: spends_def)
  have "deposits_left p \<le> deposits_left q" using o by simp
  then have "deposits (ops @ ops') + sum_list (map deposits_left ((requests s)[i := p])) \<le> 3 * n"
    using bud(3) bud'(3) sum_map_update [of i "requests s" deposits_left p] len i q by simp
  moreover have "bucket_run on_request try_retry (ops @ ops') (BUDGET net_world0) = (g + g', BUDGET w')"
    using bud(1) bud'(1) w(4) by (simp add: bucket_run_append)
  moreover have "ns_retries w' = int (g + g')" using bud(2) bud'(2) w(5) by simp
  ultimately have "\<exists>ops g. bucket_run on_request try_retry ops (BUDGET net_world0) = (g, BUDGET w') \<and>
     ns_retries w' = int g \<and> deposits ops + sum_list (map deposits_left ((requests s)[i := p])) \<le> 3 * n" by blast
  moreover have "list_all wf_phase ((requests s)[i := p])"
    using inv o len by (auto simp: net_inv_def list_all_iff dest!: set_update_subset_insert [THEN subsetD])
  moreover have "within_limit cfg (ns_inflight (leave p w')) (ns_inflight_max w')" using lim o by (simp add: lv res)
  moreover have "ns_inflight (leave p w') \<le> ns_inflight_max w'" using o w(3) by (simp add: lv)
  ultimately show ?thesis using infl calls pend len
    unfolding net_inv_def eq by (simp add: lv del: of_nat_add)
qed

lemma track_inflight_ok:
  "\<exists>w1. section_ok w1 3 3 (track_inflight cfg hdr r w) \<and> ns_inflight w1 = ns_inflight w + 1 \<and>
     ns_inflight_max w1 = max (ns_inflight_max w) (ns_inflight w + 1) \<and> BUDGET w1 = BUDGET w \<and> ns_retries w1 = ns_retries w \<and>
     upstream_calls w1 = upstream_calls w"
proof -
  let ?w = "w\<lparr>ns_inflight := ns_inflight w + 1, ns_inflight_max := max (ns_inflight_max w) (ns_inflight w + 1)\<rparr>"
  have "section_ok ?w 3 3 (track_inflight cfg hdr r w)"
    using order_start_ok [of ?w cfg hdr r] section_ok_reply [of "?w\<lparr>ns_shed := ns_shed w + 1\<rparr>" ?w]
    by (simp add: track_inflight_def Let_def split: option.split)
  then show ?thesis by (intro exI [of _ ?w]) simp
qed

lemma track_inflight_limit:
  assumes "within_limit cfg (ns_inflight w) (ns_inflight_max w)"
  shows "within_limit cfg (ns_inflight w + 1 - of_bool (replied (fst (track_inflight cfg hdr r w))))
    (max (ns_inflight_max w) (ns_inflight w + 1))"
  using assms by (auto simp: within_limit_def track_inflight_def Let_def split: option.splits)

lemma within_limit_mono: "within_limit cfg a b \<Longrightarrow> a' \<le> a \<Longrightarrow> within_limit cfg a' b"
  by (auto simp: within_limit_def split: option.splits)

lemma net_step_inv:
  assumes "net_inv cfg n s"
  shows "net_inv cfg n (net_step cfg e s)"
proof -
  have len: "length (requests s) = n" and wf: "i < n \<Longrightarrow> wf_phase (requests s ! i)" for i
    using assms by (auto simp: net_inv_def list_all_length)
  have later: "net_inv cfg n (put i res s)"
    if "i < n" "requests s ! i = q" "q \<noteq> Unstarted" "\<not> replied q" "section_ok (world s) (firsts_left q) (deposits_left q) res" for i res q
    using that assms by (intro put_inv [where w = "world s"]) (auto simp: net_inv_def elim: within_limit_mono)
  show ?thesis
  proof (cases e)
    case (Arrives i hdr r)
    show ?thesis
    proof (cases "i < n \<and> requests s ! i = Unstarted")
      case True
      obtain w1 where w1: "section_ok w1 3 3 (track_inflight cfg hdr r (world s))" "ns_inflight w1 = ns_inflight (world s) + 1"
        "ns_inflight_max w1 = max (ns_inflight_max (world s)) (ns_inflight (world s) + 1)" "BUDGET w1 = BUDGET (world s)"
        "ns_retries w1 = ns_retries (world s)" "upstream_calls w1 = upstream_calls (world s)"
        using track_inflight_ok by blast
      have "net_inv cfg n (put i (track_inflight cfg hdr r (world s)) s)"
        using True assms w1 track_inflight_limit [of cfg "world s" hdr r]
        by (intro put_inv [where w = w1 and q = Unstarted]) (auto simp: net_inv_def)
      with Arrives True len show ?thesis by simp
    qed (use Arrives len assms in auto)
  next
    case (Answers i ans r)
    then show ?thesis
      using assms len wf [of i] later [of i] plain_answer_ok budget_answer_ok full_answer_ok
      by (cases "requests s ! i") auto
  next
    case (Wakes i r)
    then show ?thesis
      using assms len wf [of i] later [of i] wake_ok
      by (cases "requests s ! i") auto
  qed
qed

lemma net_run_inv: "net_inv cfg n (net_run cfg evs (net_start n))"
proof -
  have "net_inv cfg n s \<Longrightarrow> net_inv cfg n (net_run cfg evs s)" for s
    by (induction evs arbitrary: s) (simp_all add: net_run_def net_step_inv)
  then show ?thesis using net_inv_start by blast
qed

subsection \<open>What the budget promises the upstream\<close>

lemma ratio_bound: "fl (1 / 10) \<le> (104858 :: rat) / 2 ^ 20"
proof -
  have "(1 :: rat) / 10 \<le> of_int 104858 / 2 ^ 20" by simp
  then have "fl (1 / 10) \<le> of_int 104858 / 2 ^ 20" by (intro dbl.rnd_le is_double_dyadic) simp_all
  then show ?thesis by simp
qed

lemma budget_bounds_grants:
  assumes "bucket_run on_request try_retry ops (BUDGET net_world0) = (g, b)" "deposits ops \<le> 3 * n" "n \<le> 10 ^ 9"
  shows "int g * 2 ^ 20 \<le> 20 * 2 ^ 20 + 104858 * (3 * int n)"
proof -
  have b0: "nb_tokens (BUDGET net_world0) = 20" "nb_burst (BUDGET net_world0) = 20" "nb_ratio (BUDGET net_world0) = fl (1 / 10)"
    using fl_double [OF is_double_nat [of 20]] by (simp_all add: net_world0_def net_stats.defs new_net_budget_def)
  have d: "int (deposits ops) \<le> 3 * int n" using assms(2) by linarith
  have n: "int n \<le> 10 ^ 9" using assms(3) by simp
  have "int g * 2 ^ 20 \<le> 20 * 2 ^ 20 + 104858 * int (deposits ops)"
    by (rule net_tb.grants_bounded [OF _ _ _ _ _ _ _ _ _ _ assms(1)])
      (use b0 d n ratio_bound fl_nonneg [of "1 / 10"] in \<open>simp_all add: fl_nonneg\<close>)
  with d show ?thesis by linarith
qed

text \<open>
  C26. Whatever the upstream does and however the requests interleave, n requests to \<^verbatim>\<open>/order\<close> cost the upstream
  at most three calls each plus the retries, and the retries are at most 20 plus a tenth of the first calls (in
  double arithmetic); in flight are exactly the requests that have no answer yet, never more than the shedding
  limit, and the recorded peak exceeds that limit by at most one.
\<close>

theorem order_traffic_bounded:
  assumes "n \<le> 10 ^ 9"
  shows "let s = net_run cfg evs (net_start n); w = world s in
    upstream_calls w = int (length (calls_made s)) \<and>
    upstream_calls w \<le> 3 * int n + ns_retries w \<and>
    ns_retries w * 2 ^ 20 \<le> 20 * 2 ^ 20 + 104858 * (3 * int n) \<and>
    ns_inflight w = int (length (filter in_progress (requests s))) \<and>
    ns_inflight w \<le> ns_inflight_max w \<and> within_limit cfg (ns_inflight w) (ns_inflight_max w)"
proof -
  let ?s = "net_run cfg evs (net_start n)"
  have inv: "net_inv cfg n ?s" by (rule net_run_inv)
  then obtain ops g where "bucket_run on_request try_retry ops (BUDGET net_world0) = (g, BUDGET (world ?s))"
    and g: "ns_retries (world ?s) = int g" and "deposits ops \<le> 3 * n"
    by (fastforce simp: net_inv_def)
  then have "int g * 2 ^ 20 \<le> 20 * 2 ^ 20 + 104858 * (3 * int n)"
    using assms by (intro budget_bounds_grants)
  moreover have "upstream_calls (world ?s) = int (length (calls_made ?s))"
      "ns_inflight (world ?s) = int (length (filter in_progress (requests ?s)))" "ns_inflight (world ?s) \<le> ns_inflight_max (world ?s)"
      "within_limit cfg (ns_inflight (world ?s)) (ns_inflight_max (world ?s))"
      "upstream_calls (world ?s) \<le> 3 * int n + int g"
    using inv g unfolding net_inv_def by linarith+
  ultimately show ?thesis unfolding Let_def g by (intro conjI) assumption+
qed

definition sample_cfg :: "string \<Rightarrow> net_cfg" where
  "sample_cfg prof = \<lparr>TIMEOUT_PROFILE = prof, BUDGET_TOTAL = 3, BUDGET_RESERVE = fl (2 / 10), shed_at = Some 1\<rparr>"

definition at_time :: "rat \<Rightarrow> readings" where
  "at_time t = \<lparr>t_new = t, t_slice = t, t_allow = t, t_call = t, t_record = t, t_trip = t, t_left = t, t_sleep = t, draw = 5 / 8\<rparr>"

text \<open>Two calls served, a 500 with 0.219 s of the budget left, a retry, and the sleep before it.\<close>

definition late_retry :: "net_event list" where
  "late_retry = [Arrives 0 None (at_time 0), Arrives 1 None (at_time 0), Answers 0 (Status 200) (at_time 1),
     Answers 0 (Status 200) (at_time 2), Answers 0 (Status 500) (at_time (89 / 32)), Wakes 0 (at_time (90 / 32))]"

lemma order_traffic_bounded_witness:
  "(2::nat) \<le> 10 ^ 9 \<and>
   (let s = net_run (sample_cfg ''full'') late_retry (net_start 2); w = world s in
     ns_retries w * 2 ^ 20 \<le> 20 * 2 ^ 20 + 104858 * 6 \<and> ns_inflight w \<le> 1 \<and> ns_inflight_max w \<le> 2)"
  using order_traffic_bounded [of 2 "sample_cfg ''full''" late_retry]
  by (simp add: Let_def within_limit_def sample_cfg_def)

text \<open>What a deadline promises: a call has time left, or is not made.\<close>

definition has_time :: "rat option \<Rightarrow> bool" where
  "has_time c = (case c of None \<Rightarrow> False | Some t \<Rightarrow> 0 < t \<and> t \<le> 1)"

definition timed_phase :: "order_phase \<Rightarrow> bool" where
  "timed_phase p = (case p of Calling n \<Rightarrow> False | Calling_full a \<Rightarrow> False | Sleeping a d \<Rightarrow> False | _ \<Rightarrow> True)"

lemma hop_start_timed:
  assumes "TIMEOUT_PROFILE cfg = ''budget''" "hop_start cfg r d hop w = (p, w', call)"
  shows "timed_phase p \<and> (case call of None \<Rightarrow> True | Some c \<Rightarrow> has_time c)"
  using assms by (auto simp: hop_start_def timed_phase_def has_time_def for_call_def Let_def split: if_splits)

lemma net_step_timed:
  assumes cfg: "TIMEOUT_PROFILE cfg = ''budget''"
    and inv: "list_all has_time (calls_made s)" "list_all timed_phase (requests s)"
  shows "list_all has_time (calls_made (net_step cfg e s)) \<and> list_all timed_phase (requests (net_step cfg e s))"
proof -
  have put: "list_all has_time (calls_made (put i (p, w', call) s)) \<and> list_all timed_phase (requests (put i (p, w', call) s))"
    if "timed_phase p \<and> (case call of None \<Rightarrow> True | Some c \<Rightarrow> has_time c)" for i p w' call
    using that inv
    by (auto simp: put_def list_all_iff split: option.splits dest!: set_update_subset_insert [THEN subsetD])
  have hop: "list_all has_time (calls_made (put i (hop_start cfg r d hop w) s)) \<and>
      list_all timed_phase (requests (put i (hop_start cfg r d hop w) s))" for i r d hop w
    by (cases "hop_start cfg r d hop w") (simp add: put hop_start_timed [OF cfg])
  have reply: "list_all has_time (calls_made (put i (Replied x, w', None) s)) \<and>
      list_all timed_phase (requests (put i (Replied x, w', None) s))" for i x w'
    by (rule put) (simp add: timed_phase_def)
  have phase: "timed_phase (requests s ! i)" if "i < length (requests s)" for i
    using inv(2) that by (simp add: list_all_length)
  show ?thesis
  proof (cases e)
    case (Arrives i hdr r)
    then show ?thesis using inv cfg hop reply
      by (simp add: track_inflight_def order_start_def Let_def split: option.split)
  next
    case (Answers i ans r)
    show ?thesis
    proof (cases "i < length (requests s)")
      case True
      with Answers phase [of i] inv hop reply show ?thesis
        by (cases "requests s ! i") (auto simp: timed_phase_def budget_answer_def split: sum.split prod.split)
    qed (use Answers inv in simp)
  next
    case (Wakes i r)
    then show ?thesis using phase [of i] inv
      by (cases "requests s ! i") (auto simp: timed_phase_def)
  qed
qed

text \<open>
  Under the \<^verbatim>\<open>budget\<close> profile every call to the upstream, in every interleaving, starts with a timeout that is
  positive and at most one second: a request without time left answers 504 instead.
\<close>

theorem budget_calls_have_time:
  assumes "TIMEOUT_PROFILE cfg = ''budget''"
  shows "list_all has_time (calls_made (net_run cfg evs (net_start n)))"
proof -
  have "list_all has_time (calls_made s) \<Longrightarrow> list_all timed_phase (requests s) \<Longrightarrow> list_all has_time (calls_made (net_run cfg evs s))" for s
    using net_step_timed [OF assms]
    by (induction evs arbitrary: s) (simp_all add: net_run_def)
  moreover have "list_all timed_phase (requests (net_start n))" by (simp add: net_start_def timed_phase_def list_all_length)
  ultimately show ?thesis by (simp add: net_start_def)
qed

lemma budget_calls_have_time_witness:
  "list_all has_time (calls_made (net_run (sample_cfg ''budget'') late_retry (net_start 2)))"
  by (rule budget_calls_have_time) (simp add: sample_cfg_def)

text \<open>
  The retry of the \<^verbatim>\<open>full\<close> profile checks the remaining time before the sleep and not after it: woken with less
  than the reserve left, it still calls the upstream, with a timeout that is zero or negative.
\<close>

lemma retry_call_without_time:
  assumes "time_left (t_call r) (at_deadline a) \<le> reserve (at_deadline a)" "fst (allows (t_allow r) (BREAKER w))"
  shows "\<exists>p w' t. wake r a w = (p, w', Some (Some t)) \<and> \<not> has_time (Some t)"
proof -
  have "fl (time_left (t_call r) (at_deadline a) - reserve (at_deadline a)) \<le> fl 0" using assms(1) by (intro fl_mono) simp
  then have "for_call (t_call r) 1 (at_deadline a) \<le> 0" by (simp add: for_call_def fl_def [of 0])
  with assms(2) show ?thesis by (auto simp: wake_def full_loop_def has_time_def Let_def case_prod_beta)
qed

subsection \<open>The breaker\<close>

text \<open>
  The breaker opens at the \<open>threshold\<close>-th failure in a row and stays open for the cool-down. Half-open is a count one
  short of the threshold, so every request is let through until the first of them has failed, not one.
\<close>

lemma breaker_refuses:
  "threshold b \<le> consecutive_failures b \<Longrightarrow> fl (now - opened_at b) \<le> cool_down b \<Longrightarrow> allows now b = (False, b)"
  by (simp add: allows_def)

lemma half_open_allows_everyone:
  assumes "threshold b \<le> consecutive_failures b" "cool_down b < fl (now - opened_at b)"
  shows "\<exists>b'. allows now b = (True, b') \<and> (\<forall>t. allows t b' = (True, b')) \<and>
     consecutive_failures (record_outcome False t1 t2 b') = (if threshold b' = 1 then 1 else threshold b')"
  using assms by (auto simp: allows_def record_outcome_def Let_def)

definition fail_at :: "(rat \<times> rat) list \<Rightarrow> net_breaker \<Rightarrow> net_breaker" where
  "fail_at ts b = fold (\<lambda>(t1, t2). record_outcome False t1 t2) ts b"

lemma fail_at_counts:
  "consecutive_failures (fail_at ts b) = consecutive_failures b + int (length ts) \<and> threshold (fail_at ts b) = threshold b \<and>
   cool_down (fail_at ts b) = cool_down b"
  by (induction ts arbitrary: b) (auto simp: fail_at_def record_outcome_def Let_def)

lemma breaker_opens_at_threshold:
  assumes "consecutive_failures b = 0" "int (length ts) + 1 = threshold b"
  shows "allows now (fail_at ts b) = (True, fail_at ts b) \<and>
    (fst (allows now (record_outcome False t1 t2 (fail_at ts b))) \<longleftrightarrow> cool_down b < fl (now - t2))"
  using assms fail_at_counts [of ts b] by (auto simp: allows_def record_outcome_def Let_def)

end
