(* ===== verification/Net_Dns.thy ===== *)
theory Net_Dns
  imports Lab_Prelude PyFloat
begin

text \<open>
  \<^verbatim>\<open>02-network/05-.../pool_outlives_dns.py\<close>: a resolver that honours a TTL, clients of one pooled connection with a lifetime
  policy, and servers of which one is demoted while its name moves. A step is one call of the main loop, with the
  readings of \<^verbatim>\<open>time.monotonic()\<close> it makes; a connection is the port it leads to, and what happens to the bytes on it is
  chosen by the network.
\<close>

subsection \<open>Servers\<close>

record dns_server =
  server_name :: string
  served :: int
  demoted :: bool

definition new_dns_server :: "string \<Rightarrow> dns_server" where
  "new_dns_server n = \<lparr>server_name = n, served = 0, demoted = False\<rparr>"

text \<open>One request: whether the status is 200, and the body. A demoted server keeps the connection and answers 503.\<close>

definition serve :: "dns_server \<Rightarrow> (bool \<times> string) \<times> dns_server" where
  "serve s =
     ((if demoted s then (False, server_name s @ '' (demoted: read-only)'') else (True, server_name s)),
      s\<lparr>served := served s + 1\<rparr>)"

subsection \<open>The resolver\<close>

record resolver =
  ttl :: rat
  records :: "string \<rightharpoonup> int"
  cache :: "string \<rightharpoonup> int \<times> rat"
  queries :: int
  cache_hits :: int

definition new_resolver :: "rat \<Rightarrow> resolver" where
  "new_resolver t = \<lparr>ttl = t, records = Map.empty, cache = Map.empty, queries = 0, cache_hits = 0\<rparr>"

definition set_record :: "string \<Rightarrow> int \<Rightarrow> resolver \<Rightarrow> resolver" where
  "set_record n p r = r\<lparr>records := (records r)(n \<mapsto> p)\<rparr>"

definition ask_records :: "string \<Rightarrow> rat \<Rightarrow> resolver \<Rightarrow> int py \<times> resolver" where
  "ask_records n t r =
     (let r' = r\<lparr>queries := queries r + 1\<rparr> in
      case records r n of
        None \<Rightarrow> (Inl (KeyError n), r')
      | Some p \<Rightarrow> (Inr p, r'\<lparr>cache := (cache r)(n \<mapsto> (p, fl (t + ttl r)))\<rparr>))"

text \<open>The clock is read when the cached answer is looked at and again when a new one is stored.\<close>

definition resolve :: "string \<Rightarrow> rat \<Rightarrow> rat \<Rightarrow> resolver \<Rightarrow> int py \<times> resolver" where
  "resolve n t1 t2 r = (case cache r n of
     Some (p, expires) \<Rightarrow> if t1 < expires then (Inr p, r\<lparr>cache_hits := cache_hits r + 1\<rparr>) else ask_records n t2 r
   | None \<Rightarrow> ask_records n t2 r)"

subsection \<open>Clients\<close>

record dns_client =
  host :: string
  idle_expiry :: "rat option"
  max_lifetime :: "rat option"
  conn :: "int option"
  opened_at :: rat
  last_used :: rat
  handshakes :: int
  results :: "(rat \<times> bool \<times> string) list"

definition new_dns_client :: "string \<Rightarrow> rat option \<Rightarrow> rat option \<Rightarrow> dns_client" where
  "new_dns_client h idle life = \<lparr>host = h, idle_expiry = idle, max_lifetime = life, conn = None, opened_at = 0, last_used = 0,
     handshakes = 0, results = []\<rparr>"

definition should_retire :: "rat \<Rightarrow> dns_client \<Rightarrow> string option" where
  "should_retire now c =
     (if conn c = None then None
      else if (case max_lifetime c of None \<Rightarrow> False | Some l \<Rightarrow> l < fl (now - opened_at c)) then Some ''max lifetime''
      else if (case idle_expiry c of None \<Rightarrow> False | Some x \<Rightarrow> x < fl (now - last_used c)) then Some ''idle expiry''
      else None)"

text \<open>What the network does to a request: the errors carry the name of the exception, and the answer may be lost after the work.\<close>

datatype fate = Goes_through | Connect_fails string | Lost_before string | Lost_after string

definition drop_conn :: "rat \<Rightarrow> string \<Rightarrow> dns_client \<Rightarrow> dns_client" where
  "drop_conn now e c = c\<lparr>conn := None, results := results c @ [(now, False, e)]\<rparr>"

definition exchange :: "rat \<Rightarrow> fate \<Rightarrow> int \<Rightarrow> dns_client \<Rightarrow> (int \<Rightarrow> dns_server) \<Rightarrow> dns_client \<times> (int \<Rightarrow> dns_server)" where
  "exchange now f p c net =
     (let ((ok, body), s') = serve (net p) in
      case f of
        Lost_before e \<Rightarrow> (drop_conn now e c, net)
      | Lost_after e \<Rightarrow> (drop_conn now e c, net(p := s'))
      | _ \<Rightarrow> (c\<lparr>last_used := now, results := results c @ [(now, ok, body)]\<rparr>, net(p := s')))"

definition retire :: "rat \<Rightarrow> dns_client \<Rightarrow> dns_client" where
  "retire now c = (case should_retire now c of None \<Rightarrow> c | Some reason \<Rightarrow> c\<lparr>conn := None\<rparr>)"

definition request ::
  "rat \<Rightarrow> rat \<Rightarrow> rat \<Rightarrow> fate \<Rightarrow> dns_client \<Rightarrow> resolver \<Rightarrow> (int \<Rightarrow> dns_server) \<Rightarrow> unit py \<times> dns_client \<times> resolver \<times> (int \<Rightarrow> dns_server)" where
  "request now t1 t2 f c r net =
     (let c = retire now c in
      case conn c of
        Some p \<Rightarrow> (let (c', net') = exchange now f p c net in (Inr (), c', r, net'))
      | None \<Rightarrow>
          (case resolve (host c) t1 t2 r of
             (Inl e, r') \<Rightarrow> (Inl e, c, r', net)
           | (Inr p, r') \<Rightarrow>
               (case f of
                  Connect_fails e \<Rightarrow> (Inr (), c\<lparr>results := results c @ [(now, False, ''connect: '' @ e)]\<rparr>, r', net)
                | _ \<Rightarrow> (let (c', net') = exchange now f p (c\<lparr>conn := Some p, opened_at := now, handshakes := handshakes c + 1\<rparr>) net
                        in (Inr (), c', r', net')))))"

definition error_window :: "(rat \<times> bool \<times> string) list \<Rightarrow> rat \<Rightarrow> rat option" where
  "error_window rs switch_at =
     map_option (\<lambda>(t, ok, detail). fl (t - switch_at)) (find (\<lambda>(t, ok, detail). switch_at \<le> t \<and> ok \<and> detail = ''B'') rs)"

subsection \<open>The main loop\<close>

record dns_world =
  started :: rat
  names :: resolver
  net :: "int \<Rightarrow> dns_server"
  clients :: "dns_client list"

text \<open>A request carries the reading for \<^verbatim>\<open>now\<close> and the two the resolver may take; the switch moves a name and demotes a server.\<close>

datatype dns_event =
    Request nat rat rat rat fate
  | Resolve string rat rat
  | Repoint string int rat
  | Demote int

definition world_request :: "nat \<Rightarrow> rat \<Rightarrow> rat \<Rightarrow> rat \<Rightarrow> fate \<Rightarrow> dns_world \<Rightarrow> dns_world" where
  "world_request i m t1 t2 f w =
     (let (_, c, r, ns) = request (fl (m - started w)) t1 t2 f (clients w ! i) (names w) (net w)
      in w\<lparr>names := r, net := ns, clients := (clients w)[i := c]\<rparr>)"

fun dns_step :: "dns_event \<Rightarrow> dns_world \<Rightarrow> dns_world" where
  "dns_step (Request i m t1 t2 f) w = (if i < length (clients w) then world_request i m t1 t2 f w else w)"
| "dns_step (Resolve n t1 t2) w = w\<lparr>names := snd (resolve n t1 t2 (names w))\<rparr>"
| "dns_step (Repoint n p t) w = w\<lparr>names := set_record n p (names w)\<rparr>"
| "dns_step (Demote p) w = w\<lparr>net := (net w)(p := (net w p)\<lparr>demoted := True\<rparr>)\<rparr>"

definition dns_run :: "dns_event list \<Rightarrow> dns_world \<Rightarrow> dns_world" where
  "dns_run = fold dns_step"

definition dns_start :: "rat \<Rightarrow> rat \<Rightarrow> (int \<Rightarrow> dns_server) \<Rightarrow> (string \<times> rat option \<times> rat option) list \<Rightarrow> dns_world" where
  "dns_start st t ns policies =
     \<lparr>started = st, names = new_resolver t, net = ns, clients = map (\<lambda>(h, idle, life). new_dns_client h idle life) policies\<rparr>"

subsection \<open>What one call leaves alone\<close>

lemma resolver_simps [simp]:
  "ttl (snd (resolve n t1 t2 r)) = ttl r" "records (snd (resolve n t1 t2 r)) = records r"
  "ttl (set_record n p r) = ttl r" "cache (set_record n p r) = cache r" "records (set_record n p r) = (records r)(n \<mapsto> p)"
  by (simp_all add: resolve_def ask_records_def set_record_def Let_def split: option.split prod.split)

lemma retire_simps [simp]:
  "host (retire now c) = host c" "idle_expiry (retire now c) = idle_expiry c" "max_lifetime (retire now c) = max_lifetime c"
  "opened_at (retire now c) = opened_at c" "results (retire now c) = results c" "handshakes (retire now c) = handshakes c"
  by (simp_all add: retire_def split: option.split)

lemma exchange_frame:
  "host (fst (exchange now f p c ns)) = host c" "max_lifetime (fst (exchange now f p c ns)) = max_lifetime c"
  "idle_expiry (fst (exchange now f p c ns)) = idle_expiry c" "opened_at (fst (exchange now f p c ns)) = opened_at c"
  "demoted (snd (exchange now f p c ns) q) = demoted (ns q)"
  by (simp_all add: exchange_def serve_def drop_conn_def Let_def split: fate.split)

lemma request_simps [simp]:
  "host (fst (snd (request now t1 t2 f c r ns))) = host c" "max_lifetime (fst (snd (request now t1 t2 f c r ns))) = max_lifetime c"
  "idle_expiry (fst (snd (request now t1 t2 f c r ns))) = idle_expiry c"
  "demoted (snd (snd (snd (request now t1 t2 f c r ns))) q) = demoted (ns q)"
  by (simp_all add: request_def Let_def case_prod_beta exchange_frame split: option.split sum.split fate.split)

lemma request_resolver:
  "fst (snd (snd (request now t1 t2 f c r ns))) =
     (if conn (retire now c) = None then snd (resolve (host c) t1 t2 r) else r)"
  by (simp add: request_def Let_def case_prod_beta split: option.split sum.split fate.split)

lemma world_request_simps [simp]:
  "started (world_request i m t1 t2 f w) = started w" "length (clients (world_request i m t1 t2 f w)) = length (clients w)"
  "clients (world_request i m t1 t2 f w) =
     (clients w)[i := fst (snd (request (fl (m - started w)) t1 t2 f (clients w ! i) (names w) (net w)))]"
  "demoted (net (world_request i m t1 t2 f w) q) = demoted (net w q)"
  "names (world_request i m t1 t2 f w) = fst (snd (snd (request (fl (m - started w)) t1 t2 f (clients w ! i) (names w) (net w))))"
  by (simp_all add: world_request_def case_prod_beta)

subsection \<open>A pooled connection outlives its name\<close>

text \<open>
  Load on client \<open>i\<close> that always gets through and, where the client expires idle connections, never leaves it idle for that
  long.
\<close>

definition never_idle :: "rat option \<Rightarrow> rat \<Rightarrow> rat \<Rightarrow> bool" where
  "never_idle x prev now = (case x of None \<Rightarrow> True | Some y \<Rightarrow> fl (now - prev) \<le> y)"

fun steady_load :: "nat \<Rightarrow> rat \<Rightarrow> rat option \<Rightarrow> rat \<Rightarrow> dns_event list \<Rightarrow> bool" where
  "steady_load i st x prev [] = True"
| "steady_load i st x prev (Request j m t1 t2 f # es) =
     (if j = i
      then f = Goes_through \<and> never_idle x prev (fl (m - st)) \<and> steady_load i st x (fl (m - st)) es
      else steady_load i st x prev es)"
| "steady_load i st x prev (e # es) = steady_load i st x prev es"

definition only_failures :: "(rat \<times> bool \<times> string) list \<Rightarrow> bool" where
  "only_failures rs = list_all (\<lambda>(t, ok, detail). \<not> ok) rs"

lemma pinned_request:
  assumes "conn c = Some p" "max_lifetime c = None" "demoted (ns p)" "never_idle (idle_expiry c) (last_used c) now"
  shows "fst (snd (request now t1 t2 Goes_through c r ns)) =
    c\<lparr>last_used := now, results := results c @ [(now, False, server_name (ns p) @ '' (demoted: read-only)'')]\<rparr>"
proof -
  from assms have "retire now c = c" by (auto simp: retire_def should_retire_def never_idle_def split: option.splits)
  with assms show ?thesis by (simp add: request_def exchange_def serve_def)
qed

lemma dns_run_simps [simp]: "dns_run [] w = w" "dns_run (e # es) w = dns_run es (dns_step e w)"
  by (simp_all add: dns_run_def)

lemma step_frame:
  "started (dns_step e w) = started w" "length (clients (dns_step e w)) = length (clients w)"
  "demoted (net w p) \<Longrightarrow> demoted (net (dns_step e w) p)"
  by (cases e; simp)+

lemma pinned_run:
  assumes "i < length (clients w)" "conn (clients w ! i) = Some p" "max_lifetime (clients w ! i) = None" "demoted (net w p)"
    "steady_load i (started w) (idle_expiry (clients w ! i)) (last_used (clients w ! i)) evs"
  shows "handshakes (clients (dns_run evs w) ! i) = handshakes (clients w ! i) \<and>
    (\<exists>rs. results (clients (dns_run evs w) ! i) = results (clients w ! i) @ rs \<and> only_failures rs)"
  using assms
proof (induction evs arbitrary: w)
  case Nil
  then show ?case by (simp add: only_failures_def)
next
  case (Cons e es)
  note keep = step_frame(1,2) [of e w] step_frame(3) [OF Cons.prems(4), of e]
  show ?case
  proof (cases e)
    case (Request j m t1 t2 f)
    show ?thesis
    proof (cases "j = i")
      case True
      with Request Cons.prems(5) have f: "f = Goes_through"
        and idle: "never_idle (idle_expiry (clients w ! i)) (last_used (clients w ! i)) (fl (m - started w))"
        and rest: "steady_load i (started w) (idle_expiry (clients w ! i)) (fl (m - started w)) es" by auto
      from pinned_request [where ns = "net w", OF Cons.prems(2,3,4) idle] rest f True Request Cons.prems
      have "clients (dns_step e w) ! i = (clients w ! i)\<lparr>last_used := fl (m - started w), results := results (clients w ! i) @
          [(fl (m - started w), False, server_name (net w p) @ '' (demoted: read-only)'')]\<rparr>" by simp
      with Cons.IH [of "dns_step e w"] Cons.prems(1-4) rest keep show ?thesis by (auto simp: only_failures_def simp del: dns_step.simps)
    next
      case False
      then have "clients (dns_step e w) ! i = clients w ! i" by (simp add: Request)
      moreover from Cons.prems(5) Request False
      have "steady_load i (started w) (idle_expiry (clients w ! i)) (last_used (clients w ! i)) es" by simp
      ultimately show ?thesis using Cons.IH [of "dns_step e w"] Cons.prems(1-4) keep by (simp del: dns_step.simps)
    qed
  qed (use Cons.IH [of "dns_step e w"] Cons.prems keep in simp_all)
qed

lemma no_window:
  assumes "list_all (\<lambda>(t, r). t < sw) old" "only_failures new"
  shows "error_window (old @ new) sw = None"
  using assms by (fastforce simp: error_window_def find_None_iff list_all_iff only_failures_def)

text \<open>
  C16. Safety: a client without a maximal lifetime that holds a connection to a server which is then demoted never succeeds
  again, whatever happens to the name, the resolver, its TTL and the other clients: every later answer is the 503 of the old
  server, no new connection is opened, and its error window has no end. The same holds for a client that expires idle
  connections, as long as two of its requests are never further apart than that.
\<close>

theorem pinned_client_never_recovers:
  assumes "i < length (clients w)" "conn (clients w ! i) = Some p" "max_lifetime (clients w ! i) = None" "demoted (net w p)"
    "steady_load i (started w) (idle_expiry (clients w ! i)) (last_used (clients w ! i)) evs"
    "list_all (\<lambda>(t, r). t < switch_at) (results (clients w ! i))"
  shows "error_window (results (clients (dns_run evs w) ! i)) switch_at = None \<and>
    handshakes (clients (dns_run evs w) ! i) = handshakes (clients w ! i)"
proof -
  from pinned_run [OF assms(1-5)] obtain rs where
    "results (clients (dns_run evs w) ! i) = results (clients w ! i) @ rs" "only_failures rs"
    "handshakes (clients (dns_run evs w) ! i) = handshakes (clients w ! i)" by blast
  with no_window [OF assms(6)] show ?thesis by simp
qed

subsection \<open>A maximal lifetime bounds the outage\<close>

text \<open>
  Clock readings: until the switch none is later than \<open>S\<close>, after it a request reads its own clock before the resolver does,
  and nobody moves the name again.
\<close>

fun read_until :: "rat \<Rightarrow> dns_event \<Rightarrow> bool" where
  "read_until S (Request i m t1 t2 f) \<longleftrightarrow> m \<le> S \<and> t2 \<le> S"
| "read_until S (Resolve n t1 t2) \<longleftrightarrow> t2 \<le> S"
| "read_until S e \<longleftrightarrow> True"

fun settled_name :: "string \<Rightarrow> dns_event \<Rightarrow> bool" where
  "settled_name n (Request i m t1 t2 f) \<longleftrightarrow> m \<le> t1"
| "settled_name n (Repoint n' p t) \<longleftrightarrow> n' \<noteq> n"
| "settled_name n e \<longleftrightarrow> True"

lemma retire_conn: "conn (retire now c) = (if should_retire now c = None then conn c else None)"
  by (simp add: retire_def split: option.split)

lemma request_conn:
  assumes "conn (fst (snd (request now t1 t2 f c r ns))) = Some p"
  shows "conn c = Some p \<and> opened_at (fst (snd (request now t1 t2 f c r ns))) = opened_at c \<or>
     fst (resolve (host c) t1 t2 r) = Inr p \<and> opened_at (fst (snd (request now t1 t2 f c r ns))) = now"
  using assms
  by (auto simp: request_def retire_conn exchange_def drop_conn_def Let_def case_prod_beta split: option.splits sum.splits fate.splits if_splits)

text \<open>Before the switch: what is cached expires by \<open>D\<close>, what is connected was opened by \<open>S\<close>.\<close>

definition opened_by :: "rat \<Rightarrow> dns_client \<Rightarrow> bool" where
  "opened_by T c \<longleftrightarrow> conn c = None \<or> opened_at c \<le> T"

definition aged :: "rat \<Rightarrow> rat \<Rightarrow> rat \<Rightarrow> dns_world \<Rightarrow> bool" where
  "aged t S st w \<longleftrightarrow> started w = st \<and> ttl (names w) = t \<and> (\<forall>n p e. cache (names w) n = Some (p, e) \<longrightarrow> e \<le> fl (S + t)) \<and>
     list_all (opened_by (fl (S - st))) (clients w)"

lemma resolve_aged:
  assumes "t2 \<le> S" "\<forall>n p e. cache r n = Some (p, e) \<longrightarrow> e \<le> fl (S + ttl r)"
  shows "cache (snd (resolve k t1 t2 r)) n = Some (p, e) \<Longrightarrow> e \<le> fl (S + ttl r)"
  using assms fl_mono [of "t2 + ttl r" "S + ttl r"]
  by (auto simp: resolve_def ask_records_def Let_def split: option.splits prod.splits if_splits)

lemma list_all_put: "list_all P xs \<Longrightarrow> P x \<Longrightarrow> list_all P (xs[i := x])"
  using set_update_subset_insert [of xs i x] by (auto simp: list_all_iff)

lemma aged_step:
  assumes "aged t S st w" "read_until S e"
  shows "aged t S st (dns_step e w)"
proof (cases e)
  case (Request i m t1 t2 f)
  show ?thesis
  proof (cases "i < length (clients w)")
    case True
    let ?now = "fl (m - st)" and ?c = "clients w ! i"
    have c: "opened_by (fl (S - st)) ?c" using assms(1) True by (simp add: aged_def list_all_length)
    have now: "?now \<le> fl (S - st)" using assms(2) Request by (intro fl_mono) simp
    let ?c' = "fst (snd (request ?now t1 t2 f ?c (names w) (net w)))"
    have c': "opened_by (fl (S - st)) ?c'"
    proof (cases "conn ?c'")
      case (Some p)
      from request_conn [OF this] c now show ?thesis by (auto simp: opened_by_def)
    qed (simp add: opened_by_def)
    have "\<forall>n p e. cache (fst (snd (snd (request ?now t1 t2 f ?c (names w) (net w))))) n = Some (p, e) \<longrightarrow> e \<le> fl (S + t)"
      using assms Request resolve_aged [of t2 S "names w" "host ?c" t1] by (auto simp: request_resolver aged_def)
    with assms(1) Request True list_all_put [where P = "opened_by (fl (S - st))", OF _ c', of "clients w" i]
    show ?thesis by (auto simp: aged_def request_resolver)
  qed (use assms in \<open>simp add: Request\<close>)
qed (use assms resolve_aged [of _ S "names w"] in \<open>auto simp: aged_def\<close>)

lemma aged_run: "aged t S st w \<Longrightarrow> list_all (read_until S) es \<Longrightarrow> aged t S st (dns_run es w)"
  by (induction es arbitrary: w) (auto intro: aged_step simp del: dns_step.simps)

lemma aged_start: "aged t S st (dns_start st t ns policies)"
  by (auto simp: aged_def dns_start_def new_resolver_def new_dns_client_def opened_by_def list_all_iff)

text \<open>After the switch: what is cached for the name or connected under it is the new address, or dates from before \<open>D\<close>.\<close>

definition new_or_old :: "string \<Rightarrow> int \<Rightarrow> rat \<Rightarrow> dns_client \<Rightarrow> bool" where
  "new_or_old n p T c \<longleftrightarrow> host c \<noteq> n \<or> conn c = None \<or> conn c = Some p \<or> opened_at c \<le> T"

definition moved :: "string \<Rightarrow> int \<Rightarrow> rat \<Rightarrow> rat \<Rightarrow> dns_world \<Rightarrow> bool" where
  "moved n p D st w \<longleftrightarrow> started w = st \<and> records (names w) n = Some p \<and>
     (\<forall>q e. cache (names w) n = Some (q, e) \<longrightarrow> q = p \<or> e \<le> D) \<and> list_all (new_or_old n p (fl (D - st))) (clients w)"

lemma resolve_moved:
  assumes "records r n = Some p" "\<forall>q e. cache r n = Some (q, e) \<longrightarrow> q = p \<or> e \<le> D"
  shows "fst (resolve n t1 t2 r) = Inr q \<Longrightarrow> q = p \<or> t1 < D"
    and "cache (snd (resolve k t1 t2 r)) n = Some (q, e) \<Longrightarrow> q = p \<or> e \<le> D"
    and "D \<le> t1 \<Longrightarrow> fst (resolve n t1 t2 r) = Inr p"
  using assms by (auto simp: resolve_def ask_records_def Let_def split: option.splits prod.splits if_splits)

lemma moved_step:
  assumes "moved n p D st w" "settled_name n e"
  shows "moved n p D st (dns_step e w)"
proof (cases e)
  case (Request i m t1 t2 f)
  show ?thesis
  proof (cases "i < length (clients w)")
    case True
    let ?now = "fl (m - st)" and ?c = "clients w ! i"
    have r: "records (names w) n = Some p" "\<forall>q e. cache (names w) n = Some (q, e) \<longrightarrow> q = p \<or> e \<le> D" using assms(1) by (simp_all add: moved_def)
    have c: "new_or_old n p (fl (D - st)) ?c" using assms(1) True by (simp add: moved_def list_all_length)
    let ?c' = "fst (snd (request ?now t1 t2 f ?c (names w) (net w)))"
    have c': "new_or_old n p (fl (D - st)) ?c'"
    proof (cases "conn ?c'")
      case (Some q)
      from request_conn [OF Some] show ?thesis
      proof (elim disjE conjE)
        assume q: "fst (resolve (host ?c) t1 t2 (names w)) = Inr q" "opened_at ?c' = ?now"
        have "q = p \<or> ?now \<le> fl (D - st)" if h: "host ?c = n"
        proof -
          from resolve_moved(1) [OF r, of t1 t2 q] q(1) h have "q = p \<or> t1 < D" by simp
          with assms(2) Request fl_mono [of "m - st" "D - st"] show ?thesis by auto
        qed
        with Some q(2) show ?thesis by (auto simp: new_or_old_def)
      qed (use c Some in \<open>auto simp: new_or_old_def\<close>)
    qed (simp add: new_or_old_def)
    have "\<forall>q e. cache (fst (snd (snd (request ?now t1 t2 f ?c (names w) (net w))))) n = Some (q, e) \<longrightarrow> q = p \<or> e \<le> D"
      using r resolve_moved(2) [OF r] by (auto simp: request_resolver)
    with assms(1) Request True list_all_put [where P = "new_or_old n p (fl (D - st))", OF _ c', of "clients w" i]
    show ?thesis by (auto simp: moved_def request_resolver)
  qed (use assms in \<open>simp add: Request\<close>)
next
  case (Resolve k t1 t2)
  with assms resolve_moved(2) [of "names w" n p D k] show ?thesis by (auto simp: moved_def)
qed (use assms in \<open>auto simp: moved_def\<close>)

lemma moved_run: "moved n p D st w \<Longrightarrow> list_all (settled_name n) es \<Longrightarrow> moved n p D st (dns_run es w)"
  by (induction es arbitrary: w) (auto intro: moved_step simp del: dns_step.simps)

lemma moved_at_switch:
  assumes "aged t S st w" "is_double S" "0 \<le> t"
  shows "moved n p (fl (S + t)) st (dns_step (Repoint n p S) w)"
proof -
  have "S \<le> fl (S + t)" using fl_mono [of S "S + t"] fl_double [OF assms(2)] assms(3) by simp
  then have "fl (S - st) \<le> fl (fl (S + t) - st)" by (intro fl_mono) simp
  with assms(1) show ?thesis by (auto simp: moved_def aged_def opened_by_def new_or_old_def list_all_iff intro: order_trans)
qed

text \<open>A request of a client with a maximal lifetime, late enough after the switch.\<close>

lemma late_request:
  assumes "moved n p D st w" "i < length (clients w)" "host (clients w ! i) = n" "max_lifetime (clients w ! i) = Some l"
    "0 \<le> l" "m \<le> t1" "l < fl (fl (m - st) - fl (D - st))"
  shows "\<exists>c. conn c = Some p \<and> fst (snd (request (fl (m - st)) t1 t2 Goes_through (clients w ! i) (names w) ns)) =
      c\<lparr>last_used := fl (m - st), results := results (clients w ! i) @ [(fl (m - st), fst (serve (ns p)))]\<rparr>"
proof -
  let ?now = "fl (m - st)" and ?c = "clients w ! i"
  have "D \<le> m"
  proof (rule ccontr)
    assume "\<not> D \<le> m"
    then have "?now \<le> fl (D - st)" by (intro fl_mono) simp
    then have "fl (?now - fl (D - st)) \<le> fl 0" by (intro fl_mono) simp
    with assms(5,7) show False by (simp add: fl_def)
  qed
  with assms(6) have "D \<le> t1" by simp
  have r: "records (names w) n = Some p" "\<forall>q e. cache (names w) n = Some (q, e) \<longrightarrow> q = p \<or> e \<le> D" using assms(1) by (simp_all add: moved_def)
  note answer = resolve_moved(3) [OF r \<open>D \<le> t1\<close>, of t2]
  have c: "conn ?c = None \<or> conn ?c = Some p \<or> opened_at ?c \<le> fl (D - st)"
    using assms(1,2,3) by (auto simp: moved_def list_all_length new_or_old_def)
  have "conn (retire ?now ?c) = None \<or> conn (retire ?now ?c) = Some p"
  proof (cases "opened_at ?c \<le> fl (D - st)")
    case True
    then have "fl (?now - fl (D - st)) \<le> fl (?now - opened_at ?c)" by (intro fl_mono) simp
    with assms(4,7) show ?thesis by (auto simp: retire_conn should_retire_def)
  qed (use c in \<open>auto simp: retire_conn\<close>)
  then show ?thesis
  proof
    assume "conn (retire ?now ?c) = Some p"
    then show ?thesis by (intro exI [of _ "retire ?now ?c"]) (simp add: request_def exchange_def Let_def case_prod_beta)
  next
    assume "conn (retire ?now ?c) = None"
    then show ?thesis using answer assms(3)
      by (intro exI [of _ "(retire ?now ?c)\<lparr>conn := Some p, opened_at := ?now, handshakes := handshakes ?c + 1\<rparr>"])
        (simp add: request_def exchange_def Let_def case_prod_beta split: prod.split)
  qed
qed

definition policy_of :: "dns_client \<Rightarrow> string \<times> rat option \<times> rat option" where
  "policy_of c = (host c, idle_expiry c, max_lifetime c)"

lemma policies_step: "map policy_of (clients (dns_step e w)) = map policy_of (clients w)"
  by (cases e) (auto simp: policy_of_def list_eq_iff_nth_eq nth_list_update)

lemma policies_run: "map policy_of (clients (dns_run es (dns_start st t ns policies))) = policies"
proof -
  have "map policy_of (clients (dns_run es w)) = map policy_of (clients w)" for w
    by (induction es arbitrary: w) (simp_all add: policies_step del: dns_step.simps)
  then show ?thesis by (simp add: dns_start_def new_dns_client_def policy_of_def comp_def case_prod_beta)
qed

text \<open>
  C17. Liveness under load: after a name has moved at reading \<open>S\<close>, every request of a client with a maximal lifetime \<open>l\<close> that
  gets through and is read more than \<open>l\<close> after \<open>S + ttl\<close> (in double arithmetic) is answered by the new server, whatever ran
  before the switch and after it, without any gap in the load, and whatever the idle policy: the outage is bounded by the TTL
  plus the lifetime.
\<close>

theorem max_lifetime_recovers:
  assumes "is_double S" "0 \<le> t" "0 \<le> l" "i < length policies" "policies ! i = (n, idle, Some l)"
    "list_all (read_until S) before" "list_all (settled_name n) after" "m \<le> t1" "l < fl (fl (m - st) - fl (fl (S + t) - st))"
  shows "let w = dns_run (before @ Repoint n p S # after) (dns_start st t ns policies);
             c = clients (dns_step (Request i m t1 t2 Goes_through) w) ! i
         in conn c = Some p \<and> last (results c) = (fl (m - st), fst (serve (net w p)))"
proof -
  define w where "w = dns_run (before @ Repoint n p S # after) (dns_start st t ns policies)"
  have split: "w = dns_run after (dns_step (Repoint n p S) (dns_run before (dns_start st t ns policies)))" by (simp add: w_def dns_run_def)
  have mv: "moved n p (fl (S + t)) st w"
    unfolding split by (intro moved_run moved_at_switch aged_run aged_start assms)
  have pol: "map policy_of (clients w) = policies" unfolding w_def by (rule policies_run)
  then have len: "i < length (clients w)" using assms(4) by (metis length_map)
  with pol assms(5) have "policy_of (clients w ! i) = (n, idle, Some l)" by (metis nth_map)
  then have c: "host (clients w ! i) = n" "max_lifetime (clients w ! i) = Some l" by (simp_all add: policy_of_def)
  from late_request [OF mv len c assms(3,8,9), of t2 "net w"] obtain c' where
    "conn c' = Some p" "fst (snd (request (fl (m - st)) t1 t2 Goes_through (clients w ! i) (names w) (net w))) =
      c'\<lparr>last_used := fl (m - st), results := results (clients w ! i) @ [(fl (m - st), fst (serve (net w p)))]\<rparr>" by blast
  with len mv show ?thesis by (simp add: Let_def moved_def flip: w_def)
qed

definition switch_run :: "dns_event list" where
  "switch_run = [Repoint ''upstream'' 10 0, Request 0 0 0 0 Goes_through] @ Repoint ''upstream'' 20 2 #
     [Demote 10, Request 0 3 3 3 Goes_through]"

lemma fl_numbers: "fl 0 = 0" "fl 3 = 3" "fl 6 = 6" "is_double 2"
  using fl_double [OF is_double_int [of 0]] fl_double [OF is_double_int [of 3]] fl_double [OF is_double_int [of 6]] is_double_int [of 2]
  by simp_all

lemma max_lifetime_recovers_witness:
  "conn (clients (dns_step (Request 0 6 6 6 Goes_through)
     (dns_run switch_run (dns_start 0 1 (\<lambda>p. new_dns_server (if p = 10 then ''A'' else ''B'')) [(''upstream'', None, Some 2)]))) ! 0) = Some 20"
  unfolding switch_run_def
  by (rule max_lifetime_recovers [where st = 0 and S = 2 and t = 1 and l = 2, unfolded Let_def, THEN conjunct1]) (simp_all add: fl_numbers)

lemma pinned_client_never_recovers_witness:
  "error_window (results (clients (dns_run [Repoint ''upstream'' 20 2, Request 0 6 6 6 Goes_through]
     \<lparr>started = 0, names = new_resolver 1, net = (\<lambda>_. \<lparr>server_name = ''A'', served = 1, demoted = True\<rparr>),
      clients = [(new_dns_client ''upstream'' None None)\<lparr>conn := Some 10\<rparr>]\<rparr>) ! 0)) 2 = None"
  by (rule pinned_client_never_recovers [where p = 10, THEN conjunct1]) (simp_all add: new_dns_client_def never_idle_def)

end
