(* ===== verification/Py_Semaphore.thy ===== *)
theory Py_Semaphore
  imports Lab_Prelude
begin

text \<open>
  \<^verbatim>\<open>asyncio.Semaphore\<close> of Python's standard library: a count of free permits and a queue of waiting tasks, each of
  which may have been woken (its permit is set aside for it) without having run yet. A task that is cancelled leaves the
  queue and passes on a permit it was woken with. The contract of a program that uses one semaphore is the locale
  \<open>semaphore_client\<close>; what it promises is proved once: permits are conserved and served in order, and a task that
  waits unwoken finds every permit in use, or a woken task about to run.
\<close>

record semaphore =
  free_permits :: nat
  waiters :: "(nat \<times> bool) list"

definition new_semaphore :: "nat \<Rightarrow> semaphore" where
  "new_semaphore n = \<lparr>free_permits = n, waiters = []\<rparr>"

definition locked :: "semaphore \<Rightarrow> bool" where
  "locked s = (free_permits s = 0 \<or> waiters s \<noteq> [])"

text \<open>\<^verbatim>\<open>_wake_up_next\<close>: the first task not woken yet, if there is one.\<close>

fun wake_first :: "(nat \<times> bool) list \<Rightarrow> (nat \<times> bool) list option" where
  "wake_first [] = None"
| "wake_first ((i, w) # q) = (if w then map_option (Cons (i, w)) (wake_first q) else Some ((i, True) # q))"

definition wake_next :: "semaphore \<Rightarrow> semaphore" where
  "wake_next s = (case wake_first (waiters s) of None \<Rightarrow> s | Some q \<Rightarrow> \<lparr>free_permits = free_permits s - 1, waiters = q\<rparr>)"

text \<open>The loop at the end of \<^verbatim>\<open>acquire\<close>: wake while there are permits and unwoken tasks.\<close>

fun wake_loop :: "nat \<Rightarrow> (nat \<times> bool) list \<Rightarrow> semaphore" where
  "wake_loop 0 q = \<lparr>free_permits = 0, waiters = q\<rparr>"
| "wake_loop (Suc n) q = (case wake_first q of None \<Rightarrow> \<lparr>free_permits = Suc n, waiters = q\<rparr> | Some q' \<Rightarrow> wake_loop n q')"

definition wake_all :: "semaphore \<Rightarrow> semaphore" where
  "wake_all s = wake_loop (free_permits s) (waiters s)"

definition take_permit :: "semaphore \<Rightarrow> semaphore" where
  "take_permit s = s\<lparr>free_permits := free_permits s - 1\<rparr>"

definition enqueue :: "nat \<Rightarrow> semaphore \<Rightarrow> semaphore" where
  "enqueue i s = s\<lparr>waiters := waiters s @ [(i, False)]\<rparr>"

definition woken :: "nat \<Rightarrow> semaphore \<Rightarrow> bool" where
  "woken i s = ((i, True) \<in> set (waiters s))"

definition resume :: "nat \<Rightarrow> semaphore \<Rightarrow> semaphore" where
  "resume i s = wake_all (s\<lparr>waiters := filter (\<lambda>w. fst w \<noteq> i) (waiters s)\<rparr>)"

definition cancel_wait :: "nat \<Rightarrow> semaphore \<Rightarrow> semaphore" where
  "cancel_wait i s =
     wake_all \<lparr>free_permits = (if woken i s then free_permits s + 1 else free_permits s),
       waiters = filter (\<lambda>w. fst w \<noteq> i) (waiters s)\<rparr>"

definition give_back :: "semaphore \<Rightarrow> semaphore" where
  "give_back s = wake_next (s\<lparr>free_permits := free_permits s + 1\<rparr>)"

subsection \<open>Conservation, order, no idle permit\<close>

definition set_aside :: "semaphore \<Rightarrow> nat" where
  "set_aside s = length (filter snd (waiters s))"

definition woken_first :: "(nat \<times> bool) list \<Rightarrow> bool" where
  "woken_first q = sorted (map (\<lambda>w. \<not> snd w) q)"

definition sem_ok :: "nat \<Rightarrow> nat \<Rightarrow> nat set \<Rightarrow> semaphore \<Rightarrow> bool" where
  "sem_ok cap users waiting s \<longleftrightarrow>
     free_permits s + set_aside s + users = cap \<and>
     (free_permits s = 0 \<or> list_all snd (waiters s) \<or> 0 < set_aside s) \<and>
     woken_first (waiters s) \<and> distinct (map fst (waiters s)) \<and> fst ` set (waiters s) = waiting"

lemma wake_first_None: "wake_first q = None \<longleftrightarrow> list_all snd q"
  by (induction q rule: wake_first.induct) auto

lemma wake_first_Some:
  "wake_first q = Some q' \<Longrightarrow> map fst q' = map fst q \<and> length (filter snd q') = Suc (length (filter snd q)) \<and> \<not> list_all snd q"
  by (induction q arbitrary: q' rule: wake_first.induct) (auto split: if_splits)

lemma woken_first_Cons: "woken_first ((i, w) # q) \<longleftrightarrow> (w \<or> list_all (Not \<circ> snd) q) \<and> woken_first q"
  by (cases w) (auto simp: woken_first_def list_all_iff)

lemma wake_first_sorted: "wake_first q = Some q' \<Longrightarrow> woken_first q \<Longrightarrow> woken_first q'"
proof (induction q arbitrary: q' rule: wake_first.induct)
  case (2 i w q)
  show ?case
  proof (cases w)
    case True
    with "2.prems" obtain r where "wake_first q = Some r" "q' = (i, True) # r" by auto
    with "2.IH" [of r] "2.prems" True show ?thesis by (simp add: woken_first_Cons)
  next
    case False
    with "2.prems" show ?thesis by (auto simp: woken_first_Cons)
  qed
qed simp

text \<open>What every operation needs: an account with one more free permit, and the order of the queue.\<close>

definition wakeable :: "nat \<Rightarrow> nat \<Rightarrow> nat set \<Rightarrow> semaphore \<Rightarrow> bool" where
  "wakeable cap users waiting s \<longleftrightarrow>
     free_permits s + set_aside s + users = cap \<and> woken_first (waiters s) \<and> distinct (map fst (waiters s)) \<and>
     fst ` set (waiters s) = waiting"

lemma set_of_map_fst: "map fst q' = map fst q \<Longrightarrow> fst ` set q' = fst ` set q"
  by (metis list.set_map)

lemma wake_loop_ok:
  "wakeable cap users waiting \<lparr>free_permits = n, waiters = q\<rparr> \<Longrightarrow> sem_ok cap users waiting (wake_loop n q)"
proof (induction n arbitrary: q)
  case (Suc n)
  show ?case
  proof (cases "wake_first q")
    case None
    then show ?thesis using Suc.prems wake_first_None [of q] by (simp add: sem_ok_def wakeable_def)
  next
    case (Some q')
    then show ?thesis using Suc.prems wake_first_Some [OF Some] wake_first_sorted [OF Some] set_of_map_fst [of q' q]
      by (simp add: Suc.IH wakeable_def set_aside_def)
  qed
qed (simp add: sem_ok_def wakeable_def)

lemma wake_all_ok: "wakeable cap users waiting s \<Longrightarrow> sem_ok cap users waiting (wake_all s)"
  by (cases s) (simp add: wake_all_def wake_loop_ok)

lemma woken_first_filter: "woken_first q \<Longrightarrow> woken_first (filter P q)"
  unfolding woken_first_def by (simp add: sorted_map sorted_wrt_filter)

lemma leave_queue:
  assumes "distinct (map fst q)" "woken_first q"
  shows "length (filter snd (filter (\<lambda>w. fst w \<noteq> i) q)) + of_bool ((i, True) \<in> set q) = length (filter snd q)"
    and "woken_first (filter (\<lambda>w. fst w \<noteq> i) q)" and "distinct (map fst (filter (\<lambda>w. fst w \<noteq> i) q))"
    and "fst ` set (filter (\<lambda>w. fst w \<noteq> i) q) = fst ` set q - {i}"
proof -
  show "length (filter snd (filter (\<lambda>w. fst w \<noteq> i) q)) + of_bool ((i, True) \<in> set q) = length (filter snd q)"
    using assms(1)
  proof (induction q)
    case (Cons w q)
    show ?case
    proof (cases "fst w = i")
      case True
      with Cons.prems have "\<forall>v\<in>set q. fst v \<noteq> i" by (simp, metis imageI)
      then have "filter (\<lambda>w. fst w \<noteq> i) q = q" "(i, b) \<notin> set q" for b by (simp_all add: filter_id_conv) (metis fst_conv)
      with True show ?thesis by (cases w) auto
    next
      case False
      with Cons show ?thesis by (cases w) auto
    qed
  qed simp
qed (use assms in \<open>auto intro: woken_first_filter distinct_map_filter\<close>)

text \<open>One move of a program on a semaphore, with the number of permits in use and the tasks that wait.\<close>

inductive sem_move :: "semaphore \<Rightarrow> nat \<Rightarrow> nat set \<Rightarrow> semaphore \<Rightarrow> nat \<Rightarrow> nat set \<Rightarrow> bool" where
  stay: "sem_move s n w s n w"
| take_free: "\<not> locked s \<Longrightarrow> sem_move s n w (take_permit s) (n + 1) w"
| wait: "locked s \<Longrightarrow> i \<notin> w \<Longrightarrow> sem_move s n w (enqueue i s) n (insert i w)"
| run: "woken i s \<Longrightarrow> sem_move s n w (resume i s) (n + 1) (w - {i})"
| abandon: "i \<in> w \<Longrightarrow> sem_move s n w (cancel_wait i s) n (w - {i})"
| hand_back: "sem_move s (n + 1) w (give_back s) n w"

lemma sem_move_ok: "sem_move s n w s' n' w' \<Longrightarrow> sem_ok cap n w s \<Longrightarrow> sem_ok cap n' w' s'"
proof (induction rule: sem_move.induct)
  case (take_free s n w)
  then show ?case by (auto simp: locked_def take_permit_def sem_ok_def set_aside_def)
next
  case (wait s i w n)
  then show ?case
    by (auto simp: locked_def enqueue_def sem_ok_def set_aside_def woken_first_def sorted_append list_all_iff neq_Nil_conv)
next
  case (run i s n w)
  then show ?case
    using leave_queue [of "waiters s" i] unfolding resume_def
    by (intro wake_all_ok) (simp add: wakeable_def sem_ok_def set_aside_def woken_def)
next
  case (abandon i w s n)
  then have acc: "free_permits s + set_aside s + n = cap" "woken_first (waiters s)" "distinct (map fst (waiters s))"
      "fst ` set (waiters s) = w" by (simp_all add: sem_ok_def)
  note left = leave_queue [OF acc(3,2), of i]
  show ?case unfolding cancel_wait_def
    by (rule wake_all_ok) (cases "(i, True) \<in> set (waiters s)"; use acc left in \<open>simp add: wakeable_def set_aside_def woken_def\<close>)
next
  case (hand_back s n w)
  then have acc: "free_permits s + set_aside s + n + 1 = cap" "woken_first (waiters s)" "distinct (map fst (waiters s))"
      "fst ` set (waiters s) = w" by (simp_all add: sem_ok_def)
  show ?case
  proof (cases "wake_first (waiters s)")
    case None
    with acc wake_first_None [of "waiters s"] show ?thesis
      by (simp add: give_back_def wake_next_def sem_ok_def set_aside_def)
  next
    case (Some q)
    from wake_first_Some [OF Some] wake_first_sorted [OF Some] set_of_map_fst [of q "waiters s"] acc Some
    show ?thesis by (simp add: give_back_def wake_next_def sem_ok_def set_aside_def)
  qed
qed simp

locale semaphore_client =
  fixes step :: "'e \<Rightarrow> 's \<Rightarrow> 's"
    and sem :: "'s \<Rightarrow> semaphore"
    and users :: "'s \<Rightarrow> nat"
    and waiting :: "'s \<Rightarrow> nat set"
    and proper :: "'s \<Rightarrow> bool"
  assumes proper_step: "proper s \<Longrightarrow> proper (step e s)"
    and moves: "proper s \<Longrightarrow> sem_move (sem s) (users s) (waiting s) (sem (step e s)) (users (step e s)) (waiting (step e s))"
begin

lemma proper_run: "proper s \<Longrightarrow> proper (fold step es s)"
  by (induction es arbitrary: s) (simp_all add: proper_step)

lemma run_ok:
  "proper s \<Longrightarrow> sem_ok cap (users s) (waiting s) (sem s) \<Longrightarrow>
   proper (fold step es s) \<and> sem_ok cap (users (fold step es s)) (waiting (fold step es s)) (sem (fold step es s))"
  by (induction es arbitrary: s) (simp_all add: proper_step sem_move_ok [OF moves])

text \<open>The client theorem: never more users than permits; and while a task waits without having been woken,
  every permit is in use, or a woken task is about to run, which wakes it if a permit is left.\<close>

lemma permits_conserved:
  assumes "proper s" "sem_ok cap (users s) (waiting s) (sem s)"
  shows "users (fold step es s) \<le> cap"
    and "i \<in> waiting (fold step es s) \<Longrightarrow> \<not> woken i (sem (fold step es s)) \<Longrightarrow>
      users (fold step es s) = cap \<or> 0 < set_aside (sem (fold step es s))"
proof -
  have ok: "sem_ok cap (users (fold step es s)) (waiting (fold step es s)) (sem (fold step es s))"
    using run_ok [OF assms] by simp
  then show "users (fold step es s) \<le> cap" by (simp add: sem_ok_def)
  assume i: "i \<in> waiting (fold step es s)" "\<not> woken i (sem (fold step es s))"
  then have "i \<in> fst ` set (waiters (sem (fold step es s)))" using ok by (simp add: sem_ok_def)
  then obtain b where "(i, b) \<in> set (waiters (sem (fold step es s)))" by force
  with i have "\<not> list_all snd (waiters (sem (fold step es s)))" by (cases b) (auto simp: woken_def list_all_iff intro: bexI [of _ "(i, False)"])
  with ok show "users (fold step es s) = cap \<or> 0 < set_aside (sem (fold step es s))" by (auto simp: sem_ok_def)
qed

end

lemma sem_ok_new [simp]: "sem_ok n 0 {} (new_semaphore n)"
  by (simp add: sem_ok_def new_semaphore_def set_aside_def woken_first_def)


subsection \<open>Programs that are lists of tasks\<close>

text \<open>
  Most programs are a list of tasks of which one moves at a time. A task stands outside the semaphore, in its
  queue, or uses a permit; how it changes its stance says what must happen to the semaphore.
\<close>

datatype stance = Outside | In_queue | Using

fun task_move :: "nat \<Rightarrow> semaphore \<Rightarrow> stance \<Rightarrow> stance \<Rightarrow> semaphore \<Rightarrow> bool" where
  "task_move i s Outside In_queue s' = (locked s \<and> s' = enqueue i s)"
| "task_move i s Outside Using s' = (\<not> locked s \<and> s' = take_permit s)"
| "task_move i s In_queue Outside s' = (s' = cancel_wait i s)"
| "task_move i s In_queue Using s' = (woken i s \<and> s' = resume i s)"
| "task_move i s Using Outside s' = (s' = give_back s)"
| "task_move i s Using In_queue s' = False"
| "task_move i s x y s' = (s' = s)"

definition where_stance :: "('p \<Rightarrow> stance) \<Rightarrow> stance \<Rightarrow> 'p list \<Rightarrow> nat set" where
  "where_stance st x ps = {i. i < length ps \<and> st (ps ! i) = x}"

definition count_stance :: "('p \<Rightarrow> stance) \<Rightarrow> stance \<Rightarrow> 'p list \<Rightarrow> nat" where
  "count_stance st x ps = length (filter (\<lambda>p. st p = x) ps)"

lemma where_stance_update:
  "i < length ps \<Longrightarrow> where_stance st x (ps[i := p]) =
     (if st p = x then insert i (where_stance st x ps) else where_stance st x ps - {i})"
  by (auto simp: where_stance_def nth_list_update)

lemma where_stance_mem: "i < length ps \<Longrightarrow> i \<in> where_stance st x ps \<longleftrightarrow> st (ps ! i) = x"
  by (simp add: where_stance_def)

lemma count_stance_update:
  "i < length ps \<Longrightarrow> count_stance st x (ps[i := p]) + of_bool (st (ps ! i) = x) = count_stance st x ps + of_bool (st p = x)"
  unfolding count_stance_def by (rule length_filter_update)

lemma task_move_sem_move:
  assumes "i < length ps" "task_move i s (st (ps ! i)) (st p) s'"
  shows "sem_move s (count_stance st Using ps) (where_stance st In_queue ps)
    s' (count_stance st Using (ps[i := p])) (where_stance st In_queue (ps[i := p]))"
proof -
  note upd = count_stance_update [OF assms(1), of st Using p] where_stance_update [OF assms(1), of st In_queue p]
    where_stance_mem [OF assms(1), of st In_queue]
  have hand_back: "sem_move s (Suc n) w (give_back s) n w" for n w using sem_move.hand_back [of s n w] by simp
  show ?thesis
  proof (cases "st (ps ! i) = Using \<and> st p = Outside")
    case True
    then have "count_stance st Using ps = Suc (count_stance st Using (ps[i := p]))" using upd by simp
    with True show ?thesis using upd assms(2) hand_back by (simp del: Suc_eq_plus1)
  next
    case False
    then show ?thesis using upd assms(2) sem_move.take_free [of s] sem_move.run [of i s]
      by (cases "st (ps ! i)"; cases "st p") (auto intro: sem_move.intros simp: insert_absorb)
  qed
qed

locale task_semaphore =
  fixes step :: "'e \<Rightarrow> 's \<Rightarrow> 's"
    and sem :: "'s \<Rightarrow> semaphore"
    and tasks :: "'s \<Rightarrow> 'p list"
    and st :: "'p \<Rightarrow> stance"
    and proper :: "'s \<Rightarrow> bool"
  assumes proper_law: "proper s \<Longrightarrow> proper (step e s)"
    and task_law: "proper s \<Longrightarrow> sem (step e s) = sem s \<and> tasks (step e s) = tasks s \<or>
      (\<exists>i p. i < length (tasks s) \<and> tasks (step e s) = (tasks s)[i := p] \<and>
        task_move i (sem s) (st (tasks s ! i)) (st p) (sem (step e s)))"

sublocale task_semaphore \<subseteq> semaphore_client step sem "\<lambda>s. count_stance st Using (tasks s)" "\<lambda>s. where_stance st In_queue (tasks s)" proper
proof unfold_locales
  fix s e
  assume "proper s"
  then show "sem_move (sem s) (count_stance st Using (tasks s)) (where_stance st In_queue (tasks s))
    (sem (step e s)) (count_stance st Using (tasks (step e s))) (where_stance st In_queue (tasks (step e s)))"
    using task_law [of s e] by (auto intro: sem_move.stay task_move_sem_move)
qed (rule proper_law)

context task_semaphore
begin

text \<open>Started with all tasks outside and all permits free, at most \<open>cap\<close> tasks use a permit at any time.\<close>

lemma users_bounded:
  assumes "proper s" "sem s = new_semaphore cap" "\<forall>p\<in>set (tasks s). st p = Outside"
  shows "count_stance st Using (tasks (fold step es s)) \<le> cap"
    and "i \<in> where_stance st In_queue (tasks (fold step es s)) \<Longrightarrow> \<not> woken i (sem (fold step es s)) \<Longrightarrow>
      count_stance st Using (tasks (fold step es s)) = cap \<or> 0 < set_aside (sem (fold step es s))"
proof -
  have "count_stance st Using (tasks s) = 0" "where_stance st In_queue (tasks s) = {}"
    using assms(3) by (auto simp: count_stance_def where_stance_def filter_empty_conv)
  then have ok: "sem_ok cap (count_stance st Using (tasks s)) (where_stance st In_queue (tasks s)) (sem s)"
    using assms(2) by simp
  show "count_stance st Using (tasks (fold step es s)) \<le> cap" by (rule permits_conserved(1) [OF assms(1) ok])
  show "i \<in> where_stance st In_queue (tasks (fold step es s)) \<Longrightarrow> \<not> woken i (sem (fold step es s)) \<Longrightarrow>
      count_stance st Using (tasks (fold step es s)) = cap \<or> 0 < set_aside (sem (fold step es s))"
    by (rule permits_conserved(2) [OF assms(1) ok])
qed

end

end
