(* ===== verification/Sim_Tasks.thy ===== *)
theory Sim_Tasks
  imports Py_Semaphore
begin

text \<open>
  The simulations of the failure layer are lists of tasks, of which one moves at a time, and a few numbers they share. Two
  contracts say how a number follows the tasks: \<open>task_potential\<close> (it grows at most by what the moving task gives up and the event costs)
  and \<open>task_books\<close> (it is, at any time, the sum of what the tasks contribute).
\<close>

locale task_potential =
  fixes step :: "'e \<Rightarrow> 's \<Rightarrow> 's"
    and tasks :: "'s \<Rightarrow> 'p list"
    and proper :: "'s \<Rightarrow> bool"
    and amount :: "'s \<Rightarrow> int"
    and spare :: "'p \<Rightarrow> int"
    and cost :: "'e \<Rightarrow> int"
  assumes potential_law: "proper s \<Longrightarrow> proper (step e s) \<and>
      (tasks (step e s) = tasks s \<and> amount (step e s) \<le> amount s + cost e \<or>
       (\<exists>i p. i < length (tasks s) \<and> tasks (step e s) = (tasks s)[i := p] \<and>
          amount (step e s) + spare p \<le> amount s + spare (tasks s ! i) + cost e))"
begin

lemma potential_step:
  assumes "proper s"
  shows "amount (step e s) + sum_list (map spare (tasks (step e s))) \<le> amount s + sum_list (map spare (tasks s)) + cost e"
  using potential_law [OF assms, of e]
proof (elim conjE disjE exE)
  fix i p
  assume "i < length (tasks s)" "tasks (step e s) = (tasks s)[i := p]"
    "amount (step e s) + spare p \<le> amount s + spare (tasks s ! i) + cost e"
  with sum_map_update [of i "tasks s" spare p] show ?thesis by simp
qed simp

lemma potential_run:
  "proper s \<Longrightarrow> proper (fold step es s) \<and>
     amount (fold step es s) + sum_list (map spare (tasks (fold step es s))) \<le>
       amount s + sum_list (map spare (tasks s)) + sum_list (map cost es)"
proof (induction es arbitrary: s)
  case (Cons e es)
  have p: "proper (step e s)" using potential_law [OF Cons.prems, of e] by simp
  from Cons.IH [OF p] potential_step [OF Cons.prems, of e] show ?case by simp
qed simp

end

locale task_books =
  fixes step :: "'e \<Rightarrow> 's \<Rightarrow> 's"
    and tasks :: "'s \<Rightarrow> 'p list"
    and proper :: "'s \<Rightarrow> bool"
    and reading :: "'s \<Rightarrow> int"
    and weight :: "'p \<Rightarrow> int"
  assumes books_law: "proper s \<Longrightarrow> proper (step e s) \<and>
      (tasks (step e s) = tasks s \<and> reading (step e s) = reading s \<or>
       (\<exists>i p. i < length (tasks s) \<and> tasks (step e s) = (tasks s)[i := p] \<and>
          reading (step e s) = reading s + weight p - weight (tasks s ! i)))"

sublocale task_books \<subseteq> above: task_potential step tasks proper reading "\<lambda>p. - weight p" "\<lambda>_. 0"
proof unfold_locales
  fix s e
  assume s: "proper s"
  have "reading (step e s) = reading s + weight p - weight (tasks s ! i) \<longleftrightarrow>
      reading (step e s) + - weight p = reading s + - weight (tasks s ! i)" for i p by linarith
  with books_law [OF s, of e] show "proper (step e s) \<and> (tasks (step e s) = tasks s \<and> reading (step e s) \<le> reading s + 0 \<or>
      (\<exists>i p. i < length (tasks s) \<and> tasks (step e s) = (tasks s)[i := p] \<and>
         reading (step e s) + - weight p \<le> reading s + - weight (tasks s ! i) + 0))" unfolding add_0_right by (metis order_refl)
qed

sublocale task_books \<subseteq> below: task_potential step tasks proper "\<lambda>s. - reading s" weight "\<lambda>_. 0"
proof unfold_locales
  fix s e
  assume s: "proper s"
  have "reading (step e s) = reading s + weight p - weight (tasks s ! i) \<longleftrightarrow>
      - reading (step e s) + weight p = - reading s + weight (tasks s ! i)" for i p by linarith
  with books_law [OF s, of e] show "proper (step e s) \<and> (tasks (step e s) = tasks s \<and> - reading (step e s) \<le> - reading s + 0 \<or>
      (\<exists>i p. i < length (tasks s) \<and> tasks (step e s) = (tasks s)[i := p] \<and>
         - reading (step e s) + weight p \<le> - reading s + weight (tasks s ! i) + 0))" unfolding add_0_right by (metis order_refl)
qed

context task_books
begin

lemma books_run:
  assumes "proper s" "reading s = sum_list (map weight (tasks s))"
  shows "reading (fold step es s) = sum_list (map weight (tasks (fold step es s)))"
  using above.potential_run [OF assms(1), of es] below.potential_run [OF assms(1), of es] assms(2)
  by (simp add: uminus_sum_list_map [symmetric, unfolded comp_def])

end

text \<open>A task that keeps its stance leaves the semaphore alone.\<close>

lemma task_move_same [simp]: "task_move i s x x s"
  by (cases x) simp_all

text \<open>Giving a permit back right after taking it.\<close>

lemma wake_loop_Suc: "wake_loop (Suc n) q = give_back (wake_loop n q)"
proof (induction n arbitrary: q)
  case (Suc n)
  show ?case
  proof (cases "wake_first q")
    case (Some q')
    then have "wake_loop (Suc (Suc n)) q = wake_loop (Suc n) q'" "wake_loop (Suc n) q = wake_loop n q'" by simp_all
    with Suc.IH show ?thesis by simp
  qed (simp add: give_back_def wake_next_def)
qed (simp add: give_back_def wake_next_def split: option.split)

lemma give_back_resume: "woken i s \<Longrightarrow> give_back (resume i s) = cancel_wait i s"
  by (simp add: resume_def cancel_wait_def wake_all_def wake_loop_Suc del: wake_loop.simps)

lemma give_back_take: "\<not> locked s \<Longrightarrow> give_back (take_permit s) = s"
  by (cases s) (simp add: locked_def give_back_def take_permit_def wake_next_def)

end
