(* ===== verification/Sim_Shedder.thy ===== *)
theory Sim_Shedder
  imports Sim_Tasks PyFloat
begin

text \<open>
  \<^verbatim>\<open>shedder.py\<close> of the load-shedding topic: the gradient limit, the admission in its four modes, the backends with
  and without a bulkhead, and \<^verbatim>\<open>Server.handle\<close>. A request is cut where it can suspend: in the bounded wait for an
  admission permit, in the backend's queue, and in the service time. The order in which tasks run, the clock readings and
  the moments of the timeouts and cancellations are the environment's; \<open>rt\<close> is the C library's square root.
\<close>

subsection \<open>The gradient limit\<close>

record grad_limit =
  gl_limit :: rat
  min_rtt :: "rat option"
  gl_samples :: "rat list"
  last_update :: rat
  last_reset :: rat

definition new_grad_limit :: grad_limit where
  "new_grad_limit = \<lparr>gl_limit = 10, min_rtt = None, gl_samples = [], last_update = 0, last_reset = 0\<rparr>"

definition observe_rtt :: "rat \<Rightarrow> grad_limit \<Rightarrow> grad_limit" where
  "observe_rtt rtt g = g\<lparr>gl_samples := gl_samples g @ [rtt]\<rparr>"

definition median_of :: "rat list \<Rightarrow> rat" where
  "median_of xs = sort xs ! (length xs div 2)"

definition new_limit :: "(rat \<Rightarrow> rat) \<Rightarrow> rat \<Rightarrow> rat \<Rightarrow> rat \<Rightarrow> rat" where
  "new_limit rt lmt base median =
     (let gradient = max (1 / 2) (min 1 (fl (base / max median (fl (1 / 10 ^ 6)))));
          target = fl (fl (lmt * gradient) + rt lmt)
      in max 2 (min 64 (fl (fl (lmt * fl (1 - fl (2 / 10))) + fl (fl (2 / 10) * target)))))"

definition update_limit :: "(rat \<Rightarrow> rat) \<Rightarrow> rat \<Rightarrow> grad_limit \<Rightarrow> grad_limit" where
  "update_limit rt now g =
     (if fl (now - last_update g) < 1 / 4 then g
      else let g1 = g\<lparr>last_update := now\<rparr> in
        case gl_samples g1 of
          [] \<Rightarrow> g1
        | x # xs \<Rightarrow>
            let window_min = fold min xs x;
                median = median_of (x # xs);
                (base, reset) = (case min_rtt g1 of
                    None \<Rightarrow> (window_min, now)
                  | Some r \<Rightarrow> if 5 \<le> fl (now - last_reset g1) then (window_min, now) else (min r window_min, last_reset g1))
            in g1\<lparr>gl_samples := [], min_rtt := Some base, last_reset := reset,
                 gl_limit := new_limit rt (gl_limit g1) base median\<rparr>)"

subsection \<open>Admission\<close>

record admission =
  ad_mode :: string
  ad_sem :: semaphore
  ad_inflight :: int
  limiter :: "grad_limit option"

definition new_admission :: "string \<Rightarrow> admission" where
  "new_admission mode = \<lparr>ad_mode = mode, ad_sem = new_semaphore 12, ad_inflight = 0,
     limiter = (if mode = ''adaptive'' then Some new_grad_limit else None)\<rparr>"

definition uses_sem :: "string \<Rightarrow> int \<Rightarrow> bool" where
  "uses_sem mode tier =
     (if mode = ''none'' \<or> mode = ''adaptive'' then False else if mode = ''priority'' \<and> 0 < tier then False else True)"

definition admit_now :: "admission \<Rightarrow> admission" where
  "admit_now a = a\<lparr>ad_inflight := ad_inflight a + 1\<rparr>"

text \<open>Every adaptive admission has a limiter. Admitted or refused with the seconds spent deciding, or the wait for a permit begins.\<close>

datatype decision = Admit rat | Refuse rat | Wait_permit

definition admit :: "nat \<Rightarrow> int \<Rightarrow> rat \<Rightarrow> rat \<Rightarrow> admission \<Rightarrow> decision \<times> admission" where
  "admit i tier t0 t1 a =
     (if ad_mode a = ''none'' then (Admit 0, admit_now a)
      else if ad_mode a = ''adaptive'' then
        (case limiter a of
           None \<Rightarrow> (Refuse 0, a)
         | Some g \<Rightarrow> if gl_limit g \<le> of_int (ad_inflight a) then (Refuse (fl (t1 - t0)), a)
                    else (Admit (fl (t1 - t0)), admit_now a))
      else if ad_mode a = ''priority'' \<and> 0 < tier then
        (if 10 \<le> ad_inflight a then (Refuse (fl (t1 - t0)), a) else (Admit (fl (t1 - t0)), admit_now a))
      else if locked (ad_sem a) then (Wait_permit, a\<lparr>ad_sem := enqueue i (ad_sem a)\<rparr>)
      else (Admit (fl (t1 - t0)), admit_now (a\<lparr>ad_sem := take_permit (ad_sem a)\<rparr>)))"

definition admit_woken :: "nat \<Rightarrow> admission \<Rightarrow> admission" where
  "admit_woken i a = admit_now (a\<lparr>ad_sem := resume i (ad_sem a)\<rparr>)"

definition stop_waiting :: "nat \<Rightarrow> admission \<Rightarrow> admission" where
  "stop_waiting i a = a\<lparr>ad_sem := cancel_wait i (ad_sem a)\<rparr>"

definition release_admission :: "bool \<Rightarrow> admission \<Rightarrow> admission" where
  "release_admission via_sem a =
     (let a1 = a\<lparr>ad_inflight := ad_inflight a - 1\<rparr> in
      if via_sem then a1\<lparr>ad_sem := give_back (ad_sem a1)\<rparr> else a1)"

subsection \<open>The backend\<close>

record backend =
  be_sem :: semaphore
  in_use :: int
  queued :: int

definition new_backend :: "nat \<Rightarrow> backend" where
  "new_backend workers = \<lparr>be_sem = new_semaphore workers, in_use = 0, queued = 0\<rparr>"

definition begin_service :: "backend \<Rightarrow> backend" where
  "begin_service b = b\<lparr>queued := queued b - 1, in_use := in_use b + 1\<rparr>"

text \<open>\<^verbatim>\<open>call\<close> up to the service time or the queue: \<open>True\<close> when a server was free.\<close>

definition call_backend :: "nat \<Rightarrow> backend \<Rightarrow> bool \<times> backend" where
  "call_backend i b =
     (let b1 = b\<lparr>queued := queued b + 1\<rparr> in
      if locked (be_sem b1) then (False, b1\<lparr>be_sem := enqueue i (be_sem b1)\<rparr>)
      else (True, begin_service (b1\<lparr>be_sem := take_permit (be_sem b1)\<rparr>)))"

definition backend_woken :: "nat \<Rightarrow> backend \<Rightarrow> backend" where
  "backend_woken i b = begin_service (b\<lparr>be_sem := resume i (be_sem b)\<rparr>)"

text \<open>
  The end of the service time. The \<^verbatim>\<open>return\<close> in the \<^verbatim>\<open>finally\<close> block makes the call return normally even if the
  task was cancelled during the sleep. A task cancelled in the queue never reaches \<^verbatim>\<open>self.queued -= 1\<close>.
\<close>

definition backend_done :: "backend \<Rightarrow> backend" where
  "backend_done b = b\<lparr>in_use := in_use b - 1, be_sem := give_back (be_sem b)\<rparr>"

definition leave_backend_queue :: "nat \<Rightarrow> backend \<Rightarrow> backend" where
  "leave_backend_queue i b = b\<lparr>be_sem := cancel_wait i (be_sem b)\<rparr>"

text \<open>\<^verbatim>\<open>percentile\<close>, and the row the harness reports at the end of a window.\<close>

definition percentile :: "rat list \<Rightarrow> rat \<Rightarrow> rat" where
  "percentile values q =
     (if values = [] then 0
      else sort values ! nat (min (int (length values) - 1) (max 0 (\<lceil>fl (q * of_nat (length values))\<rceil> - 1))))"

subsection \<open>The server\<close>

record shed_window =
  w_offered :: int
  w_accepted :: int
  w_rejected :: int
  w_goodput :: int
  w_lat :: "rat list"

definition blank_window :: shed_window where
  "blank_window = \<lparr>w_offered = 0, w_accepted = 0, w_rejected = 0, w_goodput = 0, w_lat = []\<rparr>"

record shed_metrics =
  offered :: int
  accepted :: int
  rejected :: int
  goodput :: int
  latencies :: "rat list"
  lat_tier0 :: "rat list"
  reject_cost :: "rat list"
  tier0_offered :: int
  tier0_goodput :: int
  window :: shed_window

definition new_shed_metrics :: shed_metrics where
  "new_shed_metrics = \<lparr>offered = 0, accepted = 0, rejected = 0, goodput = 0, latencies = [], lat_tier0 = [],
     reject_cost = [], tier0_offered = 0, tier0_goodput = 0, window = blank_window\<rparr>"

text \<open>
  The two attributes \<^verbatim>\<open>checkout_backend\<close> and \<^verbatim>\<open>report_backend\<close> may be one object: \<open>pools\<close> holds the
  objects and \<open>report_at\<close> says which of them \<^verbatim>\<open>report_backend\<close> is; \<^verbatim>\<open>checkout_backend\<close> is object \<open>False\<close>.
\<close>

record shed_server =
  sv_m :: shed_metrics
  sv_admission :: admission
  pools :: "bool \<Rightarrow> backend"
  report_at :: bool

definition new_shed_server :: "string \<Rightarrow> shed_server" where
  "new_shed_server mode =
     \<lparr>sv_m = new_shed_metrics, sv_admission = new_admission (if take 8 mode = ''bulkhead'' then ''none'' else mode),
      pools = (\<lambda>b. if b then new_backend 2 else new_backend (if mode = ''bulkhead_split'' then 6 else 8)),
      report_at = (mode = ''bulkhead_split'')\<rparr>"

definition backend_of :: "bool \<Rightarrow> shed_server \<Rightarrow> bool" where
  "backend_of is_report sv = (if is_report then report_at sv else False)"

definition on_metrics :: "(shed_metrics \<Rightarrow> shed_metrics) \<Rightarrow> shed_server \<Rightarrow> shed_server" where
  "on_metrics f sv = sv\<lparr>sv_m := f (sv_m sv)\<rparr>"

definition on_admission :: "(admission \<Rightarrow> admission) \<Rightarrow> shed_server \<Rightarrow> shed_server" where
  "on_admission f sv = sv\<lparr>sv_admission := f (sv_admission sv)\<rparr>"

definition on_pool :: "bool \<Rightarrow> (backend \<Rightarrow> backend) \<Rightarrow> shed_server \<Rightarrow> shed_server" where
  "on_pool b f sv = sv\<lparr>pools := (pools sv)(b := f (pools sv b))\<rparr>"

definition count_offered :: "int \<Rightarrow> shed_metrics \<Rightarrow> shed_metrics" where
  "count_offered tier m =
     (let m1 = m\<lparr>offered := offered m + 1, window := (window m)\<lparr>w_offered := w_offered (window m) + 1\<rparr>\<rparr> in
      if tier = 0 then m1\<lparr>tier0_offered := tier0_offered m1 + 1\<rparr> else m1)"

definition count_rejected :: "rat \<Rightarrow> shed_metrics \<Rightarrow> shed_metrics" where
  "count_rejected cost m =
     m\<lparr>rejected := rejected m + 1, window := (window m)\<lparr>w_rejected := w_rejected (window m) + 1\<rparr>,
       reject_cost := reject_cost m @ [cost]\<rparr>"

definition count_accepted :: "shed_metrics \<Rightarrow> shed_metrics" where
  "count_accepted m = m\<lparr>accepted := accepted m + 1, window := (window m)\<lparr>w_accepted := w_accepted (window m) + 1\<rparr>\<rparr>"

definition count_latency :: "int \<Rightarrow> rat \<Rightarrow> shed_metrics \<Rightarrow> shed_metrics" where
  "count_latency tier lat m =
     (let m1 = m\<lparr>latencies := latencies m @ [lat]\<rparr>;
          m2 = (if tier = 0 then m1\<lparr>lat_tier0 := lat_tier0 m1 @ [lat]\<rparr> else m1)
      in m2\<lparr>window := (window m2)\<lparr>w_lat := w_lat (window m2) @ [lat]\<rparr>\<rparr>)"

definition count_goodput :: "int \<Rightarrow> shed_metrics \<Rightarrow> shed_metrics" where
  "count_goodput tier m =
     (let m1 = m\<lparr>goodput := goodput m + 1, window := (window m)\<lparr>w_goodput := w_goodput (window m) + 1\<rparr>\<rparr> in
      if tier = 0 then m1\<lparr>tier0_goodput := tier0_goodput m1 + 1\<rparr> else m1)"

subsection \<open>\<^verbatim>\<open>Server.handle\<close>, one section at a time\<close>

record shed_request =
  rq_tier :: int
  rq_report :: bool
  rq_t0 :: rat

datatype shed_phase =
    Created shed_request
  | Deciding shed_request rat
  | Queueing shed_request
  | Serving shed_request
  | Finished shed_request
  | Refused_request shed_request
  | Dropped_deciding shed_request
  | Dropped_queueing shed_request
  | Never_ran shed_request

record shedder_sys =
  server :: shed_server
  tasks :: "shed_phase list"

definition enter_task :: "nat \<Rightarrow> shed_phase \<Rightarrow> shed_server \<Rightarrow> shedder_sys \<Rightarrow> shedder_sys" where
  "enter_task i p sv s = s\<lparr>server := sv, tasks := (tasks s)[i := p]\<rparr>"

definition proceed :: "nat \<Rightarrow> shed_request \<Rightarrow> shed_server \<Rightarrow> shed_phase \<times> shed_server" where
  "proceed i rq sv =
     (let sv1 = on_metrics count_accepted sv; b = backend_of (rq_report rq) sv1;
          (served, be) = call_backend i (pools sv1 b); sv2 = on_pool b (\<lambda>_. be) sv1
      in (if served then Serving rq else Queueing rq, sv2))"

definition handle_start :: "nat \<Rightarrow> rat \<Rightarrow> rat \<Rightarrow> rat \<Rightarrow> shed_request \<Rightarrow> shed_server \<Rightarrow> shed_phase \<times> shed_server" where
  "handle_start i now t0 t1 rq0 sv =
     (let rq = rq0\<lparr>rq_t0 := now\<rparr>; sv1 = on_metrics (count_offered (rq_tier rq)) sv;
          (d, a) = admit i (rq_tier rq) t0 t1 (sv_admission sv1); sv2 = on_admission (\<lambda>_. a) sv1
      in case d of
           Wait_permit \<Rightarrow> (Deciding rq t0, sv2)
         | Refuse cost \<Rightarrow> (Refused_request rq, on_metrics (count_rejected cost) sv2)
         | Admit cost \<Rightarrow> proceed i rq sv2)"

definition handle_timeout :: "nat \<Rightarrow> rat \<Rightarrow> rat \<Rightarrow> shed_request \<Rightarrow> shed_server \<Rightarrow> shed_phase \<times> shed_server" where
  "handle_timeout i t0 t1 rq sv =
     (Refused_request rq, on_metrics (count_rejected (fl (t1 - t0))) (on_admission (stop_waiting i) sv))"

definition handle_end :: "rat \<Rightarrow> shed_request \<Rightarrow> shed_server \<Rightarrow> shed_phase \<times> shed_server" where
  "handle_end now rq sv =
     (let sv1 = on_pool (backend_of (rq_report rq) sv) backend_done sv;
          sv2 = on_admission (release_admission (uses_sem (ad_mode (sv_admission sv1)) (rq_tier rq))) sv1;
          lat = fl (now - rq_t0 rq);
          sv3 = on_metrics (count_latency (rq_tier rq) lat) sv2;
          sv4 = on_admission (\<lambda>a. a\<lparr>limiter := map_option (observe_rtt lat) (limiter a)\<rparr>) sv3
      in (Finished rq, if lat \<le> 1 / 2 then on_metrics (count_goodput (rq_tier rq)) sv4 else sv4))"

definition drop_queued :: "nat \<Rightarrow> shed_request \<Rightarrow> shed_server \<Rightarrow> shed_phase \<times> shed_server" where
  "drop_queued i rq sv =
     (let sv1 = on_pool (backend_of (rq_report rq) sv) (leave_backend_queue i) sv
      in (Dropped_queueing rq,
          on_admission (release_admission (uses_sem (ad_mode (sv_admission sv1)) (rq_tier rq))) sv1))"

text \<open>
  A task starts, is woken with an admission permit or runs into the deadline of the wait, is woken with a backend
  server, ends its service time, or is cancelled; between them the harness updates the controller.
\<close>

datatype shedder_event =
    Starts nat rat rat rat
  | Has_permit nat
  | Permit_timeout nat rat
  | Has_server nat
  | Served_at nat rat
  | Cancels nat rat
  | Controller rat
  | New_window

definition advance :: "nat \<Rightarrow> shed_phase \<times> shed_server \<Rightarrow> shedder_sys \<Rightarrow> shedder_sys" where
  "advance i res s = enter_task i (fst res) (snd res) s"

fun task_of :: "shedder_event \<Rightarrow> nat option" where
  "task_of (Starts i now t0 t1) = Some i"
| "task_of (Has_permit i) = Some i"
| "task_of (Permit_timeout i t1) = Some i"
| "task_of (Has_server i) = Some i"
| "task_of (Served_at i now) = Some i"
| "task_of (Cancels i now) = Some i"
| "task_of (Controller now) = None"
| "task_of New_window = None"

text \<open>The section an event lets task \<open>i\<close> run in the phase it is in, if that can happen at all.\<close>

fun section_for :: "nat \<Rightarrow> shedder_event \<Rightarrow> shed_phase \<Rightarrow> shed_server \<Rightarrow> (shed_phase \<times> shed_server) option" where
  "section_for i (Starts j now t0 t1) (Created rq) sv = Some (handle_start i now t0 t1 rq sv)"
| "section_for i (Has_permit j) (Deciding rq t0) sv =
     (if woken i (ad_sem (sv_admission sv)) then Some (proceed i rq (on_admission (admit_woken i) sv)) else None)"
| "section_for i (Permit_timeout j t1) (Deciding rq t0) sv = Some (handle_timeout i t0 t1 rq sv)"
| "section_for i (Has_server j) (Queueing rq) sv =
     (let b = backend_of (rq_report rq) sv in
      if woken i (be_sem (pools sv b)) then Some (Serving rq, on_pool b (backend_woken i) sv) else None)"
| "section_for i (Served_at j now) (Serving rq) sv = Some (handle_end now rq sv)"
| "section_for i (Cancels j now) (Created rq) sv = Some (Never_ran rq, sv)"
| "section_for i (Cancels j now) (Deciding rq t0) sv = Some (Dropped_deciding rq, on_admission (stop_waiting i) sv)"
| "section_for i (Cancels j now) (Queueing rq) sv = Some (drop_queued i rq sv)"
| "section_for i (Cancels j now) (Serving rq) sv = Some (handle_end now rq sv)"
| "section_for i _ _ sv = None"

definition harness :: "(rat \<Rightarrow> rat) \<Rightarrow> shedder_event \<Rightarrow> shed_server \<Rightarrow> shed_server" where
  "harness rt e sv = (case e of
     Controller now \<Rightarrow> on_admission (\<lambda>a. a\<lparr>limiter := map_option (update_limit rt now) (limiter a)\<rparr>) sv
   | New_window \<Rightarrow> on_metrics (\<lambda>m. m\<lparr>window := blank_window\<rparr>) sv
   | _ \<Rightarrow> sv)"

definition shedder_step :: "(rat \<Rightarrow> rat) \<Rightarrow> shedder_event \<Rightarrow> shedder_sys \<Rightarrow> shedder_sys" where
  "shedder_step rt e s = (case task_of e of
     None \<Rightarrow> s\<lparr>server := harness rt e (server s)\<rparr>
   | Some i \<Rightarrow> if length (tasks s) \<le> i then s else
       (case section_for i e (tasks s ! i) (server s) of None \<Rightarrow> s | Some res \<Rightarrow> advance i res s))"

definition shedder_run :: "(rat \<Rightarrow> rat) \<Rightarrow> shedder_event list \<Rightarrow> shedder_sys \<Rightarrow> shedder_sys" where
  "shedder_run rt = fold (shedder_step rt)"

definition shedder_start :: "string \<Rightarrow> (int \<times> bool) list \<Rightarrow> shedder_sys" where
  "shedder_start mode traffic =
     \<lparr>server = new_shed_server mode,
      tasks = map (\<lambda>(tier, is_report). Created \<lparr>rq_tier = tier, rq_report = is_report, rq_t0 = 0\<rparr>) traffic\<rparr>"

subsection \<open>The two kinds of semaphore\<close>

text \<open>How a task stands to the admission semaphore, and to the pool object \<open>b\<close>.\<close>

fun adm_stance :: "string \<Rightarrow> shed_phase \<Rightarrow> stance" where
  "adm_stance mode (Deciding rq t) = In_queue"
| "adm_stance mode (Queueing rq) = (if uses_sem mode (rq_tier rq) then Using else Outside)"
| "adm_stance mode (Serving rq) = (if uses_sem mode (rq_tier rq) then Using else Outside)"
| "adm_stance mode _ = Outside"

definition pool_for :: "bool \<Rightarrow> shed_request \<Rightarrow> bool" where
  "pool_for r rq = (if rq_report rq then r else False)"

fun pool_stance :: "bool \<Rightarrow> bool \<Rightarrow> shed_phase \<Rightarrow> stance" where
  "pool_stance r b (Queueing rq) = (if pool_for r rq = b then In_queue else Outside)"
| "pool_stance r b (Serving rq) = (if pool_for r rq = b then Using else Outside)"
| "pool_stance r b _ = Outside"

fun decides_by_sem :: "string \<Rightarrow> shed_phase \<Rightarrow> bool" where
  "decides_by_sem mode (Deciding rq t) = uses_sem mode (rq_tier rq)"
| "decides_by_sem mode _ = True"

definition in_mode :: "string \<Rightarrow> shedder_sys \<Rightarrow> bool" where
  "in_mode mode s = (ad_mode (sv_admission (server s)) = mode \<and> list_all (decides_by_sem mode) (tasks s))"

lemma server_simps [simp]:
  "sv_m (on_metrics f sv) = f (sv_m sv)" "sv_m (on_admission g sv) = sv_m sv" "sv_m (on_pool b h sv) = sv_m sv"
  "sv_admission (on_metrics f sv) = sv_admission sv" "sv_admission (on_admission g sv) = g (sv_admission sv)"
  "sv_admission (on_pool b h sv) = sv_admission sv"
  "pools (on_metrics f sv) = pools sv" "pools (on_admission g sv) = pools sv"
  "pools (on_pool b h sv) = (pools sv)(b := h (pools sv b))"
  "report_at (on_metrics f sv) = report_at sv" "report_at (on_admission g sv) = report_at sv"
  "report_at (on_pool b h sv) = report_at sv"
  by (simp_all add: on_metrics_def on_admission_def on_pool_def)

lemma pool_for_backend: "backend_of (rq_report rq) sv = pool_for (report_at sv) rq"
  by (simp add: backend_of_def pool_for_def)

lemma advance_simps [simp]:
  "server (advance i res s) = snd res" "tasks (advance i res s) = (tasks s)[i := fst res]"
  by (simp_all add: advance_def enter_task_def)

text \<open>What each section does to the two semaphores and to the fixed fields.\<close>

lemma call_backend_move:
  assumes "call_backend i be = (ok, be')"
  shows "task_move i (be_sem be) Outside (if ok then Using else In_queue) (be_sem be')"
  using assms by (auto simp: call_backend_def begin_service_def Let_def split: if_splits)

lemma proceed_facts:
  assumes "proceed i rq sv = (p, sv')" "report_at sv = r"
  shows "sv_admission sv' = sv_admission sv" "report_at sv' = r" "p = Queueing rq \<or> p = Serving rq"
    and "task_move i (be_sem (pools sv b)) Outside (pool_stance r b p) (be_sem (pools sv' b))"
proof -
  obtain ok be where c: "call_backend i (pools sv (pool_for r rq)) = (ok, be)" by fastforce
  have eq: "p = (if ok then Serving rq else Queueing rq)" "sv' = on_pool (pool_for r rq) (\<lambda>_. be) (on_metrics count_accepted sv)"
    using assms c by (auto simp: proceed_def Let_def pool_for_backend)
  then show "sv_admission sv' = sv_admission sv" "report_at sv' = r" "p = Queueing rq \<or> p = Serving rq"
    using assms(2) by auto
  show "task_move i (be_sem (pools sv b)) Outside (pool_stance r b p) (be_sem (pools sv' b))"
    using call_backend_move [OF c] eq by auto
qed

lemma admit_facts:
  assumes "admit i tier t0 t1 a = (d, a')"
  shows "ad_mode a' = ad_mode a"
    and "task_move i (ad_sem a) Outside
      (case d of Admit c \<Rightarrow> if uses_sem (ad_mode a) tier then Using else Outside | Refuse c \<Rightarrow> Outside | Wait_permit \<Rightarrow> In_queue) (ad_sem a')"
    and "d = Wait_permit \<Longrightarrow> uses_sem (ad_mode a) tier"
  using assms by (auto simp: admit_def admit_now_def uses_sem_def split: if_splits option.splits)

lemma handle_start_facts:
  assumes "handle_start i now t0 t1 rq sv = (p, sv')" "ad_mode (sv_admission sv) = mode" "report_at sv = r"
  shows "ad_mode (sv_admission sv') = mode \<and> report_at sv' = r \<and> decides_by_sem mode p \<and>
    task_move i (ad_sem (sv_admission sv)) Outside (adm_stance mode p) (ad_sem (sv_admission sv')) \<and>
    task_move i (be_sem (pools sv b)) Outside (pool_stance r b p) (be_sem (pools sv' b))"
proof -
  obtain d a where ad: "admit i (rq_tier rq) t0 t1 (sv_admission sv) = (d, a)" by fastforce
  note facts = admit_facts [OF ad]
  let ?rq = "rq\<lparr>rq_t0 := now\<rparr>"
  let ?sv = "on_admission (\<lambda>_. a) (on_metrics (count_offered (rq_tier rq)) sv)"
  have sv: "sv_admission ?sv = a" "report_at ?sv = r" "pools ?sv = pools sv" using assms(3) by simp_all
  have res: "(p, sv') = (case d of
      Wait_permit \<Rightarrow> (Deciding ?rq t0, ?sv)
    | Refuse cost \<Rightarrow> (Refused_request ?rq, on_metrics (count_rejected cost) ?sv)
    | Admit cost \<Rightarrow> proceed i ?rq ?sv)"
    using assms(1) ad by (cases d) (simp_all add: handle_start_def Let_def)
  show ?thesis
  proof (cases d)
    case (Admit cost)
    with res have pr: "proceed i ?rq ?sv = (p, sv')" by simp
    from proceed_facts [OF pr sv(2)] sv facts assms(2) Admit show ?thesis by auto
  qed (use res sv facts assms(2) in \<open>auto\<close>)
qed


text \<open>A step is nothing to the tasks and the semaphores, or one task's section.\<close>

definition section_of ::
  "string \<Rightarrow> bool \<Rightarrow> nat \<Rightarrow> shed_phase \<Rightarrow> shed_server \<Rightarrow> shed_phase \<Rightarrow> shed_server \<Rightarrow> bool" where
  "section_of mode r i q sv p sv' =
     (ad_mode (sv_admission sv') = mode \<and> report_at sv' = r \<and> decides_by_sem mode p \<and>
      task_move i (ad_sem (sv_admission sv)) (adm_stance mode q) (adm_stance mode p) (ad_sem (sv_admission sv')) \<and>
      (\<forall>b. task_move i (be_sem (pools sv b)) (pool_stance r b q) (pool_stance r b p) (be_sem (pools sv' b))))"

lemma section_start:
  "ad_mode (sv_admission sv) = mode \<Longrightarrow> report_at sv = r \<Longrightarrow>
   section_of mode r i (Created rq) sv (fst (handle_start i now t0 t1 rq sv)) (snd (handle_start i now t0 t1 rq sv))"
  using handle_start_facts [of i now t0 t1 rq sv] by (cases "handle_start i now t0 t1 rq sv") (simp add: section_of_def)

lemma section_permit:
  assumes "ad_mode (sv_admission sv) = mode" "report_at sv = r" "uses_sem mode (rq_tier rq)" "woken i (ad_sem (sv_admission sv))"
  shows "section_of mode r i (Deciding rq t0) sv (fst (proceed i rq (on_admission (admit_woken i) sv)))
    (snd (proceed i rq (on_admission (admit_woken i) sv)))"
proof -
  obtain p sv' where pr: "proceed i rq (on_admission (admit_woken i) sv) = (p, sv')" by fastforce
  from proceed_facts [OF pr, of r] assms show ?thesis
    by (auto simp: pr section_of_def admit_woken_def admit_now_def)
qed

lemma section_end:
  "ad_mode (sv_admission sv) = mode \<Longrightarrow> report_at sv = r \<Longrightarrow>
   section_of mode r i (Serving rq) sv (fst (handle_end now rq sv)) (snd (handle_end now rq sv))"
  by (simp add: section_of_def handle_end_def Let_def release_admission_def backend_done_def pool_for_backend)

lemma section_drop:
  "ad_mode (sv_admission sv) = mode \<Longrightarrow> report_at sv = r \<Longrightarrow>
   section_of mode r i (Queueing rq) sv (fst (drop_queued i rq sv)) (snd (drop_queued i rq sv))"
  by (simp add: section_of_def drop_queued_def Let_def release_admission_def leave_backend_queue_def pool_for_backend)

lemma section_timeout:
  "ad_mode (sv_admission sv) = mode \<Longrightarrow> report_at sv = r \<Longrightarrow>
   section_of mode r i (Deciding rq t0) sv (fst (handle_timeout i t0 t1 rq sv)) (snd (handle_timeout i t0 t1 rq sv))"
  by (simp add: section_of_def handle_timeout_def stop_waiting_def)

lemma section_server:
  "ad_mode (sv_admission sv) = mode \<Longrightarrow> report_at sv = r \<Longrightarrow> woken i (be_sem (pools sv (pool_for r rq))) \<Longrightarrow>
   section_of mode r i (Queueing rq) sv (Serving rq) (on_pool (pool_for r rq) (backend_woken i) sv)"
  by (simp add: section_of_def backend_woken_def begin_service_def)

lemma section_gone:
  "ad_mode (sv_admission sv) = mode \<Longrightarrow> report_at sv = r \<Longrightarrow> section_of mode r i (Created rq) sv (Never_ran rq) sv"
  "ad_mode (sv_admission sv) = mode \<Longrightarrow> report_at sv = r \<Longrightarrow>
   section_of mode r i (Deciding rq t0) sv (Dropped_deciding rq) (on_admission (stop_waiting i) sv)"
  by (simp_all add: section_of_def stop_waiting_def)

lemmas sections = section_start section_permit section_end section_drop section_timeout section_server section_gone

lemma section_for_ok:
  assumes "section_for i e q sv = Some res" "ad_mode (sv_admission sv) = mode" "report_at sv = r" "decides_by_sem mode q"
  shows "section_of mode r i q sv (fst res) (snd res)"
  using assms(1,4) sections [OF assms(2,3)]
  by (cases e; cases q) (auto simp: Let_def pool_for_backend assms(3) split: if_splits)

lemma harness_frame:
  "ad_mode (sv_admission (harness rt e sv)) = ad_mode (sv_admission sv)" "report_at (harness rt e sv) = report_at sv"
  "ad_sem (sv_admission (harness rt e sv)) = ad_sem (sv_admission sv)" "pools (harness rt e sv) = pools sv"
  by (simp_all add: harness_def split: shedder_event.split)

lemma step_cases:
  assumes "in_mode mode s"
  obtains (idle) sv where "shedder_step rt e s = s\<lparr>server := sv\<rparr>" "sv = server s \<or> task_of e = None \<and> sv = harness rt e (server s)"
  | (runs) i p sv where "i < length (tasks s)" "shedder_step rt e s = enter_task i p sv s"
      "section_for i e (tasks s ! i) (server s) = Some (p, sv)" "decides_by_sem mode (tasks s ! i)"
proof (cases "task_of e")
  case None
  then show thesis by (intro idle) (auto simp: shedder_step_def)
next
  case (Some i)
  show thesis
  proof (cases "i < length (tasks s) \<and> section_for i e (tasks s ! i) (server s) \<noteq> None")
    case True
    then obtain p sv where "section_for i e (tasks s ! i) (server s) = Some (p, sv)" by auto
    moreover have "decides_by_sem mode (tasks s ! i)" using assms True by (simp add: in_mode_def list_all_length)
    ultimately show thesis using Some True by (intro runs) (auto simp: shedder_step_def advance_def)
  next
    case False
    then show thesis using Some by (intro idle [of "server s"]) (auto simp: shedder_step_def not_le split: option.split)
  qed
qed

lemma enter_task_simps [simp]:
  "server (enter_task i p sv s) = sv" "tasks (enter_task i p sv s) = (tasks s)[i := p]"
  by (simp_all add: enter_task_def)

definition shed_proper :: "string \<Rightarrow> bool \<Rightarrow> shedder_sys \<Rightarrow> bool" where
  "shed_proper mode r s = (in_mode mode s \<and> report_at (server s) = r)"

lemma shedder_step_law:
  assumes "shed_proper mode r s"
  shows "shed_proper mode r (shedder_step rt e s) \<and>
    (tasks (shedder_step rt e s) = tasks s \<and>
       ad_sem (sv_admission (server (shedder_step rt e s))) = ad_sem (sv_admission (server s)) \<and>
       pools (server (shedder_step rt e s)) = pools (server s) \<or>
     (\<exists>i p. i < length (tasks s) \<and> tasks (shedder_step rt e s) = (tasks s)[i := p] \<and>
       section_of mode r i (tasks s ! i) (server s) p (server (shedder_step rt e s))))"
proof -
  have mode: "in_mode mode s" and r: "report_at (server s) = r" using assms by (auto simp: shed_proper_def)
  from mode show ?thesis
  proof (cases rule: step_cases [of mode s rt e])
    case (idle sv)
    with mode r show ?thesis by (auto simp: shed_proper_def in_mode_def harness_frame)
  next
    case (runs i p sv)
    have "section_of mode r i (tasks s ! i) (server s) p sv"
      using section_for_ok [OF runs(3) _ r runs(4)] mode by (simp add: in_mode_def)
    with mode runs(1,2) show ?thesis
      by (fastforce simp: shed_proper_def in_mode_def section_of_def list_all_iff dest!: set_update_subset_insert [THEN subsetD])
  qed
qed

interpretation adm: task_semaphore "shedder_step rt" "\<lambda>s. ad_sem (sv_admission (server s))" tasks "adm_stance mode" "shed_proper mode r"
  for rt mode r
proof unfold_locales
  fix s e
  assume s: "shed_proper mode r s"
  from shedder_step_law [OF s, of rt e] show "shed_proper mode r (shedder_step rt e s)" by blast
  from shedder_step_law [OF s, of rt e]
  show "ad_sem (sv_admission (server (shedder_step rt e s))) = ad_sem (sv_admission (server s)) \<and> tasks (shedder_step rt e s) = tasks s \<or>
    (\<exists>i p. i < length (tasks s) \<and> tasks (shedder_step rt e s) = (tasks s)[i := p] \<and>
       task_move i (ad_sem (sv_admission (server s))) (adm_stance mode (tasks s ! i)) (adm_stance mode p)
         (ad_sem (sv_admission (server (shedder_step rt e s)))))"
    unfolding section_of_def by blast
qed

interpretation pool: task_semaphore "shedder_step rt" "\<lambda>s. be_sem (pools (server s) b)" tasks "pool_stance r b" "shed_proper mode r"
  for rt mode r b
proof unfold_locales
  fix s e
  assume s: "shed_proper mode r s"
  from shedder_step_law [OF s, of rt e] show "shed_proper mode r (shedder_step rt e s)" by blast
  from shedder_step_law [OF s, of rt e]
  show "be_sem (pools (server (shedder_step rt e s)) b) = be_sem (pools (server s) b) \<and> tasks (shedder_step rt e s) = tasks s \<or>
    (\<exists>i p. i < length (tasks s) \<and> tasks (shedder_step rt e s) = (tasks s)[i := p] \<and>
       task_move i (be_sem (pools (server s) b)) (pool_stance r b (tasks s ! i)) (pool_stance r b p)
         (be_sem (pools (server (shedder_step rt e s)) b)))"
    unfolding section_of_def by auto
qed

subsection \<open>The books\<close>

fun request_of :: "shed_phase \<Rightarrow> shed_request" where
  "request_of (Created rq) = rq" | "request_of (Deciding rq t) = rq" | "request_of (Queueing rq) = rq"
| "request_of (Serving rq) = rq" | "request_of (Finished rq) = rq" | "request_of (Refused_request rq) = rq"
| "request_of (Dropped_deciding rq) = rq" | "request_of (Dropped_queueing rq) = rq" | "request_of (Never_ran rq) = rq"

fun started :: "shed_phase \<Rightarrow> bool" where
  "started (Created rq) = False" | "started (Never_ran rq) = False" | "started _ = True"

fun inside :: "shed_phase \<Rightarrow> bool" where
  "inside (Queueing rq) = True" | "inside (Serving rq) = True" | "inside _ = False"

fun finished :: "shed_phase \<Rightarrow> bool" where
  "finished (Finished rq) = True" | "finished _ = False"

fun turned_away :: "shed_phase \<Rightarrow> bool" where
  "turned_away (Refused_request rq) = True" | "turned_away _ = False"

fun dropped_queueing :: "shed_phase \<Rightarrow> bool" where
  "dropped_queueing (Dropped_queueing rq) = True" | "dropped_queueing _ = False"

datatype dial = Offered | Tier0_offered | Accepted | Rejected | Latencies | Lat_tier0 | Inflight | In_use bool | Queued bool

text \<open>What a dial of the server shows, and what one task contributes to it.\<close>

fun reading :: "shed_server \<Rightarrow> dial \<Rightarrow> int" where
  "reading sv Offered = offered (sv_m sv)"
| "reading sv Tier0_offered = tier0_offered (sv_m sv)"
| "reading sv Accepted = accepted (sv_m sv)"
| "reading sv Rejected = rejected (sv_m sv)"
| "reading sv Latencies = int (length (latencies (sv_m sv)))"
| "reading sv Lat_tier0 = int (length (lat_tier0 (sv_m sv)))"
| "reading sv Inflight = ad_inflight (sv_admission sv)"
| "reading sv (In_use b) = in_use (pools sv b)"
| "reading sv (Queued b) = queued (pools sv b)"

fun contributes :: "bool \<Rightarrow> dial \<Rightarrow> shed_phase \<Rightarrow> bool" where
  "contributes r Offered p = started p"
| "contributes r Tier0_offered p = (started p \<and> rq_tier (request_of p) = 0)"
| "contributes r Accepted p = (inside p \<or> finished p \<or> dropped_queueing p)"
| "contributes r Rejected p = turned_away p"
| "contributes r Latencies p = finished p"
| "contributes r Lat_tier0 p = (finished p \<and> rq_tier (request_of p) = 0)"
| "contributes r Inflight p = inside p"
| "contributes r (In_use b) p = (pool_stance r b p = Using)"
| "contributes r (Queued b) p = (pool_stance r b p = In_queue \<or> dropped_queueing p \<and> pool_for r (request_of p) = b)"

lemma call_backend_gauges:
  assumes "call_backend i be = (ok, be')"
  shows "in_use be' = in_use be + of_bool ok" "queued be' = queued be + of_bool (\<not> ok)"
  using assms by (auto simp: call_backend_def begin_service_def Let_def split: if_splits)

text \<open>Going on from an admission moves every gauge by what the request then contributes; the in-flight gauge was moved before.\<close>

lemma proceed_books:
  assumes "proceed i rq sv = (p, sv')"
  shows "request_of p = rq" "started p"
    and "g \<noteq> Inflight \<Longrightarrow> g \<noteq> Offered \<Longrightarrow> g \<noteq> Tier0_offered \<Longrightarrow>
      reading sv' g = reading sv g + of_bool (contributes (report_at sv) g p)"
    and "g = Inflight \<or> g = Offered \<or> g = Tier0_offered \<Longrightarrow> reading sv' g = reading sv g"
    and "inside p"
proof -
  obtain ok be where c: "call_backend i (pools sv (pool_for (report_at sv) rq)) = (ok, be)" by fastforce
  have eq: "p = (if ok then Serving rq else Queueing rq)" "sv' = on_pool (pool_for (report_at sv) rq) (\<lambda>_. be) (on_metrics count_accepted sv)"
    using assms c by (auto simp: proceed_def Let_def pool_for_backend)
  then show "request_of p = rq" "started p" "inside p" by auto
  show "g \<noteq> Inflight \<Longrightarrow> g \<noteq> Offered \<Longrightarrow> g \<noteq> Tier0_offered \<Longrightarrow>
      reading sv' g = reading sv g + of_bool (contributes (report_at sv) g p)"
    using eq call_backend_gauges [OF c] by (cases g) (auto simp: count_accepted_def)
  show "g = Inflight \<or> g = Offered \<or> g = Tier0_offered \<Longrightarrow> reading sv' g = reading sv g"
    using eq by (auto simp: count_accepted_def)
qed

lemma admit_gauges:
  "admit i tier t0 t1 a = (d, a') \<Longrightarrow> ad_inflight a' = ad_inflight a + of_bool (\<exists>c. d = Admit c)"
  by (auto simp: admit_def admit_now_def split: if_splits option.splits)

lemma count_offered_gauges:
  "reading (on_metrics (count_offered tier) sv) g = reading sv g + of_bool (g = Offered) + of_bool (g = Tier0_offered \<and> tier = 0)"
  by (cases g) (auto simp: count_offered_def Let_def)

lemma admission_gauges:
  "g \<noteq> Inflight \<Longrightarrow> reading (on_admission f sv) g = reading sv g"
  by (cases g) auto

lemma handle_start_books:
  assumes "handle_start i now t0 t1 rq sv = (p, sv')" "report_at sv = r"
  shows "reading sv' g = reading sv g + of_bool (contributes r g p)"
proof -
  obtain d a where ad: "admit i (rq_tier rq) t0 t1 (sv_admission sv) = (d, a)" by fastforce
  let ?rq = "rq\<lparr>rq_t0 := now\<rparr>"
  let ?sv = "on_admission (\<lambda>_. a) (on_metrics (count_offered (rq_tier rq)) sv)"
  have sv: "reading ?sv g = reading sv g + of_bool (g = Offered) + of_bool (g = Tier0_offered \<and> rq_tier rq = 0)
      + of_bool (g = Inflight \<and> (\<exists>c. d = Admit c))"
    using admit_gauges [OF ad] count_offered_gauges [of "rq_tier rq" sv g] admission_gauges [of g]
    by (cases "g = Inflight") auto
  show ?thesis
  proof (cases d)
    case (Admit cost)
    with assms(1) ad have pr: "proceed i ?rq ?sv = (p, sv')" by (simp add: handle_start_def Let_def)
    show ?thesis using proceed_books(1,2,5) [OF pr] proceed_books(3,4) [OF pr, of g] sv assms(2) Admit by (cases g) simp_all
  next
    case (Refuse cost)
    with assms(1) ad have "p = Refused_request ?rq" "sv' = on_metrics (count_rejected cost) ?sv"
      by (simp_all add: handle_start_def Let_def)
    with sv Refuse show ?thesis by (cases g) (auto simp: count_rejected_def)
  next
    case Wait_permit
    with assms(1) ad have "p = Deciding ?rq t0" "sv' = ?sv" by (simp_all add: handle_start_def Let_def)
    with sv Wait_permit show ?thesis by (cases g) auto
  qed
qed

definition books_move :: "bool \<Rightarrow> dial \<Rightarrow> shed_phase \<Rightarrow> shed_server \<Rightarrow> shed_phase \<times> shed_server \<Rightarrow> bool" where
  "books_move r g q sv res =
     (reading (snd res) g = reading sv g + of_bool (contributes r g (fst res)) - of_bool (contributes r g q))"

lemma start_books: "report_at sv = r \<Longrightarrow> books_move r g (Created rq) sv (handle_start i now t0 t1 rq sv)"
  using handle_start_books [of i now t0 t1 rq sv "fst (handle_start i now t0 t1 rq sv)" "snd (handle_start i now t0 t1 rq sv)" r g]
  by (cases g) (simp_all add: books_move_def)

lemma end_books: "report_at sv = r \<Longrightarrow> books_move r g (Serving rq) sv (handle_end now rq sv)"
  by (cases g) (auto simp: books_move_def handle_end_def Let_def release_admission_def backend_done_def pool_for_backend
      count_latency_def count_goodput_def)

lemma drop_books: "report_at sv = r \<Longrightarrow> books_move r g (Queueing rq) sv (drop_queued i rq sv)"
  by (cases g) (auto simp: books_move_def drop_queued_def Let_def release_admission_def leave_backend_queue_def pool_for_backend)

lemma permit_books:
  assumes "report_at sv = r"
  shows "books_move r g (Deciding rq t) sv (proceed i rq (on_admission (admit_woken i) sv))"
proof -
  obtain p sv' where pr: "proceed i rq (on_admission (admit_woken i) sv) = (p, sv')" by fastforce
  show ?thesis using proceed_books(1,2,5) [OF pr] proceed_books(3,4) [OF pr, of g] assms
    by (cases g) (simp_all add: pr books_move_def admit_woken_def admit_now_def)
qed

lemma timeout_books: "books_move r g (Deciding rq t0) sv (handle_timeout i t0 t1 rq sv)"
  by (cases g) (simp_all add: books_move_def handle_timeout_def count_rejected_def stop_waiting_def)

lemma server_books: "report_at sv = r \<Longrightarrow> books_move r g (Queueing rq) sv (Serving rq, on_pool (pool_for r rq) (backend_woken i) sv)"
  by (cases g) (auto simp: books_move_def backend_woken_def begin_service_def)

lemma gone_books:
  "books_move r g (Created rq) sv (Never_ran rq, sv)"
  "books_move r g (Deciding rq t0) sv (Dropped_deciding rq, on_admission (stop_waiting i) sv)"
  by (cases g; simp add: books_move_def stop_waiting_def)+

lemma section_books:
  assumes "section_for i e q sv = Some res" "report_at sv = r"
  shows "books_move r g q sv res"
  using assms start_books [OF assms(2)] end_books [OF assms(2)] drop_books [OF assms(2)] permit_books [OF assms(2)]
    timeout_books server_books [OF assms(2)] gone_books
  by (cases e; cases q) (auto simp: Let_def pool_for_backend split: if_splits)

definition total_of :: "bool \<Rightarrow> dial \<Rightarrow> shed_phase list \<Rightarrow> int" where
  "total_of r g ts = int (length (filter (contributes r g) ts))"

interpretation shed_books: task_books "shedder_step rt" tasks "shed_proper mode r" "\<lambda>s. reading (server s) g"
    "\<lambda>p. of_bool (contributes r g p)" for rt mode r g
proof unfold_locales
  fix s e
  assume s: "shed_proper mode r s"
  then have mode: "in_mode mode s" and r: "report_at (server s) = r" by (auto simp: shed_proper_def)
  have "tasks (shedder_step rt e s) = tasks s \<and> reading (server (shedder_step rt e s)) g = reading (server s) g \<or>
    (\<exists>i p. i < length (tasks s) \<and> tasks (shedder_step rt e s) = (tasks s)[i := p] \<and>
       reading (server (shedder_step rt e s)) g =
         reading (server s) g + of_bool (contributes r g p) - of_bool (contributes r g (tasks s ! i)))"
    using mode
  proof (cases rule: step_cases [of mode s rt e])
    case (idle sv)
    have "reading sv g = reading (server s) g" using idle
      by (cases g) (auto simp: harness_def split: shedder_event.splits)
    with idle show ?thesis by simp
  next
    case (runs i p sv)
    with section_books [OF runs(3) r, of g] show ?thesis by (auto simp: books_move_def)
  qed
  with shedder_step_law [OF s, of rt e] show "shed_proper mode r (shedder_step rt e s) \<and>
    (tasks (shedder_step rt e s) = tasks s \<and> reading (server (shedder_step rt e s)) g = reading (server s) g \<or>
    (\<exists>i p. i < length (tasks s) \<and> tasks (shedder_step rt e s) = (tasks s)[i := p] \<and>
       reading (server (shedder_step rt e s)) g =
         reading (server s) g + of_bool (contributes r g p) - of_bool (contributes r g (tasks s ! i))))" by blast
qed

lemma shedder_books_run:
  "shed_proper mode r s \<Longrightarrow> reading (server s) g = total_of r g (tasks s) \<Longrightarrow>
   reading (server (shedder_run rt evs s)) g = total_of r g (tasks (shedder_run rt evs s))"
  using shed_books.books_run [of mode r s g rt evs] by (simp add: total_of_def sum_of_bool shedder_run_def)

subsection \<open>What the run shows\<close>

abbreviation shed_end :: "(rat \<Rightarrow> rat) \<Rightarrow> shedder_event list \<Rightarrow> string \<Rightarrow> (int \<times> bool) list \<Rightarrow> shedder_sys" where
  "shed_end rt evs mode traffic \<equiv> shedder_run rt evs (shedder_start mode traffic)"

definition admission_mode :: "string \<Rightarrow> string" where
  "admission_mode mode = (if take 8 mode = ''bulkhead'' then ''none'' else mode)"

lemma start_proper: "shed_proper (admission_mode mode) (mode = ''bulkhead_split'') (shedder_start mode traffic)"
  by (auto simp: shed_proper_def in_mode_def shedder_start_def new_shed_server_def new_admission_def admission_mode_def list_all_iff)

lemma start_outside:
  "p \<in> set (tasks (shedder_start mode traffic)) \<Longrightarrow> adm_stance m p = Outside \<and> pool_stance r b p = Outside \<and> \<not> contributes r g p"
  by (cases g) (auto simp: shedder_start_def)

lemma shedder_books:
  "reading (server (shed_end rt evs mode traffic)) g = total_of (mode = ''bulkhead_split'') g (tasks (shed_end rt evs mode traffic))"
proof (rule shedder_books_run [OF start_proper])
  have "total_of (mode = ''bulkhead_split'') g (tasks (shedder_start mode traffic)) = 0"
    using start_outside [of _ mode traffic _ _ _ g] by (simp add: total_of_def filter_empty_conv)
  moreover have "reading (server (shedder_start mode traffic)) g = 0"
    by (cases g) (simp_all add: shedder_start_def new_shed_server_def new_shed_metrics_def new_admission_def new_backend_def)
  ultimately show "reading (server (shedder_start mode traffic)) g = total_of (mode = ''bulkhead_split'') g (tasks (shedder_start mode traffic))"
    by simp
qed

lemma filter_parts:
  "(\<And>x. P x \<longleftrightarrow> Q x \<or> R x) \<Longrightarrow> (\<And>x. \<not> (Q x \<and> R x)) \<Longrightarrow>
   int (length (filter P xs)) = int (length (filter Q xs)) + int (length (filter R xs))"
  by (induction xs) auto

fun undecided :: "shed_phase \<Rightarrow> bool" where
  "undecided (Deciding rq t) = True" | "undecided (Dropped_deciding rq) = True" | "undecided _ = False"

text \<open>
  C25. In every mode and every interleaving the books of the server balance: every request offered was accepted, refused,
  or is still (or was cancelled while) waiting for a permit; every accepted one has a latency sample, is in flight, or
  was cancelled in a queue; the in-flight gauge counts exactly the requests in a queue or in service; and the queue
  gauge of a backend is too high by the requests cancelled in that queue.
\<close>

theorem shedder_books_balance:
  "let s = shed_end rt evs mode traffic; m = sv_m (server s); r = (mode = ''bulkhead_split'');
       count = (\<lambda>P. int (length (filter P (tasks s)))) in
   offered m = accepted m + rejected m + count undecided \<and>
   accepted m = int (length (latencies m)) + ad_inflight (sv_admission (server s)) + count dropped_queueing \<and>
   ad_inflight (sv_admission (server s)) = count inside \<and>
   in_use (pools (server s) b) = count (\<lambda>p. pool_stance r b p = Using) \<and>
   queued (pools (server s) b) = count (\<lambda>p. pool_stance r b p = In_queue)
     + count (\<lambda>p. dropped_queueing p \<and> pool_for r (request_of p) = b)"
proof -
  let ?s = "shed_end rt evs mode traffic" and ?r = "mode = ''bulkhead_split''"
  let ?count = "\<lambda>P. int (length (filter P (tasks ?s)))"
  have g: "reading (server ?s) g = ?count (contributes ?r g)" for g
    using shedder_books [of rt evs mode traffic g] by (simp add: total_of_def)
  have "?count started = ?count (\<lambda>p. inside p \<or> finished p \<or> dropped_queueing p) + ?count (\<lambda>p. turned_away p \<or> undecided p)"
    by (rule filter_parts; case_tac x; simp)
  moreover have "?count (\<lambda>p. turned_away p \<or> undecided p) = ?count turned_away + ?count undecided"
    by (rule filter_parts; case_tac x; simp)
  moreover have "?count (\<lambda>p. inside p \<or> finished p \<or> dropped_queueing p) = ?count (\<lambda>p. inside p \<or> finished p) + ?count dropped_queueing"
    by (rule filter_parts; case_tac x; simp)
  moreover have "?count (\<lambda>p. inside p \<or> finished p) = ?count finished + ?count inside"
    by (rule filter_parts; case_tac x; simp)
  moreover have "?count (contributes ?r (Queued b)) = ?count (\<lambda>p. pool_stance ?r b p = In_queue)
      + ?count (\<lambda>p. dropped_queueing p \<and> pool_for ?r (request_of p) = b)"
    by (rule filter_parts; case_tac x; simp)
  moreover have "?count (contributes ?r Offered) = ?count started" "?count (contributes ?r Accepted) = ?count (\<lambda>p. inside p \<or> finished p \<or> dropped_queueing p)"
    "?count (contributes ?r Rejected) = ?count turned_away" "?count (contributes ?r Latencies) = ?count finished"
    "?count (contributes ?r Inflight) = ?count inside" "?count (contributes ?r (In_use b)) = ?count (\<lambda>p. pool_stance ?r b p = Using)"
    by (simp_all cong: filter_cong)
  ultimately show ?thesis
    using g [of Offered] g [of Accepted] g [of Rejected] g [of Latencies] g [of Inflight] g [of "In_use b"] g [of "Queued b"]
    unfolding Let_def by (simp only: reading.simps) linarith
qed

subsection \<open>The limits\<close>

lemma new_limit_range: "2 \<le> new_limit rt lmt base median" "new_limit rt lmt base median \<le> 64"
  by (simp_all add: new_limit_def Let_def)

lemma update_limit_range: "gl_limit g \<le> 64 \<Longrightarrow> gl_limit (update_limit rt now g) \<le> 64"
  using new_limit_range(2) by (auto simp: update_limit_def Let_def split: list.split prod.split)

definition tier_of :: "shed_phase \<Rightarrow> int" where
  "tier_of p = rq_tier (request_of p)"

text \<open>The condition under which a request gets in.\<close>

definition may_enter :: "string \<Rightarrow> int \<Rightarrow> admission \<Rightarrow> bool" where
  "may_enter mode tier a = (uses_sem mode tier \<or> mode = ''none'' \<or>
     mode = ''adaptive'' \<and> (\<exists>g. limiter a = Some g \<and> of_int (ad_inflight a) < gl_limit g) \<or>
     mode = ''priority'' \<and> 0 < tier \<and> ad_inflight a < 10)"

lemma admit_may_enter: "admit i tier t0 t1 a = (Admit c, a') \<Longrightarrow> may_enter (ad_mode a) tier a"
  by (auto simp: admit_def may_enter_def uses_sem_def split: if_splits option.splits)

definition same_limiter :: "shed_server \<Rightarrow> shed_server \<Rightarrow> bool" where
  "same_limiter sv sv' = (map_option gl_limit (limiter (sv_admission sv')) = map_option gl_limit (limiter (sv_admission sv)))"

lemma proceed_request:
  "proceed i rq sv = (p, sv') \<Longrightarrow> request_of p = rq \<and> sv_admission sv' = sv_admission sv"
  by (auto simp: proceed_def Let_def split: prod.splits if_splits)

lemma handle_start_enters:
  assumes "handle_start i now t0 t1 rq sv = (p, sv')"
  shows "tier_of p = rq_tier rq \<and> same_limiter sv sv' \<and> (inside p \<longrightarrow> may_enter (ad_mode (sv_admission sv)) (rq_tier rq) (sv_admission sv))"
proof -
  obtain d a where ad: "admit i (rq_tier rq) t0 t1 (sv_admission sv) = (d, a)" by fastforce
  then have lim: "limiter a = limiter (sv_admission sv)" by (auto simp: admit_def admit_now_def split: if_splits option.splits)
  show ?thesis
  proof (cases d)
    case (Admit c)
    with assms ad have "proceed i (rq\<lparr>rq_t0 := now\<rparr>) (on_admission (\<lambda>_. a) (on_metrics (count_offered (rq_tier rq)) sv)) = (p, sv')"
      by (simp add: handle_start_def Let_def)
    from proceed_request [OF this] show ?thesis using lim admit_may_enter [of i "rq_tier rq" t0 t1 "sv_admission sv" c a] ad Admit
      by (simp add: tier_of_def same_limiter_def)
  qed (use assms ad lim in \<open>auto simp: handle_start_def Let_def tier_of_def same_limiter_def\<close>)
qed

lemma section_enters:
  assumes "section_for i e q sv = Some (p, sv')" "decides_by_sem (ad_mode (sv_admission sv)) q"
  shows "tier_of p = tier_of q \<and> same_limiter sv sv' \<and>
    (inside p \<longrightarrow> inside q \<or> may_enter (ad_mode (sv_admission sv)) (tier_of q) (sv_admission sv))"
proof (cases q)
  case (Created rq)
  with assms show ?thesis by (cases e) (auto simp: tier_of_def same_limiter_def dest!: handle_start_enters)
next
  case (Deciding rq t)
  with assms show ?thesis
    by (cases e) (auto simp: tier_of_def same_limiter_def handle_timeout_def stop_waiting_def admit_woken_def admit_now_def may_enter_def
        dest!: proceed_request split: if_splits)
next
  case (Queueing rq)
  with assms show ?thesis
    by (cases e) (auto simp: tier_of_def same_limiter_def Let_def drop_queued_def release_admission_def split: if_splits)
next
  case (Serving rq)
  with assms show ?thesis
    by (cases e) (auto simp: tier_of_def same_limiter_def Let_def handle_end_def release_admission_def observe_rtt_def
        option.map_comp comp_def)
qed (use assms in \<open>cases e; simp\<close>)+

text \<open>At most ten low-tier requests in priority mode; at most 64 in adaptive mode.\<close>

definition low_inside :: "shed_phase \<Rightarrow> bool" where
  "low_inside p = (inside p \<and> 0 < tier_of p)"

definition limit_inv :: "string \<Rightarrow> shedder_sys \<Rightarrow> bool" where
  "limit_inv mode s \<longleftrightarrow> ad_inflight (sv_admission (server s)) = int (length (filter inside (tasks s))) \<and>
     (mode = ''priority'' \<longrightarrow> length (filter low_inside (tasks s)) \<le> 10) \<and>
     (mode = ''adaptive'' \<longrightarrow> ad_inflight (sv_admission (server s)) \<le> 64) \<and>
     (\<forall>g. limiter (sv_admission (server s)) = Some g \<longrightarrow> gl_limit g \<le> 64)"

lemma limit_step:
  assumes inv: "limit_inv mode s" and pr: "shed_proper mode r s"
    and books: "ad_inflight (sv_admission (server (shedder_step rt e s))) = int (length (filter inside (tasks (shedder_step rt e s))))"
  shows "limit_inv mode (shedder_step rt e s)"
proof -
  have mode: "in_mode mode s" and am: "ad_mode (sv_admission (server s)) = mode" using pr by (auto simp: shed_proper_def in_mode_def)
  from mode show ?thesis
  proof (cases rule: step_cases [of mode s rt e])
    case (idle sv)
    with inv books show ?thesis
      by (auto simp: limit_inv_def harness_def update_limit_range split: shedder_event.splits)
  next
    case (runs i p sv)
    note ent = section_enters [OF runs(3), unfolded am, OF runs(4)]
    have low: "length (filter low_inside ((tasks s)[i := p])) + of_bool (low_inside (tasks s ! i)) =
        length (filter low_inside (tasks s)) + of_bool (low_inside p)"
      by (rule length_filter_update [OF runs(1)])
    have ins: "length (filter inside ((tasks s)[i := p])) + of_bool (inside (tasks s ! i)) =
        length (filter inside (tasks s)) + of_bool (inside p)"
      by (rule length_filter_update [OF runs(1)])
    have le: "length (filter low_inside (tasks s)) \<le> length (filter inside (tasks s))"
    proof -
      have "filter low_inside (tasks s) = filter low_inside (filter inside (tasks s))" by (auto simp: low_inside_def intro: filter_cong)
      then show ?thesis by (metis length_filter_le)
    qed
    have "length (filter low_inside ((tasks s)[i := p])) \<le> 10" if m: "mode = ''priority''"
    proof (cases "low_inside p \<and> \<not> low_inside (tasks s ! i)")
      case True
      with ent m have "ad_inflight (sv_admission (server s)) < 10" by (auto simp: low_inside_def may_enter_def uses_sem_def)
      with inv low True le show ?thesis by (simp add: limit_inv_def)
    next
      case False
      with low inv m show ?thesis
        by (cases "low_inside p"; cases "low_inside (tasks s ! i)") (simp_all add: limit_inv_def)
    qed
    moreover have "int (length (filter inside ((tasks s)[i := p]))) \<le> 64" if m: "mode = ''adaptive''"
    proof (cases "inside p \<and> \<not> inside (tasks s ! i)")
      case True
      with ent m obtain g where "limiter (sv_admission (server s)) = Some g" "of_int (ad_inflight (sv_admission (server s))) < gl_limit g"
        by (auto simp: may_enter_def uses_sem_def)
      with inv have "(of_int (ad_inflight (sv_admission (server s))) :: rat) < of_int 64" by (auto simp: limit_inv_def)
      then have "ad_inflight (sv_admission (server s)) < 64" by (subst (asm) of_int_less_iff)
      with inv ins True show ?thesis by (simp add: limit_inv_def)
    next
      case False
      with ins inv m show ?thesis by (cases "inside p"; cases "inside (tasks s ! i)") (simp_all add: limit_inv_def)
    qed
    moreover have "\<forall>g. limiter (sv_admission sv) = Some g \<longrightarrow> gl_limit g \<le> 64"
      using ent inv by (cases "limiter (sv_admission (server s))"; cases "limiter (sv_admission sv)")
        (simp_all add: same_limiter_def limit_inv_def)
    ultimately show ?thesis using books runs(2) by (simp add: limit_inv_def)
  qed
qed

lemma limit_run: "limit_inv (admission_mode mode) (shed_end rt evs mode traffic)"
proof (induction evs rule: rev_induct)
  case Nil
  have "filter inside (tasks (shedder_start mode traffic)) = []" "filter low_inside (tasks (shedder_start mode traffic)) = []"
    by (auto simp: filter_empty_conv shedder_start_def low_inside_def)
  then show ?case
    by (auto simp: shedder_run_def limit_inv_def shedder_start_def new_shed_server_def new_admission_def new_grad_limit_def)
next
  case (snoc e evs)
  have run: "shed_end rt (evs @ [e]) mode traffic = shedder_step rt e (shed_end rt evs mode traffic)" by (simp add: shedder_run_def)
  have "shed_proper (admission_mode mode) (mode = ''bulkhead_split'') (shed_end rt evs mode traffic)"
    using adm.proper_run [OF start_proper] by (simp add: shedder_run_def)
  from limit_step [OF snoc.IH this] show ?case
    using shedder_books [of rt "evs @ [e]" mode traffic Inflight] by (simp add: run total_of_def cong: filter_cong)
qed


definition inflight_bound :: "string \<Rightarrow> int option" where
  "inflight_bound mode = (let m = admission_mode mode in
     if m = ''none'' then None else if m = ''adaptive'' then Some 64 else if m = ''priority'' then Some 22 else Some 12)"

definition workers_of :: "string \<Rightarrow> bool \<Rightarrow> int" where
  "workers_of mode b = (if b then 2 else if mode = ''bulkhead_split'' then 6 else 8)"

lemma users_within:
  fixes rt evs mode traffic
  defines "s \<equiv> shed_end rt evs mode traffic"
  shows "count_stance (adm_stance (admission_mode mode)) Using (tasks s) \<le> 12"
    and "int (count_stance (pool_stance (mode = ''bulkhead_split'') b) Using (tasks s)) \<le> workers_of mode b"
proof -
  note pr = start_proper [of mode traffic]
  show "count_stance (adm_stance (admission_mode mode)) Using (tasks s) \<le> 12"
    unfolding s_def shedder_run_def
    by (rule adm.users_bounded(1) [OF pr])
      (use start_outside in \<open>auto simp: shedder_start_def new_shed_server_def new_admission_def\<close>)
  have "count_stance (pool_stance (mode = ''bulkhead_split'') b) Using (tasks s) \<le> nat (workers_of mode b)"
    unfolding s_def shedder_run_def
    by (rule pool.users_bounded(1) [OF pr])
      (use start_outside in \<open>auto simp: shedder_start_def new_shed_server_def new_backend_def workers_of_def\<close>)
  then show "int (count_stance (pool_stance (mode = ''bulkhead_split'') b) Using (tasks s)) \<le> workers_of mode b"
    by (cases b; cases "mode = ''bulkhead_split''"; simp add: workers_of_def)
qed

text \<open>
  In every interleaving a backend never serves more requests than it has workers, and the requests in flight stay
  within 12 in the static mode, 64 in the adaptive mode, and 22 in the priority mode.
\<close>

theorem admission_limits:
  "let s = shed_end rt evs mode traffic in
   in_use (pools (server s) b) \<le> workers_of mode b \<and>
   (case inflight_bound mode of None \<Rightarrow> True | Some k \<Rightarrow> ad_inflight (sv_admission (server s)) \<le> k)"
proof -
  let ?s = "shed_end rt evs mode traffic" and ?m = "admission_mode mode"
  have "in_use (pools (server ?s) b) \<le> workers_of mode b"
    using shedder_books [of rt evs mode traffic "In_use b"] users_within(2) [where rt = rt and evs = evs and mode = mode and traffic = traffic and b = b]
    by (simp add: total_of_def count_stance_def cong: filter_cong)
  moreover have infl: "ad_inflight (sv_admission (server ?s)) = int (length (filter inside (tasks ?s)))"
    using limit_run [of mode rt evs traffic] by (simp add: limit_inv_def)
  have using_le: "length (filter (\<lambda>p. adm_stance ?m p = Using) (tasks ?s)) \<le> 12"
    using users_within(1) [where rt = rt and evs = evs and mode = mode and traffic = traffic] by (simp add: count_stance_def)
  have "case inflight_bound mode of None \<Rightarrow> True | Some k \<Rightarrow> ad_inflight (sv_admission (server ?s)) \<le> k"
  proof -
    consider "?m = ''none''" | "?m = ''adaptive''" | "?m = ''priority''" | "?m \<noteq> ''none''" "?m \<noteq> ''adaptive''" "?m \<noteq> ''priority''" by blast
    then show ?thesis
    proof cases
      case 2
      then show ?thesis using limit_run [of mode rt evs traffic] by (simp add: inflight_bound_def limit_inv_def)
    next
      case 3
      have "int (length (filter inside (tasks ?s))) =
          int (length (filter low_inside (tasks ?s))) + int (length (filter (\<lambda>p. adm_stance ?m p = Using) (tasks ?s)))"
        by (rule filter_parts; case_tac x; simp add: low_inside_def tier_of_def uses_sem_def 3)
      then show ?thesis using 3 infl using_le limit_run [of mode rt evs traffic]
        by (simp add: inflight_bound_def limit_inv_def)
    next
      case 4
      have "filter inside (tasks ?s) = filter (\<lambda>p. adm_stance ?m p = Using) (tasks ?s)"
        by (rule filter_cong [OF refl]; case_tac x; simp add: uses_sem_def 4)
      then show ?thesis using 4 infl using_le by (simp add: inflight_bound_def)
    qed (simp add: inflight_bound_def)
  qed
  ultimately show ?thesis by (simp add: Let_def)
qed

text \<open>The 22 are reached: ten low-tier requests hold no permit, so twelve of tier 0 still find all permits free.\<close>

lemma priority_exceeds_limit:
  "ad_inflight (sv_admission (server (shed_end (\<lambda>x. x) (map (\<lambda>i. Starts i 0 0 0) [0..<22]) ''priority''
     (replicate 10 (3, False) @ replicate 12 (0, False))))) = 22"
  by code_simp

text \<open>
  A request that is cancelled during its service time is counted as served: the cancellation is swallowed by the
  \<^verbatim>\<open>return\<close> in the \<^verbatim>\<open>finally\<close> block, so it leaves a latency sample, and counts as goodput if it is quick enough.
\<close>

theorem cancelled_in_service_counts:
  assumes "i < length (tasks s)" "tasks s ! i = Serving rq"
  shows "let s' = shedder_step rt (Cancels i now) s; lat = fl (now - rq_t0 rq) in
    s' = shedder_step rt (Served_at i now) s \<and>
    latencies (sv_m (server s')) = latencies (sv_m (server s)) @ [lat] \<and>
    goodput (sv_m (server s')) = goodput (sv_m (server s)) + of_bool (lat \<le> 1 / 2)"
  using assms
  by (simp add: shedder_step_def handle_end_def Let_def count_latency_def count_goodput_def)

theorem cancelled_in_service_counts_witness:
  "goodput (sv_m (server (shedder_step (\<lambda>x. x) (Cancels 0 0) (shed_end (\<lambda>x. x) [Starts 0 0 0 0] ''static'' [(0, False)])))) = 1"
proof -
  let ?s = "shed_end (\<lambda>x. x) [Starts 0 0 0 0] ''static'' [(0, False)]" and ?rq = "\<lparr>rq_tier = 0, rq_report = False, rq_t0 = 0\<rparr>"
  have t: "tasks ?s = [Serving ?rq]" and g: "goodput (sv_m (server ?s)) = 0" and f: "fl (0 - 0) = 0" by code_simp+
  have "0 < length (tasks ?s)" "tasks ?s ! 0 = Serving ?rq" using t by simp_all
  note c = cancelled_in_service_counts [OF this, of "\<lambda>x. x" 0, unfolded Let_def, THEN conjunct2, THEN conjunct2]
  show ?thesis unfolding c using g f by simp
qed

subsection \<open>The bulkhead\<close>

text \<open>What the checkout requests can notice: their pool object and their own phases.\<close>

definition checkout_view :: "shedder_sys \<Rightarrow> backend \<times> shed_phase option list" where
  "checkout_view s = (pools (server s) False, map (\<lambda>p. if rq_report (request_of p) then None else Some p) (tasks s))"

definition is_report_event :: "(int \<times> bool) list \<Rightarrow> shedder_event \<Rightarrow> bool" where
  "is_report_event traffic e = (case task_of e of None \<Rightarrow> False | Some i \<Rightarrow> i < length traffic \<and> snd (traffic ! i))"

definition split_ok :: "(int \<times> bool) list \<Rightarrow> shedder_sys \<Rightarrow> bool" where
  "split_ok traffic s \<longleftrightarrow> shed_proper ''none'' True s \<and> map (rq_report \<circ> request_of) (tasks s) = map snd traffic"

lemma proceed_report: "proceed i rq sv = (p, sv') \<Longrightarrow> request_of p = rq"
  using proceed_request by blast

lemma section_request:
  "section_for i e q sv = Some (p, sv') \<Longrightarrow> rq_report (request_of p) = rq_report (request_of q)"
  by (cases e; cases q) (auto simp: handle_start_def handle_timeout_def handle_end_def drop_queued_def Let_def
      dest!: proceed_report split: if_splits prod.splits decision.splits)

text \<open>A section of a report leaves the checkout pool alone; one of a checkout depends on nothing else.\<close>

lemma report_section:
  assumes "section_for i e q sv = Some (p, sv')" "report_at sv" "rq_report (request_of q)"
  shows "pools sv' False = pools sv False"
  using assms by (cases e; cases q) (auto simp: handle_start_def handle_timeout_def handle_end_def drop_queued_def proceed_def Let_def
      backend_of_def split: if_splits prod.splits decision.splits)

lemma none_admits: "ad_mode a = ''none'' \<Longrightarrow> admit i tier t0 t1 a = (Admit 0, admit_now a)"
  by (simp add: admit_def)

lemma checkout_section:
  assumes "section_for i e q sv = Some (p, sv')" "\<not> rq_report (request_of q)" "decides_by_sem ''none'' q"
    and "ad_mode (sv_admission sv) = ''none''" "ad_mode (sv_admission sw) = ''none''" "pools sv False = pools sw False"
  shows "\<exists>sw'. section_for i e q sw = Some (p, sw') \<and> pools sw' False = pools sv' False"
  using assms by (cases e; cases q) (auto simp: handle_start_def none_admits handle_end_def drop_queued_def proceed_def Let_def
      backend_of_def uses_sem_def split: if_splits prod.splits)

lemma checkout_idle:
  assumes "section_for i e q sv = None" "\<not> rq_report (request_of q)" "decides_by_sem ''none'' q"
    and "ad_mode (sv_admission sv) = ''none''" "ad_mode (sv_admission sw) = ''none''" "pools sv False = pools sw False"
  shows "section_for i e q sw = None"
  using assms checkout_section [of i e q sw _ _ sv] by (cases "section_for i e q sw") auto

lemma split_step:
  assumes "split_ok traffic s"
  shows "split_ok traffic (shedder_step rt e s)"
proof -
  have pr: "shed_proper ''none'' True s" using assms by (simp add: split_ok_def)
  then have mode: "in_mode ''none'' s" by (simp add: shed_proper_def)
  have "map (rq_report \<circ> request_of) (tasks (shedder_step rt e s)) = map (rq_report \<circ> request_of) (tasks s)"
    using mode
  proof (cases rule: step_cases [of "''none''" s rt e])
    case (runs i p sv)
    then show ?thesis using section_request [OF runs(3)]
      by (simp add: map_update) (metis comp_apply list_update_id length_map nth_map)
  qed simp
  with shedder_step_law [OF pr, of rt e] assms show ?thesis by (simp add: split_ok_def)
qed

lemma split_report: "split_ok traffic s \<Longrightarrow> i < length (tasks s) \<Longrightarrow> rq_report (request_of (tasks s ! i)) = snd (traffic ! i)"
  by (metis (mono_tags, lifting) comp_apply length_map nth_map split_ok_def)

lemma split_length: "split_ok traffic s \<Longrightarrow> length (tasks s) = length traffic"
  unfolding split_ok_def by (metis length_map)

lemma view_update:
  "i < length (tasks s) \<Longrightarrow> rq_report (request_of p) \<Longrightarrow> rq_report (request_of (tasks s ! i)) \<Longrightarrow>
   map (\<lambda>p. if rq_report (request_of p) then None else Some p) ((tasks s)[i := p]) =
   map (\<lambda>p. if rq_report (request_of p) then None else Some p) (tasks s)"
  by (simp add: map_update) (metis (mono_tags, lifting) list_update_id length_map nth_map)

lemma view_report:
  assumes "split_ok traffic s" "is_report_event traffic e"
  shows "checkout_view (shedder_step rt e s) = checkout_view s"
proof -
  obtain i where i: "task_of e = Some i" "i < length traffic" "snd (traffic ! i)"
    using assms(2) by (auto simp: is_report_event_def split: option.splits)
  have len: "i < length (tasks s)" using split_length [OF assms(1)] i by simp
  have rep: "rq_report (request_of (tasks s ! i))" using split_report [OF assms(1) len] i by simp
  have r: "report_at (server s)" using assms(1) by (simp add: split_ok_def shed_proper_def)
  show ?thesis
  proof (cases "section_for i e (tasks s ! i) (server s)")
    case None
    then show ?thesis using i len by (simp add: shedder_step_def)
  next
    case (Some res)
    obtain p sv where res: "res = (p, sv)" by (cases res)
    have "rq_report (request_of p)" using section_request [OF Some [unfolded res]] rep by simp
    then show ?thesis using i len Some res rep report_section [OF Some [unfolded res] r rep] view_update [OF len]
      by (simp add: shedder_step_def checkout_view_def)
  qed
qed

lemma view_checkout:
  assumes "split_ok traffic s" "split_ok traffic w" "checkout_view s = checkout_view w" "\<not> is_report_event traffic e"
  shows "checkout_view (shedder_step rt e s) = checkout_view (shedder_step rt e w)"
proof (cases "task_of e")
  case None
  then show ?thesis using assms(3) by (simp add: shedder_step_def checkout_view_def harness_frame)
next
  case (Some i)
  have len: "length (tasks s) = length traffic" "length (tasks w) = length traffic" using assms(1,2) by (simp_all add: split_length)
  show ?thesis
  proof (cases "i < length traffic")
    case False
    then show ?thesis using Some len assms(3) by (simp add: shedder_step_def)
  next
    case True
    have chk: "\<not> rq_report (request_of (tasks s ! i))" "\<not> rq_report (request_of (tasks w ! i))"
      using split_report [OF assms(1)] split_report [OF assms(2)] len True Some assms(4)
      by (simp_all add: is_report_event_def)
    have "snd (checkout_view s) ! i = snd (checkout_view w) ! i" using assms(3) by simp
    then have q: "tasks w ! i = tasks s ! i" using chk len True by (simp add: checkout_view_def)
    have pF: "pools (server s) False = pools (server w) False" using assms(3) by (simp add: checkout_view_def)
    have mode: "ad_mode (sv_admission (server s)) = ''none''" "ad_mode (sv_admission (server w)) = ''none''"
      "decides_by_sem ''none'' (tasks s ! i)"
      using assms(1,2) len True by (auto simp: split_ok_def shed_proper_def in_mode_def list_all_length)
    show ?thesis
    proof (cases "section_for i e (tasks s ! i) (server s)")
      case None
      with checkout_idle [OF None chk(1) mode(3,1,2) pF] Some len True q assms(3) show ?thesis
        by (simp add: shedder_step_def)
    next
      case res: (Some res)
      obtain p sv where p: "section_for i e (tasks s ! i) (server s) = Some (p, sv)" using res by (cases res) simp
      from checkout_section [OF p chk(1) mode(3,1,2) pF] obtain sw where
        sw: "section_for i e (tasks s ! i) (server w) = Some (p, sw)" "pools sw False = pools sv False" by blast
      with p Some len True q assms(3) show ?thesis by (simp add: shedder_step_def checkout_view_def map_update)
    qed
  qed
qed

text \<open>
  C24. The bulkhead isolates: with split pools, whatever the reports do (arrive, queue, finish, are cancelled), the
  checkout pool and every checkout request go through the same states as if no report had ever run.
\<close>

theorem bulkhead_isolates:
  "checkout_view (shed_end rt evs ''bulkhead_split'' traffic) =
   checkout_view (shed_end rt (filter (\<lambda>e. \<not> is_report_event traffic e) evs) ''bulkhead_split'' traffic)"
proof -
  have "split_ok traffic s \<Longrightarrow> split_ok traffic w \<Longrightarrow> checkout_view s = checkout_view w \<Longrightarrow>
      checkout_view (shedder_run rt evs s) = checkout_view (shedder_run rt (filter (\<lambda>e. \<not> is_report_event traffic e) evs) w)" for s w
  proof (induction evs arbitrary: s w)
    case (Cons e evs)
    show ?case
    proof (cases "is_report_event traffic e")
      case True
      with Cons.IH [OF split_step [OF Cons.prems(1), of rt e] Cons.prems(2)] view_report [OF Cons.prems(1) True, of rt] Cons.prems(3)
      show ?thesis by (simp add: shedder_run_def)
    next
      case False
      with Cons.IH [OF split_step [OF Cons.prems(1), of rt e] split_step [OF Cons.prems(2), of rt e]] view_checkout [OF Cons.prems False, of rt]
      show ?thesis by (simp add: shedder_run_def)
    qed
  qed (simp add: shedder_run_def)
  moreover have "split_ok traffic (shedder_start ''bulkhead_split'' traffic)"
    using start_proper [of "''bulkhead_split''" traffic]
    by (simp add: split_ok_def admission_mode_def) (simp add: shedder_start_def comp_def case_prod_beta)
  ultimately show ?thesis by blast
qed

end
