(* ===== verification/Sec_Pkce.thy ===== *)
theory Sec_Pkce
  imports Lab_Prelude
begin

text \<open>
  \<^verbatim>\<open>pkce_flow.py\<close>: the authorization server with its four switches and the redemption of codes by anyone, in any
  order. Codes, tokens and state values come from a random generator and are inputs; \<open>s256\<close> is the base64url form
  of SHA-256, of which nothing is assumed. A raised exception is the left side of the sum.
\<close>

subsection \<open>The authorization server\<close>

record code_rec =
  challenge :: "string option"
  challenge_method :: string
  redirect_uri :: string
  issued_at :: int
  used :: bool

record auth_server =
  pkce_mode :: string
  code_ttl :: int
  single_use :: bool
  redirect_match :: string
  registered_redirect :: string
  codes :: "string \<rightharpoonup> code_rec"
  as_now :: int

definition new_auth_server :: "string \<Rightarrow> int \<Rightarrow> bool \<Rightarrow> string \<Rightarrow> auth_server" where
  "new_auth_server mode ttl single match =
     \<lparr>pkce_mode = mode, code_ttl = ttl, single_use = single, redirect_match = match,
      registered_redirect = ''https://app.test/cb'', codes = Map.empty, as_now = 0\<rparr>"

definition authorize :: "string \<Rightarrow> string \<Rightarrow> string \<Rightarrow> string option \<Rightarrow> string \<Rightarrow> auth_server \<Rightarrow> (string \<times> string) \<times> auth_server" where
  "authorize code redirect state ch meth a =
     ((code, state), a\<lparr>codes := (codes a)(code \<mapsto>
        \<lparr>challenge = ch, challenge_method = meth, redirect_uri = redirect, issued_at = as_now a, used = False\<rparr>)\<rparr>)"

text \<open>\<^verbatim>\<open>None.startswith\<close> raises.\<close>

definition redirect_ok :: "auth_server \<Rightarrow> string option \<Rightarrow> string + bool" where
  "redirect_ok a presented =
     (if redirect_match a = ''exact'' then Inr (presented = Some (registered_redirect a))
      else case presented of None \<Rightarrow> Inl ''AttributeError''
        | Some u \<Rightarrow> Inr (take (length (registered_redirect a)) u = registered_redirect a))"

definition pkce_demanded :: "auth_server \<Rightarrow> code_rec \<Rightarrow> bool" where
  "pkce_demanded a r = (pkce_mode a = ''required'' \<or>
     pkce_mode a = ''optional'' \<and> (case challenge r of None \<Rightarrow> False | Some c \<Rightarrow> c \<noteq> []))"

definition pkce_passes :: "(string \<Rightarrow> string) \<Rightarrow> code_rec \<Rightarrow> string option \<Rightarrow> bool" where
  "pkce_passes s256 r verifier = (case verifier of None \<Rightarrow> False
     | Some v \<Rightarrow> v \<noteq> [] \<and> Some (if challenge_method r = ''S256'' then s256 v else v) = challenge r)"

definition token :: "(string \<Rightarrow> string) \<Rightarrow> string \<Rightarrow> string \<Rightarrow> string option \<Rightarrow> string option \<Rightarrow> auth_server \<Rightarrow>
    (string + int \<times> string option) \<times> auth_server" where
  "token s256 fresh code verifier redirect a =
     (case codes a code of
        None \<Rightarrow> (Inr (400, None), a)
      | Some r \<Rightarrow>
          if code_ttl a < as_now a - issued_at r then (Inr (400, None), a)
          else if used r \<and> single_use a then (Inr (400, None), a)
          else (case redirect_ok a redirect of
              Inl e \<Rightarrow> (Inl e, a)
            | Inr False \<Rightarrow> (Inr (400, None), a)
            | Inr True \<Rightarrow>
                if pkce_demanded a r \<and> \<not> pkce_passes s256 r verifier then (Inr (400, None), a)
                else (Inr (200, Some (''access-token-'' @ fresh)), a\<lparr>codes := (codes a)(code \<mapsto> r\<lparr>used := True\<rparr>)\<rparr>)))"

subsection \<open>Anyone talks to it\<close>

datatype as_event =
    Authorize string string string "string option" string
  | Redeem string "string option" "string option" string
  | Clock int

text \<open>What each event was answered: a redeemed code with its outcome.\<close>

type_synonym as_log = "(string \<times> (string + int \<times> string option)) list"

fun as_step :: "(string \<Rightarrow> string) \<Rightarrow> as_event \<Rightarrow> auth_server \<times> as_log \<Rightarrow> auth_server \<times> as_log" where
  "as_step s256 (Authorize code redirect state ch meth) (a, lg) = (snd (authorize code redirect state ch meth a), lg)"
| "as_step s256 (Redeem code verifier redirect fresh) (a, lg) =
     (let (out, a') = token s256 fresh code verifier redirect a in (a', lg @ [(code, out)]))"
| "as_step s256 (Clock t) (a, lg) = (a\<lparr>as_now := t\<rparr>, lg)"

definition as_run :: "(string \<Rightarrow> string) \<Rightarrow> as_event list \<Rightarrow> auth_server \<Rightarrow> auth_server \<times> as_log" where
  "as_run s256 evs a = fold (as_step s256) evs (a, [])"

fun is_token :: "string + int \<times> string option \<Rightarrow> bool" where
  "is_token (Inr (s, Some t)) = True" | "is_token _ = False"

definition issued :: "string \<Rightarrow> as_log \<Rightarrow> nat" where
  "issued code lg = length (filter (\<lambda>(c, out). c = code \<and> is_token out) lg)"

fun authorizes :: "string \<Rightarrow> as_event \<Rightarrow> bool" where
  "authorizes code (Authorize c u st ch m) = (c = code)" | "authorizes code _ = False"

fun redeems_knowing :: "(string \<Rightarrow> string) \<Rightarrow> string \<Rightarrow> string \<Rightarrow> as_event \<Rightarrow> bool" where
  "redeems_knowing s256 code ch (Redeem c (Some v) u f) = (c = code \<and> s256 v = ch)"
| "redeems_knowing s256 code ch _ = False"

subsection \<open>What one redemption does\<close>

lemma issued_simps [simp]:
  "issued code [] = 0"
  "issued code (lg @ [(c, out)]) = issued code lg + of_bool (c = code \<and> is_token out)"
  by (simp_all add: issued_def)

text \<open>A token is issued, and the code marked, or the server is as before.\<close>

lemma token_cases:
  assumes "token s256 fresh code verifier redirect a = (out, a')"
  shows "a' = a \<and> \<not> is_token out \<or>
    (\<exists>r. codes a code = Some r \<and> as_now a - issued_at r \<le> code_ttl a \<and> (used r \<longrightarrow> \<not> single_use a) \<and>
       redirect_ok a redirect = Inr True \<and> (pkce_demanded a r \<longrightarrow> pkce_passes s256 r verifier) \<and>
       a' = a\<lparr>codes := (codes a)(code \<mapsto> r\<lparr>used := True\<rparr>)\<rparr> \<and> out = Inr (200, Some (''access-token-'' @ fresh)))"
  using assms by (auto simp: token_def split: option.splits if_splits sum.splits bool.splits)

lemma as_run_snoc: "as_run s256 (evs @ [e]) a = as_step s256 e (as_run s256 evs a)"
  by (simp add: as_run_def)

text \<open>Settings never change; a code's record changes only when it is authorized again or redeemed.\<close>

lemma as_step_frame:
  assumes "as_step s256 e (a, lg) = (a', lg')"
  shows "pkce_mode a' = pkce_mode a \<and> code_ttl a' = code_ttl a \<and> single_use a' = single_use a \<and>
    redirect_match a' = redirect_match a \<and> registered_redirect a' = registered_redirect a"
proof (cases e)
  case (Redeem code verifier redirect fresh)
  obtain out b where t: "token s256 fresh code verifier redirect a = (out, b)" by fastforce
  with Redeem assms token_cases [OF t] show ?thesis by auto
qed (use assms in \<open>auto simp: authorize_def\<close>)

lemma as_run_frame:
  "pkce_mode (fst (as_run s256 evs a)) = pkce_mode a \<and> code_ttl (fst (as_run s256 evs a)) = code_ttl a \<and>
   single_use (fst (as_run s256 evs a)) = single_use a \<and> redirect_match (fst (as_run s256 evs a)) = redirect_match a \<and>
   registered_redirect (fst (as_run s256 evs a)) = registered_redirect a"
proof (induction evs rule: rev_induct)
  case (snoc e evs)
  obtain b lg where b: "as_run s256 evs a = (b, lg)" by fastforce
  obtain c lg' where c: "as_step s256 e (b, lg) = (c, lg')" by fastforce
  from as_step_frame [OF c] snoc b c show ?case by (simp add: as_run_snoc)
qed (simp add: as_run_def)

text \<open>
  C29. A single-use code is worth at most as many tokens as the times it was issued, whoever redeems it, with
  whatever verifier and redirect, in any order and at any time.
\<close>

theorem single_use_codes:
  "issued code (snd (as_run s256 evs (new_auth_server mode ttl True match))) \<le> length (filter (authorizes code) evs)"
proof -
  let ?a = "new_auth_server mode ttl True match"
  have "issued code (snd (as_run s256 evs ?a)) + of_bool (case codes (fst (as_run s256 evs ?a)) code of Some r \<Rightarrow> \<not> used r | None \<Rightarrow> False)
      \<le> length (filter (authorizes code) evs)"
  proof (induction evs rule: rev_induct)
    case (snoc e evs)
    obtain b lg where b: "as_run s256 evs ?a = (b, lg)" by fastforce
    have su: "single_use b" using as_run_frame [of s256 evs ?a] b by (simp add: new_auth_server_def)
    show ?case
    proof (cases e)
      case (Redeem c verifier redirect fresh)
      obtain out b' where t: "token s256 fresh c verifier redirect b = (out, b')" by fastforce
      from token_cases [OF t] snoc b su Redeem t show ?thesis
        by (auto simp: as_run_snoc split: option.splits if_splits)
    qed (use snoc b in \<open>auto simp: as_run_snoc authorize_def split: option.splits if_splits\<close>)
  qed (simp add: as_run_def new_auth_server_def)
  then show ?thesis by linarith
qed

text \<open>
  C27. PKCE: where it is required, or the client asked for it and it is at least optional, a code issued with an S256
  challenge yields no token to anyone who does not present a verifier with that hash; nothing else needs to be secret,
  and no other switch matters.
\<close>

theorem pkce_protects_code:
  assumes "mode = ''required'' \<or> mode = ''optional'' \<and> ch \<noteq> []"
    and "filter (authorizes code) evs = []" and "filter (redeems_knowing s256 code ch) evs = []"
    and "pkce_mode a = mode"
  shows "issued code (snd (as_run s256 evs (snd (authorize code uri state (Some ch) ''S256'' a)))) = 0"
proof -
  let ?a = "snd (authorize code uri state (Some ch) ''S256'' a)"
  have "issued code (snd (as_run s256 evs ?a)) = 0 \<and>
      (\<exists>r. codes (fst (as_run s256 evs ?a)) code = Some r \<and> challenge r = Some ch \<and> challenge_method r = ''S256'')"
    using assms(2,3)
  proof (induction evs rule: rev_induct)
    case Nil
    show ?case by (simp add: as_run_def authorize_def)
  next
    case (snoc e evs)
    obtain b lg where b: "as_run s256 evs ?a = (b, lg)" by fastforce
    have inv: "issued code lg = 0" "\<exists>r. codes b code = Some r \<and> challenge r = Some ch \<and> challenge_method r = ''S256''"
      using snoc b by (auto split: if_splits)
    have md: "pkce_mode b = mode" using as_run_frame [of s256 evs ?a] b assms(4) by (simp add: authorize_def)
    show ?case
    proof (cases e)
      case (Redeem c verifier redirect fresh)
      obtain out b' where t: "token s256 fresh c verifier redirect b = (out, b')" by fastforce
      show ?thesis
      proof (cases "c = code")
        case True
        with Redeem snoc.prems(2) have "\<not> pkce_passes s256 r verifier"
          if "challenge r = Some ch" "challenge_method r = ''S256''" for r
          using that by (cases verifier) (auto simp: pkce_passes_def split: if_splits)
        moreover have "pkce_demanded b r" if "challenge r = Some ch" for r
          using that md assms(1) by (auto simp: pkce_demanded_def)
        ultimately have "b' = b \<and> \<not> is_token out"
          using token_cases [OF t] inv(2) True by auto
        with inv b Redeem t show ?thesis by (auto simp: as_run_snoc)
      next
        case False
        with token_cases [OF t] inv b Redeem t show ?thesis by (auto simp: as_run_snoc)
      qed
    qed (use inv b snoc.prems in \<open>auto simp: as_run_snoc authorize_def split: if_splits\<close>)
  qed
  then show ?thesis by simp
qed

theorem pkce_protects_code_witness:
  "issued ''c'' (snd (as_run (\<lambda>v. ''#'' @ v) [Redeem ''c'' (Some ''guess'') (Some ''https://app.test/cb'') ''t'']
     (snd (authorize ''c'' ''https://app.test/cb'' ''xyz'' (Some ''#secret'') ''S256'' (new_auth_server ''required'' 60 True ''exact''))))) = 0"
  by (rule pkce_protects_code [where mode = "''required''"]) (simp_all add: new_auth_server_def)

text \<open>
  The redirect URI a code was sent to is stored and never looked at: whatever URIs the codes were authorized for,
  every later redemption is answered alike. So with exact matching too, a code that \<^verbatim>\<open>/authorize\<close> delivered to a
  foreign address is redeemed by presenting the registered one.
\<close>

definition forget_redirect :: "auth_server \<Rightarrow> auth_server" where
  "forget_redirect a = a\<lparr>codes := (\<lambda>c. map_option (\<lambda>r. r\<lparr>redirect_uri := []\<rparr>) (codes a c))\<rparr>"

fun forget_event :: "as_event \<Rightarrow> as_event" where
  "forget_event (Authorize c u st ch m) = Authorize c [] st ch m" | "forget_event e = e"

lemma forget_simps [simp]:
  "codes (forget_redirect a) code = map_option (\<lambda>r. r\<lparr>redirect_uri := []\<rparr>) (codes a code)"
  "redirect_ok (forget_redirect a) u = redirect_ok a u"
  "pkce_demanded (forget_redirect a) (r\<lparr>redirect_uri := v\<rparr>) = pkce_demanded a r"
  "pkce_passes s256 (r\<lparr>redirect_uri := v\<rparr>) w = pkce_passes s256 r w"
  "code_ttl (forget_redirect a) = code_ttl a" "single_use (forget_redirect a) = single_use a"
  "as_now (forget_redirect a) = as_now a"
  by (simp_all add: forget_redirect_def redirect_ok_def pkce_demanded_def pkce_passes_def split: option.split)

lemma forget_mark:
  "forget_redirect a\<lparr>codes := (codes (forget_redirect a))(code \<mapsto> r\<lparr>redirect_uri := [], used := True\<rparr>)\<rparr> =
     forget_redirect (a\<lparr>codes := (codes a)(code \<mapsto> r\<lparr>used := True\<rparr>)\<rparr>)"
  by (simp add: forget_redirect_def fun_eq_iff)

lemma forget_token:
  "token s256 fresh code verifier redirect (forget_redirect a) =
     (let (out, a') = token s256 fresh code verifier redirect a in (out, forget_redirect a'))"
proof (cases "codes a code")
  case (Some r)
  then show ?thesis using forget_mark [of a code r]
    by (cases "redirect_ok a redirect"; cases "redirect_ok a redirect = Inr True") (auto simp: token_def Let_def)
qed (simp add: token_def)

theorem authorized_redirect_ignored:
  "snd (as_run s256 evs a) = snd (as_run s256 (map forget_event evs) (forget_redirect a))"
proof -
  have "as_run s256 (map forget_event evs) (forget_redirect a) =
      (forget_redirect (fst (as_run s256 evs a)), snd (as_run s256 evs a))"
  proof (induction evs rule: rev_induct)
    case (snoc e evs)
    obtain b lg where b: "as_run s256 evs a = (b, lg)" by fastforce
    have "as_step s256 (forget_event e) (forget_redirect b, lg) =
        (forget_redirect (fst (as_step s256 e (b, lg))), snd (as_step s256 e (b, lg)))"
    proof (cases e)
      case (Redeem c verifier redirect fresh)
      then show ?thesis by (simp add: forget_token case_prod_beta Let_def)
    qed (auto simp: authorize_def forget_redirect_def fun_eq_iff)
    with snoc b show ?case by (simp add: as_run_snoc)
  qed (simp add: as_run_def)
  then show ?thesis by simp
qed

lemma stolen_redirect_redeemed:
  "issued ''c'' (snd (as_run s256
     [Authorize ''c'' ''https://attacker.test'' ''xyz'' (Some (s256 ''mine'')) ''S256'',
      Redeem ''c'' (Some ''mine'') (Some ''https://app.test/cb'') ''t'']
     (new_auth_server ''required'' 60 True ''exact''))) = 1"
  by (simp add: as_run_def authorize_def token_def new_auth_server_def redirect_ok_def pkce_demanded_def pkce_passes_def issued_def)

end
