(* ===== verification/Sec_Access.thy ===== *)
theory Sec_Access
  imports Lab_Prelude
begin

text \<open>
  Access control of the security layer: the invoice store and its three handlers (\<^verbatim>\<open>idor_enumeration.py\<close>), the attempt
  limiters of the credential-stuffing simulation (part C of \<^verbatim>\<open>crypto_ratelimit.py\<close>), and the revocation of a signed
  token (part C of \<^verbatim>\<open>jwt_demo.py\<close>).
\<close>

subsection \<open>Invoices\<close>

record invoice =
  invoice_id :: int
  owner_id :: int
  amount_cents :: int

record invoice_store =
  invoices :: "int \<rightharpoonup> invoice"
  request_user :: "int option"

definition new_invoice_store :: invoice_store where
  "new_invoice_store = \<lparr>invoices = (\<lambda>i. if 1 \<le> i \<and> i \<le> 1500
       then Some \<lparr>invoice_id = i, owner_id = (i - 1) mod 3 + 1, amount_cents = i * 100\<rparr> else None), request_user = None\<rparr>"

definition get_invoice :: "int \<Rightarrow> invoice_store \<Rightarrow> invoice option" where
  "get_invoice i s = invoices s i"

definition get_scoped :: "int \<Rightarrow> int \<Rightarrow> invoice_store \<Rightarrow> invoice option" where
  "get_scoped i owner s = (case invoices s i of None \<Rightarrow> None | Some r \<Rightarrow> if owner_id r = owner then Some r else None)"

definition set_request_user :: "int \<Rightarrow> invoice_store \<Rightarrow> invoice_store" where
  "set_request_user owner s = s\<lparr>request_user := Some owner\<rparr>"

definition get_rls :: "int \<Rightarrow> invoice_store \<Rightarrow> invoice option" where
  "get_rls i s = (case (invoices s i, request_user s) of
     (Some r, Some u) \<Rightarrow> if owner_id r = u then Some r else None | _ \<Rightarrow> None)"

type_synonym invoice_handler = "invoice_store \<Rightarrow> int \<Rightarrow> int \<Rightarrow> (int \<times> invoice option) \<times> invoice_store"

definition respond_with :: "invoice option \<Rightarrow> int \<times> invoice option" where
  "respond_with row = (case row of None \<Rightarrow> (404, None) | Some r \<Rightarrow> (200, Some r))"

definition handler_vulnerable :: invoice_handler where
  "handler_vulnerable s caller i = (respond_with (get_invoice i s), s)"

definition handler_fixed_query :: invoice_handler where
  "handler_fixed_query s caller i = (respond_with (get_scoped i caller s), s)"

definition handler_fixed_rls :: invoice_handler where
  "handler_fixed_rls s caller i = (let s1 = set_request_user caller s in (respond_with (get_rls i s1), s1))"

fun enumeration_ids :: "nat \<Rightarrow> int \<Rightarrow> int list" where
  "enumeration_ids 0 x = []"
| "enumeration_ids (Suc n) x = (let y = (1103515245 * x + 12345) mod 2 ^ 31 in (1 + y mod 1500) # enumeration_ids n y)"

record idor_counts =
  leaked :: nat
  ok_own :: nat
  not_found :: nat

definition count_response :: "int \<Rightarrow> int \<times> invoice option \<Rightarrow> idor_counts \<Rightarrow> idor_counts" where
  "count_response caller resp c = (case resp of
     (status, row) \<Rightarrow> if status = 200 then
        (case row of None \<Rightarrow> c
         | Some r \<Rightarrow> if owner_id r \<noteq> caller then c\<lparr>leaked := leaked c + 1\<rparr> else c\<lparr>ok_own := ok_own c + 1\<rparr>)
      else c\<lparr>not_found := not_found c + 1\<rparr>)"

fun idor_loop :: "invoice_handler \<Rightarrow> int \<Rightarrow> int list \<Rightarrow> invoice_store \<times> idor_counts \<Rightarrow> invoice_store \<times> idor_counts" where
  "idor_loop h caller [] sc = sc"
| "idor_loop h caller (i # is) (s, c) =
     (let (resp, s') = h s caller i in idor_loop h caller is (s', count_response caller resp c))"

text \<open>\<^verbatim>\<open>run\<close>: the counts of the enumeration and the status a row of another owner gets.\<close>

definition idor_run :: "invoice_handler \<Rightarrow> idor_counts \<times> int" where
  "idor_run h = (let (s, c) = idor_loop h 1 (enumeration_ids 1000 1) (new_invoice_store, \<lparr>leaked = 0, ok_own = 0, not_found = 0\<rparr>)
     in (c, fst (fst (h s 1 2))))"

text \<open>The store without the rows of other owners.\<close>

definition own_rows :: "int \<Rightarrow> invoice_store \<Rightarrow> invoice_store" where
  "own_rows caller s = s\<lparr>invoices := (\<lambda>i. case invoices s i of None \<Rightarrow> None | Some r \<Rightarrow> if owner_id r = caller then Some r else None)\<rparr>"

fun answers_to :: "invoice_handler \<Rightarrow> int \<Rightarrow> int list \<Rightarrow> invoice_store \<Rightarrow> (int \<times> invoice option) list" where
  "answers_to h caller [] s = []"
| "answers_to h caller (i # is) s = (let (resp, s') = h s caller i in resp # answers_to h caller is s')"

lemma scoped_own: "respond_with (get_scoped i caller (own_rows caller s)) = respond_with (get_scoped i caller s)"
  by (simp add: get_scoped_def own_rows_def split: option.split)

lemma rls_scoped: "get_rls i (set_request_user caller s) = get_scoped i caller s"
  by (simp add: get_rls_def get_scoped_def set_request_user_def split: option.split)

lemma set_user_frame [simp]: "get_scoped i caller (set_request_user u s) = get_scoped i caller s"
  by (simp add: get_scoped_def set_request_user_def)

lemma answers_fixed:
  "answers_to handler_fixed_query caller is s = map (\<lambda>i. respond_with (get_scoped i caller s)) is"
  "answers_to handler_fixed_rls caller is s = map (\<lambda>i. respond_with (get_scoped i caller s)) is"
  by (induction "is" arbitrary: s) (simp_all add: handler_fixed_query_def handler_fixed_rls_def Let_def rls_scoped)

text \<open>
  C28. Both fixes are non-interfering: for any store and any sequence of requests a caller sees exactly what it would see
  if the rows of the others did not exist, so not even their existence leaks, and the two fixes answer alike.
\<close>

theorem fixes_do_not_interfere:
  "answers_to handler_fixed_query caller is s = answers_to handler_fixed_query caller is (own_rows caller s) \<and>
   answers_to handler_fixed_rls caller is s = answers_to handler_fixed_query caller is s"
  by (simp add: answers_fixed scoped_own)

text \<open>The vulnerable handler leaks every row of another owner it is asked for.\<close>

lemma vulnerable_leaks:
  "leaked (snd (idor_loop handler_vulnerable caller is (s, c))) =
     leaked c + length (filter (\<lambda>i. case invoices s i of None \<Rightarrow> False | Some r \<Rightarrow> owner_id r \<noteq> caller) is)"
  by (induction "is" arbitrary: c)
    (auto simp: handler_vulnerable_def get_invoice_def respond_with_def count_response_def split: option.splits)

subsection \<open>Attempt limiters\<close>

datatype rl_key = Account | Account_worker nat | Source_ip nat

definition rl_key_of :: "string \<Rightarrow> nat \<Rightarrow> nat \<Rightarrow> nat \<Rightarrow> rl_key" where
  "rl_key_of mode workers source_ips i =
     (if mode = ''redis_token_bucket'' then Account
      else if mode = ''inproc'' then Account_worker (i mod workers) else Source_ip (i mod source_ips))"

record rl_state =
  buckets :: "rl_key \<rightharpoonup> nat"
  rl_allowed :: nat
  attempts_to_success :: "nat option"

definition rl_new :: rl_state where
  "rl_new = \<lparr>buckets = Map.empty, rl_allowed = 0, attempts_to_success = None\<rparr>"

text \<open>\<^verbatim>\<open>setdefault\<close>, the test and the decrement.\<close>

definition take_token :: "nat \<Rightarrow> rl_key \<Rightarrow> rl_state \<Rightarrow> bool \<times> rl_state" where
  "take_token capacity k s =
     (let n = (case buckets s k of None \<Rightarrow> capacity | Some n \<Rightarrow> n) in
      (0 < n, s\<lparr>buckets := (buckets s)(k \<mapsto> (if 0 < n then n - 1 else n))\<rparr>))"

definition rl_attempt :: "string \<Rightarrow> nat \<Rightarrow> nat \<Rightarrow> nat \<Rightarrow> nat \<Rightarrow> nat \<Rightarrow> rl_state \<Rightarrow> rl_state" where
  "rl_attempt mode workers source_ips capacity correct_at i s =
     (let (permitted, s1) = (if mode = ''off'' then (True, s) else take_token capacity (rl_key_of mode workers source_ips i) s) in
      if permitted then
        let s2 = s1\<lparr>rl_allowed := rl_allowed s1 + 1\<rparr> in
        if i = correct_at then s2\<lparr>attempts_to_success := Some (rl_allowed s2)\<rparr> else s2
      else s1)"

text \<open>
  The whole loop. \<^verbatim>\<open>i % source_ips\<close> is computed first, in every mode; a mode the simulation does not know leaves
  \<^verbatim>\<open>permitted\<close> unbound.
\<close>

definition rl_run :: "string \<Rightarrow> nat \<Rightarrow> nat \<Rightarrow> string + nat \<times> nat option" where
  "rl_run mode workers source_ips =
     (if source_ips = 0 \<or> mode = ''inproc'' \<and> workers = 0 then Inl ''ZeroDivisionError''
      else if mode \<in> {''off'', ''redis_token_bucket'', ''inproc'', ''ip_keyed''}
      then let s = fold (rl_attempt mode workers source_ips 10 500) [1..<1001] rl_new in Inr (rl_allowed s, attempts_to_success s)
      else Inl ''UnboundLocalError'')"

definition earlier :: "string \<Rightarrow> nat \<Rightarrow> nat \<Rightarrow> nat list \<Rightarrow> rl_key \<Rightarrow> nat" where
  "earlier mode w ips is k = length (filter (\<lambda>i. rl_key_of mode w ips i = k) is)"

lemma limiter_fold:
  assumes "mode \<noteq> ''off''"
  shows "let s = fold (rl_attempt mode w ips cap c) is rl_new in
    (\<forall>k. (case buckets s k of None \<Rightarrow> cap | Some n \<Rightarrow> n) = cap - earlier mode w ips is k) \<and>
    rl_allowed s = (\<Sum>k\<in>rl_key_of mode w ips ` set is. min cap (earlier mode w ips is k))"
proof (induction "is" rule: rev_induct)
  case Nil
  show ?case by (simp add: rl_new_def earlier_def)
next
  case (snoc i "is")
  let ?s = "fold (rl_attempt mode w ips cap c) is rl_new" and ?k = "rl_key_of mode w ips i"
  let ?K = "rl_key_of mode w ips ` set is"
  have IH: "(case buckets ?s k of None \<Rightarrow> cap | Some n \<Rightarrow> n) = cap - earlier mode w ips is k"
    "rl_allowed ?s = (\<Sum>k\<in>?K. min cap (earlier mode w ips is k))" for k
    using snoc by (simp_all add: Let_def)
  have e: "earlier mode w ips (is @ [i]) k = earlier mode w ips is k + of_bool (k = ?k)" for k
    by (simp add: earlier_def)
  have zero: "earlier mode w ips is ?k = 0" if "?k \<notin> ?K" using that by (simp add: earlier_def filter_empty_conv) (metis imageI)
  have "(\<Sum>k\<in>insert ?k ?K. min cap (earlier mode w ips (is @ [i]) k)) =
      (\<Sum>k\<in>insert ?k ?K. min cap (earlier mode w ips is k)) + of_bool (earlier mode w ips is ?k < cap)"
    by (subst (1 2) sum.insert_remove) (auto simp: e intro!: sum.cong)
  also have "(\<Sum>k\<in>insert ?k ?K. min cap (earlier mode w ips is k)) = (\<Sum>k\<in>?K. min cap (earlier mode w ips is k))"
    using zero by (cases "?k \<in> ?K") (simp_all add: insert_absorb)
  finally have sum: "(\<Sum>k\<in>insert ?k ?K. min cap (earlier mode w ips (is @ [i]) k)) =
      rl_allowed ?s + of_bool (earlier mode w ips is ?k < cap)" by (simp add: IH(2))
  have bk: "(case buckets (rl_attempt mode w ips cap c i ?s) k of None \<Rightarrow> cap | Some n \<Rightarrow> n) =
      cap - earlier mode w ips (is @ [i]) k" for k
    using assms IH(1) [of k] IH(1) [of ?k]
    by (cases "k = ?k") (auto simp: rl_attempt_def take_token_def Let_def e split: option.splits)
  have al: "rl_allowed (rl_attempt mode w ips cap c i ?s) = rl_allowed ?s + of_bool (earlier mode w ips is ?k < cap)"
    using assms IH(1) [of ?k] by (auto simp: rl_attempt_def take_token_def Let_def split: option.splits)
  show ?case using bk al sum by (simp add: Let_def)
qed

text \<open>When the password is reached: iff the limiter still lets attempt 500 through.\<close>

lemma limiter_hit:
  assumes "mode \<noteq> ''off''" "c \<notin> set js"
  shows "attempts_to_success (fold (rl_attempt mode w ips cap c) (is @ c # js) rl_new) \<noteq> None \<longleftrightarrow>
    attempts_to_success (fold (rl_attempt mode w ips cap c) is rl_new) \<noteq> None \<or> earlier mode w ips is (rl_key_of mode w ips c) < cap"
proof -
  have other: "attempts_to_success (fold (rl_attempt mode w ips cap c) js s) = attempts_to_success s" if "c \<notin> set js" for s js
    using that by (induction js arbitrary: s) (auto simp: rl_attempt_def take_token_def Let_def split: if_splits prod.splits)
  let ?s = "fold (rl_attempt mode w ips cap c) is rl_new"
  have "(case buckets ?s (rl_key_of mode w ips c) of None \<Rightarrow> cap | Some n \<Rightarrow> n) = cap - earlier mode w ips is (rl_key_of mode w ips c)"
    using limiter_fold [OF assms(1), of w ips cap c "is"] by (simp add: Let_def)
  then show ?thesis using assms
    by (auto simp: other rl_attempt_def take_token_def Let_def split: option.splits)
qed

text \<open>With the attempts dealt round robin over \<open>n\<close> keys, attempt \<open>i + 1\<close> finds \<open>i div n\<close> earlier ones on its key.\<close>

lemma round_robin_earlier:
  assumes "0 < n" "\<And>i j. rl_key_of mode w ips i = rl_key_of mode w ips j \<longleftrightarrow> i mod n = j mod n"
  shows "earlier mode w ips [1..<Suc i] (rl_key_of mode w ips (Suc i)) = i div n"
proof -
  have iff: "j mod n = Suc i mod n \<longleftrightarrow> n dvd Suc i - j" if "j \<le> i" for j
    using that by (metis le_SucI mod_eq_dvd_iff_nat)
  have "{j. 1 \<le> j \<and> j \<le> i \<and> j mod n = Suc i mod n} = (\<lambda>k. Suc i - k * n) ` {1..i div n}"
  proof (intro equalityI subsetI)
    fix j assume j: "j \<in> {j. 1 \<le> j \<and> j \<le> i \<and> j mod n = Suc i mod n}"
    then obtain k where k: "Suc i - j = n * k" using iff [of j] by (auto simp: dvd_def)
    with j have "0 < k" "k * n \<le> i" by (auto simp: mult.commute intro: Nat.gr0I)
    moreover have "j = Suc i - k * n" using j k by (metis (lifting) diff_diff_cancel le_SucI mem_Collect_eq mult.commute)
    ultimately show "j \<in> (\<lambda>k. Suc i - k * n) ` {1..i div n}"
      using assms(1) by (auto simp: less_eq_div_iff_mult_less_eq)
  next
    fix j assume "j \<in> (\<lambda>k. Suc i - k * n) ` {1..i div n}"
    then obtain k where k: "1 \<le> k" "k * n \<le> i" "j = Suc i - k * n"
      using assms(1) by (auto simp: less_eq_div_iff_mult_less_eq)
    have "1 * 1 \<le> k * n" by (rule mult_le_mono) (use k assms(1) in auto)
    with k have "1 \<le> j" "j \<le> i" by linarith+
    moreover have "n dvd Suc i - j" using k \<open>1 * 1 \<le> k * n\<close> by (simp add: Suc_diff_le)
    ultimately show "j \<in> {j. 1 \<le> j \<and> j \<le> i \<and> j mod n = Suc i mod n}" using iff [of j] by simp
  qed
  moreover have "inj_on (\<lambda>k. Suc i - k * n) {1..i div n}"
  proof (rule inj_onI)
    fix k k' assume kk: "k \<in> {1..i div n}" "k' \<in> {1..i div n}" "Suc i - k * n = Suc i - k' * n"
    with assms(1) have "k * n \<le> i" "k' * n \<le> i" by (auto simp: less_eq_div_iff_mult_less_eq)
    with kk have "k * n = k' * n" by linarith
    with assms(1) show "k = k'" by simp
  qed
  ultimately have "card {j. 1 \<le> j \<and> j \<le> i \<and> j mod n = Suc i mod n} = i div n" by (simp add: card_image)
  moreover have "earlier mode w ips [1..<Suc i] (rl_key_of mode w ips (Suc i)) =
      card {j. 1 \<le> j \<and> j \<le> i \<and> j mod n = Suc i mod n}"
    unfolding earlier_def
    by (subst distinct_card [symmetric]) (auto simp: assms(2) intro: arg_cong [where f = card])
  ultimately show ?thesis by simp
qed

lemma round_robin_run:
  assumes "mode \<noteq> ''off''" "0 < n" "\<And>i j. rl_key_of mode w ips i = rl_key_of mode w ips j \<longleftrightarrow> i mod n = j mod n"
    and "0 < c"
  shows "let s = fold (rl_attempt mode w ips cap c) [1..<Suc m] rl_new in
    rl_allowed s = min m (cap * n) \<and> attempts_to_success s = (if c \<le> m \<and> c \<le> cap * n then Some c else None)"
proof (induction m)
  case 0
  show ?case using assms(4) by (simp add: rl_new_def)
next
  case (Suc m)
  let ?s = "fold (rl_attempt mode w ips cap c) [1..<Suc m] rl_new"
  have "(case buckets ?s (rl_key_of mode w ips (Suc m)) of None \<Rightarrow> cap | Some n \<Rightarrow> n) = cap - m div n"
    using limiter_fold [OF assms(1), of w ips cap c "[1..<Suc m]"] round_robin_earlier [OF assms(2,3), of m]
    by (simp add: Let_def del: upt_Suc)
  then have free: "0 < (case buckets ?s (rl_key_of mode w ips (Suc m)) of None \<Rightarrow> cap | Some n \<Rightarrow> n) \<longleftrightarrow> m < cap * n"
    using assms(2) by (simp add: div_less_iff_less_mult)
  have IH: "rl_allowed ?s = min m (cap * n)"
    "attempts_to_success ?s = (if c \<le> m \<and> c \<le> cap * n then Some c else None)"
    using Suc by (simp_all only: Let_def)
  have "fold (rl_attempt mode w ips cap c) [1..<Suc (Suc m)] rl_new = rl_attempt mode w ips cap c (Suc m) ?s" by simp
  moreover have "rl_allowed (rl_attempt mode w ips cap c (Suc m) ?s) = rl_allowed ?s + of_bool (m < cap * n)"
    "attempts_to_success (rl_attempt mode w ips cap c (Suc m) ?s) =
      (if Suc m = c \<and> m < cap * n then Some (rl_allowed ?s + 1) else attempts_to_success ?s)"
    using assms(1) free by (simp_all add: rl_attempt_def take_token_def Let_def del: upt_Suc)
  moreover have "min m (cap * n) + of_bool (m < cap * n) = min (Suc m) (cap * n)" by simp
  ultimately show ?case by (simp only: Let_def IH) (auto simp: min_def le_Suc_eq simp del: upt_Suc)
qed

text \<open>
  What the configured limit of 10 is worth: a shared bucket allows 10 of the 1000 attempts and \<open>n\<close> in-process workers
  or \<open>n\<close> addresses \<open>10 n\<close>, in full; the password at position 500 is reached iff \<open>n\<close> is at least 50, so the 50 addresses of
  the run are exactly enough.
\<close>

theorem effective_limit:
  assumes "0 < n"
  shows "rl_run ''ip_keyed'' w n = Inr (min 1000 (10 * n), if 50 \<le> n then Some 500 else None) \<and>
    rl_run ''inproc'' n 1 = Inr (min 1000 (10 * n), if 50 \<le> n then Some 500 else None) \<and>
    rl_run ''redis_token_bucket'' w n = Inr (10, None)"
proof (intro conjI)
  have k: "[1..<1001::nat] = [1..<Suc 1000]" by simp
  show "rl_run ''ip_keyed'' w n = Inr (min 1000 (10 * n), if 50 \<le> n then Some 500 else None)"
    using round_robin_run [of "''ip_keyed''" n w n 500 10 1000] assms
    unfolding rl_run_def k Let_def by (simp add: rl_key_of_def del: upt_Suc)
  show "rl_run ''inproc'' n 1 = Inr (min 1000 (10 * n), if 50 \<le> n then Some 500 else None)"
    using round_robin_run [of "''inproc''" n n 1 500 10 1000] assms
    unfolding rl_run_def k Let_def by (simp add: rl_key_of_def del: upt_Suc)
  show "rl_run ''redis_token_bucket'' w n = Inr (10, None)"
    using round_robin_run [of "''redis_token_bucket''" 1 w n 500 10 1000] assms
    unfolding rl_run_def k Let_def by (simp add: rl_key_of_def del: upt_Suc)
qed

theorem effective_limit_witness:
  "rl_run ''ip_keyed'' 1 50 = Inr (500, Some 500) \<and> rl_run ''ip_keyed'' 1 49 = Inr (490, None)"
  using effective_limit [of 50 1] effective_limit [of 49 1] by simp

subsection \<open>Logging a signed token out\<close>

datatype revocation = Plain | Denylist | Opaque_introspect

record token_state =
  denylisted :: bool
  opaque_dead :: bool

definition logout :: "revocation \<Rightarrow> token_state \<Rightarrow> token_state" where
  "logout st s = (case st of Plain \<Rightarrow> s | Denylist \<Rightarrow> s\<lparr>denylisted := True\<rparr> | Opaque_introspect \<Rightarrow> s\<lparr>opaque_dead := True\<rparr>)"

definition me :: "revocation \<Rightarrow> nat \<Rightarrow> token_state \<Rightarrow> nat \<Rightarrow> nat" where
  "me st ttl s now =
     (if ttl \<le> now then 401
      else if st = Denylist \<and> denylisted s then 401
      else if st = Opaque_introspect \<and> opaque_dead s then 401
      else 200)"

text \<open>\<^verbatim>\<open>range(LOGOUT_AT, TTL_MS + POLL_MS, POLL_MS)\<close>; a step of zero is a \<^verbatim>\<open>ValueError\<close>, left out.\<close>

definition poll_times :: "nat \<Rightarrow> nat \<Rightarrow> nat \<Rightarrow> nat list" where
  "poll_times ttl logout_at poll = map (\<lambda>k. logout_at + k * poll) [0..<(ttl + poll - logout_at + poll - 1) div poll]"

definition revocation_latency :: "nat \<Rightarrow> nat \<Rightarrow> nat \<Rightarrow> revocation \<Rightarrow> nat" where
  "revocation_latency ttl logout_at poll st =
     (let s = logout st \<lparr>denylisted = False, opaque_dead = False\<rparr> in
      case filter (\<lambda>now. me st ttl s now = 401) (poll_times ttl logout_at poll) of [] \<Rightarrow> ttl - logout_at | now # _ \<Rightarrow> now - logout_at)"

text \<open>
  The two strategies with server state refuse at the first poll, at latency 0 and not one interval; the plain token lives
  to its expiry, rounded up to the next poll.
\<close>

lemma plain_token_outlives_logout:
  assumes "now < ttl"
  shows "me Plain ttl (logout Plain s) now = me Plain ttl s now" "me Plain ttl s now = 200"
  using assms by (simp_all add: me_def logout_def)

lemma revocation_latencies:
  "revocation_latency 2000 500 50 Denylist = 0" "revocation_latency 2000 500 50 Opaque_introspect = 0"
  "revocation_latency 2000 500 50 Plain = 1500"
  by (simp_all add: revocation_latency_def poll_times_def me_def logout_def upt_rec)

end
