(* ===== verification/Sim_Charges.thy ===== *)
theory Sim_Charges
  imports Lab_Prelude
begin

text \<open>
  \<^verbatim>\<open>05-failure/07-.../python/idempotency.py\<close>: the \<^verbatim>\<open>/charge\<close> endpoint in its implementations (naive, claim then execute,
  one transaction), the retrying client and the row counts. A step is one statement, taking a connection or a commit of one
  request; transactions are READ COMMITTED. Every statement may fail, and a commit may take effect and fail, which is also
  how a request dies. \<open>fp\<close> is the fingerprint of a body, \<open>pick\<close> the row a query without an order returns first.
\<close>

subsection \<open>Tables, requests, replies\<close>

record charge =
  ch_id :: nat
  ch_key :: string
  ch_amount :: int
  ch_currency :: string

record key_row =
  kw_fp :: string
  kw_state :: string
  kw_response :: "json option"
  kw_expires :: int

record naive_row =
  nr_id :: nat
  nr_key :: string
  nr_fp :: string
  nr_state :: string
  nr_response :: "json option"
  nr_expires :: int

record charge_db =
  charges :: "charge list"
  key_table :: "string \<rightharpoonup> key_row"
  naive_table :: "naive_row list"
  charge_seq :: nat
  naive_seq :: nat

record charge_rq =
  cq_key :: string
  cq_amount :: int
  cq_currency :: string

definition cq_body :: "charge_rq \<Rightarrow> int \<times> string" where
  "cq_body r = (cq_amount r, cq_currency r)"

datatype charge_reply = Resp int "json option" bool | Exn string

text \<open>\<^verbatim>\<open>_do_work\<close>: the row it inserts, which the commit makes visible, and the document it returns.\<close>

definition work_row :: "charge_rq \<Rightarrow> nat \<Rightarrow> charge" where
  "work_row r n = \<lparr>ch_id = n, ch_key = cq_key r, ch_amount = cq_amount r, ch_currency = cq_currency r\<rparr>"

definition charge_doc :: "charge \<Rightarrow> json" where
  "charge_doc c = JObj [(''charge_id'', JInt (int (ch_id c))), (''amount_cents'', JInt (ch_amount c)),
     (''currency'', JStr (ch_currency c)), (''status'', JStr ''succeeded'')]"

definition next_charge :: "charge_db \<Rightarrow> charge_db" where
  "next_charge db = db\<lparr>charge_seq := Suc (charge_seq db)\<rparr>"

definition add_charge :: "charge \<Rightarrow> charge_db \<Rightarrow> charge_db" where
  "add_charge c db = db\<lparr>charges := charges db @ [c]\<rparr>"

subsection \<open>Requests in progress\<close>

datatype charge_phase =
    Idle
  | Connected
  | No_row
  | Row "(nat \<times> int) option"
  | Row_worked "(nat \<times> int) option" nat
  | Marking "(nat \<times> int) option" nat "nat list"
  | Marked "(nat \<times> int) option" nat "nat list"
  | Won
  | Executing
  | Executed nat
  | Completing nat
  | Lost
  | Reading
  | Owner int
  | Owner_worked int nat
  | Owner_marked int nat
  | Loser
  | Answered charge_reply

record charge_sys =
  db :: charge_db
  phase :: "nat \<Rightarrow> charge_phase"

datatype outcome = Fine | Fails string | Fails_late string

fun error_of :: "outcome \<Rightarrow> string option" where
  "error_of Fine = None" | "error_of (Fails e) = Some e" | "error_of (Fails_late e) = Some e"

fun took_effect :: "outcome \<Rightarrow> bool" where
  "took_effect Fine = True" | "took_effect (Fails e) = False" | "took_effect (Fails_late e) = True"

text \<open>
  One statement of request \<open>i\<close>: it waits, or it has its durable effect and the request goes on; an error ends the request
  and rolls its transaction back. What a transaction has not committed is kept in the phase.
\<close>

definition stmt :: "nat \<Rightarrow> bool \<Rightarrow> outcome \<Rightarrow> (charge_db \<Rightarrow> charge_db) \<Rightarrow> charge_phase \<Rightarrow> charge_sys \<Rightarrow> charge_sys" where
  "stmt i waits oc eff p s =
     (let s1 = (if took_effect oc \<and> \<not> waits then s\<lparr>db := eff (db s)\<rparr> else s) in
      case error_of oc of
        Some e \<Rightarrow> s1\<lparr>phase := (phase s1)(i := Answered (Exn e))\<rparr>
      | None \<Rightarrow> if waits then s else s1\<lparr>phase := (phase s1)(i := p)\<rparr>)"

definition connected :: "charge_phase \<Rightarrow> bool" where
  "connected p = (case p of Idle \<Rightarrow> False | Won \<Rightarrow> False | Lost \<Rightarrow> False | Answered r \<Rightarrow> False | _ \<Rightarrow> True)"

definition others :: "(charge_phase \<Rightarrow> bool) \<Rightarrow> charge_rq list \<Rightarrow> nat \<Rightarrow> charge_sys \<Rightarrow> bool" where
  "others P rqs i s = list_ex (\<lambda>j. j \<noteq> i \<and> P (phase s j) \<and> cq_key (rqs ! j) = cq_key (rqs ! i)) [0..<length rqs]"

definition pool_full :: "nat \<Rightarrow> charge_rq list \<Rightarrow> charge_sys \<Rightarrow> bool" where
  "pool_full pool rqs s = (pool \<le> length (filter (\<lambda>j. connected (phase s j)) [0..<length rqs]))"

subsection \<open>The naive implementation\<close>

definition naive_rows_of :: "string \<Rightarrow> charge_db \<Rightarrow> naive_row list" where
  "naive_rows_of k d = filter (\<lambda>r. nr_key r = k) (naive_table d)"

definition first_row :: "(nat \<Rightarrow> nat) \<Rightarrow> nat \<Rightarrow> naive_row list \<Rightarrow> naive_row option" where
  "first_row pick i rows = (if rows = [] then None else Some (rows ! (pick i mod length rows)))"

definition next_naive :: "charge_db \<Rightarrow> charge_db" where
  "next_naive d = d\<lparr>naive_seq := Suc (naive_seq d)\<rparr>"

fun marks_row :: "nat list \<Rightarrow> charge_phase \<Rightarrow> bool" where
  "marks_row ids (Marked own n ids') = (set ids \<inter> set ids' \<noteq> {})" | "marks_row ids _ = False"

text \<open>The commit: the charge, the request's own row if it inserted one, and the rows its UPDATE found.\<close>

definition commit_naive :: "string \<Rightarrow> charge_rq \<Rightarrow> (nat \<times> int) option \<Rightarrow> nat \<Rightarrow> nat list \<Rightarrow> charge_db \<Rightarrow> charge_db" where
  "commit_naive f r own n ids d =
     (let doc = Some (charge_doc (work_row r n)) in
      add_charge (work_row r n) d\<lparr>naive_table :=
        map (\<lambda>x. if nr_id x \<in> set ids then x\<lparr>nr_state := ''completed'', nr_response := doc\<rparr> else x) (naive_table d) @
        (case own of None \<Rightarrow> []
         | Some (m, ex) \<Rightarrow> [\<lparr>nr_id = m, nr_key = cq_key r, nr_fp = f, nr_state = ''completed'', nr_response = doc, nr_expires = ex\<rparr>])\<rparr>)"

definition charge_naive ::
  "(nat \<Rightarrow> nat) \<Rightarrow> (int \<times> string \<Rightarrow> string) \<Rightarrow> nat \<Rightarrow> int \<Rightarrow> charge_rq list \<Rightarrow> nat \<Rightarrow> outcome \<Rightarrow> int \<Rightarrow> charge_sys \<Rightarrow> charge_sys" where
  "charge_naive pick fp pool ttl rqs i oc now s =
     (let r = rqs ! i; rows = naive_rows_of (cq_key r) (db s) in
      if length rqs \<le> i then s else
      case phase s i of
        Idle \<Rightarrow> stmt i (pool_full pool rqs s) oc id Connected s
      | Connected \<Rightarrow> stmt i False oc id
          (case first_row pick i rows of
             None \<Rightarrow> No_row
           | Some x \<Rightarrow> if nr_state x = ''completed'' then Answered (Resp 200 (nr_response x) True) else Row None) s
      | No_row \<Rightarrow> stmt i False oc next_naive (Row (Some (naive_seq (db s), now + ttl))) s
      | Row own \<Rightarrow> stmt i False oc next_charge (Row_worked own (charge_seq (db s))) s
      | Row_worked own n \<Rightarrow> stmt i False oc id (Marking own n (map nr_id rows)) s
      | Marking own n ids \<Rightarrow> stmt i (others (marks_row ids) rqs i s) oc id (Marked own n ids) s
      | Marked own n ids \<Rightarrow> stmt i False oc (commit_naive (fp (cq_body r)) r own n ids)
          (Answered (Resp 200 (Some (charge_doc (work_row r n))) False)) s
      | _ \<Rightarrow> s)"

subsection \<open>Claim, then execute\<close>

text \<open>The INSERT with its DO UPDATE arm: the row it leaves, or \<open>None\<close> when it returns no row.\<close>

definition claim_key :: "string \<Rightarrow> int \<Rightarrow> int \<Rightarrow> key_row option \<Rightarrow> key_row option" where
  "claim_key f ttl now row = (case row of
     None \<Rightarrow> Some \<lparr>kw_fp = f, kw_state = ''in_progress'', kw_response = None, kw_expires = now + ttl\<rparr>
   | Some r \<Rightarrow> if kw_state r = ''in_progress'' \<and> kw_expires r < now \<and> kw_fp r = f
               then Some (r\<lparr>kw_state := ''in_progress'', kw_expires := now + ttl\<rparr>) else None)"

definition put_key :: "string \<Rightarrow> key_row \<Rightarrow> charge_db \<Rightarrow> charge_db" where
  "put_key k r d = d\<lparr>key_table := (key_table d)(k \<mapsto> r)\<rparr>"

definition complete_key :: "charge_rq \<Rightarrow> nat \<Rightarrow> charge_db \<Rightarrow> charge_db" where
  "complete_key r n d = (case key_table d (cq_key r) of
     None \<Rightarrow> d
   | Some x \<Rightarrow> put_key (cq_key r) (x\<lparr>kw_state := ''completed'', kw_response := Some (charge_doc (work_row r n))\<rparr>) d)"

definition replay_or_conflict :: "string \<Rightarrow> key_row option \<Rightarrow> charge_reply" where
  "replay_or_conflict f row = (case row of
     None \<Rightarrow> Resp 409 None False
   | Some x \<Rightarrow> if kw_fp x \<noteq> f then Resp 422 None False
               else if kw_state x = ''completed'' then Resp 200 (kw_response x) True
               else Resp 409 None False)"

fun completing :: "charge_phase \<Rightarrow> bool" where
  "completing (Completing n) = True" | "completing _ = False"

definition charge_correct ::
  "(int \<times> string \<Rightarrow> string) \<Rightarrow> nat \<Rightarrow> int \<Rightarrow> charge_rq list \<Rightarrow> nat \<Rightarrow> outcome \<Rightarrow> int \<Rightarrow> charge_sys \<Rightarrow> charge_sys" where
  "charge_correct fp pool ttl rqs i oc now s =
     (let r = rqs ! i; f = fp (cq_body r); row = key_table (db s) (cq_key r) in
      if length rqs \<le> i then s else
      case phase s i of
        Idle \<Rightarrow> stmt i (pool_full pool rqs s) oc id Connected s
      | Connected \<Rightarrow>
          (case claim_key f ttl now row of
             Some x \<Rightarrow> stmt i (others completing rqs i s) oc (put_key (cq_key r) x) Won s
           | None \<Rightarrow> stmt i (others completing rqs i s) oc id Lost s)
      | Lost \<Rightarrow> stmt i (pool_full pool rqs s) oc id Reading s
      | Reading \<Rightarrow> stmt i False oc id (Answered (replay_or_conflict f row)) s
      | Won \<Rightarrow> stmt i (pool_full pool rqs s) oc id Executing s
      | Executing \<Rightarrow> stmt i False oc next_charge (Executed (charge_seq (db s))) s
      | Executed n \<Rightarrow> stmt i (others completing rqs i s) oc id (Completing n) s
      | Completing n \<Rightarrow> stmt i False oc (add_charge (work_row r n) \<circ> complete_key r n)
          (Answered (Resp 200 (Some (charge_doc (work_row r n))) False)) s
      | _ \<Rightarrow> s)"

subsection \<open>Everything in one transaction\<close>

fun owns_key :: "charge_phase \<Rightarrow> bool" where
  "owns_key (Owner ex) = True"
| "owns_key (Owner_worked ex n) = True"
| "owns_key (Owner_marked ex n) = True"
| "owns_key _ = False"

definition loser_reply :: "string \<Rightarrow> key_row option \<Rightarrow> charge_reply" where
  "loser_reply f row = (case row of None \<Rightarrow> Exn ''TypeError'' | Some x \<Rightarrow> replay_or_conflict f row)"

definition charge_correct_single_txn ::
  "(int \<times> string \<Rightarrow> string) \<Rightarrow> nat \<Rightarrow> int \<Rightarrow> charge_rq list \<Rightarrow> nat \<Rightarrow> outcome \<Rightarrow> int \<Rightarrow> charge_sys \<Rightarrow> charge_sys" where
  "charge_correct_single_txn fp pool ttl rqs i oc now s =
     (let r = rqs ! i; f = fp (cq_body r); row = key_table (db s) (cq_key r) in
      if length rqs \<le> i then s else
      case phase s i of
        Idle \<Rightarrow> stmt i (pool_full pool rqs s) oc id Connected s
      | Connected \<Rightarrow> stmt i (others owns_key rqs i s) oc id (if row = None then Owner (now + ttl) else Loser) s
      | Owner ex \<Rightarrow> stmt i False oc next_charge (Owner_worked ex (charge_seq (db s))) s
      | Owner_worked ex n \<Rightarrow> stmt i False oc id (Owner_marked ex n) s
      | Owner_marked ex n \<Rightarrow> stmt i False oc
          (add_charge (work_row r n) \<circ> put_key (cq_key r)
             \<lparr>kw_fp = f, kw_state = ''completed'', kw_response = Some (charge_doc (work_row r n)), kw_expires = ex\<rparr>)
          (Answered (Resp 200 (Some (charge_doc (work_row r n))) False)) s
      | Loser \<Rightarrow> stmt i False oc id (Answered (loser_reply f row)) s
      | _ \<Rightarrow> s)"

subsection \<open>Runs\<close>

definition charge_start :: charge_sys where
  "charge_start = \<lparr>db = \<lparr>charges = [], key_table = Map.empty, naive_table = [], charge_seq = 1, naive_seq = 1\<rparr>,
     phase = (\<lambda>i. Idle)\<rparr>"

type_synonym charge_event = "nat \<times> outcome \<times> int"

definition charge_run :: "(nat \<Rightarrow> outcome \<Rightarrow> int \<Rightarrow> charge_sys \<Rightarrow> charge_sys) \<Rightarrow> charge_event list \<Rightarrow> charge_sys \<Rightarrow> charge_sys" where
  "charge_run step evs s = fold (\<lambda>(i, oc, now). step i oc now) evs s"

text \<open>\<^verbatim>\<open>counts\<close>: charges, claims in progress and claims expired, the latter over the keys given.\<close>

definition charge_counts :: "string option \<Rightarrow> string list \<Rightarrow> int \<Rightarrow> charge_db \<Rightarrow> nat \<times> nat \<times> nat" where
  "charge_counts key ks now d =
     (let open_at = (\<lambda>P. length (filter (\<lambda>k. case key_table d k of None \<Rightarrow> False
                                   | Some x \<Rightarrow> kw_state x = ''in_progress'' \<and> P (kw_expires x)) (remdups ks))) in
      (length (filter (\<lambda>c. case key of None \<Rightarrow> True | Some k \<Rightarrow> k = [] \<or> ch_key c = k) (charges d)),
       open_at (\<lambda>e. now < e), open_at (\<lambda>e. e \<le> now)))"

subsection \<open>The contract: who owns a key may charge it\<close>

lemma charge_db_simps [simp]:
  "charges (next_charge d) = charges d" "key_table (next_charge d) = key_table d" "naive_table (next_charge d) = naive_table d"
  "charges (next_naive d) = charges d" "key_table (next_naive d) = key_table d" "naive_table (next_naive d) = naive_table d"
  "charges (add_charge c d) = charges d @ [c]" "key_table (add_charge c d) = key_table d" "naive_table (add_charge c d) = naive_table d"
  "charges (put_key k x d) = charges d" "key_table (put_key k x d) = (key_table d)(k \<mapsto> x)"
  "charges (complete_key r n d) = charges d" "charges (commit_naive f r own n ids d) = charges d @ [work_row r n]"
  "ch_key (work_row r n) = cq_key r"
  by (simp_all add: next_charge_def next_naive_def add_charge_def put_key_def complete_key_def commit_naive_def work_row_def Let_def
      split: option.split)

lemma others_iff: "others P rqs i s \<longleftrightarrow> (\<exists>j<length rqs. j \<noteq> i \<and> P (phase s j) \<and> cq_key (rqs ! j) = cq_key (rqs ! i))"
  by (auto simp: others_def list_ex_iff)

lemma stmt_phase:
  "phase (stmt i w oc eff p s) = (phase s)(i :=
     (case error_of oc of Some e \<Rightarrow> Answered (Exn e) | None \<Rightarrow> if w then phase s i else p))"
  by (auto simp: stmt_def Let_def fun_eq_iff split: option.split)

lemma stmt_db: "db (stmt i w oc eff p s) = (if took_effect oc \<and> \<not> w then eff (db s) else db s)"
  by (cases oc) (auto simp: stmt_def Let_def)

lemma no_error_iff: "error_of oc = None \<longleftrightarrow> oc = Fine"
  by (cases oc) simp_all

text \<open>
  A handler that charges a key at most once: a request charges only as the owner of its key, it becomes one only while no
  other request owns the key and the key is not settled, and its charge settles the key. \<open>good\<close> is an invariant of the
  states, \<open>admissible\<close> what is asked of the events.
\<close>

locale once_per_key =
  fixes step :: "nat \<Rightarrow> outcome \<Rightarrow> int \<Rightarrow> charge_sys \<Rightarrow> charge_sys"
    and rqs :: "charge_rq list"
    and owner :: "charge_phase \<Rightarrow> bool"
    and stored :: "charge_db \<Rightarrow> string \<Rightarrow> json option"
    and good :: "charge_sys \<Rightarrow> bool"
    and admissible :: "nat \<Rightarrow> outcome \<Rightarrow> int \<Rightarrow> charge_sys \<Rightarrow> bool"
  assumes start_law: "good charge_start" "\<not> owner Idle" "stored (db charge_start) k = None"
    and good_law: "good s \<Longrightarrow> admissible i oc now s \<Longrightarrow> good (step i oc now s)"
    and idle_law: "length rqs \<le> i \<Longrightarrow> step i oc now s = s"
    and frame_law: "j \<noteq> i \<Longrightarrow> phase (step i oc now s) j = phase s j"
    and owner_law: "good s \<Longrightarrow> i < length rqs \<Longrightarrow> admissible i oc now s \<Longrightarrow> owner (phase (step i oc now s) i) \<Longrightarrow>
      owner (phase s i) \<or> \<not> others owner rqs i s \<and> stored (db s) (cq_key (rqs ! i)) = None"
    and charge_law: "good s \<Longrightarrow> i < length rqs \<Longrightarrow> admissible i oc now s \<Longrightarrow>
      charges (db (step i oc now s)) = charges (db s) \<and> stored (db (step i oc now s)) = stored (db s) \<or>
      owner (phase s i) \<and> \<not> owner (phase (step i oc now s) i) \<and>
      (\<exists>c. ch_key c = cq_key (rqs ! i) \<and> charges (db (step i oc now s)) = charges (db s) @ [c] \<and>
         stored (db (step i oc now s)) = (stored (db s))(cq_key (rqs ! i) \<mapsto> charge_doc c))"
    and reply_law: "good s \<Longrightarrow> i < length rqs \<Longrightarrow> admissible i oc now s \<Longrightarrow> phase (step i oc now s) i = Answered (Resp 200 b rep) \<Longrightarrow>
      phase s i = Answered (Resp 200 b rep) \<or> b \<noteq> None \<and> stored (db (step i oc now s)) (cq_key (rqs ! i)) = b"
begin

definition sound :: "charge_sys \<Rightarrow> bool" where
  "sound s = (good s \<and>
     (\<forall>i<length rqs. \<forall>j<length rqs. owner (phase s i) \<longrightarrow> owner (phase s j) \<longrightarrow> cq_key (rqs ! i) = cq_key (rqs ! j) \<longrightarrow> i = j) \<and>
     (\<forall>i<length rqs. owner (phase s i) \<longrightarrow> stored (db s) (cq_key (rqs ! i)) = None) \<and>
     (\<forall>k. filter (\<lambda>c. ch_key c = k) (charges (db s)) = [] \<and> stored (db s) k = None \<or>
        (\<exists>c. filter (\<lambda>c. ch_key c = k) (charges (db s)) = [c] \<and> stored (db s) k = Some (charge_doc c))) \<and>
     (\<forall>i<length rqs. \<forall>b rep. phase s i = Answered (Resp 200 b rep) \<longrightarrow> b \<noteq> None \<and> stored (db s) (cq_key (rqs ! i)) = b))"

lemma soundD:
  assumes "sound s"
  shows "good s" "owner (phase s i) \<Longrightarrow> owner (phase s j) \<Longrightarrow> cq_key (rqs ! i) = cq_key (rqs ! j) \<Longrightarrow> i < length rqs \<Longrightarrow> j < length rqs \<Longrightarrow> i = j"
    "owner (phase s i) \<Longrightarrow> i < length rqs \<Longrightarrow> stored (db s) (cq_key (rqs ! i)) = None"
    "filter (\<lambda>c. ch_key c = k) (charges (db s)) = [] \<and> stored (db s) k = None \<or>
        (\<exists>c. filter (\<lambda>c. ch_key c = k) (charges (db s)) = [c] \<and> stored (db s) k = Some (charge_doc c))"
    "phase s i = Answered (Resp 200 b rep) \<Longrightarrow> i < length rqs \<Longrightarrow> b \<noteq> None \<and> stored (db s) (cq_key (rqs ! i)) = b"
  using assms unfolding sound_def by blast+

lemma sound_start: "sound charge_start"
  using start_law by (simp add: sound_def charge_start_def)

lemma stored_kept:
  assumes "sound s" "i < length rqs" "admissible i oc now s" "stored (db s) k \<noteq> None"
  shows "stored (db (step i oc now s)) k = stored (db s) k"
  using charge_law [OF soundD(1) [OF assms(1)] assms(2,3)]
proof (elim disjE conjE exE)
  fix c assume "owner (phase s i)" "stored (db (step i oc now s)) = (stored (db s))(cq_key (rqs ! i) \<mapsto> charge_doc c)"
  with soundD(3) [OF assms(1) _ assms(2)] assms(4) show ?thesis by auto
qed simp

lemma sound_step:
  assumes s: "sound s" and adm: "admissible i oc now s"
  shows "sound (step i oc now s)"
proof (cases "i < length rqs")
  case i: True
  let ?s = "step i oc now s"
  note law = charge_law [OF soundD(1) [OF s] i adm]
  have own: "owner (phase ?s j) \<Longrightarrow> j \<noteq> i \<Longrightarrow> owner (phase s j)" for j using frame_law by simp
  have new: "owner (phase s i) \<or> \<not> others owner rqs i s \<and> stored (db s) (cq_key (rqs ! i)) = None" if "owner (phase ?s i)"
    using owner_law [OF soundD(1) [OF s] i adm that] .
  have clash: False if "owner (phase ?s i)" "owner (phase ?s j)" "j \<noteq> i" "j < length rqs" "cq_key (rqs ! j) = cq_key (rqs ! i)" for j
    using new [OF that(1)] own [OF that(2,3)] that(3-5) soundD(2) [OF s _ _ that(5) that(4) i] by (auto simp: others_iff)
  have one: "j = k" if "owner (phase ?s j)" "owner (phase ?s k)" "cq_key (rqs ! j) = cq_key (rqs ! k)" "j < length rqs" "k < length rqs" for j k
    using that clash [of j] clash [of k] own [of j] own [of k] soundD(2) [OF s _ _ that(3-5)] by metis
  have free: "stored (db ?s) (cq_key (rqs ! j)) = None" if "owner (phase ?s j)" "j < length rqs" for j
    using law
  proof (elim disjE conjE exE)
    assume "stored (db ?s) = stored (db s)"
    with that new own [of j] soundD(3) [OF s _ that(2)] show ?thesis by (cases "j = i") (auto dest: soundD(3) [OF s _ i])
  next
    fix c assume c: "owner (phase s i)" "\<not> owner (phase ?s i)" "stored (db ?s) = (stored (db s))(cq_key (rqs ! i) \<mapsto> charge_doc c)"
    with that have "j \<noteq> i" by auto
    with own that have "owner (phase s j)" by blast
    with c(1) \<open>j \<noteq> i\<close> soundD(2) [OF s _ _ _ that(2) i] have "cq_key (rqs ! j) \<noteq> cq_key (rqs ! i)" by blast
    with c(3) soundD(3) [OF s \<open>owner (phase s j)\<close> that(2)] show ?thesis by simp
  qed
  have rows: "filter (\<lambda>c. ch_key c = k) (charges (db ?s)) = [] \<and> stored (db ?s) k = None \<or>
      (\<exists>c. filter (\<lambda>c. ch_key c = k) (charges (db ?s)) = [c] \<and> stored (db ?s) k = Some (charge_doc c))" for k
    using law
  proof (elim disjE conjE exE)
    fix c assume "owner (phase s i)" "ch_key c = cq_key (rqs ! i)" "charges (db ?s) = charges (db s) @ [c]"
      "stored (db ?s) = (stored (db s))(cq_key (rqs ! i) \<mapsto> charge_doc c)"
    with soundD(3) [OF s _ i] soundD(4) [OF s, of k] show ?thesis by (cases "k = cq_key (rqs ! i)") auto
  qed (use soundD(4) [OF s, of k] in simp)
  have replies: "b \<noteq> None \<and> stored (db ?s) (cq_key (rqs ! j)) = b" if "phase ?s j = Answered (Resp 200 b rep)" "j < length rqs" for j b rep
  proof -
    have "phase s j = Answered (Resp 200 b rep) \<or> j = i \<and> b \<noteq> None \<and> stored (db ?s) (cq_key (rqs ! i)) = b"
      using that frame_law [of j i] reply_law [OF soundD(1) [OF s] i adm] by (cases "j = i") auto
    then show ?thesis using soundD(5) [OF s _ that(2)] stored_kept [OF s i adm] by metis
  qed
  show ?thesis unfolding sound_def
    using good_law [OF soundD(1) [OF s] adm] one free rows replies by blast
qed (use assms idle_law in simp)

fun admits :: "charge_event list \<Rightarrow> charge_sys \<Rightarrow> bool" where
  "admits [] s = True"
| "admits ((i, oc, now) # evs) s = (admissible i oc now s \<and> admits evs (step i oc now s))"

lemma sound_run: "sound s \<Longrightarrow> admits evs s \<Longrightarrow> sound (charge_run step evs s)"
  by (induction evs s rule: admits.induct) (simp_all add: charge_run_def sound_step)

lemma charged_once:
  assumes "admits evs charge_start"
  shows "length (filter (\<lambda>c. ch_key c = k) (charges (db (charge_run step evs charge_start)))) \<le> 1"
  using soundD(4) [OF sound_run [OF sound_start assms], of k] by auto

lemma replies_name_the_charge:
  assumes "admits evs charge_start" "i < length rqs" "phase (charge_run step evs charge_start) i = Answered (Resp 200 b rep)"
  shows "\<exists>c. filter (\<lambda>c. ch_key c = cq_key (rqs ! i)) (charges (db (charge_run step evs charge_start))) = [c] \<and> b = Some (charge_doc c)"
  using soundD(4) [OF sound_run [OF sound_start assms(1)], of "cq_key (rqs ! i)"]
    soundD(5) [OF sound_run [OF sound_start assms(1)] assms(3,2)] by auto

end

subsection \<open>Everything in one transaction: no condition\<close>

definition row_response :: "charge_db \<Rightarrow> string \<Rightarrow> json option" where
  "row_response d k = (case key_table d k of None \<Rightarrow> None | Some x \<Rightarrow> if kw_state x = ''completed'' then kw_response x else None)"

definition all_completed :: "charge_sys \<Rightarrow> bool" where
  "all_completed s = (\<forall>k x. key_table (db s) k = Some x \<longrightarrow> kw_state x = ''completed'' \<and> kw_response x \<noteq> None)"

lemmas txn_simps = charge_correct_single_txn_def Let_def stmt_phase stmt_db

lemma single_txn_keeps_completed:
  "all_completed s \<Longrightarrow> all_completed (charge_correct_single_txn fp pool ttl rqs i oc now s)"
  by (simp add: txn_simps all_completed_def split: charge_phase.split)

lemma single_txn_owner:
  assumes "i < length rqs" "owns_key (phase (charge_correct_single_txn fp pool ttl rqs i oc now s) i)"
  shows "owns_key (phase s i) \<or> \<not> others owns_key rqs i s \<and> key_table (db s) (cq_key (rqs ! i)) = None"
  using assms by (cases oc) (auto simp: txn_simps split: charge_phase.splits if_splits)

lemma single_txn_charge:
  assumes "all_completed s" "i < length rqs"
  shows "let s' = charge_correct_single_txn fp pool ttl rqs i oc now s in
    charges (db s') = charges (db s) \<and> row_response (db s') = row_response (db s) \<or>
    owns_key (phase s i) \<and> \<not> owns_key (phase s' i) \<and>
    (\<exists>c. ch_key c = cq_key (rqs ! i) \<and> charges (db s') = charges (db s) @ [c] \<and>
       row_response (db s') = (row_response (db s))(cq_key (rqs ! i) \<mapsto> charge_doc c))"
  using assms(2) by (cases oc) (auto simp: txn_simps row_response_def fun_eq_iff split: charge_phase.split)

lemma single_txn_reply:
  assumes "all_completed s" "i < length rqs"
    and "phase (charge_correct_single_txn fp pool ttl rqs i oc now s) i = Answered (Resp 200 b rep)"
  shows "phase s i = Answered (Resp 200 b rep) \<or>
    b \<noteq> None \<and> row_response (db (charge_correct_single_txn fp pool ttl rqs i oc now s)) (cq_key (rqs ! i)) = b"
  using assms
  by (cases oc) (auto simp: txn_simps row_response_def all_completed_def loser_reply_def replay_or_conflict_def
      split: charge_phase.splits if_splits option.splits)

interpretation single_txn: once_per_key "charge_correct_single_txn fp pool ttl rqs" rqs owns_key row_response all_completed
    "\<lambda>i oc now s. True" for fp pool ttl rqs
proof unfold_locales
  fix i oc now s j
  show "length rqs \<le> i \<Longrightarrow> charge_correct_single_txn fp pool ttl rqs i oc now s = s" by (simp add: txn_simps)
  show "j \<noteq> i \<Longrightarrow> phase (charge_correct_single_txn fp pool ttl rqs i oc now s) j = phase s j"
    by (simp add: txn_simps split: charge_phase.split)
next
  fix i oc now s
  show "i < length rqs \<Longrightarrow> owns_key (phase (charge_correct_single_txn fp pool ttl rqs i oc now s) i) \<Longrightarrow>
      owns_key (phase s i) \<or> \<not> others owns_key rqs i s \<and> row_response (db s) (cq_key (rqs ! i)) = None"
    using single_txn_owner [of i rqs fp pool ttl oc now s] by (auto simp: row_response_def)
  show "all_completed s \<Longrightarrow> i < length rqs \<Longrightarrow>
      phase (charge_correct_single_txn fp pool ttl rqs i oc now s) i = Answered (Resp 200 b rep) \<Longrightarrow>
      phase s i = Answered (Resp 200 b rep) \<or>
      b \<noteq> None \<and> row_response (db (charge_correct_single_txn fp pool ttl rqs i oc now s)) (cq_key (rqs ! i)) = b" for b rep
    by (rule single_txn_reply)
qed (simp_all add: single_txn_keeps_completed single_txn_charge [unfolded Let_def],
  simp_all add: all_completed_def charge_start_def row_response_def)

subsection \<open>Claim, then execute: no claim may be taken over from a request that still runs\<close>

fun live :: "charge_phase \<Rightarrow> bool" where
  "live Won = True"
| "live Executing = True"
| "live (Executed n) = True"
| "live (Completing n) = True"
| "live _ = False"

text \<open>Request \<open>i\<close> is about to take over an expired claim whose holder still runs.\<close>

definition overruns :: "(int \<times> string \<Rightarrow> string) \<Rightarrow> charge_rq list \<Rightarrow> nat \<Rightarrow> int \<Rightarrow> charge_sys \<Rightarrow> bool" where
  "overruns fp rqs i now s = (phase s i = Connected \<and> others live rqs i s \<and>
     (case key_table (db s) (cq_key (rqs ! i)) of
        Some x \<Rightarrow> kw_state x = ''in_progress'' \<and> kw_expires x < now \<and> kw_fp x = fp (cq_body (rqs ! i))
      | None \<Rightarrow> False))"

definition claims_kept :: "charge_rq list \<Rightarrow> charge_sys \<Rightarrow> bool" where
  "claims_kept rqs s =
     ((\<forall>i<length rqs. live (phase s i) \<longrightarrow> key_table (db s) (cq_key (rqs ! i)) \<noteq> None) \<and>
      (\<forall>k x. key_table (db s) k = Some x \<longrightarrow> kw_state x = ''completed'' \<longrightarrow> kw_response x \<noteq> None))"

lemmas claim_simps = charge_correct_def Let_def stmt_phase stmt_db complete_key_def claim_key_def

lemma correct_frame: "j \<noteq> i \<Longrightarrow> phase (charge_correct fp pool ttl rqs i oc now s) j = phase s j"
  by (auto simp: claim_simps split: charge_phase.split option.split)

lemma correct_idle: "length rqs \<le> i \<Longrightarrow> charge_correct fp pool ttl rqs i oc now s = s"
  by (simp add: charge_correct_def Let_def)

text \<open>How one step changes the key table: a claim, a completion, or nothing.\<close>

lemma correct_table:
  assumes "i < length rqs"
  shows "let s' = charge_correct fp pool ttl rqs i oc now s; k = cq_key (rqs ! i) in
    db s' = db s \<or> db s' = next_charge (db s) \<or>
    (\<exists>x. phase s i = Connected \<and> \<not> others completing rqs i s \<and> claim_key (fp (cq_body (rqs ! i))) ttl now (key_table (db s) k) = Some x \<and>
       db s' = put_key k x (db s)) \<or>
    (\<exists>n. phase s i = Completing n \<and> (\<exists>r. phase s' i = Answered r) \<and>
       db s' = add_charge (work_row (rqs ! i) n) (complete_key (rqs ! i) n (db s)))"
  using assms
  by (cases oc) (auto simp: charge_correct_def Let_def stmt_phase stmt_db split: charge_phase.split option.split)

lemma correct_live:
  assumes "i < length rqs" "live (phase (charge_correct fp pool ttl rqs i oc now s) i)"
  shows "live (phase s i) \<or> phase s i = Connected \<and> (\<exists>x. claim_key (fp (cq_body (rqs ! i))) ttl now (key_table (db s) (cq_key (rqs ! i))) = Some x \<and>
      db (charge_correct fp pool ttl rqs i oc now s) = put_key (cq_key (rqs ! i)) x (db s))"
  using assms
  by (cases oc) (auto simp: charge_correct_def Let_def stmt_phase stmt_db split: charge_phase.splits option.splits if_splits)

lemma claim_keyD:
  assumes "claim_key f ttl now row = Some x"
  shows "kw_state x = ''in_progress'' \<and> (row = None \<and> kw_response x = None \<or>
    (\<exists>y. row = Some y \<and> kw_state y = ''in_progress'' \<and> kw_expires y < now \<and> kw_fp y = f))"
  using assms by (auto simp: claim_key_def split: option.splits if_splits)

lemma correct_keeps:
  assumes "claims_kept rqs s"
  shows "claims_kept rqs (charge_correct fp pool ttl rqs i oc now s)"
proof (cases "i < length rqs")
  case i: True
  let ?s = "charge_correct fp pool ttl rqs i oc now s" and ?k = "cq_key (rqs ! i)"
  have grow: "key_table (db s) k \<noteq> None \<Longrightarrow> key_table (db ?s) k \<noteq> None" for k
    using correct_table [OF i, of fp pool ttl oc now s] by (auto simp: Let_def complete_key_def split: option.splits)
  have resp: "kw_response x \<noteq> None" if "key_table (db ?s) k = Some x" "kw_state x = ''completed''" for k x
    using correct_table [OF i, of fp pool ttl oc now s] that assms
    by (auto simp: Let_def complete_key_def claims_kept_def dest!: claim_keyD split: option.splits if_splits)
  have "key_table (db ?s) (cq_key (rqs ! j)) \<noteq> None" if "live (phase ?s j)" "j < length rqs" for j
  proof (cases "j = i")
    case True
    have "live (phase s i) \<or> (\<exists>x. db ?s = put_key ?k x (db s))" using correct_live [OF i] that(1) True by blast
    with assms i grow True show ?thesis by (auto simp: claims_kept_def)
  next
    case False
    with that assms grow show ?thesis by (simp add: correct_frame claims_kept_def)
  qed
  with resp show ?thesis by (simp add: claims_kept_def)
qed (use assms in \<open>simp add: correct_idle\<close>)

lemma correct_owner:
  assumes "claims_kept rqs s" "i < length rqs" "\<not> overruns fp rqs i now s"
    and "live (phase (charge_correct fp pool ttl rqs i oc now s) i)"
  shows "live (phase s i) \<or> \<not> others live rqs i s \<and> row_response (db s) (cq_key (rqs ! i)) = None"
proof -
  have "\<not> others live rqs i s \<and> row_response (db s) (cq_key (rqs ! i)) = None"
    if c: "phase s i = Connected" "claim_key (fp (cq_body (rqs ! i))) ttl now (key_table (db s) (cq_key (rqs ! i))) = Some x" for x
  proof (cases "key_table (db s) (cq_key (rqs ! i))")
    case None
    with assms(1) show ?thesis by (auto simp: others_iff claims_kept_def row_response_def)
  next
    case (Some y)
    with claim_keyD [OF c(2)] c(1) assms(3) show ?thesis by (auto simp: overruns_def row_response_def)
  qed
  with correct_live [OF assms(2,4)] show ?thesis by blast
qed

lemma correct_charge:
  assumes "claims_kept rqs s" "i < length rqs" and s': "s' = charge_correct fp pool ttl rqs i oc now s"
  shows "charges (db s') = charges (db s) \<and> row_response (db s') = row_response (db s) \<or>
    live (phase s i) \<and> \<not> live (phase s' i) \<and>
    (\<exists>c. ch_key c = cq_key (rqs ! i) \<and> charges (db s') = charges (db s) @ [c] \<and>
       row_response (db s') = (row_response (db s))(cq_key (rqs ! i) \<mapsto> charge_doc c))"
  using correct_table [OF assms(2), of fp pool ttl oc now s, unfolded Let_def, folded s']
proof (elim disjE exE conjE)
  fix x assume "claim_key (fp (cq_body (rqs ! i))) ttl now (key_table (db s) (cq_key (rqs ! i))) = Some x"
    and "db s' = put_key (cq_key (rqs ! i)) x (db s)"
  then show ?thesis by (auto simp: row_response_def fun_eq_iff dest!: claim_keyD)
next
  fix n r assume c: "phase s i = Completing n" "phase s' i = Answered r"
    and d: "db s' = add_charge (work_row (rqs ! i) n) (complete_key (rqs ! i) n (db s))"
  obtain y where "key_table (db s) (cq_key (rqs ! i)) = Some y" using assms(1,2) c(1) by (auto simp: claims_kept_def)
  with c d show ?thesis by (auto simp: row_response_def complete_key_def fun_eq_iff)
qed (simp_all add: row_response_def fun_eq_iff)

lemma correct_reply:
  assumes "claims_kept rqs s" "i < length rqs"
    and "phase (charge_correct fp pool ttl rqs i oc now s) i = Answered (Resp 200 b rep)"
  shows "phase s i = Answered (Resp 200 b rep) \<or>
    b \<noteq> None \<and> row_response (db (charge_correct fp pool ttl rqs i oc now s)) (cq_key (rqs ! i)) = b"
proof (cases "\<exists>n. phase s i = Completing n")
  case True
  then obtain n where n: "phase s i = Completing n" ..
  obtain y where "key_table (db s) (cq_key (rqs ! i)) = Some y" using assms(1,2) n by (auto simp: claims_kept_def)
  with n assms(2,3) show ?thesis by (cases oc) (auto simp: claim_simps row_response_def)
next
  case False
  with assms show ?thesis
    by (cases oc) (auto simp: charge_correct_def Let_def stmt_phase stmt_db row_response_def claims_kept_def replay_or_conflict_def
        split: charge_phase.splits if_splits option.splits)
qed

interpretation correct: once_per_key "charge_correct fp pool ttl rqs" rqs live row_response "claims_kept rqs"
    "\<lambda>i oc now s. \<not> overruns fp rqs i now s" for fp pool ttl rqs
proof unfold_locales
  fix i oc now s b rep
  show "claims_kept rqs s \<Longrightarrow> i < length rqs \<Longrightarrow> \<not> overruns fp rqs i now s \<Longrightarrow>
      live (phase (charge_correct fp pool ttl rqs i oc now s) i) \<Longrightarrow>
      live (phase s i) \<or> \<not> others live rqs i s \<and> row_response (db s) (cq_key (rqs ! i)) = None"
    by (rule correct_owner)
  show "claims_kept rqs s \<Longrightarrow> i < length rqs \<Longrightarrow> \<not> overruns fp rqs i now s \<Longrightarrow>
      phase (charge_correct fp pool ttl rqs i oc now s) i = Answered (Resp 200 b rep) \<Longrightarrow>
      phase s i = Answered (Resp 200 b rep) \<or>
      b \<noteq> None \<and> row_response (db (charge_correct fp pool ttl rqs i oc now s)) (cq_key (rqs ! i)) = b"
    by (rule correct_reply)
qed (simp_all add: correct_keeps correct_charge [OF _ _ refl] correct_frame correct_idle,
  simp_all add: claims_kept_def charge_start_def row_response_def)

subsection \<open>The naive implementation: right behind a pool of one, and only there\<close>

definition naive_response :: "charge_db \<Rightarrow> string \<Rightarrow> json option" where
  "naive_response d k = (case naive_rows_of k d of [] \<Rightarrow> None | x # xs \<Rightarrow> nr_response x)"

fun naive_owner :: "charge_phase \<Rightarrow> bool" where
  "naive_owner No_row = True"
| "naive_owner (Row own) = True"
| "naive_owner (Row_worked own n) = True"
| "naive_owner (Marking own n ids) = True"
| "naive_owner (Marked own n ids) = True"
| "naive_owner _ = False"

fun owns_insert :: "charge_phase \<Rightarrow> bool" where
  "owns_insert (Row own) = (own \<noteq> None)"
| "owns_insert (Row_worked own n) = (own \<noteq> None)"
| "owns_insert (Marking own n ids) = (own \<noteq> None \<and> ids = [])"
| "owns_insert (Marked own n ids) = (own \<noteq> None \<and> ids = [])"
| "owns_insert No_row = True"
| "owns_insert _ = False"

definition one_at_a_time :: "charge_rq list \<Rightarrow> charge_sys \<Rightarrow> bool" where
  "one_at_a_time rqs s =
     ((\<forall>i<length rqs. \<forall>j<length rqs. connected (phase s i) \<longrightarrow> connected (phase s j) \<longrightarrow> i = j) \<and>
      (\<forall>i<length rqs. naive_owner (phase s i) \<longrightarrow> owns_insert (phase s i) \<and> naive_rows_of (cq_key (rqs ! i)) (db s) = []) \<and>
      (\<forall>k. naive_rows_of k (db s) = [] \<or> (\<exists>x. naive_rows_of k (db s) = [x] \<and> nr_state x = ''completed'' \<and> nr_response x \<noteq> None)))"

lemma connected_simps [simp]: "\<not> connected Idle" "\<not> connected (Answered r)"
  by (simp_all add: connected_def)

lemma naive_owner_connected: "naive_owner p \<Longrightarrow> connected p"
  by (cases p) (simp_all add: connected_def)

lemmas naive_simps = charge_naive_def Let_def stmt_phase stmt_db

lemma naive_frame: "j \<noteq> i \<Longrightarrow> phase (charge_naive pick fp pool ttl rqs i oc now s) j = phase s j"
  by (simp add: naive_simps split: charge_phase.split)

lemma naive_idle: "length rqs \<le> i \<Longrightarrow> charge_naive pick fp pool ttl rqs i oc now s = s"
  by (simp add: charge_naive_def Let_def)

lemma pool_one: "\<not> pool_full (Suc 0) rqs s \<longleftrightarrow> (\<forall>i<length rqs. \<not> connected (phase s i))"
  by (auto simp: pool_full_def filter_empty_conv Suc_le_eq)

lemma rows_of_seq [simp]: "naive_rows_of k (next_naive d) = naive_rows_of k d" "naive_rows_of k (next_charge d) = naive_rows_of k d"
  by (simp_all add: naive_rows_of_def)

lemma rows_of_commit:
  "naive_rows_of k (commit_naive f r (Some (m, ex)) n [] d) =
     naive_rows_of k d @ (if cq_key r = k then [\<lparr>nr_id = m, nr_key = cq_key r, nr_fp = f, nr_state = ''completed'',
       nr_response = Some (charge_doc (work_row r n)), nr_expires = ex\<rparr>] else [])"
  by (simp add: naive_rows_of_def commit_naive_def Let_def)

text \<open>What a step of the only connected request does.\<close>

lemma naive_step_cases:
  assumes "one_at_a_time rqs s" "i < length rqs"
    and s'_def: "s' = charge_naive pick fp (Suc 0) ttl rqs i oc now s"
  shows "(\<forall>k. naive_rows_of k (db s') = naive_rows_of k (db s)) \<and> charges (db s') = charges (db s) \<and>
      (connected (phase s' i) \<longrightarrow> connected (phase s i) \<or> (\<forall>j<length rqs. \<not> connected (phase s j))) \<and>
      (naive_owner (phase s' i) \<longrightarrow> owns_insert (phase s' i) \<and> naive_rows_of (cq_key (rqs ! i)) (db s) = []) \<and>
      (\<forall>b rep. phase s' i = Answered (Resp 200 b rep) \<longrightarrow> phase s i = phase s' i \<or>
         b \<noteq> None \<and> naive_response (db s) (cq_key (rqs ! i)) = b) \<or>
    (\<exists>m ex n. phase s i = Marked (Some (m, ex)) n [] \<and>
      db s' = commit_naive (fp (cq_body (rqs ! i))) (rqs ! i) (Some (m, ex)) n [] (db s) \<and>
      (\<exists>r. phase s' i = Answered r \<and> (\<forall>b rep. r = Resp 200 b rep \<longrightarrow> b = Some (charge_doc (work_row (rqs ! i) n)))))"
proof -
  have own: "naive_owner (phase s i) \<Longrightarrow> owns_insert (phase s i) \<and> naive_rows_of (cq_key (rqs ! i)) (db s) = []"
    using assms(1,2) unfolding one_at_a_time_def by blast
  note defs = s'_def naive_simps connected_def
  show ?thesis
  proof (cases "phase s i")
    case Idle
    then show ?thesis using assms(2) by (cases oc) (auto simp: s'_def naive_simps pool_one)
  next
  case Connected
  have "naive_rows_of (cq_key (rqs ! i)) (db s) = [] \<or>
      (\<exists>x. naive_rows_of (cq_key (rqs ! i)) (db s) = [x] \<and> nr_state x = ''completed'' \<and> nr_response x \<noteq> None)"
    using assms(1) by (simp add: one_at_a_time_def)
  then show ?thesis using Connected assms(2)
    by (cases oc) (auto simp: s'_def naive_simps first_row_def naive_response_def connected_def)
next
  case (Marked own n ids)
  then obtain m ex where "own = Some (m, ex)" "ids = []" using own by auto
  with Marked assms(2) show ?thesis by (cases oc) (auto simp: defs)
  next
    case No_row
    then show ?thesis using assms(2) own by (cases oc) (simp_all add: defs)
  next
    case (Row own)
    then show ?thesis using assms(2) own by (cases oc) (simp_all add: defs)
  next
    case (Row_worked own n)
    then show ?thesis using assms(2) own by (cases oc) (simp_all add: defs)
  next
    case (Marking own n ids)
    then show ?thesis using assms(2) own by (cases oc) (simp_all add: defs)
  qed (use assms(2) in \<open>simp_all add: defs\<close>)
qed

text \<open>The rows a step leaves, seen from outside.\<close>

lemma naive_step_rows:
  assumes "one_at_a_time rqs s" "i < length rqs"
    and s': "s' = charge_naive pick fp (Suc 0) ttl rqs i oc now s"
  shows "charges (db s') = charges (db s) \<and> naive_response (db s') = naive_response (db s) \<or>
    naive_owner (phase s i) \<and> \<not> naive_owner (phase s' i) \<and>
    (\<exists>c. ch_key c = cq_key (rqs ! i) \<and> charges (db s') = charges (db s) @ [c] \<and>
       naive_response (db s') = (naive_response (db s))(cq_key (rqs ! i) \<mapsto> charge_doc c))"
  using naive_step_cases [OF assms]
proof (elim disjE exE conjE)
  fix m ex n r
  assume c: "phase s i = Marked (Some (m, ex)) n []" "phase s' i = Answered r"
    and d: "db s' = commit_naive (fp (cq_body (rqs ! i))) (rqs ! i) (Some (m, ex)) n [] (db s)"
  have "naive_rows_of (cq_key (rqs ! i)) (db s) = []" using assms(1,2) c(1) by (simp add: one_at_a_time_def)
  with c d show ?thesis by (auto simp: naive_response_def rows_of_commit fun_eq_iff)
qed (simp add: naive_response_def fun_eq_iff)

lemma naive_step_keeps:
  assumes "one_at_a_time rqs s"
  shows "one_at_a_time rqs (charge_naive pick fp (Suc 0) ttl rqs i oc now s)"
proof (cases "i < length rqs")
  case i: True
  let ?s = "charge_naive pick fp (Suc 0) ttl rqs i oc now s"
  note fr = naive_frame [of _ i pick fp "Suc 0" ttl rqs oc now s]
  have old: "connected (phase s j) \<Longrightarrow> connected (phase s k) \<Longrightarrow> j < length rqs \<Longrightarrow> k < length rqs \<Longrightarrow> j = k"
    "naive_owner (phase s j) \<Longrightarrow> j < length rqs \<Longrightarrow> owns_insert (phase s j) \<and> naive_rows_of (cq_key (rqs ! j)) (db s) = []"
    "naive_rows_of key (db s) = [] \<or> (\<exists>x. naive_rows_of key (db s) = [x] \<and> nr_state x = ''completed'' \<and> nr_response x \<noteq> None)" for j k key
    using assms unfolding one_at_a_time_def by blast+
  show ?thesis using naive_step_cases [OF assms i refl, of pick fp ttl oc now]
  proof (elim disjE exE conjE)
    assume rows: "\<forall>k. naive_rows_of k (db ?s) = naive_rows_of k (db s)"
      and conn: "connected (phase ?s i) \<longrightarrow> connected (phase s i) \<or> (\<forall>j<length rqs. \<not> connected (phase s j))"
      and own: "naive_owner (phase ?s i) \<longrightarrow> owns_insert (phase ?s i) \<and> naive_rows_of (cq_key (rqs ! i)) (db s) = []"
    have "j = k" if "connected (phase ?s j)" "connected (phase ?s k)" "j < length rqs" "k < length rqs" for j k
      using that conn fr [of j] fr [of k] old(1) i by (metis (no_types))
    moreover have "owns_insert (phase ?s j) \<and> naive_rows_of (cq_key (rqs ! j)) (db s) = []"
      if "naive_owner (phase ?s j)" "j < length rqs" for j
      using that own fr [of j] old(2) [of j] by (cases "j = i") auto
    ultimately show ?thesis using old(3) rows unfolding one_at_a_time_def by simp
  next
    fix m ex n r
    assume c: "phase s i = Marked (Some (m, ex)) n []" "phase ?s i = Answered r"
      and d: "db ?s = commit_naive (fp (cq_body (rqs ! i))) (rqs ! i) (Some (m, ex)) n [] (db s)"
    have ci: "connected (phase s i)" and e: "naive_rows_of (cq_key (rqs ! i)) (db s) = []"
      using c(1) old(2) [of i] i by (simp_all add: connected_def)
    have none: "\<not> connected (phase ?s j)" if "j < length rqs" for j
    proof (cases "j = i")
      case False
      with old(1) [OF _ ci that i] fr [of j] show ?thesis by auto
    qed (use c(2) in \<open>simp add: connected_def\<close>)
    have "naive_rows_of k (db ?s) = [] \<or> (\<exists>x. naive_rows_of k (db ?s) = [x] \<and> nr_state x = ''completed'' \<and> nr_response x \<noteq> None)" for k
      using old(3) [of k] e by (cases "cq_key (rqs ! i) = k") (auto simp: d rows_of_commit)
    with none show ?thesis unfolding one_at_a_time_def using naive_owner_connected by blast
  qed
qed (use assms in \<open>simp add: naive_idle\<close>)

lemma naive_owner_step:
  assumes "one_at_a_time rqs s" "i < length rqs" "naive_owner (phase (charge_naive pick fp (Suc 0) ttl rqs i oc now s) i)"
  shows "naive_owner (phase s i) \<or> \<not> others naive_owner rqs i s \<and> naive_response (db s) (cq_key (rqs ! i)) = None"
proof -
  let ?s = "charge_naive pick fp (Suc 0) ttl rqs i oc now s"
  have c: "connected (phase ?s i)" using assms(3) by (rule naive_owner_connected)
  from naive_step_cases [OF assms(1,2) refl, of pick fp ttl oc now] assms(3)
  have "naive_rows_of (cq_key (rqs ! i)) (db s) = []" "connected (phase s i) \<or> (\<forall>j<length rqs. \<not> connected (phase s j))"
    using c by auto
  moreover from this(2) have "\<not> others naive_owner rqs i s"
    using assms(1,2) naive_owner_connected unfolding others_iff one_at_a_time_def by blast
  ultimately show ?thesis by (simp add: naive_response_def)
qed

lemma naive_reply:
  assumes "one_at_a_time rqs s" "i < length rqs" and s': "s' = charge_naive pick fp (Suc 0) ttl rqs i oc now s"
    and "phase s' i = Answered (Resp 200 b rep)"
  shows "phase s i = Answered (Resp 200 b rep) \<or> b \<noteq> None \<and> naive_response (db s') (cq_key (rqs ! i)) = b"
  using naive_step_cases [OF assms(1-3)]
proof (elim disjE exE conjE)
  fix m ex n r
  assume c: "phase s i = Marked (Some (m, ex)) n []" "phase s' i = Answered r"
      "\<forall>b rep. r = Resp 200 b rep \<longrightarrow> b = Some (charge_doc (work_row (rqs ! i) n))"
    and d: "db s' = commit_naive (fp (cq_body (rqs ! i))) (rqs ! i) (Some (m, ex)) n [] (db s)"
  have "naive_rows_of (cq_key (rqs ! i)) (db s) = []" using assms(1,2) c(1) by (simp add: one_at_a_time_def)
  moreover have "b = Some (charge_doc (work_row (rqs ! i) n))" using c(2,3) assms(4) by auto
  ultimately show ?thesis using d by (simp add: naive_response_def rows_of_commit)
qed (use assms(4) in \<open>auto simp: naive_response_def\<close>)

interpretation naive_serial: once_per_key "charge_naive pick fp (Suc 0) ttl rqs" rqs naive_owner naive_response "one_at_a_time rqs"
    "\<lambda>i oc now s. True" for pick fp ttl rqs
proof unfold_locales
  fix i oc now s b rep
  show "one_at_a_time rqs s \<Longrightarrow> i < length rqs \<Longrightarrow>
      phase (charge_naive pick fp (Suc 0) ttl rqs i oc now s) i = Answered (Resp 200 b rep) \<Longrightarrow>
      phase s i = Answered (Resp 200 b rep) \<or>
      b \<noteq> None \<and> naive_response (db (charge_naive pick fp (Suc 0) ttl rqs i oc now s)) (cq_key (rqs ! i)) = b"
    by (rule naive_reply [OF _ _ refl])
qed (simp_all add: naive_step_keeps naive_step_rows [OF _ _ refl] naive_owner_step naive_frame naive_idle,
  simp_all add: one_at_a_time_def charge_start_def naive_response_def naive_rows_of_def connected_def)

subsection \<open>What one transaction promises\<close>

definition rows_true :: "(int \<times> string \<Rightarrow> string) \<Rightarrow> charge_db \<Rightarrow> bool" where
  "rows_true fp d = (\<forall>k x. key_table d k = Some x \<longrightarrow> kw_state x = ''completed'' \<and>
     (\<exists>c\<in>set (charges d). ch_key c = k \<and> kw_response x = Some (charge_doc c) \<and> kw_fp x = fp (ch_amount c, ch_currency c)))"

lemma rows_trueD:
  "rows_true fp d \<Longrightarrow> key_table d k = Some x \<Longrightarrow>
   \<exists>c\<in>set (charges d). ch_key c = k \<and> kw_response x = Some (charge_doc c) \<and> kw_fp x = fp (ch_amount c, ch_currency c)"
  by (simp add: rows_true_def)

fun reply_true :: "string \<Rightarrow> key_row option \<Rightarrow> charge_phase \<Rightarrow> bool" where
  "reply_true f row (Answered (Resp st b rep)) = (case row of None \<Rightarrow> False
     | Some x \<Rightarrow> st = 200 \<and> b = kw_response x \<and> kw_fp x = f \<or> st = 422 \<and> b = None \<and> kw_fp x \<noteq> f)"
| "reply_true f row Loser = (row \<noteq> None)"
| "reply_true f row _ = True"

definition txn_true :: "(int \<times> string \<Rightarrow> string) \<Rightarrow> charge_rq list \<Rightarrow> charge_sys \<Rightarrow> bool" where
  "txn_true fp rqs s = (rows_true fp (db s) \<and>
     (\<forall>i<length rqs. reply_true (fp (cq_body (rqs ! i))) (key_table (db s) (cq_key (rqs ! i))) (phase s i)))"

lemma reply_true_kept:
  "reply_true f row p \<Longrightarrow> (\<And>x. row = Some x \<Longrightarrow> row' = Some x) \<Longrightarrow> reply_true f row' p"
  by (cases "(f, row, p)" rule: reply_true.cases) (auto split: option.splits)

text \<open>A committed row never changes, and the reply a step gives is the one its row calls for.\<close>

lemma txn_row_kept:
  assumes "single_txn.sound rqs s" "key_table (db s) k = Some x"
  shows "key_table (db (charge_correct_single_txn fp pool ttl rqs i oc now s)) k = Some x"
proof (cases "i < length rqs \<and> owns_key (phase s i) \<and> k = cq_key (rqs ! i)")
  case True
  then have "row_response (db s) k = None" using single_txn.soundD(3) [OF assms(1), of i] by simp
  moreover have "row_response (db s) k \<noteq> None"
    using single_txn.soundD(1) [OF assms(1)] assms(2) by (simp add: all_completed_def row_response_def)
  ultimately show ?thesis by simp
next
  case False
  with assms(2) show ?thesis by (cases oc) (auto simp: txn_simps split: charge_phase.split)
qed

lemma txn_rows_true:
  assumes "rows_true fp (db s)"
  shows "rows_true fp (db (charge_correct_single_txn fp pool ttl rqs i oc now s))"
proof (cases "i < length rqs \<and> took_effect oc \<and> (\<exists>ex n. phase s i = Owner_marked ex n)")
  case True
  then obtain ex n where p: "phase s i = Owner_marked ex n" by blast
  let ?c = "work_row (rqs ! i) n"
  have "charges (db (charge_correct_single_txn fp pool ttl rqs i oc now s)) = charges (db s) @ [?c]"
    "key_table (db (charge_correct_single_txn fp pool ttl rqs i oc now s)) = (key_table (db s))(cq_key (rqs ! i) \<mapsto>
       \<lparr>kw_fp = fp (cq_body (rqs ! i)), kw_state = ''completed'', kw_response = Some (charge_doc ?c), kw_expires = ex\<rparr>)"
    using True p by (simp_all add: txn_simps)
  moreover have "cq_body (rqs ! i) = (ch_amount ?c, ch_currency ?c)" by (simp add: cq_body_def work_row_def)
  ultimately show ?thesis using assms by (auto simp: rows_true_def)
next
  case False
  then have "charges (db (charge_correct_single_txn fp pool ttl rqs i oc now s)) = charges (db s)"
    "key_table (db (charge_correct_single_txn fp pool ttl rqs i oc now s)) = key_table (db s)"
    by (cases "phase s i"; auto simp: txn_simps)+
  then show ?thesis using assms by (simp add: rows_true_def)
qed

lemma txn_reply_true:
  assumes "rows_true fp (db s)" "i < length rqs" "reply_true (fp (cq_body (rqs ! i))) (key_table (db s) (cq_key (rqs ! i))) (phase s i)"
    and s'_def: "s' = charge_correct_single_txn fp pool ttl rqs i oc now s"
  shows "reply_true (fp (cq_body (rqs ! i))) (key_table (db s') (cq_key (rqs ! i))) (phase s' i)"
  using assms(2,3)
  by (cases "phase s i"; cases oc)
    (auto simp: s'_def txn_simps loser_reply_def replay_or_conflict_def split: option.splits
      dest: assms(1) [unfolded rows_true_def, rule_format])

lemma only_element: "c \<in> set xs \<Longrightarrow> xs = [] \<or> (\<exists>d. xs = [d]) \<Longrightarrow> xs = [c]"
  by auto

lemma txn_true_step:
  assumes "single_txn.sound rqs s" "txn_true fp rqs s"
  shows "txn_true fp rqs (charge_correct_single_txn fp pool ttl rqs i oc now s)"
proof -
  let ?s = "charge_correct_single_txn fp pool ttl rqs i oc now s"
  have rows: "rows_true fp (db s)" using assms(2) by (simp add: txn_true_def)
  have "reply_true (fp (cq_body (rqs ! j))) (key_table (db ?s) (cq_key (rqs ! j))) (phase ?s j)" if "j < length rqs" for j
  proof (cases "j = i")
    case True
    with that assms(2) txn_reply_true [OF rows _ _ refl] show ?thesis by (simp add: txn_true_def)
  next
    case False
    then have "phase ?s j = phase s j" by (simp add: txn_simps split: charge_phase.split)
    with that assms(2) reply_true_kept txn_row_kept [OF assms(1)] show ?thesis by (auto simp: txn_true_def)
  qed
  then show ?thesis using txn_rows_true [OF rows] by (simp add: txn_true_def)
qed

lemma txn_true_run:
  "single_txn.sound rqs s \<Longrightarrow> txn_true fp rqs s \<Longrightarrow>
   single_txn.sound rqs (charge_run (charge_correct_single_txn fp pool ttl rqs) evs s) \<and>
   txn_true fp rqs (charge_run (charge_correct_single_txn fp pool ttl rqs) evs s)"
proof (induction evs arbitrary: s)
  case (Cons e evs)
  obtain i oc now where "e = (i, oc, now)" by (cases e) auto
  with Cons txn_true_step single_txn.sound_step show ?case by (simp add: charge_run_def)
qed (simp add: charge_run_def)

text \<open>
  C7. The single transaction, for any requests, any order of their statements, any failures and any pool: an answer is
  never a 409; there is then exactly one charge for its key, and the answer is 200 with the document of that charge if the
  body has the fingerprint of the charged one, and 422 without a document otherwise.
\<close>

theorem single_txn_correct:
  assumes "i < length rqs" "phase (charge_run (charge_correct_single_txn fp pool ttl rqs) evs charge_start) i = Answered (Resp st b rep)"
  shows "\<exists>c. filter (\<lambda>c. ch_key c = cq_key (rqs ! i)) (charges (db (charge_run (charge_correct_single_txn fp pool ttl rqs) evs charge_start))) = [c] \<and>
    (if fp (ch_amount c, ch_currency c) = fp (cq_body (rqs ! i)) then st = 200 \<and> b = Some (charge_doc c) else st = 422 \<and> b = None)"
proof -
  let ?s = "charge_run (charge_correct_single_txn fp pool ttl rqs) evs charge_start"
  have "txn_true fp rqs charge_start" by (simp add: txn_true_def rows_true_def charge_start_def)
  from txn_true_run [OF single_txn.sound_start this] have s: "single_txn.sound rqs ?s" and t: "txn_true fp rqs ?s" by blast+
  from t assms obtain x where x: "key_table (db ?s) (cq_key (rqs ! i)) = Some x"
    "st = 200 \<and> b = kw_response x \<and> kw_fp x = fp (cq_body (rqs ! i)) \<or> st = 422 \<and> b = None \<and> kw_fp x \<noteq> fp (cq_body (rqs ! i))"
    by (fastforce simp: txn_true_def split: option.splits)
  moreover have "rows_true fp (db ?s)" using t by (simp add: txn_true_def)
  ultimately obtain c where c: "c \<in> set (charges (db ?s))" "ch_key c = cq_key (rqs ! i)" "kw_response x = Some (charge_doc c)"
    "kw_fp x = fp (ch_amount c, ch_currency c)" using rows_trueD by blast
  then have "c \<in> set (filter (\<lambda>c. ch_key c = cq_key (rqs ! i)) (charges (db ?s)))" by simp
  then have "filter (\<lambda>c. ch_key c = cq_key (rqs ! i)) (charges (db ?s)) = [c]"
    by (rule only_element) (use single_txn.soundD(4) [OF s, of "cq_key (rqs ! i)"] in blast)
  with x(2) c show ?thesis by auto
qed

theorem single_txn_correct_witness:
  "\<exists>c. filter (\<lambda>c. ch_key c = ''k'') (charges (db (charge_run (charge_correct_single_txn snd 5 60 [\<lparr>cq_key = ''k'', cq_amount = 42, cq_currency = ''usd''\<rparr>])
     (replicate 5 (0, Fine, 1)) charge_start))) = [c]"
  using single_txn_correct [of 0 "[\<lparr>cq_key = ''k'', cq_amount = 42, cq_currency = ''usd''\<rparr>]" snd 5 60 "replicate 5 (0, Fine, 1)"
      200 "Some (charge_doc \<lparr>ch_id = 1, ch_key = ''k'', ch_amount = 42, ch_currency = ''usd''\<rparr>)" False]
  by (simp add: charge_run_def charge_start_def eval_nat_numeral charge_correct_single_txn_def stmt_def Let_def pool_full_def others_def
      work_row_def next_charge_def charge_doc_def)

subsection \<open>What claiming promises, and what it does not\<close>

text \<open>No event of the run takes an expired claim over from a request that still runs.\<close>

fun in_time :: "(int \<times> string \<Rightarrow> string) \<Rightarrow> nat \<Rightarrow> int \<Rightarrow> charge_rq list \<Rightarrow> charge_event list \<Rightarrow> charge_sys \<Rightarrow> bool" where
  "in_time fp pool ttl rqs [] s = True"
| "in_time fp pool ttl rqs ((i, oc, now) # evs) s =
     (\<not> overruns fp rqs i now s \<and> in_time fp pool ttl rqs evs (charge_correct fp pool ttl rqs i oc now s))"

lemma in_time_admits: "in_time fp pool ttl rqs evs s = correct.admits fp pool ttl rqs evs s"
  by (induction evs arbitrary: s) auto

text \<open>
  C8. Claim, then execute: as long as no claim expires under a request that still runs, every key is charged at most once,
  and every 200, first answer or replay, carries the document of the one charge of its key.
\<close>

theorem claims_charge_once:
  assumes "in_time fp pool ttl rqs evs charge_start" and "i < length rqs"
  shows "length (filter (\<lambda>c. ch_key c = k) (charges (db (charge_run (charge_correct fp pool ttl rqs) evs charge_start)))) \<le> 1 \<and>
    (phase (charge_run (charge_correct fp pool ttl rqs) evs charge_start) i = Answered (Resp 200 b rep) \<longrightarrow>
      (\<exists>c. filter (\<lambda>c. ch_key c = cq_key (rqs ! i)) (charges (db (charge_run (charge_correct fp pool ttl rqs) evs charge_start))) = [c] \<and>
        b = Some (charge_doc c)))"
  using correct.charged_once correct.replies_name_the_charge assms unfolding in_time_admits by blast

lemmas charge_eval = charge_run_def charge_start_def eval_nat_numeral charge_correct_def stmt_def Let_def pool_full_def others_def
  connected_def claim_key_def put_key_def complete_key_def next_charge_def add_charge_def work_row_def

theorem claims_charge_once_witness:
  "length (filter (\<lambda>c. ch_key c = ''k'') (charges (db (charge_run
     (charge_correct snd 2 60 [\<lparr>cq_key = ''k'', cq_amount = 42, cq_currency = ''usd''\<rparr>, \<lparr>cq_key = ''k'', cq_amount = 42, cq_currency = ''usd''\<rparr>])
     (replicate 6 (0, Fine, 1) @ replicate 4 (1, Fine, 2)) charge_start)))) \<le> 1"
  using claims_charge_once [of snd 2 60 "[\<lparr>cq_key = ''k'', cq_amount = 42, cq_currency = ''usd''\<rparr>, \<lparr>cq_key = ''k'', cq_amount = 42, cq_currency = ''usd''\<rparr>]"
      "replicate 6 (0, Fine, 1) @ replicate 4 (1, Fine, 2)" 0 "''k''"]
  by (simp add: charge_eval overruns_def)

text \<open>The condition holds when the whole run takes no longer than the TTL, crashes included.\<close>

definition not_due :: "int \<Rightarrow> charge_sys \<Rightarrow> bool" where
  "not_due t s = (\<forall>k x. key_table (db s) k = Some x \<longrightarrow> kw_state x = ''in_progress'' \<longrightarrow> t \<le> kw_expires x)"

lemma not_due_step:
  assumes "not_due t s" "t \<le> now + ttl"
  shows "not_due t (charge_correct fp pool ttl rqs i oc now s)"
proof (cases "i < length rqs")
  case True
  show ?thesis using correct_table [OF True, of fp pool ttl oc now s, unfolded Let_def]
  proof (elim disjE exE conjE)
    fix x assume "claim_key (fp (cq_body (rqs ! i))) ttl now (key_table (db s) (cq_key (rqs ! i))) = Some x"
      "db (charge_correct fp pool ttl rqs i oc now s) = put_key (cq_key (rqs ! i)) x (db s)"
    with assms show ?thesis by (auto simp: not_due_def claim_key_def split: option.splits if_splits)
  qed (use assms in \<open>auto simp: not_due_def complete_key_def split: option.split\<close>)
qed (use assms in \<open>simp add: correct_idle\<close>)

lemma short_runs_are_in_time:
  "not_due (t + ttl) s \<Longrightarrow> \<forall>(i, oc, now)\<in>set evs. t \<le> now \<and> now \<le> t + ttl \<Longrightarrow> in_time fp pool ttl rqs evs s"
proof (induction evs arbitrary: s)
  case (Cons e evs)
  obtain i oc now where e: "e = (i, oc, now)" by (cases e) auto
  have "\<not> overruns fp rqs i now s" 
  proof
    assume "overruns fp rqs i now s"
    then obtain x where "key_table (db s) (cq_key (rqs ! i)) = Some x" "kw_state x = ''in_progress''" "kw_expires x < now"
      by (auto simp: overruns_def split: option.splits)
    with Cons.prems(1) have "t + ttl < now" unfolding not_due_def by fastforce
    with Cons.prems(2) e show False by simp
  qed
  moreover have "in_time fp pool ttl rqs evs (charge_correct fp pool ttl rqs i oc now s)"
    using Cons.prems e by (intro Cons.IH not_due_step) auto
  ultimately show ?case by (simp add: e)
qed simp

text \<open>Beyond the TTL a holder that is merely slow is charged for twice, and the two callers hold different documents.\<close>

lemma slow_holder_charges_twice:
  assumes "cq_key r = k" "0 \<le> ttl"
  shows "let s = charge_run (charge_correct fp 2 ttl [r, r])
      ([(0, Fine, 0), (0, Fine, 0), (0, Fine, 0), (0, Fine, 0)] @ replicate 6 (1, Fine, ttl + 1) @ [(0, Fine, ttl + 2), (0, Fine, ttl + 2)]) charge_start in
    map ch_key (charges (db s)) = [k, k] \<and>
    phase s 0 = Answered (Resp 200 (Some (charge_doc (work_row r 1))) False) \<and>
    phase s 1 = Answered (Resp 200 (Some (charge_doc (work_row r 2))) False)"
  using assms
  by (simp add: charge_eval)

text \<open>
  A claim whose holder died is taken over by a retry with the same body once it has expired; for every other body the key
  stays refused, for ever.
\<close>

definition abandoned :: "charge_rq list \<Rightarrow> string \<Rightarrow> key_row \<Rightarrow> charge_sys \<Rightarrow> bool" where
  "abandoned rqs k x s = (key_table (db s) k = Some x \<and> kw_state x = ''in_progress'' \<and>
     (\<forall>i<length rqs. cq_key (rqs ! i) = k \<longrightarrow> \<not> live (phase s i) \<and>
        (\<forall>st b rep. phase s i = Answered (Resp st b rep) \<longrightarrow> st = 422)))"

lemma abandoned_step:
  assumes "abandoned rqs k x s" "\<forall>r\<in>set rqs. cq_key r = k \<longrightarrow> fp (cq_body r) \<noteq> kw_fp x"
    and s': "s' = charge_correct fp pool ttl rqs i oc now s"
  shows "abandoned rqs k x s' \<and> filter (\<lambda>c. ch_key c = k) (charges (db s')) = filter (\<lambda>c. ch_key c = k) (charges (db s))"
proof (cases "i < length rqs")
  case i: True
  have row: "key_table (db s) k = Some x" "kw_state x = ''in_progress''"
    and st: "cq_key (rqs ! j) = k \<Longrightarrow> j < length rqs \<Longrightarrow> \<not> live (phase s j)"
    "cq_key (rqs ! j) = k \<Longrightarrow> j < length rqs \<Longrightarrow> phase s j = Answered (Resp st b rep) \<Longrightarrow> st = 422" for j st b rep
    using assms(1) by (auto simp: abandoned_def)
  have fr: "phase s' j = phase s j" if "j \<noteq> i" for j using that s' by (simp add: correct_frame)
  show ?thesis
  proof (cases "cq_key (rqs ! i) = k")
    case True
    with assms(2) i have fp: "fp (cq_body (rqs ! i)) \<noteq> kw_fp x" by auto
    then have "claim_key (fp (cq_body (rqs ! i))) ttl now (Some x) = None" by (simp add: claim_key_def)
    with True row st(1) [OF True i] fp i
    have "db s' = db s \<and> \<not> live (phase s' i) \<and> (\<forall>st b rep. phase s' i = Answered (Resp st b rep) \<longrightarrow> st = 422 \<or> phase s i = phase s' i)"
      by (cases "phase s i"; cases oc) (auto simp: s' charge_correct_def Let_def stmt_phase stmt_db replay_or_conflict_def)
    then show ?thesis using row st fr i unfolding abandoned_def by (metis True)
  next
    case False
    have "key_table (db s') k = key_table (db s) k" "filter (\<lambda>c. ch_key c = k) (charges (db s')) = filter (\<lambda>c. ch_key c = k) (charges (db s))"
      using correct_table [OF i, of fp pool ttl oc now s, folded s'] False
      by (auto simp: Let_def complete_key_def split: option.splits)
    then show ?thesis using row st fr False unfolding abandoned_def by metis
  qed
qed (use assms(1) s' in \<open>simp add: correct_idle\<close>)

theorem orphan_refuses_other_bodies:
  assumes "abandoned rqs k x s" "\<forall>r\<in>set rqs. cq_key r = k \<longrightarrow> fp (cq_body r) \<noteq> kw_fp x"
  shows "abandoned rqs k x (charge_run (charge_correct fp pool ttl rqs) evs s) \<and>
    filter (\<lambda>c. ch_key c = k) (charges (db (charge_run (charge_correct fp pool ttl rqs) evs s))) = filter (\<lambda>c. ch_key c = k) (charges (db s))"
  using assms(1)
proof (induction evs arbitrary: s)
  case (Cons e evs)
  obtain i oc now where "e = (i, oc, now)" by (cases e) auto
  with Cons abandoned_step [OF Cons.prems assms(2) refl, of pool ttl i oc now] show ?case by (simp add: charge_run_def)
qed (simp add: charge_run_def)


subsection \<open>The retrying client\<close>

text \<open>A request that runs alone; nothing else of the server is in progress.\<close>

definition quiet_but :: "charge_rq list \<Rightarrow> nat \<Rightarrow> charge_sys \<Rightarrow> bool" where
  "quiet_but rqs i s = (\<forall>j<length rqs. j \<noteq> i \<longrightarrow> phase s j = Idle \<or> (\<exists>r. phase s j = Answered r))"

definition call :: "(int \<times> string \<Rightarrow> string) \<Rightarrow> nat \<Rightarrow> int \<Rightarrow> charge_rq list \<Rightarrow> nat \<Rightarrow> int \<Rightarrow> charge_sys \<Rightarrow> charge_sys" where
  "call fp pool ttl rqs i now s = charge_run (charge_correct fp pool ttl rqs) (replicate 6 (i, Fine, now)) s"

fun answer_of :: "charge_phase \<Rightarrow> charge_reply" where
  "answer_of (Answered r) = r" | "answer_of p = Exn ''unanswered''"

text \<open>\<^verbatim>\<open>ambiguous_client\<close>: one entry per attempt, whether its response is lost and the time.\<close>

fun ambiguous_client :: "(int \<times> string \<Rightarrow> string) \<Rightarrow> nat \<Rightarrow> int \<Rightarrow> charge_rq list \<Rightarrow> nat \<Rightarrow> (bool \<times> int) list \<Rightarrow> charge_sys \<Rightarrow> charge_reply \<times> charge_sys" where
  "ambiguous_client fp pool ttl rqs i [] s = (Resp 504 None False, s)"
| "ambiguous_client fp pool ttl rqs i ((lost, now) # attempts) s =
     (let s1 = call fp pool ttl rqs i now s in
      case answer_of (phase s1 i) of
        Exn e \<Rightarrow> (Exn e, s1)
      | Resp st b rep \<Rightarrow>
          if st = 409 \<or> lost then ambiguous_client fp pool ttl rqs (Suc i) attempts s1
          else (Resp st b rep, s1))"

lemma quiet_free:
  assumes "quiet_but rqs i s"
  shows "\<not> others completing rqs i s" "\<not> connected (phase s i) \<Longrightarrow> 0 < pool \<Longrightarrow> \<not> pool_full pool rqs s"
proof -
  show "\<not> others completing rqs i s" using assms unfolding quiet_but_def others_iff by auto
  assume a: "\<not> connected (phase s i)" "0 < pool"
  have "filter (\<lambda>j. connected (phase s j)) [0..<length rqs] = []"
    using assms a(1) unfolding quiet_but_def filter_empty_conv by (metis atLeastLessThan_iff connected_simps set_upt)
  with a(2) show "\<not> pool_full pool rqs s" by (simp add: pool_full_def)
qed

definition at_phase :: "nat \<Rightarrow> charge_db \<Rightarrow> charge_phase \<Rightarrow> charge_sys \<Rightarrow> charge_sys" where
  "at_phase i d p s = s\<lparr>db := d, phase := (phase s)(i := p)\<rparr>"

lemma at_phase_simps [simp]:
  "db (at_phase i d p s) = d" "phase (at_phase i d p s) i = p" "quiet_but rqs i (at_phase i d p s) = quiet_but rqs i s"
  by (auto simp: at_phase_def quiet_but_def)

lemma stmt_alone: "stmt i False Fine eff q (at_phase i d p s) = at_phase i (eff d) q s"
  by (simp add: stmt_def at_phase_def)

lemma step_alone:
  assumes "quiet_but rqs i s" "i < length rqs" "0 < pool"
  shows "charge_correct fp pool ttl rqs i Fine now (at_phase i d p s) =
    (let r = rqs ! i; f = fp (cq_body r); row = key_table d (cq_key r) in case p of
       Idle \<Rightarrow> at_phase i d Connected s
     | Connected \<Rightarrow> (case claim_key f ttl now row of Some x \<Rightarrow> at_phase i (put_key (cq_key r) x d) Won s | None \<Rightarrow> at_phase i d Lost s)
     | Lost \<Rightarrow> at_phase i d Reading s
     | Reading \<Rightarrow> at_phase i d (Answered (replay_or_conflict f row)) s
     | Won \<Rightarrow> at_phase i d Executing s
     | Executing \<Rightarrow> at_phase i (next_charge d) (Executed (charge_seq d)) s
     | Executed n \<Rightarrow> at_phase i d (Completing n) s
     | Completing n \<Rightarrow> at_phase i (add_charge (work_row r n) (complete_key r n d))
         (Answered (Resp 200 (Some (charge_doc (work_row r n))) False)) s
     | _ \<Rightarrow> at_phase i d p s)"
proof -
  have free: "\<not> others completing rqs i (at_phase i d p s)" "\<not> connected p \<Longrightarrow> \<not> pool_full pool rqs (at_phase i d p s)"
    using quiet_free [of rqs i "at_phase i d p s"] assms(1,3) by simp_all
  show ?thesis using assms(2) free
    by (cases p) (simp_all add: charge_correct_def Let_def stmt_alone connected_def split: option.split)
qed

lemma at_phase_self: "at_phase i (db s) (phase s i) s = s"
  by (simp add: at_phase_def)

text \<open>A call that runs alone: it charges when the claim is its own, and otherwise answers from the row.\<close>

lemma call_alone:
  assumes "quiet_but rqs i s" "phase s i = Idle" "i < length rqs" "0 < pool"
  shows "call fp pool ttl rqs i now s =
    (let r = rqs ! i; k = cq_key r; n = charge_seq (db s) in
     case claim_key (fp (cq_body r)) ttl now (key_table (db s) k) of
       None \<Rightarrow> at_phase i (db s) (Answered (replay_or_conflict (fp (cq_body r)) (key_table (db s) k))) s
     | Some x \<Rightarrow> at_phase i (add_charge (work_row r n) (complete_key r n (next_charge (put_key k x (db s)))))
         (Answered (Resp 200 (Some (charge_doc (work_row r n))) False)) s)"
proof -
  have "call fp pool ttl rqs i now s = charge_run (charge_correct fp pool ttl rqs) (replicate 6 (i, Fine, now)) (at_phase i (db s) Idle s)"
    using at_phase_self [of i s] assms(2) by (simp add: call_def)
  moreover have "charge_seq (put_key k x d) = charge_seq d" for k x d by (simp add: put_key_def)
  ultimately show ?thesis
    by (simp add: charge_run_def eval_nat_numeral step_alone [OF assms(1,3,4)] Let_def split: option.split)
qed

lemma seq_simps [simp]: "charge_seq (add_charge c d) = charge_seq d" "charge_seq (put_key k x d) = charge_seq d"
  "charge_seq (complete_key r n d) = charge_seq d"
  by (simp_all add: add_charge_def put_key_def complete_key_def split: option.split)

text \<open>After the first attempt the row is completed, and every later one replays it and changes nothing.\<close>

lemma client_replays:
  assumes "\<forall>j<length rqs. rqs ! j = r" "i + length attempts \<le> length rqs" "0 < pool"
    and "\<forall>j<length rqs. j < i \<longrightarrow> (\<exists>a. phase s j = Answered a)" "\<forall>j<length rqs. i \<le> j \<longrightarrow> phase s j = Idle"
    and "key_table (db s) (cq_key r) = Some x" "kw_state x = ''completed''" "kw_fp x = fp (cq_body r)"
  shows "let (a, s') = ambiguous_client fp pool ttl rqs i attempts s in
    db s' = db s \<and> a = (if list_all fst attempts then Resp 504 None False else Resp 200 (kw_response x) True)"
  using assms(2,4-)
proof (induction attempts arbitrary: i s)
  case (Cons t attempts)
  obtain lost now where t: "t = (lost, now)" by (cases t)
  have i: "i < length rqs" "rqs ! i = r" using Cons.prems(1) assms(1) by auto
  have q: "quiet_but rqs i s" using Cons.prems(2,3) unfolding quiet_but_def by (meson linorder_le_less_linear)
  have "claim_key (fp (cq_body r)) ttl now (Some x) = None" using Cons.prems(5) by (simp add: claim_key_def)
  then have c: "call fp pool ttl rqs i now s = at_phase i (db s) (Answered (Resp 200 (kw_response x) True)) s"
    using call_alone [OF q _ i(1) assms(3), of fp ttl now] Cons.prems(3-6) i
    by (simp add: Let_def replay_or_conflict_def)
  have "phase (at_phase i d p s) j = (if j = i then p else phase s j)" for d p j by (simp add: at_phase_def)
  with Cons.IH [of "Suc i" "at_phase i (db s) (Answered (Resp 200 (kw_response x) True)) s"] Cons.prems i
  have "let (a, s') = ambiguous_client fp pool ttl rqs (Suc i) attempts (at_phase i (db s) (Answered (Resp 200 (kw_response x) True)) s) in
    db s' = db s \<and> a = (if list_all fst attempts then Resp 504 None False else Resp 200 (kw_response x) True)"
    by (auto simp: Suc_le_eq less_Suc_eq)
  then show ?case using c by (auto simp: t Let_def)
qed simp

text \<open>
  The ambiguous result made safe: a client that retries a fresh key, whatever responses are lost, causes exactly one
  charge; unless every response is lost it is told about that very charge, and otherwise gives up with a 504 although the
  charge is made.
\<close>

theorem retries_charge_once:
  assumes "attempts \<noteq> []" "length attempts \<le> n" "0 < pool"
    and "\<forall>j<n. phase s j = Idle" "key_table (db s) (cq_key r) = None"
  shows "let (a, s') = ambiguous_client fp pool ttl (replicate n r) 0 attempts s; c = work_row r (charge_seq (db s)) in
    charges (db s') = charges (db s) @ [c] \<and>
    a = (if list_all fst attempts then Resp 504 None False else Resp 200 (Some (charge_doc c)) (fst (hd attempts)))"
proof -
  obtain lost now rest where at: "attempts = (lost, now) # rest" using assms(1) by (metis list.exhaust prod.exhaust)
  let ?c = "work_row r (charge_seq (db s))" and ?k = "cq_key r"
  let ?x = "\<lparr>kw_fp = fp (cq_body r), kw_state = ''in_progress'', kw_response = None, kw_expires = now + ttl\<rparr>"
  let ?d = "add_charge ?c (complete_key r (charge_seq (db s)) (next_charge (put_key ?k ?x (db s))))"
  let ?s1 = "at_phase 0 ?d (Answered (Resp 200 (Some (charge_doc ?c)) False)) s"
  have n: "0 < n" using assms(2) at by auto
  have q: "quiet_but (replicate n r) 0 s" using assms(4) by (simp add: quiet_but_def)
  have c: "call fp pool ttl (replicate n r) 0 now s = ?s1"
    using call_alone [OF q _ _ assms(3), of fp ttl now] assms(4,5) n by (simp add: Let_def claim_key_def)
  have row: "key_table ?d ?k = Some (?x\<lparr>kw_state := ''completed'', kw_response := Some (charge_doc ?c)\<rparr>)"
    by (simp add: complete_key_def)
  have ch: "charges ?d = charges (db s) @ [?c]" by simp
  have ph: "phase ?s1 j = (if j = 0 then Answered (Resp 200 (Some (charge_doc ?c)) False) else phase s j)" for j
    by (simp add: at_phase_def)
  show ?thesis
  proof (cases lost)
    case True
    have "let (a, s') = ambiguous_client fp pool ttl (replicate n r) (Suc 0) rest ?s1 in db s' = db ?s1 \<and>
        a = (if list_all fst rest then Resp 504 None False else
             Resp 200 (kw_response (?x\<lparr>kw_state := ''completed'', kw_response := Some (charge_doc ?c)\<rparr>)) True)"
      by (rule client_replays [where r = r]) (use assms(2-4) at row ph in \<open>auto simp: Suc_le_eq\<close>)
    with True c ch at show ?thesis by (auto simp: Let_def)
  next
    case False
    with c ch at show ?thesis by (simp add: Let_def)
  qed
qed

theorem retries_charge_once_witness:
  "charges (db (snd (ambiguous_client snd 1 60 (replicate 2 \<lparr>cq_key = ''k'', cq_amount = 42, cq_currency = ''usd''\<rparr>) 0
     [(True, 1), (False, 2)] charge_start))) = [\<lparr>ch_id = 1, ch_key = ''k'', ch_amount = 42, ch_currency = ''usd''\<rparr>]"
  using retries_charge_once [of "[(True, 1), (False, 2)]" 2 1 charge_start "\<lparr>cq_key = ''k'', cq_amount = 42, cq_currency = ''usd''\<rparr>" snd 60]
  by (simp add: charge_start_def work_row_def Let_def case_prod_beta del: ambiguous_client.simps)

subsection \<open>The race, and the limit that hides it\<close>

text \<open>
  Behind a pool of one connection the naive implementation charges every key at most once, in any order of events and
  with any failures: the smaller limit hides the race completely.
\<close>

theorem naive_pool_of_one:
  "length (filter (\<lambda>c. ch_key c = k) (charges (db (charge_run (charge_naive pick fp 1 ttl rqs) evs charge_start)))) \<le> 1"
proof -
  have "naive_serial.admits pick fp ttl rqs evs s" for s by (induction evs arbitrary: s) auto
  then show ?thesis using naive_serial.charged_once by simp
qed

text \<open>With a connection for everyone, requests that move in step are all charged.\<close>

definition lockstep :: "nat \<Rightarrow> charge_event list" where
  "lockstep n = concat (replicate 7 (map (\<lambda>i. (i, Fine, 0)) [0..<n]))"

fun naive_stage_of :: "charge_phase \<Rightarrow> nat" where
  "naive_stage_of Idle = 0"
| "naive_stage_of Connected = 1"
| "naive_stage_of No_row = 2"
| "naive_stage_of (Row (Some x)) = 3"
| "naive_stage_of (Row_worked (Some x) n) = 4"
| "naive_stage_of (Marking (Some x) n []) = 5"
| "naive_stage_of (Marked (Some x) n []) = 6"
| "naive_stage_of _ = 7"

lemma idle_not_full:
  assumes "phase s i = Idle" "i < length rqs" "length rqs \<le> pool"
  shows "\<not> pool_full pool rqs s"
proof -
  have "length (filter (\<lambda>j. connected (phase s j)) [0..<length rqs]) < length [0..<length rqs]"
    by (rule length_filter_less [of i]) (use assms in simp_all)
  with assms(3) show ?thesis by (simp add: pool_full_def)
qed

text \<open>Before the commits, a step takes a request to the next naive_stage_of and nothing becomes visible.\<close>

lemma naive_stage:
  assumes "i < n" "n \<le> pool" "naive_table (db s) = []" "naive_stage_of (phase s i) < 6"
    and s'_def: "s' = charge_naive pick fp pool ttl (replicate n r) i Fine 0 s"
  shows "naive_stage_of (phase s' i) = Suc (naive_stage_of (phase s i)) \<and> naive_table (db s') = [] \<and> charges (db s') = charges (db s)"
proof -
  have "\<not> pool_full pool (replicate n r) s" if "phase s i = Idle" using idle_not_full that assms(1,2) by simp
  moreover have "others (marks_row []) (replicate n r) i s = False"
  proof -
    have "\<not> marks_row [] p" for p by (cases "([] :: nat list, p)" rule: marks_row.cases) simp_all
    then show ?thesis by (simp add: others_iff)
  qed
  ultimately show ?thesis using assms(1,3,4)
    by (cases "phase s i" rule: naive_stage_of.cases)
      (simp_all add: s'_def charge_naive_def Let_def stmt_phase stmt_db first_row_def naive_rows_of_def next_naive_def)
qed

lemma naive_round:
  assumes "n \<le> pool" "k < 6" "naive_table (db s) = []" "charges (db s) = []" "\<forall>i<n. naive_stage_of (phase s i) = k" "m \<le> n"
    and s'_def: "s' = fold (\<lambda>i. charge_naive pick fp pool ttl (replicate n r) i Fine 0) [0..<m] s"
  shows "naive_table (db s') = [] \<and> charges (db s') = [] \<and> (\<forall>i<n. naive_stage_of (phase s' i) = (if i < m then Suc k else k))"
  unfolding s'_def using assms(6)
proof (induction m)
  case 0
  show ?case using assms(3-5) by simp
next
  case (Suc m)
  let ?s = "fold (\<lambda>i. charge_naive pick fp pool ttl (replicate n r) i Fine 0) [0..<m] s"
  have IH: "naive_table (db ?s) = []" "charges (db ?s) = []" "\<forall>i<n. naive_stage_of (phase ?s i) = (if i < m then Suc k else k)"
    using Suc by simp_all
  have m: "m < n" and st: "naive_stage_of (phase ?s m) = k" using Suc.prems IH(3) by simp_all
  from naive_stage [OF m assms(1) IH(1) _ refl, of pick fp ttl r] st assms(2)
  have "naive_stage_of (phase (charge_naive pick fp pool ttl (replicate n r) m Fine 0 ?s) m) = Suc k"
    "naive_table (db (charge_naive pick fp pool ttl (replicate n r) m Fine 0 ?s)) = []"
    "charges (db (charge_naive pick fp pool ttl (replicate n r) m Fine 0 ?s)) = []" using IH(2) by simp_all
  moreover have "phase (charge_naive pick fp pool ttl (replicate n r) m Fine 0 ?s) j = phase ?s j" if "j \<noteq> m" for j
    using that by (rule naive_frame)
  ultimately show ?case using IH(3) by (auto simp: less_Suc_eq)
qed

lemma naive_round_commits:
  assumes "\<forall>i<n. naive_stage_of (phase s i) = 6" "charges (db s) = []" "m \<le> n"
    and s'_def: "s' = fold (\<lambda>i. charge_naive pick fp pool ttl (replicate n r) i Fine 0) [0..<m] s"
  shows "length (charges (db s')) = m \<and> (\<forall>i<n. m \<le> i \<longrightarrow> naive_stage_of (phase s' i) = 6)"
  unfolding s'_def using assms(3)
proof (induction m)
  case (Suc m)
  let ?s = "fold (\<lambda>i. charge_naive pick fp pool ttl (replicate n r) i Fine 0) [0..<m] s"
  have m: "m < n" "naive_stage_of (phase ?s m) = 6" using Suc by simp_all
  then have "length (charges (db (charge_naive pick fp pool ttl (replicate n r) m Fine 0 ?s))) = Suc (length (charges (db ?s)))"
    by (cases "phase ?s m" rule: naive_stage_of.cases) (simp_all add: charge_naive_def Let_def stmt_db)
  moreover have "phase (charge_naive pick fp pool ttl (replicate n r) m Fine 0 ?s) j = phase ?s j" if "j \<noteq> m" for j
    using that by (rule naive_frame)
  ultimately show ?case using Suc by simp
qed (use assms(1,2) in simp)

theorem naive_race_charges_all:
  assumes "n \<le> pool"
  shows "length (charges (db (charge_run (charge_naive pick fp pool ttl (replicate n r)) (lockstep n) charge_start))) = n"
proof -
  let ?f = "fold (\<lambda>i. charge_naive pick fp pool ttl (replicate n r) i Fine 0) [0..<n]"
  have rounds: "k \<le> 6 \<Longrightarrow> naive_table (db ((?f ^^ k) charge_start)) = [] \<and> charges (db ((?f ^^ k) charge_start)) = [] \<and>
      (\<forall>i<n. naive_stage_of (phase ((?f ^^ k) charge_start) i) = k)" for k
  proof (induction k)
    case (Suc k)
    then show ?case using naive_round [OF assms _ _ _ _ le_refl refl, of k "(?f ^^ k) charge_start" pick fp ttl r] by simp
  qed (simp add: charge_start_def)
  have "length (charges (db (?f ((?f ^^ 6) charge_start)))) = n"
    using naive_round_commits [OF _ _ le_refl refl, of n "(?f ^^ 6) charge_start" pick fp pool ttl r] rounds [of 6] by simp
  moreover have "charge_run (charge_naive pick fp pool ttl (replicate n r)) (lockstep n) charge_start = ?f ((?f ^^ 6) charge_start)"
    by (simp add: charge_run_def lockstep_def eval_nat_numeral fold_map comp_def)
  ultimately show ?thesis by simp
qed

text \<open>After the TTL a retry with the same body takes the orphan over and charges; before, it is refused.\<close>

lemma orphan_recovery:
  assumes "quiet_but rqs i s" "phase s i = Idle" "i < length rqs" "0 < pool"
    and "key_table (db s) (cq_key (rqs ! i)) = Some x" "kw_state x = ''in_progress''" "kw_fp x = fp (cq_body (rqs ! i))"
  shows "answer_of (phase (call fp pool ttl rqs i now s) i) =
      (if kw_expires x < now then Resp 200 (Some (charge_doc (work_row (rqs ! i) (charge_seq (db s))))) False else Resp 409 None False)"
    and "charges (db (call fp pool ttl rqs i now s)) =
      (if kw_expires x < now then charges (db s) @ [work_row (rqs ! i) (charge_seq (db s))] else charges (db s))"
  using call_alone [OF assms(1-4), of fp ttl now] assms(5-7) by (simp_all add: Let_def claim_key_def replay_or_conflict_def)

end
