(* ===== verification/Sim_Storm.thy ===== *)
theory Sim_Storm
  imports Sim_Tasks Token_Bucket
begin

text \<open>
  \<^verbatim>\<open>05-failure/03-.../retry_storm.py\<close>: gateway, \<open>service_b\<close>, \<open>service_c\<close> and the database leaf, each hop in the
  retry loop \<^verbatim>\<open>with_retries\<close>, any number of requests at once. A request is cut where it can suspend (the backoff sleep, the
  queue and the service time of the leaf); what it is doing is the stack of the retry loops it is in, innermost first. The
  clock is read through \<open>clk\<close> and random numbers are drawn through \<open>rnd\<close>, one after the other; which timer
  fires when is the environment's choice.
\<close>

subsection \<open>Constants, the retry budget\<close>

definition ATTEMPTS :: nat where "ATTEMPTS = 3"
definition BASE_BACKOFF :: rat where "BASE_BACKOFF = fl (5 / 100)"
definition BACKOFF_CAP :: rat where "BACKOFF_CAP = fl (4 / 10)"
definition ATTEMPT_TIMEOUT :: rat where "ATTEMPT_TIMEOUT = fl (3 / 10)"
definition REQUEST_BUDGET :: rat where "REQUEST_BUDGET = 3 / 2"
definition LEAF_POOL :: nat where "LEAF_POOL = 8"
definition BUDGET_RATIO :: rat where "BUDGET_RATIO = fl (1 / 10)"
definition BUDGET_MIN_TOKENS :: rat where "BUDGET_MIN_TOKENS = 3"

lemmas storm_constants = ATTEMPTS_def BASE_BACKOFF_def BACKOFF_CAP_def ATTEMPT_TIMEOUT_def REQUEST_BUDGET_def
  LEAF_POOL_def BUDGET_RATIO_def BUDGET_MIN_TOKENS_def

record storm_budget =
  sb_ratio :: rat
  sb_floor :: rat
  sb_tokens :: rat
  sb_denied :: int

definition new_storm_budget :: storm_budget where
  "new_storm_budget = \<lparr>sb_ratio = BUDGET_RATIO, sb_floor = BUDGET_MIN_TOKENS, sb_tokens = BUDGET_MIN_TOKENS, sb_denied = 0\<rparr>"

definition sb_cap :: "storm_budget \<Rightarrow> rat" where
  "sb_cap b = fl (sb_floor b + 100)"

definition sb_deposit :: "storm_budget \<Rightarrow> storm_budget" where
  "sb_deposit b = b\<lparr>sb_tokens := min (fl (sb_tokens b + sb_ratio b)) (sb_cap b)\<rparr>"

definition sb_withdraw :: "storm_budget \<Rightarrow> bool \<times> storm_budget" where
  "sb_withdraw b =
     (if 1 \<le> sb_tokens b then (True, b\<lparr>sb_tokens := fl (sb_tokens b - 1)\<rparr>) else (False, b\<lparr>sb_denied := sb_denied b + 1\<rparr>))"

interpretation storm_tb: token_bucket sb_tokens sb_ratio sb_cap "\<lambda>_. True" sb_deposit sb_withdraw
  by unfold_locales (auto simp: sb_deposit_def sb_withdraw_def sb_cap_def min.commute)

subsection \<open>The chain\<close>

record storm_metrics =
  leaf_received :: int
  sm_ok :: int
  sm_failed :: int
  sm_retries :: int
  budget_denied :: int

record storm_chain =
  jitter :: bool
  edge_only :: bool
  budgets :: "nat \<Rightarrow> storm_budget option"
  faulty :: bool
  leaf_sem :: semaphore
  sm :: storm_metrics
  ticks :: nat
  draws :: nat

definition new_storm_metrics :: storm_metrics where
  "new_storm_metrics = \<lparr>leaf_received = 0, sm_ok = 0, sm_failed = 0, sm_retries = 0, budget_denied = 0\<rparr>"

definition new_chain :: "bool \<Rightarrow> bool \<Rightarrow> bool \<Rightarrow> storm_chain" where
  "new_chain jit budgeted edge =
     \<lparr>jitter = jit, edge_only = edge, budgets = (\<lambda>h. if budgeted then Some new_storm_budget else None), faulty = False,
      leaf_sem = new_semaphore LEAF_POOL, sm = new_storm_metrics, ticks = 0, draws = 0\<rparr>"

definition on_sm :: "(storm_metrics \<Rightarrow> storm_metrics) \<Rightarrow> storm_chain \<Rightarrow> storm_chain" where
  "on_sm f c = c\<lparr>sm := f (sm c)\<rparr>"

definition on_leaf :: "(semaphore \<Rightarrow> semaphore) \<Rightarrow> storm_chain \<Rightarrow> storm_chain" where
  "on_leaf f c = c\<lparr>leaf_sem := f (leaf_sem c)\<rparr>"

text \<open>\<^verbatim>\<open>time.perf_counter()\<close>: the next reading.\<close>

definition read_clock :: "(nat \<Rightarrow> rat) \<Rightarrow> storm_chain \<Rightarrow> rat \<times> storm_chain" where
  "read_clock clk c = (clk (ticks c), c\<lparr>ticks := ticks c + 1\<rparr>)"

text \<open>One frame per retry loop a request is in: the attempt it is at and the delay its next backoff starts from.\<close>

record hop_frame =
  hf_attempt :: nat
  hf_delay :: rat

definition first_attempt :: hop_frame where
  "first_attempt = \<lparr>hf_attempt = 0, hf_delay = BASE_BACKOFF\<rparr>"

datatype hop_error = Unavailable | NonRetryable

datatype storm_phase =
    Arriving
  | Backing_off rat "hop_frame list"
  | Out_of_time rat "hop_frame list"
  | Queued_at_leaf rat "hop_frame list"
  | At_leaf rat "hop_frame list"
  | Answered bool

subsection \<open>\<^verbatim>\<open>with_retries\<close>\<close>

definition withdraw_at :: "nat \<Rightarrow> storm_chain \<Rightarrow> bool \<times> storm_chain" where
  "withdraw_at h c = (case budgets c h of
     None \<Rightarrow> (True, c)
   | Some b \<Rightarrow> let (ok, b') = sb_withdraw b in (ok, c\<lparr>budgets := (budgets c)(h := Some b')\<rparr>))"

definition deposit_at :: "nat \<Rightarrow> storm_chain \<Rightarrow> storm_chain" where
  "deposit_at h c = c\<lparr>budgets := (budgets c)(h := map_option sb_deposit (budgets c h))\<rparr>"

text \<open>
  The top of the loop for a retry at hop \<open>h\<close>: either the loop gives up (\<^verbatim>\<open>raise last\<close>) or the request goes to
  sleep before the attempt.
\<close>

definition back_off :: "(nat \<Rightarrow> rat) \<Rightarrow> (nat \<Rightarrow> rat) \<Rightarrow> rat \<Rightarrow> nat \<Rightarrow> hop_frame \<Rightarrow> storm_chain \<Rightarrow> hop_frame option \<times> storm_chain" where
  "back_off clk rnd dl h f c =
     (let a = hf_attempt f + 1 in
      if ATTEMPTS \<le> a then (None, c) else
      let (granted, c1) = withdraw_at h c in
      if \<not> granted then (None, on_sm (\<lambda>m. m\<lparr>budget_denied := budget_denied m + 1\<rparr>) c1) else
      let c2 = on_sm (\<lambda>m. m\<lparr>sm_retries := sm_retries m + 1\<rparr>) c1;
          top = min BACKOFF_CAP (hf_delay f);
          (sleep_for, c3) = (if jitter c2 then (fl (top * rnd (draws c2)), c2\<lparr>draws := draws c2 + 1\<rparr>) else (top, c2));
          (now, c4) = read_clock clk c3
      in if dl < fl (now + sleep_for) then (None, c4) else (Some \<lparr>hf_attempt = a, hf_delay = fl (hf_delay f * 2)\<rparr>, c4))"

text \<open>
  An exception reaches the innermost loop of the stack, which is at hop \<open>length fs\<close> of its tail. What leaves hop 2 is
  turned by \<^verbatim>\<open>service_c\<close> into an error nobody retries, in the edge-only variant.
\<close>

definition leaves :: "nat \<Rightarrow> storm_chain \<Rightarrow> hop_error" where
  "leaves h c = (if h = 2 \<and> edge_only c then NonRetryable else Unavailable)"

fun raise_up :: "(nat \<Rightarrow> rat) \<Rightarrow> (nat \<Rightarrow> rat) \<Rightarrow> rat \<Rightarrow> hop_error \<Rightarrow> hop_frame list \<Rightarrow> storm_chain \<Rightarrow> storm_phase \<times> storm_chain" where
  "raise_up clk rnd dl e [] c = (Answered False, on_sm (\<lambda>m. m\<lparr>sm_failed := sm_failed m + 1\<rparr>) c)"
| "raise_up clk rnd dl e (f # fs) c =
     (if e = NonRetryable then raise_up clk rnd dl NonRetryable fs c
      else case back_off clk rnd dl (length fs) f c of
          (Some f', c') \<Rightarrow> (Backing_off dl (f' # fs), c')
        | (None, c') \<Rightarrow> raise_up clk rnd dl (leaves (length fs) c') fs c')"

definition leaf_call :: "(nat \<Rightarrow> rat) \<Rightarrow> (nat \<Rightarrow> rat) \<Rightarrow> nat \<Rightarrow> rat \<Rightarrow> hop_frame list \<Rightarrow> storm_chain \<Rightarrow> storm_phase \<times> storm_chain" where
  "leaf_call clk rnd i dl fs c =
     (let c1 = on_sm (\<lambda>m. m\<lparr>leaf_received := leaf_received m + 1\<rparr>) c in
      if faulty c1 then raise_up clk rnd dl Unavailable fs c1
      else if locked (leaf_sem c1) then (Queued_at_leaf dl fs, on_leaf (enqueue i) c1)
      else (At_leaf dl fs, on_leaf take_permit c1))"

text \<open>
  An attempt of the innermost loop, with \<open>k\<close> hops below it: the call enters the next hop's loop, or the leaf. A
  timeout that is not positive cancels the call before it starts.
\<close>

fun attempt_call :: "(nat \<Rightarrow> rat) \<Rightarrow> (nat \<Rightarrow> rat) \<Rightarrow> nat \<Rightarrow> nat \<Rightarrow> rat \<Rightarrow> hop_frame list \<Rightarrow> storm_chain \<Rightarrow> storm_phase \<times> storm_chain" where
  "attempt_call clk rnd k i dl fs c =
     (let (now, c1) = read_clock clk c in
      if dl \<le> now then raise_up clk rnd dl (leaves (length (tl fs)) c1) (tl fs) c1 else
      let (now', c2) = read_clock clk c1; remaining = min ATTEMPT_TIMEOUT (fl (dl - now')) in
      if remaining \<le> 0 then (Out_of_time dl fs, c2)
      else case k of 0 \<Rightarrow> leaf_call clk rnd i dl fs c2
        | Suc k' \<Rightarrow> attempt_call clk rnd k' i dl (first_attempt # fs) c2)"

declare attempt_call.simps [simp del]

definition gateway :: "(nat \<Rightarrow> rat) \<Rightarrow> (nat \<Rightarrow> rat) \<Rightarrow> nat \<Rightarrow> storm_chain \<Rightarrow> storm_phase \<times> storm_chain" where
  "gateway clk rnd i c =
     (let (now, c1) = read_clock clk c in attempt_call clk rnd 2 i (fl (now + REQUEST_BUDGET)) [first_attempt] c1)"

text \<open>A leaf that answers returns through every loop of the stack, each of which earns its hop a share of a token.\<close>

fun return_up :: "hop_frame list \<Rightarrow> storm_chain \<Rightarrow> storm_phase \<times> storm_chain" where
  "return_up [] c = (Answered True, on_sm (\<lambda>m. m\<lparr>sm_ok := sm_ok m + 1\<rparr>) c)"
| "return_up (f # fs) c = return_up fs (deposit_at (length fs) c)"

subsection \<open>Runs\<close>

text \<open>\<open>Expires i k\<close>: the timer of the \<open>k\<close>-th loop from inside fires, which cancels everything below that loop.\<close>

datatype storm_event =
    Arrives nat
  | Wakes nat
  | Expires nat nat
  | Has_connection nat
  | Leaf_done nat
  | Set_faulty bool

fun client_of :: "storm_event \<Rightarrow> nat option" where
  "client_of (Arrives i) = Some i" | "client_of (Wakes i) = Some i" | "client_of (Expires i k) = Some i"
| "client_of (Has_connection i) = Some i" | "client_of (Leaf_done i) = Some i" | "client_of (Set_faulty b) = None"

fun storm_section ::
  "(nat \<Rightarrow> rat) \<Rightarrow> (nat \<Rightarrow> rat) \<Rightarrow> nat \<Rightarrow> storm_event \<Rightarrow> storm_phase \<Rightarrow> storm_chain \<Rightarrow> (storm_phase \<times> storm_chain) option" where
  "storm_section clk rnd i (Arrives j) Arriving c = Some (gateway clk rnd i c)"
| "storm_section clk rnd i (Wakes j) (Backing_off dl fs) c = Some (attempt_call clk rnd (3 - length fs) i dl fs c)"
| "storm_section clk rnd i (Expires j k) (Backing_off dl fs) c =
     (if 0 < k \<and> k < length fs then Some (raise_up clk rnd dl Unavailable (drop k fs) c) else None)"
| "storm_section clk rnd i (Expires j k) (Out_of_time dl fs) c =
     (if k < length fs then Some (raise_up clk rnd dl Unavailable (drop k fs) c) else None)"
| "storm_section clk rnd i (Expires j k) (Queued_at_leaf dl fs) c =
     (if k < length fs then Some (raise_up clk rnd dl Unavailable (drop k fs) (on_leaf (cancel_wait i) c)) else None)"
| "storm_section clk rnd i (Expires j k) (At_leaf dl fs) c =
     (if k < length fs then Some (raise_up clk rnd dl Unavailable (drop k fs) (on_leaf give_back c)) else None)"
| "storm_section clk rnd i (Has_connection j) (Queued_at_leaf dl fs) c =
     (if woken i (leaf_sem c) then Some (At_leaf dl fs, on_leaf (resume i) c) else None)"
| "storm_section clk rnd i (Leaf_done j) (At_leaf dl fs) c = Some (return_up fs (on_leaf give_back c))"
| "storm_section clk rnd i _ _ c = None"

record storm_sys =
  chain :: storm_chain
  clients :: "storm_phase list"

definition storm_step :: "(nat \<Rightarrow> rat) \<Rightarrow> (nat \<Rightarrow> rat) \<Rightarrow> storm_event \<Rightarrow> storm_sys \<Rightarrow> storm_sys" where
  "storm_step clk rnd e s = (case client_of e of
     None \<Rightarrow> (case e of Set_faulty b \<Rightarrow> s\<lparr>chain := (chain s)\<lparr>faulty := b\<rparr>\<rparr> | _ \<Rightarrow> s)
   | Some i \<Rightarrow> if length (clients s) \<le> i then s else
       (case storm_section clk rnd i e (clients s ! i) (chain s) of
          None \<Rightarrow> s | Some (p, c) \<Rightarrow> \<lparr>chain = c, clients = (clients s)[i := p]\<rparr>))"

definition storm_start :: "storm_chain \<Rightarrow> nat \<Rightarrow> storm_sys" where
  "storm_start c n = \<lparr>chain = c, clients = replicate n Arriving\<rparr>"

definition storm_run :: "(nat \<Rightarrow> rat) \<Rightarrow> (nat \<Rightarrow> rat) \<Rightarrow> storm_event list \<Rightarrow> storm_chain \<Rightarrow> nat \<Rightarrow> storm_sys" where
  "storm_run clk rnd evs c n = fold (storm_step clk rnd) evs (storm_start c n)"

subsection \<open>What the sections do\<close>

lemma chain_simps [simp]:
  "sm (on_sm f c) = f (sm c)" "sm (on_leaf g c) = sm c" "leaf_sem (on_sm f c) = leaf_sem c" "leaf_sem (on_leaf g c) = g (leaf_sem c)"
  "edge_only (on_sm f c) = edge_only c" "edge_only (on_leaf g c) = edge_only c" "budgets (on_sm f c) = budgets c"
  "budgets (on_leaf g c) = budgets c" "faulty (on_sm f c) = faulty c" "jitter (on_sm f c) = jitter c"
  "sm (snd (read_clock clk c)) = sm c" "leaf_sem (snd (read_clock clk c)) = leaf_sem c"
  "edge_only (snd (read_clock clk c)) = edge_only c" "budgets (snd (read_clock clk c)) = budgets c"
  "faulty (snd (read_clock clk c)) = faulty c"
  by (simp_all add: on_sm_def on_leaf_def read_clock_def)

lemma withdraw_frame [simp]:
  "sm (snd (withdraw_at h c)) = sm c" "leaf_sem (snd (withdraw_at h c)) = leaf_sem c"
  "edge_only (snd (withdraw_at h c)) = edge_only c" "jitter (snd (withdraw_at h c)) = jitter c"
  by (simp_all add: withdraw_at_def case_prod_beta Let_def split: option.split)

lemma back_off_cases:
  assumes "back_off clk rnd dl h f c = (r, c')"
  shows "leaf_sem c' = leaf_sem c" "edge_only c' = edge_only c"
    and "r = Some f' \<Longrightarrow> hf_attempt f' = hf_attempt f + 1 \<and> hf_attempt f' < 3 \<and> sm c' = (sm c)\<lparr>sm_retries := sm_retries (sm c) + 1\<rparr>"
    and "sm c' = sm c \<or> sm c' = (sm c)\<lparr>budget_denied := budget_denied (sm c) + 1\<rparr> \<or> sm c' = (sm c)\<lparr>sm_retries := sm_retries (sm c) + 1\<rparr>"
  using assms by (auto simp: back_off_def ATTEMPTS_def Let_def case_prod_beta read_clock_def on_sm_def split: if_splits)

text \<open>How deep a request can be: a loop per hop, and all three at the leaf.\<close>

fun sound_phase :: "storm_phase \<Rightarrow> bool" where
  "sound_phase (Backing_off dl fs) = (fs \<noteq> [] \<and> length fs \<le> 3)"
| "sound_phase (Out_of_time dl fs) = (fs \<noteq> [] \<and> length fs \<le> 3)"
| "sound_phase (Queued_at_leaf dl fs) = (length fs = 3)"
| "sound_phase (At_leaf dl fs) = (length fs = 3)"
| "sound_phase _ = True"

text \<open>
  A measure of a run: an amount read off the counters, how much a stack of loops may still add to it when its
  call fails (\<open>rest\<close>), and when its innermost attempt is about to be made (\<open>ready\<close>).
\<close>

locale storm_measure =
  fixes amount :: "storm_metrics \<Rightarrow> int"
    and rest ready :: "hop_frame list \<Rightarrow> int"
    and edge :: bool
    and outer :: int
  assumes counters: "amount (m\<lparr>sm_failed := x\<rparr>) = amount m" "amount (m\<lparr>sm_ok := x\<rparr>) = amount m" "amount (m\<lparr>budget_denied := x\<rparr>) = amount m"
    and retry_free: "amount (m\<lparr>sm_retries := sm_retries m + 1\<rparr>) \<le> amount m"
    and nonneg: "0 \<le> rest fs" "0 \<le> ready fs" "0 \<le> outer"
    and retry_law: "hf_attempt f' = hf_attempt f + 1 \<Longrightarrow> hf_attempt f' < 3 \<Longrightarrow>
      amount (m\<lparr>sm_retries := sm_retries m + 1\<rparr>) + ready (f' # fs) \<le> amount m + rest (f # fs)"
    and leave_law: "\<not> (length fs = 2 \<and> edge) \<Longrightarrow> rest fs \<le> rest (f # fs)"
    and ready_law: "rest fs \<le> ready fs"
    and call_law: "length fs < 3 \<Longrightarrow> ready (first_attempt # fs) \<le> ready fs"
    and leaf_law: "length fs = 3 \<Longrightarrow> amount (m\<lparr>leaf_received := leaf_received m + 1\<rparr>) + rest fs \<le> amount m + ready fs"
    and outer_law: "k < length fs \<Longrightarrow> length fs \<le> 3 \<Longrightarrow> rest (drop k fs) \<le> rest fs + (if 0 < k then outer else 0)"
begin

fun spare :: "storm_phase \<Rightarrow> int" where
  "spare Arriving = ready [first_attempt]"
| "spare (Backing_off dl fs) = ready fs"
| "spare (Out_of_time dl fs) = rest fs"
| "spare (Queued_at_leaf dl fs) = rest fs"
| "spare (At_leaf dl fs) = rest fs"
| "spare (Answered b) = 0"

definition pays :: "storm_chain \<Rightarrow> int \<Rightarrow> storm_phase \<times> storm_chain \<Rightarrow> bool" where
  "pays c x res \<longleftrightarrow> amount (sm (snd res)) + spare (fst res) \<le> amount (sm c) + x \<and> sound_phase (fst res) \<and>
     edge_only (snd res) = edge_only c"

lemma raise_up_pays:
  "edge_only c = edge \<Longrightarrow> length fs \<le> 3 \<Longrightarrow> (e = Unavailable \<Longrightarrow> rest fs \<le> x) \<Longrightarrow> 0 \<le> x \<Longrightarrow> pays c x (raise_up clk rnd dl e fs c)"
proof (induction clk rnd dl e fs c arbitrary: x rule: raise_up.induct)
  case (1 clk rnd dl e c)
  then show ?case by (simp add: pays_def counters)
next
  case (2 clk rnd dl e f fs c)
  show ?case
  proof (cases "e = NonRetryable")
    case True
    with 2 show ?thesis by simp
  next
    case False
    then have e: "e = Unavailable" by (cases e) simp_all
    obtain r c' where bo: "back_off clk rnd dl (length fs) f c = (r, c')" by fastforce
    note bo_facts = back_off_cases [OF bo]
    have x: "rest (f # fs) \<le> x" using 2 e by simp
    show ?thesis
    proof (cases r)
      case None
      have le: "amount (sm c') \<le> amount (sm c)" using bo_facts(4) retry_free [of "sm c"] by (auto simp: counters)
      have "pays c' x (raise_up clk rnd dl (leaves (length fs) c') fs c')"
      proof (rule "2.IH"(2) [OF False bo [symmetric] None])
        show "leaves (length fs) c' = Unavailable \<Longrightarrow> rest fs \<le> x"
          using leave_law [of fs f] x bo_facts(2) "2.prems"(1) by (auto simp: leaves_def split: if_splits)
      qed (use "2.prems" bo_facts in simp_all)
      with le e bo None bo_facts show ?thesis by (auto simp: pays_def)
    next
      case (Some f')
      with e bo bo_facts(1,2) bo_facts(3) [of f'] retry_law [of f' f "sm c" fs] x "2.prems"(2) show ?thesis by (auto simp: pays_def)
    qed
  qed
qed

lemma leaf_call_pays:
  assumes "edge_only c = edge" "length fs = 3"
  shows "pays c (ready fs) (leaf_call clk rnd i dl fs c)"
proof -
  let ?c = "on_sm (\<lambda>m. m\<lparr>leaf_received := leaf_received m + 1\<rparr>) c"
  have "pays ?c (rest fs) (raise_up clk rnd dl Unavailable fs ?c)"
    using assms nonneg by (intro raise_up_pays) auto
  with leaf_law [OF assms(2), of "sm c"] show ?thesis using assms by (auto simp: leaf_call_def Let_def pays_def)
qed

lemma attempt_call_pays:
  "edge_only c = edge \<Longrightarrow> fs \<noteq> [] \<Longrightarrow> length fs + k = 3 \<Longrightarrow> pays c (ready fs) (attempt_call clk rnd k i dl fs c)"
proof (induction clk rnd k i dl fs c rule: attempt_call.induct)
  case (1 clk rnd k i dl fs c)
  let ?c1 = "snd (read_clock clk c)"
  let ?c2 = "snd (read_clock clk ?c1)"
  obtain f gs where fs: "fs = f # gs" using "1.prems"(2) by (cases fs) auto
  have "pays ?c1 (ready fs) (raise_up clk rnd dl (leaves (length (tl fs)) ?c1) (tl fs) ?c1)"
  proof (rule raise_up_pays)
    show "leaves (length (tl fs)) ?c1 = Unavailable \<Longrightarrow> rest (tl fs) \<le> ready fs"
      using leave_law [of gs f] ready_law [of fs] "1.prems"(1) fs by (auto simp: leaves_def split: if_splits)
  qed (use "1.prems" fs nonneg in auto)
  moreover have "pays ?c2 (ready fs) (leaf_call clk rnd i dl fs ?c2)" if "k = 0"
    using that "1.prems" by (intro leaf_call_pays) simp_all
  moreover have "pays ?c2 (ready fs) (attempt_call clk rnd k' i dl (first_attempt # fs) ?c2)"
    if "\<not> dl \<le> fst (read_clock clk c)" "\<not> min ATTEMPT_TIMEOUT (fl (dl - fst (read_clock clk ?c1))) \<le> 0" "k = Suc k'" for k'
  proof -
    have "pays ?c2 (ready (first_attempt # fs)) (attempt_call clk rnd k' i dl (first_attempt # fs) ?c2)"
      by (rule "1.IH" [OF refl prod.collapse that(1) refl prod.collapse refl that(2) that(3)])
        (use "1.prems" that in simp_all)
    with call_law [of fs] "1.prems" that show ?thesis by (auto simp: pays_def)
  qed
  ultimately show ?case
    using ready_law [of fs] "1.prems"
    by (subst attempt_call.simps) (auto simp: Let_def case_prod_beta pays_def split: nat.split)
qed

lemma return_up_pays:
  "edge_only c = edge \<Longrightarrow> pays c x (return_up fs c) \<longleftrightarrow> 0 \<le> x"
proof (induction fs arbitrary: c)
  case (Cons f fs)
  from Cons.IH [of "deposit_at (length fs) c"] Cons.prems show ?case by (simp add: pays_def deposit_at_def)
qed (simp add: pays_def counters)

lemma pays_leaf: "pays (on_leaf g c) x res = pays c x res"
  by (simp add: pays_def)

lemma raise_from:
  "edge_only c = edge \<Longrightarrow> k < length fs \<Longrightarrow> length fs \<le> 3 \<Longrightarrow>
   pays c (rest fs + (if 0 < k then outer else 0)) (raise_up clk rnd dl Unavailable (drop k fs) c)"
  using outer_law [of k fs] nonneg(1) [of "drop k fs"] by (intro raise_up_pays) auto

lemma section_pays:
  assumes "storm_section clk rnd i e q c = Some res" "edge_only c = edge" "sound_phase q"
  shows "pays c (spare q + (case e of Expires i k \<Rightarrow> if 0 < k then outer else 0 | _ \<Rightarrow> 0)) res"
proof -
  have gw: "pays c (ready [first_attempt]) (gateway clk rnd i c)"
    using attempt_call_pays [of "snd (read_clock clk c)" "[first_attempt]" 2] assms(2)
    by (simp add: gateway_def case_prod_beta Let_def pays_def)
  have expire: "pays c (rest fs + (if 0 < k then outer else 0)) (raise_up clk rnd dl Unavailable (drop k fs) (on_leaf g c))"
    if "k < length fs" "length fs \<le> 3" for fs k dl g
    using raise_from [of "on_leaf g c" k fs] assms(2) that by (simp add: pays_leaf)
  have later: "pays c (ready fs + outer) (raise_up clk rnd dl Unavailable (drop k fs) c)"
    if "0 < k" "k < length fs" "length fs \<le> 3" for fs k dl
    using raise_from [OF assms(2) that(2,3), of clk rnd dl] ready_law [of fs] that by (simp add: pays_def)
  show ?thesis
  proof (cases e)
    case (Expires j k)
    show ?thesis
    proof (cases q)
      case (Backing_off dl fs)
      with Expires assms later [of k fs dl] show ?thesis by (simp split: if_split_asm)
    next
      case (Out_of_time dl fs)
      with Expires assms raise_from [OF assms(2), of k fs clk rnd dl] show ?thesis by (auto split: if_split_asm)
    next
      case (Queued_at_leaf dl fs)
      with Expires assms expire [of k fs dl] show ?thesis by (auto split: if_split_asm)
    next
      case (At_leaf dl fs)
      with Expires assms expire [of k fs dl] show ?thesis by (auto split: if_split_asm)
    qed (use Expires assms in simp_all)
  next
    case (Arrives j)
    with assms gw show ?thesis by (cases q) simp_all
  next
    case (Wakes j)
    with assms show ?thesis by (cases q) (auto simp: attempt_call_pays)
  next
    case (Has_connection j)
    with assms show ?thesis by (cases q) (auto simp: pays_def split: if_split_asm)
  next
    case (Leaf_done j)
    have "pays c (rest fs) (return_up fs (on_leaf give_back c))" for fs
      using return_up_pays [of "on_leaf give_back c" "rest fs" fs] assms(2) by (simp add: pays_leaf nonneg)
    with Leaf_done assms show ?thesis by (cases q) auto
  qed (use assms in \<open>cases q; simp\<close>)
qed

end

lemma storm_step_cases:
  obtains (stays) f where "storm_step clk rnd e s = s\<lparr>chain := (chain s)\<lparr>faulty := f\<rparr>\<rparr>"
  | (moves) i p c where "i < length (clients s)" "storm_step clk rnd e s = \<lparr>chain = c, clients = (clients s)[i := p]\<rparr>"
      "storm_section clk rnd i e (clients s ! i) (chain s) = Some (p, c)"
proof (cases "client_of e")
  case None
  then obtain b where "e = Set_faulty b" by (cases e) auto
  then show thesis by (intro stays [of b]) (simp add: storm_step_def)
next
  case (Some i)
  show thesis
  proof (cases "i < length (clients s) \<and> storm_section clk rnd i e (clients s ! i) (chain s) \<noteq> None")
    case True
    then obtain p c where "storm_section clk rnd i e (clients s ! i) (chain s) = Some (p, c)" by auto
    with Some True show thesis by (intro moves) (auto simp: storm_step_def)
  next
    case False
    with Some show thesis by (intro stays [of "faulty (chain s)"]) (auto simp: storm_step_def not_le split: option.split)
  qed
qed

text \<open>The client theorem of a measure: the amount of a whole run.\<close>

sublocale storm_measure \<subseteq> run: task_potential "storm_step clk rnd" clients
    "\<lambda>s. edge_only (chain s) = edge \<and> list_all sound_phase (clients s)" "\<lambda>s. amount (sm (chain s))" spare
    "\<lambda>e. case e of Expires i k \<Rightarrow> if 0 < k then outer else 0 | _ \<Rightarrow> 0" for clk rnd
proof unfold_locales
  fix s :: storm_sys and e
  let ?cost = "case e of Expires i k \<Rightarrow> if 0 < k then outer else 0 | _ \<Rightarrow> 0"
  assume s: "edge_only (chain s) = edge \<and> list_all sound_phase (clients s)"
  have cost: "0 \<le> ?cost" using nonneg by (cases e) auto
  show "(edge_only (chain (storm_step clk rnd e s)) = edge \<and> list_all sound_phase (clients (storm_step clk rnd e s))) \<and>
    (clients (storm_step clk rnd e s) = clients s \<and> amount (sm (chain (storm_step clk rnd e s))) \<le> amount (sm (chain s)) + ?cost \<or>
     (\<exists>i p. i < length (clients s) \<and> clients (storm_step clk rnd e s) = (clients s)[i := p] \<and>
       amount (sm (chain (storm_step clk rnd e s))) + spare p \<le> amount (sm (chain s)) + spare (clients s ! i) + ?cost))"
  proof (cases rule: storm_step_cases [of clk rnd e s])
    case (stays f)
    with s cost show ?thesis by simp
  next
    case (moves i p c)
    have "sound_phase (clients s ! i)" using s moves(1) by (simp add: list_all_length)
    then have pay: "pays (chain s) (spare (clients s ! i) + ?cost) (p, c)"
      using section_pays [OF moves(3)] s by simp
    have "list_all sound_phase ((clients s)[i := p])"
      using s pay by (auto simp: pays_def list_all_iff dest!: set_update_subset_insert [THEN subsetD])
    with pay moves(1,2) s show ?thesis by (intro conjI disjI2 exI [of _ i] exI [of _ p]) (simp_all add: pays_def)
  qed
qed

subsection \<open>Three measures\<close>

fun calls_left :: "hop_frame list \<Rightarrow> int" where
  "calls_left [] = 0"
| "calls_left (f # fs) = int ((2 - hf_attempt f) * 3 ^ (2 - length fs)) + calls_left fs"

lemma calls_left_nonneg [simp]: "0 \<le> calls_left fs"
  by (induction fs) simp_all

lemma calls_left_drop: "calls_left (drop k fs) \<le> calls_left fs"
proof (induction fs arbitrary: k)
  case (Cons f fs)
  then show ?case by (cases k) (simp_all add: add_increasing)
qed simp

text \<open>Every call counts: at most \<open>3 * 3 * 3\<close> per request.\<close>

interpretation storm_total: storm_measure leaf_received calls_left "\<lambda>fs. 3 ^ (3 - length fs) + calls_left fs" edge 0 for edge
proof unfold_locales
  fix f f' :: hop_frame and fs :: "hop_frame list" and m :: storm_metrics
  assume "hf_attempt f' = hf_attempt f + 1" "hf_attempt f' < 3"
  then have "2 - hf_attempt f = Suc (2 - hf_attempt f')" by linarith
  then show "leaf_received (m\<lparr>sm_retries := sm_retries m + 1\<rparr>) + (3 ^ (3 - length (f' # fs)) + calls_left (f' # fs)) \<le>
      leaf_received m + calls_left (f # fs)" by (simp add: distrib_right)
next
  fix fs :: "hop_frame list"
  assume "length fs < 3"
  then have "3 - length fs = Suc (2 - length fs)" by linarith
  then show "3 ^ (3 - length (first_attempt # fs)) + calls_left (first_attempt # fs) \<le> 3 ^ (3 - length fs) + calls_left fs"
    by (simp add: first_attempt_def)
qed (simp_all add: calls_left_drop)

text \<open>A call that is not the first of its request was paid with a retry.\<close>

interpretation storm_paid: storm_measure "\<lambda>m. leaf_received m - sm_retries m" "\<lambda>_. 0" "\<lambda>_. 1" edge 0 for edge
  by unfold_locales simp_all

text \<open>
  Retries at the edge only: one loop of three attempts next to the leaf, and another one for each timer of an
  outer hop that fires.
\<close>

definition edge_left :: "int \<Rightarrow> hop_frame list \<Rightarrow> int" where
  "edge_left x fs = (if length fs = 3 then x + int (2 - hf_attempt (hd fs)) else 3)"

interpretation storm_edge: storm_measure leaf_received "edge_left 0" "edge_left 1" True 3
proof unfold_locales
  fix k :: nat and fs :: "hop_frame list"
  assume "k < length fs" "length fs \<le> 3"
  then show "edge_left 0 (drop k fs) \<le> edge_left 0 fs + (if 0 < k then 3 else 0)"
    by (cases "k = 0") (auto simp: edge_left_def)
qed (auto simp: edge_left_def first_attempt_def)

subsection \<open>What the buckets grant\<close>

abbreviation storm_earned :: "nat \<Rightarrow> nat \<Rightarrow> storm_budget \<Rightarrow> bool" where
  "storm_earned \<equiv> earned sb_deposit sb_withdraw new_storm_budget"

lemma storm_earned_bound:
  assumes "storm_earned g d b" "d \<le> 10 ^ 9"
  shows "int g * 2 ^ 20 \<le> 3 * 2 ^ 20 + 104858 * int d"
proof -
  have ratio: "fl (1 / 10) \<le> (of_int 104858 :: rat) / 2 ^ 20" by (intro dbl.rnd_le is_double_dyadic) simp_all
  have "int d \<le> 10 ^ 9" using assms(2) by simp
  then show ?thesis
    by (intro storm_tb.earned_bounded [OF assms(1)])
      (use ratio fl_nonneg [of "1 / 10"] fl_nonneg [of 103] in \<open>simp_all add: new_storm_budget_def storm_constants sb_cap_def\<close>)
qed

text \<open>
  Every retry was granted by the bucket of its hop, and every success of a request pays one deposit into each; while
  the success returns, the hops from \<open>l\<close> inwards have been paid already.
\<close>

definition banked :: "nat \<Rightarrow> storm_chain \<Rightarrow> bool" where
  "banked l c \<longleftrightarrow> (\<exists>g d. (\<forall>h<3. (\<exists>b. budgets c h = Some b \<and> storm_earned (g h) (d h) b) \<and> int (d h) \<le> sm_ok (sm c) + of_bool (l \<le> h)) \<and>
     sm_retries (sm c) = int (g 0 + g 1 + g 2))"

lemma banked_cong:
  "budgets c' = budgets c \<Longrightarrow> sm_ok (sm c') = sm_ok (sm c) \<Longrightarrow> sm_retries (sm c') = sm_retries (sm c) \<Longrightarrow> banked l c' = banked l c"
  by (simp add: banked_def)

lemma less_3: "(h::nat) < 3 \<longleftrightarrow> h = 0 \<or> h = 1 \<or> h = 2"
  by linarith

lemma withdraw_banked:
  assumes "banked 3 c" "h < 3"
  shows "banked 3 (on_sm (\<lambda>m. m\<lparr>sm_retries := sm_retries m + of_bool (fst (withdraw_at h c))\<rparr>) (snd (withdraw_at h c)))"
proof -
  obtain g d where gd: "\<And>h. h < 3 \<Longrightarrow> \<exists>b. budgets c h = Some b \<and> storm_earned (g h) (d h) b" "\<And>h. h < 3 \<Longrightarrow> int (d h) \<le> sm_ok (sm c)"
    "sm_retries (sm c) = int (g 0 + g 1 + g 2)" using assms(1) by (auto simp: banked_def)
  obtain b where b: "budgets c h = Some b" "storm_earned (g h) (d h) b" using gd(1) [OF assms(2)] by blast
  let ?c = "on_sm (\<lambda>m. m\<lparr>sm_retries := sm_retries m + of_bool (fst (withdraw_at h c))\<rparr>) (snd (withdraw_at h c))"
  let ?g = "g(h := g h + of_bool (fst (sb_withdraw b)))"
  have "\<exists>b'. budgets ?c k = Some b' \<and> storm_earned (?g k) (d k) b'" if "k < 3" for k
    using gd(1) [OF that] b earned_withdraw [OF b(2)] by (auto simp: withdraw_at_def case_prod_beta)
  moreover have "int (d k) \<le> sm_ok (sm ?c)" if "k < 3" for k using gd(2) [OF that] by simp
  moreover have "sm_retries (sm ?c) = int (?g 0 + ?g 1 + ?g 2)"
    using gd(3) b assms(2) by (auto simp: withdraw_at_def case_prod_beta less_3)
  ultimately show ?thesis unfolding banked_def by (intro exI [of _ ?g] exI [of _ d]) (auto simp: add_increasing2)
qed

lemma back_off_banked:
  assumes "back_off clk rnd dl h f c = (r, c')" "banked 3 c" "h < 3"
  shows "banked 3 c'"
proof -
  obtain ok c1 where w: "withdraw_at h c = (ok, c1)" by fastforce
  from withdraw_banked [OF assms(2,3)] w
  have b: "banked 3 (on_sm (\<lambda>m. m\<lparr>sm_retries := sm_retries m + of_bool ok\<rparr>) c1)" by simp
  show ?thesis
  proof (cases ok)
    case True
    then have "banked 3 c' \<longleftrightarrow> banked 3 (on_sm (\<lambda>m. m\<lparr>sm_retries := sm_retries m + 1\<rparr>) c1)" if "hf_attempt f + 1 < ATTEMPTS"
      using assms(1) w that
      by (intro banked_cong) (auto simp: back_off_def Let_def case_prod_beta read_clock_def split: if_splits)
    with b True assms(1,2) show ?thesis by (cases "hf_attempt f + 1 < ATTEMPTS") (auto simp: back_off_def Let_def)
  next
    case False
    then have "c' = c \<or> c' = on_sm (\<lambda>m. m\<lparr>budget_denied := budget_denied m + 1\<rparr>) c1"
      using assms(1) w by (auto simp: back_off_def Let_def split: if_splits)
    then have "c' = c \<or> banked 3 c' = banked 3 c1" by (elim disjE) (simp_all add: banked_def)
    moreover have "banked 3 c1" using b False by (simp add: banked_def)
    ultimately show ?thesis using assms(2) by auto
  qed
qed

lemma raise_up_banked: "banked 3 c \<Longrightarrow> length fs \<le> 3 \<Longrightarrow> banked 3 (snd (raise_up clk rnd dl e fs c))"
proof (induction clk rnd dl e fs c rule: raise_up.induct)
  case (1 clk rnd dl e c)
  then show ?case by (simp add: banked_def)
next
  case (2 clk rnd dl e f fs c)
  show ?case
  proof (cases "e = NonRetryable")
    case True
    with 2 show ?thesis by simp
  next
    case False
    obtain r c' where bo: "back_off clk rnd dl (length fs) f c = (r, c')" by fastforce
    with "2.prems" have "banked 3 c'" by (intro back_off_banked [OF bo]) simp_all
    with False bo "2.IH"(2) [OF False bo [symmetric]] "2.prems" show ?thesis by (cases r) auto
  qed
qed

lemma attempt_call_banked:
  "banked 3 c \<Longrightarrow> length fs + k = 3 \<Longrightarrow> banked 3 (snd (attempt_call clk rnd k i dl fs c))"
proof (induction clk rnd k i dl fs c rule: attempt_call.induct)
  case (1 clk rnd k i dl fs c)
  let ?c1 = "snd (read_clock clk c)"
  let ?c2 = "snd (read_clock clk ?c1)"
  have b: "banked 3 ?c1" "banked 3 ?c2" using "1.prems"(1) by (simp_all add: banked_def)
  have "banked 3 (snd (leaf_call clk rnd i dl fs ?c2))" if "k = 0"
    using b that "1.prems"(2) raise_up_banked [of "on_sm (\<lambda>m. m\<lparr>leaf_received := leaf_received m + 1\<rparr>) ?c2" fs clk rnd dl Unavailable]
    by (auto simp: leaf_call_def Let_def banked_def)
  moreover have "banked 3 (snd (attempt_call clk rnd k' i dl (first_attempt # fs) ?c2))"
    if "\<not> dl \<le> fst (read_clock clk c)" "\<not> min ATTEMPT_TIMEOUT (fl (dl - fst (read_clock clk ?c1))) \<le> 0" "k = Suc k'" for k'
    by (rule "1.IH" [OF refl prod.collapse that(1) refl prod.collapse refl that(2) that(3)]) (use "1.prems" b that in simp_all)
  ultimately show ?case
    using b raise_up_banked [OF b(1), of "tl fs"] "1.prems"(2)
    by (subst attempt_call.simps) (auto simp: Let_def case_prod_beta split: nat.split)
qed

lemma deposit_banked:
  assumes "banked (Suc l) c" "l < 3"
  shows "banked l (deposit_at l c)"
proof -
  obtain g d where gd: "\<And>h. h < 3 \<Longrightarrow> \<exists>b. budgets c h = Some b \<and> storm_earned (g h) (d h) b"
    "\<And>h. h < 3 \<Longrightarrow> int (d h) \<le> sm_ok (sm c) + of_bool (Suc l \<le> h)"
    "sm_retries (sm c) = int (g 0 + g 1 + g 2)" using assms(1) by (auto simp: banked_def)
  have "(\<exists>b. budgets (deposit_at l c) h = Some b \<and> storm_earned (g h) ((d(l := Suc (d l))) h) b) \<and>
    int ((d(l := Suc (d l))) h) \<le> sm_ok (sm (deposit_at l c)) + of_bool (l \<le> h)" if "h < 3" for h
    using gd(1,2) [OF that] earned_deposit by (auto simp: deposit_at_def split: if_splits)
  moreover have "sm_retries (sm (deposit_at l c)) = int (g 0 + g 1 + g 2)" using gd(3) by (simp add: deposit_at_def)
  ultimately show ?thesis unfolding banked_def by blast
qed

lemma return_up_banked: "banked (length fs) c \<Longrightarrow> length fs \<le> 3 \<Longrightarrow> banked 3 (snd (return_up fs c))"
proof (induction fs arbitrary: c)
  case Nil
  then show ?case by (force simp: banked_def)
next
  case (Cons f fs)
  with deposit_banked [of "length fs" c] show ?case by simp
qed

lemma section_banked:
  assumes "storm_section clk rnd i e q c = Some res" "banked 3 c" "sound_phase q"
  shows "banked 3 (snd res)"
proof -
  have leaf: "banked l (on_leaf g c) = banked l c" for l g by (simp add: banked_def)
  have gw: "banked 3 (snd (gateway clk rnd i c))"
    using attempt_call_banked [of "snd (read_clock clk c)" "[first_attempt]" 2] assms(2)
    by (simp add: gateway_def case_prod_beta Let_def banked_def)
  have up: "banked 3 (snd (raise_up clk rnd dl Unavailable (drop k fs) c))"
      "banked 3 (snd (raise_up clk rnd dl Unavailable (drop k fs) (on_leaf g c)))" if "length fs \<le> 3" for dl k fs g
    using raise_up_banked [of _ "drop k fs"] that assms(2) leaf by simp_all
  show ?thesis
  proof (cases e)
    case (Arrives j)
    with assms gw show ?thesis by (cases q) auto
  next
    case (Wakes j)
    with assms attempt_call_banked [OF assms(2)] show ?thesis by (cases q) auto
  next
    case (Expires j k)
    with assms(1,3) up show ?thesis by (cases q) (auto split: if_split_asm)
  next
    case (Has_connection j)
    with assms leaf show ?thesis by (cases q) (auto split: if_split_asm)
  next
    case (Leaf_done j)
    with assms(1,3) return_up_banked [of _ "on_leaf give_back c"] assms(2) leaf show ?thesis by (cases q) auto
  qed (use assms in \<open>cases q; simp\<close>)
qed

subsection \<open>The leaf's pool and the answers\<close>

fun leaf_stance :: "storm_phase \<Rightarrow> stance" where
  "leaf_stance (Queued_at_leaf dl fs) = In_queue"
| "leaf_stance (At_leaf dl fs) = Using"
| "leaf_stance _ = Outside"

definition tally :: "bool \<Rightarrow> storm_chain \<Rightarrow> int" where
  "tally b c = (if b then sm_ok (sm c) else sm_failed (sm c))"

lemma tally_simps [simp]:
  "tally b (on_leaf g c) = tally b c" "tally b (snd (read_clock clk c)) = tally b c" "tally b (deposit_at h c) = tally b c"
  "tally b (on_sm (\<lambda>m. m\<lparr>leaf_received := x m\<rparr>) c) = tally b c"
  by (simp_all add: tally_def deposit_at_def)

lemma raise_up_answers:
  "leaf_sem (snd (raise_up clk rnd dl e fs c)) = leaf_sem c \<and> leaf_stance (fst (raise_up clk rnd dl e fs c)) = Outside \<and>
   tally b (snd (raise_up clk rnd dl e fs c)) = tally b c + of_bool (fst (raise_up clk rnd dl e fs c) = Answered b)"
proof (induction clk rnd dl e fs c rule: raise_up.induct)
  case (1 clk rnd dl e c)
  show ?case by (simp add: tally_def)
next
  case (2 clk rnd dl e f fs c)
  show ?case
  proof (cases "e = NonRetryable")
    case False
    obtain r c' where bo: "back_off clk rnd dl (length fs) f c = (r, c')" by fastforce
    from back_off_cases [OF bo] have "leaf_sem c' = leaf_sem c" "tally b c' = tally b c" by (auto simp: tally_def)
    with False bo "2.IH"(2) [OF False bo [symmetric]] show ?thesis by (cases r) simp_all
  qed (use "2.IH" in simp)
qed

definition leaf_section :: "nat \<Rightarrow> storm_phase \<Rightarrow> storm_chain \<Rightarrow> storm_phase \<times> storm_chain \<Rightarrow> bool" where
  "leaf_section i q c res \<longleftrightarrow> task_move i (leaf_sem c) (leaf_stance q) (leaf_stance (fst res)) (leaf_sem (snd res)) \<and>
     (\<forall>b. tally b (snd res) = tally b c + of_bool (fst res = Answered b) - of_bool (q = Answered b))"

lemma raise_up_section:
  "leaf_stance q = Outside \<Longrightarrow> \<forall>b. q \<noteq> Answered b \<Longrightarrow> leaf_section i q c (raise_up clk rnd dl e fs c)"
  using raise_up_answers [of clk rnd dl e fs c] by (simp add: leaf_section_def)

lemma attempt_call_section:
  "leaf_stance q = Outside \<Longrightarrow> \<forall>b. q \<noteq> Answered b \<Longrightarrow> leaf_section i q c (attempt_call clk rnd k i dl fs c)"
proof (induction clk rnd k i dl fs c rule: attempt_call.induct)
  case (1 clk rnd k i dl fs c)
  let ?c1 = "snd (read_clock clk c)"
  let ?c2 = "snd (read_clock clk ?c1)"
  have same: "leaf_section i q c res" if "leaf_section i q c0 res" "leaf_sem c0 = leaf_sem c" "\<And>b. tally b c0 = tally b c" for c0 res
    using that by (simp add: leaf_section_def)
  have up: "leaf_section i q c (raise_up clk rnd dl e gs ?c1)" for e gs
    by (rule same [OF raise_up_section]) (use "1.prems" in simp_all)
  have leaf: "leaf_section i q c (leaf_call clk rnd i dl fs ?c2)"
  proof (rule same [of ?c2])
    let ?c = "on_sm (\<lambda>m. m\<lparr>leaf_received := leaf_received m + 1\<rparr>) ?c2"
    have "leaf_section i q ?c2 (raise_up clk rnd dl Unavailable fs ?c)"
      using raise_up_section [OF "1.prems", of i ?c clk rnd dl Unavailable fs] by (simp add: leaf_section_def)
    then show "leaf_section i q ?c2 (leaf_call clk rnd i dl fs ?c2)"
      using "1.prems" by (auto simp: leaf_call_def Let_def leaf_section_def)
  qed simp_all
  have call: "leaf_section i q c (attempt_call clk rnd k' i dl (first_attempt # fs) ?c2)"
    if "\<not> dl \<le> fst (read_clock clk c)" "\<not> min ATTEMPT_TIMEOUT (fl (dl - fst (read_clock clk ?c1))) \<le> 0" "k = Suc k'" for k'
    by (rule same [OF "1.IH" [OF refl prod.collapse that(1) refl prod.collapse refl that(2) that(3)]]) (use "1.prems" in simp_all)
  have out: "leaf_section i q c (Out_of_time dl fs, ?c2)" using "1.prems" by (simp add: leaf_section_def)
  show ?case
    by (subst attempt_call.simps) (use up leaf call out in \<open>auto simp: Let_def case_prod_beta split: nat.split\<close>)
qed

lemma return_up_section: "leaf_section i (At_leaf dl gs) c (return_up fs (on_leaf give_back c))"
proof -
  have "leaf_sem (snd (return_up fs c)) = leaf_sem c \<and> fst (return_up fs c) = Answered True \<and>
    tally b (snd (return_up fs c)) = tally b c + of_bool b" for b c
  proof (induction fs arbitrary: c)
    case (Cons f fs)
    then show ?case by (simp add: deposit_at_def tally_def)
  qed (simp add: tally_def)
  then show ?thesis by (simp add: leaf_section_def)
qed

lemma section_leaf:
  assumes "storm_section clk rnd i e q c = Some res"
  shows "leaf_section i q c res"
proof -
  have up: "leaf_section i q c (raise_up clk rnd dl e fs (on_leaf g c))"
    if "task_move i (leaf_sem c) (leaf_stance q) Outside (g (leaf_sem c))" "\<forall>b. q \<noteq> Answered b" for dl e fs g
    using raise_up_answers [of clk rnd dl e fs "on_leaf g c"] that by (simp add: leaf_section_def)
  have gw: "leaf_section i Arriving c (gateway clk rnd i c)"
    using attempt_call_section [of Arriving i "snd (read_clock clk c)" clk rnd 2]
    by (simp add: gateway_def case_prod_beta Let_def leaf_section_def)
  show ?thesis
  proof (cases e)
    case (Arrives j)
    with assms gw show ?thesis by (cases q) auto
  next
    case (Wakes j)
    with assms attempt_call_section [of q] show ?thesis by (cases q) auto
  next
    case (Expires j k)
    with assms raise_up_section [of q] up [of "cancel_wait i"] up [of give_back] show ?thesis
      by (cases q) (auto split: if_split_asm)
  next
    case (Has_connection j)
    with assms show ?thesis by (cases q) (auto simp: leaf_section_def split: if_split_asm)
  next
    case (Leaf_done j)
    with assms return_up_section show ?thesis by (cases q) auto
  qed (use assms in \<open>cases q; simp\<close>)
qed

interpretation storm_leaf: task_semaphore "storm_step clk rnd" "\<lambda>s. leaf_sem (chain s)" clients leaf_stance "\<lambda>_. True" for clk rnd
proof unfold_locales
  fix s :: storm_sys and e
  show "leaf_sem (chain (storm_step clk rnd e s)) = leaf_sem (chain s) \<and> clients (storm_step clk rnd e s) = clients s \<or>
    (\<exists>i p. i < length (clients s) \<and> clients (storm_step clk rnd e s) = (clients s)[i := p] \<and>
       task_move i (leaf_sem (chain s)) (leaf_stance (clients s ! i)) (leaf_stance p) (leaf_sem (chain (storm_step clk rnd e s))))"
  proof (cases rule: storm_step_cases [of clk rnd e s])
    case (moves i p c)
    with section_leaf [OF moves(3)] show ?thesis by (auto simp: leaf_section_def)
  qed simp
qed simp

interpretation storm_books: task_books "storm_step clk rnd" clients "\<lambda>_. True" "\<lambda>s. tally b (chain s)" "\<lambda>p. of_bool (p = Answered b)"
  for clk rnd b
proof unfold_locales
  fix s :: storm_sys and e
  show "True \<and> (clients (storm_step clk rnd e s) = clients s \<and> tally b (chain (storm_step clk rnd e s)) = tally b (chain s) \<or>
    (\<exists>i p. i < length (clients s) \<and> clients (storm_step clk rnd e s) = (clients s)[i := p] \<and>
       tally b (chain (storm_step clk rnd e s)) =
         tally b (chain s) + of_bool (p = Answered b) - of_bool (clients s ! i = Answered b)))"
  proof (cases rule: storm_step_cases [of clk rnd e s])
    case (moves i p c)
    with section_leaf [OF moves(3)] show ?thesis by (auto simp: leaf_section_def)
  qed (simp add: tally_def)
qed

subsection \<open>Amplification\<close>

lemma storm_start_facts:
  "sm (chain (storm_start (new_chain jit budgeted edge) n)) = new_storm_metrics"
  "edge_only (chain (storm_start (new_chain jit budgeted edge) n)) = edge"
  "clients (storm_start c n) = replicate n Arriving"
  by (simp_all add: storm_start_def new_chain_def)

lemma nonneg_sum: "(\<And>p. 0 \<le> f p) \<Longrightarrow> (0::int) \<le> sum_list (map f ps)"
  by (induction ps) (simp_all add: add_nonneg_nonneg)

lemma storm_run_facts:
  fixes clk rnd evs jit budgeted edge n
  defines "s \<equiv> storm_run clk rnd evs (new_chain jit budgeted edge) n"
  shows "leaf_received (sm (chain s)) \<le> 27 * int n"
    and "leaf_received (sm (chain s)) \<le> int n + sm_retries (sm (chain s))"
    and "count_stance leaf_stance Using (clients s) \<le> 8"
    and "length (clients s) = n"
    and "\<And>b. tally b (chain s) = int (length (filter (\<lambda>p. p = Answered b) (clients s)))"
proof -
  let ?c = "new_chain jit budgeted edge"
  have start: "edge_only (chain (storm_start ?c n)) = edge \<and> list_all sound_phase (clients (storm_start ?c n))"
    by (simp add: storm_start_facts list_all_iff)
  have free: "sum_list (map (\<lambda>e. case e of Expires i k \<Rightarrow> if 0 < k then 0 else 0 | _ \<Rightarrow> 0) evs) = (0::int)"
    by (induction evs) (simp_all split: storm_event.split)
  have "0 \<le> storm_total.spare p" "0 \<le> storm_paid.spare p" for p by (cases p; simp)+
  then have spare: "0 \<le> sum_list (map storm_total.spare (clients s))" "0 \<le> sum_list (map storm_paid.spare (clients s))"
    by (simp_all add: nonneg_sum)
  show "leaf_received (sm (chain s)) \<le> 27 * int n"
    using storm_total.run.potential_run [OF start, of clk rnd evs] free spare(1)
    by (simp add: storm_start_facts new_storm_metrics_def s_def storm_run_def map_replicate first_attempt_def)
  show "leaf_received (sm (chain s)) \<le> int n + sm_retries (sm (chain s))"
    using storm_paid.run.potential_run [OF start, of clk rnd evs] free spare(2)
    by (simp add: storm_start_facts new_storm_metrics_def s_def storm_run_def map_replicate)
  show "count_stance leaf_stance Using (clients s) \<le> 8"
    unfolding s_def storm_run_def
    by (rule storm_leaf.users_bounded(1)) (auto simp: storm_start_def new_chain_def LEAF_POOL_def)
  show "tally b (chain s) = int (length (filter (\<lambda>p. p = Answered b) (clients s)))" for b
    using storm_books.books_run [where s = "storm_start ?c n" and b = b and clk = clk and rnd = rnd and es = evs]
    by (simp add: sum_of_bool s_def storm_run_def storm_start_facts tally_def new_storm_metrics_def)
  have "length (clients (fold (storm_step clk rnd) evs r)) = length (clients r)" for r
  proof (induction evs arbitrary: r)
    case (Cons e evs)
    have "length (clients (storm_step clk rnd e r)) = length (clients r)"
      by (cases rule: storm_step_cases [of clk rnd e r]) simp_all
    with Cons.IH show ?case by simp
  qed simp
  then show "length (clients s) = n" by (simp add: s_def storm_run_def storm_start_facts)
qed

text \<open>
  In every variant of the retry storm, under every interleaving, clock, draw and fault, n requests cost the
  database at most 27 n calls, each call after a request's first was counted as a retry, at most eight calls are served at a
  time, and the answered requests are exactly the ones counted.
\<close>

theorem storm_amplification:
  "let s = storm_run clk rnd evs (new_chain jit budgeted edge) n; m = sm (chain s) in
     leaf_received m \<le> 27 * int n \<and>
     leaf_received m \<le> int n + sm_retries m \<and>
     count_stance leaf_stance Using (clients s) \<le> 8 \<and>
     sm_ok m = int (length (filter (\<lambda>p. p = Answered True) (clients s))) \<and>
     sm_failed m = int (length (filter (\<lambda>p. p = Answered False) (clients s)))"
  using storm_run_facts(1,2,3) [of clk rnd evs jit budgeted edge n] storm_run_facts(5) [where b = True]
    storm_run_facts(5) [where b = False]
  by (simp add: Let_def tally_def)

lemma banked_start: "banked 3 (new_chain jit True edge)"
  unfolding banked_def using earned_new [of sb_deposit sb_withdraw new_storm_budget]
  by (intro exI [of _ "\<lambda>_. 0"]) (simp add: new_chain_def new_storm_metrics_def)

lemma banked_run:
  "edge_only (chain s) = edge \<and> list_all sound_phase (clients s) \<Longrightarrow> banked 3 (chain s) \<Longrightarrow>
   banked 3 (chain (fold (storm_step clk rnd) evs s))"
proof (induction evs arbitrary: s)
  case (Cons e evs)
  have "banked 3 (chain (storm_step clk rnd e s))"
  proof (cases rule: storm_step_cases [of clk rnd e s])
    case (stays f)
    with Cons.prems(2) show ?thesis by (simp add: banked_def)
  next
    case (moves i p c)
    then show ?thesis using section_banked [OF moves(3) Cons.prems(2)] Cons.prems(1) by (simp add: list_all_length)
  qed
  with Cons storm_total.run.potential_law [OF Cons.prems(1)] show ?case by simp
qed simp

lemma banked_retries:
  assumes "banked 3 c" "sm_ok (sm c) \<le> 10 ^ 9"
  shows "sm_retries (sm c) * 2 ^ 20 \<le> 9 * 2 ^ 20 + 3 * 104858 * sm_ok (sm c)"
proof -
  obtain g d where gd: "\<And>h. h < 3 \<Longrightarrow> \<exists>b. budgets c h = Some b \<and> storm_earned (g h) (d h) b" "\<And>h. h < 3 \<Longrightarrow> int (d h) \<le> sm_ok (sm c)"
    "sm_retries (sm c) = int (g 0 + g 1 + g 2)" using assms(1) by (auto simp: banked_def)
  have "int (g h) * 2 ^ 20 \<le> 3 * 2 ^ 20 + 104858 * sm_ok (sm c)" if h: "h < 3" for h
  proof -
    obtain b where b: "storm_earned (g h) (d h) b" using gd(1) [OF h] by blast
    have "int (d h) \<le> 10 ^ 9" using gd(2) [OF h] assms(2) by linarith
    then have "d h \<le> 10 ^ 9" by simp
    from storm_earned_bound [OF b this] gd(2) [OF h] show ?thesis by linarith
  qed
  from this [of 0] this [of 1] this [of 2] gd(3) show ?thesis by simp
qed

text \<open>
  C9. With the budget at every hop, n requests cost the database at most n calls plus the retries, and all hops
  together retry at most nine times plus three tenths of the answered requests (in double arithmetic): while nothing is answered,
  n requests cost at most n + 9 calls, whatever the timers do.
\<close>

theorem budget_caps_storm:
  assumes "n \<le> 10 ^ 9"
  shows "let m = sm (chain (storm_run clk rnd evs (new_chain jit True edge) n)) in
    leaf_received m \<le> int n + sm_retries m \<and>
    sm_retries m * 2 ^ 20 \<le> 9 * 2 ^ 20 + 3 * 104858 * sm_ok m \<and>
    0 \<le> sm_ok m \<and> sm_ok m \<le> int n \<and>
    (sm_ok m = 0 \<longrightarrow> leaf_received m \<le> int n + 9)"
proof -
  let ?s = "storm_run clk rnd evs (new_chain jit True edge) n"
  have "sm_ok (sm (chain ?s)) = int (length (filter (\<lambda>p. p = Answered True) (clients ?s)))"
    using storm_run_facts(5) [where b = True] by (simp add: tally_def)
  moreover have "length (filter (\<lambda>p. p = Answered True) (clients ?s)) \<le> n"
    using length_filter_le [of _ "clients ?s"] storm_run_facts(4) [of clk rnd evs jit True edge n] by simp
  ultimately have ok: "0 \<le> sm_ok (sm (chain ?s))" "sm_ok (sm (chain ?s)) \<le> int n" by simp_all
  have "banked 3 (chain ?s)" unfolding storm_run_def
    by (rule banked_run) (simp_all add: storm_start_def banked_start list_all_iff)
  then have "sm_retries (sm (chain ?s)) * 2 ^ 20 \<le> 9 * 2 ^ 20 + 3 * 104858 * sm_ok (sm (chain ?s))"
    using ok assms by (intro banked_retries) simp_all
  with ok storm_run_facts(2) [of clk rnd evs jit True edge n] show ?thesis by (auto simp: Let_def)
qed

lemma budget_caps_storm_witness:
  "leaf_received (sm (chain (storm_run (\<lambda>_. 0) (\<lambda>_. 0) (Set_faulty True # Arrives 0 # replicate 40 (Wakes 0))
     (new_chain True True True) 1))) \<le>
   1 + sm_retries (sm (chain (storm_run (\<lambda>_. 0) (\<lambda>_. 0) (Set_faulty True # Arrives 0 # replicate 40 (Wakes 0))
     (new_chain True True True) 1)))"
  using budget_caps_storm [of 1 "\<lambda>_. 0" "\<lambda>_. 0" "Set_faulty True # Arrives 0 # replicate 40 (Wakes 0)" True True]
  by (simp add: Let_def)

subsection \<open>Retries at the edge only\<close>

fun outer_timer :: "storm_event \<Rightarrow> bool" where
  "outer_timer (Expires i k) = (0 < k)"
| "outer_timer _ = False"

lemma edge_only_calls:
  "leaf_received (sm (chain (storm_run clk rnd evs (new_chain jit budgeted True) n))) \<le>
     3 * int n + 3 * int (length (filter outer_timer evs))"
proof -
  let ?s = "storm_run clk rnd evs (new_chain jit budgeted True) n"
  have start: "edge_only (chain (storm_start (new_chain jit budgeted True) n)) = True \<and>
      list_all sound_phase (clients (storm_start (new_chain jit budgeted True) n))"
    by (simp add: storm_start_facts list_all_iff)
  have cost: "sum_list (map (\<lambda>e. case e of Expires i k \<Rightarrow> if 0 < k then 3 else 0 | _ \<Rightarrow> 0) evs) =
      3 * int (length (filter outer_timer evs))"
  proof (induction evs)
    case (Cons e evs)
    then show ?case by (cases e) simp_all
  qed simp
  have "0 \<le> storm_edge.spare p" for p by (cases p) (simp_all add: edge_left_def)
  then have "0 \<le> sum_list (map storm_edge.spare (clients ?s))" by (rule nonneg_sum)
  with storm_edge.run.potential_run [OF start, of clk rnd evs] cost show ?thesis
    by (simp add: storm_start_facts new_storm_metrics_def storm_run_def map_replicate edge_left_def first_attempt_def)
qed

text \<open>
  The run that attains the bound: the database refuses twice and then hangs, until the gateway's timer (0.3 s, the same
  as everybody's, and started first) ends its attempt. The clock stands still, as it may: the run takes 1.05 s of the 1.5.
\<close>

abbreviation frozen :: "nat \<Rightarrow> rat" where
  "frozen \<equiv> (\<lambda>_. 0)"

definition refused_then_hanging :: "storm_event \<Rightarrow> storm_event list" where
  "refused_then_hanging e = [Set_faulty True, e, Wakes 0, Set_faulty False, Wakes 0, Expires 0 2]"

lemma frozen_deadline: "fl REQUEST_BUDGET = 3 / 2"
  using fl_double [OF is_double_dyadic [of 3 1]] by (simp add: REQUEST_BUDGET_def)

lemma frozen_back_off:
  assumes "hf_attempt f < 2" "budgets c h = None" "\<not> jitter c"
  shows "back_off frozen rnd (3 / 2) h f c = (Some \<lparr>hf_attempt = Suc (hf_attempt f), hf_delay = fl (hf_delay f * 2)\<rparr>,
    snd (read_clock frozen (on_sm (\<lambda>m. m\<lparr>sm_retries := sm_retries m + 1\<rparr>) c)))"
proof -
  have "BACKOFF_CAP \<le> of_int 1" unfolding BACKOFF_CAP_def by (intro dbl.rnd_le is_double_int) simp_all
  then have "fl (min BACKOFF_CAP (hf_delay f)) \<le> of_int 1" by (intro dbl.rnd_le is_double_int) (auto simp: min_le_iff_disj)
  with assms show ?thesis by (auto simp: back_off_def Let_def ATTEMPTS_def withdraw_at_def read_clock_def)
qed

lemma frozen_call:
  "attempt_call frozen rnd k i (3 / 2) fs c =
     (let c2 = snd (read_clock frozen (snd (read_clock frozen c))) in
      case k of 0 \<Rightarrow> leaf_call frozen rnd i (3 / 2) fs c2 | Suc k' \<Rightarrow> attempt_call frozen rnd k' i (3 / 2) (first_attempt # fs) c2)"
proof -
  have "of_int 1 / 2 ^ 2 \<le> ATTEMPT_TIMEOUT" unfolding ATTEMPT_TIMEOUT_def by (intro dbl.rnd_ge is_double_dyadic) simp_all
  then have "\<not> min ATTEMPT_TIMEOUT (3 / 2) \<le> 0" by (simp add: min_le_iff_disj)
  moreover have half: "fl (3 / 2) = 3 / 2" using frozen_deadline by (simp add: REQUEST_BUDGET_def)
  moreover have "fst (read_clock frozen x) = 0" for x by (simp add: read_clock_def)
  ultimately show ?thesis
    by (subst attempt_call.simps) (simp add: case_prod_beta Let_def half del: min_le_iff_disj)
qed

lemma frozen_exhausted: "hf_attempt f = 2 \<Longrightarrow> back_off frozen rnd dl h f c = (None, c)"
  by (simp add: back_off_def ATTEMPTS_def)

lemmas frozen_run = storm_run_def storm_start_def new_chain_def storm_step_def gateway_def read_clock_def frozen_deadline
  frozen_call frozen_back_off frozen_exhausted leaf_call_def on_sm_def on_leaf_def leaves_def new_semaphore_def locked_def
  take_permit_def give_back_def wake_next_def first_attempt_def new_storm_metrics_def LEAF_POOL_def

lemma edge_only_nine:
  "leaf_received (sm (chain (storm_run frozen frozen (refused_then_hanging (Arrives 0) @ refused_then_hanging (Wakes 0) @
     refused_then_hanging (Wakes 0)) (new_chain False False True) 1))) = 9"
  by (simp add: frozen_run refused_then_hanging_def)

text \<open>And the product of the attempts is reached by the naive variant, when the database refuses and no timer fires.\<close>

lemma naive_twenty_seven:
  "leaf_received (sm (chain (storm_run frozen frozen (Set_faulty True # Arrives 0 # replicate 26 (Wakes 0))
     (new_chain False False False) 1))) = 27"
  by (simp add: frozen_run numeral_eq_Suc)

text \<open>
  C10. When only the hop next to the database retries, n requests cost at most 3 n calls, plus three for every timer
  of an outer hop that fires; so the variant is not bounded by three calls a request: a database that refuses twice and then
  hangs receives nine calls from one request.
\<close>

theorem edge_only_bound:
  "leaf_received (sm (chain (storm_run clk rnd evs (new_chain jit budgeted True) n))) \<le>
     3 * int n + 3 * int (length (filter outer_timer evs)) \<and>
   leaf_received (sm (chain (storm_run frozen frozen (refused_then_hanging (Arrives 0) @ refused_then_hanging (Wakes 0) @
     refused_then_hanging (Wakes 0)) (new_chain False False True) 1))) = 9"
  using edge_only_calls edge_only_nine by blast

end
