(* ===== verification/Sim_Deadlines.thy ===== *)
theory Sim_Deadlines
  imports Sim_Tasks PyFloat
begin

text \<open>
  \<^verbatim>\<open>05-failure/02-.../deadline_chain.py\<close>: gateway, \<open>service_b\<close>, \<open>service_c\<close> and the connection pool below them, in the
  variants with and without a propagated deadline and a statement timeout. A request has two halves: the coroutine the gateway
  waits for, and the query, which runs as a shielded task of its own and outlives its caller. Clock readings come with
  the events; when a timer fires or a task resumes is the environment's choice.
\<close>

subsection \<open>Metrics and database\<close>

definition GATEWAY_BUDGET :: rat where "GATEWAY_BUDGET = 1 / 2"
definition SLACK :: rat where "SLACK = fl (2 / 100)"
definition C_SERVICE_FAST :: rat where "C_SERVICE_FAST = fl (4 / 100)"
definition C_SERVICE_SLOW :: rat where "C_SERVICE_SLOW = fl (8 / 10)"
definition C_POOL_SIZE :: nat where "C_POOL_SIZE = 8"

record chain_metrics =
  gateway_ok :: int
  gateway_timeout :: int
  gateway_rejected :: int
  c_started :: int
  c_completed :: int
  c_zombie :: int
  c_killed :: int
  c_abandoned :: int
  c_latencies :: "rat list"
  pool_gauge :: "int list"

definition new_chain_metrics :: chain_metrics where
  "new_chain_metrics = \<lparr>gateway_ok = 0, gateway_timeout = 0, gateway_rejected = 0, c_started = 0, c_completed = 0, c_zombie = 0,
     c_killed = 0, c_abandoned = 0, c_latencies = [], pool_gauge = []\<rparr>"

record chain_db =
  cd_sem :: semaphore
  cd_in_use :: int
  cd_m :: chain_metrics

definition new_chain_db :: chain_db where
  "new_chain_db = \<lparr>cd_sem = new_semaphore C_POOL_SIZE, cd_in_use = 0, cd_m = new_chain_metrics\<rparr>"

definition on_cm :: "(chain_metrics \<Rightarrow> chain_metrics) \<Rightarrow> chain_db \<Rightarrow> chain_db" where
  "on_cm f d = d\<lparr>cd_m := f (cd_m d)\<rparr>"

definition on_pool_sem :: "(semaphore \<Rightarrow> semaphore) \<Rightarrow> chain_db \<Rightarrow> chain_db" where
  "on_pool_sem f d = d\<lparr>cd_sem := f (cd_sem d)\<rparr>"

definition on_in_use :: "int \<Rightarrow> chain_db \<Rightarrow> chain_db" where
  "on_in_use x d = d\<lparr>cd_in_use := cd_in_use d + x\<rparr>"

subsection \<open>A request\<close>

text \<open>
  The query task is created, waits for a connection, holds it (until it is done or the statement timeout), has returned, and has been accounted by its callback
  (late if the gateway's deadline had passed). Its Boolean result is true only if it ran to completion.
\<close>

datatype query_result = Ran_through | Killed | Abandoned

datatype query_phase =
    No_query
  | Query_created rat
  | In_pool_queue rat
  | Holding rat bool
  | Returned rat query_result
  | Accounted query_result bool

datatype front_phase = Not_started | In_service_b | In_service_c | Awaiting_query | Answered_ok | Answered_timeout

record chain_request =
  rq_slow :: bool
  rq_deadline :: rat
  front :: front_phase
  query :: query_phase

text \<open>\<^verbatim>\<open>remaining()\<close> at the reading \<open>now\<close>, and the guard against starting work that cannot finish.\<close>

definition remaining :: "rat option \<Rightarrow> rat \<Rightarrow> rat option" where
  "remaining d now = map_option (\<lambda>x. fl (x - now)) d"

definition too_late :: "rat option \<Rightarrow> rat \<Rightarrow> bool" where
  "too_late d now = (case remaining d now of None \<Rightarrow> False | Some left \<Rightarrow> left < SLACK)"

definition ambient :: "bool \<Rightarrow> chain_request \<Rightarrow> rat option" where
  "ambient propagate r = (if propagate then Some (rq_deadline r) else None)"

definition time_out :: "chain_request \<Rightarrow> chain_db \<Rightarrow> chain_request \<times> chain_db" where
  "time_out r d = (r\<lparr>front := Answered_timeout\<rparr>, on_cm (\<lambda>m. m\<lparr>gateway_timeout := gateway_timeout m + 1\<rparr>) d)"

text \<open>\<^verbatim>\<open>gateway\<close> up to the first sleep of \<^verbatim>\<open>service_b\<close>.\<close>

definition gateway_starts :: "bool \<Rightarrow> rat \<Rightarrow> rat \<Rightarrow> chain_request \<Rightarrow> chain_db \<Rightarrow> chain_request \<times> chain_db" where
  "gateway_starts propagate now now' r d =
     (let r1 = r\<lparr>rq_deadline := fl (now + GATEWAY_BUDGET)\<rparr> in
      if too_late (ambient propagate r1) now' then time_out r1 d else (r1\<lparr>front := In_service_b\<rparr>, d))"

text \<open>\<^verbatim>\<open>service_b\<close> from there to the first sleep of \<^verbatim>\<open>service_c\<close>; a call with no time left is cancelled before it starts.\<close>

definition service_b_calls :: "bool \<Rightarrow> rat \<Rightarrow> rat \<Rightarrow> chain_request \<Rightarrow> chain_db \<Rightarrow> chain_request \<times> chain_db" where
  "service_b_calls propagate now now' r d =
     (let out = (case remaining (ambient propagate r) now of None \<Rightarrow> GATEWAY_BUDGET | Some left \<Rightarrow> max 0 (fl (left - SLACK))) in
      if out \<le> 0 \<or> too_late (ambient propagate r) now' then time_out r d else (r\<lparr>front := In_service_c\<rparr>, d))"

definition service_c_queries :: "rat \<Rightarrow> chain_request \<Rightarrow> chain_db \<Rightarrow> chain_request \<times> chain_db" where
  "service_c_queries now r d =
     (r\<lparr>front := Awaiting_query, query := Query_created now\<rparr>, on_cm (\<lambda>m. m\<lparr>c_started := c_started m + 1\<rparr>) d)"

text \<open>\<^verbatim>\<open>Database.query\<close> with the connection checked out.\<close>

definition with_connection ::
  "bool \<Rightarrow> bool \<Rightarrow> rat \<Rightarrow> rat \<Rightarrow> chain_request \<Rightarrow> chain_db \<Rightarrow> chain_request \<times> chain_db" where
  "with_connection propagate statement_timeout started now r d =
     (if too_late (ambient propagate r) now
      then (r\<lparr>query := Returned started Abandoned\<rparr>,
            on_pool_sem give_back (on_cm (\<lambda>m. m\<lparr>c_abandoned := c_abandoned m + 1\<rparr>) d))
      else
        let duration = (if rq_slow r then C_SERVICE_SLOW else C_SERVICE_FAST);
            stmt = (case remaining (ambient propagate r) now of
                None \<Rightarrow> None | Some left \<Rightarrow> if statement_timeout then Some (max 0 (fl (left - SLACK))) else None);
            runs = (case stmt of None \<Rightarrow> True | Some t \<Rightarrow> duration \<le> t)
        in (r\<lparr>query := Holding started runs\<rparr>, on_in_use 1 d))"

definition query_starts ::
  "bool \<Rightarrow> bool \<Rightarrow> nat \<Rightarrow> rat \<Rightarrow> rat \<Rightarrow> chain_request \<Rightarrow> chain_db \<Rightarrow> chain_request \<times> chain_db" where
  "query_starts propagate statement_timeout i started now r d =
     (if locked (cd_sem d) then (r\<lparr>query := In_pool_queue started\<rparr>, on_pool_sem (enqueue i) d)
      else with_connection propagate statement_timeout started now r (on_pool_sem take_permit d))"

definition query_ends :: "rat \<Rightarrow> bool \<Rightarrow> chain_request \<Rightarrow> chain_db \<Rightarrow> chain_request \<times> chain_db" where
  "query_ends started runs r d =
     (r\<lparr>query := Returned started (if runs then Ran_through else Killed)\<rparr>,
      on_pool_sem give_back (on_in_use (- 1) (on_cm (\<lambda>m. if runs then m else m\<lparr>c_killed := c_killed m + 1\<rparr>) d)))"

text \<open>The callback of the query task.\<close>

definition account :: "rat \<Rightarrow> rat \<Rightarrow> query_result \<Rightarrow> chain_request \<Rightarrow> chain_db \<Rightarrow> chain_request \<times> chain_db" where
  "account started finished res r d =
     (let late = rq_deadline r < finished in
      (r\<lparr>query := Accounted res late\<rparr>,
       on_cm (\<lambda>m. let m1 = m\<lparr>c_completed := c_completed m + 1, c_latencies := c_latencies m @ [fl (finished - started)]\<rparr> in
         if late then m1\<lparr>c_zombie := c_zombie m1 + 1\<rparr> else m1) d))"

text \<open>The coroutine resumes after the query task has returned, whatever it returned.\<close>

definition gateway_answers :: "chain_request \<Rightarrow> chain_db \<Rightarrow> chain_request \<times> chain_db" where
  "gateway_answers r d = (r\<lparr>front := Answered_ok\<rparr>, on_cm (\<lambda>m. m\<lparr>gateway_ok := gateway_ok m + 1\<rparr>) d)"

subsection \<open>Runs\<close>

text \<open>\<open>Timer_fires\<close> is the gateway's timer or that of \<^verbatim>\<open>service_b\<close>, whichever is first.\<close>

datatype chain_event =
    Request_starts nat rat rat
  | B_resumes nat rat rat
  | C_resumes nat rat
  | Query_runs nat rat
  | Query_granted nat rat
  | Query_ends nat
  | Query_accounted nat rat
  | Front_resumes nat
  | Timer_fires nat
  | Sample_pool

fun request_of :: "chain_event \<Rightarrow> nat option" where
  "request_of (Request_starts i a b) = Some i" | "request_of (B_resumes i a b) = Some i" | "request_of (C_resumes i a) = Some i"
| "request_of (Query_runs i a) = Some i" | "request_of (Query_granted i a) = Some i" | "request_of (Query_ends i) = Some i"
| "request_of (Query_accounted i a) = Some i" | "request_of (Front_resumes i) = Some i" | "request_of (Timer_fires i) = Some i"
| "request_of Sample_pool = None"

definition chain_section ::
  "bool \<Rightarrow> bool \<Rightarrow> nat \<Rightarrow> chain_event \<Rightarrow> chain_request \<Rightarrow> chain_db \<Rightarrow> (chain_request \<times> chain_db) option" where
  "chain_section propagate statement_timeout i e r d = (case e of
     Request_starts _ now now' \<Rightarrow> if front r = Not_started then Some (gateway_starts propagate now now' r d) else None
   | B_resumes _ now now' \<Rightarrow> if front r = In_service_b then Some (service_b_calls propagate now now' r d) else None
   | C_resumes _ now \<Rightarrow> if front r = In_service_c then Some (service_c_queries now r d) else None
   | Query_runs _ now \<Rightarrow> (case query r of
         Query_created started \<Rightarrow> Some (query_starts propagate statement_timeout i started now r d) | _ \<Rightarrow> None)
   | Query_granted _ now \<Rightarrow> (case query r of
         In_pool_queue started \<Rightarrow> if woken i (cd_sem d)
           then Some (with_connection propagate statement_timeout started now r (on_pool_sem (resume i) d)) else None
       | _ \<Rightarrow> None)
   | Query_ends _ \<Rightarrow> (case query r of Holding started runs \<Rightarrow> Some (query_ends started runs r d) | _ \<Rightarrow> None)
   | Query_accounted _ now \<Rightarrow> (case query r of Returned started res \<Rightarrow> Some (account started now res r d) | _ \<Rightarrow> None)
   | Front_resumes _ \<Rightarrow> (case query r of
         Accounted res late \<Rightarrow> if front r = Awaiting_query then Some (gateway_answers r d) else None | _ \<Rightarrow> None)
   | Timer_fires _ \<Rightarrow> if front r \<in> {In_service_b, In_service_c, Awaiting_query} then Some (time_out r d) else None
   | Sample_pool \<Rightarrow> None)"

record chain_sys =
  database :: chain_db
  requests :: "chain_request list"

definition chain_step :: "bool \<Rightarrow> bool \<Rightarrow> chain_event \<Rightarrow> chain_sys \<Rightarrow> chain_sys" where
  "chain_step propagate statement_timeout e s = (case request_of e of
     None \<Rightarrow> s\<lparr>database := on_cm (\<lambda>m. m\<lparr>pool_gauge := pool_gauge m @ [cd_in_use (database s)]\<rparr>) (database s)\<rparr>
   | Some i \<Rightarrow> if length (requests s) \<le> i then s else
       (case chain_section propagate statement_timeout i e (requests s ! i) (database s) of
          None \<Rightarrow> s | Some (r, d) \<Rightarrow> \<lparr>database = d, requests = (requests s)[i := r]\<rparr>))"

definition chain_start :: "bool list \<Rightarrow> chain_sys" where
  "chain_start slow = \<lparr>database = new_chain_db,
     requests = map (\<lambda>b. \<lparr>rq_slow = b, rq_deadline = 0, front = Not_started, query = No_query\<rparr>) slow\<rparr>"

definition chain_run :: "bool \<Rightarrow> bool \<Rightarrow> chain_event list \<Rightarrow> bool list \<Rightarrow> chain_sys" where
  "chain_run propagate statement_timeout evs slow = fold (chain_step propagate statement_timeout) evs (chain_start slow)"

subsection \<open>Pool and books\<close>

lemma chain_db_simps [simp]:
  "cd_m (on_cm f d) = f (cd_m d)" "cd_m (on_pool_sem g d) = cd_m d" "cd_m (on_in_use x d) = cd_m d"
  "cd_sem (on_cm f d) = cd_sem d" "cd_sem (on_pool_sem g d) = g (cd_sem d)" "cd_sem (on_in_use x d) = cd_sem d"
  "cd_in_use (on_cm f d) = cd_in_use d" "cd_in_use (on_pool_sem g d) = cd_in_use d" "cd_in_use (on_in_use x d) = cd_in_use d + x"
  by (simp_all add: on_cm_def on_pool_sem_def on_in_use_def)

fun pool_stance :: "query_phase \<Rightarrow> stance" where
  "pool_stance (In_pool_queue st) = In_queue"
| "pool_stance (Holding st res) = Using"
| "pool_stance _ = Outside"

fun result_of :: "query_phase \<Rightarrow> query_result option" where
  "result_of (Returned st res) = Some res"
| "result_of (Accounted res late) = Some res"
| "result_of _ = None"

datatype gauge = Ok | Timeouts | Rejected | Started | Completed | Latencies | Zombies | Ended query_result | In_use

fun gauge_of :: "chain_db \<Rightarrow> gauge \<Rightarrow> int" where
  "gauge_of d Ok = gateway_ok (cd_m d)"
| "gauge_of d Timeouts = gateway_timeout (cd_m d)"
| "gauge_of d Rejected = gateway_rejected (cd_m d)"
| "gauge_of d Started = c_started (cd_m d)"
| "gauge_of d Completed = c_completed (cd_m d)"
| "gauge_of d Latencies = int (length (c_latencies (cd_m d)))"
| "gauge_of d Zombies = c_zombie (cd_m d)"
| "gauge_of d (Ended res) = (case res of Ran_through \<Rightarrow> 0 | Killed \<Rightarrow> c_killed (cd_m d) | Abandoned \<Rightarrow> c_abandoned (cd_m d))"
| "gauge_of d In_use = cd_in_use d"

fun counts :: "gauge \<Rightarrow> chain_request \<Rightarrow> bool" where
  "counts Ok r = (front r = Answered_ok)"
| "counts Timeouts r = (front r = Answered_timeout)"
| "counts Rejected r = False"
| "counts Started r = (query r \<noteq> No_query)"
| "counts Completed r = (\<exists>res late. query r = Accounted res late)"
| "counts Latencies r = (\<exists>res late. query r = Accounted res late)"
| "counts Zombies r = (\<exists>res. query r = Accounted res True)"
| "counts (Ended res) r = (res \<noteq> Ran_through \<and> result_of (query r) = Some res)"
| "counts In_use r = (pool_stance (query r) = Using)"

text \<open>The query exists from the moment \<^verbatim>\<open>service_c\<close> awaits it, and has been accounted before an answer is given.\<close>

definition query_follows :: "chain_request \<Rightarrow> bool" where
  "query_follows r = ((front r \<in> {Not_started, In_service_b, In_service_c} \<longrightarrow> query r = No_query) \<and>
     (front r = Answered_ok \<longrightarrow> (\<exists>res late. query r = Accounted res late)))"

definition chain_section_ok :: "nat \<Rightarrow> chain_request \<Rightarrow> chain_db \<Rightarrow> chain_request \<times> chain_db \<Rightarrow> bool" where
  "chain_section_ok i r d res \<longleftrightarrow>
     task_move i (cd_sem d) (pool_stance (query r)) (pool_stance (query (fst res))) (cd_sem (snd res)) \<and>
     (\<forall>g. gauge_of (snd res) g = gauge_of d g + of_bool (counts g (fst res)) - of_bool (counts g r)) \<and> query_follows (fst res)"

lemma all_gauges:
  "(\<forall>g. P g) \<longleftrightarrow> P Ok \<and> P Timeouts \<and> P Rejected \<and> P Started \<and> P Completed \<and> P Latencies \<and> P Zombies \<and>
     P (Ended Ran_through) \<and> P (Ended Killed) \<and> P (Ended Abandoned) \<and> P In_use"
proof -
  have "P g" if "P Ok" "P Timeouts" "P Rejected" "P Started" "P Completed" "P Latencies" "P Zombies"
    "P (Ended Ran_through)" "P (Ended Killed)" "P (Ended Abandoned)" "P In_use" for g
  proof (cases g)
    case (Ended res)
    with that show ?thesis by (cases res) simp_all
  qed (use that in simp_all)
  then show ?thesis by blast
qed

lemma front_sections:
  "front r = Not_started \<Longrightarrow> query_follows r \<Longrightarrow> chain_section_ok i r d (gateway_starts pr now now' r d)"
  "front r = In_service_b \<Longrightarrow> query_follows r \<Longrightarrow> chain_section_ok i r d (service_b_calls pr now now' r d)"
  "front r = In_service_c \<Longrightarrow> query_follows r \<Longrightarrow> chain_section_ok i r d (service_c_queries now r d)"
  "front r \<in> {In_service_b, In_service_c, Awaiting_query} \<Longrightarrow> query_follows r \<Longrightarrow> chain_section_ok i r d (time_out r d)"
  "front r = Awaiting_query \<Longrightarrow> query_follows r \<Longrightarrow> query r = Accounted res late \<Longrightarrow> chain_section_ok i r d (gateway_answers r d)"
  by (auto simp: chain_section_ok_def all_gauges query_follows_def gateway_starts_def service_b_calls_def service_c_queries_def
      time_out_def gateway_answers_def Let_def)

lemma query_ends_ok:
  "query r = Holding st runs \<Longrightarrow> query_follows r \<Longrightarrow> chain_section_ok i r d (query_ends st runs r d)"
  by (cases runs) (simp_all add: chain_section_ok_def all_gauges query_follows_def query_ends_def)

lemma account_ok:
  "query r = Returned st res \<Longrightarrow> query_follows r \<Longrightarrow> chain_section_ok i r d (account st fin res r d)"
  by (cases res) (simp_all add: chain_section_ok_def all_gauges query_follows_def account_def Let_def)

lemma with_connection_ok:
  assumes "query_follows r" "query r = Query_created st \<and> \<not> locked (cd_sem d) \<and> f = take_permit \<or>
      query r = In_pool_queue st \<and> woken i (cd_sem d) \<and> f = resume i"
  shows "chain_section_ok i r d (with_connection pr stm st now r (on_pool_sem f d))"
proof -
  have "front r \<noteq> Not_started \<and> front r \<noteq> In_service_b \<and> front r \<noteq> In_service_c \<and> front r \<noteq> Answered_ok"
    using assms by (auto simp: query_follows_def)
  with assms(2) give_back_take [of "cd_sem d"] give_back_resume [of i "cd_sem d"] show ?thesis
    by (elim disjE conjE) (simp_all add: chain_section_ok_def all_gauges query_follows_def with_connection_def Let_def split: option.split)
qed

lemma query_starts_ok:
  assumes "query r = Query_created st" "query_follows r"
  shows "chain_section_ok i r d (query_starts pr stm i st now r d)"
proof (cases "locked (cd_sem d)")
  case True
  have "front r \<noteq> Not_started \<and> front r \<noteq> In_service_b \<and> front r \<noteq> In_service_c \<and> front r \<noteq> Answered_ok"
    using assms by (auto simp: query_follows_def)
  with True assms(1) show ?thesis by (simp add: query_starts_def chain_section_ok_def all_gauges query_follows_def)
qed (use with_connection_ok [of r st d take_permit i] assms in \<open>simp add: query_starts_def\<close>)

lemma chain_section_keeps:
  assumes "chain_section pr stm i e r d = Some res" "query_follows r"
  shows "chain_section_ok i r d res"
  using assms front_sections [OF _ assms(2)] query_ends_ok [OF _ assms(2)] account_ok [OF _ assms(2)]
    query_starts_ok [OF _ assms(2)] with_connection_ok [OF assms(2)]
  by (cases e) (auto simp: chain_section_def split: if_split_asm query_phase.split_asm)

lemma chain_step_cases:
  obtains (sample) f where "chain_step pr stm e s = s\<lparr>database := on_cm (\<lambda>m. m\<lparr>pool_gauge := f m\<rparr>) (database s)\<rparr>"
  | (stays) "chain_step pr stm e s = s"
  | (moves) i r d where "i < length (requests s)" "chain_step pr stm e s = \<lparr>database = d, requests = (requests s)[i := r]\<rparr>"
      "chain_section pr stm i e (requests s ! i) (database s) = Some (r, d)"
proof (cases "request_of e")
  case None
  then show thesis by (intro sample) (simp add: chain_step_def)
next
  case (Some i)
  show thesis
  proof (cases "i < length (requests s) \<and> chain_section pr stm i e (requests s ! i) (database s) \<noteq> None")
    case True
    then obtain r d where "chain_section pr stm i e (requests s ! i) (database s) = Some (r, d)" by auto
    with Some True show thesis by (intro moves) (auto simp: chain_step_def)
  next
    case False
    with Some show thesis by (intro stays) (auto simp: chain_step_def not_le split: option.split)
  qed
qed

lemma chain_step_law:
  assumes "list_all query_follows (requests s)"
  shows "list_all query_follows (requests (chain_step pr stm e s)) \<and>
    (requests (chain_step pr stm e s) = requests s \<and> cd_sem (database (chain_step pr stm e s)) = cd_sem (database s) \<and>
       (\<forall>g. gauge_of (database (chain_step pr stm e s)) g = gauge_of (database s) g) \<or>
     (\<exists>i r. i < length (requests s) \<and> requests (chain_step pr stm e s) = (requests s)[i := r] \<and>
       chain_section_ok i (requests s ! i) (database s) (r, database (chain_step pr stm e s))))"
proof (cases rule: chain_step_cases [of pr stm e s])
  case (moves i r d)
  have ok: "chain_section_ok i (requests s ! i) (database s) (r, d)"
    using chain_section_keeps [OF moves(3)] assms moves(1) by (simp add: list_all_length)
  then have "list_all query_follows ((requests s)[i := r])"
    using assms by (auto simp: chain_section_ok_def list_all_iff dest!: set_update_subset_insert [THEN subsetD])
  with ok moves show ?thesis by auto
qed (use assms in \<open>simp_all add: all_gauges\<close>)

interpretation chain_pool: task_semaphore "chain_step pr stm" "\<lambda>s. cd_sem (database s)" requests "\<lambda>r. pool_stance (query r)"
    "\<lambda>s. list_all query_follows (requests s)" for pr stm
proof unfold_locales
  fix s :: chain_sys and e
  assume s: "list_all query_follows (requests s)"
  from chain_step_law [OF s, of pr stm e] show "list_all query_follows (requests (chain_step pr stm e s))" by blast
  from chain_step_law [OF s, of pr stm e]
  show "cd_sem (database (chain_step pr stm e s)) = cd_sem (database s) \<and> requests (chain_step pr stm e s) = requests s \<or>
    (\<exists>i r. i < length (requests s) \<and> requests (chain_step pr stm e s) = (requests s)[i := r] \<and>
       task_move i (cd_sem (database s)) (pool_stance (query (requests s ! i))) (pool_stance (query r))
         (cd_sem (database (chain_step pr stm e s))))"
    unfolding chain_section_ok_def by auto
qed

interpretation chain_books: task_books "chain_step pr stm" requests "\<lambda>s. list_all query_follows (requests s)"
    "\<lambda>s. gauge_of (database s) g" "\<lambda>r. of_bool (counts g r)" for pr stm g
proof unfold_locales
  fix s :: chain_sys and e
  assume s: "list_all query_follows (requests s)"
  from chain_step_law [OF s, of pr stm e]
  show "list_all query_follows (requests (chain_step pr stm e s)) \<and>
    (requests (chain_step pr stm e s) = requests s \<and> gauge_of (database (chain_step pr stm e s)) g = gauge_of (database s) g \<or>
    (\<exists>i r. i < length (requests s) \<and> requests (chain_step pr stm e s) = (requests s)[i := r] \<and>
       gauge_of (database (chain_step pr stm e s)) g =
         gauge_of (database s) g + of_bool (counts g r) - of_bool (counts g (requests s ! i))))"
    unfolding chain_section_ok_def by (elim conjE disjE exE) auto
qed

lemma chain_start_facts:
  "list_all query_follows (requests (chain_start slow))"
  "r \<in> set (requests (chain_start slow)) \<Longrightarrow> \<not> counts g r \<and> pool_stance (query r) = Outside"
  by (auto simp: chain_start_def query_follows_def list_all_iff) (cases g; auto)

lemma chain_run_follows: "list_all query_follows (requests (chain_run pr stm evs slow))"
  unfolding chain_run_def using chain_pool.proper_run [OF chain_start_facts(1)] .

text \<open>
  C12. In every variant and interleaving: answered, timed out, started, accounted, killed and abandoned requests are
  exactly the ones counted, and a query counts as a zombie exactly when its callback ran after the gateway's deadline, whatever
  became of it; nothing is ever counted as rejected; the pool gauge is the number of queries holding one of the eight connections.
\<close>

theorem chain_books_balance:
  "let s = chain_run pr stm evs slow in
     gauge_of (database s) g = int (length (filter (counts g) (requests s))) \<and>
     gateway_rejected (cd_m (database s)) = 0 \<and>
     cd_in_use (database s) = int (count_stance (\<lambda>r. pool_stance (query r)) Using (requests s)) \<and>
     cd_in_use (database s) \<le> 8"
proof -
  let ?s = "chain_run pr stm evs slow"
  have books: "gauge_of (database ?s) g = int (length (filter (counts g) (requests ?s)))" for g
  proof -
    have "filter (counts g) (requests (chain_start slow)) = []" using chain_start_facts(2) by (simp add: filter_empty_conv)
    moreover have "gauge_of (database (chain_start slow)) g = 0"
      by (cases g) (simp_all add: chain_start_def new_chain_db_def new_chain_metrics_def split: query_result.split)
    ultimately show ?thesis
      using chain_books.books_run [OF chain_start_facts(1), where pr = pr and stm = stm and g = g and es = evs]
      by (simp add: sum_of_bool chain_run_def)
  qed
  have in_use: "counts In_use = (\<lambda>r. pool_stance (query r) = Using)" by auto
  have "count_stance (\<lambda>r. pool_stance (query r)) Using (requests ?s) \<le> 8" unfolding chain_run_def
    by (rule chain_pool.users_bounded(1) [OF chain_start_facts(1)])
      (use chain_start_facts(2) in \<open>auto simp: chain_start_def new_chain_db_def C_POOL_SIZE_def\<close>)
  moreover have "cd_in_use (database ?s) = int (count_stance (\<lambda>r. pool_stance (query r)) Using (requests ?s))"
    using books [of In_use] by (simp add: count_stance_def in_use)
  moreover have "gateway_rejected (cd_m (database ?s)) = 0" using books [of Rejected] by simp
  ultimately show ?thesis using books [of g] by (simp add: Let_def)
qed

subsection \<open>What the statement timeout does to a slow query\<close>

fun clock_readings :: "chain_event \<Rightarrow> rat list" where
  "clock_readings (Request_starts i a b) = [a, b]"
| "clock_readings (B_resumes i a b) = [a, b]"
| "clock_readings (C_resumes i a) = [a]"
| "clock_readings (Query_runs i a) = [a]"
| "clock_readings (Query_granted i a) = [a]"
| "clock_readings (Query_accounted i a) = [a]"
| "clock_readings _ = []"

text \<open>
  A clock that does not go back. A deadline is off its reading by the half second of the budget and the rounding, which
  stays below a thousandth of a second for readings up to \<open>2 ^ 40\<close>.
\<close>

definition steady_from :: "rat \<Rightarrow> chain_event list \<Rightarrow> bool" where
  "steady_from t evs = (sorted (t # concat (map clock_readings evs)) \<and> (\<forall>x\<in>set (concat (map clock_readings evs)). x \<le> 2 ^ 40))"

lemma deadline_bound:
  assumes "0 \<le> t" "t \<le> 2 ^ 40"
  shows "fl (t + GATEWAY_BUDGET) \<le> t + 513 / 1024"
proof -
  let ?k = "\<lceil>1024 * t\<rceil> + 512"
  have k: "of_int \<lceil>1024 * t\<rceil> < 1024 * t + 1" "1024 * t \<le> of_int \<lceil>1024 * t\<rceil>"
    using ceiling_correct [of "1024 * t"] by linarith+
  have "\<lceil>1024 * t\<rceil> \<le> 2 ^ 50" using assms(2) by (simp add: ceiling_le_iff)
  moreover have "0 \<le> \<lceil>1024 * t\<rceil>" using assms(1) by simp
  ultimately have "\<bar>?k\<bar> \<le> 2 ^ 53" by simp
  then have "fl (t + GATEWAY_BUDGET) \<le> of_int ?k / 2 ^ 10"
    using k(2) by (intro dbl.rnd_le is_double_dyadic) (simp_all add: GATEWAY_BUDGET_def field_simps)
  also have "\<dots> \<le> t + 513 / 1024" using k(1) by (simp add: field_simps)
  finally show ?thesis .
qed

lemma statement_time_bound:
  assumes "dl \<le> now + 513 / 1024"
  shows "max 0 (fl (fl (dl - now) - SLACK)) < C_SERVICE_SLOW"
proof -
  have "fl (dl - now) \<le> of_int 513 / 2 ^ 10" using assms by (intro dbl.rnd_le is_double_dyadic) simp_all
  moreover have "0 \<le> SLACK" by (simp add: SLACK_def fl_nonneg)
  ultimately have "fl (fl (dl - now) - SLACK) \<le> of_int 513 / 2 ^ 10" by (intro dbl.rnd_le is_double_dyadic) simp_all
  moreover have "of_int 3 / 2 ^ 2 \<le> C_SERVICE_SLOW" unfolding C_SERVICE_SLOW_def by (intro dbl.rnd_ge is_double_dyadic) simp_all
  ultimately show ?thesis by (auto simp: max_def)
qed

fun ran_through :: "query_phase \<Rightarrow> bool" where
  "ran_through (Holding st runs) = runs"
| "ran_through (Returned st res) = (res = Ran_through)"
| "ran_through (Accounted res late) = (res = Ran_through)"
| "ran_through _ = False"

definition due_by :: "rat \<Rightarrow> chain_request \<Rightarrow> bool" where
  "due_by t r = ((front r \<noteq> Not_started \<longrightarrow> rq_deadline r \<le> t + 513 / 1024) \<and> (rq_slow r \<longrightarrow> \<not> ran_through (query r)) \<and> query_follows r)"

lemma due_by_mono: "due_by t r \<Longrightarrow> t \<le> t' \<Longrightarrow> due_by t' r"
  by (auto simp: due_by_def)

lemma with_connection_due:
  assumes "due_by t r" "t \<le> now" "query r = Query_created st \<or> query r = In_pool_queue st"
  shows "due_by now (fst (with_connection True True st now r d))"
proof -
  have f: "front r \<noteq> Not_started \<and> front r \<noteq> In_service_b \<and> front r \<noteq> In_service_c \<and> front r \<noteq> Answered_ok"
    using assms(1,3) by (auto simp: due_by_def query_follows_def)
  then have dl: "rq_deadline r \<le> now + 513 / 1024" using assms(1,2) by (simp add: due_by_def)
  from statement_time_bound [OF dl] f dl show ?thesis
    by (auto simp: due_by_def query_follows_def with_connection_def Let_def ambient_def remaining_def)
qed

lemma section_due:
  assumes "chain_section True True i e r d = Some (r', d')" "due_by t r" "sorted (t # clock_readings e)" "0 \<le> t"
    "\<forall>x\<in>set (clock_readings e). x \<le> 2 ^ 40"
  shows "due_by (last (t # clock_readings e)) r'"
proof -
  have follows: "query_follows r'"
    using chain_section_keeps [OF assms(1)] assms(2) by (simp add: due_by_def chain_section_ok_def)
  show ?thesis
  proof (cases e)
    case (Request_starts j a b)
    then have "r' = r\<lparr>rq_deadline := fl (a + GATEWAY_BUDGET), front := front r'\<rparr>"
      using assms(1) by (auto simp: chain_section_def gateway_starts_def time_out_def Let_def split: if_splits)
    then obtain x where r': "r' = r\<lparr>rq_deadline := fl (a + GATEWAY_BUDGET), front := x\<rparr>" by blast
    from deadline_bound [of a] Request_starts assms(3-5) have "fl (a + GATEWAY_BUDGET) \<le> b + 513 / 1024" by simp
    with follows r' assms(2) Request_starts show ?thesis by (simp add: due_by_def)
  next
    case (B_resumes j a b)
    with assms follows show ?thesis
      by (auto simp: chain_section_def service_b_calls_def time_out_def Let_def due_by_def split: if_splits)
  next
    case (C_resumes j a)
    with assms follows show ?thesis
      by (auto simp: chain_section_def service_c_queries_def due_by_def split: if_splits)
  next
    case (Query_runs j a)
    with assms follows show ?thesis
      using with_connection_due [of t r a]
      by (auto simp: chain_section_def query_starts_def due_by_def split: if_splits query_phase.splits; metis fst_conv)
  next
    case (Query_granted j a)
    with assms follows show ?thesis
      using with_connection_due [of t r a]
      by (auto simp: chain_section_def split: if_splits query_phase.splits; metis fst_conv)
  next
    case (Query_ends j)
    with assms follows show ?thesis
      by (auto simp: chain_section_def query_ends_def due_by_def split: if_splits query_phase.splits)
  next
    case (Query_accounted j a)
    with assms follows show ?thesis
      by (auto simp: chain_section_def account_def Let_def due_by_def split: if_splits query_phase.splits)
  next
    case (Front_resumes j)
    with assms follows show ?thesis
      by (auto simp: chain_section_def gateway_answers_def due_by_def split: if_splits query_phase.splits)
  next
    case (Timer_fires j)
    with assms follows show ?thesis
      by (auto simp: chain_section_def time_out_def due_by_def split: if_splits)
  qed (use assms in \<open>simp add: chain_section_def\<close>)
qed

lemma steady_fold:
  "steady_from t evs \<Longrightarrow> 0 \<le> t \<Longrightarrow> list_all (due_by t) (requests s) \<Longrightarrow>
   \<exists>t'. list_all (due_by t') (requests (fold (chain_step True True) evs s))"
proof (induction evs arbitrary: t s)
  case (Cons e evs)
  let ?u = "last (t # clock_readings e)"
  have srt: "sorted ((t # clock_readings e) @ concat (map clock_readings evs))" and range: "\<forall>x\<in>set (clock_readings e). x \<le> 2 ^ 40"
    using Cons.prems(1) by (auto simp: steady_from_def)
  then have sorted: "sorted (t # clock_readings e)" by (simp only: sorted_append)
  have u: "?u \<in> set (t # clock_readings e)" by (rule last_in_set) simp
  then have "t \<le> ?u" using sorted by auto
  have "sorted (?u # concat (map clock_readings evs))"
    using srt u unfolding sorted_append sorted_simps by blast
  then have "steady_from ?u evs" using Cons.prems(1) by (simp add: steady_from_def del: sorted_simps)
  moreover have "list_all (due_by ?u) (requests (chain_step True True e s))"
  proof (cases rule: chain_step_cases [of True True e s])
    case (moves i r d)
    have "due_by t (requests s ! i)" using Cons.prems(3) moves(1) by (simp add: list_all_length)
    then have "due_by ?u r" by (rule section_due [OF moves(3) _ sorted Cons.prems(2) range])
    with moves Cons.prems(3) due_by_mono [OF _ \<open>t \<le> ?u\<close>] show ?thesis
      by (auto simp: list_all_iff dest!: set_update_subset_insert [THEN subsetD])
  qed (use Cons.prems(3) due_by_mono [OF _ \<open>t \<le> ?u\<close>] in \<open>auto simp: list_all_iff\<close>)
  moreover have "0 \<le> ?u" using \<open>t \<le> ?u\<close> Cons.prems(2) by (rule order_trans [rotated])
  ultimately show ?case using Cons.IH by simp
qed auto

text \<open>
  C11. With the deadline propagated and the statement timeout on, on a clock that does not go back, no slow query ever
  runs through: the timeout kills it or its connection is given back. So every slow request the gateway counts as a
  success was answered for a query that produced nothing.
\<close>

theorem slow_queries_are_killed:
  assumes "steady_from 0 evs"
  shows "\<forall>r\<in>set (requests (chain_run True True evs slow)). rq_slow r \<longrightarrow>
    \<not> ran_through (query r) \<and>
    (front r = Answered_ok \<longrightarrow> (\<exists>late. query r = Accounted Killed late \<or> query r = Accounted Abandoned late))"
proof -
  have "list_all (due_by 0) (requests (chain_start slow))"
    by (auto simp: chain_start_def list_all_iff due_by_def query_follows_def)
  then obtain t where due: "list_all (due_by t) (requests (chain_run True True evs slow))"
    unfolding chain_run_def using steady_fold [OF assms] by blast
  show ?thesis
  proof (intro ballI impI)
    fix r
    assume "r \<in> set (requests (chain_run True True evs slow))" "rq_slow r"
    with due have r: "\<not> ran_through (query r)" "query_follows r" by (auto simp: list_all_iff due_by_def)
    moreover have "\<exists>late. query r = Accounted Killed late \<or> query r = Accounted Abandoned late" if ok: "front r = Answered_ok"
    proof -
      obtain res late where q: "query r = Accounted res late" using r(2) ok by (auto simp: query_follows_def)
      with r(1) show ?thesis by (cases res) auto
    qed
    ultimately show "\<not> ran_through (query r) \<and>
      (front r = Answered_ok \<longrightarrow> (\<exists>late. query r = Accounted Killed late \<or> query r = Accounted Abandoned late))" by blast
  qed
qed

text \<open>A slow query killed by its timeout, whose caller resumes before the timer of \<^verbatim>\<open>service_b\<close> is served.\<close>

definition killed_in_time :: "chain_event list" where
  "killed_in_time = [Request_starts 0 0 0, B_resumes 0 0 0, C_resumes 0 0, Query_runs 0 0, Query_ends 0,
     Query_accounted 0 (31 / 64), Front_resumes 0]"

lemma half_second:
  "fl (1 / 2) = 1 / 2" "fl (- (1 / 2)) = - (1 / 2)" "\<not> 1 < SLACK * 2" "- (1 / 2) < SLACK" "0 < fl (1 / 2 - SLACK)"
  "\<not> fl (1 / 2 - SLACK) \<le> 0" "\<not> C_SERVICE_SLOW \<le> fl (1 / 2 - SLACK)" "\<not> C_SERVICE_SLOW \<le> 0"
proof -
  show half: "fl (1 / 2) = 1 / 2" using fl_double [OF is_double_dyadic [of 1 1]] by simp
  then show "fl (- (1 / 2)) = - (1 / 2)" by (simp only: fl_uminus)
  have "SLACK \<le> of_int 1 / 2 ^ 2" unfolding SLACK_def by (intro dbl.rnd_le is_double_dyadic) simp_all
  then have slack: "SLACK \<le> 1 / 4" by simp
  then show "\<not> 1 < SLACK * 2" by simp
  have "0 \<le> SLACK" by (simp add: SLACK_def fl_nonneg)
  then show "- (1 / 2) < SLACK" by simp
  have "of_int 1 / 2 ^ 2 \<le> fl (1 / 2 - SLACK)" using slack by (intro dbl.rnd_ge is_double_dyadic) simp_all
  then show "0 < fl (1 / 2 - SLACK)" "\<not> fl (1 / 2 - SLACK) \<le> 0" by simp_all
  show "\<not> C_SERVICE_SLOW \<le> fl (1 / 2 - SLACK)" "\<not> C_SERVICE_SLOW \<le> 0"
    using statement_time_bound [of "1 / 2" 0] half by simp_all
qed

lemmas chain_run_eval = chain_run_def chain_start_def chain_step_def chain_section_def new_chain_db_def new_chain_metrics_def
  new_semaphore_def locked_def gateway_starts_def service_b_calls_def service_c_queries_def query_starts_def with_connection_def
  query_ends_def account_def gateway_answers_def time_out_def too_late_def remaining_def ambient_def GATEWAY_BUDGET_def
  on_cm_def on_pool_sem_def on_in_use_def C_POOL_SIZE_def take_permit_def give_back_def wake_next_def

lemma killed_in_time_run:
  "let m = cd_m (database (chain_run True True killed_in_time [True])) in
   gateway_ok m = 1 \<and> c_started m = 1 \<and> c_completed m = 1 \<and> c_killed m = 1 \<and> c_zombie m = 0"
  by (simp add: chain_run_eval killed_in_time_def Let_def half_second le_max_iff_disj)

lemma slow_queries_are_killed_witness:
  "gateway_ok (cd_m (database (chain_run True True killed_in_time [True]))) = 1 \<and>
   list_all (\<lambda>r. \<not> (rq_slow r \<and> ran_through (query r))) (requests (chain_run True True killed_in_time [True]))"
  using slow_queries_are_killed [of killed_in_time "[True]"] killed_in_time_run
  by (auto simp: steady_from_def killed_in_time_def Let_def list_all_iff)

text \<open>
  A query that gives its connection straight back, because its caller is gone, is a zombie all the same: it has held no
  connection for any time.
\<close>

lemma abandoned_zombie:
  "let m = cd_m (database (chain_run True False [Request_starts 0 0 0, B_resumes 0 0 0, C_resumes 0 0,
     Timer_fires 0, Query_runs 0 1, Query_accounted 0 1] [False])) in
   gateway_timeout m = 1 \<and> c_abandoned m = 1 \<and> c_zombie m = 1 \<and> c_completed m = 1"
  by (simp add: chain_run_eval Let_def half_second)

end
