(* ===== verification/Sim_Metastable.thy ===== *)
theory Sim_Metastable
  imports Sim_Tasks Token_Bucket PyText
begin

text \<open>
  \<^verbatim>\<open>05-failure/04-.../metastable.py\<close>: retrying clients, a cache and a database pool, in one process that an operator may
  give a retry budget, a shed limit or a restart. A restart replaces server and pool while cache and metrics stay, so the
  servers are a list of generations and every client belongs to the one that was current when it was created. Clock readings
  come with the events; keys, arrivals, evictions and the order in which tasks run are the environment's choice.
\<close>

subsection \<open>Cache, pool, budget, metrics\<close>

definition OFFERED_RPS :: rat where "OFFERED_RPS = 180"
definition KEYS :: int where "KEYS = 400"
definition EVICT_PER_SEC :: rat where "EVICT_PER_SEC = 18"
definition POOL_SIZE :: nat where "POOL_SIZE = 6"
definition CLIENT_TIMEOUT :: rat where "CLIENT_TIMEOUT = 1 / 2"
definition ATTEMPTS :: nat where "ATTEMPTS = 3"
definition ESCAPE_AT :: rat where "ESCAPE_AT = 16"
definition SHED_LIMIT :: int where "SHED_LIMIT = 8"
definition BUDGET_RATIO :: rat where "BUDGET_RATIO = fl (1 / 10)"
definition RAMP_BACK_SECONDS :: rat where "RAMP_BACK_SECONDS = 8"
definition DROP_SECONDS :: rat where "DROP_SECONDS = 5"

record key_cache =
  present :: "int set"
  hits :: int
  misses :: int

definition new_cache :: key_cache where
  "new_cache = \<lparr>present = {0..<KEYS}, hits = 0, misses = 0\<rparr>"

definition cache_get :: "int \<Rightarrow> key_cache \<Rightarrow> bool \<times> key_cache" where
  "cache_get k c = (if k \<in> present c then (True, c\<lparr>hits := hits c + 1\<rparr>) else (False, c\<lparr>misses := misses c + 1\<rparr>))"

definition cache_put :: "int \<Rightarrow> key_cache \<Rightarrow> key_cache" where
  "cache_put k c = c\<lparr>present := insert k (present c)\<rparr>"

definition flushall :: "key_cache \<Rightarrow> key_cache" where
  "flushall c = c\<lparr>present := {}\<rparr>"

text \<open>\<^verbatim>\<open>rng.choice\<close> picks a present key as often as there is one; \<open>ks\<close> are its choices, and an impossible choice changes nothing.\<close>

fun evict :: "nat \<Rightarrow> int list \<Rightarrow> key_cache \<Rightarrow> key_cache" where
  "evict (Suc n) (k # ks) c =
     (if k \<in> present c then evict n ks (c\<lparr>present := present c - {k}\<rparr>) else evict (Suc n) ks c)"
| "evict n ks c = c"

record meta_budget =
  mb_tokens :: rat

definition new_meta_budget :: meta_budget where
  "new_meta_budget = \<lparr>mb_tokens = 3\<rparr>"

definition mb_deposit :: "meta_budget \<Rightarrow> meta_budget" where
  "mb_deposit b = b\<lparr>mb_tokens := min (fl (mb_tokens b + BUDGET_RATIO)) 103\<rparr>"

definition mb_withdraw :: "meta_budget \<Rightarrow> bool \<times> meta_budget" where
  "mb_withdraw b = (if 1 \<le> mb_tokens b then (True, b\<lparr>mb_tokens := fl (mb_tokens b - 1)\<rparr>) else (False, b))"

interpretation meta_tb: token_bucket mb_tokens "\<lambda>_. BUDGET_RATIO" "\<lambda>_. 103" "\<lambda>_. True" mb_deposit mb_withdraw
  by unfold_locales (auto simp: mb_deposit_def mb_withdraw_def min.commute)

record meta_metrics =
  goodput :: int
  thruput_attempts :: int
  retries :: int
  failed :: int
  shed :: int

text \<open>A process: the pool of \<^verbatim>\<open>Database\<close>, the gauge of \<^verbatim>\<open>Server\<close>, and the two escapes that an operator may switch on.\<close>

record meta_server =
  db_sem :: semaphore
  db_in_use :: int
  inflight :: int
  budget :: "meta_budget option"
  shed_limit :: "int option"

definition new_meta_server :: meta_server where
  "new_meta_server = \<lparr>db_sem = new_semaphore POOL_SIZE, db_in_use = 0, inflight = 0, budget = None, shed_limit = None\<rparr>"

subsection \<open>A client and its attempts\<close>

text \<open>\<open>Attempting k\<close> is before attempt \<open>k\<close>; the other running phases are inside \<^verbatim>\<open>Server.handle\<close>, with the deadline given to it.\<close>

datatype client_phase =
    Unborn
  | Attempting nat
  | In_cache nat rat
  | In_pool_queue nat rat
  | Querying nat rat
  | Answered
  | Gave_up
  | Cancelled

record meta_client =
  key :: int
  gen :: nat
  phase :: client_phase

text \<open>What a section works on: the client, its server, and what all share.\<close>

record meta_shared =
  cache :: key_cache
  metrics :: meta_metrics

type_synonym meta_part = "meta_client \<times> meta_server \<times> meta_shared"

definition on_m :: "(meta_metrics \<Rightarrow> meta_metrics) \<Rightarrow> meta_shared \<Rightarrow> meta_shared" where
  "on_m f x = x\<lparr>metrics := f (metrics x)\<rparr>"

definition enter :: "client_phase \<Rightarrow> meta_client \<Rightarrow> meta_client" where
  "enter p c = c\<lparr>phase := p\<rparr>"

definition on_inflight :: "int \<Rightarrow> meta_server \<Rightarrow> meta_server" where
  "on_inflight x v = v\<lparr>inflight := inflight v + x\<rparr>"

definition on_db :: "(semaphore \<Rightarrow> semaphore) \<Rightarrow> int \<Rightarrow> meta_server \<Rightarrow> meta_server" where
  "on_db f x v = v\<lparr>db_sem := f (db_sem v), db_in_use := db_in_use v + x\<rparr>"

text \<open>The end of an unsuccessful attempt: the next one, or the end of the loop.\<close>

definition attempt_failed :: "nat \<Rightarrow> meta_part \<Rightarrow> meta_part" where
  "attempt_failed k = (\<lambda>(c, v, x).
     if k + 1 < ATTEMPTS then (enter (Attempting (k + 1)) c, v, x)
     else (enter Gave_up c, v, on_m (\<lambda>m. m\<lparr>failed := failed m + 1\<rparr>) x))"

definition attempt_counted :: "meta_shared \<Rightarrow> meta_shared" where
  "attempt_counted = on_m (\<lambda>m. m\<lparr>thruput_attempts := thruput_attempts m + 1\<rparr>)"

text \<open>\<^verbatim>\<open>handle\<close> returned \<open>ok\<close>; its \<^verbatim>\<open>finally\<close> has run.\<close>

definition handle_returns :: "nat \<Rightarrow> bool \<Rightarrow> meta_part \<Rightarrow> meta_part" where
  "handle_returns k ok = (\<lambda>(c, v, x).
     if ok then (enter Answered c, v\<lparr>budget := map_option mb_deposit (budget v)\<rparr>,
       on_m (\<lambda>m. m\<lparr>goodput := goodput m + 1\<rparr>) (attempt_counted x))
     else attempt_failed k (c, v, attempt_counted x))"

text \<open>\<^verbatim>\<open>handle\<close> up to its first suspension; \<open>i\<close> is the task in the queue of the pool.\<close>

definition handle_starts :: "nat \<Rightarrow> nat \<Rightarrow> rat \<Rightarrow> meta_part \<Rightarrow> meta_part" where
  "handle_starts i k deadline = (\<lambda>(c, v, x).
     if (case shed_limit v of None \<Rightarrow> False | Some l \<Rightarrow> l \<le> inflight v)
     then handle_returns k False (c, v, on_m (\<lambda>m. m\<lparr>shed := shed m + 1\<rparr>) x)
     else
       let v = on_inflight 1 v; (hit, cache') = cache_get (key c) (cache x); x = x\<lparr>cache := cache'\<rparr> in
       if hit then (enter (In_cache k deadline) c, v, x)
       else if locked (db_sem v) then (enter (In_pool_queue k deadline) c, on_db (enqueue i) 0 v, x)
       else (enter (Querying k deadline) c, on_db take_permit 1 v, x))"

text \<open>One turn of the client's loop, up to the first suspension of \<^verbatim>\<open>handle\<close>: a retry needs a token if there is a budget.\<close>

definition attempt_starts :: "nat \<Rightarrow> nat \<Rightarrow> rat \<Rightarrow> meta_part \<Rightarrow> meta_part" where
  "attempt_starts i k now = (\<lambda>(c, v, x).
     if k = 0 then handle_starts i k (fl (now + CLIENT_TIMEOUT)) (c, v, x)
     else case budget v of
       None \<Rightarrow> handle_starts i k (fl (now + CLIENT_TIMEOUT)) (c, v, on_m (\<lambda>m. m\<lparr>retries := retries m + 1\<rparr>) x)
     | Some b \<Rightarrow> (let (ok, b') = mb_withdraw b; v = v\<lparr>budget := Some b'\<rparr> in
         if ok then handle_starts i k (fl (now + CLIENT_TIMEOUT)) (c, v, on_m (\<lambda>m. m\<lparr>retries := retries m + 1\<rparr>) x)
         else (enter Gave_up c, v, on_m (\<lambda>m. m\<lparr>failed := failed m + 1\<rparr>) x)))"

definition cache_answers :: "nat \<Rightarrow> rat \<Rightarrow> rat \<Rightarrow> meta_part \<Rightarrow> meta_part" where
  "cache_answers k deadline now = (\<lambda>(c, v, x). handle_returns k (now \<le> deadline) (c, on_inflight (- 1) v, x))"

definition query_granted :: "nat \<Rightarrow> nat \<Rightarrow> rat \<Rightarrow> meta_part \<Rightarrow> meta_part" where
  "query_granted i k deadline = (\<lambda>(c, v, x). (enter (Querying k deadline) c, on_db (resume i) 1 v, x))"

definition query_returns :: "nat \<Rightarrow> rat \<Rightarrow> rat \<Rightarrow> meta_part \<Rightarrow> meta_part" where
  "query_returns k deadline now = (\<lambda>(c, v, x).
     handle_returns k (now \<le> deadline)
       (c, on_inflight (- 1) (on_db give_back (- 1) v),
        if now \<le> deadline then x\<lparr>cache := cache_put (key c) (cache x)\<rparr> else x))"

text \<open>A cancellation unwinds \<^verbatim>\<open>handle\<close> at its suspension: the pool and the gauge are given back.\<close>

definition unwind :: "nat \<Rightarrow> meta_client \<Rightarrow> meta_server \<Rightarrow> meta_server" where
  "unwind i c v = (case phase c of
     In_cache k d \<Rightarrow> on_inflight (- 1) v
   | In_pool_queue k d \<Rightarrow> on_inflight (- 1) (on_db (cancel_wait i) 0 v)
   | Querying k d \<Rightarrow> on_inflight (- 1) (on_db give_back (- 1) v)
   | _ \<Rightarrow> v)"

definition times_out :: "nat \<Rightarrow> nat \<Rightarrow> meta_part \<Rightarrow> meta_part" where
  "times_out i k = (\<lambda>(c, v, x). attempt_failed k (c, unwind i c v, attempt_counted x))"

definition is_cancelled :: "nat \<Rightarrow> meta_part \<Rightarrow> meta_part" where
  "is_cancelled i = (\<lambda>(c, v, x). (enter Cancelled c, unwind i c v, x))"

subsection \<open>The process and its operator\<close>

datatype meta_event =
    Arrives nat
  | Attempt_starts nat rat
  | Cache_answers nat rat
  | Query_granted nat
  | Query_returns nat rat
  | Times_out nat
  | Is_cancelled nat
  | Flush
  | Evicts "int list"
  | Add_budget
  | Add_shed_limit
  | Restart
  | Clear_hit_counts

fun client_of :: "meta_event \<Rightarrow> nat option" where
  "client_of (Arrives i) = Some i" | "client_of (Attempt_starts i t) = Some i" | "client_of (Cache_answers i t) = Some i"
| "client_of (Query_granted i) = Some i" | "client_of (Query_returns i t) = Some i" | "client_of (Times_out i) = Some i"
| "client_of (Is_cancelled i) = Some i" | "client_of _ = None"

definition handling :: "client_phase \<Rightarrow> (nat \<times> rat) option" where
  "handling p = (case p of In_cache k d \<Rightarrow> Some (k, d) | In_pool_queue k d \<Rightarrow> Some (k, d) | Querying k d \<Rightarrow> Some (k, d) | _ \<Rightarrow> None)"

definition meta_section :: "nat \<Rightarrow> nat \<Rightarrow> meta_event \<Rightarrow> meta_part \<Rightarrow> meta_part option" where
  "meta_section current i e = (\<lambda>(c, v, x). (case e of
     Arrives _ \<Rightarrow> if phase c = Unborn then Some (c\<lparr>gen := current, phase := Attempting 0\<rparr>, v, x) else None
   | Attempt_starts _ now \<Rightarrow> (case phase c of Attempting k \<Rightarrow> Some (attempt_starts i k now (c, v, x)) | _ \<Rightarrow> None)
   | Cache_answers _ now \<Rightarrow> (case phase c of In_cache k d \<Rightarrow> Some (cache_answers k d now (c, v, x)) | _ \<Rightarrow> None)
   | Query_granted _ \<Rightarrow> (case phase c of
         In_pool_queue k d \<Rightarrow> if woken i (db_sem v) then Some (query_granted i k d (c, v, x)) else None | _ \<Rightarrow> None)
   | Query_returns _ now \<Rightarrow> (case phase c of Querying k d \<Rightarrow> Some (query_returns k d now (c, v, x)) | _ \<Rightarrow> None)
   | Times_out _ \<Rightarrow> (case handling (phase c) of Some (k, d) \<Rightarrow> Some (times_out i k (c, v, x)) | None \<Rightarrow> None)
   | Is_cancelled _ \<Rightarrow> if phase c \<in> {Unborn, Answered, Gave_up, Cancelled} then None else Some (is_cancelled i (c, v, x))
   | _ \<Rightarrow> None))"

record meta_sys =
  servers :: "meta_server list"
  shared :: meta_shared
  clients :: "meta_client list"

definition on_current :: "(meta_server \<Rightarrow> meta_server) \<Rightarrow> meta_sys \<Rightarrow> meta_sys" where
  "on_current f s = s\<lparr>servers := (servers s)[length (servers s) - 1 := f (servers s ! (length (servers s) - 1))]\<rparr>"

definition on_cache :: "(key_cache \<Rightarrow> key_cache) \<Rightarrow> meta_sys \<Rightarrow> meta_sys" where
  "on_cache f s = s\<lparr>shared := (shared s)\<lparr>cache := f (cache (shared s))\<rparr>\<rparr>"

definition operate :: "meta_event \<Rightarrow> meta_sys \<Rightarrow> meta_sys" where
  "operate e s = (case e of
     Flush \<Rightarrow> on_cache flushall s
   | Evicts ks \<Rightarrow> on_cache (evict (nat (py_trunc EVICT_PER_SEC)) ks) s
   | Add_budget \<Rightarrow> on_current (\<lambda>v. v\<lparr>budget := Some new_meta_budget\<rparr>) s
   | Add_shed_limit \<Rightarrow> on_current (\<lambda>v. v\<lparr>shed_limit := Some SHED_LIMIT\<rparr>) s
   | Restart \<Rightarrow> s\<lparr>servers := servers s @ [new_meta_server]\<rparr>
   | Clear_hit_counts \<Rightarrow> on_cache (\<lambda>c. c\<lparr>hits := 0, misses := 0\<rparr>) s
   | _ \<Rightarrow> s)"

definition meta_step :: "meta_event \<Rightarrow> meta_sys \<Rightarrow> meta_sys" where
  "meta_step e s = (case client_of e of
     None \<Rightarrow> operate e s
   | Some i \<Rightarrow> if length (clients s) \<le> i then s else
       (case meta_section (length (servers s) - 1) i e (clients s ! i, servers s ! gen (clients s ! i), shared s) of
          None \<Rightarrow> s
        | Some (c, v, x) \<Rightarrow> \<lparr>servers = (servers s)[gen (clients s ! i) := v], shared = x, clients = (clients s)[i := c]\<rparr>))"

definition meta_start :: "int list \<Rightarrow> meta_sys" where
  "meta_start ks = \<lparr>servers = [new_meta_server],
     shared = \<lparr>cache = new_cache, metrics = \<lparr>goodput = 0, thruput_attempts = 0, retries = 0, failed = 0, shed = 0\<rparr>\<rparr>,
     clients = map (\<lambda>k. \<lparr>key = k, gen = 0, phase = Unborn\<rparr>) ks\<rparr>"

definition meta_run :: "meta_event list \<Rightarrow> int list \<Rightarrow> meta_sys" where
  "meta_run evs ks = fold meta_step evs (meta_start ks)"

subsection \<open>Pool and books\<close>

fun db_stance :: "client_phase \<Rightarrow> stance" where
  "db_stance (In_pool_queue k d) = In_queue"
| "db_stance (Querying k d) = Using"
| "db_stance _ = Outside"

datatype gauge = Good | Failures | Inflight nat | In_use nat

definition server_at :: "meta_sys \<Rightarrow> nat \<Rightarrow> meta_server" where
  "server_at s g = (if g < length (servers s) then servers s ! g else new_meta_server)"

fun gauge_of :: "meta_sys \<Rightarrow> gauge \<Rightarrow> int" where
  "gauge_of s Good = goodput (metrics (shared s))"
| "gauge_of s Failures = failed (metrics (shared s))"
| "gauge_of s (Inflight g) = inflight (server_at s g)"
| "gauge_of s (In_use g) = db_in_use (server_at s g)"

fun counts :: "gauge \<Rightarrow> meta_client \<Rightarrow> bool" where
  "counts Good c = (phase c = Answered)"
| "counts Failures c = (phase c = Gave_up)"
| "counts (Inflight g) c = (gen c = g \<and> handling (phase c) \<noteq> None)"
| "counts (In_use g) c = (gen c = g \<and> db_stance (phase c) = Using)"

definition born_right :: "meta_sys \<Rightarrow> bool" where
  "born_right s \<longleftrightarrow> servers s \<noteq> [] \<and> list_all (\<lambda>c. gen c < length (servers s)) (clients s)"

text \<open>What a section does to its client, its server and the shared part.\<close>

definition part_ok :: "nat \<Rightarrow> meta_part \<Rightarrow> meta_part \<Rightarrow> bool" where
  "part_ok i = (\<lambda>(c, v, x) (c', v', x').
     (gen c' = gen c \<or> handling (phase c) = None \<and> handling (phase c') = None) \<and>
     task_move i (db_sem v) (db_stance (phase c)) (db_stance (phase c')) (db_sem v') \<and>
     db_in_use v' = db_in_use v + of_bool (db_stance (phase c') = Using) - of_bool (db_stance (phase c) = Using) \<and>
     inflight v' = inflight v + of_bool (handling (phase c') \<noteq> None) - of_bool (handling (phase c) \<noteq> None) \<and>
     goodput (metrics x') = goodput (metrics x) + of_bool (phase c' = Answered) - of_bool (phase c = Answered) \<and>
     failed (metrics x') = failed (metrics x) + of_bool (phase c' = Gave_up) - of_bool (phase c = Gave_up))"

lemma meta_simps [simp]:
  "metrics (on_m f x) = f (metrics x)" "cache (on_m f x) = cache x" "gen (enter p c) = gen c" "phase (enter p c) = p" "key (enter p c) = key c"
  "inflight (on_inflight n v) = inflight v + n" "db_sem (on_inflight n v) = db_sem v" "db_in_use (on_inflight n v) = db_in_use v"
  "budget (on_inflight n v) = budget v" "shed_limit (on_inflight n v) = shed_limit v"
  "inflight (on_db h n v) = inflight v" "db_sem (on_db h n v) = h (db_sem v)" "db_in_use (on_db h n v) = db_in_use v + n"
  "budget (on_db h n v) = budget v"
  "metrics (attempt_counted x) = (metrics x)\<lparr>thruput_attempts := thruput_attempts (metrics x) + 1\<rparr>" "cache (attempt_counted x) = cache x"
  by (simp_all add: on_m_def enter_def on_inflight_def on_db_def attempt_counted_def)

lemmas part_defs = part_ok_def handling_def handle_returns_def attempt_failed_def handle_starts_def attempt_starts_def
  cache_answers_def query_granted_def query_returns_def times_out_def is_cancelled_def unwind_def cache_get_def

lemma handle_starts_ok:
  "phase c = Attempting k \<Longrightarrow> part_ok i (c, v, x) (handle_starts i k d (c, v, x))"
  by (auto simp: part_defs Let_def split: option.split)

lemma part_ok_frame:
  "part_ok i (c, v\<lparr>budget := b\<rparr>, x) res = part_ok i (c, v, x) res"
  "part_ok i (c, v, on_m (\<lambda>m. m\<lparr>retries := n m\<rparr>) x) res = part_ok i (c, v, x) res"
  by (simp_all add: part_ok_def)

lemma attempt_starts_ok:
  assumes "phase c = Attempting k"
  shows "part_ok i (c, v, x) (attempt_starts i k t (c, v, x))"
proof -
  note start = handle_starts_ok [OF assms, of i]
  have stop: "part_ok i (c, w, x) (enter Gave_up c, w, on_m (\<lambda>m. m\<lparr>failed := failed m + 1\<rparr>) x)" for w
    using assms by (simp add: part_ok_def handling_def)
  have "part_ok i (c, v\<lparr>budget := b\<rparr>, x) (handle_starts i k d (c, v\<lparr>budget := b\<rparr>, on_m (\<lambda>m. m\<lparr>retries := retries m + 1\<rparr>) x))" for b d
    using start [of "v\<lparr>budget := b\<rparr>" "on_m (\<lambda>m. m\<lparr>retries := retries m + 1\<rparr>) x" d] by (simp only: part_ok_frame)
  moreover have "part_ok i (c, v, x) (handle_starts i k d (c, v, on_m (\<lambda>m. m\<lparr>retries := retries m + 1\<rparr>) x))" for d
    using start [of v "on_m (\<lambda>m. m\<lparr>retries := retries m + 1\<rparr>) x" d] by (simp only: part_ok_frame)
  ultimately show ?thesis using start [of v x] stop [of "v\<lparr>budget := b\<rparr>" for b] unfolding part_ok_frame
    by (auto simp: attempt_starts_def Let_def case_prod_beta split: option.split)
qed

lemma ends_ok:
  "phase c = In_cache k d \<Longrightarrow> part_ok i (c, v, x) (cache_answers k d t (c, v, x))"
  "phase c = Querying k d \<Longrightarrow> part_ok i (c, v, x) (query_returns k d t (c, v, x))"
  "phase c = In_pool_queue k d \<Longrightarrow> woken i (db_sem v) \<Longrightarrow> part_ok i (c, v, x) (query_granted i k d (c, v, x))"
  "handling (phase c) = Some (k, d) \<Longrightarrow> part_ok i (c, v, x) (times_out i k (c, v, x))"
  "phase c \<notin> {Unborn, Answered, Gave_up, Cancelled} \<Longrightarrow> part_ok i (c, v, x) (is_cancelled i (c, v, x))"
  by (auto simp: part_defs Let_def split: client_phase.split)

lemma arrives_ok: "phase c = Unborn \<Longrightarrow> part_ok i (c, v, x) (c\<lparr>gen := g, phase := Attempting 0\<rparr>, v, x)"
  by (simp add: part_ok_def handling_def)

lemma meta_section_ok:
  assumes "meta_section cur i e (c, v, x) = Some res"
  shows "part_ok i (c, v, x) res"
proof (cases e)
  case (Is_cancelled j)
  with assms ends_ok(5) [of c i v x] show ?thesis by (simp add: meta_section_def split: if_split_asm)
qed (use assms in \<open>auto simp: meta_section_def split: if_split_asm client_phase.split_asm option.split_asm
    intro: arrives_ok attempt_starts_ok ends_ok(1-4)\<close>)

definition stance_in :: "nat \<Rightarrow> meta_client \<Rightarrow> stance" where
  "stance_in g c = (if gen c = g then db_stance (phase c) else Outside)"

lemma handling_stance: "handling p = None \<Longrightarrow> db_stance p = Outside"
  by (cases p) (simp_all add: handling_def)

lemma meta_step_cases:
  obtains (operator) "client_of e = None" "meta_step e s = operate e s"
  | (stays) "meta_step e s = s"
  | (moves) i c v x where "client_of e = Some i" "i < length (clients s)"
      "meta_section (length (servers s) - 1) i e (clients s ! i, servers s ! gen (clients s ! i), shared s) = Some (c, v, x)"
      "meta_step e s = \<lparr>servers = (servers s)[gen (clients s ! i) := v], shared = x, clients = (clients s)[i := c]\<rparr>"
proof (cases "client_of e")
  case None
  then show thesis by (intro operator) (simp_all add: meta_step_def)
next
  case (Some i)
  show thesis
  proof (cases "i < length (clients s) \<and>
      meta_section (length (servers s) - 1) i e (clients s ! i, servers s ! gen (clients s ! i), shared s) \<noteq> None")
    case True
    then obtain c v x where "meta_section (length (servers s) - 1) i e (clients s ! i, servers s ! gen (clients s ! i), shared s) = Some (c, v, x)"
      by (metis option.exhaust prod_cases3)
    with Some True show thesis by (intro moves) (auto simp: meta_step_def)
  next
    case False
    with Some show thesis by (intro stays) (auto simp: meta_step_def not_le split: option.split)
  qed
qed

lemma server_at_put: "g < length (servers s) \<Longrightarrow> server_at (s\<lparr>servers := (servers s)[g := v]\<rparr>) h = (if h = g then v else server_at s h)"
  by (simp add: server_at_def)

lemma server_at_cong: "servers s = servers t \<Longrightarrow> server_at s g = server_at t g"
  by (simp add: server_at_def)

lemma operate_frame:
  assumes "born_right s" "client_of e = None"
  shows "clients (operate e s) = clients s" "born_right (operate e s)" "gauge_of (operate e s) g = gauge_of s g"
    "db_sem (server_at (operate e s) h) = db_sem (server_at s h)"
proof -
  let ?l = "length (servers s) - 1"
  from assms(1) have l: "?l < length (servers s)" by (simp add: born_right_def)
  have new: "server_at (s\<lparr>servers := servers s @ [new_meta_server]\<rparr>) g = server_at s g" for g
    by (auto simp: server_at_def nth_append)
  have cur: "server_at (on_current f s) g = (if g = ?l then f (server_at s g) else server_at s g)" for f g
    using l by (simp add: on_current_def server_at_put) (simp add: server_at_def)
  have rest: "server_at (on_cache f s) g = server_at s g" for f g by (simp add: server_at_def on_cache_def)
  note facts = operate_def born_right_def new cur rest
  show "clients (operate e s) = clients s" using assms(2) by (cases e) (simp_all add: operate_def on_cache_def on_current_def)
  show "born_right (operate e s)" using assms
    by (cases e) (auto simp: operate_def born_right_def on_cache_def on_current_def list_all_iff intro: less_SucI)
  have m: "metrics (shared (operate e s)) = metrics (shared s)" using assms(2) by (cases e) (simp_all add: operate_def on_cache_def on_current_def)
  have v: "inflight (server_at (operate e s) h) = inflight (server_at s h)" "db_in_use (server_at (operate e s) h) = db_in_use (server_at s h)"
    "db_sem (server_at (operate e s) h) = db_sem (server_at s h)" for h
    using assms(2) by (cases e; simp add: operate_def new cur rest)+
  show "gauge_of (operate e s) g = gauge_of s g" by (cases g) (simp_all add: m v)
  show "db_sem (server_at (operate e s) h) = db_sem (server_at s h)" by (rule v(3))
qed

lemma gen_frame:
  "gen (fst (attempt_failed k p)) = gen (fst p)" "gen (fst (handle_returns k ok p)) = gen (fst p)"
  "gen (fst (handle_starts i k d p)) = gen (fst p)" "gen (fst (attempt_starts i k t p)) = gen (fst p)"
  "gen (fst (cache_answers k d t p)) = gen (fst p)" "gen (fst (query_granted i k d p)) = gen (fst p)"
  "gen (fst (query_returns k d t p)) = gen (fst p)" "gen (fst (times_out i k p)) = gen (fst p)" "gen (fst (is_cancelled i p)) = gen (fst p)"
proof -
  show a: "gen (fst (attempt_failed k p)) = gen (fst p)" for k p by (simp add: attempt_failed_def case_prod_beta)
  show b: "gen (fst (handle_returns k ok p)) = gen (fst p)" for k ok p by (simp add: handle_returns_def case_prod_beta a)
  show c: "gen (fst (handle_starts i k d p)) = gen (fst p)" for i k d p by (simp add: handle_starts_def case_prod_beta Let_def b)
  show "gen (fst (attempt_starts i k t p)) = gen (fst p)" by (simp add: attempt_starts_def case_prod_beta Let_def c split: option.split)
qed (simp_all add: cache_answers_def query_granted_def query_returns_def times_out_def is_cancelled_def case_prod_beta
    attempt_failed_def handle_returns_def)

lemma section_gen:
  assumes "meta_section cur i e (c, v, x) = Some res"
  shows "gen (fst res) = gen c \<or> gen (fst res) = cur"
proof (cases e)
  case (Arrives j)
  with assms show ?thesis by (auto simp: meta_section_def split: if_split_asm)
next
  case (Attempt_starts j t)
  with assms gen_frame(4) [of i _ t "(c, v, x)"] show ?thesis by (auto simp: meta_section_def split: client_phase.split_asm)
next
  case (Cache_answers j t)
  with assms gen_frame(5) [of _ _ t "(c, v, x)"] show ?thesis by (auto simp: meta_section_def split: client_phase.split_asm)
next
  case (Query_granted j)
  with assms gen_frame(6) [of i _ _ "(c, v, x)"] show ?thesis by (auto simp: meta_section_def split: client_phase.split_asm if_split_asm)
next
  case (Query_returns j t)
  with assms gen_frame(7) [of _ _ t "(c, v, x)"] show ?thesis by (auto simp: meta_section_def split: client_phase.split_asm)
next
  case (Times_out j)
  with assms gen_frame(8) [of i _ "(c, v, x)"] show ?thesis by (auto simp: meta_section_def split: option.split_asm)
next
  case (Is_cancelled j)
  with assms gen_frame(9) [of i "(c, v, x)"] show ?thesis by (auto simp: meta_section_def split: if_split_asm)
qed (use assms in \<open>simp_all add: meta_section_def\<close>)

lemma part_ok_counts:
  assumes "part_ok i (c, v, x) (c', v', x')"
  shows "of_bool (counts (Inflight g) c') - of_bool (counts (Inflight g) c) = (if g = gen c then inflight v' - inflight v else 0)"
    and "of_bool (counts (In_use g) c') - of_bool (counts (In_use g) c) = (if g = gen c then db_in_use v' - db_in_use v else 0)"
    and "task_move i (if g = gen c then db_sem v else w) (stance_in g c) (stance_in g c') (if g = gen c then db_sem v' else w)"
proof -
  have "gen c' = gen c \<or> handling (phase c) = None \<and> handling (phase c') = None"
    and v: "inflight v' = inflight v + of_bool (handling (phase c') \<noteq> None) - of_bool (handling (phase c) \<noteq> None)"
      "db_in_use v' = db_in_use v + of_bool (db_stance (phase c') = Using) - of_bool (db_stance (phase c) = Using)"
      "task_move i (db_sem v) (db_stance (phase c)) (db_stance (phase c')) (db_sem v')"
    using assms by (simp_all add: part_ok_def)
  then show "of_bool (counts (Inflight g) c') - of_bool (counts (Inflight g) c) = (if g = gen c then inflight v' - inflight v else 0)"
    "of_bool (counts (In_use g) c') - of_bool (counts (In_use g) c) = (if g = gen c then db_in_use v' - db_in_use v else 0)"
    "task_move i (if g = gen c then db_sem v else w) (stance_in g c) (stance_in g c') (if g = gen c then db_sem v' else w)"
    using v handling_stance [of "phase c"] handling_stance [of "phase c'"] by (elim disjE conjE; simp add: stance_in_def)+
qed

lemma meta_step_law:
  assumes "born_right s"
  shows "born_right (meta_step e s)" and
    "clients (meta_step e s) = clients s \<and> (\<forall>g. gauge_of (meta_step e s) g = gauge_of s g) \<and>
       (\<forall>h. db_sem (server_at (meta_step e s) h) = db_sem (server_at s h)) \<or>
     (\<exists>i c. i < length (clients s) \<and> clients (meta_step e s) = (clients s)[i := c] \<and>
       (\<forall>g. gauge_of (meta_step e s) g = gauge_of s g + of_bool (counts g c) - of_bool (counts g (clients s ! i))) \<and>
       (\<forall>h. task_move i (db_sem (server_at s h)) (stance_in h (clients s ! i)) (stance_in h c) (db_sem (server_at (meta_step e s) h))))"
proof -
  have "born_right (meta_step e s) \<and>
    (clients (meta_step e s) = clients s \<and> (\<forall>g. gauge_of (meta_step e s) g = gauge_of s g) \<and>
       (\<forall>h. db_sem (server_at (meta_step e s) h) = db_sem (server_at s h)) \<or>
     (\<exists>i c. i < length (clients s) \<and> clients (meta_step e s) = (clients s)[i := c] \<and>
       (\<forall>g. gauge_of (meta_step e s) g = gauge_of s g + of_bool (counts g c) - of_bool (counts g (clients s ! i))) \<and>
       (\<forall>h. task_move i (db_sem (server_at s h)) (stance_in h (clients s ! i)) (stance_in h c) (db_sem (server_at (meta_step e s) h)))))"
  proof (cases rule: meta_step_cases [of e s])
    case operator
    with operate_frame [OF assms] show ?thesis by simp
  next
    case (moves i c v x)
    let ?c = "clients s ! i" and ?s = "meta_step e s"
    from assms moves(2) have g: "gen ?c < length (servers s)" by (simp add: born_right_def list_all_length)
    from meta_section_ok [OF moves(3)] have ok: "part_ok i (?c, servers s ! gen ?c, shared s) (c, v, x)" .
    have at: "server_at ?s h = (if h = gen ?c then v else server_at s h)" for h
      using g moves(4) by (simp add: server_at_def)
    have here: "server_at s (gen ?c) = servers s ! gen ?c" using g by (simp add: server_at_def)
    have "gen c < length (servers s)" using section_gen [OF moves(3)] g assms by (auto simp: born_right_def)
    then have "born_right ?s" using assms moves(4) by (auto simp: born_right_def list_all_iff dest!: set_update_subset_insert [THEN subsetD])
    moreover have "gauge_of ?s q = gauge_of s q + of_bool (counts q c) - of_bool (counts q ?c)" for q
    proof (cases q)
      case (Inflight g)
      with part_ok_counts(1) [OF ok, of g] here show ?thesis by (simp add: at algebra_simps split: if_split_asm)
    next
      case (In_use g)
      with part_ok_counts(2) [OF ok, of g] here show ?thesis by (simp add: at algebra_simps split: if_split_asm)
    qed (use ok moves(4) in \<open>simp_all add: part_ok_def\<close>)
    moreover have "task_move i (db_sem (server_at s h)) (stance_in h ?c) (stance_in h c) (db_sem (server_at ?s h))" for h
      using part_ok_counts(3) [OF ok, of h "db_sem (server_at s h)"] here by (simp add: at split: if_split_asm)
    ultimately show ?thesis using moves(2,4) by auto
  qed (use assms in simp)
  then show "born_right (meta_step e s)"
    "clients (meta_step e s) = clients s \<and> (\<forall>g. gauge_of (meta_step e s) g = gauge_of s g) \<and>
       (\<forall>h. db_sem (server_at (meta_step e s) h) = db_sem (server_at s h)) \<or>
     (\<exists>i c. i < length (clients s) \<and> clients (meta_step e s) = (clients s)[i := c] \<and>
       (\<forall>g. gauge_of (meta_step e s) g = gauge_of s g + of_bool (counts g c) - of_bool (counts g (clients s ! i))) \<and>
       (\<forall>h. task_move i (db_sem (server_at s h)) (stance_in h (clients s ! i)) (stance_in h c) (db_sem (server_at (meta_step e s) h))))"
    by blast+
qed

interpretation meta_pool: task_semaphore meta_step "\<lambda>s. db_sem (server_at s g)" clients "stance_in g" born_right for g
proof unfold_locales
  fix s :: meta_sys and e
  assume s: "born_right s"
  show "born_right (meta_step e s)" by (rule meta_step_law(1) [OF s])
  from meta_step_law(2) [OF s, of e]
  show "db_sem (server_at (meta_step e s) g) = db_sem (server_at s g) \<and> clients (meta_step e s) = clients s \<or>
    (\<exists>i c. i < length (clients s) \<and> clients (meta_step e s) = (clients s)[i := c] \<and>
       task_move i (db_sem (server_at s g)) (stance_in g (clients s ! i)) (stance_in g c) (db_sem (server_at (meta_step e s) g)))" by blast
qed

interpretation meta_books: task_books meta_step clients born_right "\<lambda>s. gauge_of s q" "\<lambda>c. of_bool (counts q c)" for q
proof unfold_locales
  fix s :: meta_sys and e
  assume s: "born_right s"
  from meta_step_law [OF s, of e]
  show "born_right (meta_step e s) \<and> (clients (meta_step e s) = clients s \<and> gauge_of (meta_step e s) q = gauge_of s q \<or>
    (\<exists>i c. i < length (clients s) \<and> clients (meta_step e s) = (clients s)[i := c] \<and>
       gauge_of (meta_step e s) q = gauge_of s q + of_bool (counts q c) - of_bool (counts q (clients s ! i))))" by blast
qed

lemma meta_start_facts:
  "born_right (meta_start ks)" "gauge_of (meta_start ks) q = 0" "db_sem (server_at (meta_start ks) g) = new_semaphore 6"
  "c \<in> set (clients (meta_start ks)) \<Longrightarrow> \<not> counts q c \<and> stance_in g c = Outside"
proof -
  show "gauge_of (meta_start ks) q = 0" by (cases q) (simp_all add: meta_start_def server_at_def new_meta_server_def)
  show "c \<in> set (clients (meta_start ks)) \<Longrightarrow> \<not> counts q c \<and> stance_in g c = Outside"
    by (cases q) (auto simp: meta_start_def handling_def stance_in_def)
qed (auto simp: meta_start_def born_right_def server_at_def new_meta_server_def POOL_SIZE_def list_all_iff)

lemma metastable_counts: "gauge_of (meta_run evs ks) q = int (length (filter (counts q) (clients (meta_run evs ks))))"
proof -
  have none: "filter (counts q) (clients (meta_start ks)) = []" using meta_start_facts(4) by (simp add: filter_empty_conv)
  show ?thesis
    using meta_books.books_run [OF meta_start_facts(1), where q = q and es = evs] none by (simp add: sum_of_bool meta_run_def meta_start_facts(2))
qed

text \<open>
  C19. In every interleaving, through flushes, evictions, escapes, timeouts, cancellations and restarts: goodput and failures
  count exactly the clients that got an answer in time and those that gave up; for every generation of the process the
  gauges of handlers in flight and of connections in use count exactly the clients inside, so no restart drives one
  negative; and no generation ever uses more than its six connections.
\<close>

theorem metastable_books_balance:
  "let s = meta_run evs ks in
     gauge_of s q = int (length (filter (counts q) (clients s))) \<and>
     0 \<le> inflight (server_at s g) \<and> 0 \<le> db_in_use (server_at s g) \<and> db_in_use (server_at s g) \<le> 6"
proof -
  let ?s = "meta_run evs ks"
  have "count_stance (stance_in g) Using (clients ?s) \<le> 6"
    unfolding meta_run_def by (rule meta_pool.users_bounded(1)) (use meta_start_facts in auto)
  moreover have "counts (In_use g) = (\<lambda>c. stance_in g c = Using)" by (auto simp: stance_in_def fun_eq_iff)
  ultimately have "db_in_use (server_at ?s g) \<le> 6" using metastable_counts [of evs ks "In_use g"] by (simp add: count_stance_def)
  then show ?thesis using metastable_counts [of evs ks q] metastable_counts [of evs ks "In_use g"] metastable_counts [of evs ks "Inflight g"]
    by (simp add: Let_def)
qed

subsection \<open>The cache refills only on goodput\<close>

text \<open>What every section does to the keys in the cache: it adds one at most, and then it is goodput.\<close>

definition refills :: "meta_shared \<Rightarrow> meta_shared \<Rightarrow> bool" where
  "refills x x' \<longleftrightarrow> present (cache x') = present (cache x) \<and> goodput (metrics x) \<le> goodput (metrics x') \<or>
     (\<exists>k. present (cache x') = insert k (present (cache x))) \<and> goodput (metrics x') = goodput (metrics x) + 1"

lemma attempt_failed_shared:
  "cache (snd (snd (attempt_failed k p))) = cache (snd (snd p))"
  "goodput (metrics (snd (snd (attempt_failed k p)))) = goodput (metrics (snd (snd p)))"
  by (simp_all add: attempt_failed_def case_prod_beta)

lemma handle_returns_shared:
  "cache (snd (snd (handle_returns k ok p))) = cache (snd (snd p))"
  "goodput (metrics (snd (snd (handle_returns k ok p)))) = goodput (metrics (snd (snd p))) + of_bool ok"
  by (simp_all add: handle_returns_def case_prod_beta attempt_failed_shared)

lemma handle_starts_shared:
  "present (cache (snd (snd (handle_starts i k d p)))) = present (cache (snd (snd p)))"
  "goodput (metrics (snd (snd (handle_starts i k d p)))) = goodput (metrics (snd (snd p)))"
  by (simp_all add: handle_starts_def case_prod_beta Let_def handle_returns_shared cache_get_def)

lemma attempt_starts_shared:
  "present (cache (snd (snd (attempt_starts i k t p)))) = present (cache (snd (snd p)))"
  "goodput (metrics (snd (snd (attempt_starts i k t p)))) = goodput (metrics (snd (snd p)))"
  by (simp_all add: attempt_starts_def case_prod_beta Let_def handle_starts_shared split: option.split)

lemma section_refills:
  assumes "meta_section cur i e (c, v, x) = Some (c', v', x')"
  shows "refills x x'"
proof (cases e)
  case (Attempt_starts j t)
  then obtain k where "attempt_starts i k t (c, v, x) = (c', v', x')" using assms by (auto simp: meta_section_def split: client_phase.split_asm)
  then show ?thesis using attempt_starts_shared [of i k t "(c, v, x)"] by (simp add: refills_def)
next
  case (Cache_answers j t)
  then obtain k d where "cache_answers k d t (c, v, x) = (c', v', x')" using assms by (auto simp: meta_section_def split: client_phase.split_asm)
  then have "x' = snd (snd (handle_returns k (t \<le> d) (c, on_inflight (- 1) v, x)))" by (simp add: cache_answers_def)
  then show ?thesis by (simp add: refills_def handle_returns_shared)
next
  case (Query_returns j t)
  then obtain k d where "query_returns k d t (c, v, x) = (c', v', x')" using assms by (auto simp: meta_section_def split: client_phase.split_asm)
  then have "x' = snd (snd (handle_returns k (t \<le> d) (c, on_inflight (- 1) (on_db give_back (- 1) v),
      if t \<le> d then x\<lparr>cache := cache_put (key c) (cache x)\<rparr> else x)))" by (simp add: query_returns_def)
  then show ?thesis by (auto simp: refills_def handle_returns_shared cache_put_def)
next
  case (Query_granted j)
  with assms show ?thesis by (auto simp: meta_section_def query_granted_def refills_def split: client_phase.split_asm if_split_asm)
next
  case (Times_out j)
  then obtain k where "times_out i k (c, v, x) = (c', v', x')" using assms by (auto simp: meta_section_def split: option.split_asm)
  then have "x' = snd (snd (attempt_failed k (c, unwind i c v, attempt_counted x)))" by (simp add: times_out_def)
  then show ?thesis by (simp add: refills_def attempt_failed_shared)
qed (use assms in \<open>auto simp: meta_section_def is_cancelled_def refills_def split: if_split_asm\<close>)

lemma evict_shrinks: "present (evict n ks c) \<subseteq> present c"
  by (induction n ks c rule: evict.induct) auto

lemma operate_keys: "client_of e = None \<Longrightarrow> present (cache (shared (operate e s))) \<subseteq> present (cache (shared s)) \<and>
    metrics (shared (operate e s)) = metrics (shared s)"
  using evict_shrinks by (cases e) (auto simp: operate_def on_cache_def on_current_def flushall_def)

lemma step_refills:
  "refills (shared s) (shared (meta_step e s)) \<or>
   present (cache (shared (meta_step e s))) \<subseteq> present (cache (shared s)) \<and> metrics (shared (meta_step e s)) = metrics (shared s)"
proof (cases rule: meta_step_cases [of e s])
  case (moves i c v x)
  with section_refills [OF moves(3)] show ?thesis by simp
qed (use operate_keys in auto)

definition fills :: "meta_sys \<Rightarrow> int" where
  "fills s = goodput (metrics (shared s)) - int (card (present (cache (shared s))))"

lemma step_fills:
  assumes "finite (present (cache (shared s)))"
  shows "finite (present (cache (shared (meta_step e s)))) \<and> fills s \<le> fills (meta_step e s) \<and>
    goodput (metrics (shared s)) \<le> goodput (metrics (shared (meta_step e s)))"
  using step_refills [of s e] unfolding refills_def
proof (elim disjE conjE exE)
  fix k
  assume k: "present (cache (shared (meta_step e s))) = insert k (present (cache (shared s)))"
  have "card (insert k (present (cache (shared s)))) \<le> card (present (cache (shared s))) + 1"
    using assms by (simp add: card_insert_if)
  moreover assume "goodput (metrics (shared (meta_step e s))) = goodput (metrics (shared s)) + 1"
  ultimately show ?thesis using assms k by (simp add: fills_def)
next
  assume p: "present (cache (shared (meta_step e s))) \<subseteq> present (cache (shared s))"
  then show "metrics (shared (meta_step e s)) = metrics (shared s) \<Longrightarrow> ?thesis"
    using assms card_mono [OF assms p] by (auto simp: fills_def intro: finite_subset)
qed (use assms in \<open>auto simp: fills_def\<close>)

lemma run_fills:
  assumes "finite (present (cache (shared s)))"
  shows "finite (present (cache (shared (fold meta_step es s)))) \<and> fills s \<le> fills (fold meta_step es s)"
  using assms
proof (induction es arbitrary: s)
  case (Cons e es)
  from step_fills [OF Cons.prems, of e] Cons.IH [of "meta_step e s"] show ?case by fastforce
qed simp

text \<open>
  Invariant: between any two moments of any run the cache gains at most as many keys as there were answers in time, whatever
  is offered, retried, shed, budgeted or restarted. While goodput is zero the cache cannot refill.
\<close>

theorem refill_costs_goodput:
  "int (card (present (cache (shared (meta_run (before @ during) ks))))) \<le>
     int (card (present (cache (shared (meta_run before ks))))) +
       (goodput (metrics (shared (meta_run (before @ during) ks))) - goodput (metrics (shared (meta_run before ks))))"
proof -
  have f0: "finite (present (cache (shared (meta_start ks))))" by (simp add: meta_start_def new_cache_def)
  from run_fills [OF f0, of before] have "finite (present (cache (shared (meta_run before ks))))" by (simp add: meta_run_def)
  from run_fills [OF this, of during] show ?thesis by (simp add: meta_run_def fills_def)
qed

subsection \<open>The outage outlives its trigger\<close>

text \<open>No query comes back before its caller's deadline, whether it is late or its caller has cancelled it.\<close>

fun no_query_in_time :: "meta_sys \<Rightarrow> meta_event list \<Rightarrow> bool" where
  "no_query_in_time s [] = True"
| "no_query_in_time s (e # es) =
     ((case e of
         Query_returns i now \<Rightarrow> (case phase (clients s ! i) of Querying k d \<Rightarrow> d < now | _ \<Rightarrow> True)
       | _ \<Rightarrow> True) \<and> no_query_in_time (meta_step e s) es)"

definition in_cache :: "meta_client \<Rightarrow> bool" where
  "in_cache c = (case phase c of In_cache k d \<Rightarrow> True | _ \<Rightarrow> False)"

lemma in_cache_enter [simp]: "in_cache (enter p c) = (case p of In_cache k d \<Rightarrow> True | _ \<Rightarrow> False)"
  by (simp add: in_cache_def)

lemma in_cache_frame:
  "in_cache (fst (attempt_failed k p)) = False" "in_cache (fst (handle_returns k ok p)) = False"
  "present (cache (snd (snd p))) = {} \<Longrightarrow> in_cache (fst (handle_starts i k d p)) = False"
  "present (cache (snd (snd p))) = {} \<Longrightarrow> in_cache (fst (attempt_starts i k t p)) = False"
proof -
  show a: "in_cache (fst (attempt_failed k p)) = False" for k p by (simp add: attempt_failed_def case_prod_beta)
  show b: "in_cache (fst (handle_returns k ok p)) = False" for k ok p by (simp add: handle_returns_def case_prod_beta a)
  show c: "present (cache (snd (snd p))) = {} \<Longrightarrow> in_cache (fst (handle_starts i k d p)) = False" for i k d p
    by (auto simp: handle_starts_def case_prod_beta Let_def b cache_get_def)
  show "present (cache (snd (snd p))) = {} \<Longrightarrow> in_cache (fst (attempt_starts i k t p)) = False"
    by (auto simp: attempt_starts_def case_prod_beta Let_def c split: option.split)
qed

text \<open>With an empty cache, goodput comes only from the clients that had found their key before.\<close>

lemma section_cold:
  assumes "meta_section cur i e (c, v, x) = Some (c', v', x')" "present (cache x) = {}"
    "case e of Query_returns i now \<Rightarrow> (case phase c of Querying k d \<Rightarrow> d < now | _ \<Rightarrow> True) | _ \<Rightarrow> True"
  shows "present (cache x') = {}" "goodput (metrics x') + of_bool (in_cache c') \<le> goodput (metrics x) + of_bool (in_cache c)"
proof -
  have "present (cache x') = {} \<and> goodput (metrics x') + of_bool (in_cache c') \<le> goodput (metrics x) + of_bool (in_cache c)"
  proof (cases e)
    case (Attempt_starts j t)
    then obtain k where k: "attempt_starts i k t (c, v, x) = (c', v', x')" using assms(1) by (auto simp: meta_section_def split: client_phase.split_asm)
    with attempt_starts_shared [of i k t "(c, v, x)"] in_cache_frame(4) [of "(c, v, x)" i k t] assms(2) show ?thesis by simp
  next
    case (Cache_answers j t)
    then obtain k d where k: "phase c = In_cache k d" "cache_answers k d t (c, v, x) = (c', v', x')"
      using assms(1) by (auto simp: meta_section_def split: client_phase.split_asm)
    then have r: "handle_returns k (t \<le> d) (c, on_inflight (- 1) v, x) = (c', v', x')" by (simp add: cache_answers_def)
    from in_cache_frame(2) [of k "t \<le> d" "(c, on_inflight (- 1) v, x)"] handle_returns_shared [of k "t \<le> d" "(c, on_inflight (- 1) v, x)"] assms(2)
    show ?thesis unfolding r by (simp add: in_cache_def k(1))
  next
    case (Query_returns j t)
    then obtain k d where k: "phase c = Querying k d" "query_returns k d t (c, v, x) = (c', v', x')"
      using assms(1) by (auto simp: meta_section_def split: client_phase.split_asm)
    with assms(3) Query_returns have "d < t" by simp
    with k(2) have r: "handle_returns k False (c, on_inflight (- 1) (on_db give_back (- 1) v), x) = (c', v', x')" by (simp add: query_returns_def)
    from in_cache_frame(2) [of k False "(c, on_inflight (- 1) (on_db give_back (- 1) v), x)"]
      handle_returns_shared [of k False "(c, on_inflight (- 1) (on_db give_back (- 1) v), x)"] assms(2)
    show ?thesis unfolding r by simp
  next
    case (Query_granted j)
    with assms(1,2) show ?thesis by (auto simp: meta_section_def query_granted_def split: client_phase.split_asm if_split_asm)
  next
    case (Times_out j)
    then obtain k where k: "times_out i k (c, v, x) = (c', v', x')" using assms(1) by (auto simp: meta_section_def split: option.split_asm)
    then have r: "attempt_failed k (c, unwind i c v, attempt_counted x) = (c', v', x')" by (simp add: times_out_def)
    from in_cache_frame(1) [of k "(c, unwind i c v, attempt_counted x)"] attempt_failed_shared [of k "(c, unwind i c v, attempt_counted x)"] assms(2)
    show ?thesis unfolding r by simp
  qed (use assms(1,2) in \<open>auto simp: meta_section_def is_cancelled_def in_cache_def split: if_split_asm\<close>)
  then show "present (cache x') = {}" "goodput (metrics x') + of_bool (in_cache c') \<le> goodput (metrics x) + of_bool (in_cache c)" by simp_all
qed

definition answers_left :: "meta_sys \<Rightarrow> int" where
  "answers_left s = goodput (metrics (shared s)) + int (length (filter in_cache (clients s)))"

lemma cold_step:
  assumes "present (cache (shared s)) = {}"
    "case e of Query_returns i now \<Rightarrow> (case phase (clients s ! i) of Querying k d \<Rightarrow> d < now | _ \<Rightarrow> True) | _ \<Rightarrow> True"
  shows "present (cache (shared (meta_step e s))) = {} \<and> answers_left (meta_step e s) \<le> answers_left s"
proof (cases rule: meta_step_cases [of e s])
  case operator
  with operate_keys [of e s] assms(1) show ?thesis
    by (cases e) (auto simp: answers_left_def operate_def on_cache_def on_current_def)
next
  case (moves i c v x)
  have "case e of Query_returns i' now \<Rightarrow> (case phase (clients s ! i) of Querying k d \<Rightarrow> d < now | _ \<Rightarrow> True) | _ \<Rightarrow> True"
    using assms(2) moves(1) by (cases e) auto
  from section_cold [OF moves(3) assms(1) this] arg_cong [where f = int, OF length_filter_update [OF moves(2), of in_cache c]] moves(4)
  show ?thesis by (simp add: answers_left_def)
qed (use assms in simp)

lemma cold_run:
  "present (cache (shared s)) = {} \<Longrightarrow> no_query_in_time s es \<Longrightarrow>
     present (cache (shared (fold meta_step es s))) = {} \<and> answers_left (fold meta_step es s) \<le> answers_left s"
proof (induction es arbitrary: s)
  case (Cons e es)
  from Cons.prems(2) have "case e of Query_returns i now \<Rightarrow> (case phase (clients s ! i) of Querying k d \<Rightarrow> d < now | _ \<Rightarrow> True) | _ \<Rightarrow> True"
    and late: "no_query_in_time (meta_step e s) es" by auto
  from cold_step [OF Cons.prems(1) this(1)] Cons.IH [OF _ late] show ?case by auto
qed simp

text \<open>
  C18. Safety (the sustaining effect): once the cache has been flushed, as long as no query beats its caller's deadline, the
  cache stays empty and the goodput of all time to come is at most one answer for each client that had found its key before
  the flush. New load, retries, evictions, a retry budget, a shed limit and restarts change nothing about it.
\<close>

theorem outage_outlives_trigger:
  assumes "no_query_in_time (meta_step Flush (meta_run before ks)) after"
  shows "let s = meta_run before ks; s' = meta_run (before @ Flush # after) ks in
    present (cache (shared s')) = {} \<and>
    goodput (metrics (shared s')) \<le> goodput (metrics (shared s)) + int (length (filter in_cache (clients s)))"
proof -
  let ?f = "meta_step Flush (meta_run before ks)"
  have f: "present (cache (shared ?f)) = {}" "answers_left ?f = answers_left (meta_run before ks)"
    by (simp_all add: meta_step_def operate_def on_cache_def flushall_def answers_left_def)
  have "meta_run (before @ Flush # after) ks = fold meta_step after ?f" by (simp add: meta_run_def)
  with cold_run [OF f(1) assms] f(2) show ?thesis by (simp add: Let_def answers_left_def)
qed

text \<open>The witness is the outage itself: one client, its query outlasted by its timer three times.\<close>

definition flushed_client :: "meta_event list" where
  "flushed_client = Arrives 0 # concat (replicate 3 [Attempt_starts 0 0, Times_out 0])"

lemma outage_outlives_trigger_witness:
  "present (cache (shared (meta_run ([] @ Flush # flushed_client) [7]))) = {}"
proof -
  have "no_query_in_time (meta_step Flush (meta_run [] [7])) flushed_client"
    by (simp add: flushed_client_def numeral_3_eq_3)
  from outage_outlives_trigger [OF this] show ?thesis by (simp add: Let_def)
qed

subsection \<open>What retries can cost\<close>

text \<open>Without a budget: three attempts a client, two of them retries.\<close>

definition attempts_left :: "meta_client \<Rightarrow> int" where
  "attempts_left c = (case phase c of Unborn \<Rightarrow> 3 | Attempting k \<Rightarrow> 3 - int k | In_cache k d \<Rightarrow> 3 - int k
     | In_pool_queue k d \<Rightarrow> 3 - int k | Querying k d \<Rightarrow> 3 - int k | _ \<Rightarrow> 0)"

definition attempt_inside :: "client_phase \<Rightarrow> nat" where
  "attempt_inside p = (case p of Attempting k \<Rightarrow> k | In_cache k d \<Rightarrow> k | In_pool_queue k d \<Rightarrow> k | Querying k d \<Rightarrow> k | _ \<Rightarrow> 0)"

lemma attempts_frame:
  "k < 3 \<Longrightarrow> thruput_attempts (metrics (snd (snd (attempt_failed k p)))) + attempts_left (fst (attempt_failed k p)) \<le>
     thruput_attempts (metrics (snd (snd p))) + 2 - int k"
  "k < 3 \<Longrightarrow> attempt_inside (phase (fst (attempt_failed k p))) < 3"
  by (auto simp: attempt_failed_def case_prod_beta attempts_left_def attempt_inside_def ATTEMPTS_def)

lemma returns_attempts:
  "k < 3 \<Longrightarrow> thruput_attempts (metrics (snd (snd (handle_returns k ok p)))) + attempts_left (fst (handle_returns k ok p)) \<le>
     thruput_attempts (metrics (snd (snd p))) + 3 - int k"
  "k < 3 \<Longrightarrow> attempt_inside (phase (fst (handle_returns k ok p))) < 3"
  using attempts_frame [of k "(fst p, fst (snd p), attempt_counted (snd (snd p)))"]
  by (auto simp: handle_returns_def case_prod_beta attempts_left_def attempt_inside_def)

lemma starts_attempts:
  "k < 3 \<Longrightarrow> thruput_attempts (metrics (snd (snd (handle_starts i k d p)))) + attempts_left (fst (handle_starts i k d p)) \<le>
     thruput_attempts (metrics (snd (snd p))) + 3 - int k"
  "k < 3 \<Longrightarrow> attempt_inside (phase (fst (handle_starts i k d p))) < 3"
  using returns_attempts [of k False "(fst p, fst (snd p), on_m (\<lambda>m. m\<lparr>shed := shed m + 1\<rparr>) (snd (snd p)))"]
  by (auto simp: handle_starts_def case_prod_beta Let_def attempts_left_def attempt_inside_def cache_get_def)

lemma gave_up_inside: "attempt_inside Gave_up = 0"
  by (simp add: attempt_inside_def)

lemma attempt_attempts:
  assumes "k < 3"
  shows "thruput_attempts (metrics (snd (snd (attempt_starts i k t p)))) + attempts_left (fst (attempt_starts i k t p)) \<le>
     thruput_attempts (metrics (snd (snd p))) + 3 - int k"
    and "attempt_inside (phase (fst (attempt_starts i k t p))) < 3"
proof -
  note s = starts_attempts [OF assms, of i "fl (t + CLIENT_TIMEOUT)"]
  show "thruput_attempts (metrics (snd (snd (attempt_starts i k t p)))) + attempts_left (fst (attempt_starts i k t p)) \<le>
     thruput_attempts (metrics (snd (snd p))) + 3 - int k"
    using s(1) [of p] s(1) [of "(fst p, v, on_m (\<lambda>m. m\<lparr>retries := retries m + 1\<rparr>) (snd (snd p)))" for v] assms
    by (auto simp: attempt_starts_def case_prod_beta Let_def attempts_left_def split: option.split)
  show "attempt_inside (phase (fst (attempt_starts i k t p))) < 3"
    using s(2) by (cases p) (auto simp: attempt_starts_def case_prod_beta Let_def gave_up_inside split: option.split)
qed

lemma section_attempts:
  assumes "meta_section cur i e (c, v, x) = Some (c', v', x')" "attempt_inside (phase c) < 3"
  shows "thruput_attempts (metrics x') + attempts_left c' \<le> thruput_attempts (metrics x) + attempts_left c" "attempt_inside (phase c') < 3"
proof -
  have "thruput_attempts (metrics x') + attempts_left c' \<le> thruput_attempts (metrics x) + attempts_left c \<and> attempt_inside (phase c') < 3"
  proof (cases e)
    case (Attempt_starts j t)
    then obtain k where k: "phase c = Attempting k" "attempt_starts i k t (c, v, x) = (c', v', x')"
      using assms(1) by (auto simp: meta_section_def split: client_phase.split_asm)
    with attempt_attempts [of k i t "(c, v, x)"] assms(2) show ?thesis by (simp add: attempts_left_def attempt_inside_def)
  next
    case (Cache_answers j t)
    then obtain k d where k: "phase c = In_cache k d" "cache_answers k d t (c, v, x) = (c', v', x')"
      using assms(1) by (auto simp: meta_section_def split: client_phase.split_asm)
    then have r: "handle_returns k (t \<le> d) (c, on_inflight (- 1) v, x) = (c', v', x')" by (simp add: cache_answers_def)
    from returns_attempts [of k "t \<le> d" "(c, on_inflight (- 1) v, x)"] k(1) assms(2) show ?thesis
      unfolding r by (simp add: attempts_left_def attempt_inside_def)
  next
    case (Query_returns j t)
    then obtain k d where k: "phase c = Querying k d" "query_returns k d t (c, v, x) = (c', v', x')"
      using assms(1) by (auto simp: meta_section_def split: client_phase.split_asm)
    define y where "y = (if t \<le> d then x\<lparr>cache := cache_put (key c) (cache x)\<rparr> else x)"
    have m: "metrics y = metrics x" by (simp add: y_def)
    have r: "handle_returns k (t \<le> d) (c, on_inflight (- 1) (on_db give_back (- 1) v), y) = (c', v', x')"
      using k(2) by (simp add: query_returns_def y_def)
    from returns_attempts [of k "t \<le> d" "(c, on_inflight (- 1) (on_db give_back (- 1) v), y)"] k(1) assms(2) show ?thesis
      unfolding r by (simp add: attempts_left_def attempt_inside_def m)
  next
    case (Query_granted j)
    with assms show ?thesis
      by (auto simp: meta_section_def query_granted_def attempts_left_def attempt_inside_def split: client_phase.split_asm if_split_asm)
  next
    case (Times_out j)
    then obtain k d where k: "handling (phase c) = Some (k, d)" "times_out i k (c, v, x) = (c', v', x')"
      using assms(1) by (auto simp: meta_section_def split: option.split_asm)
    from k(1) assms(2) have h: "k < 3" "attempts_left c = 3 - int k" by (auto simp: handling_def attempt_inside_def attempts_left_def split: client_phase.split_asm)
    from k(2) have r: "attempt_failed k (c, unwind i c v, attempt_counted x) = (c', v', x')" by (simp add: times_out_def)
    from attempts_frame [OF h(1), of "(c, unwind i c v, attempt_counted x)"] h(2) show ?thesis unfolding r by simp
  qed (use assms in \<open>auto simp: meta_section_def is_cancelled_def attempts_left_def attempt_inside_def split: if_split_asm client_phase.split\<close>)
  then show "thruput_attempts (metrics x') + attempts_left c' \<le> thruput_attempts (metrics x) + attempts_left c" "attempt_inside (phase c') < 3"
    by simp_all
qed

interpretation meta_attempts: task_potential meta_step clients "\<lambda>s. list_all (\<lambda>c. attempt_inside (phase c) < 3) (clients s)"
    "\<lambda>s. thruput_attempts (metrics (shared s))" attempts_left "\<lambda>_. 0"
proof unfold_locales
  fix s :: meta_sys and e
  assume s: "list_all (\<lambda>c. attempt_inside (phase c) < 3) (clients s)"
  show "list_all (\<lambda>c. attempt_inside (phase c) < 3) (clients (meta_step e s)) \<and>
    (clients (meta_step e s) = clients s \<and> thruput_attempts (metrics (shared (meta_step e s))) \<le> thruput_attempts (metrics (shared s)) + 0 \<or>
     (\<exists>i c. i < length (clients s) \<and> clients (meta_step e s) = (clients s)[i := c] \<and>
        thruput_attempts (metrics (shared (meta_step e s))) + attempts_left c \<le>
          thruput_attempts (metrics (shared s)) + attempts_left (clients s ! i) + 0))"
  proof (cases rule: meta_step_cases [of e s])
    case operator
    have "clients (operate e s) = clients s" using operator(1) by (cases e) (simp_all add: operate_def on_cache_def on_current_def)
    with s operator operate_keys [OF operator(1), of s] show ?thesis by simp
  next
    case (moves i c v x)
    from s moves(2) have "attempt_inside (phase (clients s ! i)) < 3" by (simp add: list_all_length)
    from section_attempts [OF moves(3) this] moves(2,4) s show ?thesis
      by (auto simp: list_all_iff dest!: set_update_subset_insert [THEN subsetD])
  qed (use s in simp)
qed

lemma attempts_left_nonneg: "attempt_inside (phase c) < 3 \<Longrightarrow> 0 \<le> attempts_left c"
  by (cases "phase c") (simp_all add: attempts_left_def attempt_inside_def)

lemma attempts_bounded: "thruput_attempts (metrics (shared (meta_run evs ks))) \<le> 3 * int (length ks)"
proof -
  have p: "list_all (\<lambda>c. attempt_inside (phase c) < 3) (clients (meta_start ks))"
    by (simp add: meta_start_def list_all_iff attempt_inside_def)
  have "sum_list (map attempts_left (clients (meta_start ks))) = 3 * int (length ks)"
    by (induction ks) (simp_all add: meta_start_def attempts_left_def)
  moreover have "0 \<le> sum_list (map attempts_left cs)" if "list_all (\<lambda>c. attempt_inside (phase c) < 3) cs" for cs
    using that by (intro sum_list_nonneg) (auto simp: list_all_iff intro: attempts_left_nonneg)
  ultimately show ?thesis using meta_attempts.potential_run [OF p, of evs]
    by (fastforce simp: meta_run_def meta_start_def sum_list_0)
qed

text \<open>With a budget: every retry since the operator added it was granted by the bucket, every answer in time has paid into it.\<close>

definition paid :: "int \<Rightarrow> int \<Rightarrow> meta_server \<Rightarrow> meta_shared \<Rightarrow> bool" where
  "paid r0 g0 v x \<longleftrightarrow> (\<exists>b n d. budget v = Some b \<and> earned mb_deposit mb_withdraw new_meta_budget n d b \<and>
     retries (metrics x) = r0 + int n \<and> goodput (metrics x) = g0 + int d)"

lemma paid_cong:
  "budget v' = budget v \<Longrightarrow> retries (metrics x') = retries (metrics x) \<Longrightarrow> goodput (metrics x') = goodput (metrics x) \<Longrightarrow>
     paid r0 g0 v' x' = paid r0 g0 v x"
  by (simp add: paid_def)

lemma attempt_failed_paid: "paid r0 g0 v x \<Longrightarrow> paid r0 g0 (fst (snd (attempt_failed k (c, v, x)))) (snd (snd (attempt_failed k (c, v, x))))"
  by (auto simp: attempt_failed_def paid_def)

lemma handle_returns_paid:
  assumes "paid r0 g0 v x"
  shows "paid r0 g0 (fst (snd (handle_returns k ok (c, v, x)))) (snd (snd (handle_returns k ok (c, v, x))))"
proof (cases ok)
  case True
  from assms obtain b n d where b: "budget v = Some b" "earned mb_deposit mb_withdraw new_meta_budget n d b"
    "retries (metrics x) = r0 + int n" "goodput (metrics x) = g0 + int d" by (auto simp: paid_def)
  from earned_deposit [OF b(2)] b True show ?thesis
    unfolding paid_def by (intro exI [of _ "mb_deposit b"] exI [of _ n] exI [of _ "Suc d"]) (simp add: handle_returns_def)
next
  case False
  have "paid r0 g0 v (attempt_counted x)" using assms by (simp add: paid_def)
  from attempt_failed_paid [OF this, of k c] False show ?thesis by (simp add: handle_returns_def)
qed

lemma handle_starts_paid:
  assumes "paid r0 g0 v x"
  shows "paid r0 g0 (fst (snd (handle_starts i k d (c, v, x)))) (snd (snd (handle_starts i k d (c, v, x))))"
proof -
  have "paid r0 g0 v (on_m (\<lambda>m. m\<lparr>shed := shed m + 1\<rparr>) x)" using assms by (simp add: paid_def)
  from handle_returns_paid [OF this, of k False c] assms show ?thesis
    by (auto simp: handle_starts_def Let_def case_prod_beta paid_def)
qed

lemma attempt_starts_paid:
  assumes "paid r0 g0 v x"
  shows "paid r0 g0 (fst (snd (attempt_starts i k t (c, v, x)))) (snd (snd (attempt_starts i k t (c, v, x))))"
proof (cases "k = 0")
  case True
  with handle_starts_paid [OF assms, of i k "fl (t + CLIENT_TIMEOUT)" c] show ?thesis by (simp add: attempt_starts_def)
next
  case False
  from assms obtain b n d where b: "budget v = Some b" "earned mb_deposit mb_withdraw new_meta_budget n d b"
    "retries (metrics x) = r0 + int n" "goodput (metrics x) = g0 + int d" by (auto simp: paid_def)
  obtain ok b' where w: "mb_withdraw b = (ok, b')" by fastforce
  let ?v = "v\<lparr>budget := Some b'\<rparr>" and ?x = "on_m (\<lambda>m. m\<lparr>retries := retries m + 1\<rparr>) x"
  from earned_withdraw [OF b(2)] w have e: "earned mb_deposit mb_withdraw new_meta_budget (n + of_bool ok) d b'" by simp
  show ?thesis
  proof (cases ok)
    case True
    have "paid r0 g0 ?v ?x" unfolding paid_def
      by (intro exI [of _ b'] exI [of _ "n + 1"] exI [of _ d]) (use e True b in simp)
    from handle_starts_paid [OF this, of i k "fl (t + CLIENT_TIMEOUT)" c] False True b(1) w show ?thesis
      by (simp add: attempt_starts_def Let_def)
  next
    case no: False
    have "paid r0 g0 ?v x" unfolding paid_def
      by (intro exI [of _ b'] exI [of _ n] exI [of _ d]) (use e no b in simp)
    then have "paid r0 g0 ?v (on_m (\<lambda>m. m\<lparr>failed := failed m + 1\<rparr>) x)" by (simp add: paid_def)
    with False no b(1) w show ?thesis by (simp add: attempt_starts_def Let_def)
  qed
qed

lemma unwind_budget [simp]: "budget (unwind i c v) = budget v"
  by (simp add: unwind_def split: client_phase.split)

lemma section_paid:
  assumes "meta_section cur i e (c, v, x) = Some res" "paid r0 g0 v x"
  shows "paid r0 g0 (fst (snd res)) (snd (snd res))"
proof (cases e)
  case (Attempt_starts j t)
  with assms attempt_starts_paid show ?thesis by (auto simp: meta_section_def split: client_phase.split_asm)
next
  case (Cache_answers j t)
  then obtain k d where "res = handle_returns k (t \<le> d) (c, on_inflight (- 1) v, x)"
    using assms(1) by (auto simp: meta_section_def cache_answers_def split: client_phase.split_asm)
  moreover have "paid r0 g0 (on_inflight (- 1) v) x" using assms(2) by (simp add: paid_def)
  ultimately show ?thesis using handle_returns_paid by blast
next
  case (Query_returns j t)
  then obtain k d where "res = handle_returns k (t \<le> d) (c, on_inflight (- 1) (on_db give_back (- 1) v),
      if t \<le> d then x\<lparr>cache := cache_put (key c) (cache x)\<rparr> else x)"
    using assms(1) by (auto simp: meta_section_def query_returns_def split: client_phase.split_asm)
  moreover have "paid r0 g0 (on_inflight (- 1) (on_db give_back (- 1) v)) (if t \<le> d then x\<lparr>cache := cache_put (key c) (cache x)\<rparr> else x)"
    using assms(2) by (simp add: paid_def)
  ultimately show ?thesis using handle_returns_paid by blast
next
  case (Query_granted j)
  with assms show ?thesis by (auto simp: meta_section_def query_granted_def paid_def split: client_phase.split_asm if_split_asm)
next
  case (Times_out j)
  then obtain k where "res = attempt_failed k (c, unwind i c v, attempt_counted x)"
    using assms(1) by (auto simp: meta_section_def times_out_def split: option.split_asm)
  moreover have "paid r0 g0 (unwind i c v) (attempt_counted x)" using assms(2) by (simp add: paid_def)
  ultimately show ?thesis using attempt_failed_paid by blast
qed (use assms in \<open>auto simp: meta_section_def is_cancelled_def paid_def split: if_split_asm\<close>)

definition one_process :: "meta_event \<Rightarrow> bool" where
  "one_process e \<longleftrightarrow> e \<noteq> Restart \<and> e \<noteq> Add_budget"

definition budgeted :: "int \<Rightarrow> int \<Rightarrow> meta_sys \<Rightarrow> bool" where
  "budgeted r0 g0 s \<longleftrightarrow> born_right s \<and> length (servers s) = 1 \<and> paid r0 g0 (servers s ! 0) (shared s)"

lemma budgeted_step:
  assumes "budgeted r0 g0 s" "one_process e"
  shows "budgeted r0 g0 (meta_step e s)"
proof -
  note born = meta_step_law(1) [of s e]
  show ?thesis
  proof (cases rule: meta_step_cases [of e s])
    case operator
    with assms born show ?thesis
      by (cases e) (auto simp: budgeted_def one_process_def operate_def on_cache_def on_current_def paid_def)
  next
    case (moves i c v x)
    from assms(1) moves(2) have "gen (clients s ! i) = 0" by (auto simp: budgeted_def born_right_def list_all_length)
    with section_paid [OF moves(3), of r0 g0] assms(1) moves(4) born show ?thesis by (simp add: budgeted_def)
  qed (use assms in simp)
qed

lemma budgeted_run: "budgeted r0 g0 s \<Longrightarrow> list_all one_process es \<Longrightarrow> budgeted r0 g0 (fold meta_step es s)"
  by (induction es arbitrary: s) (simp_all add: budgeted_step)

lemma one_server:
  "length (servers s) = 1 \<Longrightarrow> list_all one_process es \<Longrightarrow> length (servers (fold meta_step es s)) = 1"
proof (induction es arbitrary: s)
  case (Cons e es)
  have "length (servers (meta_step e s)) = 1"
  proof (cases rule: meta_step_cases [of e s])
    case operator
    with Cons.prems show ?thesis by (cases e) (auto simp: one_process_def operate_def on_cache_def on_current_def)
  qed (use Cons.prems in simp_all)
  with Cons show ?case by simp
qed simp

text \<open>
  Bound (escape b). In a process that is not restarted, from the moment the operator adds the retry budget the retries of
  all clients together are at most three, plus the answers in time since then times a tenth (104858 / 2^20, in double
  arithmetic), however the load and the failures run.
\<close>

theorem budget_bounds_retries:
  assumes "list_all one_process before" "list_all one_process after"
    "goodput (metrics (shared (meta_run (before @ Add_budget # after) ks))) \<le> 10 ^ 9"
  shows "let m = metrics (shared (meta_run before ks)); m' = metrics (shared (meta_run (before @ Add_budget # after) ks)) in
    (retries m' - retries m) * 2 ^ 20 \<le> 3 * 2 ^ 20 + 104858 * (goodput m' - goodput m)"
proof -
  let ?s = "meta_run before ks" and ?t = "meta_run (before @ Add_budget # after) ks"
  have one: "length (servers ?s) = 1" unfolding meta_run_def
    by (rule one_server) (simp_all add: meta_start_def assms(1))
  have born: "born_right ?s" unfolding meta_run_def by (rule meta_pool.proper_run [OF meta_start_facts(1)])
  have shared: "shared (meta_step Add_budget ?s) = shared ?s" by (simp add: meta_step_def operate_def on_current_def)
  have "budgeted (retries (metrics (shared ?s))) (goodput (metrics (shared ?s))) (meta_step Add_budget ?s)"
    unfolding budgeted_def paid_def shared using meta_step_law(1) [OF born, of Add_budget] one earned_new [of mb_deposit mb_withdraw new_meta_budget]
    by (auto simp: meta_step_def operate_def on_current_def intro!: exI [of _ 0])
  from budgeted_run [OF this assms(2)] obtain b n d where e: "earned mb_deposit mb_withdraw new_meta_budget n d b"
    "retries (metrics (shared ?t)) = retries (metrics (shared ?s)) + int n" "goodput (metrics (shared ?t)) = goodput (metrics (shared ?s)) + int d"
    by (auto simp: budgeted_def paid_def meta_run_def)
  have "0 \<le> goodput (metrics (shared ?s))"
    using metastable_counts [of before ks Good] by simp
  with e(3) assms(3) have d: "int d \<le> 10 ^ 9" by simp
  have ratio: "fl (1 / 10) \<le> (of_int 104858 :: rat) / 2 ^ 20" by (intro dbl.rnd_le is_double_dyadic) simp_all
  have "int n * 2 ^ 20 \<le> 3 * 2 ^ 20 + 104858 * int d"
    by (intro meta_tb.earned_bounded [OF e(1)])
      (use ratio d fl_nonneg [of "1 / 10"] in \<open>simp_all add: new_meta_budget_def BUDGET_RATIO_def\<close>)
  with e(2,3) show ?thesis by (simp add: Let_def)
qed

lemma budget_bounds_retries_witness:
  "retries (metrics (shared (meta_run ([Flush] @ Add_budget # flushed_client) [7]))) = 2 \<and>
   (retries (metrics (shared (meta_run ([Flush] @ Add_budget # flushed_client) [7]))) - retries (metrics (shared (meta_run [Flush] [7])))) * 2 ^ 20 \<le>
     3 * 2 ^ 20 + 104858 * (goodput (metrics (shared (meta_run ([Flush] @ Add_budget # flushed_client) [7]))) -
       goodput (metrics (shared (meta_run [Flush] [7]))))"
proof -
  have t: "fl 2 = 2" using fl_double [OF is_double_int [of 2]] by simp
  have run: "retries (metrics (shared (meta_run ([Flush] @ Add_budget # flushed_client) [7]))) = 2"
    "goodput (metrics (shared (meta_run ([Flush] @ Add_budget # flushed_client) [7]))) = 0"
    by (simp_all add: flushed_client_def numeral_3_eq_3 meta_run_def meta_start_def meta_step_def operate_def on_cache_def on_current_def
        flushall_def meta_section_def attempt_starts_def handle_starts_def cache_get_def new_meta_server_def new_meta_budget_def
        mb_withdraw_def enter_def on_m_def on_inflight_def on_db_def times_out_def attempt_failed_def unwind_def handling_def Let_def
        attempt_counted_def locked_def new_semaphore_def POOL_SIZE_def ATTEMPTS_def take_permit_def give_back_def wake_next_def t)
  have ok: "list_all one_process [Flush]" "list_all one_process flushed_client" by (simp_all add: one_process_def flushed_client_def numeral_3_eq_3)
  from budget_bounds_retries [OF ok, of "[7]"] run show ?thesis by (simp add: Let_def)
qed

text \<open>
  A caller whose timer fires takes its handler down with it: \<^verbatim>\<open>wait_for\<close> cancels what it waits for, so the connection and
  the place in flight are free at once.
\<close>

lemma timeout_leaves_nothing:
  assumes "phase c = Querying k d"
  shows "db_in_use (fst (snd (times_out i k (c, v, x)))) = db_in_use v - 1 \<and> inflight (fst (snd (times_out i k (c, v, x)))) = inflight v - 1"
  using assms by (simp add: times_out_def attempt_failed_def unwind_def)

subsection \<open>The offered load\<close>

definition offered_rate :: "rat \<Rightarrow> string \<Rightarrow> rat" where
  "offered_rate t escape =
     (if escape \<noteq> ''a'' \<or> t < ESCAPE_AT then OFFERED_RPS
      else let since = fl (t - ESCAPE_AT) in
        if since < DROP_SECONDS then 0
        else fl (OFFERED_RPS * min 1 (fl (fl (since - DROP_SECONDS) / RAMP_BACK_SECONDS))))"

lemma offered_rate_range: "0 \<le> offered_rate t escape \<and> offered_rate t escape \<le> OFFERED_RPS"
proof -
  have d: "fl 180 = 180" using fl_double [OF is_double_int [of 180]] by simp
  have up: "fl (180 * min 1 y) \<le> 180" for y using fl_mono [of "180 * min 1 y" 180] d by simp
  have "0 \<le> fl (180 * min 1 (fl (fl (since - 5) / 8)))" if "5 \<le> since" for since
    using that by (intro fl_nonneg mult_nonneg_nonneg) (auto intro!: fl_nonneg divide_nonneg_pos)
  with up show ?thesis by (auto simp: offered_rate_def OFFERED_RPS_def DROP_SECONDS_def RAMP_BACK_SECONDS_def Let_def not_less)
qed

end
