(* ===== verification/Sim_Fanout.thy ===== *)
theory Sim_Fanout
  imports Sim_Tasks Token_Bucket
begin

text \<open>
  \<^verbatim>\<open>05-failure/06-.../fanout.py\<close>: the gateway that fans a request out to k backends and may hedge every leg, the
  open-model generator that drives it, and the two records a closed-loop generator keeps of one response. A request, a leg and a backend call
  are cut where they can suspend. Clock readings, the timer of a leg (a leg may give up waiting at any moment) and the end of a service
  time are the environment's choice; the draws are arguments of the distributions. Cancelling a call takes effect at once.
\<close>

subsection \<open>Constants, the distributions, the percentile\<close>

definition MS :: rat where "MS = 1000"
definition BACKEND_P50_MS :: rat where "BACKEND_P50_MS = 10"
definition TAIL_RATIO :: rat where "TAIL_RATIO = 20"
definition TAIL_THRESHOLD_MS :: rat where "TAIL_THRESHOLD_MS = fl (BACKEND_P50_MS * TAIL_RATIO)"
definition HEDGE_BUDGET_RATIO :: rat where "HEDGE_BUDGET_RATIO = fl (5 / 100)"
definition HEDGE_BUCKET_CAPACITY :: rat where "HEDGE_BUCKET_CAPACITY = 20"
definition MAX_RATE :: rat where "MAX_RATE = 400"
definition MAX_BACKEND_CALLS_PER_S :: rat where "MAX_BACKEND_CALLS_PER_S = 10000"

definition cell_rate :: "nat \<Rightarrow> rat" where
  "cell_rate k = min MAX_RATE (fl (MAX_BACKEND_CALLS_PER_S / of_nat k))"

text \<open>
  A service time. \<open>pexp\<close> and \<open>plog\<close> are \<^verbatim>\<open>math.exp\<close> and \<^verbatim>\<open>math.log\<close>; \<open>u\<close>, \<open>g\<close> and \<open>x\<close> stand for the draws
  of \<^verbatim>\<open>random()\<close>, \<^verbatim>\<open>gauss(0, 1)\<close> and \<^verbatim>\<open>expovariate\<close> (a function of its rate).
\<close>

datatype service_dist =
    LogNormal (ln_mu: rat) (ln_sigma: rat)
  | Bimodal (fast_mu: rat) (fast_sigma: rat) (slow_floor: rat) (slow_extra: rat) (p_slow: rat)

definition new_lognormal :: "(rat \<Rightarrow> rat) \<Rightarrow> rat \<Rightarrow> rat \<Rightarrow> service_dist" where
  "new_lognormal plog p50_ms sigma = LogNormal (plog (fl (p50_ms / MS))) sigma"

definition new_bimodal :: "(rat \<Rightarrow> rat) \<Rightarrow> rat \<Rightarrow> rat \<Rightarrow> rat \<Rightarrow> rat \<Rightarrow> service_dist" where
  "new_bimodal plog p50_ms slow_floor_ms slow_extra_ms pslow =
     Bimodal (plog (fl (p50_ms / MS))) (fl (15 / 100)) (fl (slow_floor_ms / MS)) (fl (slow_extra_ms / MS)) pslow"

fun service_sample :: "(rat \<Rightarrow> rat) \<Rightarrow> rat \<Rightarrow> rat \<Rightarrow> (rat \<Rightarrow> rat) \<Rightarrow> service_dist \<Rightarrow> rat" where
  "service_sample pexp u g x (LogNormal mu sigma) = pexp (fl (mu + fl (sigma * g)))"
| "service_sample pexp u g x (Bimodal fmu fsigma sfloor sextra pslow) =
     (if u < pslow then fl (sfloor + x (fl (1 / sextra))) else pexp (fl (fmu + fl (fsigma * g))))"

definition Z95 :: rat where "Z95 = fl (16448536269514722 / 10 ^ 16)"

fun p95_ms :: "(rat \<Rightarrow> rat) \<Rightarrow> service_dist \<Rightarrow> rat" where
  "p95_ms pexp (LogNormal mu sigma) = fl (pexp (fl (mu + fl (Z95 * sigma))) * MS)"
| "p95_ms pexp (Bimodal fmu fsigma sfloor sextra pslow) = fl (pexp (fl (fmu + fl (Z95 * fsigma))) * MS)"

definition rank_index :: "nat \<Rightarrow> rat \<Rightarrow> nat" where
  "rank_index n q = nat (min (int n - 1) (max 0 (\<lceil>fl (q * of_nat n)\<rceil> - 1)))"

definition pct_rank :: "rat list \<Rightarrow> rat \<Rightarrow> rat option" where
  "pct_rank sorted_vals q = (if sorted_vals = [] then None else Some (sorted_vals ! rank_index (length sorted_vals) q))"

subsection \<open>The hedge budget\<close>

record fan_bucket =
  fk_ratio :: rat
  fk_capacity :: rat
  fk_tokens :: rat

definition new_fan_bucket :: "rat \<Rightarrow> rat \<Rightarrow> fan_bucket" where
  "new_fan_bucket r cap = \<lparr>fk_ratio = r, fk_capacity = cap, fk_tokens = cap\<rparr>"

definition on_primary :: "fan_bucket \<Rightarrow> fan_bucket" where
  "on_primary b = b\<lparr>fk_tokens := min (fk_capacity b) (fl (fk_tokens b + fk_ratio b))\<rparr>"

definition bucket_take :: "fan_bucket \<Rightarrow> bool \<times> fan_bucket" where
  "bucket_take b = (if 1 \<le> fk_tokens b then (True, b\<lparr>fk_tokens := fl (fk_tokens b - 1)\<rparr>) else (False, b))"

interpretation fan_tb: token_bucket fk_tokens fk_ratio fk_capacity "\<lambda>_. True" on_primary bucket_take
  by unfold_locales (auto simp: on_primary_def bucket_take_def)

subsection \<open>A backend and its calls\<close>

record fan_backend =
  fb_sem :: semaphore
  fb_started :: int
  fb_completed :: int
  fb_cancelled :: int
  busy_s :: rat

definition new_fan_backend :: "nat \<Rightarrow> fan_backend" where
  "new_fan_backend workers = \<lparr>fb_sem = new_semaphore workers, fb_started = 0, fb_completed = 0, fb_cancelled = 0, busy_s = 0\<rparr>"

text \<open>\<open>Scheduled\<close> is a task that has not run yet; \<open>Never_ran\<close> one that was cancelled before it did. \<open>Serving\<close> keeps \<^verbatim>\<open>t0\<close>.\<close>

datatype call_phase = Not_called | Scheduled | In_line | Serving rat | Call_returned | Call_dropped | Never_ran

definition call_runs :: "nat \<Rightarrow> rat \<Rightarrow> fan_backend \<Rightarrow> call_phase \<times> fan_backend" where
  "call_runs i now b =
     (let b1 = b\<lparr>fb_started := fb_started b + 1\<rparr> in
      if locked (fb_sem b1) then (In_line, b1\<lparr>fb_sem := enqueue i (fb_sem b1)\<rparr>)
      else (Serving now, b1\<lparr>fb_sem := take_permit (fb_sem b1)\<rparr>))"

definition leave_worker :: "rat \<Rightarrow> rat \<Rightarrow> fan_backend \<Rightarrow> fan_backend" where
  "leave_worker t0 now b = b\<lparr>busy_s := fl (busy_s b + fl (now - t0)), fb_sem := give_back (fb_sem b)\<rparr>"

definition call_completes :: "rat \<Rightarrow> rat \<Rightarrow> fan_backend \<Rightarrow> fan_backend" where
  "call_completes t0 now b = (let b1 = leave_worker t0 now b in b1\<lparr>fb_completed := fb_completed b1 + 1\<rparr>)"

fun call_cancelled :: "nat \<Rightarrow> rat \<Rightarrow> call_phase \<Rightarrow> fan_backend \<Rightarrow> call_phase \<times> fan_backend" where
  "call_cancelled i now Scheduled b = (Never_ran, b)"
| "call_cancelled i now In_line b =
     (Call_dropped, b\<lparr>fb_sem := cancel_wait i (fb_sem b), fb_cancelled := fb_cancelled b + 1\<rparr>)"
| "call_cancelled i now (Serving t0) b =
     (let b1 = leave_worker t0 now b in (Call_dropped, b1\<lparr>fb_cancelled := fb_cancelled b1 + 1\<rparr>))"
| "call_cancelled i now p b = (p, b)"

subsection \<open>The gateway's legs\<close>

record fan_gateway =
  hedge_delay_s :: "rat option"
  cancel_losers :: bool
  fan_budget :: fan_bucket
  gw_legs :: int
  legs_hedged :: int
  budget_denied :: int
  orphans :: "nat set"

definition new_fan_gateway :: "rat option \<Rightarrow> bool \<Rightarrow> fan_gateway" where
  "new_fan_gateway hedge cancel =
     \<lparr>hedge_delay_s = hedge, cancel_losers = cancel, fan_budget = new_fan_bucket HEDGE_BUDGET_RATIO HEDGE_BUCKET_CAPACITY,
      gw_legs = 0, legs_hedged = 0, budget_denied = 0, orphans = {}\<rparr>"

text \<open>
  A leg: not started, awaiting its only call in its own task (\<open>Direct\<close>), waiting for \<^verbatim>\<open>first\<close> with the timeout, awaiting \<^verbatim>\<open>first\<close>
  after the budget refused, waiting for either copy, or back with whether it hedged. Leg \<open>l\<close>'s calls are the tasks \<open>2 l\<close> and \<open>2 l + 1\<close>.
\<close>

datatype leg_phase = Leg_new | Direct | Timing | Denied | Hedging | Leg_done bool

record fan_leg =
  leg_at :: nat
  leg_does :: leg_phase
  first_call :: call_phase
  second_call :: call_phase

type_synonym leg_part = "fan_leg \<times> fan_gateway \<times> fan_backend"

definition leg_call :: "bool \<Rightarrow> fan_leg \<Rightarrow> call_phase" where
  "leg_call second L = (if second then second_call L else first_call L)"

definition put_call :: "bool \<Rightarrow> call_phase \<Rightarrow> fan_leg \<Rightarrow> fan_leg" where
  "put_call second p L = (if second then L\<lparr>second_call := p\<rparr> else L\<lparr>first_call := p\<rparr>)"

definition call_id :: "nat \<Rightarrow> bool \<Rightarrow> nat" where
  "call_id l second = 2 * l + of_bool second"

definition leg_runs :: "nat \<Rightarrow> rat \<Rightarrow> leg_part \<Rightarrow> leg_part" where
  "leg_runs l now = (\<lambda>(L, g, b).
     let g1 = g\<lparr>gw_legs := gw_legs g + 1\<rparr> in
     case hedge_delay_s g of
       None \<Rightarrow> (let (p, b1) = call_runs (call_id l False) now b in (L\<lparr>leg_does := Direct, first_call := p\<rparr>, g1, b1))
     | Some _ \<Rightarrow> (L\<lparr>leg_does := Timing, first_call := Scheduled\<rparr>, g1\<lparr>fan_budget := on_primary (fan_budget g1)\<rparr>, b))"

text \<open>A copy still pending when the other has answered: cancelled, or parked among the orphans.\<close>

definition settle_loser :: "nat \<Rightarrow> rat \<Rightarrow> bool \<Rightarrow> leg_part \<Rightarrow> leg_part" where
  "settle_loser l now second = (\<lambda>(L, g, b).
     if leg_call second L = Call_returned then (L, g, b)
     else if cancel_losers g then (let (p, b1) = call_cancelled (call_id l second) now (leg_call second L) b in (put_call second p L, g, b1))
     else (L, g\<lparr>orphans := insert (call_id l second) (orphans g)\<rparr>, b))"

definition leg_returns :: "bool \<Rightarrow> leg_part \<Rightarrow> leg_part" where
  "leg_returns hedged = (\<lambda>(L, g, b). (L\<lparr>leg_does := Leg_done hedged\<rparr>, g, b))"

definition hedge_or_wait :: "leg_part \<Rightarrow> leg_part" where
  "hedge_or_wait = (\<lambda>(L, g, b).
     let (ok, bucket') = bucket_take (fan_budget g); g1 = g\<lparr>fan_budget := bucket'\<rparr> in
     if ok then (L\<lparr>leg_does := Hedging, second_call := Scheduled\<rparr>, g1\<lparr>legs_hedged := legs_hedged g1 + 1\<rparr>, b)
     else (L\<lparr>leg_does := Denied\<rparr>, g1\<lparr>budget_denied := budget_denied g1 + 1\<rparr>, b))"

definition leg_wakes :: "nat \<Rightarrow> rat \<Rightarrow> leg_part \<Rightarrow> leg_part option" where
  "leg_wakes l now = (\<lambda>(L, g, b). (case leg_does L of
       Timing \<Rightarrow> Some (if first_call L = Call_returned then leg_returns False (L, g, b) else hedge_or_wait (L, g, b))
     | Denied \<Rightarrow> if first_call L = Call_returned then Some (leg_returns False (L, g, b)) else None
     | Hedging \<Rightarrow> if first_call L = Call_returned \<or> second_call L = Call_returned
         then Some (leg_returns True (settle_loser l now True (settle_loser l now False (L, g, b)))) else None
     | _ \<Rightarrow> None))"

text \<open>The end of a service time: the call returns; a leg that awaits it directly returns with it, and an orphan is no longer one.\<close>

definition call_ends :: "nat \<Rightarrow> bool \<Rightarrow> rat \<Rightarrow> rat \<Rightarrow> leg_part \<Rightarrow> leg_part" where
  "call_ends l second t0 now = (\<lambda>(L, g, b).
     let L1 = put_call second Call_returned L in
     (if leg_does L = Direct then L1\<lparr>leg_does := Leg_done False\<rparr> else L1,
      g\<lparr>orphans := orphans g - {call_id l second}\<rparr>, call_completes t0 now b))"

subsection \<open>The open-model harness\<close>

datatype req_phase = Not_sent | Sent rat | Gathering rat | Answered_req bool

record fan_cell =
  lat_ms :: "rat list"
  late_ms :: "rat list"
  arrival_wall :: rat
  hedged_requests :: int

record fan_sys =
  fan_backends :: "fan_backend list"
  fan_gw :: fan_gateway
  fan_legs :: "fan_leg list"
  fan_requests :: "req_phase list"
  fan_cell :: fan_cell
  next_send :: nat
  asleep :: bool

definition fan_start :: "nat \<Rightarrow> nat \<Rightarrow> rat option \<Rightarrow> bool \<Rightarrow> nat \<Rightarrow> fan_sys" where
  "fan_start k workers hedge cancel n =
     \<lparr>fan_backends = replicate k (new_fan_backend workers), fan_gw = new_fan_gateway hedge cancel,
      fan_legs = map (\<lambda>l. \<lparr>leg_at = l mod k, leg_does = Leg_new, first_call = Not_called, second_call = Not_called\<rparr>) [0..<k * n],
      fan_requests = replicate n Not_sent,
      fan_cell = \<lparr>lat_ms = [], late_ms = [], arrival_wall = 0, hedged_requests = 0\<rparr>, next_send = 0, asleep = False\<rparr>"

text \<open>The schedule is computed before the run, from the draws of \<^verbatim>\<open>expovariate(rate)\<close>.\<close>

fun arrival_schedule :: "rat \<Rightarrow> rat list \<Rightarrow> rat list" where
  "arrival_schedule acc [] = []"
| "arrival_schedule acc (x # xs) = (let acc' = fl (acc + x) in acc' # arrival_schedule acc' xs)"

text \<open>
  The dispatch loop at its next arrival. When that is not due yet (\<open>now\<close>) the loop sleeps, as long as the environment likes; then the
  generator's lateness is recorded (\<open>late\<close>) and the request's task created. After the last one the wall time of the arrivals is set.
\<close>

definition dispatch :: "rat \<Rightarrow> rat list \<Rightarrow> rat \<Rightarrow> rat \<Rightarrow> rat \<Rightarrow> fan_sys \<Rightarrow> fan_sys" where
  "dispatch t0 offsets now late after s =
     (let j = next_send s; due = fl (t0 + offsets ! j); c = fan_cell s in
      if length (fan_requests s) \<le> j then s
      else if \<not> asleep s \<and> now < due then s\<lparr>asleep := True\<rparr>
      else s\<lparr>fan_requests := (fan_requests s)[j := Sent due], next_send := j + 1, asleep := False,
             fan_cell := c\<lparr>late_ms := late_ms c @ [fl (fl (late - due) * MS)],
               arrival_wall := (if j + 1 = length (fan_requests s) then fl (after - t0) else arrival_wall c)\<rparr>\<rparr>)"

definition legs_of :: "nat \<Rightarrow> fan_sys \<Rightarrow> fan_leg list" where
  "legs_of r s = (let k = length (fan_backends s) in map (\<lambda>i. fan_legs s ! (r * k + i)) [0..<k])"

definition request_returns :: "nat \<Rightarrow> rat \<Rightarrow> rat \<Rightarrow> fan_sys \<Rightarrow> fan_sys" where
  "request_returns r due fin s =
     (if list_all (\<lambda>L. \<exists>h\<in>{True, False}. leg_does L = Leg_done h) (legs_of r s)
      then let hedged = list_ex (\<lambda>L. leg_does L = Leg_done True) (legs_of r s); c = fan_cell s in
        s\<lparr>fan_requests := (fan_requests s)[r := Answered_req hedged],
          fan_cell := c\<lparr>lat_ms := lat_ms c @ [fl (fl (fin - due) * MS)],
            hedged_requests := (if hedged then hedged_requests c + 1 else hedged_requests c)\<rparr>\<rparr>
      else s)"

datatype fan_event =
    Dispatches rat rat rat
  | One_runs nat
  | Leg_runs nat rat
  | Leg_wakes nat rat
  | Call_runs nat bool rat
  | Gets_worker nat bool rat
  | Serves nat bool rat
  | One_returns nat rat

definition leg_section :: "fan_event \<Rightarrow> nat \<Rightarrow> leg_part \<Rightarrow> leg_part option" where
  "leg_section e l = (\<lambda>(L, g, b). (case e of
       Leg_runs _ now \<Rightarrow> if leg_does L = Leg_new then Some (leg_runs l now (L, g, b)) else None
     | Leg_wakes _ now \<Rightarrow> leg_wakes l now (L, g, b)
     | Call_runs _ sec now \<Rightarrow> if leg_call sec L = Scheduled
         then (let (p, b1) = call_runs (call_id l sec) now b in Some (put_call sec p L, g, b1)) else None
     | Gets_worker _ sec now \<Rightarrow> if leg_call sec L = In_line \<and> woken (call_id l sec) (fb_sem b)
         then Some (put_call sec (Serving now) L, g, b\<lparr>fb_sem := resume (call_id l sec) (fb_sem b)\<rparr>) else None
     | Serves _ sec now \<Rightarrow> (case leg_call sec L of Serving t0 \<Rightarrow> Some (call_ends l sec t0 now (L, g, b)) | _ \<Rightarrow> None)
     | _ \<Rightarrow> None))"

definition leg_step :: "fan_event \<Rightarrow> nat \<Rightarrow> fan_sys \<Rightarrow> fan_sys" where
  "leg_step e l s =
     (if length (fan_legs s) \<le> l then s
      else let L = fan_legs s ! l in
        case leg_section e l (L, fan_gw s, fan_backends s ! leg_at L) of
          None \<Rightarrow> s
        | Some (L', g', b') \<Rightarrow> s\<lparr>fan_legs := (fan_legs s)[l := L'], fan_gw := g', fan_backends := (fan_backends s)[leg_at L := b']\<rparr>)"

definition gathering :: "nat \<Rightarrow> fan_sys \<Rightarrow> bool" where
  "gathering r s = (r < length (fan_requests s) \<and> (case fan_requests s ! r of Gathering _ \<Rightarrow> True | _ \<Rightarrow> False))"

fun fan_step :: "rat \<Rightarrow> rat list \<Rightarrow> fan_event \<Rightarrow> fan_sys \<Rightarrow> fan_sys" where
  "fan_step t0 offsets (Dispatches now late after) s = dispatch t0 offsets now late after s"
| "fan_step t0 offsets (One_runs r) s =
     (if r < length (fan_requests s)
      then case fan_requests s ! r of Sent due \<Rightarrow> s\<lparr>fan_requests := (fan_requests s)[r := Gathering due]\<rparr> | _ \<Rightarrow> s else s)"
| "fan_step t0 offsets (One_returns r fin) s =
     (if r < length (fan_requests s)
      then case fan_requests s ! r of Gathering due \<Rightarrow> request_returns r due fin s | _ \<Rightarrow> s else s)"
| "fan_step t0 offsets (Leg_runs l now) s =
     (if gathering (l div length (fan_backends s)) s then leg_step (Leg_runs l now) l s else s)"
| "fan_step t0 offsets (Leg_wakes l now) s = leg_step (Leg_wakes l now) l s"
| "fan_step t0 offsets (Call_runs l sec now) s = leg_step (Call_runs l sec now) l s"
| "fan_step t0 offsets (Gets_worker l sec now) s = leg_step (Gets_worker l sec now) l s"
| "fan_step t0 offsets (Serves l sec now) s = leg_step (Serves l sec now) l s"

definition run_open_cell :: "rat \<Rightarrow> rat list \<Rightarrow> fan_event list \<Rightarrow> nat \<Rightarrow> nat \<Rightarrow> rat option \<Rightarrow> bool \<Rightarrow> fan_sys" where
  "run_open_cell t0 offsets es k workers hedge cancel =
     fold (fan_step t0 offsets) es (fan_start k workers hedge cancel (length offsets))"

text \<open>The last \<^verbatim>\<open>gather\<close> has returned.\<close>

definition all_answered :: "fan_sys \<Rightarrow> bool" where
  "all_answered s = list_all (\<lambda>p. \<exists>h\<in>{True, False}. p = Answered_req h) (fan_requests s)"

text \<open>What the cell reads off the backends at the end, and its summary. \<open>fsum\<close> is the built-in \<^verbatim>\<open>sum\<close> on floats.\<close>

record cell_summary =
  su_n :: nat
  su_p50 :: "rat option"
  su_p95 :: "rat option"
  su_p99 :: "rat option"
  su_max :: "rat option"
  su_tail :: rat
  su_late_p99 :: "rat option"
  su_backend_rps :: rat
  su_svc_ms_per_req :: rat
  su_calls_per_req :: rat
  su_hedge_rate :: rat

definition backend_started :: "fan_sys \<Rightarrow> int" where
  "backend_started s = sum_list (map fb_started (fan_backends s))"

definition backend_cancelled :: "fan_sys \<Rightarrow> int" where
  "backend_cancelled s = sum_list (map fb_cancelled (fan_backends s))"

definition backend_busy_ms :: "(rat list \<Rightarrow> rat) \<Rightarrow> fan_sys \<Rightarrow> rat" where
  "backend_busy_ms fsum s = fl (fsum (map busy_s (fan_backends s)) * MS)"

definition cell_report :: "(rat list \<Rightarrow> rat) \<Rightarrow> fan_sys \<Rightarrow> cell_summary" where
  "cell_report fsum s =
     (let lat = sort (lat_ms (fan_cell s)); late = sort (late_ms (fan_cell s));
          over = length (filter (\<lambda>v. TAIL_THRESHOLD_MS < v) lat);
          per_req = (\<lambda>x. fl (x / of_nat (max 1 (length lat)))) in
      \<lparr>su_n = length lat, su_p50 = pct_rank lat (1 / 2), su_p95 = pct_rank lat (fl (95 / 100)),
       su_p99 = pct_rank lat (fl (99 / 100)), su_max = (if lat = [] then None else Some (last lat)),
       su_tail = per_req (fl (100 * of_nat over)), su_late_p99 = pct_rank late (fl (99 / 100)),
       su_backend_rps = fl (of_int (backend_started s) / max (fl (1 / 10 ^ 9)) (arrival_wall (fan_cell s))),
       su_svc_ms_per_req = per_req (backend_busy_ms fsum s), su_calls_per_req = per_req (of_int (backend_started s)),
       su_hedge_rate = per_req (fl (100 * of_int (hedged_requests (fan_cell s))))\<rparr>)"

subsection \<open>The closed-loop generator\<close>

text \<open>
  One virtual user: the readings before and after each of its requests give two records of the request, from when it was
  sent and from when it was due. The loop ends at the first start after the deadline.
\<close>

fun vu_loop :: "rat \<Rightarrow> rat \<Rightarrow> rat \<Rightarrow> rat \<Rightarrow> nat \<Rightarrow> nat \<Rightarrow> (rat \<times> rat) list \<Rightarrow> (rat \<times> rat) list" where
  "vu_loop t0 deadline nominal_rate interval v j [] = []"
| "vu_loop t0 deadline nominal_rate interval v j ((start, fin) # readings) =
     (if deadline \<le> start then []
      else let due = fl (fl (t0 + fl (of_nat v / nominal_rate)) + fl (of_nat j * interval)) in
        (fl (fl (fin - start) * MS), fl (fl (fin - min start due) * MS)) #
        vu_loop t0 deadline nominal_rate interval v (j + 1) readings)"

text \<open>All users together; the order in which their records interleave does not matter to a report, which sorts them.\<close>

definition run_closed_cell :: "rat \<Rightarrow> rat \<Rightarrow> rat \<Rightarrow> (rat \<times> rat) list list \<Rightarrow> (rat \<times> rat) list" where
  "run_closed_cell t0 seconds nominal_rate readings =
     (let vus = length readings; interval = fl (of_nat vus / nominal_rate); deadline = fl (t0 + seconds) in
      concat (map (\<lambda>v. vu_loop t0 deadline nominal_rate interval v 0 (readings ! v)) [0..<vus]))"

subsection \<open>What a section does to the calls\<close>

fun call_stance :: "call_phase \<Rightarrow> stance" where
  "call_stance In_line = In_queue" | "call_stance (Serving t) = Using" | "call_stance _ = Outside"

definition call_views :: "fan_leg list \<Rightarrow> (nat \<times> call_phase) list" where
  "call_views ls = concat (map (\<lambda>L. [(leg_at L, first_call L), (leg_at L, second_call L)]) ls)"

definition stance_at :: "nat \<Rightarrow> nat \<times> call_phase \<Rightarrow> stance" where
  "stance_at x c = (if fst c = x then call_stance (snd c) else Outside)"

lemma call_simps [simp]:
  "leg_call sec (put_call sec p L) = p" "leg_call (\<not> sec) (put_call sec p L) = leg_call (\<not> sec) L"
  "leg_at (put_call sec p L) = leg_at L" "leg_does (put_call sec p L) = leg_does L"
  "leg_call sec (L\<lparr>leg_does := d\<rparr>) = leg_call sec L" "put_call sec (leg_call sec L) L = L"
  by (simp_all add: leg_call_def put_call_def)

lemma call_views_simps [simp]:
  "call_views [] = []" "call_views (L # ls) = (leg_at L, first_call L) # (leg_at L, second_call L) # call_views ls"
  by (simp_all add: call_views_def)

lemma length_call_views [simp]: "length (call_views ls) = 2 * length ls"
  by (induction ls) simp_all

lemma nth_call_views: "l < length ls \<Longrightarrow> call_views ls ! call_id l sec = (leg_at (ls ! l), leg_call sec (ls ! l))"
proof (induction ls arbitrary: l)
  case (Cons L ls)
  then show ?case by (cases l; cases sec) (auto simp: call_id_def leg_call_def)
qed simp

lemma put_call_views:
  "l < length ls \<Longrightarrow> call_views (ls[l := (put_call sec p (ls ! l))\<lparr>leg_does := d\<rparr>]) =
     (call_views ls)[call_id l sec := (leg_at (ls ! l), p)]"
proof (induction ls arbitrary: l)
  case (Cons L ls)
  then show ?case by (cases l; cases sec) (simp_all add: call_id_def put_call_def)
qed simp

text \<open>A section of a leg moves one of its calls at most, and the semaphore of its backend as that call's stance says.\<close>

lemma cancelled_moves:
  "call_cancelled i now p b = (p', b') \<Longrightarrow> task_move i (fb_sem b) (call_stance p) (call_stance p') (fb_sem b')"
  by (cases p) (auto simp: leave_worker_def Let_def)

lemma call_runs_moves:
  "call_runs i now b = (p, b') \<Longrightarrow> task_move i (fb_sem b) Outside (call_stance p) (fb_sem b')"
  by (auto simp: call_runs_def Let_def split: if_splits)

definition moves_call :: "nat \<Rightarrow> leg_part \<Rightarrow> leg_part \<Rightarrow> bool" where
  "moves_call l = (\<lambda>(L, g, b) (L', g', b'). \<exists>sec p. L' = (put_call sec p L)\<lparr>leg_does := leg_does L'\<rparr> \<and>
     task_move (call_id l sec) (fb_sem b) (call_stance (leg_call sec L)) (call_stance p) (fb_sem b'))"

lemma moves_callI:
  "L' = (put_call sec p L)\<lparr>leg_does := d\<rparr> \<Longrightarrow>
   task_move (call_id l sec) (fb_sem b) (call_stance (leg_call sec L)) (call_stance p) (fb_sem b') \<Longrightarrow>
   moves_call l (L, g, b) (L', g', b')"
  unfolding moves_call_def by auto

lemma moves_call_same: "fb_sem b' = fb_sem b \<Longrightarrow> moves_call l (L, g, b) (L\<lparr>leg_does := d\<rparr>, g', b')"
  by (rule moves_callI [where sec = False and p = "leg_call False L"]) simp_all

lemma settle_moves:
  "settle_loser l now sec (L, g, b) = (L', g', b') \<Longrightarrow>
     \<exists>p. L' = put_call sec p L \<and> task_move (call_id l sec) (fb_sem b) (call_stance (leg_call sec L)) (call_stance p) (fb_sem b') \<and>
       (leg_call sec L = Call_returned \<longrightarrow> L' = L \<and> b' = b \<and> g' = g)"
proof (cases "leg_call sec L = Call_returned \<or> \<not> cancel_losers g")
  case True
  assume "settle_loser l now sec (L, g, b) = (L', g', b')"
  with True show ?thesis
    by (intro exI [of _ "leg_call sec L"]) (auto simp: settle_loser_def split: if_splits)
next
  case False
  assume "settle_loser l now sec (L, g, b) = (L', g', b')"
  with False show ?thesis
    by (auto simp: settle_loser_def case_prod_beta Let_def cancelled_moves [OF prod.collapse [symmetric]])
qed

lemma hedging_wake_moves:
  assumes "first_call L = Call_returned \<or> second_call L = Call_returned"
    and "settle_loser l now True (settle_loser l now False (L, g, b)) = (L', g', b')"
  shows "moves_call l (L, g, b) (L'\<lparr>leg_does := d\<rparr>, g', b')"
proof -
  obtain L1 g1 b1 where one: "settle_loser l now False (L, g, b) = (L1, g1, b1)" by (metis prod_cases3)
  with assms(2) have two: "settle_loser l now True (L1, g1, b1) = (L', g', b')" by simp
  obtain p where p: "L1 = put_call False p L"
      "task_move (call_id l False) (fb_sem b) (call_stance (leg_call False L)) (call_stance p) (fb_sem b1)"
      "leg_call False L = Call_returned \<Longrightarrow> L1 = L \<and> b1 = b \<and> g1 = g"
    using settle_moves [OF one] by blast
  obtain q where q: "L' = put_call True q L1"
      "task_move (call_id l True) (fb_sem b1) (call_stance (leg_call True L1)) (call_stance q) (fb_sem b')"
      "leg_call True L1 = Call_returned \<Longrightarrow> L' = L1 \<and> b' = b1 \<and> g' = g1"
    using settle_moves [OF two] by blast
  show ?thesis
  proof (cases "first_call L = Call_returned")
    case True
    then have "L1 = L" "b1 = b" using p(3) by (simp_all add: leg_call_def)
    with q show ?thesis by (intro moves_callI [where sec = True and p = q and d = d]) simp_all
  next
    case False
    with assms(1) have "leg_call True L1 = Call_returned" using p(1) by (simp add: leg_call_def put_call_def)
    then have "L' = L1" "b' = b1" using q(3) by simp_all
    with p show ?thesis by (intro moves_callI [where sec = False and p = p and d = d]) simp_all
  qed
qed

lemma leg_wakes_moves:
  assumes "leg_wakes l now (L, g, b) = Some (L', g', b')" "leg_does L = Timing \<Longrightarrow> second_call L = Not_called"
  shows "moves_call l (L, g, b) (L', g', b')"
proof (cases "leg_does L = Hedging")
  case True
  with assms(1) have ret: "first_call L = Call_returned \<or> second_call L = Call_returned"
      and e: "leg_returns True (settle_loser l now True (settle_loser l now False (L, g, b))) = (L', g', b')"
    by (auto simp: leg_wakes_def split: if_splits)
  obtain M h c where s: "settle_loser l now True (settle_loser l now False (L, g, b)) = (M, h, c)" by (metis prod_cases3)
  with e have "L' = M\<lparr>leg_does := Leg_done True\<rparr>" "g' = h" "b' = c" by (simp_all add: leg_returns_def)
  then show ?thesis using hedging_wake_moves [OF ret s, of "Leg_done True"] by simp
next
  case False
  show ?thesis
  proof (cases "leg_does L = Timing \<and> first_call L \<noteq> Call_returned \<and> fst (bucket_take (fan_budget g))")
    case True
    then show ?thesis using assms
      by (intro moves_callI [where sec = True and p = Scheduled and d = Hedging])
        (auto simp: leg_wakes_def hedge_or_wait_def case_prod_beta Let_def leg_call_def put_call_def)
  next
    case False
    with \<open>leg_does L \<noteq> Hedging\<close> assms(1) have "fb_sem b' = fb_sem b" "\<exists>d. L' = L\<lparr>leg_does := d\<rparr>"
      by (auto simp: leg_wakes_def hedge_or_wait_def leg_returns_def case_prod_beta Let_def split: leg_phase.splits if_splits)
    then show ?thesis using moves_call_same by blast
  qed
qed

text \<open>What a leg's calls can be, by what the leg does.\<close>

fun underway :: "call_phase \<Rightarrow> bool" where
  "underway Scheduled = True" | "underway In_line = True" | "underway (Serving t) = True" | "underway _ = False"

definition still_due :: "call_phase \<Rightarrow> bool" where
  "still_due p = (underway p \<or> p = Call_returned)"

definition leg_ok :: "bool \<Rightarrow> bool \<Rightarrow> fan_leg \<Rightarrow> bool" where
  "leg_ok direct cancel L = (case leg_does L of
     Leg_new \<Rightarrow> first_call L = Not_called \<and> second_call L = Not_called
   | Direct \<Rightarrow> direct \<and> underway (first_call L) \<and> first_call L \<noteq> Scheduled \<and> second_call L = Not_called
   | Timing \<Rightarrow> \<not> direct \<and> still_due (first_call L) \<and> second_call L = Not_called
   | Denied \<Rightarrow> \<not> direct \<and> still_due (first_call L) \<and> second_call L = Not_called
   | Hedging \<Rightarrow> \<not> direct \<and> still_due (first_call L) \<and> still_due (second_call L)
   | Leg_done hedged \<Rightarrow>
       (if hedged then \<not> direct \<and> (\<forall>sec\<in>{False, True}. leg_call sec L \<noteq> Not_called \<and>
            (if cancel then \<not> underway (leg_call sec L) else still_due (leg_call sec L)))
        else first_call L = Call_returned \<and> second_call L = Not_called))"

definition on_calls :: "(call_phase \<Rightarrow> bool) \<Rightarrow> fan_leg \<Rightarrow> int" where
  "on_calls P L = of_bool (P (first_call L)) + of_bool (P (second_call L))"

fun ran :: "call_phase \<Rightarrow> bool" where
  "ran Not_called = False" | "ran Scheduled = False" | "ran Never_ran = False" | "ran _ = True"

datatype fan_account = Legs_begun | Legs_hedged | Calls_started nat | Calls_completed nat | Calls_cancelled nat

fun account_weight :: "fan_account \<Rightarrow> fan_leg \<Rightarrow> int" where
  "account_weight Legs_begun L = of_bool (leg_does L \<noteq> Leg_new)"
| "account_weight Legs_hedged L = of_bool (second_call L \<noteq> Not_called)"
| "account_weight (Calls_started x) L = (if leg_at L = x then on_calls ran L else 0)"
| "account_weight (Calls_completed x) L = (if leg_at L = x then on_calls (\<lambda>p. p = Call_returned) L else 0)"
| "account_weight (Calls_cancelled x) L = (if leg_at L = x then on_calls (\<lambda>p. p = Call_dropped) L else 0)"

fun account_value :: "fan_account \<Rightarrow> fan_gateway \<Rightarrow> (nat \<Rightarrow> fan_backend) \<Rightarrow> int" where
  "account_value Legs_begun g bs = gw_legs g"
| "account_value Legs_hedged g bs = legs_hedged g"
| "account_value (Calls_started x) g bs = fb_started (bs x)"
| "account_value (Calls_completed x) g bs = fb_completed (bs x)"
| "account_value (Calls_cancelled x) g bs = fb_cancelled (bs x)"

text \<open>What a section keeps: the mode of the gateway, the leg's backend and shape, and how the counters move.\<close>

definition section_law :: "leg_part \<Rightarrow> leg_part \<Rightarrow> bool" where
  "section_law = (\<lambda>(L, g, b) (L', g', b'). leg_at L' = leg_at L \<and>
     hedge_delay_s g' = hedge_delay_s g \<and> cancel_losers g' = cancel_losers g \<and>
     gw_legs g' - of_bool (leg_does L' \<noteq> Leg_new) = gw_legs g - of_bool (leg_does L \<noteq> Leg_new) \<and>
     legs_hedged g' - of_bool (second_call L' \<noteq> Not_called) = legs_hedged g - of_bool (second_call L \<noteq> Not_called) \<and>
     fb_started b' - on_calls ran L' = fb_started b - on_calls ran L \<and>
     fb_completed b' - on_calls (\<lambda>p. p = Call_returned) L' = fb_completed b - on_calls (\<lambda>p. p = Call_returned) L \<and>
     fb_cancelled b' - on_calls (\<lambda>p. p = Call_dropped) L' = fb_cancelled b - on_calls (\<lambda>p. p = Call_dropped) L)"

lemma section_law_trans: "section_law x y \<Longrightarrow> section_law y z \<Longrightarrow> section_law x z"
  by (auto simp: section_law_def)

lemma call_cancelled_law:
  assumes "leg_call sec L \<noteq> Not_called"
  shows "section_law (L, g, b) (put_call sec (fst (call_cancelled i now (leg_call sec L) b)) L, g, snd (call_cancelled i now (leg_call sec L) b))"
  using assms by (cases sec; cases "leg_call sec L")
    (simp_all add: section_law_def leg_call_def put_call_def on_calls_def leave_worker_def Let_def)

lemma settle_law:
  assumes "leg_call sec L \<noteq> Not_called"
  shows "section_law (L, g, b) (settle_loser l now sec (L, g, b))"
proof (cases "leg_call sec L = Call_returned \<or> \<not> cancel_losers g")
  case False
  with call_cancelled_law [OF assms, of g b "call_id l sec" now] show ?thesis
    by (simp add: settle_loser_def case_prod_beta Let_def)
qed (auto simp: settle_loser_def section_law_def)

lemma settle_other: "settle_loser l now sec (L, g, b) = (L', g', b') \<Longrightarrow> leg_call (\<not> sec) L' = leg_call (\<not> sec) L \<and> leg_does L' = leg_does L"
  by (auto simp: settle_loser_def case_prod_beta Let_def split: if_splits)

lemma hedging_ends_law:
  assumes "first_call L \<noteq> Not_called" "second_call L \<noteq> Not_called" "leg_does L = Hedging"
  shows "section_law (L, g, b) (leg_returns True (settle_loser l now True (settle_loser l now False (L, g, b))))"
proof -
  obtain L1 g1 b1 where one: "settle_loser l now False (L, g, b) = (L1, g1, b1)" by (metis prod_cases3)
  have first: "section_law (L, g, b) (L1, g1, b1)" using settle_law [of False L g b l now] assms(1) one by (simp add: leg_call_def)
  have "leg_call True L1 \<noteq> Not_called" using settle_other [OF one] assms(2) by (simp add: leg_call_def)
  from settle_law [OF this, of g1 b1 l now] first
  have both: "section_law (L, g, b) (settle_loser l now True (L1, g1, b1))" using section_law_trans by blast
  obtain L2 g2 b2 where two: "settle_loser l now True (L1, g1, b1) = (L2, g2, b2)" by (metis prod_cases3)
  have "leg_does L2 = Hedging" using settle_other [OF one] settle_other [OF two] assms(3) by simp
  with both show ?thesis unfolding one two by (simp add: section_law_def leg_returns_def on_calls_def)
qed

lemma still_due_facts [simp]:
  "\<not> still_due Not_called" "\<not> still_due Call_dropped" "\<not> still_due Never_ran" "still_due Scheduled" "still_due In_line" "still_due (Serving t)" "still_due Call_returned"
  by (simp_all add: still_due_def)

lemma cancelled_settled:
  "p \<noteq> Not_called \<Longrightarrow> \<not> underway (fst (call_cancelled i now p b)) \<and> fst (call_cancelled i now p b) \<noteq> Not_called"
  by (cases p) (simp_all add: Let_def)

lemma settled_call:
  assumes "settle_loser l now sec (L, g, b) = (L', g', b')" "still_due (leg_call sec L)"
  shows "cancel_losers g' = cancel_losers g" "hedge_delay_s g' = hedge_delay_s g" "leg_call sec L' \<noteq> Not_called"
    "if cancel_losers g then \<not> underway (leg_call sec L') else still_due (leg_call sec L')"
proof -
  have "leg_call sec L \<noteq> Not_called" using assms(2) by auto
  note cancelled_settled [OF this, of "call_id l sec" now b]
  with assms show "cancel_losers g' = cancel_losers g" "hedge_delay_s g' = hedge_delay_s g" "leg_call sec L' \<noteq> Not_called"
    "if cancel_losers g then \<not> underway (leg_call sec L') else still_due (leg_call sec L')"
    by (auto simp: settle_loser_def case_prod_beta Let_def split: if_splits)
qed

abbreviation fits :: "fan_gateway \<Rightarrow> fan_leg \<Rightarrow> bool" where
  "fits g L \<equiv> leg_ok (hedge_delay_s g = None) (cancel_losers g) L"

definition lawful :: "nat \<Rightarrow> leg_part \<Rightarrow> leg_part \<Rightarrow> bool" where
  "lawful l x y \<longleftrightarrow> section_law x y \<and> moves_call l x y \<and> fits (fst (snd y)) (fst y)"

lemma leg_runs_lawful:
  assumes "leg_does L = Leg_new" "fits g L"
  shows "lawful l (L, g, b) (leg_runs l now (L, g, b))"
proof (cases "hedge_delay_s g")
  case None
  obtain p b1 where run: "call_runs (call_id l False) now b = (p, b1)" by force
  then have "p = In_line \<or> p = Serving now" and cnt: "fb_started b1 = fb_started b + 1" "fb_completed b1 = fb_completed b" "fb_cancelled b1 = fb_cancelled b"
    by (auto simp: call_runs_def Let_def split: if_splits)
  then have p: "ran p" "underway p" "p \<noteq> Scheduled" "p \<noteq> Call_returned" "p \<noteq> Call_dropped" by auto
  have e: "leg_runs l now (L, g, b) = (L\<lparr>leg_does := Direct, first_call := p\<rparr>, g\<lparr>gw_legs := gw_legs g + 1\<rparr>, b1)"
    by (simp add: leg_runs_def None run Let_def)
  have calls: "first_call L = Not_called" "second_call L = Not_called" using assms by (simp_all add: leg_ok_def)
  have "moves_call l (L, g, b) (leg_runs l now (L, g, b))" unfolding e
    by (rule moves_callI [where sec = False and p = p and d = Direct])
      (use call_runs_moves [OF run] calls in \<open>simp_all add: put_call_def leg_call_def\<close>)
  with p calls cnt assms(1) show ?thesis unfolding lawful_def e by (simp add: section_law_def on_calls_def leg_ok_def None)
next
  case (Some d)
  have calls: "first_call L = Not_called" "second_call L = Not_called" using assms by (simp_all add: leg_ok_def)
  obtain g1 where e: "leg_runs l now (L, g, b) = (L\<lparr>leg_does := Timing, first_call := Scheduled\<rparr>, g1, b)"
      and g1: "hedge_delay_s g1 = hedge_delay_s g" "cancel_losers g1 = cancel_losers g" "gw_legs g1 = gw_legs g + 1" "legs_hedged g1 = legs_hedged g"
    by (simp add: leg_runs_def Some Let_def)
  have "moves_call l (L, g, b) (leg_runs l now (L, g, b))" unfolding e
    by (rule moves_callI [where sec = False and p = Scheduled and d = Timing]) (use calls in \<open>simp_all add: put_call_def leg_call_def\<close>)
  with calls g1 assms(1) show ?thesis unfolding lawful_def e by (simp add: section_law_def on_calls_def leg_ok_def Some)
qed

lemma hedging_ends_fit:
  assumes "fits g L" "leg_does L = Hedging" "leg_returns True (settle_loser l now True (settle_loser l now False (L, g, b))) = (L', g', b')"
  shows "fits g' L'"
proof -
  obtain L1 g1 b1 where one: "settle_loser l now False (L, g, b) = (L1, g1, b1)" by (metis prod_cases3)
  obtain L2 g2 b2 where two: "settle_loser l now True (L1, g1, b1) = (L2, g2, b2)" by (metis prod_cases3)
  have due: "still_due (leg_call False L)" "still_due (leg_call True L)" using assms(1,2) by (simp_all add: leg_ok_def leg_call_def)
  have "leg_call True L1 = leg_call True L" "leg_call False L2 = leg_call False L1" using settle_other [OF one] settle_other [OF two] by simp_all
  moreover from this(1) due(2) have "still_due (leg_call True L1)" by simp
  ultimately have "\<forall>sec\<in>{False, True}. leg_call sec L2 \<noteq> Not_called \<and>
      (if cancel_losers g then \<not> underway (leg_call sec L2) else still_due (leg_call sec L2))"
    using settled_call [OF one due(1)] settled_call [OF two] by simp
  moreover have "L' = L2\<lparr>leg_does := Leg_done True\<rparr>" "g' = g2" using assms(3) by (simp_all add: one two leg_returns_def)
  moreover have "hedge_delay_s g2 = hedge_delay_s g" "cancel_losers g2 = cancel_losers g"
    using settled_call(1,2) [OF one due(1)] settled_call(1,2) [OF two] \<open>still_due (leg_call True L1)\<close> by simp_all
  moreover have "hedge_delay_s g \<noteq> None" using assms(1,2) by (simp add: leg_ok_def)
  ultimately show ?thesis by (simp add: leg_ok_def)
qed

lemma leg_wakes_lawful:
  assumes "leg_wakes l now (L, g, b) = Some (L', g', b')" "fits g L"
  shows "lawful l (L, g, b) (L', g', b')"
proof -
  have "leg_does L = Timing \<Longrightarrow> second_call L = Not_called" using assms(2) by (simp add: leg_ok_def)
  note moves = leg_wakes_moves [OF assms(1) this]
  show ?thesis
  proof (cases "leg_does L = Hedging")
    case True
    with assms(1) have e: "leg_returns True (settle_loser l now True (settle_loser l now False (L, g, b))) = (L', g', b')"
      by (auto simp: leg_wakes_def split: if_splits)
    have "first_call L \<noteq> Not_called" "second_call L \<noteq> Not_called" using assms(2) True by (auto simp: leg_ok_def)
    from hedging_ends_law [OF this True, of g b l now] hedging_ends_fit [OF assms(2) True e] moves show ?thesis
      by (simp add: lawful_def e)
  next
    case False
    with assms(1) consider "leg_does L = Timing \<or> leg_does L = Denied" "first_call L = Call_returned"
        "(L', g', b') = leg_returns False (L, g, b)"
      | "leg_does L = Timing" "(L', g', b') = hedge_or_wait (L, g, b)"
      by (cases "leg_does L") (auto simp: leg_wakes_def split: if_splits)
    then have "section_law (L, g, b) (L', g', b') \<and> fits g' L'"
    proof cases
      case 1
      with assms(2) show ?thesis by (auto simp: leg_returns_def section_law_def on_calls_def leg_ok_def)
    next
      case 2
      with assms(2) show ?thesis
        by (cases "fst (bucket_take (fan_budget g))")
          (simp_all add: hedge_or_wait_def case_prod_beta section_law_def on_calls_def leg_ok_def)
    qed
    with moves show ?thesis by (simp add: lawful_def)
  qed
qed

text \<open>Calls that go on: a task's first step, a worker, the end of the service.\<close>

lemma put_fits:
  assumes "fits g L" "underway (leg_call sec L)" "still_due p" "p \<noteq> Scheduled" "leg_does L = Direct \<Longrightarrow> p \<noteq> Call_returned"
  shows "fits g (put_call sec p L)"
  using assms by (cases sec; cases p) (auto simp: leg_ok_def leg_call_def put_call_def split: leg_phase.splits if_splits)

lemma call_runs_lawful:
  assumes "leg_call sec L = Scheduled" "fits g L" "call_runs (call_id l sec) now b = (p, b')"
  shows "lawful l (L, g, b) (put_call sec p L, g, b')"
proof -
  have p: "p = In_line \<or> p = Serving now" and cnt: "fb_started b' = fb_started b + 1" "fb_completed b' = fb_completed b" "fb_cancelled b' = fb_cancelled b"
    using assms(3) by (auto simp: call_runs_def Let_def split: if_splits)
  have "moves_call l (L, g, b) (put_call sec p L, g, b')"
    by (rule moves_callI [where sec = sec and p = p and d = "leg_does L"])
      (use call_runs_moves [OF assms(3)] assms(1) in \<open>simp_all add: put_call_def\<close>)
  moreover have "fits g (put_call sec p L)" using p assms(1,2) by (intro put_fits) auto
  moreover have "section_law (L, g, b) (put_call sec p L, g, b')"
    using p cnt assms(1) by (cases sec) (auto simp: section_law_def on_calls_def put_call_def leg_call_def)
  ultimately show ?thesis by (simp add: lawful_def)
qed

lemma gets_worker_lawful:
  assumes "leg_call sec L = In_line" "woken (call_id l sec) (fb_sem b)" "fits g L"
  shows "lawful l (L, g, b) (put_call sec (Serving now) L, g, b\<lparr>fb_sem := resume (call_id l sec) (fb_sem b)\<rparr>)"
proof -
  have "moves_call l (L, g, b) (put_call sec (Serving now) L, g, b\<lparr>fb_sem := resume (call_id l sec) (fb_sem b)\<rparr>)"
    by (rule moves_callI [where sec = sec and p = "Serving now" and d = "leg_does L"])
      (use assms in \<open>simp_all add: put_call_def\<close>)
  moreover have "fits g (put_call sec (Serving now) L)" using assms by (intro put_fits) auto
  moreover have "section_law (L, g, b) (put_call sec (Serving now) L, g, b\<lparr>fb_sem := resume (call_id l sec) (fb_sem b)\<rparr>)"
    using assms(1) by (cases sec) (auto simp: section_law_def on_calls_def put_call_def leg_call_def)
  ultimately show ?thesis by (simp add: lawful_def)
qed

lemma call_ends_lawful:
  assumes "leg_call sec L = Serving t0" "fits g L"
  shows "lawful l (L, g, b) (call_ends l sec t0 now (L, g, b))"
proof -
  define M where "M = (if leg_does L = Direct then (put_call sec Call_returned L)\<lparr>leg_does := Leg_done False\<rparr> else put_call sec Call_returned L)"
  have e: "call_ends l sec t0 now (L, g, b) = (M, g\<lparr>orphans := orphans g - {call_id l sec}\<rparr>, call_completes t0 now b)"
    by (simp add: call_ends_def M_def Let_def)
  have cnt: "fb_started (call_completes t0 now b) = fb_started b" "fb_completed (call_completes t0 now b) = fb_completed b + 1"
      "fb_cancelled (call_completes t0 now b) = fb_cancelled b" "fb_sem (call_completes t0 now b) = give_back (fb_sem b)"
    by (simp_all add: call_completes_def leave_worker_def Let_def)
  have calls: "first_call M = (if sec then first_call L else Call_returned)" "second_call M = (if sec then Call_returned else second_call L)"
      "leg_does M = (if leg_does L = Direct then Leg_done False else leg_does L)" "leg_at M = leg_at L"
    by (simp_all add: M_def put_call_def)
  have "moves_call l (L, g, b) (call_ends l sec t0 now (L, g, b))" unfolding e
    by (rule moves_callI [where sec = sec and p = Call_returned and d = "leg_does M"])
      (use assms(1) cnt in \<open>auto simp: M_def put_call_def\<close>)
  moreover have "fits g M"
  proof (cases "leg_does L = Direct")
    case True
    with assms have "\<not> sec" "second_call L = Not_called" by (auto simp: leg_ok_def leg_call_def split: if_splits)
    with calls True show ?thesis by (simp add: leg_ok_def)
  next
    case False
    with assms put_fits [of g L sec Call_returned] show ?thesis by (simp add: M_def)
  qed
  moreover have "leg_does L \<noteq> Leg_new" using assms by (cases sec) (auto simp: leg_ok_def leg_call_def)
  then have "section_law (L, g, b) (call_ends l sec t0 now (L, g, b))" unfolding e
    using assms(1) calls cnt by (cases sec) (simp_all add: section_law_def on_calls_def leg_call_def)
  ultimately show ?thesis by (simp add: lawful_def e)
qed

lemma leg_section_lawful:
  assumes "leg_section e l (L, g, b) = Some (L', g', b')" "fits g L"
  shows "lawful l (L, g, b) (L', g', b')"
proof (cases e)
  case (Leg_runs k now)
  with assms(1) have n: "leg_does L = Leg_new" and e: "(L', g', b') = leg_runs l now (L, g, b)"
    by (auto simp: leg_section_def split: if_splits)
  from leg_runs_lawful [OF n assms(2), of l b now] show ?thesis by (simp only: e)
next
  case (Leg_wakes k now)
  with assms(1) have "leg_wakes l now (L, g, b) = Some (L', g', b')" by (simp add: leg_section_def)
  then show ?thesis using leg_wakes_lawful assms(2) by blast
next
  case (Call_runs k sec now)
  with assms(1) have "leg_call sec L = Scheduled" "L' = put_call sec (fst (call_runs (call_id l sec) now b)) L" "g' = g"
      "call_runs (call_id l sec) now b = (fst (call_runs (call_id l sec) now b), b')"
    by (auto simp: leg_section_def case_prod_beta Let_def split: if_splits)
  then show ?thesis using call_runs_lawful assms(2) by metis
next
  case (Gets_worker k sec now)
  with assms show ?thesis using gets_worker_lawful by (auto simp: leg_section_def split: if_splits)
next
  case (Serves k sec now)
  with assms(1) obtain t0 where t: "leg_call sec L = Serving t0" and e: "(L', g', b') = call_ends l sec t0 now (L, g, b)"
    by (auto simp: leg_section_def split: call_phase.splits)
  from call_ends_lawful [OF t assms(2), of l b now] show ?thesis by (simp only: e)
qed (use assms in \<open>simp_all add: leg_section_def\<close>)

subsection \<open>The system\<close>

definition fan_proper :: "fan_sys \<Rightarrow> bool" where
  "fan_proper s \<longleftrightarrow> (\<forall>L\<in>set (fan_legs s). leg_at L < length (fan_backends s) \<and> fits (fan_gw s) L)"

lemma fan_step_cases:
  obtains (others) "fan_legs (fan_step t0 offsets e s) = fan_legs s" "fan_gw (fan_step t0 offsets e s) = fan_gw s"
      "fan_backends (fan_step t0 offsets e s) = fan_backends s"
  | (leg) l where "fan_step t0 offsets e s = leg_step e l s" "\<And>r. e \<noteq> One_runs r" "\<And>r t. e \<noteq> One_returns r t" "\<And>a b c. e \<noteq> Dispatches a b c"
proof (cases e)
  case (Dispatches a b c)
  then show ?thesis by (intro others) (simp_all add: dispatch_def Let_def)
next
  case (One_runs r)
  then show ?thesis by (intro others) (simp_all split: req_phase.split)
next
  case (One_returns r t)
  then show ?thesis by (intro others) (simp_all add: request_returns_def Let_def split: req_phase.split)
next
  case (Leg_runs l now)
  then show ?thesis
    by (cases "gathering (l div length (fan_backends s)) s") (rule leg [of l] others; simp)+
qed (auto intro: leg)

lemma leg_step_cases:
  obtains (stays) "leg_step e l s = s"
  | (moves) L' g' b' where "l < length (fan_legs s)"
      "leg_section e l (fan_legs s ! l, fan_gw s, fan_backends s ! leg_at (fan_legs s ! l)) = Some (L', g', b')"
      "leg_step e l s = s\<lparr>fan_legs := (fan_legs s)[l := L'], fan_gw := g', fan_backends := (fan_backends s)[leg_at (fan_legs s ! l) := b']\<rparr>"
proof (cases "l < length (fan_legs s)")
  case True
  then show ?thesis
    by (cases "leg_section e l (fan_legs s ! l, fan_gw s, fan_backends s ! leg_at (fan_legs s ! l))")
      (auto simp: leg_step_def Let_def intro: stays moves)
qed (auto simp: leg_step_def intro: stays)

text \<open>A step of a proper system leaves legs, gateway and backends alone, or makes a lawful section of one leg.\<close>

lemma fan_step_law:
  assumes "fan_proper s"
  obtains (stays) "fan_legs (fan_step t0 offsets e s) = fan_legs s" "fan_gw (fan_step t0 offsets e s) = fan_gw s"
      "fan_backends (fan_step t0 offsets e s) = fan_backends s"
  | (moves) l L L' g' b b' where "l < length (fan_legs s)" "L = fan_legs s ! l" "b = fan_backends s ! leg_at L"
      "leg_at L < length (fan_backends s)" "leg_section e l (L, fan_gw s, b) = Some (L', g', b')"
      "lawful l (L, fan_gw s, b) (L', g', b')" "fits (fan_gw s) L"
      "fan_legs (fan_step t0 offsets e s) = (fan_legs s)[l := L']" "fan_gw (fan_step t0 offsets e s) = g'"
      "fan_backends (fan_step t0 offsets e s) = (fan_backends s)[leg_at L := b']"
      "fan_requests (fan_step t0 offsets e s) = fan_requests s"
proof (cases rule: fan_step_cases [of t0 offsets e s])
  case (leg l)
  note same = leg(1)
  show ?thesis
  proof (cases rule: leg_step_cases [of e l s])
    case (moves L' g' b')
    have "fits (fan_gw s) (fan_legs s ! l)" "leg_at (fan_legs s ! l) < length (fan_backends s)"
      using assms moves(1) by (simp_all add: fan_proper_def)
    with leg_section_lawful [OF moves(2)] moves show ?thesis by (intro that(2)) (simp_all add: same)
  qed (simp add: that(1) same)
qed (rule that(1))

lemma fan_proper_step: "fan_proper s \<Longrightarrow> fan_proper (fan_step t0 offsets e s)"
proof -
  assume s: "fan_proper s"
  then show ?thesis
  proof (cases rule: fan_step_law [of s t0 offsets e])
    case (moves l L L' g' b b')
    have law: "section_law (L, fan_gw s, b) (L', g', b')" and fit: "fits g' L'" using moves(6) unfolding lawful_def by simp_all
    from law have same: "leg_at L' = leg_at L" "hedge_delay_s g' = hedge_delay_s (fan_gw s)" "cancel_losers g' = cancel_losers (fan_gw s)"
      by (simp_all add: section_law_def)
    have "fits (fan_gw s) L'" using fit unfolding same .
    moreover have "M \<in> set (fan_legs s)" if "M \<in> set ((fan_legs s)[l := L'])" "M \<noteq> L'" for M
      using that set_update_subset_insert by fast
    ultimately show ?thesis using s moves(4) unfolding fan_proper_def moves(8,9,10) same by (metis length_list_update same(1))
  qed (use s in \<open>simp add: fan_proper_def\<close>)
qed

lemma section_law_books:
  assumes "section_law (L, g, bs (leg_at L)) (L', g', b')"
  shows "account_value a g' (bs(leg_at L := b')) = account_value a g bs + account_weight a L' - account_weight a L"
  using assms by (cases a) (auto simp: section_law_def)

lemma nth_list_update_fun: "x < length xs \<Longrightarrow> (\<lambda>i. xs[x := y] ! i) = ((!) xs)(x := y)"
  by (auto simp: nth_list_update fun_eq_iff)

interpretation fan_accounts: task_books "fan_step t0 offsets" fan_legs fan_proper
  "\<lambda>s. account_value a (fan_gw s) ((!) (fan_backends s))" "account_weight a" for t0 offsets a
proof unfold_locales
  fix s :: fan_sys and e
  assume s: "fan_proper s"
  show "fan_proper (fan_step t0 offsets e s) \<and>
    (fan_legs (fan_step t0 offsets e s) = fan_legs s \<and>
     account_value a (fan_gw (fan_step t0 offsets e s)) ((!) (fan_backends (fan_step t0 offsets e s))) =
       account_value a (fan_gw s) ((!) (fan_backends s)) \<or>
     (\<exists>i p. i < length (fan_legs s) \<and> fan_legs (fan_step t0 offsets e s) = (fan_legs s)[i := p] \<and>
        account_value a (fan_gw (fan_step t0 offsets e s)) ((!) (fan_backends (fan_step t0 offsets e s))) =
          account_value a (fan_gw s) ((!) (fan_backends s)) + account_weight a p - account_weight a (fan_legs s ! i)))"
    using s
  proof (cases rule: fan_step_law [of s t0 offsets e])
    case (moves l L L' g' b b')
    have "(!) (fan_backends (fan_step t0 offsets e s)) = ((!) (fan_backends s))(leg_at L := b')"
      using nth_list_update_fun [OF moves(4)] by (simp add: moves(10))
    moreover have "section_law (L, fan_gw s, fan_backends s ! leg_at L) (L', g', b')"
      using moves(3,6) by (simp add: lawful_def)
    ultimately have "account_value a (fan_gw (fan_step t0 offsets e s)) ((!) (fan_backends (fan_step t0 offsets e s))) =
        account_value a (fan_gw s) ((!) (fan_backends s)) + account_weight a L' - account_weight a (fan_legs s ! l)"
      using section_law_books [of L "fan_gw s" "(!) (fan_backends s)" L' g' b' a] moves(2,9) by simp
    then show ?thesis using fan_proper_step [OF s] moves(1,8) by blast
  qed (simp add: fan_proper_step [OF s])
qed

interpretation fan_workers: task_semaphore "fan_step t0 offsets" "\<lambda>s. fb_sem (fan_backends s ! x)" "\<lambda>s. call_views (fan_legs s)" "stance_at x" fan_proper
  for t0 offsets x
proof unfold_locales
  fix s :: fan_sys and e
  assume s: "fan_proper s"
  let ?t = "fan_step t0 offsets e s"
  show "fb_sem (fan_backends ?t ! x) = fb_sem (fan_backends s ! x) \<and> call_views (fan_legs ?t) = call_views (fan_legs s) \<or>
    (\<exists>i p. i < length (call_views (fan_legs s)) \<and> call_views (fan_legs ?t) = (call_views (fan_legs s))[i := p] \<and>
       task_move i (fb_sem (fan_backends s ! x)) (stance_at x (call_views (fan_legs s) ! i)) (stance_at x p) (fb_sem (fan_backends ?t ! x)))"
    using s
  proof (cases rule: fan_step_law [of s t0 offsets e])
    case (moves l L L' g' b b')
    then obtain sec p where p: "L' = (put_call sec p L)\<lparr>leg_does := leg_does L'\<rparr>"
        "task_move (call_id l sec) (fb_sem b) (call_stance (leg_call sec L)) (call_stance p) (fb_sem b')"
      unfolding lawful_def moves_call_def by auto
    have "call_views (fan_legs ?t) = (call_views (fan_legs s))[call_id l sec := (leg_at L, p)]"
      using put_call_views [OF moves(1), where sec = sec and p = p and d = "leg_does L'"] p(1) moves(2,8) by simp
    moreover have "call_id l sec < length (call_views (fan_legs s))" using moves(1) by (cases sec) (simp_all add: call_id_def)
    moreover have "call_views (fan_legs s) ! call_id l sec = (leg_at L, leg_call sec L)" using nth_call_views [OF moves(1)] moves(2) by simp
    moreover have "task_move (call_id l sec) (fb_sem (fan_backends s ! x)) (stance_at x (leg_at L, leg_call sec L)) (stance_at x (leg_at L, p))
        (fb_sem (fan_backends ?t ! x))"
      using p(2) moves(3,4,10) by (cases "leg_at L = x") (simp_all add: stance_at_def)
    ultimately show ?thesis by metis
  qed simp
qed (rule fan_proper_step)

subsection \<open>The budget, the orphans\<close>

definition leg_waits :: "fan_leg \<Rightarrow> int" where
  "leg_waits L = of_bool (leg_does L = Timing)"

text \<open>How a section uses the bucket: not at all, a deposit with a new leg, or a withdrawal that decides about a hedge.\<close>

definition bucket_law :: "leg_part \<Rightarrow> leg_part \<Rightarrow> bool" where
  "bucket_law = (\<lambda>(L, g, b) (L', g', b').
     fan_budget g' = fan_budget g \<and> legs_hedged g' = legs_hedged g \<and> budget_denied g' = budget_denied g \<and> gw_legs g \<le> gw_legs g' \<and>
       leg_waits L' \<le> leg_waits L \<or>
     fan_budget g' = on_primary (fan_budget g) \<and> legs_hedged g' = legs_hedged g \<and> budget_denied g' = budget_denied g \<and>
       gw_legs g' = gw_legs g + 1 \<or>
     fan_budget g' = snd (bucket_take (fan_budget g)) \<and> legs_hedged g' = legs_hedged g + of_bool (fst (bucket_take (fan_budget g))) \<and>
       budget_denied g' = budget_denied g + of_bool (\<not> fst (bucket_take (fan_budget g))) \<and> gw_legs g' = gw_legs g \<and>
       leg_waits L = 1 \<and> leg_waits L' = 0)"

lemma settle_bucket:
  "settle_loser l now sec (L, g, b) = (L', g', b') \<Longrightarrow>
     fan_budget g' = fan_budget g \<and> legs_hedged g' = legs_hedged g \<and> budget_denied g' = budget_denied g \<and> gw_legs g' = gw_legs g"
  by (auto simp: settle_loser_def case_prod_beta Let_def split: if_splits)

lemma hedging_ends_bucket:
  assumes "leg_returns True (settle_loser l now True (settle_loser l now False (L, g, b))) = (L', g', b')"
  shows "fan_budget g' = fan_budget g \<and> legs_hedged g' = legs_hedged g \<and> budget_denied g' = budget_denied g \<and> gw_legs g' = gw_legs g \<and>
    leg_does L' = Leg_done True"
proof -
  obtain L1 g1 b1 where one: "settle_loser l now False (L, g, b) = (L1, g1, b1)" by (metis prod_cases3)
  obtain L2 g2 b2 where two: "settle_loser l now True (L1, g1, b1) = (L2, g2, b2)" by (metis prod_cases3)
  from assms settle_bucket [OF one] settle_bucket [OF two] show ?thesis by (auto simp: one two leg_returns_def)
qed

lemma leg_wakes_bucket: "leg_wakes l now (L, g, b) = Some (L', g', b') \<Longrightarrow> bucket_law (L, g, b) (L', g', b')"
proof (cases "leg_does L")
  case Hedging
  assume "leg_wakes l now (L, g, b) = Some (L', g', b')"
  with Hedging have "leg_returns True (settle_loser l now True (settle_loser l now False (L, g, b))) = (L', g', b')"
    by (auto simp: leg_wakes_def split: if_splits)
  from hedging_ends_bucket [OF this] Hedging show ?thesis by (simp add: bucket_law_def leg_waits_def)
next
  case Timing
  assume "leg_wakes l now (L, g, b) = Some (L', g', b')"
  with Timing show ?thesis
    by (cases "fst (bucket_take (fan_budget g))")
      (auto simp: leg_wakes_def bucket_law_def leg_waits_def hedge_or_wait_def leg_returns_def case_prod_beta split: if_splits)
next
  case Denied
  assume "leg_wakes l now (L, g, b) = Some (L', g', b')"
  with Denied show ?thesis by (auto simp: leg_wakes_def bucket_law_def leg_waits_def leg_returns_def split: if_splits)
qed (simp_all add: leg_wakes_def)

lemma leg_runs_bucket: "leg_does L = Leg_new \<Longrightarrow> bucket_law (L, g, b) (leg_runs l now (L, g, b))"
  by (cases "hedge_delay_s g") (auto simp: leg_runs_def bucket_law_def leg_waits_def Let_def case_prod_beta)

lemma leg_section_bucket: "leg_section e l (L, g, b) = Some (L', g', b') \<Longrightarrow> bucket_law (L, g, b) (L', g', b')"
proof (cases e)
  case (Leg_runs k now)
  assume "leg_section e l (L, g, b) = Some (L', g', b')"
  with Leg_runs have "leg_does L = Leg_new" "(L', g', b') = leg_runs l now (L, g, b)" by (auto simp: leg_section_def split: if_splits)
  then show ?thesis using leg_runs_bucket by metis
next
  case (Leg_wakes k now)
  assume "leg_section e l (L, g, b) = Some (L', g', b')"
  with Leg_wakes show ?thesis by (simp add: leg_section_def leg_wakes_bucket)
qed (auto simp: leg_section_def bucket_law_def leg_waits_def call_ends_def case_prod_beta Let_def split: if_splits call_phase.splits)

interpretation fan_decisions: task_potential "fan_step t0 offsets" fan_legs fan_proper
  "\<lambda>s. legs_hedged (fan_gw s) + budget_denied (fan_gw s) - gw_legs (fan_gw s)" leg_waits "\<lambda>_. 0" for t0 offsets
proof unfold_locales
  fix s :: fan_sys and e
  assume s: "fan_proper s"
  let ?t = "fan_step t0 offsets e s" and ?am = "\<lambda>s. legs_hedged (fan_gw s) + budget_denied (fan_gw s) - gw_legs (fan_gw s)"
  show "fan_proper ?t \<and> (fan_legs ?t = fan_legs s \<and> ?am ?t \<le> ?am s + 0 \<or>
    (\<exists>i p. i < length (fan_legs s) \<and> fan_legs ?t = (fan_legs s)[i := p] \<and> ?am ?t + leg_waits p \<le> ?am s + leg_waits (fan_legs s ! i) + 0))"
    using s
  proof (cases rule: fan_step_law [of s t0 offsets e])
    case (moves l L L' g' b b')
    have "0 \<le> leg_waits L" "leg_waits L' \<le> 1" by (simp_all add: leg_waits_def)
    with leg_section_bucket [OF moves(5)] have "?am ?t + leg_waits L' \<le> ?am s + leg_waits (fan_legs s ! l) + 0"
      unfolding bucket_law_def moves(9) moves(2) [symmetric] by (cases "fst (bucket_take (fan_budget (fan_gw s)))") auto
    then show ?thesis using fan_proper_step [OF s] moves(1,8) by blast
  qed (simp add: fan_proper_step [OF s])
qed

definition fan_paid :: "fan_sys \<Rightarrow> bool" where
  "fan_paid s \<longleftrightarrow> (\<exists>h d. earned on_primary bucket_take (new_fan_bucket HEDGE_BUDGET_RATIO HEDGE_BUCKET_CAPACITY) h d (fan_budget (fan_gw s)) \<and>
     legs_hedged (fan_gw s) = int h \<and> int d \<le> gw_legs (fan_gw s))"

lemma fan_paid_step: "fan_proper s \<Longrightarrow> fan_paid s \<Longrightarrow> fan_paid (fan_step t0 offsets e s)"
proof -
  assume s: "fan_proper s" and paid: "fan_paid s"
  from s show ?thesis
  proof (cases rule: fan_step_law [of s t0 offsets e])
    case (moves l L L' g' b b')
    obtain h d where hd: "earned on_primary bucket_take (new_fan_bucket HEDGE_BUDGET_RATIO HEDGE_BUCKET_CAPACITY) h d (fan_budget (fan_gw s))"
        "legs_hedged (fan_gw s) = int h" "int d \<le> gw_legs (fan_gw s)" using paid by (auto simp: fan_paid_def)
    from leg_section_bucket [OF moves(5)] consider
        "fan_budget g' = fan_budget (fan_gw s)" "legs_hedged g' = int h" "int d \<le> gw_legs g'"
      | "fan_budget g' = on_primary (fan_budget (fan_gw s))" "legs_hedged g' = int h" "int (Suc d) \<le> gw_legs g'"
      | "fan_budget g' = snd (bucket_take (fan_budget (fan_gw s)))" "int d \<le> gw_legs g'"
        "legs_hedged g' = int (h + of_bool (fst (bucket_take (fan_budget (fan_gw s)))))"
      using hd(2,3) unfolding bucket_law_def by auto
    then show ?thesis
    proof cases
      case 1
      then show ?thesis unfolding fan_paid_def moves(9) using hd(1) by metis
    next
      case 2
      then show ?thesis unfolding fan_paid_def moves(9) using earned_deposit [OF hd(1)] by metis
    next
      case 3
      then show ?thesis unfolding fan_paid_def moves(9) using earned_withdraw [OF hd(1)] by metis
    qed
  qed (use paid in \<open>simp add: fan_paid_def\<close>)
qed

lemma fan_paid_run: "fan_proper s \<Longrightarrow> fan_paid s \<Longrightarrow> fan_paid (fold (fan_step t0 offsets) es s)"
  by (induction es arbitrary: s) (simp_all add: fan_proper_step fan_paid_step)

lemma fan_earned_bound:
  assumes "earned on_primary bucket_take (new_fan_bucket HEDGE_BUDGET_RATIO HEDGE_BUCKET_CAPACITY) h d b" "d \<le> 10 ^ 9"
  shows "int h * 2 ^ 20 \<le> 20 * 2 ^ 20 + 52429 * int d"
proof (rule fan_tb.earned_bounded [OF assms(1)])
  show "fk_ratio (new_fan_bucket HEDGE_BUDGET_RATIO HEDGE_BUCKET_CAPACITY) \<le> of_int 52429 / 2 ^ 20"
    unfolding new_fan_bucket_def HEDGE_BUDGET_RATIO_def fan_bucket.select_convs by (intro dbl.rnd_le is_double_dyadic) simp_all
  show "20 * 2 ^ 20 + 52429 * int d \<le> 2 ^ 53" using assms(2) by simp
qed (simp_all add: new_fan_bucket_def HEDGE_BUDGET_RATIO_def HEDGE_BUCKET_CAPACITY_def fl_nonneg)

text \<open>The parked losers: exactly the calls still under way of a leg that returned with a hedge, when losers are not cancelled.\<close>

definition orphan_fits :: "nat \<Rightarrow> fan_leg \<Rightarrow> fan_gateway \<Rightarrow> bool" where
  "orphan_fits l L g \<longleftrightarrow> (\<forall>sec. call_id l sec \<in> orphans g \<longleftrightarrow>
     \<not> cancel_losers g \<and> leg_does L = Leg_done True \<and> underway (leg_call sec L))"

lemma call_id_inj [simp]: "call_id l sec = call_id m sec' \<longleftrightarrow> l = m \<and> sec = sec'"
  unfolding call_id_def by (cases sec; cases sec') (simp_all, presburger+)

lemma settle_orphans:
  assumes "settle_loser l now sec (L, g, b) = (L', g', b')"
  shows "call_id m sec' \<in> orphans g' \<longleftrightarrow>
    call_id m sec' \<in> orphans g \<or> m = l \<and> sec' = sec \<and> \<not> cancel_losers g \<and> leg_call sec L \<noteq> Call_returned"
    and "\<not> cancel_losers g \<Longrightarrow> L' = L" "cancel_losers g' = cancel_losers g"
  using assms by (auto simp: settle_loser_def case_prod_beta Let_def split: if_splits)

lemma still_due_underway: "still_due p \<Longrightarrow> underway p \<longleftrightarrow> p \<noteq> Call_returned"
  by (cases p) auto

lemma hedging_ends_orphans:
  assumes "fits g L" "leg_does L = Hedging" "orphan_fits l L g"
    and "leg_returns True (settle_loser l now True (settle_loser l now False (L, g, b))) = (L', g', b')"
  shows "orphan_fits l L' g'" "m \<noteq> l \<Longrightarrow> call_id m sec' \<in> orphans g' \<longleftrightarrow> call_id m sec' \<in> orphans g"
proof -
  obtain L1 g1 b1 where one: "settle_loser l now False (L, g, b) = (L1, g1, b1)" by (metis prod_cases3)
  obtain L2 g2 b2 where two: "settle_loser l now True (L1, g1, b1) = (L2, g2, b2)" by (metis prod_cases3)
  have e: "L' = L2\<lparr>leg_does := Leg_done True\<rparr>" "g' = g2" using assms(4) by (simp_all add: one two leg_returns_def)
  have due: "still_due (leg_call sec L)" for sec using assms(1,2) by (simp add: leg_ok_def leg_call_def)
  have none: "call_id l sec \<notin> orphans g" for sec using assms(2,3) by (simp add: orphan_fits_def)
  show "m \<noteq> l \<Longrightarrow> call_id m sec' \<in> orphans g' \<longleftrightarrow> call_id m sec' \<in> orphans g"
    unfolding e by (simp add: settle_orphans(1) [OF one] settle_orphans(1) [OF two])
  show "orphan_fits l L' g'"
  proof (cases "cancel_losers g")
    case True
    then show ?thesis unfolding e orphan_fits_def
      by (simp add: settle_orphans(1) [OF one] settle_orphans(1) [OF two] settle_orphans(3) [OF one] settle_orphans(3) [OF two] none)
  next
    case False
    then have "L1 = L" "L2 = L" using settle_orphans(2) [OF one] settle_orphans(2) [OF two] settle_orphans(3) [OF one] by simp_all
    with False have "call_id l sec \<in> orphans g' \<longleftrightarrow> \<not> cancel_losers g' \<and> underway (leg_call sec L')" for sec
      unfolding e by (cases sec) (simp_all add: settle_orphans(1) [OF one] settle_orphans(1) [OF two] settle_orphans(3) [OF one]
        settle_orphans(3) [OF two] none still_due_underway [OF due])
    then show ?thesis by (simp add: orphan_fits_def e(1))
  qed
qed

lemma same_orphans:
  assumes "orphans g' = orphans g" "cancel_losers g' = cancel_losers g" "orphan_fits l L g"
    "leg_does L = Leg_done True \<longleftrightarrow> leg_does L' = Leg_done True"
    "leg_does L = Leg_done True \<Longrightarrow> underway (leg_call sec L) \<longleftrightarrow> underway (leg_call sec L')"
    "leg_does L = Leg_done True \<Longrightarrow> leg_call (\<not> sec) L = leg_call (\<not> sec) L'"
  shows "orphan_fits l L' g' \<and> (\<forall>m sec'. m \<noteq> l \<longrightarrow> (call_id m sec' \<in> orphans g' \<longleftrightarrow> call_id m sec' \<in> orphans g))"
proof -
  have "underway (leg_call sec'' L) \<longleftrightarrow> underway (leg_call sec'' L')" if "leg_does L = Leg_done True" for sec''
    using assms(5,6) [OF that] by (cases "sec'' = sec") auto
  with assms(1-4) show ?thesis by (auto simp: orphan_fits_def)
qed

lemma leg_section_orphans:
  assumes "leg_section e l (L, g, b) = Some (L', g', b')" "fits g L" "orphan_fits l L g"
  shows "orphan_fits l L' g' \<and> (\<forall>m sec. m \<noteq> l \<longrightarrow> (call_id m sec \<in> orphans g' \<longleftrightarrow> call_id m sec \<in> orphans g))"
proof (cases e)
  case (Leg_runs k now)
  with assms(1) have "leg_does L = Leg_new" "(L', g', b') = leg_runs l now (L, g, b)"
    by (auto simp: leg_section_def split: if_splits)
  then have "leg_does L = Leg_new" "leg_does L' = Direct \<or> leg_does L' = Timing" "orphans g' = orphans g" "cancel_losers g' = cancel_losers g"
    by (auto simp: leg_runs_def Let_def case_prod_beta split: option.splits)
  then show ?thesis by (intro same_orphans [where sec = False and L = L]) (use assms(3) in auto)
next
  case (Leg_wakes k now)
  with assms(1) have w: "leg_wakes l now (L, g, b) = Some (L', g', b')" by (simp add: leg_section_def)
  show ?thesis
  proof (cases "leg_does L = Hedging")
    case True
    with w have "leg_returns True (settle_loser l now True (settle_loser l now False (L, g, b))) = (L', g', b')"
      by (auto simp: leg_wakes_def split: if_splits)
    from hedging_ends_orphans [OF assms(2) True assms(3) this] show ?thesis by blast
  next
    case False
    with w have "leg_does L \<noteq> Leg_done True" "leg_does L' \<noteq> Leg_done True" "orphans g' = orphans g" "cancel_losers g' = cancel_losers g"
      by (auto simp: leg_wakes_def hedge_or_wait_def leg_returns_def case_prod_beta Let_def split: leg_phase.splits if_splits)
    then show ?thesis by (intro same_orphans [where sec = False and L = L]) (use assms(3) in auto)
  qed
next
  case (Call_runs k sec now)
  with assms(1) have "leg_call sec L = Scheduled" "L' = put_call sec (fst (call_runs (call_id l sec) now b)) L" "g' = g"
    by (auto simp: leg_section_def case_prod_beta Let_def split: if_splits)
  moreover have "underway (fst (call_runs i now b))" for i by (auto simp: call_runs_def Let_def)
  ultimately show ?thesis by (intro same_orphans [where sec = sec and L = L]) (use assms(3) in auto)
next
  case (Gets_worker k sec now)
  with assms(1) have "leg_call sec L = In_line" "L' = put_call sec (Serving now) L" "g' = g"
    by (auto simp: leg_section_def split: if_splits)
  then show ?thesis by (intro same_orphans [where sec = sec and L = L]) (use assms(3) in auto)
next
  case (Serves k sec now)
  with assms(1) obtain t0 where t: "leg_call sec L = Serving t0" and "(L', g', b') = call_ends l sec t0 now (L, g, b)"
    by (auto simp: leg_section_def split: call_phase.splits)
  then have "L' = put_call sec Call_returned L \<or> leg_does L = Direct \<and> leg_does L' = Leg_done False"
      "L' = put_call sec Call_returned L \<Longrightarrow> leg_does L' = leg_does L"
      "orphans g' = orphans g - {call_id l sec}" "cancel_losers g' = cancel_losers g"
    by (auto simp: call_ends_def Let_def split: if_splits)
  moreover have "leg_call sec' (put_call sec Call_returned L) = (if sec' = sec then Call_returned else leg_call sec' L)" for sec'
    by (cases "sec' = sec") (auto simp: leg_call_def put_call_def)
  ultimately show ?thesis using assms(3) by (auto simp: orphan_fits_def split: if_splits)
qed (use assms in \<open>simp_all add: leg_section_def\<close>)

definition orphans_ok :: "fan_sys \<Rightarrow> bool" where
  "orphans_ok s \<longleftrightarrow> (\<forall>l<length (fan_legs s). orphan_fits l (fan_legs s ! l) (fan_gw s)) \<and>
     (\<forall>l sec. length (fan_legs s) \<le> l \<longrightarrow> call_id l sec \<notin> orphans (fan_gw s))"

lemma orphans_ok_step: "fan_proper s \<Longrightarrow> orphans_ok s \<Longrightarrow> orphans_ok (fan_step t0 offsets e s)"
proof -
  assume s: "fan_proper s" and ok: "orphans_ok s"
  from s show ?thesis
  proof (cases rule: fan_step_law [of s t0 offsets e])
    case (moves l L L' g' b b')
    then have "orphan_fits l L (fan_gw s)" using ok by (simp add: orphans_ok_def)
    from leg_section_orphans [OF moves(5,7) this]
    have this_leg: "orphan_fits l L' g'" and others: "\<And>m sec. m \<noteq> l \<Longrightarrow> call_id m sec \<in> orphans g' \<longleftrightarrow> call_id m sec \<in> orphans (fan_gw s)"
      by blast+
    have "cancel_losers g' = cancel_losers (fan_gw s)" using moves(6) by (simp add: lawful_def section_law_def)
    with others have "orphan_fits m M g' \<longleftrightarrow> orphan_fits m M (fan_gw s)" if "m \<noteq> l" for m M
      using that by (simp add: orphan_fits_def)
    with this_leg others ok moves(1) show ?thesis unfolding orphans_ok_def moves(8,9) by (auto simp: nth_list_update)
  qed (use ok in \<open>simp add: orphans_ok_def\<close>)
qed

subsection \<open>Requests and their legs\<close>

text \<open>A leg that is back stays so, and an answered request keeps the legs it gathered.\<close>

lemma leg_section_done:
  assumes "leg_section e l (L, g, b) = Some (L', g', b')" "leg_does L = Leg_done h"
  shows "leg_does L' = Leg_done h"
  using assms by (auto simp: leg_section_def leg_wakes_def call_ends_def case_prod_beta Let_def split: fan_event.splits if_splits call_phase.splits)

lemma fan_lengths [simp]:
  assumes "fan_proper s"
  shows "length (fan_legs (fan_step t0 offsets e s)) = length (fan_legs s)"
    "length (fan_backends (fan_step t0 offsets e s)) = length (fan_backends s)"
  using assms by (cases rule: fan_step_law [of s t0 offsets e]; simp)+

lemma requests_length [simp]: "length (fan_requests (fan_step t0 offsets e s)) = length (fan_requests s)"
proof (cases rule: fan_step_cases [of t0 offsets e s])
  case (leg l)
  then show ?thesis by (cases rule: leg_step_cases [of e l s]) (simp_all add: leg(1))
next
  case others
  then show ?thesis
    by (cases e) (auto simp: dispatch_def request_returns_def leg_step_def Let_def split: req_phase.split option.split)
qed

definition returned_legs :: "nat \<Rightarrow> bool \<Rightarrow> fan_sys \<Rightarrow> bool" where
  "returned_legs r h s \<longleftrightarrow> (\<forall>L\<in>set (legs_of r s). \<exists>d. leg_does L = Leg_done d) \<and> h = (\<exists>L\<in>set (legs_of r s). leg_does L = Leg_done True)"

definition requests_ok :: "fan_sys \<Rightarrow> bool" where
  "requests_ok s \<longleftrightarrow> length (fan_legs s) = length (fan_backends s) * length (fan_requests s) \<and>
     (\<forall>r<length (fan_requests s). (next_send s \<le> r \<longrightarrow> fan_requests s ! r = Not_sent) \<and>
       (\<forall>h. fan_requests s ! r = Answered_req h \<longrightarrow> returned_legs r h s))"

text \<open>The steps as the requests see them.\<close>

lemma fan_requests_cases:
  obtains (same) "fan_requests (fan_step t0 offsets e s) = fan_requests s" "next_send (fan_step t0 offsets e s) = next_send s"
      "hedged_requests (fan_cell (fan_step t0 offsets e s)) = hedged_requests (fan_cell s)"
      "lat_ms (fan_cell (fan_step t0 offsets e s)) = lat_ms (fan_cell s)"
  | (sends) due where "fan_requests (fan_step t0 offsets e s) = (fan_requests s)[next_send s := Sent due]"
      "next_send (fan_step t0 offsets e s) = next_send s + 1" "next_send s < length (fan_requests s)"
      "hedged_requests (fan_cell (fan_step t0 offsets e s)) = hedged_requests (fan_cell s)"
      "lat_ms (fan_cell (fan_step t0 offsets e s)) = lat_ms (fan_cell s)" "fan_legs (fan_step t0 offsets e s) = fan_legs s"
  | (gathers) r due where "fan_requests (fan_step t0 offsets e s) = (fan_requests s)[r := Gathering due]"
      "next_send (fan_step t0 offsets e s) = next_send s" "r < length (fan_requests s)" "fan_requests s ! r = Sent due"
      "hedged_requests (fan_cell (fan_step t0 offsets e s)) = hedged_requests (fan_cell s)"
      "lat_ms (fan_cell (fan_step t0 offsets e s)) = lat_ms (fan_cell s)" "fan_legs (fan_step t0 offsets e s) = fan_legs s"
  | (answers) r due h x where "fan_requests (fan_step t0 offsets e s) = (fan_requests s)[r := Answered_req h]"
      "next_send (fan_step t0 offsets e s) = next_send s" "r < length (fan_requests s)" "fan_requests s ! r = Gathering due"
      "hedged_requests (fan_cell (fan_step t0 offsets e s)) = hedged_requests (fan_cell s) + of_bool h"
      "lat_ms (fan_cell (fan_step t0 offsets e s)) = lat_ms (fan_cell s) @ [x]" "fan_legs (fan_step t0 offsets e s) = fan_legs s"
      "returned_legs r h s"
proof (cases rule: fan_step_cases [of t0 offsets e s])
  case (leg l)
  then show ?thesis by (cases rule: leg_step_cases [of e l s]) (rule same; simp add: leg(1))+
next
  case others
  show ?thesis
  proof (cases e)
    case (Dispatches now late after)
    show ?thesis
    proof (cases "next_send s < length (fan_requests s) \<and> (asleep s \<or> \<not> now < fl (t0 + offsets ! next_send s))")
      case True
      then show ?thesis using Dispatches by (intro sends) (auto simp: dispatch_def Let_def)
    next
      case False
      then show ?thesis using Dispatches by (intro same) (auto simp: dispatch_def Let_def)
    qed
  next
    case (One_runs r)
    show ?thesis
    proof (cases "r < length (fan_requests s) \<and> (\<exists>due. fan_requests s ! r = Sent due)")
      case True
      then show ?thesis using One_runs by (auto intro: gathers)
    next
      case False
      then show ?thesis using One_runs by (intro same) (auto split: req_phase.split)
    qed
  next
    case (One_returns r fin)
    show ?thesis
    proof (cases "r < length (fan_requests s) \<and> (\<exists>due. fan_requests s ! r = Gathering due) \<and> (\<exists>h. returned_legs r h s)")
      case True
      then obtain due h where "r < length (fan_requests s)" "fan_requests s ! r = Gathering due" "returned_legs r h s" by blast
      moreover from this(3) have "list_all (\<lambda>L. \<exists>h\<in>{True, False}. leg_does L = Leg_done h) (legs_of r s)"
          "list_ex (\<lambda>L. leg_does L = Leg_done True) (legs_of r s) = h"
        by (fastforce simp: returned_legs_def list_all_iff list_ex_iff)+
      ultimately show ?thesis using One_returns by (intro answers) (auto simp: request_returns_def Let_def)
    next
      case False
      then have "request_returns r due fin s = s" if "r < length (fan_requests s)" "fan_requests s ! r = Gathering due" for due
        using that by (auto simp: request_returns_def returned_legs_def list_all_iff)
      then show ?thesis using One_returns by (intro same) (auto split: req_phase.split)
    qed
  qed (rule same; simp add: leg_step_def Let_def split: option.split)+
qed

lemma legs_of_nth:
  "length (fan_legs s) = length (fan_backends s) * length (fan_requests s) \<Longrightarrow> r < length (fan_requests s) \<Longrightarrow>
   i < length (fan_backends s) \<Longrightarrow> r * length (fan_backends s) + i < length (fan_legs s)"
proof -
  assume "length (fan_legs s) = length (fan_backends s) * length (fan_requests s)" "r < length (fan_requests s)"
    and i: "i < length (fan_backends s)"
  then have "Suc r * length (fan_backends s) \<le> length (fan_legs s)" by (metis Suc_leI mult.commute mult_le_mono2)
  with i show ?thesis by simp
qed

lemma returned_legs_alt:
  "returned_legs r h s \<longleftrightarrow> (\<forall>i<length (fan_backends s). \<exists>d. leg_does (fan_legs s ! (r * length (fan_backends s) + i)) = Leg_done d) \<and>
     h = (\<exists>i<length (fan_backends s). leg_does (fan_legs s ! (r * length (fan_backends s) + i)) = Leg_done True)"
  by (auto simp: returned_legs_def legs_of_def Let_def)

lemma legs_stay_done:
  assumes "fan_proper s" "l < length (fan_legs s)" "leg_does (fan_legs s ! l) = Leg_done h"
  shows "leg_does (fan_legs (fan_step t0 offsets e s) ! l) = Leg_done h"
  using assms(1)
proof (cases rule: fan_step_law [of s t0 offsets e])
  case (moves m L L' g' b b')
  with assms(2,3) leg_section_done [OF moves(5), of h] show ?thesis by (cases "m = l") simp_all
qed (simp add: assms(3))

lemma returned_legs_step:
  assumes "fan_proper s" "requests_ok s" "r < length (fan_requests s)" "returned_legs r h s"
  shows "returned_legs r h (fan_step t0 offsets e s)"
proof -
  let ?k = "length (fan_backends s)" and ?t = "fan_step t0 offsets e s"
  have len: "length (fan_backends ?t) = ?k" using assms(1) by simp
  have "\<exists>d. leg_does (fan_legs s ! (r * ?k + i)) = Leg_done d \<and> leg_does (fan_legs ?t ! (r * ?k + i)) = Leg_done d" if i: "i < ?k" for i
  proof -
    from assms(2) have "r * ?k + i < length (fan_legs s)" using legs_of_nth [OF _ assms(3) i] by (simp add: requests_ok_def)
    moreover obtain d where "leg_does (fan_legs s ! (r * ?k + i)) = Leg_done d" using assms(4) i by (auto simp: returned_legs_alt)
    ultimately show ?thesis using legs_stay_done [OF assms(1)] by blast
  qed
  then have same: "leg_does (fan_legs ?t ! (r * ?k + i)) = leg_does (fan_legs s ! (r * ?k + i))" if "i < ?k" for i
    using that by fastforce
  show ?thesis using assms(4) unfolding returned_legs_alt len by (simp add: same cong: conj_cong)
qed

lemma requests_ok_step: "fan_proper s \<Longrightarrow> requests_ok s \<Longrightarrow> requests_ok (fan_step t0 offsets e s)"
proof -
  assume s: "fan_proper s" and ok: "requests_ok s"
  let ?t = "fan_step t0 offsets e s"
  have kept: "returned_legs r h ?t" if "r < length (fan_requests s)" "fan_requests s ! r = Answered_req h" for r h
    using returned_legs_step [OF s ok] that ok by (simp add: requests_ok_def)
  have "(next_send ?t \<le> r \<longrightarrow> fan_requests ?t ! r = Not_sent) \<and> (\<forall>h. fan_requests ?t ! r = Answered_req h \<longrightarrow> returned_legs r h ?t)"
    if r: "r < length (fan_requests s)" for r
  proof (cases rule: fan_requests_cases [of t0 offsets e s])
    case same
    then show ?thesis using kept [OF r] ok r by (simp add: requests_ok_def)
  next
    case (sends due)
    then show ?thesis using kept [OF r] ok r by (auto simp: requests_ok_def nth_list_update)
  next
    case (gathers q due)
    then show ?thesis using kept [OF r] ok r by (auto simp: requests_ok_def nth_list_update)
  next
    case (answers q due h x)
    then have "returned_legs q h ?t" using returned_legs_step [OF s ok] by blast
    then show ?thesis using answers kept [OF r] ok r by (auto simp: requests_ok_def nth_list_update)
  qed
  with s ok show ?thesis by (simp add: requests_ok_def)
qed

text \<open>What the cell counts: the answered requests, and those of them with a hedged leg (\<open>hedged\<close>).\<close>

definition answered_weight :: "bool \<Rightarrow> req_phase \<Rightarrow> int" where
  "answered_weight hedged p = (case p of Answered_req h \<Rightarrow> of_bool (hedged \<longrightarrow> h) | _ \<Rightarrow> 0)"

definition cell_count :: "bool \<Rightarrow> fan_sys \<Rightarrow> int" where
  "cell_count hedged s = (if hedged then hedged_requests (fan_cell s) else int (length (lat_ms (fan_cell s))))"

definition fan_sound :: "fan_sys \<Rightarrow> bool" where
  "fan_sound s \<longleftrightarrow> fan_proper s \<and> requests_ok s \<and> orphans_ok s \<and> fan_paid s"

lemma fan_sound_step: "fan_sound s \<Longrightarrow> fan_sound (fan_step t0 offsets e s)"
  by (simp add: fan_sound_def fan_proper_step requests_ok_step orphans_ok_step fan_paid_step)

interpretation fan_cells: task_books "fan_step t0 offsets" fan_requests fan_sound "cell_count hedged" "answered_weight hedged"
  for t0 offsets hedged
proof unfold_locales
  fix s :: fan_sys and e
  assume s: "fan_sound s"
  let ?t = "fan_step t0 offsets e s"
  show "fan_sound ?t \<and> (fan_requests ?t = fan_requests s \<and> cell_count hedged ?t = cell_count hedged s \<or>
    (\<exists>i p. i < length (fan_requests s) \<and> fan_requests ?t = (fan_requests s)[i := p] \<and>
       cell_count hedged ?t = cell_count hedged s + answered_weight hedged p - answered_weight hedged (fan_requests s ! i)))"
  proof (cases rule: fan_requests_cases [of t0 offsets e s])
    case (sends due)
    moreover have "fan_requests s ! next_send s = Not_sent" using s sends(3) by (simp add: fan_sound_def requests_ok_def)
    ultimately have "cell_count hedged ?t = cell_count hedged s + answered_weight hedged (Sent due) - answered_weight hedged (fan_requests s ! next_send s)"
      by (simp add: cell_count_def answered_weight_def)
    with sends(1,3) fan_sound_step [OF s] show ?thesis by blast
  next
    case (gathers r due)
    then have "cell_count hedged ?t = cell_count hedged s + answered_weight hedged (Gathering due) - answered_weight hedged (fan_requests s ! r)"
      by (simp add: cell_count_def answered_weight_def)
    with gathers(1,3) fan_sound_step [OF s] show ?thesis by blast
  next
    case (answers r due h x)
    then have "cell_count hedged ?t = cell_count hedged s + answered_weight hedged (Answered_req h) - answered_weight hedged (fan_requests s ! r)"
      by (simp add: cell_count_def answered_weight_def)
    with answers(1,3) fan_sound_step [OF s] show ?thesis by blast
  qed (simp add: fan_sound_step [OF s] cell_count_def)
qed

subsection \<open>Runs\<close>

lemma fan_start_facts [simp]:
  "length (fan_backends (fan_start k workers hedge cancel n)) = k"
  "length (fan_legs (fan_start k workers hedge cancel n)) = k * n"
  "fan_requests (fan_start k workers hedge cancel n) = replicate n Not_sent"
  "fan_gw (fan_start k workers hedge cancel n) = new_fan_gateway hedge cancel"
  "x < k \<Longrightarrow> fan_backends (fan_start k workers hedge cancel n) ! x = new_fan_backend workers"
  by (simp_all add: fan_start_def)

lemma start_legs: "L \<in> set (fan_legs (fan_start k workers hedge cancel n)) \<Longrightarrow>
    leg_at L < k \<and> leg_does L = Leg_new \<and> first_call L = Not_called \<and> second_call L = Not_called"
  by (cases k) (auto simp: fan_start_def)

lemma fan_start_sound: "fan_sound (fan_start k workers hedge cancel n)"
proof -
  let ?s = "fan_start k workers hedge cancel n"
  have "fan_proper ?s" using start_legs [of _ k workers hedge cancel n] by (auto simp: fan_proper_def leg_ok_def)
  moreover have "requests_ok ?s" by (simp add: requests_ok_def)
  moreover have "orphans_ok ?s" using start_legs [OF nth_mem, of _ k workers hedge cancel n]
    by (simp add: orphans_ok_def orphan_fits_def new_fan_gateway_def)
  moreover have "fan_paid ?s"
    unfolding fan_paid_def using earned_new [of on_primary bucket_take "new_fan_bucket HEDGE_BUDGET_RATIO HEDGE_BUCKET_CAPACITY"]
    by (intro exI [of _ 0]) (simp add: new_fan_gateway_def)
  ultimately show ?thesis by (simp add: fan_sound_def)
qed

lemma fan_sound_run: "fan_sound s \<Longrightarrow> fan_sound (fold (fan_step t0 offsets) es s)"
  by (induction es arbitrary: s) (simp_all add: fan_sound_step)

lemma fan_shape_run:
  "fan_sound s \<Longrightarrow> length (fan_legs (fold (fan_step t0 offsets) es s)) = length (fan_legs s) \<and>
     length (fan_backends (fold (fan_step t0 offsets) es s)) = length (fan_backends s) \<and>
     length (fan_requests (fold (fan_step t0 offsets) es s)) = length (fan_requests s) \<and>
     hedge_delay_s (fan_gw (fold (fan_step t0 offsets) es s)) = hedge_delay_s (fan_gw s) \<and>
     cancel_losers (fan_gw (fold (fan_step t0 offsets) es s)) = cancel_losers (fan_gw s)"
proof (induction es arbitrary: s)
  case (Cons e es)
  have p: "fan_proper s" using Cons.prems by (simp add: fan_sound_def)
  have "hedge_delay_s (fan_gw (fan_step t0 offsets e s)) = hedge_delay_s (fan_gw s) \<and>
      cancel_losers (fan_gw (fan_step t0 offsets e s)) = cancel_losers (fan_gw s)"
    using p
  proof (cases rule: fan_step_law [of s t0 offsets e])
    case (moves l L L' g' b b')
    then show ?thesis by (simp add: lawful_def section_law_def)
  qed simp
  with Cons.IH [OF fan_sound_step [OF Cons.prems]] p show ?case by simp
qed simp

lemma start_weights: "sum_list (map (account_weight a) (fan_legs (fan_start k workers hedge cancel n))) = 0"
proof -
  have "account_weight a L = 0" if "L \<in> set (fan_legs (fan_start k workers hedge cancel n))" for L
    using start_legs [OF that] by (cases a) (simp_all add: on_calls_def)
  then show ?thesis by (simp cong: map_cong)
qed

lemma fan_run_accounts:
  assumes "s = run_open_cell t0 offsets es k workers hedge cancel"
    and "\<And>x. a \<in> {Calls_started x, Calls_completed x, Calls_cancelled x} \<Longrightarrow> x < k"
  shows "account_value a (fan_gw s) ((!) (fan_backends s)) = sum_list (map (account_weight a) (fan_legs s))"
  unfolding assms(1) run_open_cell_def
proof (rule fan_accounts.books_run)
  let ?s = "fan_start k workers hedge cancel (length offsets)"
  show "fan_proper ?s" using fan_start_sound by (simp add: fan_sound_def)
  have "account_value a (fan_gw ?s) ((!) (fan_backends ?s)) = 0"
    using assms(2) by (cases a) (simp_all add: new_fan_gateway_def new_fan_backend_def)
  then show "account_value a (fan_gw ?s) ((!) (fan_backends ?s)) = sum_list (map (account_weight a) (fan_legs ?s))"
    by (simp add: start_weights)
qed

lemma fan_run_sound: "fan_sound (run_open_cell t0 offsets es k workers hedge cancel)"
  unfolding run_open_cell_def by (intro fan_sound_run fan_start_sound)

lemma fan_run_shape [simp]:
  "length (fan_legs (run_open_cell t0 offsets es k workers hedge cancel)) = k * length offsets"
  "length (fan_backends (run_open_cell t0 offsets es k workers hedge cancel)) = k"
  "length (fan_requests (run_open_cell t0 offsets es k workers hedge cancel)) = length offsets"
  "hedge_delay_s (fan_gw (run_open_cell t0 offsets es k workers hedge cancel)) = hedge"
  "cancel_losers (fan_gw (run_open_cell t0 offsets es k workers hedge cancel)) = cancel"
  using fan_shape_run [OF fan_start_sound, of t0 offsets es k workers hedge cancel "length offsets"]
  by (simp_all add: run_open_cell_def new_fan_gateway_def)

subsection \<open>Hedges are paid for\<close>

lemma sum_by_backend:
  "\<forall>L\<in>set ls. leg_at L < k \<Longrightarrow>
     sum_list (map (\<lambda>x. sum_list (map (\<lambda>L. if leg_at L = x then f L else (0::int)) ls)) [0..<k]) = sum_list (map f ls)"
proof (induction ls)
  case (Cons L ls)
  have "sum_list (map (\<lambda>x. if leg_at L = x then f L else 0) [0..<n]) = (if leg_at L < n then f L else 0)" for n
    by (induction n) auto
  with Cons show ?case by (simp add: sum_list_addf)
qed (simp add: sum_list_0)

lemma backend_started_is_ran:
  "backend_started (run_open_cell t0 offsets es k workers hedge cancel) =
     sum_list (map (on_calls ran) (fan_legs (run_open_cell t0 offsets es k workers hedge cancel)))"
proof -
  define s where "s = run_open_cell t0 offsets es k workers hedge cancel"
  have "backend_started s = sum_list (map (\<lambda>x. fb_started (fan_backends s ! x)) [0..<k])"
  proof -
    have "map (\<lambda>x. fb_started (fan_backends s ! x)) [0..<length (fan_backends s)] = map fb_started (fan_backends s)"
      by (rule nth_equalityI) simp_all
    then show ?thesis by (simp add: backend_started_def s_def)
  qed
  also have "\<dots> = sum_list (map (\<lambda>x. sum_list (map (account_weight (Calls_started x)) (fan_legs s))) [0..<k])"
    using fan_run_accounts [OF s_def, of "Calls_started _"] by (intro arg_cong [where f = sum_list] map_cong) auto
  also have "\<dots> = sum_list (map (on_calls ran) (fan_legs s))"
  proof -
    have "\<forall>L\<in>set (fan_legs s). leg_at L < k"
      using fan_run_sound [of t0 offsets es k workers hedge cancel] by (simp add: fan_sound_def fan_proper_def s_def)
    moreover have "account_weight (Calls_started x) = (\<lambda>L. if leg_at L = x then on_calls ran L else 0)" for x by (simp add: fun_eq_iff)
    ultimately show ?thesis using sum_by_backend [of "fan_legs s" k "on_calls ran"] by simp
  qed
  finally show ?thesis unfolding s_def .
qed

lemma ran_within: "fits g L \<Longrightarrow> on_calls ran L \<le> account_weight Legs_begun L + account_weight Legs_hedged L"
  by (auto simp: leg_ok_def on_calls_def leg_call_def split: leg_phase.splits if_splits)

lemma accounts_bounds:
  "sum_list (map (account_weight Legs_begun) ls) \<le> int (length ls)"
  "\<forall>L\<in>set ls. fits g L \<Longrightarrow> sum_list (map (on_calls ran) ls) \<le>
     sum_list (map (account_weight Legs_begun) ls) + sum_list (map (account_weight Legs_hedged) ls)"
proof -
  show "sum_list (map (account_weight Legs_begun) ls) \<le> int (length ls)" by (induction ls) simp_all
  show "\<forall>L\<in>set ls. fits g L \<Longrightarrow> sum_list (map (on_calls ran) ls) \<le>
     sum_list (map (account_weight Legs_begun) ls) + sum_list (map (account_weight Legs_hedged) ls)"
  proof (induction ls)
    case (Cons L ls)
    with ran_within [of g L] show ?case by simp
  qed simp
qed

text \<open>
  C20. Hedging stays within its budget, under every schedule, timer and clock: the hedges are at most twenty and five hundredths of
  the legs begun (52429 / 2^20, in double arithmetic), a hedge or a refusal is decided once per leg, and the backends are called at most
  once per leg and once per hedge.
\<close>

theorem hedging_costs_its_budget:
  assumes "k * length offsets \<le> 10 ^ 9"
  shows "let s = run_open_cell t0 offsets es k workers hedge cancel; g = fan_gw s in
    legs_hedged g * 2 ^ 20 \<le> 20 * 2 ^ 20 + 52429 * gw_legs g \<and>
    legs_hedged g + budget_denied g \<le> gw_legs g \<and> gw_legs g \<le> int (k * length offsets) \<and>
    backend_started s \<le> gw_legs g + legs_hedged g"
proof -
  define s where "s = run_open_cell t0 offsets es k workers hedge cancel"
  have sound: "fan_sound s" unfolding s_def by (rule fan_run_sound)
  have legs: "gw_legs (fan_gw s) = sum_list (map (account_weight Legs_begun) (fan_legs s))"
      "legs_hedged (fan_gw s) = sum_list (map (account_weight Legs_hedged) (fan_legs s))"
    using fan_run_accounts [OF s_def, of Legs_begun] fan_run_accounts [OF s_def, of Legs_hedged] by simp_all
  have upper: "gw_legs (fan_gw s) \<le> int (k * length offsets)"
    using accounts_bounds(1) [of "fan_legs s"] unfolding legs by (simp add: s_def)
  have calls: "backend_started s \<le> gw_legs (fan_gw s) + legs_hedged (fan_gw s)"
    using accounts_bounds(2) [of "fan_legs s" "fan_gw s"] sound backend_started_is_ran [of t0 offsets es k workers hedge cancel]
    unfolding legs by (simp add: fan_sound_def fan_proper_def s_def)
  have decided: "legs_hedged (fan_gw s) + budget_denied (fan_gw s) \<le> gw_legs (fan_gw s)"
  proof -
    let ?s = "fan_start k workers hedge cancel (length offsets)"
    have "fan_proper ?s" using fan_start_sound by (simp add: fan_sound_def)
    from fan_decisions.potential_run [OF this, of t0 offsets es]
    have "legs_hedged (fan_gw s) + budget_denied (fan_gw s) - gw_legs (fan_gw s) + sum_list (map leg_waits (fan_legs s)) \<le>
        sum_list (map leg_waits (fan_legs ?s))"
      by (simp add: s_def run_open_cell_def new_fan_gateway_def sum_list_0)
    moreover have "sum_list (map leg_waits (fan_legs ?s)) = 0"
      using start_legs [of _ k workers hedge cancel "length offsets"] by (simp add: leg_waits_def cong: map_cong)
    moreover have "0 \<le> sum_list (map leg_waits (fan_legs s))" by (intro sum_list_nonneg) (auto simp: leg_waits_def)
    ultimately show ?thesis by linarith
  qed
  obtain h d where hd: "earned on_primary bucket_take (new_fan_bucket HEDGE_BUDGET_RATIO HEDGE_BUCKET_CAPACITY) h d (fan_budget (fan_gw s))"
      "legs_hedged (fan_gw s) = int h" "int d \<le> gw_legs (fan_gw s)" using sound by (auto simp: fan_sound_def fan_paid_def)
  have "int (k * length offsets) \<le> 10 ^ 9" using assms by (metis of_nat_le_iff of_nat_numeral of_nat_power)
  with hd(3) upper have "int d \<le> 10 ^ 9" by linarith
  then have "d \<le> 10 ^ 9" by simp
  then have "int h * 2 ^ 20 \<le> 20 * 2 ^ 20 + 52429 * int d" by (rule fan_earned_bound [OF hd(1)])
  with hd(2,3) upper calls decided show ?thesis unfolding s_def [symmetric] Let_def by simp
qed

subsection \<open>The calls at a backend\<close>

definition call_in_progress :: "call_phase \<Rightarrow> bool" where
  "call_in_progress p = (underway p \<and> p \<noteq> Scheduled)"

definition calls_on :: "nat \<Rightarrow> (call_phase \<Rightarrow> bool) \<Rightarrow> fan_sys \<Rightarrow> int" where
  "calls_on x P s = int (length (filter (\<lambda>c. fst c = x \<and> P (snd c)) (call_views (fan_legs s))))"

lemma sum_calls_on: "sum_list (map (\<lambda>L. if leg_at L = x then on_calls P L else 0) (fan_legs s)) = calls_on x P s"
proof -
  have "sum_list (map (\<lambda>L. if leg_at L = x then on_calls P L else 0) ls) =
      int (length (filter (\<lambda>c. fst c = x \<and> P (snd c)) (call_views ls)))" for ls
    by (induction ls) (simp_all add: on_calls_def)
  then show ?thesis by (simp add: calls_on_def)
qed

lemma ran_parts: "ran p \<longleftrightarrow> p = Call_returned \<or> p = Call_dropped \<or> call_in_progress p"
  by (cases p) (simp_all add: call_in_progress_def)

lemma calls_on_parts: "calls_on x ran s = calls_on x (\<lambda>p. p = Call_returned) s + calls_on x (\<lambda>p. p = Call_dropped) s + calls_on x call_in_progress s"
proof -
  have "length (filter (\<lambda>c. fst c = x \<and> ran (snd c)) cs) = length (filter (\<lambda>c. fst c = x \<and> snd c = Call_returned) cs) +
      length (filter (\<lambda>c. fst c = x \<and> snd c = Call_dropped) cs) + length (filter (\<lambda>c. fst c = x \<and> call_in_progress (snd c)) cs)" for cs
    by (induction cs) (auto simp: ran_parts call_in_progress_def)
  then show ?thesis by (simp add: calls_on_def)
qed

lemma calls_on_none: "(\<And>L sec. L \<in> set (fan_legs s) \<Longrightarrow> \<not> P (leg_call sec L)) \<Longrightarrow> calls_on x P s = 0"
proof -
  assume none: "\<And>L sec. L \<in> set (fan_legs s) \<Longrightarrow> \<not> P (leg_call sec L)"
  have "\<not> P (first_call L) \<and> \<not> P (second_call L)" if "L \<in> set (fan_legs s)" for L
    using none [OF that, of False] none [OF that, of True] by (simp add: leg_call_def)
  then show ?thesis by (auto simp: calls_on_def call_views_def filter_empty_conv)
qed

lemma all_back:
  assumes "fan_sound s" "all_answered s" "L \<in> set (fan_legs s)"
  shows "\<exists>h. leg_does L = Leg_done h"
proof -
  let ?k = "length (fan_backends s)"
  obtain l where l: "l < length (fan_legs s)" "L = fan_legs s ! l" using assms(3) by (metis in_set_conv_nth)
  have len: "length (fan_legs s) = ?k * length (fan_requests s)" using assms(1) by (simp add: fan_sound_def requests_ok_def)
  with l(1) have k: "0 < ?k" by (cases ?k) auto
  have r: "l div ?k < length (fan_requests s)" using l(1) len by (simp add: less_mult_imp_div_less mult.commute)
  with assms(2) obtain h where "fan_requests s ! (l div ?k) = Answered_req h"
    unfolding all_answered_def list_all_length by blast
  with assms(1) r have "returned_legs (l div ?k) h s" by (simp add: fan_sound_def requests_ok_def)
  then have "\<exists>d. leg_does (fan_legs s ! (l div ?k * ?k + l mod ?k)) = Leg_done d"
    using mod_less_divisor [OF k, of l] unfolding returned_legs_alt by blast
  then show ?thesis by (simp add: l(2))
qed

lemma settled_underway:
  assumes "fits g L" "leg_does L = Leg_done h" "underway (leg_call sec L)"
  shows "\<not> cancel_losers g \<and> h"
  using assms by (cases sec; cases h) (auto simp: leg_ok_def leg_call_def split: if_splits)

lemma no_cancel_no_drop:
  assumes "fits g L" "\<not> cancel_losers g" shows "leg_call sec L \<noteq> Call_dropped"
  using assms by (cases sec) (auto simp: leg_ok_def leg_call_def split: leg_phase.splits if_splits)

lemma workers_bound_calls:
  assumes "x < k"
  shows "calls_on x (\<lambda>p. call_stance p = Using) (run_open_cell t0 offsets es k workers hedge cancel) \<le> int workers"
proof -
  let ?s0 = "fan_start k workers hedge cancel (length offsets)"
  have "count_stance (stance_at x) Using (call_views (fan_legs (run_open_cell t0 offsets es k workers hedge cancel))) \<le> workers"
    unfolding run_open_cell_def
  proof (rule fan_workers.users_bounded(1))
    show "fan_proper ?s0" using fan_start_sound by (simp add: fan_sound_def)
    show "fb_sem (fan_backends ?s0 ! x) = new_semaphore workers" using assms by (simp add: new_fan_backend_def)
    show "\<forall>p\<in>set (call_views (fan_legs ?s0)). stance_at x p = Outside"
      using start_legs [of _ k workers hedge cancel "length offsets"] by (auto simp: call_views_def stance_at_def)
  qed
  moreover have "(\<lambda>c. stance_at x c = Using) = (\<lambda>c. fst c = x \<and> call_stance (snd c) = Using)" by (auto simp: stance_at_def)
  ultimately show ?thesis by (simp add: calls_on_def count_stance_def)
qed

lemma orphans_at_the_end:
  assumes sound: "fan_sound s" and answered: "all_answered s" and mode: "\<not> cancel_losers (fan_gw s)"
  shows "orphans (fan_gw s) = {call_id l sec |l sec. l < length (fan_legs s) \<and> underway (leg_call sec (fan_legs s ! l))}"
proof -
  have fit: "\<And>L. L \<in> set (fan_legs s) \<Longrightarrow> fits (fan_gw s) L" using sound by (simp add: fan_sound_def fan_proper_def)
  have ids: "\<exists>l sec. i = call_id l sec" for i by (intro exI [of _ "i div 2"] exI [of _ "odd i"]) (simp add: call_id_def)
  have "call_id l sec \<in> orphans (fan_gw s) \<longleftrightarrow> l < length (fan_legs s) \<and> underway (leg_call sec (fan_legs s ! l))" for l sec
  proof (cases "l < length (fan_legs s)")
    case True
    then have L: "fan_legs s ! l \<in> set (fan_legs s)" by simp
    have "orphan_fits l (fan_legs s ! l) (fan_gw s)" using sound True by (simp add: fan_sound_def orphans_ok_def)
    moreover obtain h where "leg_does (fan_legs s ! l) = Leg_done h" using all_back [OF sound answered L] by blast
    ultimately show ?thesis using True settled_underway [OF fit [OF L], of h sec] mode by (auto simp: orphan_fits_def)
  next
    case False
    with sound show ?thesis by (simp add: fan_sound_def orphans_ok_def)
  qed
  then show ?thesis using ids by (auto, metis)
qed

text \<open>
  C21. The books of every backend and of the cell balance, under every interleaving: the calls started are those that completed, were
  cancelled or are in progress, no more are served than there are workers, and the cell counts the answered requests and the hedged ones. Once
  every request is answered, a gateway that cancels losers has no call left anywhere; one that does not has cancelled none, and its
  orphans are exactly the calls still under way.
\<close>

theorem fan_calls_balance:
  assumes "x < k"
  shows "let s = run_open_cell t0 offsets es k workers hedge cancel; b = fan_backends s ! x in
    fb_started b = fb_completed b + fb_cancelled b + calls_on x call_in_progress s \<and>
    calls_on x (\<lambda>p. call_stance p = Using) s \<le> int workers \<and>
    hedged_requests (fan_cell s) = sum_list (map (answered_weight True) (fan_requests s)) \<and>
    int (length (lat_ms (fan_cell s))) = sum_list (map (answered_weight False) (fan_requests s)) \<and>
    (if cancel then all_answered s \<longrightarrow> calls_on x underway s = 0
     else fb_cancelled b = 0 \<and>
       (all_answered s \<longrightarrow> orphans (fan_gw s) = {call_id l sec |l sec. l < k * length offsets \<and> underway (leg_call sec (fan_legs s ! l))}))"
proof -
  define s where "s = run_open_cell t0 offsets es k workers hedge cancel"
  let ?b = "fan_backends s ! x"
  have sound: "fan_sound s" unfolding s_def by (rule fan_run_sound)
  then have fit: "\<And>L. L \<in> set (fan_legs s) \<Longrightarrow> fits (fan_gw s) L" by (simp add: fan_sound_def fan_proper_def)
  have mode: "cancel_losers (fan_gw s) = cancel" and len: "length (fan_legs s) = k * length offsets" by (simp_all add: s_def)
  have counts: "fb_started ?b = calls_on x ran s" "fb_completed ?b = calls_on x (\<lambda>p. p = Call_returned) s" "fb_cancelled ?b = calls_on x (\<lambda>p. p = Call_dropped) s"
    using fan_run_accounts [OF s_def, of "Calls_started x"] fan_run_accounts [OF s_def, of "Calls_completed x"]
      fan_run_accounts [OF s_def, of "Calls_cancelled x"] assms by (simp_all add: sum_calls_on [symmetric] cong: map_cong)
  have cell: "cell_count h s = sum_list (map (answered_weight h) (fan_requests s))" for h
    unfolding s_def run_open_cell_def
    by (rule fan_cells.books_run [OF fan_start_sound]) (simp add: cell_count_def fan_start_def answered_weight_def sum_list_replicate)
  have settled: "calls_on x underway s = 0" if "cancel" "all_answered s"
    using all_back [OF sound that(2)] settled_underway [OF fit] mode that(1) by (intro calls_on_none) blast
  have none: "calls_on x (\<lambda>p. p = Call_dropped) s = 0" if "\<not> cancel"
    using no_cancel_no_drop [OF fit] mode that by (intro calls_on_none) blast
  show ?thesis
    using counts calls_on_parts [of x s] workers_bound_calls [OF assms, of t0 offsets es workers hedge cancel] cell [of True] cell [of False]
      settled none orphans_at_the_end [OF sound] mode len
    unfolding s_def [symmetric] Let_def cell_count_def by simp
qed

text \<open>
  One request with one leg and one worker: the leg hedges, the second copy queues behind the first, and is cancelled, or parked, when the
  first returns.
\<close>

definition hedged_run :: "fan_event list" where
  "hedged_run = [Dispatches 0 0 0, One_runs 0, Leg_runs 0 0, Call_runs 0 False 0, Leg_wakes 0 1, Call_runs 0 True 1,
     Serves 0 False 2, Leg_wakes 0 2, One_returns 0 2]"

lemma hedging_costs_its_budget_witness:
  "let s = run_open_cell 0 [0] hedged_run 1 1 (Some 1) True in
     legs_hedged (fan_gw s) = 1 \<and> backend_started s = 2 \<and> legs_hedged (fan_gw s) + budget_denied (fan_gw s) \<le> gw_legs (fan_gw s)"
proof -
  have "legs_hedged (fan_gw (run_open_cell 0 [0] hedged_run 1 1 (Some 1) True)) = 1"
    "backend_started (run_open_cell 0 [0] hedged_run 1 1 (Some 1) True) = 2" by code_simp+
  with hedging_costs_its_budget [of 1 "[0]" 0 hedged_run 1 "Some 1" True] show ?thesis by (simp add: Let_def)
qed

lemma fan_calls_balance_witness:
  "let s = run_open_cell 0 [0] hedged_run 1 1 (Some 1) True; b = fan_backends s ! 0 in
     all_answered s \<and> fb_cancelled b = 1 \<and> calls_on 0 underway s = 0"
proof -
  have "all_answered (run_open_cell 0 [0] hedged_run 1 1 (Some 1) True)"
    "fb_cancelled (fan_backends (run_open_cell 0 [0] hedged_run 1 1 (Some 1) True) ! 0) = 1" by code_simp+
  with fan_calls_balance [of 0 1 0 "[0]" hedged_run 1 "Some 1" True] show ?thesis by (simp add: Let_def)
qed

text \<open>
  A loser that is still being served when the cell is read is in no figure of the report: the busy time counts service that
  has ended. The harness sleeps 0.3 s before it reads, but a log-normal service time has no bound.
\<close>

lemma running_orphan_is_not_billed:
  "let s = run_open_cell 0 [0] (hedged_run @ [Gets_worker 0 True 2]) 1 1 (Some 1) False in
     all_answered s \<and> backend_started s = 2 \<and> fb_completed (fan_backends s ! 0) = 1 \<and> leg_call True (fan_legs s ! 0) = Serving 2 \<and>
     backend_busy_ms sum_list s = 2000"
  by code_simp

subsection \<open>Coordinated omission\<close>

lemma sort_pointwise:
  fixes xs ys :: "'a::linorder list"
  assumes "list_all2 (\<le>) xs ys" "i < length xs"
  shows "sort xs ! i \<le> sort ys ! i"
proof -
  let ?v = "sort ys ! i"
  have filter: "length (filter (\<lambda>x. v < x) xs) \<le> length (filter (\<lambda>y. v < y) ys)" for v
    using assms(1) by (induction rule: list_all2_induct) (auto intro: le_SucI)
  have same: "length (filter (\<lambda>x. ?v < x) (sort zs)) = length (filter (\<lambda>x. ?v < x) zs)" for zs
    by (metis mset_filter mset_sort size_mset)
  show ?thesis
  proof (rule ccontr)
    assume "\<not> sort xs ! i \<le> ?v"
    then have "?v < sort xs ! i" by simp
    then have "length xs - i \<le> length (filter (\<lambda>x. ?v < x) xs)"
      using sorted_nth_greater_iff [of "sort xs" i ?v] assms(2) by (simp add: same)
    with filter [of ?v] have "length ys - i \<le> length (filter (\<lambda>y. ?v < y) (sort ys))"
      using list_all2_lengthD [OF assms(1)] by (simp add: same)
    then show False using sorted_nth_greater_iff [of "sort ys" i ?v] assms(2) list_all2_lengthD [OF assms(1)] by simp
  qed
qed

lemma rank_index_less: "0 < n \<Longrightarrow> rank_index n q < n"
  by (auto simp: rank_index_def nat_less_iff)

lemma fl_max: "fl (max a b) = max (fl a) (fl b)"
  by (cases "a \<le> b") (simp_all add: max_def fl_mono antisym)

definition due_time :: "rat \<Rightarrow> rat \<Rightarrow> rat \<Rightarrow> nat \<Rightarrow> nat \<Rightarrow> rat" where
  "due_time t0 nominal_rate interval v j = fl (fl (t0 + fl (of_nat v / nominal_rate)) + fl (of_nat j * interval))"

definition elapsed_ms :: "rat \<Rightarrow> rat \<Rightarrow> rat" where
  "elapsed_ms t fin = fl (fl (fin - t) * MS)"

lemma elapsed_ms_min: "elapsed_ms (min start due) fin = max (elapsed_ms start fin) (elapsed_ms due fin)"
proof -
  have scale: "max a b * MS = max (a * MS) (b * MS)" for a b by (auto simp: MS_def max_def)
  have "fin - min start due = max (fin - start) (fin - due)" by (auto simp: min_def max_def)
  then show ?thesis by (simp add: elapsed_ms_def fl_max scale)
qed

text \<open>The corrected record of a request is the larger of the raw one and of what the open model records: the time since it was due.\<close>

lemma vu_loop_records:
  "vu_loop t0 deadline nominal_rate interval v j readings =
     map (\<lambda>(i, start, fin). (elapsed_ms start fin, max (elapsed_ms start fin) (elapsed_ms (due_time t0 nominal_rate interval v i) fin)))
       (enumerate j (takeWhile (\<lambda>(start, fin). start < deadline) readings))"
proof (induction readings arbitrary: j)
  case (Cons r readings)
  obtain start fin where r: "r = (start, fin)" by force
  show ?case unfolding r
    by (simp add: Cons.IH Let_def not_le flip: elapsed_ms_min) (simp add: elapsed_ms_def due_time_def)
qed simp

text \<open>
  C40. Coordinated omission only hides latency: whatever the users' readings, the raw percentile a closed-loop generator reports is at most
  the corrected one, at every quantile.
\<close>

theorem omission_hides_latency:
  "let recs = run_closed_cell t0 seconds nominal_rate readings; raw = sort (map fst recs); corrected = sort (map snd recs) in
     length raw = length corrected \<and>
     (case (pct_rank raw q, pct_rank corrected q) of
        (Some a, Some b) \<Rightarrow> a \<le> b | (None, None) \<Rightarrow> recs = [] | _ \<Rightarrow> False)"
proof -
  let ?recs = "run_closed_cell t0 seconds nominal_rate readings"
  have "fst r \<le> snd r" if "r \<in> set ?recs" for r
    using that by (auto simp: run_closed_cell_def vu_loop_records Let_def)
  then have all: "list_all2 (\<le>) (map fst ?recs) (map snd ?recs)" by (simp add: list.rel_map list.rel_refl_strong)
  show ?thesis
  proof (cases "?recs = []")
    case False
    then have i: "rank_index (length ?recs) q < length ?recs" by (intro rank_index_less) simp
    moreover have "sort zs = [] \<longleftrightarrow> zs = []" for zs :: "rat list" by (metis length_sort length_0_conv)
    ultimately show ?thesis using sort_pointwise [OF all, of "rank_index (length ?recs) q"] False by (simp add: Let_def pct_rank_def)
  qed (simp add: pct_rank_def)
qed

end
