(* ===== verification/Data_Locks.thy ===== *)
theory Data_Locks
  imports Lab_Prelude PyFloat
begin

text \<open>
  \<^verbatim>\<open>03-data/05-.../deadlock_ordering.py\<close>: the transfer between two accounts under row locks, with the locks in
  argument order or in \<^verbatim>\<open>ORDER BY id\<close>, in the loop of a worker that retries a deadlocked transaction. A step is one row
  lock, one statement or one commit. The database is PostgreSQL as documented: a row lock is held to the end of its
  transaction, a second transaction waits for it, and the server aborts a transaction it finds on a cycle of waits.
\<close>

subsection \<open>Accounts, workers, transactions\<close>

record account_db =
  balances :: "int \<Rightarrow> int"
  owner :: "int \<Rightarrow> nat option"

text \<open>A transfer is the debited account, the credited one and the cents; the head of the list is the one under way.\<close>

datatype tx_phase = Between | Locking "int list" | Debited | Credited

record transfer_worker =
  transfers :: "(int \<times> int \<times> int) list"
  attempt :: nat
  tx :: tx_phase
  done_count :: int
  deadlock_count :: int
  gave_up_count :: int

record bank =
  accounts :: account_db
  workers :: "transfer_worker list"

definition MAX_RETRIES :: nat where "MAX_RETRIES = 5"

definition lock_rows :: "bool \<Rightarrow> int \<Rightarrow> int \<Rightarrow> int list" where
  "lock_rows ordered a b = (if ordered then remdups (sort [a, b]) else [a, b])"

definition lock_row :: "nat \<Rightarrow> int \<Rightarrow> account_db \<Rightarrow> account_db" where
  "lock_row i r d = d\<lparr>owner := (owner d)(r := Some i)\<rparr>"

definition release_locks :: "nat \<Rightarrow> account_db \<Rightarrow> account_db" where
  "release_locks i d = d\<lparr>owner := (\<lambda>r. if owner d r = Some i then None else owner d r)\<rparr>"

definition move_cents :: "int \<Rightarrow> int \<Rightarrow> int \<Rightarrow> account_db \<Rightarrow> account_db" where
  "move_cents a b c d =
     (let d1 = d\<lparr>balances := (balances d)(a := balances d a - c)\<rparr>
      in d1\<lparr>balances := (balances d1)(b := balances d1 b + c)\<rparr>)"

text \<open>The next statement of worker \<open>i\<close>; its updates take effect at the commit. It stays where it is while it waits for a row.\<close>

definition transfer_step :: "bool \<Rightarrow> nat \<Rightarrow> transfer_worker \<Rightarrow> account_db \<Rightarrow> transfer_worker \<times> account_db" where
  "transfer_step ordered i w d = (case transfers w of
     [] \<Rightarrow> (w, d)
   | (a, b, c) # ts \<Rightarrow> (case tx w of
        Between \<Rightarrow> (w\<lparr>tx := Locking (lock_rows ordered a b)\<rparr>, d)
      | Locking (r # rs) \<Rightarrow>
          if owner d r = None \<or> owner d r = Some i then (w\<lparr>tx := Locking rs\<rparr>, lock_row i r d) else (w, d)
      | Locking [] \<Rightarrow> (w\<lparr>tx := Debited\<rparr>, d)
      | Debited \<Rightarrow> (w\<lparr>tx := Credited\<rparr>, d)
      | Credited \<Rightarrow> (w\<lparr>transfers := ts, attempt := 0, tx := Between, done_count := done_count w + 1\<rparr>,
          release_locks i (move_cents a b c d))))"

text \<open>A retryable error rolls the transaction back; after \<^verbatim>\<open>MAX_RETRIES\<close> of them the worker gives the transfer up.\<close>

definition next_attempt :: "transfer_worker \<Rightarrow> transfer_worker" where
  "next_attempt w =
     (if MAX_RETRIES \<le> attempt w + 1
      then w\<lparr>transfers := tl (transfers w), attempt := 0, tx := Between, gave_up_count := gave_up_count w + 1\<rparr>
      else w\<lparr>attempt := attempt w + 1, tx := Between\<rparr>)"

definition deadlock_detected :: "transfer_worker \<Rightarrow> transfer_worker" where
  "deadlock_detected w = next_attempt (w\<lparr>deadlock_count := deadlock_count w + 1\<rparr>)"

subsection \<open>Who waits for whom\<close>

definition awaited :: "transfer_worker \<Rightarrow> int option" where
  "awaited w = (case tx w of Locking (r # rs) \<Rightarrow> if transfers w = [] then None else Some r | _ \<Rightarrow> None)"

definition waits_on :: "bank \<Rightarrow> nat \<Rightarrow> nat option" where
  "waits_on s i = (if length (workers s) \<le> i then None else
     (case awaited (workers s ! i) of None \<Rightarrow> None | Some r \<Rightarrow> if owner (accounts s) r = Some i then None else owner (accounts s) r))"

text \<open>The end of a walk of \<open>k + 1\<close> edges in a graph where every node has at most one successor.\<close>

fun follow :: "(nat \<Rightarrow> nat option) \<Rightarrow> nat \<Rightarrow> nat \<Rightarrow> nat option" where
  "follow f 0 i = f i"
| "follow f (Suc k) i = (case f i of None \<Rightarrow> None | Some j \<Rightarrow> follow f k j)"

definition deadlocked :: "bank \<Rightarrow> nat \<Rightarrow> bool" where
  "deadlocked s i = list_ex (\<lambda>k. follow (waits_on s) k i = Some i) [0..<length (workers s)]"

subsection \<open>Runs\<close>

datatype bank_event = Runs nat | Detects nat | Serialization_failure nat | Connection_lost nat

definition put_worker :: "nat \<Rightarrow> transfer_worker \<Rightarrow> account_db \<Rightarrow> bank \<Rightarrow> bank" where
  "put_worker i w d s = s\<lparr>accounts := d, workers := (workers s)[i := w]\<rparr>"

fun event_worker :: "bank_event \<Rightarrow> nat" where
  "event_worker (Runs i) = i" | "event_worker (Detects i) = i" | "event_worker (Serialization_failure i) = i"
| "event_worker (Connection_lost i) = i"

text \<open>Errors reach only a worker inside a transaction; an error the loop does not retry ends the worker.\<close>

definition bank_step :: "bool \<Rightarrow> bank_event \<Rightarrow> bank \<Rightarrow> bank" where
  "bank_step ordered e s =
     (let i = event_worker e; w = workers s ! i; d = accounts s in
      if length (workers s) \<le> i then s else
      case e of
        Runs _ \<Rightarrow> (let (w', d') = transfer_step ordered i w d in put_worker i w' d' s)
      | Detects _ \<Rightarrow> if deadlocked s i then put_worker i (deadlock_detected w) (release_locks i d) s else s
      | Serialization_failure _ \<Rightarrow> if tx w = Between then s else put_worker i (next_attempt w) (release_locks i d) s
      | Connection_lost _ \<Rightarrow> put_worker i (w\<lparr>transfers := [], tx := Between\<rparr>) (release_locks i d) s)"

definition new_worker :: "(int \<times> int \<times> int) list \<Rightarrow> transfer_worker" where
  "new_worker ts = \<lparr>transfers = ts, attempt = 0, tx = Between, done_count = 0, deadlock_count = 0, gave_up_count = 0\<rparr>"

definition bank_start :: "(int \<Rightarrow> int) \<Rightarrow> (int \<times> int \<times> int) list list \<Rightarrow> bank" where
  "bank_start bal jobs = \<lparr>accounts = \<lparr>balances = bal, owner = (\<lambda>_. None)\<rparr>, workers = map new_worker jobs\<rparr>"

definition bank_run :: "bool \<Rightarrow> bank_event list \<Rightarrow> bank \<Rightarrow> bank" where
  "bank_run ordered = fold (bank_step ordered)"

subsection \<open>The order of waiting\<close>

text \<open>
  What makes a waits-for graph free of cycles: a rank that grows along every two edges. Then somebody others wait for is
  never waiting.
\<close>

locale wait_order =
  fixes successor :: "'s \<Rightarrow> nat \<Rightarrow> nat option"
    and rank :: "'s \<Rightarrow> nat \<Rightarrow> int"
    and nodes :: "'s \<Rightarrow> nat"
    and proper :: "'s \<Rightarrow> bool"
  assumes wait_inside: "successor s i = Some j \<Longrightarrow> i < nodes s"
    and wait_up: "proper s \<Longrightarrow> successor s i = Some j \<Longrightarrow> successor s j = Some k \<Longrightarrow> rank s i < rank s j"
begin

lemma follow_starts: "follow (successor s) k i = Some j \<Longrightarrow> \<exists>m. successor s i = Some m"
  by (cases k) (simp_all split: option.splits)

lemma follow_up:
  assumes "proper s"
  shows "follow (successor s) k i = Some j \<Longrightarrow> successor s j = Some m \<Longrightarrow> rank s i < rank s j"
proof (induction k arbitrary: i)
  case 0
  with wait_up [OF assms] show ?case by simp
next
  case (Suc k)
  then obtain a where a: "successor s i = Some a" "follow (successor s) k a = Some j" by (auto split: option.splits)
  from follow_starts [OF a(2)] obtain b where "successor s a = Some b" by blast
  from wait_up [OF assms a(1) this] Suc.IH [OF a(2) Suc.prems(2)] show ?case by simp
qed

lemma no_cycle: "proper s \<Longrightarrow> follow (successor s) k i \<noteq> Some i"
  using follow_starts follow_up by blast

lemma free_blocker:
  assumes "proper s" "successor s i = Some j"
  shows "\<exists>a b. successor s a = Some b \<and> successor s b = None"
proof -
  let ?W = "{a. successor s a \<noteq> None}"
  have "?W \<subseteq> {..<nodes s}" using wait_inside by auto
  then have f: "finite ?W" by (rule finite_subset) simp
  with assms(2) have "Max (rank s ` ?W) \<in> rank s ` ?W" by (intro Max_in) auto
  then obtain a where a: "a \<in> ?W" "rank s a = Max (rank s ` ?W)" by (metis (no_types, lifting) imageE)
  then obtain b where b: "successor s a = Some b" by auto
  have "successor s b = None"
  proof (rule ccontr)
    assume n: "successor s b \<noteq> None"
    then have "rank s b \<le> rank s a" using f a(2) by simp
    with n wait_up [OF assms(1) b] show False by fastforce
  qed
  with b show ?thesis by blast
qed

end

text \<open>
  The invariant of the two variants: a worker between transfers owns nothing, inside one it owns what it no longer has to
  lock, and in the ordered variant every row it still has to lock is above the ones it owns.
\<close>

definition rows_left :: "tx_phase \<Rightarrow> int list" where
  "rows_left t = (case t of Locking rs \<Rightarrow> rs | _ \<Rightarrow> [])"

definition owned :: "account_db \<Rightarrow> nat \<Rightarrow> int set" where
  "owned d i = {r. owner d r = Some i}"

definition holds_ok :: "bool \<Rightarrow> int set \<Rightarrow> transfer_worker \<Rightarrow> bool" where
  "holds_ok ordered R w \<longleftrightarrow> (tx w = Between \<longrightarrow> R = {}) \<and> length (rows_left (tx w)) \<le> 2 \<and>
     (tx w \<noteq> Between \<longrightarrow> (\<exists>a b c ts. transfers w = (a, b, c) # ts \<and> {a, b} \<subseteq> R \<union> set (rows_left (tx w)))) \<and>
     (ordered \<longrightarrow> sorted_wrt (<) (rows_left (tx w)) \<and> (\<forall>r\<in>R. \<forall>x\<in>set (rows_left (tx w)). r < x))"

definition bank_inv :: "bool \<Rightarrow> bank \<Rightarrow> bool" where
  "bank_inv ordered s \<longleftrightarrow> (\<forall>i < length (workers s). holds_ok ordered (owned (accounts s) i) (workers s ! i)) \<and>
     (\<forall>r i. owner (accounts s) r = Some i \<longrightarrow> i < length (workers s))"

lemma owned_simps [simp]:
  "owned (lock_row i r d) j = (if j = i then insert r (owned d i) else owned d j - {r})"
  "owned (release_locks i d) j = (if j = i then {} else owned d j)"
  "owner (move_cents a b c d) = owner d" "owned (move_cents a b c d) j = owned d j"
  by (auto simp: owned_def lock_row_def release_locks_def move_cents_def Let_def)

lemma bank_simps [simp]:
  "balances (lock_row i r d) = balances d" "balances (release_locks i d) = balances d"
  "balances (move_cents a b c d) = ((balances d)(a := balances d a - c))(b := ((balances d)(a := balances d a - c)) b + c)"
  "accounts (put_worker i w d s) = d" "workers (put_worker i w d s) = (workers s)[i := w]"
  by (simp_all add: lock_row_def release_locks_def move_cents_def put_worker_def Let_def)

lemma lock_rows_facts: "set (lock_rows ordered a b) = {a, b}" "length (lock_rows ordered a b) \<le> 2"
  by (auto simp: lock_rows_def)

lemma lock_rows_sorted: "sorted_wrt (<) (lock_rows True a b)"
  by (auto simp: lock_rows_def)

lemma next_attempt_phase [simp]: "tx (next_attempt w) = Between"
  by (simp add: next_attempt_def)

lemma holds_between: "tx w = Between \<Longrightarrow> holds_ok ordered {} w"
  by (simp add: holds_ok_def rows_left_def)

text \<open>A step of one worker keeps the invariant when it only touches rows that are free or the worker's own.\<close>

lemma bank_inv_put:
  assumes "bank_inv ordered s" "i < length (workers s)" "holds_ok ordered (owned d i) w"
    "\<And>j. j \<noteq> i \<Longrightarrow> owned d j = owned (accounts s) j"
  shows "bank_inv ordered (put_worker i w d s)"
proof -
  have "j < length (workers s)" if o: "owner d r = Some j" for r j
  proof (cases "j = i")
    case False
    with assms(4) o have "owner (accounts s) r = Some j" by (auto simp: owned_def)
    with assms(1) show ?thesis by (auto simp: bank_inv_def)
  qed (simp add: assms(2))
  with assms show ?thesis by (auto simp: bank_inv_def nth_list_update)
qed

lemma transfer_step_holds:
  assumes "holds_ok ordered (owned d i) w" "transfer_step ordered i w d = (w', d')"
  shows "holds_ok ordered (owned d' i) w'" "j \<noteq> i \<Longrightarrow> owned d' j = owned d j"
proof -
  show "holds_ok ordered (owned d' i) w'"
    using assms lock_rows_facts [of ordered] lock_rows_sorted
    by (auto simp: transfer_step_def holds_ok_def rows_left_def split: list.splits tx_phase.splits if_splits prod.splits)
  show "j \<noteq> i \<Longrightarrow> owned d' j = owned d j"
    using assms(2) by (auto simp: transfer_step_def split: list.splits tx_phase.splits if_splits prod.splits) (auto simp: owned_def)
qed

lemma bank_step_inv:
  assumes "bank_inv ordered s"
  shows "bank_inv ordered (bank_step ordered e s)"
proof (cases "event_worker e < length (workers s)")
  case True
  with assms have h: "holds_ok ordered (owned (accounts s) (event_worker e)) (workers s ! event_worker e)" by (simp add: bank_inv_def)
  show ?thesis
  proof (cases e)
    case (Runs i)
    obtain w d where t: "transfer_step ordered i (workers s ! i) (accounts s) = (w, d)" by fastforce
    from bank_inv_put [OF assms, of i d w] transfer_step_holds [OF _ t] h True show ?thesis by (simp add: bank_step_def Runs t)
  qed (use True assms in \<open>auto simp: bank_step_def Let_def deadlock_detected_def intro!: bank_inv_put holds_between\<close>)
qed (use assms in \<open>auto simp: bank_step_def Let_def\<close>)

lemma bank_inv_start: "bank_inv ordered (bank_start bal jobs)"
  by (auto simp: bank_inv_def bank_start_def new_worker_def owned_def intro: holds_between)

lemma bank_inv_run: "bank_inv ordered s \<Longrightarrow> bank_inv ordered (bank_run ordered es s)"
  by (induction es arbitrary: s) (simp_all add: bank_run_def bank_step_inv)

subsection \<open>Locks in one order: no cycle, no deadlock\<close>

definition awaited_row :: "bank \<Rightarrow> nat \<Rightarrow> int" where
  "awaited_row s i = (case awaited (workers s ! i) of None \<Rightarrow> 0 | Some r \<Rightarrow> r)"

lemma waits_onD:
  assumes "waits_on s i = Some j"
  shows "i < length (workers s)" "awaited_row s i \<in> owned (accounts s) j" "awaited_row s i \<in> set (rows_left (tx (workers s ! i)))"
    "j \<noteq> i"
  using assms by (auto simp: waits_on_def awaited_row_def awaited_def owned_def rows_left_def
      split: if_splits option.splits tx_phase.splits list.splits)

interpretation order_waits: wait_order waits_on awaited_row "\<lambda>s. length (workers s)" "bank_inv True"
proof unfold_locales
  fix s i j k
  show "i < length (workers s)" if "waits_on s i = Some j" using waits_onD(1) [OF that] .
  assume inv: "bank_inv True s" and ij: "waits_on s i = Some j" and jk: "waits_on s j = Some k"
  from inv waits_onD(1) [OF jk] have "holds_ok True (owned (accounts s) j) (workers s ! j)" by (simp add: bank_inv_def)
  with waits_onD(2) [OF ij] waits_onD(3) [OF jk] show "awaited_row s i < awaited_row s j" by (simp add: holds_ok_def)
qed

lemma never_deadlocked: "bank_inv True s \<Longrightarrow> \<not> deadlocked s i"
  using order_waits.no_cycle by (auto simp: deadlocked_def list_ex_iff)

text \<open>What \<^verbatim>\<open>run_variant\<close> reports of its workers.\<close>

definition done_total :: "bank \<Rightarrow> int" where
  "done_total s = sum_list (map done_count (workers s))"

definition deadlocks_total :: "bank \<Rightarrow> int" where
  "deadlocks_total s = sum_list (map deadlock_count (workers s))"

definition conserved :: "int set \<Rightarrow> bank \<Rightarrow> bank \<Rightarrow> bool" where
  "conserved A before after \<longleftrightarrow> sum (balances (accounts before)) A = sum (balances (accounts after)) A"

definition pending :: "transfer_worker \<Rightarrow> nat" where
  "pending w = length (transfers w)"

definition pending_total :: "bank \<Rightarrow> nat" where
  "pending_total s = sum_list (map pending (workers s))"

lemma total_put: 
  "i < length (workers s) \<Longrightarrow> sum_list (map f (workers (put_worker i w d s))) + f (workers s ! i) = sum_list (map f (workers s)) + (f w :: 'a::comm_monoid_add)"
  by (simp add: sum_map_update)

lemma worker_counts [simp]:
  "deadlock_count (fst (transfer_step ordered i w d)) = deadlock_count w"
  "deadlock_count (next_attempt w) = deadlock_count w" "done_count (next_attempt w) = done_count w"
  by (simp_all add: transfer_step_def next_attempt_def split: list.split tx_phase.split)

lemma total_same:
  "f w = f (workers s ! i) \<Longrightarrow> i < length (workers s) \<Longrightarrow>
     sum_list (map f ((workers s)[i := w])) = (sum_list (map f (workers s)) :: int)"
  using sum_map_update [of i "workers s" f w] by simp

lemma ordered_step_deadlocks:
  assumes "bank_inv True s"
  shows "deadlocks_total (bank_step True e s) = deadlocks_total s"
proof (cases "event_worker e < length (workers s)")
  case True
  then show ?thesis
  proof (cases e)
    case (Runs i)
    obtain w d where t: "transfer_step True i (workers s ! i) (accounts s) = (w, d)" by fastforce
    from worker_counts(1) [of True i "workers s ! i" "accounts s"] t True Runs show ?thesis
      by (simp add: bank_step_def deadlocks_total_def total_same)
  qed (use assms never_deadlocked in \<open>simp_all add: bank_step_def Let_def deadlocks_total_def total_same\<close>)
qed (simp add: bank_step_def Let_def)

lemma ordered_run_deadlocks: "bank_inv True s \<Longrightarrow> deadlocks_total (bank_run True es s) = deadlocks_total s"
proof (induction es arbitrary: s)
  case (Cons e es)
  from Cons.IH [OF bank_step_inv [OF Cons.prems]] ordered_step_deadlocks [OF Cons.prems] show ?case by (simp add: bank_run_def)
qed (simp add: bank_run_def)

lemma start_counts [simp]: "deadlocks_total (bank_start bal jobs) = 0" "pending_total (bank_start bal jobs) = length (concat jobs)"
  by (simp_all add: deadlocks_total_def pending_total_def bank_start_def new_worker_def pending_def comp_def length_concat sum_list_0)

text \<open>
  C13. Safety: with the rows locked in \<^verbatim>\<open>ORDER BY id\<close>, for every set of workers, transfers and balances, every interleaving of
  their statements, and whatever transactions the server or the network aborts, no worker is ever on a cycle of waits, so
  no deadlock is ever counted: a transaction only waits for rows above all it owns.
\<close>

theorem ordered_never_deadlocks:
  "\<not> deadlocked (bank_run True es (bank_start bal jobs)) i \<and> deadlocks_total (bank_run True es (bank_start bal jobs)) = 0"
  using never_deadlocked [OF bank_inv_run [OF bank_inv_start]] ordered_run_deadlocks [OF bank_inv_start] by simp

subsection \<open>Locks in one order: everybody finishes\<close>

text \<open>The statements a worker still has to run, if nothing aborts it.\<close>

definition phase_left :: "tx_phase \<Rightarrow> nat" where
  "phase_left t = (case t of Between \<Rightarrow> 6 | Locking rs \<Rightarrow> 3 + length rs | Debited \<Rightarrow> 2 | Credited \<Rightarrow> 1)"

definition work :: "transfer_worker \<Rightarrow> nat" where
  "work w = (case transfers w of [] \<Rightarrow> 0 | _ # ts \<Rightarrow> 6 * length ts + phase_left (tx w))"

definition work_total :: "bank \<Rightarrow> nat" where
  "work_total s = sum_list (map work (workers s))"

lemma transfer_step_works:
  assumes "waits_on s i = None" "i < length (workers s)" "transfers (workers s ! i) \<noteq> []"
    "transfer_step ordered i (workers s ! i) (accounts s) = (w, d)"
  shows "work w < work (workers s ! i)"
proof -
  have l: "length (lock_rows ordered a b) < 3" for a b using lock_rows_facts(2) [of ordered a b] by simp
  from assms l show ?thesis
    by (auto simp: transfer_step_def work_def phase_left_def waits_on_def awaited_def
        split: list.splits tx_phase.splits if_splits prod.splits option.splits)
qed

lemma transfer_step_settles:
  "transfer_step ordered i w d = (w', d') \<Longrightarrow> done_count w' + int (pending w') = done_count w + int (pending w)"
  by (auto simp: transfer_step_def pending_def split: list.splits tx_phase.splits if_splits prod.splits)

text \<open>While a transfer is left, some worker can run: a worker others wait for, or anyone if nobody waits.\<close>

lemma somebody_runs:
  assumes "bank_inv True s" "0 < pending_total s"
  shows "\<exists>i < length (workers s). waits_on s i = None \<and> transfers (workers s ! i) \<noteq> []"
proof -
  have "\<exists>w\<in>set (workers s). pending w \<noteq> 0"
  proof (rule ccontr)
    assume "\<not> ?thesis"
    then have "sum_list (map pending (workers s)) = 0" by (intro sum_list_eq_0_iff [THEN iffD2]) auto
    with assms(2) show False by (simp add: pending_total_def)
  qed
  then obtain i where i: "i < length (workers s)" "transfers (workers s ! i) \<noteq> []" by (auto simp: pending_def in_set_conv_nth)
  show ?thesis
  proof (cases "waits_on s i")
    case (Some j)
    from order_waits.free_blocker [OF assms(1) Some] obtain a b where
      b: "waits_on s a = Some b" "waits_on s b = None" by blast
    from waits_onD(2) [OF b(1)] assms(1) have "b < length (workers s)" "tx (workers s ! b) \<noteq> Between"
      by (auto simp: bank_inv_def holds_ok_def owned_def)
    with assms(1) b(2) show ?thesis by (fastforce simp: bank_inv_def holds_ok_def)
  qed (use i in blast)
qed

lemma runs_step:
  assumes "bank_inv True s" "0 < pending_total s"
  shows "\<exists>i. work_total (bank_step True (Runs i) s) < work_total s \<and>
    done_total (bank_step True (Runs i) s) + int (pending_total (bank_step True (Runs i) s)) = done_total s + int (pending_total s)"
proof -
  from somebody_runs [OF assms] obtain i where i: "i < length (workers s)" "waits_on s i = None" "transfers (workers s ! i) \<noteq> []" by blast
  obtain w d where t: "transfer_step True i (workers s ! i) (accounts s) = (w, d)" by fastforce
  have s': "bank_step True (Runs i) s = put_worker i w d s" using i(1) by (simp add: bank_step_def t)
  from transfer_step_works [OF i(2,1,3) t] total_put [OF i(1), of work w d]
  have "work_total (put_worker i w d s) < work_total s" by (simp add: work_total_def)
  moreover from transfer_step_settles [OF t] total_put [OF i(1), of done_count w d] total_put [OF i(1), of pending w d]
  have "done_total (put_worker i w d s) + int (pending_total (put_worker i w d s)) = done_total s + int (pending_total s)"
    by (simp add: done_total_def pending_total_def)
  ultimately show ?thesis unfolding s' [symmetric] by blast
qed

lemma ordered_finishes:
  "bank_inv True s \<Longrightarrow> \<exists>js. length js \<le> work_total s \<and> pending_total (bank_run True (map Runs js) s) = 0 \<and>
     done_total (bank_run True (map Runs js) s) = done_total s + int (pending_total s)"
proof (induction "work_total s" arbitrary: s rule: less_induct)
  case less
  show ?case
  proof (cases "0 < pending_total s")
    case True
    from runs_step [OF less.prems True] obtain i where i: "work_total (bank_step True (Runs i) s) < work_total s"
      "done_total (bank_step True (Runs i) s) + int (pending_total (bank_step True (Runs i) s)) = done_total s + int (pending_total s)" by blast
    from less.hyps [OF i(1) bank_step_inv [OF less.prems]] obtain js where
      "length js \<le> work_total (bank_step True (Runs i) s)" "pending_total (bank_run True (map Runs js) (bank_step True (Runs i) s)) = 0"
      "done_total (bank_run True (map Runs js) (bank_step True (Runs i) s)) =
         done_total (bank_step True (Runs i) s) + int (pending_total (bank_step True (Runs i) s))" by blast
    with i show ?thesis by (intro exI [of _ "i # js"]) (simp add: bank_run_def)
  next
    case False
    then show ?thesis by (intro exI [of _ "[]"]) (simp add: bank_run_def)
  qed
qed

lemma work_pending: "holds_ok ordered R w \<Longrightarrow> work w \<le> 6 * pending w"
  by (auto simp: work_def pending_def holds_ok_def phase_left_def rows_left_def split: list.splits tx_phase.splits)

lemma work_total_pending:
  assumes "bank_inv ordered s"
  shows "work_total s \<le> 6 * pending_total s"
proof -
  have "\<forall>w\<in>set (workers s). work w \<le> 6 * pending w" using assms by (fastforce simp: bank_inv_def in_set_conv_nth intro: work_pending)
  then have "sum_list (map work (workers s)) \<le> sum_list (map (\<lambda>w. 6 * pending w) (workers s))" by (intro sum_list_mono) auto
  then show ?thesis by (simp add: work_total_def pending_total_def sum_list_const_mult)
qed

text \<open>
  C14. Liveness: with the rows locked in \<^verbatim>\<open>ORDER BY id\<close>, whatever happened before, the transfers still to do can all be
  done by running the workers for at most six statements each, without a single abort: no state is stuck, and no waiting
  worker needs the server's deadlock timer.
\<close>

theorem ordered_transfers_complete:
  "\<exists>js. length js \<le> 6 * pending_total (bank_run True es (bank_start bal jobs)) \<and>
     (let after = bank_run True (es @ map Runs js) (bank_start bal jobs)
      in pending_total after = 0 \<and>
         done_total after = done_total (bank_run True es (bank_start bal jobs)) + int (pending_total (bank_run True es (bank_start bal jobs))))"
  using ordered_finishes [OF bank_inv_run [OF bank_inv_start], of es bal jobs] work_total_pending [OF bank_inv_run [OF bank_inv_start], of True es bal jobs]
  by (auto simp: Let_def bank_run_def intro: order_trans)

subsection \<open>No cent is lost\<close>

text \<open>The transfers a worker still has to do are among those it was given, and only a commit changes a balance.\<close>

definition stays_in :: "int set \<Rightarrow> transfer_worker \<Rightarrow> bool" where
  "stays_in A w \<longleftrightarrow> set (transfers w) \<subseteq> A \<times> A \<times> UNIV"

lemma set_tl: "set xs \<subseteq> S \<Longrightarrow> set (tl xs) \<subseteq> S"
  by (cases xs) auto

lemma sum_add_at:
  assumes "finite A" "x \<in> A"
  shows "sum (f(x := f x + k)) A = sum f A + (k :: int)"
proof -
  have "sum (f(x := f x + k)) (A - {x}) = sum f (A - {x})" by (rule sum.cong) auto
  with assms show ?thesis by (simp add: sum.remove)
qed

lemma move_cents_sum:
  assumes "finite A" "a \<in> A" "b \<in> A"
  shows "sum (balances (move_cents a b c d)) A = sum (balances d) A"
  using sum_add_at [OF assms(1,2), of "balances d" "- c"] sum_add_at [OF assms(1,3), of "(balances d)(a := balances d a - c)" c] by simp

lemma transfer_step_balances:
  assumes "transfer_step ordered i w d = (w', d')" "finite A" "stays_in A w"
  shows "sum (balances d') A = sum (balances d) A" "stays_in A w'"
  using assms move_cents_sum [OF assms(2)]
  by (auto simp: transfer_step_def stays_in_def split: list.splits tx_phase.splits if_splits prod.splits simp del: bank_simps(3))

lemma next_attempt_stays: "stays_in A w \<Longrightarrow> stays_in A (next_attempt (w\<lparr>deadlock_count := k\<rparr>))" "stays_in A w \<Longrightarrow> stays_in A (next_attempt w)"
  by (auto simp: stays_in_def next_attempt_def dest: set_tl [THEN subsetD, OF subset_refl])

lemma stays_nowhere: "stays_in A (w\<lparr>transfers := [], tx := Between\<rparr>)"
  by (simp add: stays_in_def)

definition bank_within :: "int set \<Rightarrow> (int \<Rightarrow> int) \<Rightarrow> bank \<Rightarrow> bool" where
  "bank_within A bal s \<longleftrightarrow> sum (balances (accounts s)) A = sum bal A \<and> list_all (stays_in A) (workers s)"

lemma bank_within_put:
  "bank_within A bal s \<Longrightarrow> sum (balances d) A = sum (balances (accounts s)) A \<Longrightarrow> stays_in A w \<Longrightarrow> bank_within A bal (put_worker i w d s)"
  using set_update_subset_insert [of "workers s" i w] by (auto simp: bank_within_def list_all_iff)

lemma bank_step_within:
  assumes "finite A" "bank_within A bal s"
  shows "bank_within A bal (bank_step ordered e s)"
proof (cases "event_worker e < length (workers s)")
  case True
  with assms(2) have in_A: "stays_in A (workers s ! event_worker e)" by (simp add: bank_within_def list_all_iff)
  show ?thesis
  proof (cases e)
    case (Runs i)
    obtain w d where t: "transfer_step ordered i (workers s ! i) (accounts s) = (w, d)" by fastforce
    from bank_within_put [OF assms(2) transfer_step_balances [OF t assms(1)], of i] in_A True Runs show ?thesis by (simp add: bank_step_def t)
  qed (use True in_A assms(2) in \<open>simp_all add: bank_step_def Let_def bank_within_put deadlock_detected_def next_attempt_stays stays_nowhere\<close>)
qed (use assms(2) in \<open>simp add: bank_step_def Let_def\<close>)

lemma bank_run_within: "finite A \<Longrightarrow> bank_within A bal s \<Longrightarrow> bank_within A bal (bank_run ordered es s)"
  by (induction es arbitrary: s) (simp_all add: bank_run_def bank_step_within)

subsection \<open>Locks in argument order\<close>

text \<open>
  Two opposite transfers, each with its first row: every worker waits, nothing moves, and the server has to abort one.
  The retry then succeeds.
\<close>

definition crossed :: "bank" where
  "crossed = bank_run False [Runs 0, Runs 1, Runs 0, Runs 1] (bank_start (\<lambda>_. 100) [[(1, 2, 30)], [(2, 1, 5)]])"

definition recovery :: "bank_event list" where
  "recovery = Detects 1 # replicate 5 (Runs 0) @ replicate 6 (Runs 1)"

text \<open>
  C15. Invariant: whatever the order of the locks, the interleaving, the deadlocks and the failures, the balances of any set
  of accounts the transfers stay in have the sum they started with: an aborted transfer moves nothing, a committed one
  moves the same cents out of one account and into the other.
\<close>

theorem transfers_conserve_money:
  assumes "finite A" "set (concat jobs) \<subseteq> A \<times> A \<times> UNIV"
  shows "conserved A (bank_start bal jobs) (bank_run ordered es (bank_start bal jobs))"
proof -
  have "bank_within A bal (bank_start bal jobs)"
    using assms(2) by (fastforce simp: bank_within_def list_all_iff bank_start_def stays_in_def new_worker_def)
  from bank_run_within [OF assms(1) this] this show ?thesis by (simp add: bank_within_def conserved_def)
qed

lemmas bank_eval = bank_run_def bank_step_def transfer_step_def put_worker_def lock_rows_def lock_row_def release_locks_def
  deadlocked_def waits_on_def awaited_def deadlock_detected_def next_attempt_def MAX_RETRIES_def move_cents_def

lemma crossed_state:
  "workers crossed = [(new_worker [(1, 2, 30)])\<lparr>tx := Locking [2]\<rparr>, (new_worker [(2, 1, 5)])\<lparr>tx := Locking [1]\<rparr>]"
  "balances (accounts crossed) = (\<lambda>_. 100)" "owner (accounts crossed) = [1 \<mapsto> 0, 2 \<mapsto> Suc 0]"
  by (simp_all add: crossed_def bank_start_def new_worker_def bank_eval Let_def fun_eq_iff numeral_2_eq_2)

lemma argument_order_deadlocks: "deadlocked crossed 0 \<and> deadlocked crossed 1 \<and> bank_step False (Runs i) crossed = crossed"
proof -
  have "i = 0 \<or> i = 1 \<or> 2 \<le> i" by auto
  then show ?thesis
    by (auto simp: bank_eval crossed_state new_worker_def intro!: bank.equality account_db.equality)
qed

lemma transfers_conserve_money_witness:
  "conserved {1, 2} (bank_start (\<lambda>_. 100) [[(1, 2, 30)], [(2, 1, 5)]])
     (bank_run False ([Runs 0, Runs 1, Runs 0, Runs 1] @ recovery) (bank_start (\<lambda>_. 100) [[(1, 2, 30)], [(2, 1, 5)]]))"
  by (rule transfers_conserve_money) simp_all

lemma crossed_recovers:
  "let after = bank_run False recovery crossed
   in done_total after = 2 \<and> deadlocks_total after = 1 \<and> pending_total after = 0 \<and>
      balances (accounts after) 1 = 75 \<and> balances (accounts after) 2 = 125"
  by (simp add: recovery_def crossed_def bank_start_def new_worker_def bank_eval Let_def numeral_eq_Suc
      done_total_def deadlocks_total_def pending_total_def pending_def)

subsection \<open>The report\<close>

text \<open>Every transfer is done, given up, or still to do; only a lost connection drops the rest of a worker's list.\<close>

definition gave_up_total :: "bank \<Rightarrow> int" where
  "gave_up_total s = sum_list (map gave_up_count (workers s))"

definition settled :: "transfer_worker \<Rightarrow> int" where
  "settled w = done_count w + gave_up_count w + int (pending w)"

lemma settled_simps [simp]:
  "transfers w \<noteq> [] \<Longrightarrow> settled (next_attempt w) = settled w" "settled (w\<lparr>deadlock_count := k\<rparr>) = settled w"
  "settled (w\<lparr>transfers := [], tx := Between\<rparr>) \<le> settled w"
  by (auto simp: settled_def pending_def next_attempt_def of_nat_diff Suc_le_eq)

lemma transfer_step_settled: "settled (fst (transfer_step ordered i w d)) = settled w"
  by (auto simp: settled_def pending_def transfer_step_def split: list.split tx_phase.split)

definition is_loss :: "bank_event \<Rightarrow> bool" where
  "is_loss e = (case e of Connection_lost i \<Rightarrow> True | _ \<Rightarrow> False)"

lemma bank_step_settled:
  assumes "bank_inv ordered s" "\<not> is_loss e"
  shows "sum_list (map settled (workers (bank_step ordered e s))) = sum_list (map settled (workers s))"
proof (cases "event_worker e < length (workers s)")
  case True
  with assms(1) have between: "transfers (workers s ! event_worker e) \<noteq> []" if "tx (workers s ! event_worker e) \<noteq> Between"
    using that by (auto simp: bank_inv_def holds_ok_def)
  show ?thesis
  proof (cases e)
    case (Runs i)
    obtain w d where t: "transfer_step ordered i (workers s ! i) (accounts s) = (w, d)" by fastforce
    from transfer_step_settled [of ordered i "workers s ! i" "accounts s"] t True Runs show ?thesis by (simp add: bank_step_def total_same)
  next
    case (Detects i)
    have "tx (workers s ! i) \<noteq> Between" if "deadlocked s i"
    proof -
      from that obtain m where "waits_on s i = Some m" by (auto simp: deadlocked_def list_ex_iff dest!: order_waits.follow_starts)
      from waits_onD(3) [OF this] show ?thesis by (auto simp: rows_left_def split: tx_phase.splits)
    qed
    with Detects True between show ?thesis by (simp add: bank_step_def Let_def deadlock_detected_def total_same)
  next
    case (Serialization_failure i)
    with True between show ?thesis by (simp add: bank_step_def Let_def total_same)
  qed (use assms(2) in \<open>simp add: is_loss_def\<close>)
qed (simp add: bank_step_def Let_def)

lemma report_adds_up:
  assumes "\<not> list_ex is_loss es"
  shows "done_total (bank_run ordered es (bank_start bal jobs)) + gave_up_total (bank_run ordered es (bank_start bal jobs)) +
     int (pending_total (bank_run ordered es (bank_start bal jobs))) = int (length (concat jobs))"
proof -
  have parts: "sum_list (map settled ws) = sum_list (map done_count ws) + sum_list (map gave_up_count ws) + int (sum_list (map pending ws))" for ws
    by (induction ws) (simp_all add: settled_def)
  have "bank_inv ordered s \<Longrightarrow> sum_list (map settled (workers (bank_run ordered es s))) = sum_list (map settled (workers s))" for s
    using assms by (induction es arbitrary: s) (simp_all add: bank_run_def bank_step_inv bank_step_settled)
  from this [OF bank_inv_start, of bal jobs] have "sum_list (map settled (workers (bank_run ordered es (bank_start bal jobs)))) = int (length (concat jobs))"
    by (simp add: bank_start_def new_worker_def settled_def pending_def comp_def length_concat flip: sum_list_of_nat)
  then show ?thesis unfolding parts done_total_def gave_up_total_def pending_total_def .
qed

text \<open>
  \<^verbatim>\<open>lab_db.percentile\<close>, whose half is added in doubles before Python's rounding to even; the empty sample is the NaN.
\<close>

definition percentile_index :: "nat \<Rightarrow> rat \<Rightarrow> int" where
  "percentile_index n q = max 0 (min (int n - 1) (rhe (fl (fl (fl (q / 100) * of_nat n) + 1 / 2)) - 1))"

definition percentile :: "rat list \<Rightarrow> rat \<Rightarrow> rat option" where
  "percentile values q = (if values = [] then None else Some (sort values ! nat (percentile_index (length values) q)))"

text \<open>
  The nearest rank of the median is \<open>(n - 1) div 2\<close>, counted from 0; the routine agrees except when half the sample is an
  odd number of values, where rounding a half to even takes the value above.
\<close>

lemma median_index:
  assumes "0 < n" "n \<le> 2 ^ 50"
  shows "percentile_index n 50 = (if n mod 4 = 2 then int n div 2 else (int n - 1) div 2)"
proof -
  have half: "fl (50 / 100) = 1 / 2" using fl_double [OF is_double_dyadic [of 1 1]] by simp
  have n: "fl (of_nat n / 2) = of_nat n / 2" using fl_double [OF is_double_dyadic [of "int n" 1]] assms(2) by simp
  have up: "fl (of_nat n / 2 + 1 / 2) = of_nat (n + 1) / 2"
    using fl_double [OF is_double_dyadic [of "int (n + 1)" 1]] assms(2) by (simp add: add_divide_distrib add.commute)
  have idx: "percentile_index n 50 = max 0 (min (int n - 1) (rhe (of_nat (n + 1) / 2) - 1))"
  proof -
    have "(1 / 2 :: rat) * of_nat n = of_nat n / 2" by simp
    then show ?thesis unfolding percentile_index_def half by (simp only: n up)
  qed
  have even_n: "rhe (of_nat (2 * k + 1) / 2) = (if even k then int k else int k + 1)" for k
  proof -
    have "\<lfloor>of_nat (2 * k + 1) / (2 :: rat)\<rfloor> = int k" by (rule floor_unique) simp_all
    moreover have "of_nat (2 * k + 1) / 2 - of_int (int k) = (1 / 2 :: rat)" by (simp add: field_simps)
    ultimately show ?thesis unfolding rhe_def Let_def by simp
  qed
  show ?thesis
  proof (cases "even n")
    case True
    then obtain k where k: "n = 2 * k" by blast
    moreover have "n mod 4 = 2 \<longleftrightarrow> odd k" unfolding k by presburger
    ultimately show ?thesis using even_n [of k] assms(1) unfolding idx by (auto elim!: evenE oddE simp: min_def max_def)
  next
    case False
    then obtain k where k: "n = 2 * k + 1" using oddE by blast
    have "of_nat (n + 1) / 2 = (of_int (int k + 1) :: rat)" by (simp add: k)
    then have "rhe (of_nat (n + 1) / 2) = int k + 1" using rhe_of_int by metis
    then show ?thesis unfolding idx by (simp add: k)
  qed
qed

lemma median_above: "percentile [1, 2, 3, 4, 5, 6] 50 = Some 4"
  by (simp add: percentile_def median_index)

end
