(* ===== verification/Edge_Gateway.thy ===== *)
theory Edge_Gateway
  imports Sim_Tasks PyText
begin

text \<open>
  \<^verbatim>\<open>10-edge/02-.../prompt_layout.py\<close> and \<^verbatim>\<open>10-edge/lab/gateway/app.py\<close>: the prompt in its two layouts and the part of it two
  requests share; the gateway's handler, its response generator cut at every suspension, and the shadow
  requests beside it. Clock readings, chunks, disconnects, errors of the upstream and cancellations are events. The web
  framework may close a generator that waits at a \<^verbatim>\<open>yield\<close>, or never start it; both are documented behaviour of Python
  and of the framework.
\<close>

subsection \<open>Prompts\<close>

definition BLOCK_SIZE :: int where "BLOCK_SIZE = 16"

definition SYSTEM_PARAGRAPH :: string where
  "SYSTEM_PARAGRAPH =
     ''You are a support assistant for an internal platform team. Answer only '' @
     ''from the runbooks provided. If the answer is not in the runbooks, say so '' @
     ''and name the runbook that should have covered it. Never invent a command. '' @
     ''Prefer the smallest reversible action. Quote exact flag names. ''"

definition STABLE_SYSTEM_PROMPT :: string where
  "STABLE_SYSTEM_PROMPT = py_strip (concat (replicate 34 SYSTEM_PARAGRAPH))"

text \<open>The counter used when no tokenizer is installed: the matches of \<^verbatim>\<open>\w+|[^\w\s]\<close>, on ASCII text.\<close>

definition is_word :: "char \<Rightarrow> bool" where
  "is_word c = (is_digit c \<or> 65 \<le> (of_char c :: nat) \<and> (of_char c :: nat) \<le> 90 \<or> 97 \<le> (of_char c :: nat) \<and> (of_char c :: nat) \<le> 122 \<or> c = CHR ''_'')"

fun count_matches :: "bool \<Rightarrow> string \<Rightarrow> int" where
  "count_matches inside [] = 0"
| "count_matches inside (c # cs) =
     (if is_word c then (if inside then 0 else 1) + count_matches True cs
      else (if is_space c then 0 else 1) + count_matches False cs)"

definition count_tokens :: "string \<Rightarrow> int" where
  "count_tokens = count_matches False"

record rendered_prompt =
  ptext :: string
  playout :: string
  pvolatile :: string

definition nl :: string where "nl = [CHR 0x0A]"

text \<open>\<^verbatim>\<open>repr\<close> of a layout, which has no quote, backslash or control character.\<close>

definition layout_message :: "string \<Rightarrow> string" where
  "layout_message layout = ''layout must be 'head' or 'tail', got '' @ [CHR 0x27] @ layout @ [CHR 0x27]"

definition prompt_text :: "string \<Rightarrow> string \<Rightarrow> string \<Rightarrow> string" where
  "prompt_text volatile layout user_message =
     (if layout = ''head'' then volatile @ nl @ nl @ STABLE_SYSTEM_PROMPT else STABLE_SYSTEM_PROMPT @ nl @ nl @ volatile) @
     nl @ nl @ ''User: '' @ user_message @ nl @ ''Assistant:''"

definition render :: "string \<Rightarrow> string \<Rightarrow> string \<Rightarrow> rendered_prompt py" where
  "render volatile layout user_message =
     (if layout \<noteq> ''head'' \<and> layout \<noteq> ''tail'' then Inl (ValueError (layout_message layout))
      else Inr \<lparr>ptext = prompt_text volatile layout user_message, playout = layout, pvolatile = volatile\<rparr>)"

text \<open>The loop over the indices of the shorter text, which returns at the first difference.\<close>

fun shared_prefix_chars :: "string \<Rightarrow> string \<Rightarrow> nat" where
  "shared_prefix_chars (a # as) (b # bs) = (if a \<noteq> b then 0 else Suc (shared_prefix_chars as bs))"
| "shared_prefix_chars _ _ = 0"

definition cacheable_blocks :: "int \<Rightarrow> int \<Rightarrow> int py" where
  "cacheable_blocks shared_tokens block_size =
     (if block_size = 0 then Inl ZeroDivisionError else Inr (shared_tokens div block_size))"

lemma shared_prefix_spec:
  "take (shared_prefix_chars a b) a = take (shared_prefix_chars a b) b \<and> shared_prefix_chars a b \<le> min (length a) (length b) \<and>
   (shared_prefix_chars a b < min (length a) (length b) \<longrightarrow> a ! shared_prefix_chars a b \<noteq> b ! shared_prefix_chars a b)"
  by (induction a b rule: shared_prefix_chars.induct) auto

lemma shared_prefix_append: "shared_prefix_chars (p @ a) (p @ b) = length p + shared_prefix_chars a b"
  by (induction p) simp_all

lemma shared_prefix_differ:
  "length a = length b \<Longrightarrow> a \<noteq> b \<Longrightarrow> shared_prefix_chars (a @ u) (b @ v) = shared_prefix_chars a b \<and> shared_prefix_chars a b < length a"
  by (induction a b rule: list_induct2) auto

lemma blocks_cover:
  assumes "0 < n" "cacheable_blocks t n = Inr k"
  shows "k * n \<le> t" "t < (k + 1) * n"
proof -
  have k: "k = t div n" using assms by (simp add: cacheable_blocks_def)
  from pos_mod_sign [OF assms(1), of t] pos_mod_bound [OF assms(1), of t] div_mult_mod_eq [of t n]
  show "k * n \<le> t" "t < (k + 1) * n" unfolding k by (simp_all only: distrib_right)
qed

lemma render_rejects: "(\<exists>e. render v layout u = Inl e) \<longleftrightarrow> layout \<notin> {''head'', ''tail''}"
  by (auto simp: render_def)

text \<open>
  Functional. Two requests whose volatile strings have one length and differ share, in the tail layout, the whole stable
  prompt and what their volatile strings have in common; in the head layout only the latter, which is less than one
  volatile string: nothing of the stable prompt. The two layouts have the same length.
\<close>

theorem tail_layout_shares_the_prompt:
  assumes "length v = length v'" "v \<noteq> v'"
  shows "shared_prefix_chars (prompt_text v ''tail'' u) (prompt_text v' ''tail'' u') = length STABLE_SYSTEM_PROMPT + 2 + shared_prefix_chars v v' \<and>
    shared_prefix_chars (prompt_text v ''head'' u) (prompt_text v' ''head'' u') = shared_prefix_chars v v' \<and>
    shared_prefix_chars v v' < length v \<and> length (prompt_text v ''tail'' u) = length (prompt_text v ''head'' u)"
proof -
  have "prompt_text v ''tail'' u = (STABLE_SYSTEM_PROMPT @ nl @ nl) @ v @ nl @ nl @ ''User: '' @ u @ nl @ ''Assistant:''" for v u
    by (simp add: prompt_text_def)
  moreover have "prompt_text v ''head'' u = v @ nl @ nl @ STABLE_SYSTEM_PROMPT @ nl @ nl @ ''User: '' @ u @ nl @ ''Assistant:''" for v u
    by (simp add: prompt_text_def)
  ultimately show ?thesis
    using shared_prefix_append [of "STABLE_SYSTEM_PROMPT @ nl @ nl"] shared_prefix_differ [OF assms] by (simp add: nl_def)
qed

lemma tail_layout_shares_the_prompt_witness:
  "shared_prefix_chars (prompt_text ''t 1'' ''tail'' ''q'') (prompt_text ''t 2'' ''tail'' ''q'') = length STABLE_SYSTEM_PROMPT + 4"
  using tail_layout_shares_the_prompt [of "''t 1''" "''t 2''" "''q''" "''q''"] by simp

subsection \<open>The handler\<close>

datatype outcome = Ok_outcome | Client_disconnect | Upstream_error

datatype shadow_outcome = Shadow_ok | Shadow_http_error | Shadow_error

record gateway_config =
  MODEL_NAME :: string
  PROMPT_VOLATILE :: string
  SHADOW_TARGET :: "string option"

record gateway_metrics =
  REQUESTS :: "outcome \<Rightarrow> int"
  TTFT :: "rat list"
  TOTAL_LATENCY :: "rat list"
  INFLIGHT :: int
  CANCELLED :: int
  PROMPT_TOKENS :: int
  SHADOW :: "shadow_outcome \<Rightarrow> int"

record completion_payload =
  pl_model :: string
  pl_prompt :: string
  pl_max_tokens :: int
  pl_stream :: bool
  pl_temperature :: rat

datatype handler_error = Raises py_error | Attribute_error

definition py_int_of_json :: "json \<Rightarrow> int py" where
  "py_int_of_json j = (case j of
     JInt k \<Rightarrow> Inr k
   | JBool b \<Rightarrow> Inr (of_bool b)
   | JFloat r \<Rightarrow> Inr (py_trunc r)
   | JStr s \<Rightarrow> (case py_int_of s of None \<Rightarrow> Inl (ValueError ''invalid literal for int()'') | Some k \<Rightarrow> Inr k)
   | _ \<Rightarrow> Inl (TypeError ''int() argument must be a string or a number''))"

definition body_get :: "json \<Rightarrow> string \<Rightarrow> json \<Rightarrow> handler_error + json" where
  "body_get body k fallback = (case body of
     JObj kvs \<Rightarrow> Inr (case map_of kvs k of None \<Rightarrow> fallback | Some j \<Rightarrow> j)
   | _ \<Rightarrow> Inl Attribute_error)"

text \<open>\<open>sho\<close> is \<^verbatim>\<open>str\<close> of a JSON value that is not a string.\<close>

definition message_text :: "(json \<Rightarrow> string) \<Rightarrow> json \<Rightarrow> string" where
  "message_text sho j = (case j of JStr s \<Rightarrow> s | _ \<Rightarrow> sho j)"

text \<open>\<^verbatim>\<open>generate\<close> up to the gauge: the payload and the tokens counted, or the exception; an empty request body counts as an empty object.\<close>

definition generate_payload :: "gateway_config \<Rightarrow> (json \<Rightarrow> string) \<Rightarrow> json option \<Rightarrow> string \<Rightarrow> handler_error + completion_payload" where
  "generate_payload cfg sho body volatile =
     (let b = (case body of None \<Rightarrow> JObj [] | Some j \<Rightarrow> j) in
      case body_get b ''user_message'' (JStr ''How do I roll back a bad deploy?'') of
        Inl e \<Rightarrow> Inl e
      | Inr user_message \<Rightarrow>
          (case body_get b ''max_tokens'' (JInt 128) of
             Inl e \<Rightarrow> Inl e
           | Inr max_tokens_field \<Rightarrow>
               (case py_int_of_json max_tokens_field of
                  Inl e \<Rightarrow> Inl (Raises e)
                | Inr max_tokens \<Rightarrow>
                    (case render volatile (PROMPT_VOLATILE cfg) (message_text sho user_message) of
                       Inl e \<Rightarrow> Inl (Raises e)
                     | Inr p \<Rightarrow> Inr \<lparr>pl_model = MODEL_NAME cfg, pl_prompt = ptext p, pl_max_tokens = max_tokens,
                         pl_stream = True, pl_temperature = 0\<rparr>))))"

text \<open>
  A request through its response: the generator may never start, waits for the connection, for a chunk, for the answer about the client, or at a
  \<^verbatim>\<open>yield\<close>. Each phase carries the reading of \<^verbatim>\<open>started\<close>.
\<close>

datatype stream_phase =
    Not_asked
  | Failed_handler handler_error
  | Response_made rat
  | Connecting rat
  | Streaming rat bool
  | Polling rat bool string
  | Sending rat bool
  | Sending_error rat
  | Ended outcome
  | Never_started

record gw_request =
  gw_body :: "json option"
  gw_phase :: stream_phase
  gw_payload :: "completion_payload option"
  gw_sent :: "string list"

record gw_shadow =
  sh_payload :: completion_payload
  sh_outcome :: "shadow_outcome option"

record gateway =
  gw_metrics :: gateway_metrics
  gw_requests :: "gw_request list"
  gw_shadows :: "gw_shadow list"

type_synonym gw_part = "gw_request \<times> gateway_metrics"

definition in_phase :: "stream_phase \<Rightarrow> gw_request \<Rightarrow> gw_request" where
  "in_phase p r = r\<lparr>gw_phase := p\<rparr>"

definition handler_runs :: "gateway_config \<Rightarrow> (json \<Rightarrow> string) \<Rightarrow> string \<Rightarrow> rat \<Rightarrow> gw_part \<Rightarrow> gw_part" where
  "handler_runs cfg sho volatile now = (\<lambda>(r, m).
     (case generate_payload cfg sho (gw_body r) volatile of
        Inl e \<Rightarrow> (in_phase (Failed_handler e) r, m)
      | Inr p \<Rightarrow> ((in_phase (Response_made now) r)\<lparr>gw_payload := Some p\<rparr>,
          m\<lparr>PROMPT_TOKENS := PROMPT_TOKENS m + count_tokens (pl_prompt p), INFLIGHT := INFLIGHT m + 1\<rparr>)))"

text \<open>The \<^verbatim>\<open>finally\<close> of the generator.\<close>

definition stream_ends :: "outcome \<Rightarrow> rat \<Rightarrow> rat \<Rightarrow> gw_part \<Rightarrow> gw_part" where
  "stream_ends out started now = (\<lambda>(r, m).
     (in_phase (Ended out) r,
      m\<lparr>INFLIGHT := INFLIGHT m - 1, REQUESTS := (REQUESTS m)(out := REQUESTS m out + 1),
        TOTAL_LATENCY := TOTAL_LATENCY m @ [fl (now - started)]\<rparr>))"

definition count_cancelled :: "gw_part \<Rightarrow> gw_part" where
  "count_cancelled = (\<lambda>(r, m). (r, m\<lparr>CANCELLED := CANCELLED m + 1\<rparr>))"

definition connected :: "rat \<Rightarrow> int \<Rightarrow> gw_part \<Rightarrow> gw_part" where
  "connected started status = (\<lambda>(r, m).
     if 400 \<le> status then ((in_phase (Sending_error started) r)\<lparr>gw_sent := gw_sent r @ [[]]\<rparr>, m)
     else (in_phase (Streaming started False) r, m))"

definition chunk_arrives :: "rat \<Rightarrow> bool \<Rightarrow> string \<Rightarrow> rat \<Rightarrow> gw_part \<Rightarrow> gw_part" where
  "chunk_arrives started seen chunk now = (\<lambda>(r, m).
     (in_phase (Polling started True chunk) r, if seen then m else m\<lparr>TTFT := TTFT m @ [fl (now - started)]\<rparr>))"

definition client_polled :: "rat \<Rightarrow> bool \<Rightarrow> string \<Rightarrow> bool \<Rightarrow> rat \<Rightarrow> gw_part \<Rightarrow> gw_part" where
  "client_polled started seen chunk disconnected now = (\<lambda>(r, m).
     if disconnected then stream_ends Client_disconnect started now (count_cancelled (r, m))
     else ((in_phase (Sending started seen) r)\<lparr>gw_sent := gw_sent r @ [chunk]\<rparr>, m))"

subsection \<open>Runs\<close>

datatype gw_event =
    Handler_runs nat string rat
  | Body_starts nat
  | Body_dropped nat
  | Connected nat int
  | Chunk nat string rat
  | Polled nat bool rat
  | Resumes nat rat
  | Upstream_ends nat rat
  | Http_error nat rat
  | Other_exception nat rat
  | Task_cancelled nat rat
  | Generator_closed nat rat
  | Shadow_ends nat shadow_outcome

fun gw_index :: "gw_event \<Rightarrow> nat option" where
  "gw_index (Handler_runs i v t) = Some i" | "gw_index (Body_starts i) = Some i" | "gw_index (Body_dropped i) = Some i"
| "gw_index (Connected i k) = Some i" | "gw_index (Chunk i c t) = Some i" | "gw_index (Polled i d t) = Some i"
| "gw_index (Resumes i t) = Some i" | "gw_index (Upstream_ends i t) = Some i" | "gw_index (Http_error i t) = Some i"
| "gw_index (Other_exception i t) = Some i" | "gw_index (Task_cancelled i t) = Some i" | "gw_index (Generator_closed i t) = Some i"
| "gw_index (Shadow_ends k res) = None"

text \<open>The suspensions at an \<^verbatim>\<open>await\<close> of the generator, where a cancellation or an exception can reach it.\<close>

definition awaiting :: "stream_phase \<Rightarrow> rat option" where
  "awaiting p = (case p of Connecting t \<Rightarrow> Some t | Streaming t b \<Rightarrow> Some t | Polling t b c \<Rightarrow> Some t | _ \<Rightarrow> None)"

definition gw_section :: "gateway_config \<Rightarrow> (json \<Rightarrow> string) \<Rightarrow> gw_event \<Rightarrow> gw_part \<Rightarrow> gw_part option" where
  "gw_section cfg sho e = (\<lambda>(r, m). (case e of
     Handler_runs _ v now \<Rightarrow> if gw_phase r = Not_asked then Some (handler_runs cfg sho v now (r, m)) else None
   | Body_starts _ \<Rightarrow> (case gw_phase r of Response_made t \<Rightarrow> Some (in_phase (Connecting t) r, m) | _ \<Rightarrow> None)
   | Body_dropped _ \<Rightarrow> (case gw_phase r of Response_made t \<Rightarrow> Some (in_phase Never_started r, m) | _ \<Rightarrow> None)
   | Connected _ status \<Rightarrow> (case gw_phase r of Connecting t \<Rightarrow> Some (connected t status (r, m)) | _ \<Rightarrow> None)
   | Chunk _ c now \<Rightarrow> (case gw_phase r of Streaming t seen \<Rightarrow> Some (chunk_arrives t seen c now (r, m)) | _ \<Rightarrow> None)
   | Polled _ d now \<Rightarrow> (case gw_phase r of Polling t seen c \<Rightarrow> Some (client_polled t seen c d now (r, m)) | _ \<Rightarrow> None)
   | Resumes _ now \<Rightarrow> (case gw_phase r of
         Sending t seen \<Rightarrow> Some (in_phase (Streaming t seen) r, m)
       | Sending_error t \<Rightarrow> Some (stream_ends Upstream_error t now (r, m)) | _ \<Rightarrow> None)
   | Upstream_ends _ now \<Rightarrow> (case gw_phase r of Streaming t seen \<Rightarrow> Some (stream_ends Ok_outcome t now (r, m)) | _ \<Rightarrow> None)
   | Http_error _ now \<Rightarrow> (case gw_phase r of
         Connecting t \<Rightarrow> Some (stream_ends Upstream_error t now (r, m))
       | Streaming t seen \<Rightarrow> Some (stream_ends Upstream_error t now (r, m)) | _ \<Rightarrow> None)
   | Other_exception _ now \<Rightarrow> (case awaiting (gw_phase r) of
         Some t \<Rightarrow> Some (stream_ends Ok_outcome t now (r, m)) | None \<Rightarrow> None)
   | Task_cancelled _ now \<Rightarrow> (case awaiting (gw_phase r) of
         Some t \<Rightarrow> Some (stream_ends Client_disconnect t now (count_cancelled (r, m))) | None \<Rightarrow> None)
   | Generator_closed _ now \<Rightarrow> (case gw_phase r of
         Sending t seen \<Rightarrow> Some (stream_ends Ok_outcome t now (r, m))
       | Sending_error t \<Rightarrow> Some (stream_ends Upstream_error t now (r, m)) | _ \<Rightarrow> None)
   | Shadow_ends _ _ \<Rightarrow> None))"

text \<open>The shadow task is created by the handler of a request that gets a payload, with a payload of its own.\<close>

definition new_shadows :: "gateway_config \<Rightarrow> gw_event \<Rightarrow> gw_request \<Rightarrow> gw_shadow list" where
  "new_shadows cfg e r = (case e of
     Handler_runs _ _ _ \<Rightarrow> (case (SHADOW_TARGET cfg, gw_payload r) of
         (Some _, Some p) \<Rightarrow> [\<lparr>sh_payload = p\<lparr>pl_stream := False\<rparr>, sh_outcome = None\<rparr>] | _ \<Rightarrow> [])
   | _ \<Rightarrow> [])"

definition mirror_to_shadow :: "nat \<Rightarrow> shadow_outcome \<Rightarrow> gateway \<Rightarrow> gateway" where
  "mirror_to_shadow k res s =
     (if k < length (gw_shadows s) \<and> sh_outcome (gw_shadows s ! k) = None
      then s\<lparr>gw_shadows := (gw_shadows s)[k := (gw_shadows s ! k)\<lparr>sh_outcome := Some res\<rparr>],
             gw_metrics := (gw_metrics s)\<lparr>SHADOW := (SHADOW (gw_metrics s))(res := SHADOW (gw_metrics s) res + 1)\<rparr>\<rparr>
      else s)"

definition gw_step :: "gateway_config \<Rightarrow> (json \<Rightarrow> string) \<Rightarrow> gw_event \<Rightarrow> gateway \<Rightarrow> gateway" where
  "gw_step cfg sho e s = (case gw_index e of
     None \<Rightarrow> (case e of Shadow_ends k res \<Rightarrow> mirror_to_shadow k res s | _ \<Rightarrow> s)
   | Some i \<Rightarrow> if length (gw_requests s) \<le> i then s else
       (case gw_section cfg sho e (gw_requests s ! i, gw_metrics s) of
          None \<Rightarrow> s
        | Some (r, m) \<Rightarrow> \<lparr>gw_metrics = m, gw_requests = (gw_requests s)[i := r], gw_shadows = gw_shadows s @ new_shadows cfg e r\<rparr>))"

definition gw_start :: "json option list \<Rightarrow> gateway" where
  "gw_start bodies =
     \<lparr>gw_metrics = \<lparr>REQUESTS = (\<lambda>_. 0), TTFT = [], TOTAL_LATENCY = [], INFLIGHT = 0, CANCELLED = 0, PROMPT_TOKENS = 0, SHADOW = (\<lambda>_. 0)\<rparr>,
      gw_requests = map (\<lambda>b. \<lparr>gw_body = b, gw_phase = Not_asked, gw_payload = None, gw_sent = []\<rparr>) bodies, gw_shadows = []\<rparr>"

definition gw_run :: "gateway_config \<Rightarrow> (json \<Rightarrow> string) \<Rightarrow> gw_event list \<Rightarrow> json option list \<Rightarrow> gateway" where
  "gw_run cfg sho evs bodies = fold (gw_step cfg sho) evs (gw_start bodies)"

subsection \<open>The books of the gateway\<close>

datatype gw_gauge = In_flight | Outcome outcome | Latencies | Disconnects

fun gw_reading :: "gateway \<Rightarrow> gw_gauge \<Rightarrow> int" where
  "gw_reading s In_flight = INFLIGHT (gw_metrics s)"
| "gw_reading s (Outcome out) = REQUESTS (gw_metrics s) out"
| "gw_reading s Latencies = int (length (TOTAL_LATENCY (gw_metrics s)))"
| "gw_reading s Disconnects = CANCELLED (gw_metrics s)"

fun gw_counts :: "gw_gauge \<Rightarrow> gw_request \<Rightarrow> bool" where
  "gw_counts In_flight r = (case gw_phase r of Not_asked \<Rightarrow> False | Failed_handler e \<Rightarrow> False | Ended out \<Rightarrow> False | _ \<Rightarrow> True)"
| "gw_counts (Outcome out) r = (gw_phase r = Ended out)"
| "gw_counts Latencies r = (\<exists>out. gw_phase r = Ended out)"
| "gw_counts Disconnects r = (gw_phase r = Ended Client_disconnect)"

definition gw_ok :: "gw_part \<Rightarrow> gw_part \<Rightarrow> bool" where
  "gw_ok = (\<lambda>(r, m) (r', m').
     INFLIGHT m' = INFLIGHT m + of_bool (gw_counts In_flight r') - of_bool (gw_counts In_flight r) \<and>
     (\<forall>out. REQUESTS m' out = REQUESTS m out + of_bool (gw_phase r' = Ended out) - of_bool (gw_phase r = Ended out)) \<and>
     int (length (TOTAL_LATENCY m')) = int (length (TOTAL_LATENCY m)) + of_bool (gw_counts Latencies r') - of_bool (gw_counts Latencies r) \<and>
     CANCELLED m' = CANCELLED m + of_bool (gw_phase r' = Ended Client_disconnect) - of_bool (gw_phase r = Ended Client_disconnect))"

lemma in_phase_simps [simp]: "gw_phase (in_phase p r) = p" "gw_payload (in_phase p r) = gw_payload r" "gw_body (in_phase p r) = gw_body r"
  by (simp_all add: in_phase_def)

lemma stream_ends_ok:
  assumes "gw_counts In_flight r"
  shows "out \<noteq> Client_disconnect \<Longrightarrow> gw_ok (r, m) (stream_ends out t now (r, m))"
    and "gw_ok (r, m) (stream_ends Client_disconnect t now (count_cancelled (r, m)))"
  using assms by (auto simp: gw_ok_def stream_ends_def count_cancelled_def split: stream_phase.splits)

lemma handler_runs_ok: "gw_phase r = Not_asked \<Longrightarrow> gw_ok (r, m) (handler_runs cfg sho v now (r, m))"
  by (simp add: gw_ok_def handler_runs_def split: sum.split)

lemma moves_ok:
  "gw_phase r = Connecting t \<Longrightarrow> gw_ok (r, m) (connected t status (r, m))"
  "gw_phase r = Streaming t seen \<Longrightarrow> gw_ok (r, m) (chunk_arrives t seen c now (r, m))"
  "gw_phase r = Polling t seen c \<Longrightarrow> gw_ok (r, m) (client_polled t seen c d now (r, m))"
  using stream_ends_ok(2) [of r m t now]
  by (auto simp: gw_ok_def connected_def chunk_arrives_def client_polled_def)

lemma awaiting_in_flight: "awaiting (gw_phase r) = Some t \<Longrightarrow> gw_counts In_flight r"
  by (auto simp: awaiting_def split: stream_phase.splits)

lemma phase_move_ok:
  "gw_counts In_flight r \<Longrightarrow> (case p of Not_asked \<Rightarrow> False | Failed_handler e \<Rightarrow> False | Ended out \<Rightarrow> False | _ \<Rightarrow> True) \<Longrightarrow> gw_ok (r, m) (in_phase p r, m)"
  by (auto simp: gw_ok_def split: stream_phase.splits)

lemma gw_section_ok:
  assumes "gw_section cfg sho e (r, m) = Some res"
  shows "gw_ok (r, m) res"
proof -
  have fl: "gw_counts In_flight r" if "gw_phase r \<in> {Response_made t, Connecting t, Streaming t b, Polling t b c, Sending t b, Sending_error t}" for t b c
    using that by auto
  show ?thesis
  proof (cases e)
    case (Handler_runs i v now)
    with assms handler_runs_ok [of r m cfg sho v now] show ?thesis by (auto simp: gw_section_def split: if_split_asm)
  next
    case (Connected i k)
    with assms moves_ok(1) show ?thesis by (auto simp: gw_section_def split: stream_phase.split_asm)
  next
    case (Chunk i c t)
    with assms moves_ok(2) show ?thesis by (auto simp: gw_section_def split: stream_phase.split_asm)
  next
    case (Polled i d t)
    with assms moves_ok(3) show ?thesis by (auto simp: gw_section_def split: stream_phase.split_asm)
  next
    case (Task_cancelled i now)
    with assms show ?thesis by (auto simp: gw_section_def split: option.split_asm intro: stream_ends_ok(2) awaiting_in_flight)
  next
    case (Other_exception i now)
    with assms show ?thesis by (auto simp: gw_section_def split: option.split_asm intro: stream_ends_ok(1) awaiting_in_flight)
  qed (use assms in \<open>auto simp: gw_section_def split: stream_phase.split_asm intro!: phase_move_ok stream_ends_ok(1)\<close>)
qed

lemma gw_step_law:
  "gw_requests (gw_step cfg sho e s) = gw_requests s \<and> (\<forall>q. gw_reading (gw_step cfg sho e s) q = gw_reading s q) \<or>
   (\<exists>i r. i < length (gw_requests s) \<and> gw_requests (gw_step cfg sho e s) = (gw_requests s)[i := r] \<and>
      (\<forall>q. gw_reading (gw_step cfg sho e s) q = gw_reading s q + of_bool (gw_counts q r) - of_bool (gw_counts q (gw_requests s ! i))))"
proof (cases "gw_index e")
  case None
  then obtain k res where e: "e = Shadow_ends k res" by (cases e) simp_all
  have "gw_reading (mirror_to_shadow k res s) q = gw_reading s q" for q by (cases q) (simp_all add: mirror_to_shadow_def)
  moreover have "gw_requests (mirror_to_shadow k res s) = gw_requests s" by (simp add: mirror_to_shadow_def)
  ultimately show ?thesis by (simp add: gw_step_def e)
next
  case (Some i)
  show ?thesis
  proof (cases "i < length (gw_requests s) \<and> gw_section cfg sho e (gw_requests s ! i, gw_metrics s) \<noteq> None")
    case True
    then obtain r m where sec: "gw_section cfg sho e (gw_requests s ! i, gw_metrics s) = Some (r, m)" by auto
    have s': "gw_step cfg sho e s = \<lparr>gw_metrics = m, gw_requests = (gw_requests s)[i := r], gw_shadows = gw_shadows s @ new_shadows cfg e r\<rparr>"
      using Some True sec by (auto simp: gw_step_def)
    from gw_section_ok [OF sec] have "gw_reading (gw_step cfg sho e s) q = gw_reading s q + of_bool (gw_counts q r) - of_bool (gw_counts q (gw_requests s ! i))" for q
      by (cases q) (simp_all add: gw_ok_def s')
    with True s' show ?thesis by auto
  next
    case False
    with Some have "gw_step cfg sho e s = s" by (auto simp: gw_step_def not_le split: option.split)
    then show ?thesis by simp
  qed
qed

interpretation gw_books: task_books "gw_step cfg sho" gw_requests "\<lambda>_. True" "\<lambda>s. gw_reading s q" "\<lambda>r. of_bool (gw_counts q r)" for cfg sho q
proof unfold_locales
  fix s :: gateway and e
  from gw_step_law [of cfg sho e s]
  show "True \<and> (gw_requests (gw_step cfg sho e s) = gw_requests s \<and> gw_reading (gw_step cfg sho e s) q = gw_reading s q \<or>
    (\<exists>i r. i < length (gw_requests s) \<and> gw_requests (gw_step cfg sho e s) = (gw_requests s)[i := r] \<and>
       gw_reading (gw_step cfg sho e s) q = gw_reading s q + of_bool (gw_counts q r) - of_bool (gw_counts q (gw_requests s ! i))))" by blast
qed

text \<open>
  C22. Invariant: in every interleaving of responses, disconnects, errors, cancellations and shadows: each outcome counts exactly
  the requests that ended with it, the cancelled counter exactly the disconnects the generator saw, every end is one latency sample,
  and the gauge counts the requests that have a response and have not ended, the ones whose generator never started included.
\<close>

theorem gateway_books_balance:
  "gw_reading (gw_run cfg sho evs bodies) q = int (length (filter (gw_counts q) (gw_requests (gw_run cfg sho evs bodies))))"
proof -
  have z: "gw_reading (gw_start bodies) q = 0" by (cases q) (simp_all add: gw_start_def)
  have none: "filter (gw_counts q) (gw_requests (gw_start bodies)) = []"
    by (cases q) (auto simp: gw_start_def filter_empty_conv)
  show ?thesis
    using gw_books.books_run [of "gw_start bodies" q cfg sho evs] none z by (simp add: sum_of_bool gw_run_def)
qed

subsection \<open>A shadow cannot touch the primary\<close>

definition blind :: "gateway_metrics \<Rightarrow> gateway_metrics" where
  "blind m = m\<lparr>SHADOW := (\<lambda>_. 0)\<rparr>"

definition primary :: "gateway \<Rightarrow> gw_request list \<times> gateway_metrics" where
  "primary s = (gw_requests s, blind (gw_metrics s))"

definition unmirrored :: "gateway_config \<Rightarrow> gateway_config" where
  "unmirrored cfg = cfg\<lparr>SHADOW_TARGET := None\<rparr>"

definition is_primary :: "gw_event \<Rightarrow> bool" where
  "is_primary e \<longleftrightarrow> gw_index e \<noteq> None"

lemma unmirrored_simps [simp]: "MODEL_NAME (unmirrored cfg) = MODEL_NAME cfg" "PROMPT_VOLATILE (unmirrored cfg) = PROMPT_VOLATILE cfg"
  by (simp_all add: unmirrored_def)

lemma payload_unmirrored: "generate_payload (unmirrored cfg) sho b v = generate_payload cfg sho b v"
  unfolding generate_payload_def by (simp only: unmirrored_simps)

lemma stream_ends_blind: "stream_ends out t now (r, blind m) = (fst (stream_ends out t now (r, m)), blind (snd (stream_ends out t now (r, m))))"
  "count_cancelled (r, blind m) = (r, blind (snd (count_cancelled (r, m))))" "fst (count_cancelled (r, m)) = r"
  by (simp_all add: stream_ends_def count_cancelled_def blind_def)

lemma cancelled_ends_blind:
  "stream_ends out t now (count_cancelled (r, blind m)) =
     (fst (stream_ends out t now (count_cancelled (r, m))), blind (snd (stream_ends out t now (count_cancelled (r, m)))))"
  by (simp add: stream_ends_def count_cancelled_def blind_def)

lemma sections_blind:
  "handler_runs (unmirrored cfg) sho v now (r, blind m) = (fst (handler_runs cfg sho v now (r, m)), blind (snd (handler_runs cfg sho v now (r, m))))"
  "connected t status (r, blind m) = (fst (connected t status (r, m)), blind (snd (connected t status (r, m))))"
  "chunk_arrives t seen c now (r, blind m) = (fst (chunk_arrives t seen c now (r, m)), blind (snd (chunk_arrives t seen c now (r, m))))"
  "client_polled t seen c d now (r, blind m) = (fst (client_polled t seen c d now (r, m)), blind (snd (client_polled t seen c d now (r, m))))"
  by (simp_all add: handler_runs_def payload_unmirrored connected_def chunk_arrives_def client_polled_def cancelled_ends_blind)
    (simp_all add: blind_def split: sum.split)

lemma gw_section_blind:
  "gw_section (unmirrored cfg) sho e (r, blind m) = map_option (\<lambda>p. (fst p, blind (snd p))) (gw_section cfg sho e (r, m))"
  by (cases e) (simp_all add: gw_section_def sections_blind stream_ends_blind(1) cancelled_ends_blind split: stream_phase.split option.split)

lemma primary_step:
  assumes "primary s = primary s'" "gw_metrics s' = blind (gw_metrics s')"
  shows "is_primary e \<Longrightarrow> primary (gw_step cfg sho e s) = primary (gw_step (unmirrored cfg) sho e s') \<and>
      gw_metrics (gw_step (unmirrored cfg) sho e s') = blind (gw_metrics (gw_step (unmirrored cfg) sho e s'))"
    and "\<not> is_primary e \<Longrightarrow> primary (gw_step cfg sho e s) = primary s"
proof -
  have r: "gw_requests s' = gw_requests s" and m: "gw_metrics s' = blind (gw_metrics s)" using assms by (simp_all add: primary_def)
  have bb: "blind (blind m) = blind m" for m by (simp add: blind_def)
  show "primary (gw_step cfg sho e s) = primary (gw_step (unmirrored cfg) sho e s') \<and>
      gw_metrics (gw_step (unmirrored cfg) sho e s') = blind (gw_metrics (gw_step (unmirrored cfg) sho e s'))" if "is_primary e"
  proof -
    from that obtain i where i: "gw_index e = Some i" by (auto simp: is_primary_def)
    from gw_section_blind [of cfg sho e "gw_requests s ! i" "gw_metrics s"] show ?thesis
      using i r m by (auto simp: gw_step_def primary_def bb split: option.split)
  qed
  show "primary (gw_step cfg sho e s) = primary s" if "\<not> is_primary e"
    using that by (cases e) (simp_all add: is_primary_def gw_step_def mirror_to_shadow_def primary_def blind_def)
qed

lemma primary_run:
  "primary s = primary s' \<Longrightarrow> gw_metrics s' = blind (gw_metrics s') \<Longrightarrow>
     primary (fold (gw_step cfg sho) es s) = primary (fold (gw_step (unmirrored cfg) sho) (filter is_primary es) s')"
proof (induction es arbitrary: s s')
  case (Cons e es)
  show ?case
  proof (cases "is_primary e")
    case True
    with primary_step(1) [OF Cons.prems True, of cfg sho] show ?thesis by (simp add: Cons.IH)
  next
    case False
    with primary_step(2) [OF Cons.prems False, of cfg sho] Cons.prems show ?thesis by (simp add: Cons.IH)
  qed
qed simp

text \<open>
  C23. Equivalence: whatever the shadow requests do, how many there are and when they end, requests, streams, chunks sent and all
  metrics but the shadow counter are those of the gateway without a shadow target on the same primary events.
\<close>

theorem shadow_never_touches_primary:
  "primary (gw_run cfg sho evs bodies) = primary (gw_run (unmirrored cfg) sho (filter is_primary evs) bodies)"
  unfolding gw_run_def by (rule primary_run) (simp_all add: gw_start_def blind_def)

subsection \<open>Where the books mislead\<close>

definition tail_gateway :: gateway_config where
  "tail_gateway = \<lparr>MODEL_NAME = ''local'', PROMPT_VOLATILE = ''tail'', SHADOW_TARGET = None\<rparr>"

lemma tail_payload: "\<exists>p. generate_payload tail_gateway sho None v = Inr p"
  by (simp add: generate_payload_def body_get_def py_int_of_json_def render_def tail_gateway_def)

lemma tail_shadow: "SHADOW_TARGET tail_gateway = None"
  by (simp add: tail_gateway_def)

text \<open>A response whose generator never starts stays in the gauge for good, and no outcome is counted for it.\<close>

lemma unstarted_response_leaks:
  "gw_reading (gw_run tail_gateway sho [Handler_runs 0 v 0, Body_dropped 0] [None]) In_flight = 1 \<and>
   gw_reading (gw_run tail_gateway sho [Handler_runs 0 v 0, Body_dropped 0] [None]) (Outcome out) = 0"
  using tail_payload [of sho v]
  by (auto simp: gw_run_def gw_start_def gw_step_def gw_section_def handler_runs_def new_shadows_def tail_shadow)

text \<open>A client that leaves while a chunk is being sent is counted as a success, and not as a cancelled upstream.\<close>

lemma disconnect_while_sending_is_ok:
  assumes "gw_phase r = Sending t seen"
  shows "\<exists>m'. gw_section cfg sho (Generator_closed i now) (r, m) = Some (in_phase (Ended Ok_outcome) r, m') \<and>
    REQUESTS m' Ok_outcome = REQUESTS m Ok_outcome + 1 \<and> CANCELLED m' = CANCELLED m"
  using assms by (simp add: gw_section_def stream_ends_def)

end
