(* ===== verification/Obs_Signals.thy ===== *)
theory Obs_Signals
  imports Lab_Prelude PyFloat "HOL-Library.List_Lexorder" "HOL-Library.Char_ord"
begin

text \<open>
  The observability layer: the counter with a cardinality limit (\<^verbatim>\<open>04-cardinality/python/cardinality_overflow.py\<close>), the
  \<^verbatim>\<open>for:\<close> clause of an alert (\<^verbatim>\<open>page_worthiness.py\<close> and \<^verbatim>\<open>burn_rate.py\<close>), and the burn-rate alert of
  \<^verbatim>\<open>detection_gap.py\<close> with its windows in double arithmetic.
\<close>

subsection \<open>A counter with a cardinality limit\<close>

text \<open>Label values are strings and integers; the overflow series alone carries a Boolean.\<close>

datatype attr_value = VStr string | VInt int | VBool bool

type_synonym attr_set = "(string \<times> attr_value) list"

record sdk_counter =
  limit :: "int option"
  series :: "(attr_set \<times> int) list"
  overflowed_measurements :: int
  rejected_attribute_sets :: "attr_set set"

definition new_counter :: "int option \<Rightarrow> sdk_counter" where
  "new_counter l = \<lparr>limit = l, series = [], overflowed_measurements = 0, rejected_attribute_sets = {}\<rparr>"

definition OVERFLOW :: attr_set where
  "OVERFLOW = [(''otel.metric.overflow'', VBool True)]"

definition attr_key :: "attr_set \<Rightarrow> attr_set" where
  "attr_key attrs = sort_key fst attrs"

text \<open>\<^verbatim>\<open>d[k] = d.get(k, 0) + v\<close> on a dictionary in insertion order.\<close>

fun accumulate :: "'k \<Rightarrow> int \<Rightarrow> ('k \<times> int) list \<Rightarrow> ('k \<times> int) list" where
  "accumulate k v [] = [(k, v)]"
| "accumulate k v ((k', x) # r) = (if k' = k then (k', x + v) # r else (k', x) # accumulate k v r)"

definition unlimited :: "int option \<Rightarrow> bool" where
  "unlimited l = (l = None \<or> l = Some 0)"

definition add_measurement :: "int \<Rightarrow> attr_set \<Rightarrow> sdk_counter \<Rightarrow> sdk_counter" where
  "add_measurement v attrs c =
     (let k = attr_key attrs in
      if k \<in> fst ` set (series c) then c\<lparr>series := accumulate k v (series c)\<rparr>
      else if unlimited (limit c) \<or> int (length (series c)) < the (limit c) - 1
      then c\<lparr>series := series c @ [(k, v)]\<rparr>
      else c\<lparr>series := accumulate OVERFLOW v (series c), overflowed_measurements := overflowed_measurements c + v,
             rejected_attribute_sets := insert k (rejected_attribute_sets c)\<rparr>)"

definition counter_total :: "sdk_counter \<Rightarrow> int" where
  "counter_total c = sum_list (map snd (series c))"

definition sum_by :: "string \<Rightarrow> sdk_counter \<Rightarrow> (attr_value \<times> int) list" where
  "sum_by label c = fold (\<lambda>(key, v) out. case map_of key label of None \<Rightarrow> out | Some a \<Rightarrow> accumulate a v out) (series c) []"

definition active_series :: "sdk_counter \<Rightarrow> nat" where
  "active_series c = length (series c)"

definition record_all :: "int option \<Rightarrow> (int \<times> attr_set) list \<Rightarrow> sdk_counter" where
  "record_all l recs = fold (\<lambda>(v, a). add_measurement v a) recs (new_counter l)"

subsection \<open>What the counter keeps of a recs\<close>

text \<open>The distinct elements in order of first occurrence, and those of them the limit admits.\<close>

definition firsts :: "'a list \<Rightarrow> 'a list" where
  "firsts xs = rev (remdups (rev xs))"

definition kept_sets :: "int option \<Rightarrow> (int \<times> attr_set) list \<Rightarrow> attr_set list" where
  "kept_sets l recs = (let ks = firsts (map (attr_key \<circ> snd) recs) in if unlimited l then ks else take (nat (the l - 1)) ks)"

definition true_sum :: "(attr_set \<Rightarrow> bool) \<Rightarrow> (int \<times> attr_set) list \<Rightarrow> int" where
  "true_sum P recs = sum_list (map fst (filter (\<lambda>(v, a). P (attr_key a)) recs))"

definition all_kept :: "int option \<Rightarrow> (int \<times> attr_set) list \<Rightarrow> bool" where
  "all_kept l recs = list_all (\<lambda>(v, a). attr_key a \<in> set (kept_sets l recs)) recs"

definition spec_series :: "int option \<Rightarrow> (int \<times> attr_set) list \<Rightarrow> (attr_set \<times> int) list" where
  "spec_series l recs =
     map (\<lambda>k. (k, true_sum (\<lambda>k'. k' = k) recs)) (kept_sets l recs) @
     (if all_kept l recs then [] else [(OVERFLOW, true_sum (\<lambda>k. k \<notin> set (kept_sets l recs)) recs)])"

lemma firsts_simps [simp]:
  "firsts [] = []" "firsts (xs @ [x]) = (if x \<in> set xs then firsts xs else firsts xs @ [x])"
  "set (firsts xs) = set xs" "distinct (firsts xs)"
  by (simp_all add: firsts_def)

lemma true_sum_snoc [simp]:
  "true_sum P [] = 0" "true_sum P (recs @ [(v, a)]) = true_sum P recs + (if P (attr_key a) then v else 0)"
  by (simp_all add: true_sum_def)

lemma accumulate_append:
  "k \<notin> fst ` set xs \<Longrightarrow> accumulate k v (xs @ ys) = xs @ accumulate k v ys"
  by (induction xs) auto

lemma accumulate_map:
  "k \<in> set ks \<Longrightarrow> distinct ks \<Longrightarrow>
   accumulate k v (map (\<lambda>x. (x, f x)) ks @ ys) = map (\<lambda>x. (x, f x + (if x = k then v else 0))) ks @ ys"
  by (induction ks) auto

text \<open>All sets are kept, or the limit is reached.\<close>

lemma kept_full:
  assumes "\<not> all_kept l recs"
  shows "\<not> unlimited l \<and> length (kept_sets l recs) = nat (the l - 1)"
proof -
  let ?ks = "firsts (map (attr_key \<circ> snd) recs)"
  obtain v a where a: "(v, a) \<in> set recs" "attr_key a \<notin> set (kept_sets l recs)"
    using assms by (auto simp: all_kept_def list_all_iff)
  then have "attr_key a \<in> set ?ks" by force
  with a(2) have "kept_sets l recs \<noteq> ?ks" by metis
  then show ?thesis by (auto simp: kept_sets_def Let_def min_def split: if_splits)
qed

lemma kept_all:
  assumes "all_kept l recs"
  shows "kept_sets l recs = firsts (map (attr_key \<circ> snd) recs)"
proof (cases "unlimited l")
  case False
  let ?ks = "firsts (map (attr_key \<circ> snd) recs)" and ?n = "nat (the l - 1)"
  have t: "kept_sets l recs = take ?n ?ks" using False by (simp add: kept_sets_def Let_def)
  have "set ?ks \<subseteq> set (take ?n ?ks)" using assms t by (auto simp: all_kept_def list_all_iff)
  then have "length ?ks \<le> length (take ?n ?ks)"
    by (metis card_mono distinct_card distinct_take firsts_simps(4) List.finite_set)
  with t show ?thesis by simp
qed (simp add: kept_sets_def)

lemma all_kept_rest: "all_kept l recs \<Longrightarrow> true_sum (\<lambda>k. k \<notin> set (kept_sets l recs)) recs = 0"
proof -
  assume "all_kept l recs"
  then have "filter (\<lambda>(v, a). attr_key a \<notin> set (kept_sets l recs)) recs = []"
    by (auto simp: all_kept_def list_all_iff filter_empty_conv)
  then show ?thesis by (simp add: true_sum_def)
qed

text \<open>One more measurement, on the side of the specification.\<close>

lemma kept_snoc:
  "kept_sets l (recs @ [(v, a)]) =
     (if attr_key a \<in> attr_key ` snd ` set recs then kept_sets l recs
      else if unlimited l \<or> length (firsts (map (attr_key \<circ> snd) recs)) < nat (the l - 1) then kept_sets l recs @ [attr_key a]
      else kept_sets l recs)"
  by (auto simp: kept_sets_def Let_def image_image)

lemma not_kept_sum: "k \<notin> attr_key ` snd ` set recs \<Longrightarrow> true_sum (\<lambda>k'. k' = k) recs = 0"
proof -
  assume "k \<notin> attr_key ` snd ` set recs"
  then have "filter (\<lambda>(v, a). attr_key a = k) recs = []" by (force simp: filter_empty_conv)
  then show ?thesis by (simp add: true_sum_def)
qed

lemma kept_subset: "set (kept_sets l recs) \<subseteq> attr_key ` snd ` set recs"
  by (auto simp: kept_sets_def Let_def dest: in_set_takeD) (force dest: in_set_takeD)

lemma kept_distinct: "distinct (kept_sets l recs)"
  by (simp add: kept_sets_def Let_def)

lemma counter_spec:
  assumes "OVERFLOW \<notin> attr_key ` snd ` set recs"
  shows "series (record_all l recs) = spec_series l recs \<and>
    overflowed_measurements (record_all l recs) = true_sum (\<lambda>k. k \<notin> set (kept_sets l recs)) recs \<and>
    rejected_attribute_sets (record_all l recs) = attr_key ` snd ` set recs - set (kept_sets l recs)"
  using assms
proof (induction recs rule: rev_induct)
  case Nil
  show ?case by (simp add: record_all_def new_counter_def spec_series_def kept_sets_def all_kept_def)
next
  case (snoc r recs)
  obtain v a where r: "r = (v, a)" by (cases r)
  let ?c = "record_all l recs" and ?k = "attr_key a" and ?ks = "kept_sets l recs" and ?old = "attr_key ` snd ` set recs"
  let ?sums = "\<lambda>rs ks. map (\<lambda>k. (k, true_sum (\<lambda>k'. k' = k) rs)) ks"
  let ?over = "if all_kept l recs then [] else [(OVERFLOW, true_sum (\<lambda>k. k \<notin> set ?ks) recs)]"
  have IH: "series ?c = ?sums recs ?ks @ ?over" "overflowed_measurements ?c = true_sum (\<lambda>k. k \<notin> set ?ks) recs"
    "rejected_attribute_sets ?c = ?old - set ?ks" using snoc by (auto simp: spec_series_def)
  have lim: "limit ?c = l"
    by (induction recs rule: rev_induct) (auto simp: record_all_def new_counter_def add_measurement_def Let_def)
  let ?recs' = "recs @ [(v, a)]"
  have step: "record_all l ?recs' = add_measurement v a ?c" by (simp add: record_all_def)
  have ko: "?k \<noteq> OVERFLOW" and oks: "OVERFLOW \<notin> set ?ks" using snoc.prems kept_subset [of l recs] by (auto simp: r)
  have keys: "?k \<in> fst ` set (series ?c) \<longleftrightarrow> ?k \<in> set ?ks" using ko by (simp add: IH(1) image_image image_Un)
  have new: "all_kept l ?recs' \<longleftrightarrow> all_kept l recs \<and> ?k \<in> set ?ks" if "kept_sets l ?recs' = ?ks"
    using that by (simp add: all_kept_def)
  consider (kept) "?k \<in> set ?ks" | (room) "?k \<notin> set ?ks" "unlimited l \<or> int (length (series ?c)) < the l - 1"
    | (full) "?k \<notin> set ?ks" "\<not> (unlimited l \<or> int (length (series ?c)) < the l - 1)" by blast
  then show ?case
  proof cases
    case kept
    then have "?k \<in> ?old" using kept_subset by blast
    then have ks: "kept_sets l ?recs' = ?ks" by (simp add: kept_snoc)
    have "accumulate ?k v (series ?c) = spec_series l ?recs'"
      using kept unfolding IH(1) by (subst accumulate_map) (auto simp: spec_series_def ks new kept_distinct intro!: map_cong)
    moreover have "insert ?k ?old - set ?ks = ?old - set ?ks" using kept by auto
    ultimately show ?thesis using kept keys IH(2,3) unfolding r step by (simp add: add_measurement_def Let_def ks)
  next
    case room
    have all: "all_kept l recs"

    proof (rule ccontr)
      assume na: "\<not> all_kept l recs"
      with kept_full [OF na] room(2) show False by (simp add: IH(1) split: if_splits)
    qed
    then have f: "?ks = firsts (map (attr_key \<circ> snd) recs)" by (rule kept_all)
    with room(1) have ko': "?k \<notin> ?old" by (auto simp: image_image)
    have "length (firsts (map (attr_key \<circ> snd) recs)) < nat (the l - 1)" if "\<not> unlimited l"
      using room(2) that all f by (simp add: IH(1))
    then have ks: "kept_sets l ?recs' = ?ks @ [?k]" using ko' by (auto simp: kept_snoc)
    have "all_kept l ?recs'" using all ks by (auto simp: all_kept_def list_all_iff)
    then have "overflowed_measurements ?c = true_sum (\<lambda>k. k \<notin> set (kept_sets l ?recs')) ?recs'"
      using all_kept_rest [of l recs] all_kept_rest [of l ?recs'] all IH(2) by (simp del: true_sum_snoc)
    moreover have "?old - set ?ks = insert ?k ?old - set (?ks @ [?k])" using ko' by auto
    moreover have "series ?c @ [(?k, v)] = spec_series l ?recs'"
      using all \<open>all_kept l ?recs'\<close> room(1) not_kept_sum [OF ko'] by (auto simp: IH(1) spec_series_def ks)
    ultimately show ?thesis using room keys IH(3) lim unfolding r step by (simp add: add_measurement_def Let_def ks)
  next
    case full
    have "kept_sets l ?recs' = ?ks"
    proof (cases "all_kept l recs")
      case True
      with full(2) kept_all [OF True] show ?thesis by (auto simp: kept_snoc IH(1))
    next
      case False
      have "length ?ks \<le> length (firsts (map (attr_key \<circ> snd) recs))" by (simp add: kept_sets_def Let_def)
      with kept_full [OF False] show ?thesis by (auto simp: kept_snoc)
    qed
    then have ks: "kept_sets l ?recs' = ?ks" .
    have over: "accumulate OVERFLOW v (series ?c) = spec_series l ?recs'"
    proof -
      have "OVERFLOW \<notin> fst ` set (?sums recs ?ks)" using oks by (simp add: image_image)
      then have "accumulate OVERFLOW v (series ?c) = ?sums recs ?ks @ accumulate OVERFLOW v ?over"
        unfolding IH(1) by (rule accumulate_append)
      moreover have "accumulate OVERFLOW v ?over = [(OVERFLOW, true_sum (\<lambda>k. k \<notin> set ?ks) recs + v)]"
        using all_kept_rest [of l recs] by simp
      moreover have "?sums ?recs' ?ks = ?sums recs ?ks" using full(1) by auto
      ultimately show ?thesis using full(1) new [OF ks] by (simp add: spec_series_def ks)
    qed
    moreover have "insert ?k (?old - set ?ks) = insert ?k ?old - set ?ks" using full(1) by auto
    ultimately show ?thesis using full keys IH(2,3) lim unfolding r step by (simp add: add_measurement_def Let_def ks)
  qed
qed

text \<open>
  C33. The counter is what its specification says: the first \<open>limit - 1\<close> distinct attribute sets have their exact sums, in
  order of arrival, and everything else, and nothing but that, is one overflow series, whose value is also the count of
  overflowed measurements.
\<close>

theorem counter_refines_log:
  assumes "OVERFLOW \<notin> attr_key ` snd ` set recs"
  shows "series (record_all l recs) = spec_series l recs \<and>
    overflowed_measurements (record_all l recs) = true_sum (\<lambda>k. k \<notin> set (kept_sets l recs)) recs \<and>
    rejected_attribute_sets (record_all l recs) = attr_key ` snd ` set recs - set (kept_sets l recs)"
  by (rule counter_spec [OF assms])

theorem counter_refines_log_witness:
  "series (record_all (Some 2) [(1, [(''c'', VInt 1)]), (1, [(''c'', VInt 2)]), (5, [(''c'', VInt 1)]), (1, [(''c'', VInt 3)])]) =
     [([(''c'', VInt 1)], 6), (OVERFLOW, 2)]"
  using counter_refines_log [of "[(1, [(''c'', VInt 1)]), (1, [(''c'', VInt 2)]), (5, [(''c'', VInt 1)]), (1, [(''c'', VInt 3)])]" "Some 2"]
  by (simp add: OVERFLOW_def attr_key_def spec_series_def kept_sets_def unlimited_def firsts_def all_kept_def true_sum_def Let_def)

subsection \<open>What the queries see\<close>

lemma accumulate_sum [simp]: "sum_list (map snd (accumulate k v xs)) = sum_list (map snd xs) + v"
  by (induction xs) auto

text \<open>The grand total is always right; the number of series is bounded, the overflow series included.\<close>

lemma counter_total_exact: "counter_total (record_all l recs) = sum_list (map fst recs)"
proof (induction recs rule: rev_induct)
  case (snoc r recs)
  obtain v a where r: "r = (v, a)" by (cases r)
  have "counter_total (add_measurement v a c) = counter_total c + v" for c
    by (simp add: add_measurement_def counter_total_def Let_def)
  with snoc show ?case by (simp add: record_all_def r)
qed (simp add: record_all_def new_counter_def counter_total_def)

lemma series_bounded:
  assumes "1 \<le> n" "OVERFLOW \<notin> attr_key ` snd ` set recs"
  shows "int (active_series (record_all (Some n) recs)) \<le> n"
proof -
  have "int (length (kept_sets (Some n) recs)) \<le> n - 1"
    using assms(1) by (simp add: kept_sets_def unlimited_def Let_def)
  then show ?thesis using counter_spec [OF assms(2), of "Some n"] by (simp add: active_series_def spec_series_def)
qed

lemma sum_by_total:
  "sum_list (map snd (sum_by label c)) = sum_list (map snd (filter (\<lambda>(k, v). map_of k label \<noteq> None) (series c)))"
proof -
  have "sum_list (map snd (fold (\<lambda>(key, v) out. case map_of key label of None \<Rightarrow> out | Some a \<Rightarrow> accumulate a v out) xs out)) =
      sum_list (map snd out) + sum_list (map snd (filter (\<lambda>(k, v). map_of k label \<noteq> None) xs))" for xs :: "(attr_set \<times> int) list" and out
    by (induction xs arbitrary: out) (auto split: option.split)
  then show ?thesis by (simp add: sum_by_def)
qed

text \<open>
  The grand total of a counter is exact for every log and limit, and a breakdown by a label that every measurement
  carries loses exactly what overflowed: the two sums disagree by the overflow count and nothing else.
\<close>

theorem breakdown_loses_overflow:
  assumes "\<forall>(v, a)\<in>set recs. map_of (attr_key a) label \<noteq> None" "label \<noteq> ''otel.metric.overflow''"
  shows "counter_total (record_all l recs) = sum_list (map fst recs) \<and>
    sum_list (map snd (sum_by label (record_all l recs))) =
      counter_total (record_all l recs) - overflowed_measurements (record_all l recs)"
proof -
  have no: "map_of OVERFLOW label = None" using assms(2) by (simp add: OVERFLOW_def)
  with assms(1) have o: "OVERFLOW \<notin> attr_key ` snd ` set recs" by force
  let ?ks = "kept_sets l recs" and ?f = "\<lambda>k. true_sum (\<lambda>k'. k' = k) recs"
  have "\<forall>k\<in>set ?ks. map_of k label \<noteq> None" using kept_subset [of l recs] assms(1) by force
  then have kept: "filter (\<lambda>(k, v). map_of k label \<noteq> None) (map (\<lambda>k. (k, ?f k)) ?ks) = map (\<lambda>k. (k, ?f k)) ?ks"
    by (auto simp: filter_map intro!: filter_True)
  have "filter (\<lambda>(k, v). map_of k label \<noteq> None) (spec_series l recs) = map (\<lambda>k. (k, ?f k)) ?ks"
    using kept no by (simp add: spec_series_def)
  moreover have "counter_total (record_all l recs) =
      sum_list (map snd (map (\<lambda>k. (k, ?f k)) ?ks)) + true_sum (\<lambda>k. k \<notin> set ?ks) recs"
    using counter_spec [OF o, of l] all_kept_rest [of l recs] by (simp add: counter_total_def spec_series_def)
  ultimately show ?thesis using counter_spec [OF o, of l] by (simp add: sum_by_total counter_total_exact)
qed

theorem breakdown_loses_overflow_witness:
  "sum_list (map snd (sum_by ''c'' (record_all (Some 2) [(1, [(''c'', VInt 1)]), (1, [(''c'', VInt 2)]), (5, [(''c'', VInt 1)])]))) =
     7 - overflowed_measurements (record_all (Some 2) [(1, [(''c'', VInt 1)]), (1, [(''c'', VInt 2)]), (5, [(''c'', VInt 1)])])"
  using breakdown_loses_overflow [of "[(1, [(''c'', VInt 1)]), (1, [(''c'', VInt 2)]), (5, [(''c'', VInt 1)])]" "''c''" "Some 2"]
  by (simp add: attr_key_def)

text \<open>
  The selector on a status loses the overflow series from the numerator only; the denominator keeps it. The statuses of
  the traffic are integers; comparing a string with one would raise.
\<close>

definition status_at_least :: "int \<Rightarrow> attr_set \<Rightarrow> bool" where
  "status_at_least n k = (case map_of k ''status'' of
     None \<Rightarrow> n \<le> 0 | Some (VInt s) \<Rightarrow> n \<le> s | Some (VBool b) \<Rightarrow> n \<le> of_bool b | Some (VStr t) \<Rightarrow> False)"

definition metric_5xx :: "sdk_counter \<Rightarrow> int" where
  "metric_5xx c = sum_list (map snd (filter (\<lambda>(k, v). status_at_least 500 k) (series c)))"

lemma numerator_loses_overflow:
  assumes "OVERFLOW \<notin> attr_key ` snd ` set recs"
  shows "metric_5xx (record_all l recs) =
    sum_list (map (\<lambda>k. true_sum (\<lambda>k'. k' = k) recs) (filter (status_at_least 500) (kept_sets l recs)))"
proof -
  have "\<not> status_at_least 500 OVERFLOW" by (simp add: status_at_least_def OVERFLOW_def)
  then show ?thesis using counter_spec [OF assms, of l] by (simp add: metric_5xx_def spec_series_def filter_map comp_def)
qed

subsection \<open>The \<^verbatim>\<open>for:\<close> clause\<close>

text \<open>\<^verbatim>\<open>sustained\<close>: the minutes whose streak of true conditions is long enough.\<close>

fun sustained_from :: "nat \<Rightarrow> nat \<Rightarrow> nat \<Rightarrow> bool list \<Rightarrow> nat list" where
  "sustained_from for_minutes minute streak [] = []"
| "sustained_from for_minutes minute streak (holds # conds) =
     (let streak' = (if holds then streak + 1 else 0) in
      (if for_minutes \<le> streak' then [minute] else []) @ sustained_from for_minutes (Suc minute) streak' conds)"

definition sustained :: "bool list \<Rightarrow> nat \<Rightarrow> nat list" where
  "sustained conds for_minutes = sustained_from for_minutes 0 0 conds"

definition naive_latency_rule :: "rat list \<Rightarrow> rat \<Rightarrow> nat \<Rightarrow> nat list" where
  "naive_latency_rule p99_series threshold_ms for_minutes =
     sustained_from for_minutes 0 0 (map (\<lambda>p99. threshold_ms < p99) p99_series)"

definition summarise :: "nat list \<Rightarrow> int \<Rightarrow> int \<Rightarrow> (int \<times> int \<times> nat \<times> int) option" where
  "summarise minutes incident_start incident_end =
     (if minutes = [] then None
      else let f = int (Min (set minutes)); m = int (Max (set minutes)) in
        Some (f, f - incident_start, length minutes, if incident_end \<le> m then max 0 (m - incident_end + 1) else 0))"

definition streak_after :: "bool list \<Rightarrow> nat \<Rightarrow> nat" where
  "streak_after conds s = fold (\<lambda>holds k. if holds then k + 1 else 0) conds s"

lemma sustained_from_append:
  "sustained_from w n s (xs @ ys) = sustained_from w n s xs @ sustained_from w (n + length xs) (streak_after xs s) ys"
  by (induction xs arbitrary: n s) (simp_all add: streak_after_def Let_def)

lemma streak_is_suffix: "streak_after xs 0 = length (takeWhile (\<lambda>x. x) (rev xs))"
  by (induction xs rule: rev_induct) (simp_all add: streak_after_def)

lemma long_prefix_iff: "w \<le> length (takeWhile P xs) \<longleftrightarrow> w \<le> length xs \<and> (\<forall>j<w. P (xs ! j))"
proof (induction xs arbitrary: w)
  case (Cons x xs)
  then show ?case by (cases w) (auto simp: less_Suc_eq_0_disj)
qed auto

lemma sustained_iff_streak: "m \<in> set (sustained conds w) \<longleftrightarrow> m < length conds \<and> w \<le> streak_after (take (Suc m) conds) 0"
proof (induction conds rule: rev_induct)
  case (snoc c conds)
  have "sustained (conds @ [c]) w = sustained conds w @ (if w \<le> streak_after (conds @ [c]) 0 then [length conds] else [])"
    by (simp add: sustained_def sustained_from_append) (simp add: streak_after_def)
  moreover have "take (Suc m) (conds @ [c]) = (if m < length conds then take (Suc m) conds else conds @ [c])" by simp
  ultimately show ?case using snoc by (auto simp: less_Suc_eq)
qed (simp add: sustained_def)

text \<open>
  The \<^verbatim>\<open>for:\<close> clause does what it says: a rule fires at minute \<open>m\<close> iff its condition held at the last \<open>w\<close>
  evaluations, \<open>m\<close> included, and there have been as many; the naive latency rule is that clause on the p99 series.
\<close>

theorem sustained_correct:
  "m \<in> set (sustained conds w) \<longleftrightarrow> m < length conds \<and> w \<le> Suc m \<and> list_all (\<lambda>x. x) (drop (Suc m - w) (take (Suc m) conds))"
proof (cases "m < length conds")
  case True
  let ?xs = "take (Suc m) conds"
  have len: "length ?xs = Suc m" using True by simp
  have "(\<forall>j<w. rev ?xs ! j) \<longleftrightarrow> list_all (\<lambda>x. x) (drop (Suc m - w) ?xs)" if "w \<le> Suc m"
  proof -
    have "(\<forall>j<w. rev ?xs ! j) \<longleftrightarrow> list_all (\<lambda>x. x) (take w (rev ?xs))" using that len by (auto simp: list_all_length)
    also have "take w (rev ?xs) = rev (drop (Suc m - w) ?xs)" using len by (simp add: take_rev)
    finally show ?thesis by simp
  qed
  with True len show ?thesis by (auto simp: sustained_iff_streak streak_is_suffix long_prefix_iff)
qed (simp add: sustained_iff_streak)

lemma naive_rule_is_sustained: "naive_latency_rule ps t w = sustained (map (\<lambda>p. t < p) ps) w"
  by (simp add: naive_latency_rule_def sustained_def)

subsection \<open>The burn-rate alert\<close>

record second_counts =
  slow_count :: int
  error_count :: int
  total_count :: int

definition bad_count :: "bool \<Rightarrow> second_counts list \<Rightarrow> int" where
  "bad_count include_latency rows = sum_list (map (\<lambda>r. error_count r + (if include_latency then slow_count r else 0)) rows)"

definition observed_window :: "second_counts list \<Rightarrow> nat \<Rightarrow> nat \<Rightarrow> second_counts list" where
  "observed_window seconds now window = drop (now - window) (take (now + 1) seconds)"

text \<open>\<^verbatim>\<open>burn\<close>, in doubles; the part of the window before the incident is filled with healthy history.\<close>

definition burn :: "second_counts list \<Rightarrow> bool \<Rightarrow> nat \<Rightarrow> nat \<Rightarrow> rat" where
  "burn seconds include_latency now window =
     (let observed = observed_window seconds now window;
          missing = int window - int (length observed);
          base = (if include_latency then fl (fl (2 / 10000) + fl (1 / 10000)) else fl (2 / 10000));
          bad = fl (of_int (bad_count include_latency observed) + fl (of_int (missing * 100) * base)) in
      fl (fl (bad / of_nat (window * 100)) / fl (1 - fl (999 / 1000))))"

text \<open>The scan: \<open>ats\<close> are the evaluation times still to come, the option is \<^verbatim>\<open>pending_since\<close>.\<close>

fun alert_scan :: "(nat \<Rightarrow> bool) \<Rightarrow> nat \<Rightarrow> nat list \<Rightarrow> nat option \<Rightarrow> nat option" where
  "alert_scan firing for_seconds [] pending = None"
| "alert_scan firing for_seconds (t # ats) pending =
     (if firing t then
        (case pending of
           None \<Rightarrow> alert_scan firing for_seconds ats (Some t)
         | Some since \<Rightarrow> if for_seconds \<le> t - since then Some since else alert_scan firing for_seconds ats pending)
      else alert_scan firing for_seconds ats None)"

definition burn_rate_alert :: "second_counts list \<Rightarrow> bool \<Rightarrow> rat \<Rightarrow> nat \<Rightarrow> nat option" where
  "burn_rate_alert seconds include_latency factor for_seconds =
     alert_scan (\<lambda>t. factor < burn seconds include_latency t 3600 \<and> factor < burn seconds include_latency t 300)
       for_seconds (map (\<lambda>k. 30 * k) [0..<80]) None"

lemma find_skip: "\<forall>x\<in>set xs. \<not> P x \<Longrightarrow> find P (xs @ ys) = find P ys"
  by (induction xs) auto

lemma upt_split: "p \<le> n \<Longrightarrow> n \<le> N \<Longrightarrow> [p..<N] = [p..<n] @ [n..<N]"
  by (metis le_add_diff_inverse upt_add_eq_append)

text \<open>The scan finds the first evaluation at which the condition starts to hold for long enough, within the run.\<close>

lemma alert_scan_find:
  fixes f :: "nat \<Rightarrow> bool" and k N :: nat
  defines "P \<equiv> \<lambda>q. q + k < N \<and> (\<forall>j\<le>k. f (30 * (q + j)))"
  assumes "0 < k" "n + d = N"
  shows "(\<forall>p<n. n \<le> p + k \<longrightarrow> (\<forall>j. p \<le> j \<and> j < n \<longrightarrow> f (30 * j)) \<longrightarrow>
      alert_scan f (30 * k) (map ((*) 30) [n..<N]) (Some (30 * p)) = map_option ((*) 30) (find P [p..<N])) \<and>
    alert_scan f (30 * k) (map ((*) 30) [n..<N]) None = map_option ((*) 30) (find P [n..<N])"
  using assms(3)
proof (induction d arbitrary: n)
  case 0
  have "find P [p..<N] = None" if "N \<le> p + k" for p using that by (auto simp: find_None_iff P_def)
  with 0 show ?case by simp
next
  case (Suc d)
  then have upt: "[n..<N] = n # [Suc n..<N]" and nN: "n < N" by (simp_all add: upt_rec)
  have IH: "(\<forall>p<Suc n. Suc n \<le> p + k \<longrightarrow> (\<forall>j. p \<le> j \<and> j < Suc n \<longrightarrow> f (30 * j)) \<longrightarrow>
      alert_scan f (30 * k) (map ((*) 30) [Suc n..<N]) (Some (30 * p)) = map_option ((*) 30) (find P [p..<N])) \<and>
    alert_scan f (30 * k) (map ((*) 30) [Suc n..<N]) None = map_option ((*) 30) (find P [Suc n..<N])"
    using Suc.prems by (intro Suc.IH) simp
  have skip: "find P [p..<N] = find P [Suc n..<N]" if "\<not> f (30 * n)" "p \<le> n" "n \<le> p + k" for p
  proof -
    have "\<not> P q" if "q \<in> set [p..<Suc n]" for q
    proof
      assume "P q"
      then have "f (30 * (q + (n - q)))" using that \<open>n \<le> p + k\<close> unfolding P_def by auto
      moreover have "q + (n - q) = n" using that by auto
      ultimately show False using \<open>\<not> f (30 * n)\<close> by simp
    qed
    then show ?thesis using upt_split [of p "Suc n" N] that(2) nN find_skip [of "[p..<Suc n]" P] by simp
  qed
  have pend: "alert_scan f (30 * k) (map ((*) 30) [n..<N]) (Some (30 * p)) = map_option ((*) 30) (find P [p..<N])"
    if "p < n" "n \<le> p + k" "\<forall>j. p \<le> j \<and> j < n \<longrightarrow> f (30 * j)" for p
  proof (cases "f (30 * n)")
    case True
    have all: "\<forall>j. p \<le> j \<and> j < Suc n \<longrightarrow> f (30 * j)" using that(3) True by (auto simp: less_Suc_eq)
    show ?thesis
    proof (cases "n = p + k")
      case True
      then have "f (30 * (p + j))" if "j \<le> k" for j using all [rule_format, of "p + j"] that by simp
      then have "P p" using True nN unfolding P_def by simp
      moreover have "[p..<N] = p # [Suc p..<N]" using that(1) nN by (simp add: upt_rec)
      moreover have "30 * k \<le> 30 * n - 30 * p" using True by simp
      then have "alert_scan f (30 * k) (map ((*) 30) [n..<N]) (Some (30 * p)) = Some (30 * p)"
        using \<open>f (30 * n)\<close> unfolding upt by simp
      ultimately show ?thesis by simp
    next
      case False
      with that(1,2) have "\<not> 30 * k \<le> 30 * n - 30 * p" by simp
      with IH all that(1,2) False \<open>f (30 * n)\<close> show ?thesis by (simp add: upt)
    qed
  qed (use IH skip that in \<open>simp add: upt\<close>)
  moreover have "alert_scan f (30 * k) (map ((*) 30) [n..<N]) None = map_option ((*) 30) (find P [n..<N])"
  proof (cases "f (30 * n)")
    case True
    have "\<forall>j. n \<le> j \<and> j < Suc n \<longrightarrow> f (30 * j)" using True by (auto simp: le_less_Suc_eq)
    then have "alert_scan f (30 * k) (map ((*) 30) [Suc n..<N]) (Some (30 * n)) = map_option ((*) 30) (find P [n..<N])"
      using IH assms(2) by simp
    moreover have "alert_scan f (30 * k) (map ((*) 30) [n..<N]) None = alert_scan f (30 * k) (map ((*) 30) [Suc n..<N]) (Some (30 * n))"
      using True unfolding upt by simp
    ultimately show ?thesis by simp
  qed (use IH skip [of n] in \<open>simp add: upt\<close>)
  ultimately show ?case by blast
qed

text \<open>
  The alert reports the start of the first run of true evaluations that lasts its \<^verbatim>\<open>for\<close> time within the replay, here
  for a \<^verbatim>\<open>for\<close> time of \<open>k > 0\<close> evaluation intervals; a run that the replay cuts short is not reported.
\<close>

definition burning :: "second_counts list \<Rightarrow> bool \<Rightarrow> rat \<Rightarrow> nat \<Rightarrow> bool" where
  "burning seconds include_latency factor t =
     (factor < burn seconds include_latency t 3600 \<and> factor < burn seconds include_latency t 300)"

theorem alert_reports_first_run:
  assumes "0 < k"
  shows "burn_rate_alert seconds lat factor (30 * k) =
    map_option ((*) 30) (find (\<lambda>q. q + k < 80 \<and> list_all (\<lambda>j. burning seconds lat factor (30 * (q + j))) [0..<Suc k]) [0..<80])"
  using alert_scan_find [OF assms, of 0 80 80 "burning seconds lat factor"]
  by (simp add: burn_rate_alert_def burning_def [abs_def] list_all_iff Ball_def less_Suc_eq_le del: upt_Suc)

theorem alert_reports_first_run_witness:
  "burn_rate_alert [] True (144 / 10) (30 * 4) =
    map_option ((*) 30) (find (\<lambda>q. q + 4 < 80 \<and> list_all (\<lambda>j. burning [] True (144 / 10) (30 * (q + j))) [0..<Suc 4]) [0..<80])"
  by (rule alert_reports_first_run) simp

text \<open>Once the incident is older than the window, the window holds one second more than its length.\<close>

lemma window_is_one_second_long:
  assumes "window \<le> now" "now < length seconds"
  shows "length (observed_window seconds now window) = window + 1"
  using assms by (simp add: observed_window_def)

end
