(* ===== verification/Spec2Isabelle.thy ===== *)
theory Spec2Isabelle
  imports Craft_Pagination Craft_Money Craft_Resilience Craft_Idempotency Lab_Chain
    Dist_Fencing Dist_Events Dist_Ledger Dist_Sessions Dist_Keys Dist_Clocks Net_Service Net_Dns Sim_Shedder Sec_Pkce Sec_Access Sim_Charges Sim_Storm Sim_Deadlines Sim_Metastable Sim_Fanout Data_Locks Edge_Gateway Obs_Signals
begin

text \<open>
  Verification of the Engineering Depth Lab

  The repository is a course in ten layers. Much of its Python measures operating systems, databases
  and networks from outside; modelled here are the programs whose own logic is the subject. Three of them are
  large: the order service of \<^verbatim>\<open>08-craft/lab/api/app\<close>, the failure lab service
  of \<^verbatim>\<open>05-failure/lab/app\<close>, and the protocols of \<^verbatim>\<open>04-distributed\<close> with their container
  versions in \<^verbatim>\<open>04-distributed/docker/services/app\<close>. The others are single programs: the lab service of
  \<^verbatim>\<open>02-network\<close>, the transfer program of \<^verbatim>\<open>03-data\<close>, stand-alone simulations of \<^verbatim>\<open>05-failure\<close>, and demonstrations of
  \<^verbatim>\<open>06-observability\<close> and \<^verbatim>\<open>07-security\<close>. Theory names begin with the layer: \<open>Craft_\<close>, \<open>Lab_\<close>
  (the failure lab), \<open>Dist_\<close>, \<open>Net_\<close>, \<open>Data_\<close>, \<open>Sim_\<close> (the failure simulations), \<open>Obs_\<close>, \<open>Sec_\<close>, \<open>Edge_\<close>;
  \<open>Py\<close> marks models of Python and its standard library.

  Conventions

  A class or a table row is a \<^verbatim>\<open>record\<close>, an exception is the left side of a sum, an optional value is
  an \<open>option\<close>. Python integers are \<open>int\<close>. A Python float is the rational it denotes and every float
  operation is the exact operation followed by the rounding \<open>fl\<close> of \<open>PyFloat\<close>. A \<^verbatim>\<open>dict\<close> is
  a map, or an association list where its order shows. Each function takes the state it changes and returns it
  changed. Concurrent code is cut at the points where another task can run (an \<^verbatim>\<open>await\<close>, a database
  statement outside a transaction, a transaction boundary); a schedule is a list of events, or a derivation of a
  reachability predicate, and the theorems hold for all of them.

  What enters from outside is an argument: clock readings, random draws, the answers of Redis, Postgres, Kafka
  and of an HTTP client, the order in which the event loop resumes tasks, the square root of the C library, the
  SHA-256 fingerprint of a body, and \<^verbatim>\<open>repr\<close> of floats and nested JSON. Theorems that need something
  of such an argument say so in a premise, and their witness instantiates it.

  Support

  \<^item> \<open>Lab_Prelude\<close>: exceptions, JSON values, \<^verbatim>\<open>str\<close> of integers, Python indexing, list lemmas.
  \<^item> \<open>PyFloat\<close>: binary64 rounding on rationals. The locale \<open>rounding\<close> states the two laws all
    float bounds rest on (monotone; the identity on representable numbers); \<open>dbl\<close> interprets it on \<open>fl\<close>.
  \<^item> \<open>PyText\<close>: \<^verbatim>\<open>strip\<close>, \<^verbatim>\<open>lower\<close>, \<^verbatim>\<open>int\<close>, \<^verbatim>\<open>float\<close> and \<^verbatim>\<open>str\<close> on ASCII text.
  \<^item> \<open>Token_Bucket\<close>: the contract of every budget that earns shares of a token and spends whole
    tokens, as the locale \<open>token_bucket\<close>. The bound on what a bucket grants is proved once inside it;
    every budget of the programs below interprets it. \<open>earned\<close> follows a bucket one operation at a time.
  \<^item> \<open>Py_Semaphore\<close>: \<^verbatim>\<open>asyncio.Semaphore\<close> with its queue, and the contract of a program that uses
    one, as the locale \<open>semaphore_client\<close>; \<open>task_semaphore\<close> is its instance for a pool of tasks of which each
    has one stance towards the semaphore.
  \<^item> \<open>Sim_Tasks\<close>: how a shared number follows a list of tasks, as the locales \<open>task_potential\<close> (an amount grows
    at most by what the moving task gives up) and \<open>task_books\<close> (a gauge is the sum over the tasks); the second is
    a \<^verbatim>\<open>sublocale\<close> of the first in both directions.

  The order service (08-craft/lab/api/app)

  \<^item> \<open>Craft_Pagination\<close> (\<^verbatim>\<open>core/pagination.py\<close>): the three page functions and the walk over
    cursors. The locale \<open>keyset\<close> states what a keyset page returns; it is interpreted on \<open>page\<close> and
    \<open>page_composite\<close>, so one induction gives the completeness of both walks: unconditional for the composite
    key, only without ties for the single column. A walk takes a page budget, since \<open>page_inclusive\<close>
    can serve one page forever; completeness is proved for any budget above the number of rows.
  \<^item> \<open>Craft_Money\<close> (\<^verbatim>\<open>core/money.py\<close>): both splits, on all integers.
  \<^item> \<open>Craft_Errors\<close> (\<^verbatim>\<open>core/errors.py\<close>, \<^verbatim>\<open>core/config.py\<close>): the error hierarchy, the exception
    handlers and the settings.
  \<^item> \<open>Craft_Resilience\<close> (\<^verbatim>\<open>core/resilience.py\<close>, the middleware of \<^verbatim>\<open>main.py\<close>): deadline, sliding-window
    retry budget, retry loop, latency breaker. The retry loop is bounded by its attempt argument.
  \<^item> \<open>Craft_Orders\<close> (\<^verbatim>\<open>deep/\<close>, \<^verbatim>\<open>shallow/\<close>, \<^verbatim>\<open>crud/\<close>, \<^verbatim>\<open>duplicated/\<close>, \<^verbatim>\<open>shared/\<close>, routers, services and
    repositories): every endpoint over an order table, a query being an operation on the list of rows. The deep and
    the shallow design are proved to answer identically.
  \<^item> \<open>Craft_Idempotency\<close> (\<^verbatim>\<open>services/idempotency.py\<close>): both charge functions as step relations.

  The failure lab (05-failure/lab/app)

  \<^item> \<open>Lab_Config\<close> (\<^verbatim>\<open>config.py\<close>) and \<open>Lab_Metrics\<close> (\<^verbatim>\<open>metrics.py\<close>): the typed table of settings
    every other module reads, and the counters every other module writes.
  \<^item> \<open>Lab_Deadline\<close> (\<^verbatim>\<open>deadline.py\<close>): the deadline header and the budgets derived from it.
  \<^item> \<open>Lab_Retry\<close> (\<^verbatim>\<open>retry.py\<close>): the retry loop recurs on the attempts left (a measure), and the
    attempt is a function on the whole process state.
  \<^item> \<open>Lab_Shed\<close> (\<^verbatim>\<open>shed.py\<close>): admission control with its condition variable: waiting
    tasks, woken tasks and the one lock are part of the state.
  \<^item> \<open>Lab_Fanout\<close> (\<^verbatim>\<open>fanout.py\<close>): hedge budget, latency window, hedged call.
  \<^item> \<open>Lab_Idempotency\<close> (\<^verbatim>\<open>idempotency.py\<close>, tables of \<^verbatim>\<open>db.py\<close>): the naive and the claiming
    mode. A key is charged at most once more than its claim was taken over from a caller at work (\<open>takeovers\<close>), and nothing
    is taken over in a \<open>timely_run\<close>, where holders finish within the TTL; a companion theorem shows two charges after a takeover.
  \<^item> \<open>Lab_Backends\<close> (\<^verbatim>\<open>faults.py\<close>, \<^verbatim>\<open>cache.py\<close>, \<^verbatim>\<open>db.py\<close>).
  \<^item> \<open>Lab_Service\<close> (\<^verbatim>\<open>main.py\<close>): \<open>run_handler\<close>, the path every request takes through
    deadline, admission, work, release and accounting, and each endpoint as the work it passes to it. The
    process state is one record that extends the state of the modules above.
  \<^item> \<open>Lab_Requests\<close>: \<open>run_handler\<close> cut at its awaits, so that any number of requests run interleaved over one process and can
    be cancelled while they wait or work; \<open>run_handler_sections\<close> shows that an undisturbed request does what \<open>run_handler\<close>
    does, \<open>endpoint_work_quiet\<close> that no endpoint touches the books of the handler.
  \<^item> \<open>Lab_Chain\<close>: compositions: gateway, service-b and service-c of \<^verbatim>\<open>docker-compose.yml\<close>, each the whole \<^verbatim>\<open>/chain\<close> handler over
    the state of the next (\<open>serve_hop\<close>; an attempt the client gives up runs to its end before the next one is sent),
    and a payment whose first answer is lost on the way.

  The distributed protocols (04-distributed)

  \<^item> \<open>Dist_Lease\<close>: the lease and fencing tables shared by \<^verbatim>\<open>fencing_demo.py\<close> and \<^verbatim>\<open>relay7.py\<close>, and the
    laws of a lease protocol as three locales, each extending the one before: \<open>lease_protocol\<close> (no two processes
    believe in one epoch), \<open>fenced_protocol\<close> (accepted writes never go back) and \<open>strict_protocol\<close> (an
    epoch writes a row at most once).
  \<^item> \<open>Dist_Fencing\<close>: the two process loops, one SQL statement per step, and the interpretations: the demo
    satisfies the strict contract, the container relay only the fenced one.
  \<^item> \<open>Dist_Outbox\<close> (\<^verbatim>\<open>hwm_skip.py\<close>, \<^verbatim>\<open>outbox_relay.py\<close>): writers and relays as transactions. The relays
    that select unpublished rows refine an abstract queue, \<open>queue_step\<close>; the high-water-mark relay is
    shown to lose rows.
  \<^item> \<open>Dist_Events\<close> (\<^verbatim>\<open>payments6.py\<close>, \<^verbatim>\<open>relay6.py\<close>): the outbox extended by a broker and a consumer, as
    one state machine with crashes between any two steps. \<open>swallowed\<close> records the offsets at which the consumer raised;
    \<open>drain\<close> builds the run that delivers everything else.
  \<^item> \<open>Dist_Ledger\<close> (\<^verbatim>\<open>ambiguous_result.py\<close>, \<^verbatim>\<open>ledger.py\<close>, \<^verbatim>\<open>payments1.py\<close>): what a client may retry
    when it does not know what happened. The premise \<open>honest\<close> is the documented meaning of the
    client's errors: a connect error or a pool timeout means that nothing was sent.
  \<^item> \<open>Dist_Sessions\<close> (\<^verbatim>\<open>session_guarantees.py\<close>, \<^verbatim>\<open>api4.py\<close>): replicas that lag, tokens that make reads
    fresh, and the checker. The replication loop terminates by the distance to its target; the polling loop of the
    service is a \<^verbatim>\<open>partial_function\<close>, and \<open>lsn_wait_returns\<close> proves that it returns
    whenever the clock passes the deadline.
  \<^item> \<open>Dist_Keys\<close> (\<^verbatim>\<open>idempotency_race.py\<close>, \<^verbatim>\<open>payments2.py\<close>): the three idempotency handlers, one
    statement per step, under concurrent duplicates. The locale \<open>claim_protocol\<close> states what claiming a key
    promises, \<open>claim_progress\<close> adds that a claimant finishes; the insert-first and the lock-first handler
    interpret both, the select-first handler is shown to charge twice.
  \<^item> \<open>Dist_Clocks\<close> (\<^verbatim>\<open>lww_writers.py\<close>): the three conditional writes under skewed clocks, and the count of
    writes that were acknowledged and lost.

  Network, data, simulations, observability, security, edge

  \<^item> \<open>Net_Service\<close> (\<^verbatim>\<open>02-network/lab/api/app.py\<close>): deadline, retry budget, breaker, \<^verbatim>\<open>/order\<close> in its
    four profiles and the admission middleware, any number of requests interleaved at their awaits. \<open>net_tb\<close>
    interprets \<open>token_bucket\<close> on its budget.
  \<^item> \<open>Net_Dns\<close> (\<^verbatim>\<open>02-network/05-.../pool_outlives_dns.py\<close>): a TTL resolver and pooled clients with lifetime policies while
    a name moves. The recovery theorem assumes clock readings in order around the switch (\<open>read_until\<close>,
    \<open>settled_name\<close>); the theorem against recovery assumes load without an idle gap (\<open>steady_load\<close>).
  \<^item> \<open>Sim_Shedder\<close> (\<^verbatim>\<open>05-failure/05-.../shedder.py\<close>): the gradient limit, the admission modes, bulkheads and
    \<^verbatim>\<open>Server.handle\<close>. The interpretations \<open>adm\<close> and \<open>pool\<close> give the guarantees of \<open>Py_Semaphore\<close> for the
    admission semaphore and for each backend pool, \<open>shed_books\<close> the gauges.
  \<^item> \<open>Sim_Storm\<close> (\<^verbatim>\<open>05-failure/03-.../retry_storm.py\<close>): three hops that retry, over one leaf. A request is the stack
    of the retry loops it is in. The locale \<open>storm_measure\<close> bounds an amount by what the stacks may still add; it is
    interpreted for all calls (27 a request), for calls beyond the first (paid by retries, which \<open>storm_tb\<close>
    bounds) and for the edge-only variant (three, and three more per outer timeout).
  \<^item> \<open>Sim_Metastable\<close> (\<^verbatim>\<open>05-failure/04-.../metastable.py\<close>): clients, cache and pool, and the operator who flushes,
    sheds, budgets or restarts. A restart starts a new generation of the process, so the servers are a list and the
    interpretations \<open>meta_pool\<close> and \<open>meta_books\<close> hold for every generation; \<open>meta_attempts\<close> bounds the attempts, \<open>meta_tb\<close> the
    retries under a budget. The theorem on the outage assumes that no query beats its deadline (\<open>no_query_in_time\<close>).
  \<^item> \<open>Sim_Fanout\<close> (\<^verbatim>\<open>05-failure/06-.../fanout.py\<close>): k backends, legs that may hedge under a budget, and the open-model run
    around them. Each leg has two call tasks, so \<open>fan_workers\<close> interprets \<open>task_semaphore\<close> on the list of calls of every backend,
    \<open>fan_accounts\<close> and \<open>fan_cells\<close> interpret \<open>task_books\<close> on the legs and the requests, \<open>fan_decisions\<close> bounds the
    decisions to hedge and \<open>fan_tb\<close> what the budget grants. The percentile theorem compares the two records of a closed-loop user.
  \<^item> \<open>Sim_Deadlines\<close> (\<^verbatim>\<open>05-failure/02-.../deadline_chain.py\<close>): gateway, two services and a database pool. A request has two
    halves that move on their own, the caller and the query task it may abandon. \<open>chain_pool\<close> interprets
    \<open>semaphore_client\<close> on the pool, \<open>chain_books\<close> interprets \<open>task_books\<close> on the counters. The theorem on killed
    queries assumes a clock that does not go back (\<open>steady_from\<close>).
  \<^item> \<open>Data_Locks\<close> (\<^verbatim>\<open>03-data/05-.../deadlock_ordering.py\<close>, parts of \<^verbatim>\<open>lab_db.py\<close>): transfers under row locks taken in
    argument order or in order of the id, one statement per step, with deadlocks, serialization failures and lost
    connections. The locale \<open>wait_order\<close> derives from a rank that grows along the waits-for graph that nobody waits for
    himself and that somebody is free to run; \<open>order_waits\<close> interprets it on the reachable states of the ordered variant.
  \<^item> \<open>Sim_Charges\<close> (\<^verbatim>\<open>05-failure/07-.../idempotency.py\<close>): the charge endpoint in its implementations, with
    failing statements, ambiguous commits and dying requests. The locale \<open>once_per_key\<close> is interpreted three times:
    on the single transaction (always), on claim-then-execute (while no unfinished claim outlives its
    TTL), on the naive version (with a pool of one connection and requests served one at a time).
  \<^item> \<open>Obs_Signals\<close> (\<^verbatim>\<open>cardinality_overflow.py\<close>, \<^verbatim>\<open>page_worthiness.py\<close>, \<^verbatim>\<open>burn_rate.py\<close>,
    \<^verbatim>\<open>detection_gap.py\<close>): the counter with a cardinality limit refines the log of its increments; the
    \<^verbatim>\<open>for:\<close> clause and the two-window burn-rate alert report the first sustained run.
  \<^item> \<open>Sec_Pkce\<close> (\<^verbatim>\<open>pkce_flow.py\<close>): the authorization server under its four switches, against any sequence
    of authorizations and redemptions by anyone.
  \<^item> \<open>Sec_Access\<close> (\<^verbatim>\<open>idor_enumeration.py\<close>, parts C of \<^verbatim>\<open>crypto_ratelimit.py\<close> and \<^verbatim>\<open>jwt_demo.py\<close>): who can
    read which invoice, how many guesses each attempt limiter lets through, what revocation costs.

  \<^item> \<open>Edge_Gateway\<close> (\<^verbatim>\<open>10-edge/02-.../prompt_layout.py\<close>, \<^verbatim>\<open>10-edge/lab/gateway/app.py\<close>): what two prompts share in
    either layout, and the gateway from the handler through its response generator, with shadow requests beside it.
    \<open>gw_books\<close> interprets \<open>task_books\<close> on its counters; the shadow theorem compares with the gateway without a shadow target.

  The lemmas of a component come in three groups: frame lemmas (which part of the state an operation leaves alone,
  mostly simplification rules), one preservation lemma per operation for the invariant, and the
  properties, each introduced by a text block with its number in the manifest. A property with
  premises is followed by a witness that applies it to a concrete run.

  Not modelled

  Infinities and NaN (no modelled quantity comes near them); non-ASCII text; the Prometheus exporter,
  tracing, logging and printed reports; start-up, shutdown and response serialisation of the web frameworks; the
  internals of connection pools, drivers, brokers and the event loop, of which only the observable answers and the order
  of steps enter. Transactions are atomic at their commit, which is what the sources rely on at the isolation
  level they use.

  Of the other layers, 01-machine and the rest of 02-network and 03-data measure the kernel, sockets and the database
  server; the rest of 06-observability and 07-security drives third-party exporters, servers and parsers; 09-writing and
  the rest of 10-edge check documents and run array-library experiments. Of the stand-alone scripts of 05-failure the ones not
  named above are random simulations of mechanisms the lab service contains, and the lab versions are
  modelled. Command-line drivers, load generators and reports of the modelled programs are left out. Code in other
  languages is out of scope.

  Open work: the scheduler simulation \<^verbatim>\<open>cfs_sim.py\<close>, \<^verbatim>\<open>latency_knee.py\<close> of 05-failure, and the arrival processes
  of the failure simulations.
\<close>

end
